(* ===== verification/Bridge_Prelude.thy ===== *)
theory Bridge_Prelude
  imports Main "HOL-Library.Word" "HOL-Library.Multiset"
begin

text \<open>
  What the component theories share: the names of Rust's machine types, slices and
  checked indexing (\<open>slice::get\<close>), big-endian integers (\<open>to_be_bytes\<close>,
  \<open>from_be_bytes\<close>), the clock types, and the fact collections the component proofs
  are carried by.

  Lengths and positions (\<open>usize\<close>) are \<open>nat\<close>: every value the modelled code computes
  with them is bounded by a buffer length plus a constant, far below \<open>2 ^ 64\<close>. A \<open>Duration\<close> and an
  \<open>Instant\<close> are counts of nanoseconds.
\<close>

unbundle bit_operations_syntax

section \<open>Types\<close>

type_synonym u8 = "8 word"
type_synonym u16 = "16 word"
type_synonym u32 = "32 word"
type_synonym u64 = "64 word"
type_synonym bytes = "u8 list"
type_synonym duration = nat
type_synonym instant = nat

abbreviation secs :: "nat \<Rightarrow> duration" where
  "secs n \<equiv> n * 1000000000"

abbreviation millis :: "nat \<Rightarrow> duration" where
  "millis n \<equiv> n * 1000000"

section \<open>Fact collections\<close>

named_theorems slice_simps \<open>checked indexing and slicing\<close>
named_theorems wire_simps \<open>big-endian integers on the wire\<close>
named_theorems step_inv \<open>preservation of a component's invariant by one operation\<close>

section \<open>Checked indexing\<close>

text \<open>\<open>xs.get(i)\<close> and \<open>xs.get(a..b)\<close>: \<open>None\<close> where Rust's panicking index would stop.\<close>

definition get_at :: "'a list \<Rightarrow> nat \<Rightarrow> 'a option" where
  "get_at xs i = (if i < length xs then Some (xs ! i) else None)"

definition get_range :: "'a list \<Rightarrow> nat \<Rightarrow> nat \<Rightarrow> 'a list option" where
  "get_range xs a b = (if a \<le> b \<and> b \<le> length xs then Some (take (b - a) (drop a xs)) else None)"

lemma get_at_Some_iff: "get_at xs i = Some x \<longleftrightarrow> i < length xs \<and> xs ! i = x"
  by (auto simp: get_at_def)

lemma get_at_None_iff [slice_simps]: "get_at xs i = None \<longleftrightarrow> length xs \<le> i"
  by (auto simp: get_at_def)

lemma get_at_Cons_0 [simp, slice_simps]: "get_at (x # xs) 0 = Some x"
  by (simp add: get_at_def)

lemma get_at_Nil [simp, slice_simps]: "get_at [] i = None"
  by (simp add: get_at_def)

lemma get_at_Cons_Suc [simp, slice_simps]: "get_at (x # xs) (Suc i) = get_at xs i"
  by (simp add: get_at_def)

lemma get_at_append_length [simp, slice_simps]: "get_at (xs @ y # ys) (length xs) = Some y"
  by (simp add: get_at_def)

lemma get_range_Some_iff:
  "get_range xs a b = Some ys \<longleftrightarrow> a \<le> b \<and> b \<le> length xs \<and> ys = take (b - a) (drop a xs)"
  by (auto simp: get_range_def)

lemma get_range_append [simp, slice_simps]:
  "get_range (xs @ ys @ zs) (length xs) (length xs + length ys) = Some ys"
  by (simp add: get_range_def)

lemma length_get_range: "get_range xs a b = Some ys \<Longrightarrow> length ys = b - a"
  by (auto simp: get_range_def split: if_splits)

text \<open>A slice taken out of a list splits it in three.\<close>

lemma take_drop_split3:
  assumes "a \<le> b" "b \<le> length xs"
  shows "xs = take a xs @ take (b - a) (drop a xs) @ drop b xs"
proof -
  have "drop a xs = take (b - a) (drop a xs) @ drop (b - a) (drop a xs)"
    by (rule append_take_drop_id [symmetric])
  moreover have "drop (b - a) (drop a xs) = drop b xs"
    using assms(1) by simp
  ultimately show ?thesis
    by (metis append_take_drop_id)
qed

text \<open>\<open>Option::get_or_insert\<close>: the value held afterwards.\<close>

definition get_or_insert :: "'a option \<Rightarrow> 'a \<Rightarrow> 'a" where
  "get_or_insert held x = (case held of Some y \<Rightarrow> y | None \<Rightarrow> x)"

lemma get_or_insert_simps [simp]: "get_or_insert (Some y) x = y" "get_or_insert None x = x"
  by (simp_all add: get_or_insert_def)

section \<open>Results\<close>

text \<open>\<open>Result\<close> is a sum with the error on the left; \<open>ok_or\<close> and the question-mark operator.\<close>

definition ok_or :: "'a option \<Rightarrow> 'e \<Rightarrow> 'e + 'a" where
  "ok_or x e = (case x of Some y \<Rightarrow> Inr y | None \<Rightarrow> Inl e)"

definition and_then :: "'e + 'a \<Rightarrow> ('a \<Rightarrow> 'e + 'b) \<Rightarrow> 'e + 'b" where
  "and_then r f = (case r of Inl e \<Rightarrow> Inl e | Inr x \<Rightarrow> f x)"

lemma ok_or_simps [simp]: "ok_or (Some y) e = Inr y" "ok_or None e = Inl e"
  by (simp_all add: ok_or_def)

lemma ok_or_Inr [simp]: "ok_or x e = Inr y \<longleftrightarrow> x = Some y"
  by (simp add: ok_or_def split: option.split)

lemma and_then_simps [simp]: "and_then (Inr x) f = f x" "and_then (Inl e) f = Inl e"
  by (simp_all add: and_then_def)

lemma and_then_Inr_iff: "and_then r f = Inr y \<longleftrightarrow> (\<exists>x. r = Inr x \<and> f x = Inr y)"
  by (simp add: and_then_def split: sum.split)

section \<open>Bits of narrow words\<close>

lemma not_bit_u8 [simp]: "8 \<le> n \<Longrightarrow> \<not> bit (w :: u8) n"
  by (auto dest: bit_imp_le_length)

lemma not_bit_u16 [simp]: "16 \<le> n \<Longrightarrow> \<not> bit (w :: u16) n"
  by (auto dest: bit_imp_le_length)

lemma bit_u16_less: "bit (w :: u16) n \<Longrightarrow> n < 16"
  using not_bit_u16 not_less by blast

lemma u8_less_256 [simp]: "unat (w :: u8) < 256"
  using unsigned_less [of w] by simp

lemma unat_word_of_nat:
  "n < 2 ^ LENGTH('a) \<Longrightarrow> unat (word_of_nat n :: 'a :: len word) = n"
  by (simp add: unsigned_of_nat take_bit_nat_eq_self)

lemma unat_word_of_nat_u8: "n < 256 \<Longrightarrow> unat (word_of_nat n :: u8) = n"
  by (rule unat_word_of_nat) simp

lemma unat_word_of_nat_u16: "n < 2 ^ 16 \<Longrightarrow> unat (word_of_nat n :: u16) = n"
  by (rule unat_word_of_nat) simp

lemma u8_take_bit_iff: "n < 8 \<Longrightarrow> take_bit n (v :: u8) = v \<longleftrightarrow> v < 2 ^ n"
proof -
  assume n: "n < 8"
  then have "(2 :: nat) ^ n < 2 ^ 8" by (intro power_strict_increasing) simp_all
  then have p: "unat (2 ^ n :: u8) = 2 ^ n" using unat_word_of_nat_u8 [of "2 ^ n"] by simp
  have "take_bit n v = v \<longleftrightarrow> take_bit n (unat v) = unat v"
    by (metis unsigned_take_bit_eq unsigned_word_eqI)
  also have "\<dots> \<longleftrightarrow> unat v < 2 ^ n"
    by (simp add: take_bit_nat_eq_self_iff)
  finally show ?thesis by (simp add: word_less_nat_alt p)
qed

lemma u8_mask_15: "(v :: u8) AND 15 = take_bit 4 v"
  by (simp add: take_bit_eq_mask mask_eq_exp_minus_1)

lemma u8_take_bit_1: "v < 2 \<Longrightarrow> take_bit (Suc 0) (v :: u8) = v"
  using u8_take_bit_iff [of 1 v] by simp

lemma u8_take_bit_4: "v < 16 \<Longrightarrow> take_bit 4 (v :: u8) = v"
  using u8_take_bit_iff [of 4 v] by simp

lemma not_bit_u8_less_16: "v < 16 \<Longrightarrow> 4 \<le> k \<Longrightarrow> \<not> bit (v :: u8) k"
  by (metis bit_take_bit_iff leD u8_take_bit_4)

lemma not_bit_u8_less_2: "v < 2 \<Longrightarrow> 0 < k \<Longrightarrow> \<not> bit (v :: u8) k"
  by (metis Suc_leI bit_take_bit_iff leD u8_take_bit_1)

lemma bit_u8_less_16D: "bit (v :: u8) k \<Longrightarrow> v < 16 \<Longrightarrow> k < 4"
  using not_bit_u8_less_16 not_less by blast

lemma u8_less_2: "(v :: u8) < 2 \<longleftrightarrow> v = 0 \<or> v = 1"
  by (auto simp: word_less_nat_alt word_unat_eq_iff less_2_cases_iff)

lemma u8_mod_2: "v < 2 \<Longrightarrow> (v :: u8) mod 2 = v"
  using u8_take_bit_1 [of v] by (simp add: take_bit_eq_mod)

lemma bit_nat_le: "bit (n :: nat) k \<Longrightarrow> 2 ^ k \<le> n"
  by (metis bit_iff_odd div_less dvd_0_right not_le)

lemma not_bit_nat: "n < 2 ^ k \<Longrightarrow> k \<le> j \<Longrightarrow> \<not> bit (n :: nat) j"
  by (meson bit_nat_le leD less_le_trans one_le_numeral power_increasing)

lemma bit_index_u8:
  "n < 8 \<Longrightarrow> n = 0 \<or> n = 1 \<or> n = 2 \<or> n = 3 \<or> n = 4 \<or> n = 5 \<or> n = 6 \<or> (n :: nat) = 7"
  by linarith

text \<open>A statement about every byte is a finite check.\<close>

lemma all_u8_iff: "(\<forall>b :: u8. P b) \<longleftrightarrow> list_all (\<lambda>n. P (word_of_nat n)) [0..<256]"
proof
  assume l: "list_all (\<lambda>n. P (word_of_nat n :: u8)) [0..<256]"
  have "P b" for b :: u8
  proof -
    have "unat b \<in> set [0..<256]" by simp
    with l have "P (word_of_nat (unat b))" by (simp only: list_all_iff)
    then show ?thesis by simp
  qed
  then show "\<forall>b. P b" by simp
qed (simp add: list_all_iff)

section \<open>Leading zeros and integer division\<close>

text \<open>\<open>leading_zeros k v\<close>: how many of the top bits of the \<open>k\<close>-bit value \<open>v\<close> are zero.\<close>

fun leading_zeros :: "nat \<Rightarrow> nat \<Rightarrow> nat" where
  "leading_zeros 0 v = 0"
| "leading_zeros (Suc k) v = (if bit v k then 0 else Suc (leading_zeros k v))"

lemma leading_zeros_range:
  "2 ^ e \<le> v \<Longrightarrow> v < 2 ^ Suc e \<Longrightarrow> e < k \<Longrightarrow> leading_zeros k v = k - 1 - e"
proof (induction k)
  case (Suc k)
  show ?case
  proof (cases "k = e")
    case True
    have "v div 2 ^ e = 1" using Suc.prems by (intro div_nat_eqI) auto
    then have "bit v e" by (simp add: bit_iff_odd)
    with True show ?thesis by simp
  next
    case False
    with Suc.prems have "\<not> bit v k" by (intro not_bit_nat [of v "Suc e"]) auto
    with False Suc show ?thesis by simp
  qed
qed simp

lemma int_le_div_iff: "0 < (c :: int) \<Longrightarrow> k \<le> n div c \<longleftrightarrow> k * c \<le> n"
proof
  assume c: "0 < c" and "k \<le> n div c"
  then have "k * c \<le> n div c * c" by (simp add: mult_right_mono)
  also have "\<dots> \<le> n" using c by (metis div_mult_mod_eq le_add_same_cancel1 pos_mod_sign)
  finally show "k * c \<le> n" .
next
  assume "0 < c" and "k * c \<le> n"
  then show "k \<le> n div c" by (metis less_irrefl nonzero_mult_div_cancel_right zdiv_mono1)
qed

lemma int_div_less_iff: "0 < (c :: int) \<Longrightarrow> n div c < k \<longleftrightarrow> n < k * c"
  using int_le_div_iff [of c k n] by linarith

section \<open>Octets for a number of bits\<close>

text \<open>\<open>n.div_ceil(8)\<close> is \<open>(n + 7) div 8\<close>.\<close>

lemma ceil8_le: "(n :: nat) \<le> 8 * ((n + 7) div 8)"
  using dividend_less_times_div [of 8 "n + 7"] by simp

lemma ceil8:
  "8 dvd n \<Longrightarrow> (n + 7) div 8 = (n :: nat) div 8"
  "\<not> 8 dvd n \<Longrightarrow> (n + 7) div 8 = Suc (n div 8)"
proof -
  define q r where "q = n div 8" and "r = n mod 8"
  have n: "n = 8 * q + r" "r < 8" by (simp_all add: q_def r_def)
  show "8 dvd n \<Longrightarrow> (n + 7) div 8 = n div 8" by (auto elim!: dvdE)
  assume "\<not> 8 dvd n"
  then have "r \<noteq> 0" by (simp add: r_def dvd_eq_mod_eq_0)
  with n have "(n + 7) div 8 = Suc q" by (intro div_nat_eqI) auto
  then show "(n + 7) div 8 = Suc (n div 8)" by (simp add: q_def)
qed

section \<open>Big-endian integers\<close>

definition to_be16 :: "u16 \<Rightarrow> bytes" where
  "to_be16 w = [ucast (drop_bit 8 w), ucast w]"

definition from_be16 :: "u8 \<Rightarrow> u8 \<Rightarrow> u16" where
  "from_be16 a b = push_bit 8 (ucast a) OR ucast b"

definition to_be32 :: "u32 \<Rightarrow> bytes" where
  "to_be32 w = [ucast (drop_bit 24 w), ucast (drop_bit 16 w), ucast (drop_bit 8 w), ucast w]"

definition from_be32 :: "u8 \<Rightarrow> u8 \<Rightarrow> u8 \<Rightarrow> u8 \<Rightarrow> u32" where
  "from_be32 a b c d = push_bit 24 (ucast a) OR push_bit 16 (ucast b) OR push_bit 8 (ucast c) OR ucast d"

definition be16_of :: "bytes \<Rightarrow> u16 option" where
  "be16_of bs = (case bs of [a, b] \<Rightarrow> Some (from_be16 a b) | _ \<Rightarrow> None)"

definition be32_of :: "bytes \<Rightarrow> u32 option" where
  "be32_of bs = (case bs of [a, b, c, d] \<Rightarrow> Some (from_be32 a b c d) | _ \<Rightarrow> None)"

text \<open>
  What a fixed-width integer codec promises: encodings have one length, decoding inverts
  encoding, and every list of that length is the encoding of what it decodes to. From the
  laws, decoding is injective and a field can be read back from inside a longer buffer.
\<close>

locale fixed_width_codec =
  fixes enc :: "'a \<Rightarrow> bytes" and dec :: "bytes \<Rightarrow> 'a option" and width :: nat
  assumes length_enc: "length (enc a) = width"
    and dec_enc: "dec (enc a) = Some a"
    and dec_width: "length bs = width \<Longrightarrow> \<exists>a. dec bs = Some a \<and> enc a = bs"
    and dec_None: "length bs \<noteq> width \<Longrightarrow> dec bs = None"
begin

lemma enc_inject: "enc a = enc b \<longleftrightarrow> a = b"
  by (metis dec_enc option.inject)

lemma dec_Some_iff: "dec bs = Some a \<longleftrightarrow> bs = enc a"
  by (metis dec_None dec_enc dec_width option.distinct(1) option.inject)

lemma field_in_buffer: "dec (take width (drop (length pre) (pre @ enc a @ post))) = Some a"
  by (simp add: length_enc dec_enc)

end

lemma from_be16_to_be16 [simp, wire_simps]: "from_be16 (ucast (drop_bit 8 w)) (ucast w) = w"
  unfolding from_be16_def by (rule bit_word_eqI) (auto simp: bit_simps)

lemma to_be16_from_be16 [simp, wire_simps]: "to_be16 (from_be16 a b) = [a, b]"
  unfolding to_be16_def from_be16_def by (auto intro!: bit_word_eqI simp: bit_simps)

lemma from_be32_to_be32 [simp, wire_simps]:
  "from_be32 (ucast (drop_bit 24 w)) (ucast (drop_bit 16 w)) (ucast (drop_bit 8 w)) (ucast w) = w"
  unfolding from_be32_def
  by (rule bit_word_eqI) (simp add: bit_simps, use not_less in fastforce)

lemma to_be32_from_be32 [simp, wire_simps]: "to_be32 (from_be32 a b c d) = [a, b, c, d]"
  unfolding to_be32_def from_be32_def by (auto intro!: bit_word_eqI simp: bit_simps)

lemma length_to_be [simp, wire_simps]: "length (to_be16 w) = 2" "length (to_be32 v) = 4"
  by (simp_all add: to_be16_def to_be32_def)

interpretation be16: fixed_width_codec to_be16 be16_of 2
proof unfold_locales
  fix bs :: bytes
  show "length bs = 2 \<Longrightarrow> \<exists>a. be16_of bs = Some a \<and> to_be16 a = bs"
    by (auto simp: be16_of_def length_Suc_conv numeral_2_eq_2)
  show "length bs \<noteq> 2 \<Longrightarrow> be16_of bs = None"
    by (auto simp: be16_of_def split: list.splits)
qed (simp_all add: be16_of_def to_be16_def)

interpretation be32: fixed_width_codec to_be32 be32_of 4
proof unfold_locales
  fix bs :: bytes
  show "length bs = 4 \<Longrightarrow> \<exists>a. be32_of bs = Some a \<and> to_be32 a = bs"
    by (auto simp: be32_of_def length_Suc_conv eval_nat_numeral)
  show "length bs \<noteq> 4 \<Longrightarrow> be32_of bs = None"
    by (auto simp: be32_of_def split: list.splits)
qed (simp_all add: be32_of_def to_be32_def)

end
