(* ===== verification/Rtp.thy ===== *)
theory Rtp
  imports Bridge_Prelude
begin

text \<open>
  RTP framing and the PCMU codec: \<open>gsm-sip-bridge/src/ims/rtp.rs\<close>. The parser is
  compared with a grammar of RFC 3550 packets (\<open>rfc3550_packet\<close>, \<open>encode_wire\<close>):
  it accepts exactly the encodings of that grammar and returns their payload.
\<close>

section \<open>Packets\<close>

definition RTP_HEADER_LEN :: nat where
  "RTP_HEADER_LEN = 12"

definition RTP_VERSION :: u8 where
  "RTP_VERSION = 2"

definition build_packet :: "u16 \<Rightarrow> u32 \<Rightarrow> u32 \<Rightarrow> u8 \<Rightarrow> bytes \<Rightarrow> bytes" where
  "build_packet seq timestamp ssrc payload_type payload =
     [push_bit 6 RTP_VERSION, payload_type AND 0x7f]
     @ to_be16 seq @ to_be32 timestamp @ to_be32 ssrc @ payload"

record parsed_packet =
  pp_seq :: u16
  pp_timestamp :: u32
  pp_ssrc :: u32
  pp_payload_type :: u8
  pp_payload :: bytes

text \<open>Where the payload starts once a header extension (the \<open>X\<close> bit) is skipped.\<close>

definition skip_extension :: "bytes \<Rightarrow> bool \<Rightarrow> nat \<Rightarrow> nat option" where
  "skip_extension data extension start =
     (if \<not> extension then Some start
      else if length data < start + 4 then None
      else let ext_words = unat (from_be16 (data ! (start + 2)) (data ! (start + 3)));
               start' = start + (4 + ext_words * 4)
           in if length data < start' then None else Some start')"

text \<open>Where the payload ends once trailing padding (the \<open>P\<close> bit) is stripped.\<close>

definition strip_padding :: "bytes \<Rightarrow> bool \<Rightarrow> nat \<Rightarrow> nat option" where
  "strip_padding data padding start =
     (if \<not> padding then Some (length data)
      else let pad_len = unat (data ! (length data - 1))
           in if pad_len = 0 \<or> length data - start < pad_len then None
              else Some (length data - pad_len))"

definition parse_packet :: "bytes \<Rightarrow> parsed_packet option" where
  "parse_packet data =
     (if length data < RTP_HEADER_LEN then None
      else let version = drop_bit 6 (data ! 0) in
      if version \<noteq> RTP_VERSION then None
      else let padding = (data ! 0 AND 0x20 \<noteq> 0);
               extension = (data ! 0 AND 0x10 \<noteq> 0);
               cc = unat (data ! 0 AND 0x0f);
               payload_type = data ! 1 AND 0x7f;
               seq = from_be16 (data ! 2) (data ! 3);
               timestamp = from_be32 (data ! 4) (data ! 5) (data ! 6) (data ! 7);
               ssrc = from_be32 (data ! 8) (data ! 9) (data ! 10) (data ! 11);
               start = RTP_HEADER_LEN + cc * 4
           in if length data < start then None
      else case skip_extension data extension start of
             None \<Rightarrow> None
           | Some start \<Rightarrow>
               (case strip_padding data padding start of
                  None \<Rightarrow> None
                | Some end' \<Rightarrow>
                    Some \<lparr>pp_seq = seq, pp_timestamp = timestamp, pp_ssrc = ssrc,
                          pp_payload_type = payload_type,
                          pp_payload = take (end' - start) (drop start data)\<rparr>))"

section \<open>SSRC changes\<close>

definition SSRC_CHANGE_LOG_INTERVAL :: duration where
  "SSRC_CHANGE_LOG_INTERVAL = secs 5"

record ssrc_tracker =
  tr_last :: "u32 option"
  tr_last_logged_at :: "instant option"

definition ssrc_tracker_new :: ssrc_tracker where
  "ssrc_tracker_new = \<lparr>tr_last = None, tr_last_logged_at = None\<rparr>"

text \<open>
  \<open>now\<close> is the clock reading the source takes; \<open>duration_since\<close> saturates at zero, as
  subtraction on \<open>nat\<close> does.
\<close>

definition note_and_should_log ::
  "ssrc_tracker \<Rightarrow> instant \<Rightarrow> u32 \<Rightarrow> ssrc_tracker \<times> (u32 \<times> u32) option" where
  "note_and_should_log t now ssrc =
     (case tr_last t of
        None \<Rightarrow> (t\<lparr>tr_last := Some ssrc\<rparr>, None)
      | Some previous \<Rightarrow>
          let t = t\<lparr>tr_last := Some ssrc\<rparr> in
          if previous = ssrc then (t, None)
          else let should_log =
                 (case tr_last_logged_at t of
                    Some at \<Rightarrow> SSRC_CHANGE_LOG_INTERVAL \<le> now - at
                  | None \<Rightarrow> True)
               in if \<not> should_log then (t, None)
                  else (t\<lparr>tr_last_logged_at := Some now\<rparr>, Some (previous, ssrc)))"

text \<open>The log lines one relay direction writes for a sequence of arrivals.\<close>

fun ssrc_log :: "ssrc_tracker \<Rightarrow> (instant \<times> u32) list \<Rightarrow> (instant \<times> u32 \<times> u32) list" where
  "ssrc_log t [] = []"
| "ssrc_log t ((now, ssrc) # rest) =
     (case note_and_should_log t now ssrc of
        (t', None) \<Rightarrow> ssrc_log t' rest
      | (t', Some (a, b)) \<Rightarrow> (now, a, b) # ssrc_log t' rest)"

section \<open>PCMU\<close>

definition ULAW_BIAS :: int where
  "ULAW_BIAS = 0x84"

definition ULAW_CLIP :: int where
  "ULAW_CLIP = 32635"

definition linear_to_ulaw :: "16 word \<Rightarrow> u8" where
  "linear_to_ulaw sample =
     (let sign = (if sint sample < 0 then 0x80 else 0);
          magnitude = (if sint sample < 0 then - sint sample else sint sample);
          magnitude = (if magnitude > ULAW_CLIP then ULAW_CLIP else magnitude);
          magnitude = magnitude + ULAW_BIAS;
          v = nat (drop_bit 7 magnitude);
          exponent = min (31 - leading_zeros 32 v) 7;
          mantissa = word_of_int (drop_bit (exponent + 3) magnitude AND 0x0f)
      in NOT (sign OR push_bit 4 (word_of_nat exponent) OR mantissa))"

definition ulaw_to_linear :: "u8 \<Rightarrow> 16 word" where
  "ulaw_to_linear byte =
     (let ulaw = NOT byte;
          sign = ulaw AND 0x80;
          exponent = unat (drop_bit 4 ulaw AND 0x07);
          mantissa = uint (ulaw AND 0x0f);
          magnitude_biased = push_bit (exponent + 3) (mantissa OR 0x10) + push_bit (exponent + 2) 1;
          magnitude = magnitude_biased - ULAW_BIAS;
          sample = (if sign \<noteq> 0 then - magnitude else magnitude)
      in word_of_int (max (- 32768) (min 32767 sample)))"

section \<open>The RFC 3550 packet grammar\<close>

record rfc3550_packet =
  w_marker :: bool
  w_pt :: u8
  w_seq :: u16
  w_ts :: u32
  w_ssrc :: u32
  w_csrcs :: "u32 list"
  w_ext :: "(u16 \<times> u32 list) option"
  w_payload :: bytes
  w_pad :: "bytes option"

definition wf_wire :: "rfc3550_packet \<Rightarrow> bool" where
  "wf_wire w \<longleftrightarrow> w_pt w AND 0x7f = w_pt w \<and> length (w_csrcs w) < 16
     \<and> (case w_ext w of None \<Rightarrow> True | Some (_, ws) \<Rightarrow> length ws < 2 ^ 16)
     \<and> (case w_pad w of None \<Rightarrow> True | Some fill \<Rightarrow> length fill < 255)"

definition first_octet :: "rfc3550_packet \<Rightarrow> u8" where
  "first_octet w = 0x80 OR (if w_pad w \<noteq> None then 0x20 else 0)
     OR (if w_ext w \<noteq> None then 0x10 else 0) OR word_of_nat (length (w_csrcs w))"

definition ext_bytes :: "rfc3550_packet \<Rightarrow> bytes" where
  "ext_bytes w = (case w_ext w of None \<Rightarrow> []
     | Some (profile, ws) \<Rightarrow>
         to_be16 profile @ to_be16 (word_of_nat (length ws)) @ concat (map to_be32 ws))"

definition pad_bytes :: "rfc3550_packet \<Rightarrow> bytes" where
  "pad_bytes w = (case w_pad w of None \<Rightarrow> []
     | Some fill \<Rightarrow> fill @ [word_of_nat (Suc (length fill))])"

definition fixed_header :: "rfc3550_packet \<Rightarrow> bytes" where
  "fixed_header w = [first_octet w, (if w_marker w then 0x80 else 0) OR w_pt w]
     @ to_be16 (w_seq w) @ to_be32 (w_ts w) @ to_be32 (w_ssrc w)"

definition encode_wire :: "rfc3550_packet \<Rightarrow> bytes" where
  "encode_wire w = fixed_header w @ concat (map to_be32 (w_csrcs w))
     @ ext_bytes w @ w_payload w @ pad_bytes w"

definition parsed_of :: "rfc3550_packet \<Rightarrow> parsed_packet" where
  "parsed_of w = \<lparr>pp_seq = w_seq w, pp_timestamp = w_ts w, pp_ssrc = w_ssrc w,
     pp_payload_type = w_pt w, pp_payload = w_payload w\<rparr>"

subsection \<open>Flags of the first octet\<close>

lemma and_flags:
  "((b :: u8) AND 0x20 \<noteq> 0) = bit b 5" "((b :: u8) AND 0x10 \<noteq> 0) = bit b 4"
  using and_exp_eq_0_iff_not_bit [of b 5] and_exp_eq_0_iff_not_bit [of b 4] by simp_all

lemma first_octet_decompose:
  fixes b :: u8
  assumes "drop_bit 6 b = 2"
  shows "b = 0x80 OR (if bit b 5 then 0x20 else 0) OR (if bit b 4 then 0x10 else 0) OR (b AND 0xf)"
proof -
  from assms have "bit (drop_bit 6 b) 0 = bit (2 :: u8) 0" "bit (drop_bit 6 b) 1 = bit (2 :: u8) 1"
    by simp_all
  then have "\<not> bit b 6" "bit b 7"
    by (simp_all add: bit_simps)
  then show ?thesis
    by (intro bit_word_eqI) (auto simp: bit_simps dest!: bit_index_u8)
qed

lemma nibble_bits:
  assumes "n < 16"
  shows "\<not> bit (word_of_nat n :: u8) 4" "\<not> bit (word_of_nat n :: u8) 5"
    "\<not> bit (word_of_nat n :: u8) 6" "\<not> bit (word_of_nat n :: u8) 7"
proof -
  have "\<not> bit (word_of_nat n :: u8) k" if "4 \<le> k" for k
  proof
    assume "bit (word_of_nat n :: u8) k"
    then have "bit n k" by (simp add: bit_simps)
    then have "2 ^ k \<le> n" by (rule bit_nat_le)
    moreover have "(2 :: nat) ^ 4 \<le> 2 ^ k" using that by (rule power_increasing) simp
    ultimately show False using assms by simp
  qed
  then show "\<not> bit (word_of_nat n :: u8) 4" "\<not> bit (word_of_nat n :: u8) 5"
    "\<not> bit (word_of_nat n :: u8) 6" "\<not> bit (word_of_nat n :: u8) 7"
    by simp_all
qed

lemma octet_fields:
  fixes p x :: bool
  defines "b n \<equiv> (0x80 :: u8) OR (if p then 0x20 else 0) OR (if x then 0x10 else 0) OR word_of_nat n"
  assumes "n < 16"
  shows "drop_bit 6 (b n) = 2" "bit (b n) 5 = p" "bit (b n) 4 = x" "b n AND 0xf = word_of_nat n"
proof -
  note nib = nibble_bits [OF assms(2)]
  show "bit (b n) 5 = p" "bit (b n) 4 = x"
    using nib by (simp_all add: b_def bit_simps)
  show "drop_bit 6 (b n) = 2"
    using nib by (intro bit_word_eqI) (auto simp: b_def bit_simps dest!: bit_index_u8)
  show "b n AND 0xf = word_of_nat n"
    using nib by (intro bit_word_eqI) (auto simp: b_def bit_simps dest!: bit_index_u8)
qed

subsection \<open>The variable-length parts\<close>

lemma length_concat_be32 [simp]: "length (concat (map to_be32 ws)) = 4 * length ws"
  by (induction ws) auto

lemma concat_be32_surj: "length bs = 4 * n \<Longrightarrow> \<exists>ws. length ws = n \<and> concat (map to_be32 ws) = bs"
proof (induction n arbitrary: bs)
  case 0
  then show ?case by simp
next
  case (Suc n)
  have "length (take 4 bs) = 4" "length (drop 4 bs) = 4 * n"
    using Suc.prems by auto
  then obtain a ws where "to_be32 a = take 4 bs" "length ws = n" "concat (map to_be32 ws) = drop 4 bs"
    using be32.dec_width Suc.IH by blast
  then have "length (a # ws) = Suc n \<and> concat (map to_be32 (a # ws)) = bs"
    by simp
  then show ?case by blast
qed

lemma skip_extension_append:
  assumes "length pre = start"
  shows "skip_extension (pre @ rest) x start =
    (if \<not> x then Some start
     else case rest of
       a # b # c # d # r \<Rightarrow>
         (let n = 4 * unat (from_be16 c d)
          in if length r < n then None else Some (start + (4 + n)))
     | _ \<Rightarrow> None)"
  using assms
  by (auto simp: skip_extension_def nth_append Let_def numeral_eq_Suc split: list.splits)

lemma strip_padding_append:
  assumes "length pre = start"
  shows "strip_padding (pre @ rest) p start =
    (if \<not> p then Some (start + length rest)
     else if rest = [] \<or> last rest = 0 \<or> length rest < unat (last rest) then None
     else Some (start + (length rest - unat (last rest))))"
proof (cases "rest = []")
  case True
  then show ?thesis
    using assms by (auto simp: strip_padding_def Let_def)
next
  case False
  then have "(pre @ rest) ! (length (pre @ rest) - 1) = last rest"
    by (metis append_is_Nil_conv last_appendR last_conv_nth)
  moreover have "(unat (last rest) = 0) = (last rest = 0)"
    by (simp add: unat_eq_zero)
  ultimately show ?thesis
    using assms False by (auto simp: strip_padding_def Let_def)
qed

subsection \<open>The parser against the grammar\<close>

lemma parse_packet_header:
  assumes "length pre = 12 + 4 * cc" "drop_bit 6 (pre ! 0) = 2" "unat (pre ! 0 AND 0xf) = cc"
  shows "parse_packet (pre @ rest) =
    (case skip_extension (pre @ rest) (bit (pre ! 0) 4) (length pre) of
       None \<Rightarrow> None
     | Some start \<Rightarrow>
         (case strip_padding (pre @ rest) (bit (pre ! 0) 5) start of
            None \<Rightarrow> None
          | Some end' \<Rightarrow>
              Some \<lparr>pp_seq = from_be16 (pre ! 2) (pre ! 3),
                    pp_timestamp = from_be32 (pre ! 4) (pre ! 5) (pre ! 6) (pre ! 7),
                    pp_ssrc = from_be32 (pre ! 8) (pre ! 9) (pre ! 10) (pre ! 11),
                    pp_payload_type = pre ! 1 AND 0x7f,
                    pp_payload = take (end' - start) (drop start (pre @ rest))\<rparr>))"
  using assms
  by (simp add: parse_packet_def RTP_HEADER_LEN_def RTP_VERSION_def and_flags nth_append Let_def
      mult.commute split: option.splits)

lemma length_fixed_header [simp]: "length (fixed_header w) = 12"
  by (simp add: fixed_header_def)

lemma fixed_header_nth:
  "fixed_header w ! 0 = first_octet w"
  "fixed_header w ! Suc 0 = (if w_marker w then 0x80 else 0) OR w_pt w"
  "from_be16 (fixed_header w ! 2) (fixed_header w ! 3) = w_seq w"
  "from_be32 (fixed_header w ! 4) (fixed_header w ! 5) (fixed_header w ! 6) (fixed_header w ! 7) = w_ts w"
  "from_be32 (fixed_header w ! 8) (fixed_header w ! 9) (fixed_header w ! 10) (fixed_header w ! 11) = w_ssrc w"
  by (simp_all add: fixed_header_def to_be16_def to_be32_def)

lemma marker_masked:
  assumes "pt AND 0x7f = (pt :: u8)"
  shows "((if m then 0x80 else 0) OR pt) AND 0x7f = pt"
proof -
  have "\<not> bit (pt AND 0x7f) 7" by (simp add: bit_simps)
  with assms have "\<not> bit pt 7" by simp
  then show ?thesis
    by (intro bit_word_eqI) (auto simp: bit_simps dest!: bit_index_u8)
qed

lemma skip_extension_encode:
  assumes "wf_wire w" "length pre = start"
  shows "skip_extension (pre @ ext_bytes w @ rest) (w_ext w \<noteq> None) start = Some (start + length (ext_bytes w))"
  using assms
  by (auto simp: skip_extension_append wf_wire_def ext_bytes_def to_be16_def Let_def
      unat_word_of_nat_u16 split: option.splits)

lemma strip_padding_encode:
  assumes "wf_wire w" "length pre = start"
  shows "strip_padding (pre @ payload @ pad_bytes w) (w_pad w \<noteq> None) start = Some (start + length payload)"
proof (cases "w_pad w")
  case None
  then show ?thesis using assms by (simp add: strip_padding_append pad_bytes_def)
next
  case (Some fill)
  then have "Suc (length fill) < 256" using assms(1) by (simp add: wf_wire_def)
  then have u: "unat (word_of_nat (Suc (length fill)) :: u8) = Suc (length fill)"
    by (rule unat_word_of_nat_u8)
  then have "(word_of_nat (Suc (length fill)) :: u8) \<noteq> 0"
    by (metis nat.distinct(1) unat_0)
  with u Some assms(2) show ?thesis
    by (simp add: strip_padding_append pad_bytes_def del: of_nat_Suc)
qed

lemma parse_encode_wire: "wf_wire w \<Longrightarrow> parse_packet (encode_wire w) = Some (parsed_of w)"
proof -
  assume wf: "wf_wire w"
  let ?pre = "fixed_header w @ concat (map to_be32 (w_csrcs w))"
  let ?rest = "ext_bytes w @ w_payload w @ pad_bytes w"
  have n: "length (w_csrcs w) < 16" and pt: "w_pt w AND 0x7f = w_pt w"
    using wf by (simp_all add: wf_wire_def)
  have pre0: "?pre ! 0 = first_octet w" and len: "length ?pre = 12 + 4 * length (w_csrcs w)"
    by (simp_all add: nth_append fixed_header_nth)
  note oct = octet_fields [OF n, of "w_pad w \<noteq> None" "w_ext w \<noteq> None", folded first_octet_def]
  have cc: "unat (first_octet w AND 0xf) = length (w_csrcs w)"
    using n by (simp add: oct unat_word_of_nat_u8)
  have ext: "skip_extension (?pre @ ?rest) (w_ext w \<noteq> None) (length ?pre) = Some (length ?pre + length (ext_bytes w))"
    using skip_extension_encode [OF wf refl, of ?pre] by simp
  have pad: "strip_padding (?pre @ ?rest) (w_pad w \<noteq> None) (length ?pre + length (ext_bytes w))
      = Some (length ?pre + length (ext_bytes w) + length (w_payload w))"
    using strip_padding_encode [OF wf, of "?pre @ ext_bytes w" _ "w_payload w"] by (simp add: add.assoc)
  have pay: "take (length ?pre + length (ext_bytes w) + length (w_payload w) - (length ?pre + length (ext_bytes w)))
      (drop (length ?pre + length (ext_bytes w)) (?pre @ ?rest)) = w_payload w"
    by simp
  have "parse_packet (?pre @ ?rest) = Some (parsed_of w)"
    using parse_packet_header [OF len, of ?rest] ext pad cc oct pay marker_masked [OF pt, of "w_marker w"]
    unfolding pre0
    by (simp add: nth_append fixed_header_nth parsed_of_def del: length_append append_assoc take_append drop_append diff_add_inverse)
  then show ?thesis by (simp add: encode_wire_def)
qed

text \<open>
  The converse needs the parts of a grammar packet to be recovered from the bytes: the
  extension and the padding from the two searches, everything else from the header.
\<close>

lemma skip_extension_inv:
  assumes "skip_extension (pre @ rest) x (length pre) = Some start"
  shows "\<exists>ext rest'. x = (ext \<noteq> None) \<and> rest = ext_bytes (w\<lparr>w_ext := ext\<rparr>) @ rest'
    \<and> start = length pre + length (ext_bytes (w\<lparr>w_ext := ext\<rparr>))
    \<and> (case ext of None \<Rightarrow> True | Some (_, ws) \<Rightarrow> length ws < 2 ^ 16)"
proof (cases x)
  case False
  then show ?thesis
    using assms by (intro exI [of _ None] exI [of _ rest]) (simp add: skip_extension_append ext_bytes_def)
next
  case True
  with assms obtain a b c d r where r: "rest = a # b # c # d # r"
    and len: "4 * unat (from_be16 c d) \<le> length r"
    and st: "start = length pre + (4 + 4 * unat (from_be16 c d))"
    by (auto simp: skip_extension_append Let_def split: list.splits if_splits)
  let ?n = "unat (from_be16 c d)"
  have "length (take (4 * ?n) r) = 4 * ?n" using len by simp
  then obtain ws where ws: "length ws = ?n" "concat (map to_be32 ws) = take (4 * ?n) r"
    using concat_be32_surj by blast
  have n16: "?n < 2 ^ 16" using unsigned_less [of "from_be16 c d"] by simp
  have "to_be16 (from_be16 a b) @ to_be16 (word_of_nat ?n) @ take (4 * ?n) r @ drop (4 * ?n) r = rest"
    by (simp add: r)
  with ws True n16 st len show ?thesis
    by (intro exI [of _ "Some (from_be16 a b, ws)"] exI [of _ "drop (4 * ?n) r"])
      (simp add: ext_bytes_def)
qed

lemma strip_padding_inv:
  assumes "strip_padding (pre @ rest) p (length pre) = Some end'"
  shows "\<exists>pad payload. p = (pad \<noteq> None) \<and> rest = payload @ pad_bytes (w\<lparr>w_pad := pad\<rparr>)
    \<and> end' = length pre + length payload
    \<and> (case pad of None \<Rightarrow> True | Some fill \<Rightarrow> length fill < 255)"
proof (cases p)
  case False
  then show ?thesis
    using assms by (intro exI [of _ None] exI [of _ rest]) (simp add: strip_padding_append pad_bytes_def)
next
  case True
  with assms have nz: "rest \<noteq> []" "last rest \<noteq> 0" "unat (last rest) \<le> length rest"
    and e: "end' = length pre + (length rest - unat (last rest))"
    by (auto simp: strip_padding_append split: if_splits)
  let ?k = "unat (last rest)"
  let ?fill = "take (?k - 1) (drop (length rest - ?k) rest)"
  have k: "0 < ?k" "?k < 256" using nz(2) by (simp_all add: unat_gt_0)
  have "drop (length rest - ?k) rest \<noteq> []" "length (drop (length rest - ?k) rest) = ?k"
    using nz k by auto
  then have "drop (length rest - ?k) rest = ?fill @ [last rest]"
    by (metis append_butlast_last_id butlast_conv_take last_drop length_0_conv length_drop
        diff_less_mono2 k(1) length_greater_0_conv nz(1) zero_less_diff diff_diff_cancel nz(3))
  moreover have "length ?fill = ?k - 1" using nz k by simp
  moreover have lst: "word_of_nat ?k = last rest" by simp
  ultimately have "rest = take (length rest - ?k) rest @ ?fill @ [word_of_nat (Suc (length ?fill))]"
    using k lst by (metis Suc_diff_1 append_take_drop_id)
  moreover have "?k - 1 < 255" using k by linarith
  ultimately show ?thesis using True e k nz
    by (intro exI [of _ "Some ?fill"] exI [of _ "take (length rest - ?k) rest"])
      (auto simp: pad_bytes_def)
qed

lemma parse_packet_header_inv:
  assumes "parse_packet data = Some p"
  obtains pre rest cc where "data = pre @ rest" "length pre = 12 + 4 * cc" "cc < 16"
    "drop_bit 6 (pre ! 0) = 2" "pre ! 0 AND 0xf = word_of_nat cc"
proof -
  let ?cc = "unat (data ! 0 AND 0xf)"
  have "12 \<le> length data" "drop_bit 6 (data ! 0) = 2" "12 + ?cc * 4 \<le> length data"
    using assms by (auto simp: parse_packet_def RTP_HEADER_LEN_def RTP_VERSION_def Let_def split: if_splits)
  moreover have "?cc \<le> unat (0xf :: u8)"
    by (metis word_and_le1 word_le_nat_alt)
  ultimately show thesis
    by (intro that [of "take (12 + 4 * ?cc) data" "drop (12 + 4 * ?cc) data" ?cc]) simp_all
qed

lemma parse_packet_encodes:
  assumes "parse_packet data = Some p"
  shows "\<exists>w. wf_wire w \<and> data = encode_wire w \<and> p = parsed_of w"
proof -
  obtain pre rest cc where data: "data = pre @ rest" and len: "length pre = 12 + 4 * cc"
    and cc: "cc < 16" "drop_bit 6 (pre ! 0) = 2" "pre ! 0 AND 0xf = word_of_nat cc"
    using assms by (rule parse_packet_header_inv)
  have ucc: "unat (pre ! 0 AND 0xf) = cc" using cc by (simp add: unat_word_of_nat_u8)
  obtain start end' where sk: "skip_extension (pre @ rest) (bit (pre ! 0) 4) (length pre) = Some start"
    and st: "strip_padding (pre @ rest) (bit (pre ! 0) 5) start = Some end'"
    and p: "p = \<lparr>pp_seq = from_be16 (pre ! 2) (pre ! 3),
                    pp_timestamp = from_be32 (pre ! 4) (pre ! 5) (pre ! 6) (pre ! 7),
                    pp_ssrc = from_be32 (pre ! 8) (pre ! 9) (pre ! 10) (pre ! 11),
                    pp_payload_type = pre ! 1 AND 0x7f,
                    pp_payload = take (end' - start) (drop start (pre @ rest))\<rparr>"
    using assms parse_packet_header [OF len cc(2) ucc, of rest] data by (auto split: option.splits)
  obtain h0 h1 h2 h3 h4 h5 h6 h7 h8 h9 h10 h11 cs
    where h: "pre = [h0, h1, h2, h3, h4, h5, h6, h7, h8, h9, h10, h11] @ cs" "length cs = 4 * cc"
    using len by (auto simp: length_Suc_conv numeral_eq_Suc)
  obtain ws where ws: "length ws = cc" "concat (map to_be32 ws) = cs"
    using concat_be32_surj h(2) by blast
  let ?w0 = "\<lparr>w_marker = bit h1 7, w_pt = h1 AND 0x7f, w_seq = from_be16 h2 h3,
    w_ts = from_be32 h4 h5 h6 h7, w_ssrc = from_be32 h8 h9 h10 h11, w_csrcs = ws,
    w_ext = None, w_payload = [], w_pad = None\<rparr>"
  obtain ext rest' where ext: "bit h0 4 = (ext \<noteq> None)" "rest = ext_bytes (?w0\<lparr>w_ext := ext\<rparr>) @ rest'"
      "start = length pre + length (ext_bytes (?w0\<lparr>w_ext := ext\<rparr>))"
      "case ext of None \<Rightarrow> True | Some (_, ws) \<Rightarrow> length ws < 2 ^ 16"
    using skip_extension_inv [OF sk, of ?w0] h(1) by auto
  have st': "strip_padding ((pre @ ext_bytes (?w0\<lparr>w_ext := ext\<rparr>)) @ rest') (bit h0 5)
      (length (pre @ ext_bytes (?w0\<lparr>w_ext := ext\<rparr>))) = Some end'"
    using st ext h(1) by simp
  obtain pad payload where pad: "bit h0 5 = (pad \<noteq> None)" "rest' = payload @ pad_bytes (?w0\<lparr>w_pad := pad\<rparr>)"
      "end' = start + length payload" "case pad of None \<Rightarrow> True | Some fill \<Rightarrow> length fill < 255"
    using strip_padding_inv [OF st', of ?w0] ext(3) by auto
  let ?w = "?w0\<lparr>w_ext := ext, w_payload := payload, w_pad := pad\<rparr>"
  have oct: "first_octet ?w = h0"
    using first_octet_decompose [of h0] cc ws(1) ext(1) pad(1) h(1) by (simp add: first_octet_def)
  have pt: "(if bit h1 7 then 0x80 else 0) OR (h1 AND 0x7f) = h1"
    by (intro bit_word_eqI) (auto simp: bit_simps dest!: bit_index_u8)
  have "fixed_header ?w = [h0, h1, h2, h3, h4, h5, h6, h7, h8, h9, h10, h11]"
    using oct pt by (simp add: fixed_header_def)
  then have "encode_wire ?w = data"
    using data h(1) ws(2) ext(2) pad(2) by (simp add: encode_wire_def ext_bytes_def pad_bytes_def)
  moreover have "p = parsed_of ?w"
    using p h(1) ext pad by (simp add: parsed_of_def)
  moreover have "wf_wire ?w"
    using ws(1) cc(1) ext(4) pad(4) by (simp add: wf_wire_def and.assoc)
  ultimately show ?thesis by blast
qed

section \<open>SSRC log lines\<close>

lemma note_and_should_log_None:
  "note_and_should_log t now ssrc = (t', None) \<Longrightarrow> tr_last_logged_at t' = tr_last_logged_at t"
  by (auto simp: note_and_should_log_def Let_def split: option.splits if_splits)

lemma note_and_should_log_Some:
  "note_and_should_log t now ssrc = (t', Some (a, b)) \<Longrightarrow>
   tr_last_logged_at t' = Some now \<and> tr_last t = Some a \<and> b = ssrc \<and> a \<noteq> b
   \<and> (\<forall>at. tr_last_logged_at t = Some at \<longrightarrow> at + SSRC_CHANGE_LOG_INTERVAL \<le> now)"
  by (auto simp: note_and_should_log_def SSRC_CHANGE_LOG_INTERVAL_def Let_def split: option.splits if_splits)

lemma ssrc_log_spaced:
  "(\<forall>at. tr_last_logged_at t = Some at \<longrightarrow> list_all (\<lambda>e. at + SSRC_CHANGE_LOG_INTERVAL \<le> fst e) (ssrc_log t evs))
   \<and> sorted_wrt (\<lambda>x y. fst x + SSRC_CHANGE_LOG_INTERVAL \<le> fst y) (ssrc_log t evs)
   \<and> list_all (\<lambda>(_, a, b). a \<noteq> b) (ssrc_log t evs)"
proof (induction evs arbitrary: t)
  case (Cons ev rest)
  obtain now ssrc where ev: "ev = (now, ssrc)" by (cases ev)
  obtain t' lg where n: "note_and_should_log t now ssrc = (t', lg)" by fastforce
  show ?case
  proof (cases lg)
    case None
    with n ev Cons.IH [of t'] note_and_should_log_None [of t now ssrc t'] show ?thesis by simp
  next
    case (Some ab)
    then obtain a b where ab: "lg = Some (a, b)" by (cases ab) auto
    note st = note_and_should_log_Some [OF n [unfolded ab]]
    with Cons.IH [of t'] have "list_all (\<lambda>e. now + SSRC_CHANGE_LOG_INTERVAL \<le> fst e) (ssrc_log t' rest)"
      by blast
    with n ev ab st Cons.IH [of t'] show ?thesis
      by (fastforce simp: list_all_iff)
  qed
qed simp

section \<open>PCMU levels\<close>

definition ulaw_octet :: "bool \<Rightarrow> nat \<Rightarrow> nat \<Rightarrow> u8" where
  "ulaw_octet sg e m = NOT ((if sg then 0x80 else 0) OR push_bit 4 (word_of_nat e) OR word_of_nat m)"

definition ulaw_level :: "nat \<Rightarrow> nat \<Rightarrow> int" where
  "ulaw_level e m = (int m + 16) * 2 ^ (e + 3) + 2 ^ (e + 2) - 132"

lemma ulaw_octet_fields:
  assumes "e < 8" "m < 16"
  shows "(NOT (ulaw_octet sg e m) AND 0x80 \<noteq> 0) = sg"
    "drop_bit 4 (NOT (ulaw_octet sg e m)) AND 0x07 = word_of_nat e"
    "NOT (ulaw_octet sg e m) AND 0x0f = word_of_nat m"
proof -
  have e: "\<not> bit e k" if "3 \<le> k" for k using assms(1) that by (intro not_bit_nat [of e 3]) auto
  have m: "\<not> bit m k" if "4 \<le> k" for k using assms(2) that by (intro not_bit_nat [of m 4]) auto
  show "(NOT (ulaw_octet sg e m) AND 0x80 \<noteq> 0) = sg"
    using and_exp_eq_0_iff_not_bit [of "NOT (ulaw_octet sg e m)" 7] e m
    by (simp add: ulaw_octet_def bit_simps)
  show "drop_bit 4 (NOT (ulaw_octet sg e m)) AND 0x07 = word_of_nat e"
    "NOT (ulaw_octet sg e m) AND 0x0f = word_of_nat m"
    using e m by (auto intro!: bit_word_eqI simp: ulaw_octet_def bit_simps dest!: bit_index_u8)
qed

lemma ulaw_octet_cases:
  obtains sg e m where "b = ulaw_octet sg e m" "e < 8" "m < 16"
proof -
  let ?u = "NOT b"
  have "b = ulaw_octet (bit ?u 7) (unat (drop_bit 4 ?u AND 7)) (unat (?u AND 0xf))"
    by (intro bit_word_eqI) (auto simp: ulaw_octet_def bit_simps dest!: bit_index_u8)
  moreover have "unat (drop_bit 4 ?u AND 7) \<le> unat (7 :: u8)" "unat (?u AND 0xf) \<le> unat (0xf :: u8)"
    by (metis word_and_le1 word_le_nat_alt)+
  ultimately show thesis by (intro that) (simp, simp_all add: less_Suc_eq_le [symmetric])
qed

lemma ulaw_level_bounds:
  assumes "e < 8" "m < 16"
  shows "0 \<le> ulaw_level e m" "ulaw_level e m \<le> 32124" 
    "2 ^ (e + 7) \<le> ulaw_level e m + 132" "ulaw_level e m + 132 < 2 ^ (e + 8)"
proof -
  have lo: "16 * 2 ^ (e + 3) \<le> (int m + 16) * 2 ^ (e + 3)" 
    by simp
  have hi: "(int m + 16) * 2 ^ (e + 3) \<le> 31 * 2 ^ (e + 3)"
    using assms by simp
  have p: "(2::int) ^ (e+7) = 16 * 2 ^ (e + 3)" "(2::int) ^ (e+8) = 32 * 2 ^ (e + 3)" "(2::int) ^ (e+3) = 2 * 2 ^ (e + 2)" "(0::int) < 2 ^ (e+2)" "(2::int) ^ (e+2) = 4 * 2 ^ e"
    by (simp_all add: power_add)
  have q: "(2::int) ^ e \<le> 128" "(1::int) \<le> 2 ^ e" using assms power_increasing [of e 7 "2 :: int"] by auto
  show "2 ^ (e + 7) \<le> ulaw_level e m + 132" "ulaw_level e m + 132 < 2 ^ (e + 8)"
   "0 \<le> ulaw_level e m" "ulaw_level e m \<le> 32124" 
    using lo hi p q unfolding ulaw_level_def by linarith+
qed

lemma ulaw_to_linear_octet:
  assumes "e < 8" "m < 16"
  shows "ulaw_to_linear (ulaw_octet sg e m) = word_of_int (if sg then - ulaw_level e m else ulaw_level e m)"
proof -
  have "(int m OR 16) = int m + 16"
  proof -
    have "int m AND 16 = 0" using and_exp_eq_0_iff_not_bit [of "int m" 4] not_bit_nat [of m 4 4] assms by (simp add: bit_simps)
    then show ?thesis using disjunctive_add_eq_or [of "int m" 16] by simp
  qed
  moreover have "uint (word_of_nat m :: u8) = int m" using assms by (simp add: uint_nat unat_word_of_nat_u8)
  moreover have "unat (word_of_nat e :: u8) = e" using assms by (simp add: unat_word_of_nat_u8)
  moreover have "max (- 32768) (min 32767 (if sg then - ulaw_level e m else ulaw_level e m)) = (if sg then - ulaw_level e m else ulaw_level e m)"
    using ulaw_level_bounds [OF assms] by auto
  ultimately show ?thesis
    unfolding ulaw_to_linear_def ulaw_octet_fields [OF assms] Let_def push_bit_eq_mult ULAW_BIAS_def
    by (simp only: mult_1_left ulaw_level_def)
qed

lemma linear_to_ulaw_eq:
  assumes mag: "magn = min \<bar>sint s\<bar> 32635 + 132" and r: "2 ^ (e + 7) \<le> magn" "magn < 2 ^ (e + 8)" "e < 8"
  shows "linear_to_ulaw s = ulaw_octet (sint s < 0) e (nat (magn div 2 ^ (e + 3)) - 16)"
    "16 \<le> magn div 2 ^ (e + 3)" "magn div 2 ^ (e + 3) < 32"
proof -
  have p: "(2::int) ^ (e+7) = 16 * 2 ^ (e + 3)" "(2::int) ^ (e+8) = 32 * 2 ^ (e + 3)" 
    "(2::int) ^ (e + 7) = 2 ^ e * 2 ^ 7" "(2::int) ^ (e + 8) = 2 ^ Suc e * 2 ^ 7"
    by (simp_all add: power_add)
  have lo: "16 \<le> magn div 2 ^ (e + 3)" 
    using r(1) unfolding p(1) by (simp add: int_le_div_iff)
  have hi: "magn div 2 ^ (e + 3) < 32"
    using r(2) unfolding p(2) by (simp add: int_div_less_iff)
  show "16 \<le> magn div 2 ^ (e + 3)" "magn div 2 ^ (e + 3) < 32" by fact+
  have "2 ^ e \<le> magn div 2 ^ 7" "magn div 2 ^ 7 < 2 ^ Suc e"
    using r(1,2) unfolding p(3,4) by (simp_all only: int_le_div_iff int_div_less_iff zero_less_power zero_less_numeral)
  then have v: "2 ^ e \<le> nat (magn div 2 ^ 7)" "nat (magn div 2 ^ 7) < 2 ^ Suc e"
    by (simp_all add: nat_less_iff le_nat_iff)
  then have ex: "min (31 - leading_zeros 32 (nat (magn div 2 ^ 7))) 7 = e"
    using leading_zeros_range [OF v, of 32] r(3) by simp
  have mant: "(magn div 2 ^ (e + 3)) AND 15 = magn div 2 ^ (e + 3) - 16"
  proof -
    let ?d = "magn div 2 ^ (e + 3)"
    have "?d AND 15 = take_bit 4 ?d" by (simp add: take_bit_eq_mask mask_eq_exp_minus_1)
    also have "\<dots> = ?d mod 16" by (simp add: take_bit_eq_mod)
    also have "d mod 16 = d - 16" if "16 \<le> d" "d < 32" for d :: int 
      using that by (simp add: mod_pos_pos_trivial minus_mod_self2 [symmetric, of d 16] del: minus_mod_self2)
    then have "?d mod 16 = ?d - 16" using lo hi by blast
    finally show ?thesis .
  qed
  have w: "(word_of_int (magn div 2 ^ (e + 3) - 16) :: u8) = word_of_nat (nat (magn div 2 ^ (e + 3)) - 16)"
  proof -
    have "magn div 2 ^ (e + 3) - 16 = int (nat (magn div 2 ^ (e + 3)) - 16)" using lo by simp
    then show ?thesis by (metis of_int_of_nat_eq)
  qed
  have "(if ULAW_CLIP < (if sint s < 0 then - sint s else sint s) then ULAW_CLIP
          else if sint s < 0 then - sint s else sint s) + ULAW_BIAS = magn"
    unfolding mag ULAW_CLIP_def ULAW_BIAS_def by auto
  then show "linear_to_ulaw s = ulaw_octet (sint s < 0) e (nat (magn div 2 ^ (e + 3)) - 16)"
    unfolding linear_to_ulaw_def Let_def ulaw_octet_def drop_bit_eq_div by (simp only: ex mant w)
qed

lemma sint_ulaw_level:
  assumes "e < 8" "m < 16"
  shows "sint (ulaw_to_linear (ulaw_octet sg e m)) = (if sg then - ulaw_level e m else ulaw_level e m)"
  unfolding ulaw_to_linear_octet [OF assms]
  using ulaw_level_bounds [OF assms]
  by (cases sg) (simp_all add: signed_of_int signed_take_bit_int_eq_self del: of_int_minus)

lemma ulaw_level_zero:
  assumes "e < 8" "m < 16" "ulaw_level e m = 0"
  shows "e = 0 \<and> m = 0"
proof -
  have p: "(2 :: int) ^ (e + 7) \<le> 132" using ulaw_level_bounds(3) [OF assms(1,2)] assms(3) by simp
  have e: "e = 0"
  proof (rule ccontr)
    assume "e \<noteq> 0"
    then have "(2 :: int) ^ 8 \<le> 2 ^ (e + 7)" by (intro power_increasing) auto
    with p show False by simp
  qed
  with assms(3) show ?thesis by (simp add: ulaw_level_def)
qed

lemma ulaw_encode_decode:
  assumes "b \<noteq> 0x7f"
  shows "linear_to_ulaw (ulaw_to_linear b) = b"
proof -
  obtain sg e m where b: "b = ulaw_octet sg e m" "e < 8" "m < 16" by (rule ulaw_octet_cases)
  note bd = ulaw_level_bounds [OF b(2,3)]
  have neg: "(sint (ulaw_to_linear b) < 0) = sg"
  proof (cases "ulaw_level e m = 0")
    case True
    then have "e = 0" "m = 0" using ulaw_level_zero b by auto
    with b assms have "\<not> sg" by (auto simp: ulaw_octet_def)
    with True b show ?thesis by (simp add: sint_ulaw_level)
  next
    case False
    with bd b show ?thesis by (auto simp: sint_ulaw_level)
  qed
  have mag: "ulaw_level e m + 132 = min \<bar>sint (ulaw_to_linear b)\<bar> 32635 + 132"
    using b bd by (simp add: sint_ulaw_level)
  have "(ulaw_level e m + 132) div 2 ^ (e + 3) = int m + 16"
  proof -
    have "(2 :: int) ^ (e + 2) < 2 ^ (e + 3)" by (intro power_strict_increasing) auto
    then show ?thesis by (simp add: ulaw_level_def)
  qed
  then show ?thesis
    using linear_to_ulaw_eq(1) [OF mag bd(3,4) b(2)] neg b(1) by (simp add: nat_add_distrib)
qed

lemma ex_segment:
  "128 \<le> (x :: int) \<Longrightarrow> x < 2 ^ (n + 7) \<Longrightarrow> \<exists>e < n. 2 ^ (e + 7) \<le> x \<and> x < 2 ^ (e + 8)"
proof (induction n)
  case (Suc n)
  show ?case
  proof (cases "x < 2 ^ (n + 7)")
    case True
    with Suc show ?thesis using less_Suc_eq by blast
  next
    case False
    with Suc.prems show ?thesis by (intro exI [of _ n]) (simp add: add.commute)
  qed
qed simp

lemma ulaw_quantisation:
  assumes "\<bar>sint s\<bar> \<le> 32635"
  shows "32 * \<bar>sint (ulaw_to_linear (linear_to_ulaw s)) - sint s\<bar> \<le> \<bar>sint s\<bar> + 132"
proof -
  define x where "x = \<bar>sint s\<bar> + 132"
  have mag: "x = min \<bar>sint s\<bar> 32635 + 132" using assms by (simp add: x_def)
  have "128 \<le> x" "x < 2 ^ (8 + 7)" using assms by (simp_all add: x_def)
  then obtain e where e: "e < 8" "2 ^ (e + 7) \<le> x" "x < 2 ^ (e + 8)" using ex_segment by blast
  let ?c = "(2 :: int) ^ (e + 3)" and ?m = "nat (x div 2 ^ (e + 3)) - 16"
  note enc = linear_to_ulaw_eq [OF mag e(2,3,1)]
  have m: "?m < 16" "int ?m + 16 = x div ?c" using enc(2,3) by auto
  define l where "l = ulaw_level e ?m"
  have lev: "l + 132 = x div ?c * ?c + 2 ^ (e + 2)"
    unfolding l_def ulaw_level_def m(2) by simp
  have p: "?c = 2 * 2 ^ (e + 2)" "(2 :: int) ^ (e + 7) = 32 * 2 ^ (e + 2)" "0 \<le> x mod ?c" "x mod ?c < ?c"
    "x div ?c * ?c = x - x mod ?c"
    by (simp_all add: power_add minus_mod_eq_div_mult [symmetric])
  have "l + 132 - x = 2 ^ (e + 2) - x mod ?c"
    using lev p(5) by linarith
  then have "\<bar>l + 132 - x\<bar> \<le> 2 ^ (e + 2)"
    using p(1,3,4) by (auto simp only: abs_le_iff)
  then have "32 * \<bar>l + 132 - x\<bar> \<le> 32 * 2 ^ (e + 2)" by (rule mult_left_mono) simp
  also have "\<dots> \<le> x" using e(2) unfolding p(2) .
  finally have "32 * \<bar>l + 132 - x\<bar> \<le> x" .
  moreover have "sint (ulaw_to_linear (linear_to_ulaw s)) = (if sint s < 0 then - l else l)"
    using enc(1) sint_ulaw_level [OF e(1) m(1), of "sint s < 0"] by (simp add: l_def)
  then have "\<bar>sint (ulaw_to_linear (linear_to_ulaw s)) - sint s\<bar> = \<bar>l + 132 - x\<bar>"
    by (auto simp: x_def abs_if)
  ultimately show ?thesis by (simp add: x_def)
qed

section \<open>Built packets\<close>

lemma parse_build_packet [simp]:
  "parse_packet (build_packet seq timestamp ssrc payload_type payload) =
     Some \<lparr>pp_seq = seq, pp_timestamp = timestamp, pp_ssrc = ssrc,
           pp_payload_type = payload_type AND 0x7f, pp_payload = payload\<rparr>"
proof -
  let ?w = "\<lparr>w_marker = False, w_pt = payload_type AND 0x7f, w_seq = seq, w_ts = timestamp,
    w_ssrc = ssrc, w_csrcs = [], w_ext = None, w_payload = payload, w_pad = None\<rparr>"
  have "build_packet seq timestamp ssrc payload_type payload = encode_wire ?w"
    by (simp add: build_packet_def encode_wire_def fixed_header_def first_octet_def ext_bytes_def
        pad_bytes_def RTP_VERSION_def)
  moreover have "wf_wire ?w" by (simp add: wf_wire_def and.assoc)
  ultimately show ?thesis by (simp add: parse_encode_wire parsed_of_def)
qed

section \<open>Properties\<close>

text \<open>
  C25: the parser accepts exactly the RFC 3550 packets. A datagram parses to a packet if and
  only if it is the encoding of some well-formed header (any contributing-source list,
  header extension and padding) around that packet's payload, so extension and padding
  bytes never reach the decoder and no valid packet is refused.
\<close>

theorem parse_packet_iff_rfc3550:
  "parse_packet data = Some p \<longleftrightarrow> (\<exists>w. wf_wire w \<and> data = encode_wire w \<and> p = parsed_of w)"
  using parse_encode_wire parse_packet_encodes by blast

text \<open>
  a packet the bridge builds is read back with every field, the payload type cut to its
  seven bits.
\<close>

theorem build_packet_roundtrip:
  "map_option (\<lambda>q. (pp_seq q, pp_timestamp q, pp_ssrc q, pp_payload_type q, pp_payload q))
     (parse_packet (build_packet seq timestamp ssrc pt payload))
   = Some (seq, timestamp, ssrc, pt AND 0x7f, payload)"
  by simp

text \<open>
  SSRC changes are logged at most once per interval. Whatever the arrivals and clock
  readings, any two log lines of one direction are at least five seconds apart, and each
  reports two different SSRCs.
\<close>

theorem ssrc_log_rate_limited:
  "sorted_wrt (\<lambda>x y. fst x + SSRC_CHANGE_LOG_INTERVAL \<le> fst y) (ssrc_log ssrc_tracker_new evs)
   \<and> list_all (\<lambda>(_, a, b). a \<noteq> b) (ssrc_log ssrc_tracker_new evs)"
  using ssrc_log_spaced [of ssrc_tracker_new evs] by blast

text \<open>
  every PCMU code except the second code for zero survives decoding and re-encoding.
\<close>

theorem ulaw_roundtrip: "b \<noteq> 0x7f \<Longrightarrow> linear_to_ulaw (ulaw_to_linear b) = b"
  by (rule ulaw_encode_decode)

theorem ulaw_roundtrip_witness: "linear_to_ulaw (ulaw_to_linear 0x55) = 0x55"
  by (rule ulaw_roundtrip) simp

text \<open>
  PCMU quantisation error. For every sample inside the clipping range, decoding the
  encoded sample differs from it by at most 1/32 of its biased magnitude.
\<close>

theorem ulaw_error_bound:
  "\<bar>sint s\<bar> \<le> 32635 \<Longrightarrow>
   32 * \<bar>sint (ulaw_to_linear (linear_to_ulaw s)) - sint s\<bar> \<le> \<bar>sint s\<bar> + 132"
  by (rule ulaw_quantisation)

theorem ulaw_error_bound_witness:
  "32 * \<bar>sint (ulaw_to_linear (linear_to_ulaw 1000)) - 1000\<bar> \<le> 1132"
  using ulaw_error_bound [of 1000] by simp

end
