(* ===== verification/Rust_Collections.thy ===== *)
theory Rust_Collections
  imports Bridge_Prelude "HOL-Library.AList"
begin

text \<open>
  The standard-library maps the components keep state in. A \<open>BTreeMap\<close> is an association
  list in strictly increasing key order, which is the order its iterators use; a
  \<open>HashMap\<close> is an association list with distinct keys. The locale \<open>rust_map\<close> states what
  the code relies on (lookup after insert and remove, and the invariant kept by both),
  and both representations are shown to provide it.
\<close>

section \<open>The map interface\<close>

locale rust_map =
  fixes get :: "'m \<Rightarrow> 'k \<Rightarrow> 'v option"
    and put :: "'k \<Rightarrow> 'v \<Rightarrow> 'm \<Rightarrow> 'm"
    and del :: "'k \<Rightarrow> 'm \<Rightarrow> 'm"
    and entries :: "'m \<Rightarrow> ('k \<times> 'v) list"
    and inv :: "'m \<Rightarrow> bool"
  assumes get_put: "inv m \<Longrightarrow> get (put k v m) = (get m)(k \<mapsto> v)"
    and get_del: "inv m \<Longrightarrow> get (del k m) = (get m)(k := None)"
    and inv_put: "inv m \<Longrightarrow> inv (put k v m)"
    and inv_del: "inv m \<Longrightarrow> inv (del k m)"
    and get_entries: "inv m \<Longrightarrow> get m k = Some v \<longleftrightarrow> (k, v) \<in> set (entries m)"
    and entries_distinct: "inv m \<Longrightarrow> distinct (map fst (entries m))"
begin

lemma put_other: "inv m \<Longrightarrow> k \<noteq> k' \<Longrightarrow> get (put k v m) k' = get m k'"
  by (simp add: get_put)

lemma put_put: "inv m \<Longrightarrow> get (put k v (put k w m)) = get (put k v m)"
  by (simp add: get_put inv_put)

lemma dom_put: "inv m \<Longrightarrow> dom (get (put k v m)) = insert k (dom (get m))"
  by (simp add: get_put)

lemma dom_del: "inv m \<Longrightarrow> dom (get (del k m)) = dom (get m) - {k}"
  by (simp add: get_del)

lemma dom_entries: "inv m \<Longrightarrow> dom (get m) = set (map fst (entries m))"
  by (force simp: get_entries dom_def)

lemma finite_dom: "inv m \<Longrightarrow> finite (dom (get m))"
  by (simp add: dom_entries)

lemma card_dom: "inv m \<Longrightarrow> card (dom (get m)) = length (entries m)"
  by (metis distinct_card dom_entries entries_distinct length_map)

text \<open>A map with as many entries as keys it could have has them all.\<close>

lemma full_map: "inv m \<Longrightarrow> dom (get m) \<subseteq> K \<Longrightarrow> finite K \<Longrightarrow> length (entries m) = card K \<Longrightarrow> dom (get m) = K"
  by (metis card_dom card_subset_eq)

end

section \<open>BTreeMap\<close>

type_synonym ('k, 'v) btree_map = "('k \<times> 'v) list"

definition bt_inv :: "('k :: linorder, 'v) btree_map \<Rightarrow> bool" where
  "bt_inv m \<longleftrightarrow> sorted_wrt (<) (map fst m)"

fun bt_insert :: "'k :: linorder \<Rightarrow> 'v \<Rightarrow> ('k, 'v) btree_map \<Rightarrow> ('k, 'v) btree_map" where
  "bt_insert k v [] = [(k, v)]"
| "bt_insert k v ((k', v') # m) =
     (if k = k' then (k, v) # m
      else if k < k' then (k, v) # (k', v') # m
      else (k', v') # bt_insert k v m)"

definition bt_remove :: "'k :: linorder \<Rightarrow> ('k, 'v) btree_map \<Rightarrow> ('k, 'v) btree_map" where
  "bt_remove k m = filter (\<lambda>(k', _). k' \<noteq> k) m"

text \<open>\<open>entry(k).or_insert(v)\<close>: a present key keeps its value.\<close>

definition bt_or_insert :: "'k :: linorder \<Rightarrow> 'v \<Rightarrow> ('k, 'v) btree_map \<Rightarrow> ('k, 'v) btree_map" where
  "bt_or_insert k v m = (if map_of m k = None then bt_insert k v m else m)"

lemma set_bt_insert: "set (map fst (bt_insert k v m)) = insert k (set (map fst m))"
  by (induction k v m rule: bt_insert.induct) (simp_all, blast)

lemma bt_inv_insert: "bt_inv m \<Longrightarrow> bt_inv (bt_insert k v m)"
proof (induction m)
  case (Cons e m)
  then show ?case
    using set_bt_insert [of k v m] by (cases e) (auto simp: bt_inv_def)
qed (simp add: bt_inv_def)

lemma map_of_bt_insert: "bt_inv m \<Longrightarrow> map_of (bt_insert k v m) = (map_of m)(k \<mapsto> v)"
proof (induction m)
  case (Cons e m)
  then show ?case by (cases e) (auto simp: bt_inv_def fun_eq_iff)
qed simp

lemma bt_inv_filter: "bt_inv m \<Longrightarrow> bt_inv (filter P m)"
  by (induction m) (auto simp: bt_inv_def)

lemma bt_inv_distinct: "bt_inv m \<Longrightarrow> distinct (map fst m)"
  unfolding bt_inv_def by (simp add: strict_sorted_iff)

lemma map_of_filter_keys:
  "distinct (map fst m) \<Longrightarrow> map_of (filter (\<lambda>(k, _). P k) m) = (\<lambda>k. if P k then map_of m k else None)"
  by (induction m) (auto simp: fun_eq_iff)

interpretation btree: rust_map map_of bt_insert bt_remove "\<lambda>m. m" bt_inv
proof unfold_locales
  fix m :: "('a, 'b) btree_map" and k v
  assume inv: "bt_inv m"
  show "map_of (bt_insert k v m) = (map_of m)(k \<mapsto> v)"
    using inv by (rule map_of_bt_insert)
  show "map_of (bt_remove k m) = (map_of m)(k := None)"
    using bt_inv_distinct [OF inv] by (auto simp: bt_remove_def map_of_filter_keys fun_eq_iff)
  show "bt_inv (bt_insert k v m)" "bt_inv (bt_remove k m)"
    using inv by (simp_all add: bt_inv_insert bt_remove_def bt_inv_filter)
  show "(map_of m k = Some v) = ((k, v) \<in> set m)" "distinct (map fst m)"
    using bt_inv_distinct [OF inv] by simp_all
qed

section \<open>HashMap\<close>

type_synonym ('k, 'v) hash_map = "('k \<times> 'v) list"

definition hm_inv :: "('k, 'v) hash_map \<Rightarrow> bool" where
  "hm_inv m \<longleftrightarrow> distinct (map fst m)"

abbreviation hm_insert :: "'k \<Rightarrow> 'v \<Rightarrow> ('k, 'v) hash_map \<Rightarrow> ('k, 'v) hash_map" where
  "hm_insert \<equiv> AList.update"

abbreviation hm_remove :: "'k \<Rightarrow> ('k, 'v) hash_map \<Rightarrow> ('k, 'v) hash_map" where
  "hm_remove \<equiv> AList.delete"

interpretation hashm: rust_map map_of hm_insert hm_remove "\<lambda>m. m" hm_inv
  by unfold_locales
    (auto simp: hm_inv_def update_conv' delete_conv' distinct_update distinct_delete)

text \<open>A hash map as the multiset of its entries.\<close>

lemma hm_remove_props:
  assumes "hm_inv m"
  shows "hm_inv (hm_remove k m)" "fst ` set (hm_remove k m) = fst ` set m - {k}"
    "length (hm_remove k m) \<le> length m" "list_all P m \<Longrightarrow> list_all P (hm_remove k m)"
    "k \<in> fst ` set m \<Longrightarrow> length (hm_remove k m) < length m"
proof -
  show "hm_inv (hm_remove k m)" by (rule hashm.inv_del [OF assms])
  show "fst ` set (hm_remove k m) = fst ` set m - {k}" by (auto simp: AList.delete_eq)
  show "length (hm_remove k m) \<le> length m" by (rule AList.length_delete_le)
  show "list_all P m \<Longrightarrow> list_all P (hm_remove k m)" by (auto simp: AList.delete_eq list_all_iff)
  show "k \<in> fst ` set m \<Longrightarrow> length (hm_remove k m) < length m"
    unfolding AList.delete_eq by (auto intro!: length_filter_less)
qed

lemma mset_hm_remove:
  "hm_inv m \<Longrightarrow> map_of m k = Some v \<Longrightarrow> mset m = add_mset (k, v) (mset (hm_remove k m))"
proof (induction m)
  case (Cons e m)
  show ?case
  proof (cases "fst e = k")
    case True
    then have "k \<notin> fst ` set m" using Cons.prems(1) by (auto simp: hm_inv_def)
    with True Cons.prems(2) show ?thesis by (cases e) (auto simp: AList.delete_id)
  next
    case False
    with Cons show ?thesis by (cases e) (auto simp: hm_inv_def)
  qed
qed simp

lemma mset_hm_insert: "hm_inv m \<Longrightarrow> mset (hm_insert k v m) = add_mset (k, v) (mset (hm_remove k m))"
proof (induction m)
  case (Cons e m)
  then show ?case
    by (cases e) (auto simp: hm_inv_def AList.delete_id)
qed simp

lemma hm_insert_props:
  assumes "hm_inv m"
  shows "hm_inv (hm_insert k v m)" "fst ` set (hm_insert k v m) = insert k (fst ` set m)"
    "list_all P m \<Longrightarrow> P (k, v) \<Longrightarrow> list_all P (hm_insert k v m)"
    "length (hm_insert k v m) = (if k \<in> fst ` set m then length m else Suc (length m))"
proof -
  show "hm_inv (hm_insert k v m)" by (rule hashm.inv_put [OF assms])
  show "fst ` set (hm_insert k v m) = insert k (fst ` set m)" by (simp add: AList.dom_update)
  have "set (hm_insert k v m) = set_mset (mset (hm_insert k v m))" by simp
  then have e: "set (hm_insert k v m) = insert (k, v) (set (hm_remove k m))"
    unfolding mset_hm_insert [OF assms] by simp
  show "list_all P m \<Longrightarrow> P (k, v) \<Longrightarrow> list_all P (hm_insert k v m)"
    using hm_remove_props(4) [OF assms, of P k] by (simp add: list_all_iff e)
  have len: "length l = card (fst ` set l)" if "hm_inv l" for l :: "('a, 'b) hash_map"
    using that distinct_card [of "map fst l"] by (simp add: hm_inv_def)
  have "length (hm_insert k v m) = card (insert k (fst ` set m))"
    using len [OF hashm.inv_put [OF assms]] by (simp add: AList.dom_update)
  with len [OF assms] show "length (hm_insert k v m) = (if k \<in> fst ` set m then length m else Suc (length m))"
    by (simp add: insert_absorb)
qed

section \<open>Multisets of values\<close>

text \<open>Inserting under a fresh key adds one value; under a present key it replaces one.\<close>

lemma mset_values_bt_insert_fresh:
  "map_of m k = None \<Longrightarrow> image_mset snd (mset (bt_insert k v m)) = add_mset v (image_mset snd (mset m))"
  by (induction m) (auto split: if_splits)

lemma mset_bt_insert_fresh: "map_of m k = None \<Longrightarrow> mset (bt_insert k v m) = add_mset (k, v) (mset m)"
  by (induction m) (auto split: if_splits)

lemma bt_insert_same: "bt_inv m \<Longrightarrow> map_of m k = Some v \<Longrightarrow> bt_insert k v m = m"
proof (induction m)
  case (Cons e m)
  obtain k' v' where e: "e = (k', v')" by (cases e)
  show ?case
  proof (cases "k = k'")
    case False
    then have "k \<in> set (map fst m)" using Cons.prems(2) e by (force dest: map_of_SomeD)
    then have "k' < k" using Cons.prems(1) e by (auto simp: bt_inv_def)
    with False Cons e show ?thesis by (auto simp: bt_inv_def)
  qed (use Cons e in simp)
qed simp

lemma set_bt_insert_fresh:
  "map_of m k = None \<Longrightarrow> set (bt_insert k v m) = insert (k, v) (set m)"
  by (induction m) (auto split: if_splits)

lemma map_of_eq_None_iff_keys: "map_of m k = None \<longleftrightarrow> k \<notin> set (map fst m)"
  by (metis map_of_eq_None_iff list.set_map)

end
