(* ===== verification/Rtp_Reorder.thy ===== *)
theory Rtp_Reorder
  imports Rtp Rust_Collections
begin

text \<open>
  The carrier-side reorder buffer: \<open>gsm-sip-bridge/src/ims/rtp_reorder.rs\<close>. The
  fingerprint of a packet's media (\<open>DefaultHasher\<close>, whose algorithm the standard
  library leaves open) is the parameter \<open>h\<close>; no property below depends on which
  function it is.
\<close>

section \<open>State\<close>

definition RECENT_SEQUENCE_HISTORY :: u16 where
  "RECENT_SEQUENCE_HISTORY = 100"

definition RESTART_CONFIRMATION_WINDOW :: duration where
  "RESTART_CONFIRMATION_WINDOW = secs 1"

definition DELIVERED_PACKET_HISTORY :: nat where
  "DELIVERED_PACKET_HISTORY = 65535 + 1"

type_synonym media_hash = "u32 \<times> u8 \<times> bytes \<Rightarrow> u64"
type_synonym identity = "u16 \<times> u64"

record restart_candidate =
  rc_seq :: u16
  rc_packet :: bytes
  rc_since :: instant

record reorder_buffer =
  rb_max_wait :: duration
  rb_ssrc :: "u32 option"
  rb_retired_ssrcs :: "u32 set"
  rb_delivered :: "identity \<rightharpoonup> nat"
  rb_delivery_order :: "identity list"
  rb_expected :: u16
  rb_pending :: "(u16, bytes) btree_map"
  rb_deadline :: "instant option"
  rb_restart_candidate :: "restart_candidate option"

definition reorder_new :: "duration \<Rightarrow> reorder_buffer" where
  "reorder_new max_wait =
     \<lparr>rb_max_wait = max_wait, rb_ssrc = None, rb_retired_ssrcs = {}, rb_delivered = Map.empty,
      rb_delivery_order = [], rb_expected = 0, rb_pending = [], rb_deadline = None,
      rb_restart_candidate = None\<rparr>"

section \<open>Operations\<close>

definition media_identity :: "media_hash \<Rightarrow> parsed_packet \<Rightarrow> u64" where
  "media_identity h parsed = h (pp_timestamp parsed, pp_payload_type parsed, pp_payload parsed)"

text \<open>Forgets one occurrence of the oldest delivery.\<close>

definition evict_delivery :: "(identity \<rightharpoonup> nat) \<Rightarrow> identity \<Rightarrow> (identity \<rightharpoonup> nat)" where
  "evict_delivery delivered oldest =
     (case delivered oldest of
        None \<Rightarrow> delivered
      | Some n \<Rightarrow>
          if n - 1 = 0 then delivered(oldest := None) else delivered(oldest \<mapsto> n - 1))"

definition remember_delivery :: "media_hash \<Rightarrow> bytes \<Rightarrow> reorder_buffer \<Rightarrow> reorder_buffer" where
  "remember_delivery h packet b =
     (case parse_packet packet of
        None \<Rightarrow> b
      | Some parsed \<Rightarrow>
          let identity = (pp_seq parsed, media_identity h parsed);
              delivered = (rb_delivered b)(identity \<mapsto>
                (case rb_delivered b identity of None \<Rightarrow> 0 | Some n \<Rightarrow> n) + 1);
              order = rb_delivery_order b @ [identity]
          in if DELIVERED_PACKET_HISTORY < length order
             then b\<lparr>rb_delivered := evict_delivery delivered (hd order), rb_delivery_order := tl order\<rparr>
             else b\<lparr>rb_delivered := delivered, rb_delivery_order := order\<rparr>)"

text \<open>
  The pending keys are distinct, so the unstable sort of the source has one possible
  result, the one \<open>sort_key\<close> computes.
\<close>

definition release_pending :: "media_hash \<Rightarrow> reorder_buffer \<Rightarrow> reorder_buffer \<times> bytes list" where
  "release_pending h b =
     (let packets = sort_key (\<lambda>(seq, _). seq - rb_expected b) (rb_pending b);
          b = b\<lparr>rb_restart_candidate := None, rb_deadline := None, rb_pending := []\<rparr>;
          b = (if packets = [] then b else b\<lparr>rb_expected := fst (last packets) + 1\<rparr>)
      in (fold (remember_delivery h) (map snd packets) b, map snd packets))"

definition flush_expired :: "media_hash \<Rightarrow> reorder_buffer \<Rightarrow> instant \<Rightarrow> reorder_buffer \<times> bytes list" where
  "flush_expired h b now =
     (let b = (case rb_restart_candidate b of
                 Some candidate \<Rightarrow>
                   if RESTART_CONFIRMATION_WINDOW \<le> now - rc_since candidate
                   then b\<lparr>rb_restart_candidate := None\<rparr> else b
               | None \<Rightarrow> b)
      in case rb_deadline b of
           Some deadline \<Rightarrow> if deadline \<le> now then release_pending h b else (b, [])
         | None \<Rightarrow> (b, []))"

text \<open>A source not seen before takes the buffer over; its first packet is delivered at once.\<close>

definition switch_source :: "media_hash \<Rightarrow> reorder_buffer \<Rightarrow> bytes \<Rightarrow> u16 \<Rightarrow> u32 \<Rightarrow> reorder_buffer" where
  "switch_source h b packet seq ssrc =
     remember_delivery h packet
       (b\<lparr>rb_retired_ssrcs := (case rb_ssrc b of Some previous \<Rightarrow> insert previous (rb_retired_ssrcs b)
                              | None \<Rightarrow> rb_retired_ssrcs b),
          rb_pending := [], rb_deadline := None, rb_restart_candidate := None,
          rb_delivered := Map.empty, rb_delivery_order := [], rb_ssrc := Some ssrc,
          rb_expected := seq + 1\<rparr>)"

text \<open>A packet behind the next expected one: a duplicate, a straggler or a source restart.\<close>

definition push_behind ::
  "media_hash \<Rightarrow> reorder_buffer \<Rightarrow> bytes \<Rightarrow> parsed_packet \<Rightarrow> instant \<Rightarrow> reorder_buffer \<times> bytes list" where
  "push_behind h b packet parsed now =
     (let seq = pp_seq parsed in
      if rb_delivered b (seq, media_identity h parsed) \<noteq> None
      then (b\<lparr>rb_restart_candidate := None\<rparr>, [])
      else let candidate = rb_restart_candidate b; b = b\<lparr>rb_restart_candidate := None\<rparr> in
        case candidate of
          Some c \<Rightarrow>
            if seq = rc_seq c + 1 then
              (remember_delivery h packet (remember_delivery h (rc_packet c)
                 (b\<lparr>rb_pending := [], rb_deadline := None, rb_expected := seq + 1\<rparr>)),
               [rc_packet c, packet])
            else if seq = rc_seq c then (b\<lparr>rb_restart_candidate := Some c\<rparr>, [])
            else if RECENT_SEQUENCE_HISTORY < rb_expected b - seq then
              (b\<lparr>rb_restart_candidate := Some \<lparr>rc_seq = seq, rc_packet = packet, rc_since = now\<rparr>\<rparr>, [])
            else (b, [])
        | None \<Rightarrow>
            if RECENT_SEQUENCE_HISTORY < rb_expected b - seq then
              (b\<lparr>rb_restart_candidate := Some \<lparr>rc_seq = seq, rc_packet = packet, rc_since = now\<rparr>\<rparr>, [])
            else (b, []))"

text \<open>A packet at or ahead of the next expected one.\<close>

definition push_ahead ::
  "media_hash \<Rightarrow> reorder_buffer \<Rightarrow> bytes \<Rightarrow> u16 \<Rightarrow> instant \<Rightarrow> reorder_buffer \<times> bytes list" where
  "push_ahead h b packet seq now =
     (let b = b\<lparr>rb_restart_candidate := None\<rparr> in
      if seq = rb_expected b then
        (let (b, out) = release_pending h (remember_delivery h packet (b\<lparr>rb_expected := seq + 1\<rparr>))
         in (b, packet # out))
      else
        flush_expired h
          (b\<lparr>rb_pending := bt_or_insert seq packet (rb_pending b),
             rb_deadline := Some (get_or_insert (rb_deadline b) (now + rb_max_wait b))\<rparr>)
          now)"

definition push :: "media_hash \<Rightarrow> reorder_buffer \<Rightarrow> bytes \<Rightarrow> instant \<Rightarrow> reorder_buffer \<times> bytes list" where
  "push h b packet now =
     (case parse_packet packet of
        None \<Rightarrow> flush_expired h b now
      | Some parsed \<Rightarrow>
          let seq = pp_seq parsed; ssrc = pp_ssrc parsed in
          if rb_ssrc b \<noteq> Some ssrc then
            if ssrc \<in> rb_retired_ssrcs b then flush_expired h b now
            else (switch_source h b packet seq ssrc, [packet])
          else
            let (b, ready) = flush_expired h b now;
                (b, out) = (if 0x8000 \<le> seq - rb_expected b then push_behind h b packet parsed now
                            else push_ahead h b packet seq now)
            in (b, ready @ out))"

text \<open>What the receive loop does to the buffer: arrivals, and wake-ups at the deadline.\<close>

datatype reorder_op = Push bytes instant | Flush instant

fun reorder_step :: "media_hash \<Rightarrow> reorder_buffer \<Rightarrow> reorder_op \<Rightarrow> reorder_buffer \<times> bytes list" where
  "reorder_step h b (Push packet now) = push h b packet now"
| "reorder_step h b (Flush now) = flush_expired h b now"

fun reorder_run :: "media_hash \<Rightarrow> reorder_buffer \<Rightarrow> reorder_op list \<Rightarrow> reorder_buffer \<times> bytes list" where
  "reorder_run h b [] = (b, [])"
| "reorder_run h b (op # ops) =
     (let (b', out) = reorder_step h b op; (b'', out') = reorder_run h b' ops in (b'', out @ out'))"

section \<open>Invariant\<close>

text \<open>A packet belongs to a stream when it parses with that stream's SSRC and the key it is filed under.\<close>

definition belongs :: "u32 option \<Rightarrow> u16 \<Rightarrow> bytes \<Rightarrow> bool" where
  "belongs ssrc seq packet \<longleftrightarrow>
     (case parse_packet packet of None \<Rightarrow> False | Some q \<Rightarrow> pp_seq q = seq \<and> ssrc = Some (pp_ssrc q))"

definition stream_inv :: "reorder_buffer \<Rightarrow> bool" where
  "stream_inv b \<longleftrightarrow>
     bt_inv (rb_pending b)
     \<and> (\<forall>(s, p) \<in> set (rb_pending b).
           s \<noteq> rb_expected b \<and> s - rb_expected b < 0x8000 \<and> belongs (rb_ssrc b) s p)
     \<and> (\<forall>c. rb_restart_candidate b = Some c \<longrightarrow> belongs (rb_ssrc b) (rc_seq c) (rc_packet c))
     \<and> (rb_deadline b = None \<longleftrightarrow> rb_pending b = [])
     \<and> (\<forall>s. rb_ssrc b = Some s \<longrightarrow> s \<notin> rb_retired_ssrcs b)"

definition tally :: "'a list \<Rightarrow> 'a \<rightharpoonup> nat" where
  "tally xs = (\<lambda>k. if k \<in> set xs then Some (count_list xs k) else None)"

definition history_inv :: "reorder_buffer \<Rightarrow> bool" where
  "history_inv b \<longleftrightarrow>
     length (rb_delivery_order b) \<le> DELIVERED_PACKET_HISTORY
     \<and> rb_delivered b = tally (rb_delivery_order b)"

lemma remember_delivery_frame [simp]:
  "rb_max_wait (remember_delivery h p b) = rb_max_wait b"
  "rb_ssrc (remember_delivery h p b) = rb_ssrc b"
  "rb_retired_ssrcs (remember_delivery h p b) = rb_retired_ssrcs b"
  "rb_expected (remember_delivery h p b) = rb_expected b"
  "rb_pending (remember_delivery h p b) = rb_pending b"
  "rb_deadline (remember_delivery h p b) = rb_deadline b"
  "rb_restart_candidate (remember_delivery h p b) = rb_restart_candidate b"
  by (simp_all add: remember_delivery_def Let_def split: option.splits)

lemma fold_remember_frame [simp]:
  "rb_max_wait (fold (remember_delivery h) ps b) = rb_max_wait b"
  "rb_ssrc (fold (remember_delivery h) ps b) = rb_ssrc b"
  "rb_retired_ssrcs (fold (remember_delivery h) ps b) = rb_retired_ssrcs b"
  "rb_expected (fold (remember_delivery h) ps b) = rb_expected b"
  "rb_pending (fold (remember_delivery h) ps b) = rb_pending b"
  "rb_deadline (fold (remember_delivery h) ps b) = rb_deadline b"
  "rb_restart_candidate (fold (remember_delivery h) ps b) = rb_restart_candidate b"
  by (induction ps arbitrary: b) simp_all

subsection \<open>The delivery history\<close>

lemma tally_snoc:
  "(tally xs)(x \<mapsto> (case tally xs x of None \<Rightarrow> 0 | Some n \<Rightarrow> n) + 1) = tally (xs @ [x])"
  by (auto simp: tally_def fun_eq_iff count_list_0_iff)

lemma tally_evict: "xs \<noteq> [] \<Longrightarrow> evict_delivery (tally xs) (hd xs) = tally (tl xs)"
proof -
  assume "xs \<noteq> []"
  then obtain x xs' where xs: "xs = x # xs'" by (cases xs) auto
  have "count_list xs' x = 0 \<longleftrightarrow> x \<notin> set xs'" by (simp add: count_list_0_iff)
  then show ?thesis by (auto simp: xs tally_def evict_delivery_def fun_eq_iff)
qed

lemma history_inv_remember [step_inv]:
  "history_inv b \<Longrightarrow> history_inv (remember_delivery h p b)"
  unfolding history_inv_def remember_delivery_def Let_def
  by (simp add: tally_snoc [simplified] tally_evict split: option.split)

lemma history_inv_fold [step_inv]:
  "history_inv b \<Longrightarrow> history_inv (fold (remember_delivery h) ps b)"
  by (induction ps arbitrary: b) (simp_all add: history_inv_remember)

lemma history_inv_update [simp]:
  "history_inv (b\<lparr>rb_restart_candidate := c\<rparr>) = history_inv b"
  "history_inv (b\<lparr>rb_pending := m\<rparr>) = history_inv b"
  "history_inv (b\<lparr>rb_deadline := d\<rparr>) = history_inv b"
  "history_inv (b\<lparr>rb_expected := e\<rparr>) = history_inv b"
  by (simp_all add: history_inv_def)

lemma history_inv_release [step_inv]: "history_inv b \<Longrightarrow> history_inv (fst (release_pending h b))"
  by (simp add: release_pending_def Let_def history_inv_fold)

lemma history_inv_flush [step_inv]: "history_inv b \<Longrightarrow> history_inv (fst (flush_expired h b now))"
  by (auto simp: flush_expired_def Let_def history_inv_release split: option.splits)

lemma history_inv_switch [step_inv]: "history_inv (switch_source h b packet seq ssrc)"
  unfolding switch_source_def by (rule history_inv_remember) (simp add: history_inv_def tally_def)

lemma history_inv_behind [step_inv]: "history_inv b \<Longrightarrow> history_inv (fst (push_behind h b packet q now))"
  by (auto simp: push_behind_def Let_def history_inv_remember split: option.splits)

lemma history_inv_ahead [step_inv]: "history_inv b \<Longrightarrow> history_inv (fst (push_ahead h b packet seq now))"
  by (simp add: push_ahead_def Let_def case_prod_beta history_inv_release history_inv_remember history_inv_flush)

lemma history_inv_push [step_inv]: "history_inv b \<Longrightarrow> history_inv (fst (push h b packet now))"
  by (simp add: push_def Let_def case_prod_beta history_inv_switch history_inv_behind history_inv_ahead
      history_inv_flush split: option.split)

subsection \<open>The stream invariant\<close>

lemma stream_inv_remember [simp]: "stream_inv (remember_delivery h p b) = stream_inv b"
  by (simp add: stream_inv_def)

lemma stream_inv_fold [simp]: "stream_inv (fold (remember_delivery h) ps b) = stream_inv b"
  by (simp add: stream_inv_def)

lemma stream_inv_cleared:
  "stream_inv b \<Longrightarrow> stream_inv (b\<lparr>rb_restart_candidate := None, rb_deadline := None, rb_pending := []\<rparr>)"
  by (simp add: stream_inv_def bt_inv_def)

lemma stream_inv_release_any:
  "(\<And>s. rb_ssrc b = Some s \<Longrightarrow> s \<notin> rb_retired_ssrcs b) \<Longrightarrow> stream_inv (fst (release_pending h b))"
  by (auto simp: release_pending_def Let_def stream_inv_def bt_inv_def)

lemma stream_inv_release [step_inv]: "stream_inv b \<Longrightarrow> stream_inv (fst (release_pending h b))"
  by (rule stream_inv_release_any) (simp add: stream_inv_def)

lemma stream_inv_flush [step_inv]: "stream_inv b \<Longrightarrow> stream_inv (fst (flush_expired h b now))"
proof -
  assume inv: "stream_inv b"
  let ?b = "case rb_restart_candidate b of Some candidate \<Rightarrow>
      if RESTART_CONFIRMATION_WINDOW \<le> now - rc_since candidate then b\<lparr>rb_restart_candidate := None\<rparr> else b
    | None \<Rightarrow> b"
  have "stream_inv ?b" using inv by (auto simp: stream_inv_def split: option.splits)
  then show ?thesis by (auto simp: flush_expired_def Let_def stream_inv_release split: option.splits)
qed

lemma stream_inv_switch [step_inv]:
  "stream_inv b \<Longrightarrow> rb_ssrc b \<noteq> Some ssrc \<Longrightarrow> ssrc \<notin> rb_retired_ssrcs b \<Longrightarrow>
   stream_inv (switch_source h b packet seq ssrc)"
  by (auto simp: switch_source_def stream_inv_def bt_inv_def split: option.splits)

lemma stream_inv_candidate:
  assumes "stream_inv b"
  shows "stream_inv (b\<lparr>rb_restart_candidate := None\<rparr>)"
    "belongs (rb_ssrc b) (rc_seq c) (rc_packet c) \<Longrightarrow> stream_inv (b\<lparr>rb_restart_candidate := Some c\<rparr>)"
  using assms by (simp_all add: stream_inv_def)

lemma stream_inv_restart:
  assumes "stream_inv b"
  shows "stream_inv (b\<lparr>rb_restart_candidate := None, rb_pending := [], rb_deadline := None, rb_expected := e\<rparr>)"
  using assms by (simp add: stream_inv_def bt_inv_def)

lemma stream_inv_behind [step_inv]:
  assumes inv: "stream_inv b" and q: "parse_packet packet = Some q" "rb_ssrc b = Some (pp_ssrc q)"
  shows "stream_inv (fst (push_behind h b packet q now))"
proof -
  have "belongs (rb_ssrc b) (pp_seq q) packet" using q by (simp add: belongs_def)
  moreover have "belongs (rb_ssrc b) (rc_seq c) (rc_packet c)" if "rb_restart_candidate b = Some c" for c
    using inv that by (simp add: stream_inv_def)
  ultimately show ?thesis
    unfolding push_behind_def Let_def
    by (simp add: stream_inv_candidate [OF inv] stream_inv_restart [OF inv] split: option.split)
qed

lemma set_bt_or_insert:
  "set (bt_or_insert k v m) \<subseteq> insert (k, v) (set m)"
  by (auto simp: bt_or_insert_def set_bt_insert_fresh)

lemma bt_inv_or_insert: "bt_inv m \<Longrightarrow> bt_inv (bt_or_insert k v m)"
  by (simp add: bt_or_insert_def bt_inv_insert)

lemma bt_or_insert_not_Nil [simp]: "bt_or_insert k v m \<noteq> []"
  using set_bt_insert [of k v m] by (auto simp: bt_or_insert_def)

lemma stream_inv_queue:
  assumes ne: "pp_seq q \<noteq> rb_expected b" and inv: "stream_inv b"
    and q: "parse_packet packet = Some q" "rb_ssrc b = Some (pp_ssrc q)"
    and d: "pp_seq q - rb_expected b < 0x8000"
  shows "stream_inv (b\<lparr>rb_restart_candidate := None, rb_pending := bt_or_insert (pp_seq q) packet (rb_pending b),
             rb_deadline := Some t\<rparr>)"
proof -
  have "belongs (rb_ssrc b) (pp_seq q) packet" using q by (simp add: belongs_def)
  then show ?thesis
    using inv ne d set_bt_or_insert [of "pp_seq q" packet "rb_pending b"]
    by (fastforce simp: stream_inv_def bt_inv_or_insert)
qed

lemma stream_inv_ahead [step_inv]:
  assumes inv: "stream_inv b" and q: "parse_packet packet = Some q" "rb_ssrc b = Some (pp_ssrc q)"
    and d: "pp_seq q - rb_expected b < 0x8000"
  shows "stream_inv (fst (push_ahead h b packet (pp_seq q) now))"
proof (cases "pp_seq q = rb_expected b")
  case True
  have "s \<notin> rb_retired_ssrcs b" if "rb_ssrc b = Some s" for s
    using inv that by (simp add: stream_inv_def)
  then have "stream_inv (fst (release_pending h
      (remember_delivery h packet (b\<lparr>rb_restart_candidate := None, rb_expected := pp_seq q + 1\<rparr>))))"
    by (intro stream_inv_release_any) simp
  with True show ?thesis
    by (simp add: push_ahead_def Let_def case_prod_beta)
next
  case False
  then show ?thesis
    by (simp add: push_ahead_def Let_def stream_inv_flush stream_inv_queue [OF False inv q d])
qed

lemma flush_frame [simp]:
  "rb_ssrc (fst (flush_expired h b now)) = rb_ssrc b"
  "rb_retired_ssrcs (fst (flush_expired h b now)) = rb_retired_ssrcs b"
  "rb_max_wait (fst (flush_expired h b now)) = rb_max_wait b"
  by (simp_all add: flush_expired_def release_pending_def Let_def split: option.split)

lemma stream_inv_push [step_inv]: "stream_inv b \<Longrightarrow> stream_inv (fst (push h b packet now))"
  by (simp add: push_def Let_def case_prod_beta stream_inv_switch stream_inv_behind stream_inv_ahead
      stream_inv_flush not_le split: option.split)

definition reorder_inv :: "reorder_buffer \<Rightarrow> bool" where
  "reorder_inv b \<longleftrightarrow> stream_inv b \<and> history_inv b"

lemma reorder_inv_new: "reorder_inv (reorder_new w)"
  by (simp add: reorder_inv_def stream_inv_def history_inv_def reorder_new_def bt_inv_def tally_def)

lemma reorder_inv_step: "reorder_inv b \<Longrightarrow> reorder_inv (fst (reorder_step h b op))"
  by (cases op) (simp_all add: reorder_inv_def stream_inv_push history_inv_push stream_inv_flush history_inv_flush)

lemma reorder_run_inv: "reorder_inv b \<Longrightarrow> reorder_inv (fst (reorder_run h b ops))"
proof (induction ops arbitrary: b)
  case (Cons op ops)
  then show ?case using reorder_inv_step [of b h op] by (simp add: Let_def case_prod_beta)
qed simp

section \<open>Delivery order\<close>

text \<open>
  Sequence numbers live on a circle of \<open>2 ^ 16\<close>; \<open>y\<close> comes after \<open>x\<close> when it lies in the
  half-circle ahead of it. A run of deliveries \<open>advances\<close> the buffer from \<open>e\<close> to \<open>e'\<close> when
  each delivery comes after the one before it, the first after \<open>e - 1\<close>, and \<open>e'\<close> is the
  successor of the last.
\<close>

definition serial_after :: "u16 \<Rightarrow> u16 \<Rightarrow> bool" where
  "serial_after x y \<longleftrightarrow> x \<noteq> y \<and> y - x \<le> 0x8000"

definition advances :: "u16 \<Rightarrow> u16 list \<Rightarrow> u16 \<Rightarrow> bool" where
  "advances e seqs e' \<longleftrightarrow> successively serial_after ((e - 1) # seqs) \<and> e' = last ((e - 1) # seqs) + 1"

definition seq_of :: "bytes \<Rightarrow> u16" where
  "seq_of packet = (case parse_packet packet of None \<Rightarrow> 0 | Some q \<Rightarrow> pp_seq q)"

lemma advances_refl: "advances e [] e"
  by (simp add: advances_def)

lemma advances_append: "advances e xs e1 \<Longrightarrow> advances e1 ys e2 \<Longrightarrow> advances e (xs @ ys) e2"
  by (cases xs rule: rev_cases; cases ys)
     (auto simp: advances_def successively_append_iff successively_Cons hd_append)

lemma serial_after_closer:
  assumes "x - e < y - e" "y - e < 0x8000"
  shows "serial_after x y"
proof -
  have "y - x = (y - e) - (x - e)" by simp
  also have "\<dots> \<le> y - e" using assms(1) by (intro word_sub_le) simp
  finally have "y - x \<le> 0x8000" using assms(2) by simp
  with assms(1) show ?thesis by (auto simp: serial_after_def)
qed

lemma serial_after_first:
  assumes "y - e < (0x8000 :: u16)"
  shows "serial_after (e - 1) y"
proof -
  have le: "y - (e - 1) \<le> 0x8000"
    using inc_le [OF assms] by (simp add: algebra_simps)
  have "y \<noteq> e - 1"
  proof
    assume "y = e - 1"
    with assms have "(- 1 :: u16) < 0x8000" by simp
    then show False by simp
  qed
  with le show ?thesis by (simp add: serial_after_def)
qed

lemma advances_sorted:
  assumes "sorted_wrt (<) (map (\<lambda>x. x - e) xs)" "\<forall>x \<in> set xs. x - e < 0x8000"
  shows "advances e xs (if xs = [] then e else last xs + 1)"
proof -
  have "sorted_wrt serial_after xs"
    using assms by (induction xs) (auto intro: serial_after_closer)
  then have "successively serial_after xs" by (rule successively_if_sorted_wrt)
  moreover have "serial_after (e - 1) (hd xs)" if "xs \<noteq> []"
    using assms(2) that by (intro serial_after_first) simp
  ultimately show ?thesis by (auto simp: advances_def successively_Cons)
qed

lemma seq_of_belongs: "belongs ssrc s p \<Longrightarrow> seq_of p = s"
  by (auto simp: belongs_def seq_of_def split: option.splits)

text \<open>What a release delivers, from any state whose pending keys lie ahead of \<open>expected\<close>.\<close>

lemma release_advances:
  assumes "bt_inv (rb_pending b)"
    and ahead: "\<forall>(s, p) \<in> set (rb_pending b). s - rb_expected b < 0x8000 \<and> seq_of p = s"
  shows "advances (rb_expected b) (map seq_of (snd (release_pending h b)))
    (rb_expected (fst (release_pending h b)))"
proof -
  let ?f = "\<lambda>(s, _ :: bytes). s - rb_expected b"
  let ?ps = "sort_key ?f (rb_pending b)"
  have seqs: "map seq_of (map snd ?ps) = map fst ?ps"
    using ahead by auto
  have keys: "map (\<lambda>x. x - rb_expected b) (map fst ?ps) = map ?f ?ps"
    by auto
  have "inj_on ?f (set (rb_pending b))"
    using btree.entries_distinct [OF assms(1)] by (auto simp: inj_on_def dest: eq_key_imp_eq_value)
  then have "distinct (map ?f ?ps)"
    using btree.entries_distinct [OF assms(1)] by (simp add: distinct_map)
  then have "sorted_wrt (<) (map ?f ?ps)"
    by (simp add: strict_sorted_iff)
  then have "advances (rb_expected b) (map fst ?ps) (if map fst ?ps = [] then rb_expected b else last (map fst ?ps) + 1)"
    using ahead by (intro advances_sorted) (unfold keys, auto)
  then have adv: "advances (rb_expected b) (map fst ?ps) (if ?ps = [] then rb_expected b else fst (last ?ps) + 1)"
    by (cases "?ps = []") (simp_all add: last_map)
  have out: "snd (release_pending h b) = map snd ?ps"
    and exp: "rb_expected (fst (release_pending h b)) = (if ?ps = [] then rb_expected b else fst (last ?ps) + 1)"
    by (simp_all add: release_pending_def Let_def)
  show ?thesis
    using adv by (simp only: out exp seqs)
qed

lemma stream_inv_ahead_keys:
  "stream_inv b \<Longrightarrow> bt_inv (rb_pending b)
   \<and> (\<forall>(s, p) \<in> set (rb_pending b). s - rb_expected b < 0x8000 \<and> seq_of p = s)"
  by (auto simp: stream_inv_def dest: seq_of_belongs)

lemma flush_advances:
  assumes "stream_inv b"
  shows "advances (rb_expected b) (map seq_of (snd (flush_expired h b now)))
    (rb_expected (fst (flush_expired h b now)))"
proof -
  let ?b = "case rb_restart_candidate b of Some candidate \<Rightarrow>
      if RESTART_CONFIRMATION_WINDOW \<le> now - rc_since candidate then b\<lparr>rb_restart_candidate := None\<rparr> else b
    | None \<Rightarrow> b"
  have b: "rb_expected ?b = rb_expected b" "rb_pending ?b = rb_pending b"
    by (auto split: option.split)
  have "bt_inv (rb_pending ?b)" "\<forall>(s, p) \<in> set (rb_pending ?b). s - rb_expected ?b < 0x8000 \<and> seq_of p = s"
    using stream_inv_ahead_keys [OF assms] unfolding b by blast+
  then have "advances (rb_expected ?b) (map seq_of (snd (release_pending h ?b)))
      (rb_expected (fst (release_pending h ?b)))"
    by (rule release_advances)
  then show ?thesis
    unfolding flush_expired_def Let_def by (simp add: b advances_refl split: option.split)
qed

lemma behind_no_reset:
  "snd (push_behind h b packet q now) = [] \<Longrightarrow> rb_expected (fst (push_behind h b packet q now)) = rb_expected b"
  unfolding push_behind_def Let_def by (auto split: option.splits if_splits)

lemma dist_from_next:
  assumes "s \<noteq> e" "s - e < (0x8000 :: u16)"
  shows "s - (e + 1) < 0x8000"
proof -
  have "s - e - 1 < s - e" using assms(1) by (simp add: word_less_nat_alt unat_minus_one unat_gt_0)
  with assms(2) show ?thesis by (simp add: algebra_simps)
qed

lemma ahead_advances:
  assumes inv: "stream_inv b" and q: "parse_packet packet = Some q" "rb_ssrc b = Some (pp_ssrc q)"
    and d: "pp_seq q - rb_expected b < 0x8000"
  shows "advances (rb_expected b) (map seq_of (snd (push_ahead h b packet (pp_seq q) now)))
    (rb_expected (fst (push_ahead h b packet (pp_seq q) now)))"
proof (cases "pp_seq q = rb_expected b")
  case True
  let ?b = "remember_delivery h packet (b\<lparr>rb_restart_candidate := None, rb_expected := pp_seq q + 1\<rparr>)"
  have "advances (rb_expected ?b) (map seq_of (snd (release_pending h ?b))) (rb_expected (fst (release_pending h ?b)))"
    using inv True dist_from_next seq_of_belongs
    by (intro release_advances) (fastforce simp: stream_inv_def)+
  moreover have "advances (rb_expected b) [seq_of packet] (rb_expected ?b)"
    using True q serial_after_first [of "rb_expected b" "rb_expected b"] by (simp add: advances_def seq_of_def)
  ultimately have "advances (rb_expected b) ([seq_of packet] @ map seq_of (snd (release_pending h ?b)))
      (rb_expected (fst (release_pending h ?b)))"
    by (rule advances_append [rotated])
  with True show ?thesis by (simp add: push_ahead_def Let_def case_prod_beta)
next
  case False
  let ?b = "b\<lparr>rb_restart_candidate := None, rb_pending := bt_or_insert (pp_seq q) packet (rb_pending b),
             rb_deadline := Some (get_or_insert (rb_deadline b) (now + rb_max_wait b))\<rparr>"
  have "stream_inv ?b" using False inv q d by (rule stream_inv_queue)
  from flush_advances [OF this] False show ?thesis by (simp add: push_ahead_def Let_def)
qed

text \<open>
  The two ways the sequence space is abandoned: a new source, or a confirmed restart of
  the active one.
\<close>

fun resets :: "media_hash \<Rightarrow> reorder_buffer \<Rightarrow> reorder_op \<Rightarrow> bool" where
  "resets h b (Flush now) = False"
| "resets h b (Push packet now) =
     (case parse_packet packet of
        None \<Rightarrow> False
      | Some q \<Rightarrow>
          if rb_ssrc b \<noteq> Some (pp_ssrc q) then pp_ssrc q \<notin> rb_retired_ssrcs b
          else let b' = fst (flush_expired h b now)
               in 0x8000 \<le> pp_seq q - rb_expected b' \<and> snd (push_behind h b' packet q now) \<noteq> [])"

fun no_reset :: "media_hash \<Rightarrow> reorder_buffer \<Rightarrow> reorder_op list \<Rightarrow> bool" where
  "no_reset h b [] = True"
| "no_reset h b (op # ops) = (\<not> resets h b op \<and> no_reset h (fst (reorder_step h b op)) ops)"

text \<open>Every push that does not reset flushes first and then adds what the arrival itself releases.\<close>

lemma push_same_source:
  assumes "parse_packet packet = Some q" "rb_ssrc b = Some (pp_ssrc q)"
  shows "push h b packet now =
    (let b' = fst (flush_expired h b now);
         r = (if 0x8000 \<le> pp_seq q - rb_expected b' then push_behind h b' packet q now
              else push_ahead h b' packet (pp_seq q) now)
     in (fst r, snd (flush_expired h b now) @ snd r))"
  using assms by (simp add: push_def Let_def case_prod_beta)

lemma push_other_source:
  assumes "\<not> resets h b (Push packet now)"
    "\<And>q. parse_packet packet = Some q \<Longrightarrow> rb_ssrc b \<noteq> Some (pp_ssrc q)"
  shows "push h b packet now = flush_expired h b now"
  using assms by (auto simp: push_def Let_def split: option.splits)

lemma step_advances:
  assumes inv: "stream_inv b" and nr: "\<not> resets h b op"
  shows "advances (rb_expected b) (map seq_of (snd (reorder_step h b op))) (rb_expected (fst (reorder_step h b op)))"
proof (cases op)
  case (Flush now)
  with flush_advances [OF inv] show ?thesis by simp
next
  case (Push packet now)
  let ?b = "fst (flush_expired h b now)"
  note fl = flush_advances [OF inv, of h now] and inv' = stream_inv_flush [OF inv, of h now]
  show ?thesis
  proof (cases "\<exists>q. parse_packet packet = Some q \<and> rb_ssrc b = Some (pp_ssrc q)")
    case False
    with Push nr fl push_other_source [of h b packet now] show ?thesis by auto
  next
    case True
    then obtain q where q: "parse_packet packet = Some q" "rb_ssrc b = Some (pp_ssrc q)" by blast
    let ?r = "if 0x8000 \<le> pp_seq q - rb_expected ?b then push_behind h ?b packet q now
              else push_ahead h ?b packet (pp_seq q) now"
    have "advances (rb_expected ?b) (map seq_of (snd ?r)) (rb_expected (fst ?r))"
    proof (cases "0x8000 \<le> pp_seq q - rb_expected ?b")
      case True
      with nr Push q have "snd (push_behind h ?b packet q now) = []" by (simp add: Let_def)
      with True show ?thesis by (simp add: behind_no_reset advances_refl)
    next
      case False
      then have "pp_seq q - rb_expected ?b < 0x8000" by (simp only: not_le)
      with ahead_advances [OF inv' q(1), of h now] q(2) False show ?thesis by simp
    qed
    from advances_append [OF fl this] Push push_same_source [OF q, of h now] show ?thesis
      by (simp add: Let_def)
  qed
qed

lemma run_advances:
  "stream_inv b \<Longrightarrow> no_reset h b ops \<Longrightarrow>
   advances (rb_expected b) (map seq_of (snd (reorder_run h b ops))) (rb_expected (fst (reorder_run h b ops)))"
proof (induction ops arbitrary: b)
  case Nil
  then show ?case by (simp add: advances_refl)
next
  case (Cons op ops)
  have "stream_inv (fst (reorder_step h b op))"
    using Cons.prems(1) by (cases op) (simp_all add: stream_inv_push stream_inv_flush)
  with Cons step_advances [of b h op] show ?case
    by (auto simp: Let_def case_prod_beta intro: advances_append)
qed

section \<open>Nothing invented, nothing repeated\<close>

definition held :: "reorder_buffer \<Rightarrow> bytes multiset" where
  "held b = mset (map snd (rb_pending b))
     + (case rb_restart_candidate b of None \<Rightarrow> {#} | Some c \<Rightarrow> {#rc_packet c#})"

fun arrivals :: "reorder_op list \<Rightarrow> bytes list" where
  "arrivals [] = []"
| "arrivals (Push p _ # ops) = p # arrivals ops"
| "arrivals (Flush _ # ops) = arrivals ops"

lemma held_remember [simp]:
  "held (remember_delivery h p b) = held b" "held (fold (remember_delivery h) ps b) = held b"
  by (simp_all add: held_def)

lemma mset_release: "mset (snd (release_pending h b)) = mset (map snd (rb_pending b))"
  by (simp add: release_pending_def Let_def)

lemma release_cleared [simp]:
  "rb_pending (fst (release_pending h b)) = []"
  "rb_restart_candidate (fst (release_pending h b)) = None"
  "rb_deadline (fst (release_pending h b)) = None"
  by (simp_all add: release_pending_def Let_def)

lemma held_release: "held (fst (release_pending h b)) = {#}"
  by (simp add: held_def)

lemma flush_conserves: "mset (snd (flush_expired h b now)) + held (fst (flush_expired h b now)) \<subseteq># held b"
  unfolding flush_expired_def Let_def
  by (auto simp: mset_release held_release held_def split: option.split)

lemma behind_conserves:
  "mset (snd (push_behind h b packet q now)) + held (fst (push_behind h b packet q now)) \<subseteq># held b + {#packet#}"
  unfolding push_behind_def Let_def by (auto simp: held_def split: option.split)

lemma ahead_conserves:
  "mset (snd (push_ahead h b packet seq now)) + held (fst (push_ahead h b packet seq now)) \<subseteq># held b + {#packet#}"
proof (cases "seq = rb_expected b")
  case True
  then show ?thesis
    by (auto simp: push_ahead_def Let_def case_prod_beta mset_release held_release held_def)
next
  case False
  let ?b = "b\<lparr>rb_restart_candidate := None, rb_pending := bt_or_insert seq packet (rb_pending b),
             rb_deadline := Some (get_or_insert (rb_deadline b) (now + rb_max_wait b))\<rparr>"
  have "held ?b \<subseteq># held b + {#packet#}"
    by (auto simp: held_def bt_or_insert_def mset_values_bt_insert_fresh)
  with flush_conserves [of h ?b now] have "mset (snd (flush_expired h ?b now)) + held (fst (flush_expired h ?b now)) \<subseteq># held b + {#packet#}"
    by (rule subset_mset.order_trans)
  with False show ?thesis by (simp add: push_ahead_def Let_def)
qed

lemma push_conserves:
  "mset (snd (push h b packet now)) + held (fst (push h b packet now)) \<subseteq># held b + {#packet#}"
proof -
  note fl = flush_conserves [of h b now]
  have fl': "mset (snd (flush_expired h b now)) + held (fst (flush_expired h b now)) \<subseteq># held b + {#packet#}"
    using fl by (meson mset_subset_eq_add_left subset_mset.order_trans)
  show ?thesis
  proof (cases "\<exists>q. parse_packet packet = Some q \<and> rb_ssrc b = Some (pp_ssrc q)")
    case True
    then obtain q where q: "parse_packet packet = Some q" "rb_ssrc b = Some (pp_ssrc q)" by blast
    let ?b = "fst (flush_expired h b now)" and ?out = "mset (snd (flush_expired h b now))"
    let ?r = "if 0x8000 \<le> pp_seq q - rb_expected ?b then push_behind h ?b packet q now
              else push_ahead h ?b packet (pp_seq q) now"
    have "mset (snd ?r) + held (fst ?r) \<subseteq># held ?b + {#packet#}"
      by (simp only: behind_conserves ahead_conserves split: if_split) blast
    then have "?out + (mset (snd ?r) + held (fst ?r)) \<subseteq># ?out + (held ?b + {#packet#})"
      by (simp only: mset_subset_eq_mono_add_right_cancel mset_subset_eq_mono_add_left_cancel)
    also have "\<dots> \<subseteq># held b + {#packet#}"
      using fl by (metis add.assoc mset_subset_eq_mono_add_right_cancel)
    finally show ?thesis
      unfolding push_same_source [OF q] Let_def by (simp only: fst_conv snd_conv mset_append add.assoc)
  next
    case False
    with fl' show ?thesis
      by (auto simp: push_def Let_def switch_source_def held_def split: option.splits)
  qed
qed

lemma run_conserves:
  "mset (snd (reorder_run h b ops)) + held (fst (reorder_run h b ops)) \<subseteq># held b + mset (arrivals ops)"
proof (induction ops arbitrary: b)
  case (Cons op ops)
  let ?b = "fst (reorder_step h b op)" and ?out = "mset (snd (reorder_step h b op))"
  have step: "?out + held ?b \<subseteq># held b + mset (arrivals [op])"
    using push_conserves [of h b] flush_conserves [of h b] by (cases op) simp_all
  have "?out + (mset (snd (reorder_run h ?b ops)) + held (fst (reorder_run h ?b ops)))
      \<subseteq># ?out + (held ?b + mset (arrivals ops))"
    using Cons.IH [of ?b] by (simp only: mset_subset_eq_mono_add_left_cancel)
  also have "\<dots> = (?out + held ?b) + mset (arrivals ops)" by (simp only: add.assoc)
  also have "\<dots> \<subseteq># (held b + mset (arrivals [op])) + mset (arrivals ops)"
    using step by (simp only: mset_subset_eq_mono_add_right_cancel)
  also have "\<dots> = held b + mset (arrivals (op # ops))" by (cases op) simp_all
  finally show ?case by (simp add: Let_def case_prod_beta add.assoc)
qed simp

section \<open>Superseded sources\<close>

lemma held_belongs:
  assumes "stream_inv b" "p \<in># held b"
  shows "belongs (rb_ssrc b) (seq_of p) p"
  using assms by (fastforce simp: held_def stream_inv_def seq_of_belongs split: option.splits)

text \<open>Every delivery belongs to the source that is active once the step is done.\<close>

lemma switch_frame [simp]: "rb_ssrc (switch_source h b packet seq ssrc) = Some ssrc"
  by (simp add: switch_source_def)

lemma behind_frame [simp]:
  "rb_ssrc (fst (push_behind h b packet q now)) = rb_ssrc b"
  "rb_retired_ssrcs (fst (push_behind h b packet q now)) = rb_retired_ssrcs b"
  "rb_max_wait (fst (push_behind h b packet q now)) = rb_max_wait b"
  unfolding push_behind_def Let_def by (simp_all split: option.split)

lemma release_frame [simp]:
  "rb_ssrc (fst (release_pending h b)) = rb_ssrc b"
  "rb_retired_ssrcs (fst (release_pending h b)) = rb_retired_ssrcs b"
  "rb_max_wait (fst (release_pending h b)) = rb_max_wait b"
  by (simp_all add: release_pending_def Let_def)

lemma ahead_frame [simp]:
  "rb_ssrc (fst (push_ahead h b packet seq now)) = rb_ssrc b"
  "rb_retired_ssrcs (fst (push_ahead h b packet seq now)) = rb_retired_ssrcs b"
  "rb_max_wait (fst (push_ahead h b packet seq now)) = rb_max_wait b"
  by (simp_all add: push_ahead_def Let_def case_prod_beta)

lemma step_max_wait [simp]: "rb_max_wait (fst (reorder_step h b op)) = rb_max_wait b"
  by (cases op) (simp_all add: push_def switch_source_def Let_def case_prod_beta split: option.split)

lemma step_retired_mono: "rb_retired_ssrcs b \<subseteq> rb_retired_ssrcs (fst (reorder_step h b op))"
  by (cases op) (auto simp: push_def switch_source_def Let_def case_prod_beta split: option.split)

lemma step_belongs:
  assumes inv: "stream_inv b" and p: "p \<in> set (snd (reorder_step h b op))"
  shows "belongs (rb_ssrc (fst (reorder_step h b op))) (seq_of p) p"
proof (cases op)
  case (Flush now)
  with p flush_conserves [of h b now] have "p \<in># held b" by (simp add: mset_subset_eqD)
  with held_belongs [OF inv] Flush show ?thesis by simp
next
  case (Push packet now)
  show ?thesis
  proof (cases "\<exists>q. parse_packet packet = Some q \<and> rb_ssrc b = Some (pp_ssrc q)")
    case True
    then obtain q where q: "parse_packet packet = Some q" "rb_ssrc b = Some (pp_ssrc q)" by blast
    have "p \<in># held b + {#packet#}"
      using p push_conserves [of h b packet now] Push
      by (metis mset_subset_eqD reorder_step.simps(1) set_mset_mset union_iff)
    then have "p \<in># held b \<or> p = packet" by auto
    then have "belongs (rb_ssrc b) (seq_of p) p"
      using held_belongs [OF inv] q by (auto simp: belongs_def seq_of_def)
    moreover have "rb_ssrc (fst (push h b packet now)) = rb_ssrc b"
      unfolding push_same_source [OF q] Let_def by simp
    ultimately show ?thesis using Push by simp
  next
    case False
    have "belongs (rb_ssrc b) (seq_of p) p" if "p \<in> set (snd (flush_expired h b now))"
      using that flush_conserves [of h b now] held_belongs [OF inv] by (simp add: mset_subset_eqD)
    with False p Push show ?thesis
      by (auto simp: push_def Let_def belongs_def seq_of_def split: option.splits if_splits)
  qed
qed

lemma run_excludes_retired:
  assumes "stream_inv b" "ssrc \<in> rb_retired_ssrcs b" "p \<in> set (snd (reorder_run h b ops))"
    "parse_packet p = Some q"
  shows "pp_ssrc q \<noteq> ssrc"
  using assms
proof (induction ops arbitrary: b)
  case (Cons op ops)
  let ?b = "fst (reorder_step h b op)"
  have inv: "stream_inv ?b"
    using Cons.prems(1) by (cases op) (simp_all add: stream_inv_push stream_inv_flush)
  have ret: "ssrc \<in> rb_retired_ssrcs ?b" using Cons.prems(2) step_retired_mono by blast
  from Cons.prems(3) consider "p \<in> set (snd (reorder_step h b op))" | "p \<in> set (snd (reorder_run h ?b ops))"
    by (auto simp: Let_def case_prod_beta)
  then show ?case
  proof cases
    case 1
    from step_belongs [OF Cons.prems(1) this] Cons.prems(4) inv ret show ?thesis
      by (auto simp: belongs_def stream_inv_def)
  next
    case 2
    from Cons.IH [OF inv ret this Cons.prems(4)] show ?thesis .
  qed
qed simp

section \<open>Bounded wait\<close>

fun op_time :: "reorder_op \<Rightarrow> instant" where
  "op_time (Push _ now) = now"
| "op_time (Flush now) = now"

definition timely :: "reorder_buffer \<Rightarrow> instant \<Rightarrow> bool" where
  "timely b now \<longleftrightarrow> (\<forall>d. rb_deadline b = Some d \<longrightarrow> d \<le> now + rb_max_wait b)"

definition waiting :: "reorder_buffer \<Rightarrow> bytes \<Rightarrow> instant \<Rightarrow> bool" where
  "waiting b p limit \<longleftrightarrow>
     p \<in> snd ` set (rb_pending b) \<and> (\<exists>d. rb_deadline b = Some d \<and> d \<le> limit)"

lemma release_outputs: "set (snd (release_pending h b)) = snd ` set (rb_pending b)"
  by (simp add: release_pending_def Let_def)

lemma flush_waiting:
  assumes "waiting b p limit"
  shows "p \<in> set (snd (flush_expired h b now)) \<or> waiting (fst (flush_expired h b now)) p limit"
    and "limit \<le> now \<Longrightarrow> p \<in> set (snd (flush_expired h b now))"
  using assms unfolding flush_expired_def Let_def waiting_def
  by (auto simp: release_outputs split: option.splits)

lemma behind_waiting:
  assumes "waiting b p limit" "snd (push_behind h b packet q now) = []"
  shows "waiting (fst (push_behind h b packet q now)) p limit"
  using assms unfolding push_behind_def Let_def waiting_def by (auto split: option.splits if_splits)

lemma set_bt_or_insert_mono: "set m \<subseteq> set (bt_or_insert k v m)"
  by (auto simp: bt_or_insert_def set_bt_insert_fresh)

lemma ahead_waiting:
  assumes "waiting b p limit"
  shows "p \<in> set (snd (push_ahead h b packet seq now)) \<or> waiting (fst (push_ahead h b packet seq now)) p limit"
proof (cases "seq = rb_expected b")
  case True
  with assms show ?thesis
    by (auto simp: push_ahead_def Let_def case_prod_beta release_outputs waiting_def)
next
  case False
  let ?b = "b\<lparr>rb_restart_candidate := None, rb_pending := bt_or_insert seq packet (rb_pending b),
             rb_deadline := Some (get_or_insert (rb_deadline b) (now + rb_max_wait b))\<rparr>"
  have "waiting ?b p limit"
    using assms set_bt_or_insert_mono [of "rb_pending b" seq packet] by (auto simp: waiting_def)
  from flush_waiting(1) [OF this] False show ?thesis by (simp add: push_ahead_def Let_def)
qed

lemma step_waiting:
  assumes w: "waiting b p limit" and nr: "\<not> resets h b op"
  shows "p \<in> set (snd (reorder_step h b op)) \<or> waiting (fst (reorder_step h b op)) p limit"
    and "limit \<le> op_time op \<Longrightarrow> p \<in> set (snd (reorder_step h b op))"
proof -
  have "(p \<in> set (snd (reorder_step h b op)) \<or> waiting (fst (reorder_step h b op)) p limit)
      \<and> (limit \<le> op_time op \<longrightarrow> p \<in> set (snd (reorder_step h b op)))"
  proof (cases op)
    case (Flush now)
    with flush_waiting [OF w, where h = h and now = now] show ?thesis by simp
  next
    case (Push packet now)
    let ?b = "fst (flush_expired h b now)"
    show ?thesis
    proof (cases "\<exists>q. parse_packet packet = Some q \<and> rb_ssrc b = Some (pp_ssrc q)")
      case True
      then obtain q where q: "parse_packet packet = Some q" "rb_ssrc b = Some (pp_ssrc q)" by blast
      have "snd (push_behind h ?b packet q now) = []" if "0x8000 \<le> pp_seq q - rb_expected ?b"
        using nr Push q that by (simp add: Let_def)
      then show ?thesis
        using flush_waiting [OF w, where h = h and now = now] behind_waiting [of ?b p limit h packet q now]
          ahead_waiting [of ?b p limit h packet "pp_seq q" now] Push push_same_source [OF q, of h now]
        by (auto simp: Let_def)
    next
      case False
      with nr Push push_other_source [of h b packet now] flush_waiting [OF w, where h = h and now = now] show ?thesis
        by auto
    qed
  qed
  then show "p \<in> set (snd (reorder_step h b op)) \<or> waiting (fst (reorder_step h b op)) p limit"
    and "limit \<le> op_time op \<Longrightarrow> p \<in> set (snd (reorder_step h b op))" by blast+
qed

lemma run_waiting:
  "waiting b p limit \<Longrightarrow> no_reset h b ops \<Longrightarrow> \<exists>op \<in> set ops. limit \<le> op_time op \<Longrightarrow>
   p \<in> set (snd (reorder_run h b ops))"
proof (induction ops arbitrary: b)
  case (Cons op ops)
  with step_waiting [OF Cons.prems(1), where h = h and op = op] show ?case
    by (fastforce simp: Let_def case_prod_beta)
qed simp

lemma timely_flush: "timely b now \<Longrightarrow> timely (fst (flush_expired h b now')) now"
  unfolding flush_expired_def Let_def timely_def by (auto split: option.split)

lemma timely_ahead:
  assumes "timely b now"
  shows "timely (fst (push_ahead h b packet seq now)) now"
proof -
  have "timely (b\<lparr>rb_restart_candidate := None, rb_pending := bt_or_insert seq packet (rb_pending b),
             rb_deadline := Some (get_or_insert (rb_deadline b) (now + rb_max_wait b))\<rparr>) now"
    using assms by (cases "rb_deadline b") (simp_all add: timely_def)
  then show ?thesis
    by (simp add: push_ahead_def Let_def case_prod_beta timely_flush) (simp add: timely_def)
qed

lemma timely_behind: "timely b now \<Longrightarrow> timely (fst (push_behind h b packet q now')) now"
  unfolding push_behind_def Let_def timely_def by (auto split: option.split)

lemma timely_push: "timely b now \<Longrightarrow> timely (fst (push h b packet now)) now"
  unfolding push_def Let_def case_prod_beta
  by (simp add: timely_flush timely_ahead timely_behind split: option.split)
     (simp add: timely_def switch_source_def)

lemma timely_step: "timely b t \<Longrightarrow> t \<le> op_time op \<Longrightarrow> timely (fst (reorder_step h b op)) (op_time op)"
proof -
  assume "timely b t" "t \<le> op_time op"
  then have "timely b (op_time op)" by (fastforce simp: timely_def)
  then show ?thesis by (cases op) (simp_all add: timely_push timely_flush)
qed

lemma push_waits:
  assumes "timely b now" and q: "parse_packet packet = Some q" "rb_ssrc b = Some (pp_ssrc q)"
    and d: "pp_seq q - rb_expected (fst (flush_expired h b now)) < 0x8000"
    and fresh: "map_of (rb_pending (fst (flush_expired h b now))) (pp_seq q) = None"
  shows "packet \<in> set (snd (push h b packet now)) \<or> waiting (fst (push h b packet now)) packet (now + rb_max_wait b)"
proof -
  let ?b = "fst (flush_expired h b now)"
  have t: "timely ?b now" using assms(1) by (rule timely_flush)
  have "packet \<in> set (snd (push_ahead h ?b packet (pp_seq q) now))
      \<or> waiting (fst (push_ahead h ?b packet (pp_seq q) now)) packet (now + rb_max_wait b)"
  proof (cases "pp_seq q = rb_expected ?b")
    case True
    then show ?thesis by (simp add: push_ahead_def Let_def case_prod_beta)
  next
    case False
    let ?b' = "?b\<lparr>rb_restart_candidate := None, rb_pending := bt_or_insert (pp_seq q) packet (rb_pending ?b),
             rb_deadline := Some (get_or_insert (rb_deadline ?b) (now + rb_max_wait ?b))\<rparr>"
    have "waiting ?b' packet (now + rb_max_wait b)"
      using t fresh by (cases "rb_deadline ?b")
        (force simp: waiting_def timely_def bt_or_insert_def set_bt_insert_fresh)+
    from flush_waiting(1) [OF this] False show ?thesis by (simp add: push_ahead_def Let_def)
  qed
  with d push_same_source [OF q, of h now] show ?thesis by (auto simp: Let_def not_le)
qed

section \<open>An ordered stream passes through\<close>

fun in_order :: "u32 \<Rightarrow> u16 \<Rightarrow> bytes list \<Rightarrow> bool" where
  "in_order ssrc e [] = True"
| "in_order ssrc e (p # ps) = (belongs (Some ssrc) e p \<and> in_order ssrc (e + 1) ps)"

definition quiet :: "u32 \<Rightarrow> u16 \<Rightarrow> reorder_buffer \<Rightarrow> bool" where
  "quiet ssrc e b \<longleftrightarrow> rb_ssrc b = Some ssrc \<and> rb_expected b = e \<and> rb_pending b = [] \<and> rb_deadline b = None"

lemma push_expected:
  assumes "quiet ssrc e b" "belongs (Some ssrc) e p"
  shows "snd (push h b p now) = [p] \<and> quiet ssrc (e + 1) (fst (push h b p now))"
proof -
  obtain q where q: "parse_packet p = Some q" "pp_seq q = e" "pp_ssrc q = ssrc"
    using assms(2) by (auto simp: belongs_def split: option.splits)
  have "rb_ssrc b = Some (pp_ssrc q)" using assms(1) q by (simp add: quiet_def)
  then show ?thesis
    using assms(1) q push_same_source [OF q(1), of b h now]
    by (auto simp: quiet_def flush_expired_def push_ahead_def release_pending_def Let_def split: option.split)
qed

lemma run_in_order:
  "quiet ssrc e b \<Longrightarrow> in_order ssrc e (map fst pts) \<Longrightarrow>
   snd (reorder_run h b (map (\<lambda>(p, t). Push p t) pts)) = map fst pts"
proof (induction pts arbitrary: b e)
  case (Cons pt pts)
  obtain p t where pt: "pt = (p, t)" by (cases pt)
  with Cons.prems have "snd (push h b p t) = [p] \<and> quiet ssrc (e + 1) (fst (push h b p t))"
    by (intro push_expected) simp_all
  with Cons.prems pt Cons.IH [where e = "e + 1" and b = "fst (push h b p t)"] show ?case
    by (simp add: Let_def case_prod_beta)
qed simp

lemmas reorder_eval = reorder_new_def push_def flush_expired_def push_ahead_def push_behind_def
  release_pending_def switch_source_def remember_delivery_def media_identity_def
  DELIVERED_PACKET_HISTORY_def bt_or_insert_def Let_def

section \<open>Properties\<close>

text \<open>
  C1: between two resets of the sequence space (a new source, or a confirmed restart) the
  buffer delivers in sequence order. From any state reached from a new buffer, along any
  operations that do not reset, each delivered packet comes after the one before it on the
  circle of sequence numbers, the first after everything delivered earlier, and
  \<open>expected\<close> ends one past the last delivery.
\<close>

theorem reorder_delivers_in_order:
  assumes "b = fst (reorder_run h (reorder_new w) ops0)" "no_reset h b ops"
  shows "advances (rb_expected b) (map seq_of (snd (reorder_run h b ops)))
    (rb_expected (fst (reorder_run h b ops)))"
proof -
  have "reorder_inv b" using assms(1) reorder_run_inv [OF reorder_inv_new] by blast
  then show ?thesis using assms(2) by (simp add: reorder_inv_def run_advances)
qed

theorem reorder_delivers_in_order_witness:
  "let b = fst (reorder_run (\<lambda>_. 0) (reorder_new 60) [Push (build_packet 10 0 1 0 []) 0]);
       ops = [Push (build_packet 12 0 1 0 []) 0, Push (build_packet 11 0 1 0 []) 0]
   in no_reset (\<lambda>_. 0) b ops
      \<and> advances (rb_expected b) (map seq_of (snd (reorder_run (\<lambda>_. 0) b ops)))
          (rb_expected (fst (reorder_run (\<lambda>_. 0) b ops)))"
proof -
  have nr: "no_reset (\<lambda>_. 0) (fst (reorder_run (\<lambda>_. 0) (reorder_new 60) [Push (build_packet 10 0 1 0 []) 0]))
      [Push (build_packet 12 0 1 0 []) 0, Push (build_packet 11 0 1 0 []) 0]"
    by (simp add: reorder_eval)
  from nr reorder_delivers_in_order [OF refl nr] show ?thesis unfolding Let_def by blast
qed

text \<open>
  the buffer delivers only what arrived, and nothing more often than it arrived,
  whatever the arrivals, duplicates and clock readings are.
\<close>

theorem reorder_delivers_arrivals:
  "mset (snd (reorder_run h (reorder_new w) ops)) \<subseteq># mset (arrivals ops)"
proof -
  have "held (reorder_new w) = {#}" by (simp add: held_def reorder_new_def)
  with run_conserves [of h "reorder_new w" ops] show ?thesis
    by (metis add_0 mset_subset_eq_add_left subset_mset.order_trans)
qed

text \<open>
  C33: no packet waits longer than \<open>max_wait\<close>. A packet of the active source that is not
  behind the stream and not a duplicate of a queued one is delivered at once, or by the
  first later operation (an arrival or a timer flush) at or after its arrival plus
  \<open>max_wait\<close>, unless the sequence space is reset in between.
\<close>

theorem reorder_bounded_wait:
  assumes "timely b now"
    and "parse_packet packet = Some q" "rb_ssrc b = Some (pp_ssrc q)"
    and "pp_seq q - rb_expected (fst (flush_expired h b now)) < 0x8000"
    and "map_of (rb_pending (fst (flush_expired h b now))) (pp_seq q) = None"
    and "push h b packet now = (b1, out1)"
    and "no_reset h b1 ops" "\<exists>op \<in> set ops. now + rb_max_wait b \<le> op_time op"
  shows "packet \<in> set (out1 @ snd (reorder_run h b1 ops))"
  using push_waits [OF assms(1-5)] run_waiting [of b1 packet _ h ops] assms(6-8) by auto

theorem reorder_bounded_wait_witness:
  "let b = fst (reorder_run (\<lambda>_. 0) (reorder_new 60) [Push (build_packet 10 0 1 0 []) 0]);
       p = build_packet 12 0 1 0 []
   in p \<in> set (snd (push (\<lambda>_. 0) b p 5)
        @ snd (reorder_run (\<lambda>_. 0) (fst (push (\<lambda>_. 0) b p 5)) [Flush 65]))"
  unfolding Let_def
  by (rule reorder_bounded_wait [where now = 5 and q = "\<lparr>pp_seq = 12, pp_timestamp = 0, pp_ssrc = 1,
        pp_payload_type = 0, pp_payload = []\<rparr>", OF _ _ _ _ _ surjective_pairing])
    (simp_all add: reorder_eval timely_def)

text \<open>
  once another source has taken over, no packet of the superseded source is ever
  delivered again, through any further operations.
\<close>

theorem reorder_superseded_source_silent:
  assumes "b = fst (reorder_run h (reorder_new w) ops0)" "ssrc \<in> rb_retired_ssrcs b"
    and "p \<in> set (snd (reorder_run h b ops))" "parse_packet p = Some q"
  shows "pp_ssrc q \<noteq> ssrc"
proof -
  have "reorder_inv b" using assms(1) reorder_run_inv [OF reorder_inv_new] by blast
  then show ?thesis using assms(2-4) by (auto simp: reorder_inv_def dest: run_excludes_retired)
qed

theorem reorder_superseded_source_silent_witness:
  "let b = fst (reorder_run (\<lambda>_. 0) (reorder_new 60)
             [Push (build_packet 10 0 1 0 []) 0, Push (build_packet 50 0 2 0 []) 0]);
       ops = [Push (build_packet 11 0 1 0 []) 1, Push (build_packet 51 0 2 0 []) 2]
   in 1 \<in> rb_retired_ssrcs b \<and> build_packet 51 0 2 0 [] \<in> set (snd (reorder_run (\<lambda>_. 0) b ops))
      \<and> (2 :: u32) \<noteq> 1"
proof -
  have "1 \<in> rb_retired_ssrcs (fst (reorder_run (\<lambda>_. 0) (reorder_new 60)
      [Push (build_packet 10 0 1 0 []) 0, Push (build_packet 50 0 2 0 []) 0]))"
    by (simp add: reorder_eval)
  moreover have "build_packet 51 0 2 0 [] \<in> set (snd (reorder_run (\<lambda>_. 0)
      (fst (reorder_run (\<lambda>_. 0) (reorder_new 60)
        [Push (build_packet 10 0 1 0 []) 0, Push (build_packet 50 0 2 0 []) 0]))
      [Push (build_packet 11 0 1 0 []) 1, Push (build_packet 51 0 2 0 []) 2]))"
    by (simp add: reorder_eval)
  ultimately show ?thesis
    using reorder_superseded_source_silent [OF refl, of 1 "\<lambda>_. 0" 60, OF _ _ parse_build_packet]
    unfolding Let_def by fastforce
qed

text \<open>
  An ordered stream is not delayed: with nothing queued, consecutive packets starting
  at \<open>expected\<close> are each delivered on arrival, at any clock readings.
\<close>

theorem reorder_ordered_stream_transparent:
  assumes "quiet ssrc e b" "in_order ssrc e (map fst pts)"
  shows "snd (reorder_run h b (map (\<lambda>(p, t). Push p t) pts)) = map fst pts"
  using assms by (rule run_in_order)

theorem reorder_ordered_stream_transparent_witness:
  "snd (reorder_run (\<lambda>_. 0) (fst (push (\<lambda>_. 0) (reorder_new 60) (build_packet 65534 0 7 0 []) 0))
     (map (\<lambda>(p, t). Push p t) [(build_packet 65535 0 7 0 [1], 3), (build_packet 0 0 7 0 [2], 1)]))
   = [build_packet 65535 0 7 0 [1], build_packet 0 0 7 0 [2]]"
  using reorder_ordered_stream_transparent [of 7 65535
      "fst (push (\<lambda>_. 0) (reorder_new 60) (build_packet 65534 0 7 0 []) 0)"
      "[(build_packet 65535 0 7 0 [1], 3), (build_packet 0 0 7 0 [2], 1)]" "\<lambda>_. 0"]
  by (simp add: quiet_def belongs_def reorder_eval)

text \<open>
  the buffer's invariant holds in every reachable state: the pending packets are filed
  in key order under their own sequence numbers, all ahead of \<open>expected\<close> and of the active
  source; the deadline is set exactly while something is pending; the delivery history
  never exceeds one sequence cycle and counts exactly the remembered deliveries.
\<close>

theorem reorder_reachable_inv: "reorder_inv (fst (reorder_run h (reorder_new w) ops))"
  by (rule reorder_run_inv) (rule reorder_inv_new)

end
