(* ===== verification/Amr_Rtp.thy ===== *)
theory Amr_Rtp
  imports Bridge_Prelude "HOL-Library.Monad_Syntax"
begin

text \<open>
  \<^verbatim>\<open>ims/amr_rtp.rs\<close>: RFC 4867 payload framing of AMR and AMR-WB. The bit reader and writer
  are modelled as written, position by position over bytes, and are shown to implement the
  contract the framing code relies on: a reader consumes a list of bits, a writer appends to
  one. The framing functions are then reasoned about on bit lists only.

  A Rust index out of range stops the thread. Where a modelled function indexes without a
  check, its result is an option whose \<open>None\<close> is that panic.
\<close>

section \<open>The bits of a byte string\<close>

text \<open>Most significant bit first, as RFC 4867 numbers them.\<close>

definition bits_of :: "bytes \<Rightarrow> bool list" where
  "bits_of bs = map (\<lambda>p. bit (bs ! (p div 8)) (7 - p mod 8)) [0..<8 * length bs]"

text \<open>The value of a field of at most eight bits, and the bits of such a field.\<close>

definition num_of_bits :: "bool list \<Rightarrow> u8" where
  "num_of_bits xs = horner_sum of_bool 2 (rev xs)"

definition field_bits :: "u8 \<Rightarrow> nat \<Rightarrow> bool list" where
  "field_bits v n = map (bit v) (rev [0..<n])"

text \<open>Bits packed into bytes from the left, the last byte padded with zeros.\<close>

definition byte_at :: "bool list \<Rightarrow> nat \<Rightarrow> u8" where
  "byte_at xs k =
     horner_sum of_bool 2 (map (\<lambda>j. 8 * k + (7 - j) < length xs \<and> xs ! (8 * k + (7 - j))) [0..<8])"

definition pack :: "bool list \<Rightarrow> bytes" where
  "pack xs = map (byte_at xs) [0..<(length xs + 7) div 8]"

lemma length_bits_of [simp]: "length (bits_of bs) = 8 * length bs"
  by (simp add: bits_of_def)

lemma nth_bits_of: "p < 8 * length bs \<Longrightarrow> bits_of bs ! p = bit (bs ! (p div 8)) (7 - p mod 8)"
  by (simp add: bits_of_def)

lemma bits_of_Nil [simp]: "bits_of [] = []"
  by (simp add: bits_of_def)

lemma bits_of_append: "bits_of (xs @ ys) = bits_of xs @ bits_of ys"
proof (rule nth_equalityI)
  fix p assume p: "p < length (bits_of (xs @ ys))"
  show "bits_of (xs @ ys) ! p = (bits_of xs @ bits_of ys) ! p"
  proof (cases "p < 8 * length xs")
    case True
    then have "p div 8 < length xs" by linarith
    with True p show ?thesis by (simp add: nth_append nth_bits_of)
  next
    case False
    then obtain q where q: "p = 8 * length xs + q" using le_Suc_ex not_less by blast
    with p show ?thesis by (simp add: nth_append nth_bits_of)
  qed
qed simp

lemma bits_of_Cons: "bits_of (b # bs) = field_bits b 8 @ bits_of bs"
proof -
  have "bits_of [b] = field_bits b 8"
    by (rule nth_equalityI) (auto simp: nth_bits_of field_bits_def rev_nth)
  then show ?thesis using bits_of_append [of "[b]" bs] by simp
qed

lemma length_field_bits [simp]: "length (field_bits v n) = n"
  by (simp add: field_bits_def)

lemma bit_num_of_bits:
  "bit (num_of_bits xs) i \<longleftrightarrow> i < 8 \<and> i < length xs \<and> xs ! (length xs - Suc i)"
  by (auto simp: num_of_bits_def bit_horner_sum_bit_word_iff rev_nth)

lemma num_of_field_bits [simp]: "num_of_bits (field_bits v n) = take_bit n v"
  by (rule bit_word_eqI) (auto simp: bit_num_of_bits field_bits_def bit_take_bit_iff rev_nth)

lemma field_num_of_bits: "length xs \<le> 8 \<Longrightarrow> field_bits (num_of_bits xs) (length xs) = xs"
  by (rule nth_equalityI) (auto simp: field_bits_def bit_num_of_bits rev_nth)

lemma num_of_bits_less: "length xs \<le> n \<Longrightarrow> n < 8 \<Longrightarrow> num_of_bits xs < 2 ^ n"
proof -
  assume "length xs \<le> n" "n < 8"
  then have "take_bit n (num_of_bits xs) = num_of_bits xs"
    by (intro bit_word_eqI) (auto simp: bit_take_bit_iff bit_num_of_bits)
  with \<open>n < 8\<close> show ?thesis by (simp add: u8_take_bit_iff)
qed

lemma bit_byte_at:
  "bit (byte_at xs k) j \<longleftrightarrow> j < 8 \<and> 8 * k + (7 - j) < length xs \<and> xs ! (8 * k + (7 - j))"
  by (auto simp: byte_at_def bit_horner_sum_bit_word_iff)

lemma length_pack [simp]: "length (pack xs) = (length xs + 7) div 8"
  by (simp add: pack_def)

lemma nth_pack: "k < (length xs + 7) div 8 \<Longrightarrow> pack xs ! k = byte_at xs k"
  by (simp add: pack_def)

lemma pack_Nil [simp]: "pack [] = []"
  by (simp add: pack_def)

lemma pack_bits_of [simp]: "pack (bits_of bs) = bs"
proof (rule nth_equalityI)
  fix k assume "k < length (pack (bits_of bs))"
  then have k: "k < length bs" by simp
  show "pack (bits_of bs) ! k = bs ! k"
  proof (rule bit_word_eqI)
    fix j assume "j < LENGTH(8)"
    then have j: "j < 8" by simp
    have "8 * k + (7 - j) < 8 * length bs" using k by linarith
    moreover have "(8 * k + (7 - j)) div 8 = k" "7 - (8 * k + (7 - j)) mod 8 = j"
      using j by (simp_all only: div_mult_self4 mod_mult_self4) auto
    ultimately show "bit (pack (bits_of bs) ! k) j = bit (bs ! k) j"
      using k j by (simp add: nth_pack bit_byte_at nth_bits_of del: add_diff_assoc)
  qed
qed simp

lemma bits_of_pack: "bits_of (pack xs) = xs @ replicate (8 * ((length xs + 7) div 8) - length xs) False"
proof (rule nth_equalityI)
  fix p assume "p < length (bits_of (pack xs))"
  then have p: "p < 8 * ((length xs + 7) div 8)" by simp
  then have k: "p div 8 < (length xs + 7) div 8" by (simp add: less_mult_imp_div_less)
  have "8 * (p div 8) + (7 - (7 - p mod 8)) = p" by simp
  with p k show "bits_of (pack xs) ! p =
      (xs @ replicate (8 * ((length xs + 7) div 8) - length xs) False) ! p"
    by (auto simp: nth_bits_of nth_pack bit_byte_at nth_append)
next
  have "length xs \<le> 8 * ((length xs + 7) div 8)" by (rule ceil8_le)
  then show "length (bits_of (pack xs)) =
      length (xs @ replicate (8 * ((length xs + 7) div 8) - length xs) False)" by simp
qed

lemma take_bits_of_pack [simp]: "take (length xs) (bits_of (pack xs)) = xs"
  by (simp add: bits_of_pack)

text \<open>Appending one bit opens a new byte at a multiple of eight and sets a bit otherwise.\<close>

lemma byte_at_snoc:
  "i < length xs div 8 \<Longrightarrow> byte_at (xs @ [b]) i = byte_at xs i"
  "byte_at (xs @ [b]) (length xs div 8) =
     byte_at xs (length xs div 8) OR push_bit (7 - length xs mod 8) (of_bool b)"
proof -
  assume "i < length xs div 8"
  then have "8 * i + (7 - j) < length xs" for j by linarith
  then show "byte_at (xs @ [b]) i = byte_at xs i"
    by (intro bit_word_eqI) (auto simp: bit_byte_at nth_append less_SucI simp del: add_diff_assoc)
next
  show "byte_at (xs @ [b]) (length xs div 8) =
      byte_at xs (length xs div 8) OR push_bit (7 - length xs mod 8) (of_bool b)"
  proof (rule bit_word_eqI)
    fix j assume "j < LENGTH(8)"
    then have j: "j < 8" by simp
    let ?p = "8 * (length xs div 8) + (7 - j)"
    have "?p = length xs \<longleftrightarrow> j = 7 - length xs mod 8" 
    proof -
      have "8 * (length xs div 8) + length xs mod 8 = length xs" "length xs mod 8 < 8" by simp_all
      then show ?thesis using j by linarith
    qed
    moreover have "bit (push_bit (7 - length xs mod 8) (of_bool b) :: u8) j \<longleftrightarrow> j = 7 - length xs mod 8 \<and> b"
      using j by (auto simp: bit_simps)
    ultimately show "bit (byte_at (xs @ [b]) (length xs div 8)) j =
        bit (byte_at xs (length xs div 8) OR push_bit (7 - length xs mod 8) (of_bool b)) j"
      using j by (auto simp: bit_byte_at nth_append bit_or_iff less_Suc_eq simp del: add_diff_assoc)
  qed
qed

lemma pack_snoc:
  "pack (xs @ [b]) =
     (let bytes = (if 8 dvd length xs then pack xs @ [0] else pack xs); k = length xs div 8
      in bytes[k := bytes ! k OR push_bit (7 - length xs mod 8) (of_bool b)])"
proof -
  let ?k = "length xs div 8"
  have bytes: "(if 8 dvd length xs then pack xs @ [0] else pack xs) = map (byte_at xs) [0..<Suc ?k]"
  proof (cases "8 dvd length xs")
    case True
    then have "(length xs + 7) div 8 = ?k" and "8 * ?k = length xs" by (simp_all add: ceil8)
    moreover from this have "byte_at xs ?k = 0"
      by (intro bit_word_eqI) (auto simp: bit_byte_at)
    ultimately show ?thesis using True by (simp add: pack_def)
  next
    case False
    then have "(length xs + 7) div 8 = Suc ?k" by (rule ceil8)
    with False show ?thesis by (simp add: pack_def)
  qed
  have "(length (xs @ [b]) + 7) div 8 = Suc ?k" by simp
  then have "pack (xs @ [b]) = map (byte_at (xs @ [b])) [0..<Suc ?k]"
    by (simp only: pack_def)
  also have "\<dots> = (map (byte_at xs) [0..<Suc ?k])
      [?k := byte_at xs ?k OR push_bit (7 - length xs mod 8) (of_bool b)]"
    by (rule nth_equalityI) (auto simp: nth_list_update byte_at_snoc less_Suc_eq nth_append)
  finally show ?thesis unfolding bytes Let_def by (simp add: nth_append)
qed

section \<open>The bit reader and writer\<close>

record bit_reader =
  rd_bytes :: bytes
  rd_pos :: nat

definition bit_reader_new :: "bytes \<Rightarrow> bit_reader" where
  "bit_reader_new bytes = \<lparr>rd_bytes = bytes, rd_pos = 0\<rparr>"

fun read_loop :: "nat \<Rightarrow> bytes \<Rightarrow> nat \<Rightarrow> u8 \<Rightarrow> (u8 \<times> nat) option" where
  "read_loop 0 bytes pos out = Some (out, pos)"
| "read_loop (Suc n) bytes pos out =
     (case get_at bytes (pos div 8) of
        None \<Rightarrow> None
      | Some byte \<Rightarrow>
          let b = drop_bit (7 - pos mod 8) byte AND 1
          in read_loop n bytes (pos + 1) (push_bit 1 out OR b))"

definition read :: "bit_reader \<Rightarrow> nat \<Rightarrow> (u8 \<times> bit_reader) option" where
  "read r n = do {
     (out, pos) \<leftarrow> read_loop n (rd_bytes r) (rd_pos r) 0;
     Some (out, r\<lparr>rd_pos := pos\<rparr>) }"

fun read_bits_loop :: "nat \<Rightarrow> nat \<Rightarrow> bytes \<Rightarrow> nat \<Rightarrow> bytes \<Rightarrow> (bytes \<times> nat) option" where
  "read_bits_loop i 0 bytes pos out = Some (out, pos)"
| "read_bits_loop i (Suc n) bytes pos out =
     (case get_at bytes (pos div 8) of
        None \<Rightarrow> None
      | Some byte \<Rightarrow>
          let b = drop_bit (7 - pos mod 8) byte AND 1
          in read_bits_loop (i + 1) n bytes (pos + 1)
               (out[i div 8 := out ! (i div 8) OR push_bit (7 - i mod 8) b]))"

definition read_bits_to_bytes :: "bit_reader \<Rightarrow> nat \<Rightarrow> (bytes \<times> bit_reader) option" where
  "read_bits_to_bytes r n = do {
     (out, pos) \<leftarrow> read_bits_loop 0 n (rd_bytes r) (rd_pos r) (replicate ((n + 7) div 8) 0);
     Some (out, r\<lparr>rd_pos := pos\<rparr>) }"

record bit_writer =
  wr_bytes :: bytes
  wr_bits :: nat

definition bit_writer_default :: bit_writer where
  "bit_writer_default = \<lparr>wr_bytes = [], wr_bits = 0\<rparr>"

definition write_bit :: "bit_writer \<Rightarrow> u8 \<Rightarrow> bit_writer" where
  "write_bit w b =
     (let bytes = (if wr_bits w mod 8 = 0 then wr_bytes w @ [0] else wr_bytes w);
          idx = wr_bits w div 8
      in \<lparr>wr_bytes = bytes[idx := bytes ! idx OR push_bit (7 - wr_bits w mod 8) b],
          wr_bits = wr_bits w + 1\<rparr>)"

fun write_field :: "bit_writer \<Rightarrow> u8 \<Rightarrow> nat \<Rightarrow> bit_writer" where
  "write_field w v 0 = w"
| "write_field w v (Suc i) = write_field (write_bit w (drop_bit i v AND 1)) v i"

fun write_bits_loop :: "nat \<Rightarrow> nat \<Rightarrow> bit_writer \<Rightarrow> bytes \<Rightarrow> bit_writer option" where
  "write_bits_loop i 0 w src = Some w"
| "write_bits_loop i (Suc n) w src = do {
     byte \<leftarrow> get_at src (i div 8);
     write_bits_loop (i + 1) n (write_field w (drop_bit (7 - i mod 8) byte AND 1) 1) src }"

definition write_bits_from_bytes :: "bit_writer \<Rightarrow> bytes \<Rightarrow> nat \<Rightarrow> bit_writer option" where
  "write_bits_from_bytes w src n = write_bits_loop 0 n w src"

section \<open>The bit-stream contract\<close>

text \<open>
  A source hands out the bits that remain, field by field, and stops when too few are left. A
  sink collects bits and outputs them packed. \<open>holds w xs\<close> reads: the bits written to \<open>w\<close> so
  far are \<open>xs\<close>.
\<close>

locale bit_source =
  fixes rd :: "'r \<Rightarrow> nat \<Rightarrow> (u8 \<times> 'r) option"
    and rd_many :: "'r \<Rightarrow> nat \<Rightarrow> (bytes \<times> 'r) option"
    and remaining :: "'r \<Rightarrow> bool list"
  assumes rd_ok: "n \<le> 8 \<Longrightarrow> n \<le> length (remaining r) \<Longrightarrow>
      \<exists>r'. rd r n = Some (num_of_bits (take n (remaining r)), r') \<and> remaining r' = drop n (remaining r)"
    and rd_end: "length (remaining r) < n \<Longrightarrow> rd r n = None"
    and rd_many_ok: "n \<le> length (remaining r) \<Longrightarrow>
      \<exists>r'. rd_many r n = Some (pack (take n (remaining r)), r') \<and> remaining r' = drop n (remaining r)"
    and rd_many_end: "length (remaining r) < n \<Longrightarrow> rd_many r n = None"
begin

lemma rd_field:
  "remaining r = field_bits v n @ rest \<Longrightarrow> n \<le> 8 \<Longrightarrow>
    \<exists>r'. rd r n = Some (take_bit n v, r') \<and> remaining r' = rest"
  using rd_ok [of n r] by simp

lemma rd_SomeD:
  assumes "rd r n = Some (v, r')" "n \<le> 8"
  shows "remaining r = field_bits v n @ remaining r' \<and> take_bit n v = v"
proof -
  from assms(1) have n: "n \<le> length (remaining r)" using rd_end [of r n] by fastforce
  with rd_ok [OF assms(2) n] assms(1)
  have v: "v = num_of_bits (take n (remaining r))" "remaining r' = drop n (remaining r)" by auto
  have "field_bits v n = take n (remaining r)"
    using field_num_of_bits [of "take n (remaining r)"] n assms(2) v(1) by (simp add: min_absorb2)
  with v show ?thesis by (metis append_take_drop_id num_of_field_bits)
qed

lemma rd_many_bits:
  "remaining r = bs @ rest \<Longrightarrow> length bs = n \<Longrightarrow>
    \<exists>r'. rd_many r n = Some (pack bs, r') \<and> remaining r' = rest"
  using rd_many_ok [of n r] by auto

lemma rd_many_SomeD:
  assumes "rd_many r n = Some (v, r')"
  shows "\<exists>bs. remaining r = bs @ remaining r' \<and> length bs = n \<and> v = pack bs"
proof -
  from assms have n: "n \<le> length (remaining r)" using rd_many_end [of r n] by fastforce
  with rd_many_ok [OF n] assms show ?thesis
    by (intro exI [of _ "take n (remaining r)"]) auto
qed

end

locale bit_sink =
  fixes wr :: "'w \<Rightarrow> u8 \<Rightarrow> nat \<Rightarrow> 'w"
    and wr_many :: "'w \<Rightarrow> bytes \<Rightarrow> nat \<Rightarrow> 'w option"
    and out_bytes :: "'w \<Rightarrow> bytes"
    and holds :: "'w \<Rightarrow> bool list \<Rightarrow> bool"
  assumes wr_ok: "holds w xs \<Longrightarrow> holds (wr w v n) (xs @ field_bits v n)"
    and wr_many_ok: "holds w xs \<Longrightarrow> n \<le> 8 * length src \<Longrightarrow>
      \<exists>w'. wr_many w src n = Some w' \<and> holds w' (xs @ take n (bits_of src))"
    and out_bytes_ok: "holds w xs \<Longrightarrow> out_bytes w = pack xs"
begin

lemma wr_many_pack:
  assumes "holds w xs" "n = length bs"
  shows "\<exists>w'. wr_many w (pack bs) n = Some w' \<and> holds w' (xs @ bs)"
proof -
  have "n \<le> 8 * length (pack bs)" using assms(2) by simp
  from wr_many_ok [OF assms(1) this] assms(2) show ?thesis by auto
qed

end

definition reader_remaining :: "bit_reader \<Rightarrow> bool list" where
  "reader_remaining r = drop (rd_pos r) (bits_of (rd_bytes r))"

definition writer_holds :: "bit_writer \<Rightarrow> bool list \<Rightarrow> bool" where
  "writer_holds w xs \<longleftrightarrow> wr_bits w = length xs \<and> wr_bytes w = pack xs"

lemma one_bit_field: "drop_bit k (b :: u8) AND 1 = of_bool (bit b k)"
  by (rule bit_word_eqI) (auto simp: bit_simps bit_1_iff)

lemma next_bit:
  "get_at bytes (pos div 8) =
     (if pos < 8 * length bytes then Some (bytes ! (pos div 8)) else None)"
  by (auto simp: get_at_def)

lemma drop_bits_of:
  "pos < 8 * length bytes \<Longrightarrow>
    drop pos (bits_of bytes) = bit (bytes ! (pos div 8)) (7 - pos mod 8) # drop (Suc pos) (bits_of bytes)"
  by (subst Cons_nth_drop_Suc [symmetric]) (simp_all add: nth_bits_of)

lemma num_of_bits_snoc: "num_of_bits (xs @ [b]) = push_bit 1 (num_of_bits xs) OR of_bool b"
proof (rule bit_word_eqI)
  fix i assume "i < LENGTH(8)"
  then have "bit (push_bit 1 (num_of_bits xs) OR of_bool b) i \<longleftrightarrow>
      1 \<le> i \<and> bit (num_of_bits xs) (i - 1) \<or> b \<and> i = 0"
    by (simp only: bit_or_iff bit_push_bit_iff bit_of_bool_iff possible_bit_word) auto
  with \<open>i < LENGTH(8)\<close>
  show "bit (num_of_bits (xs @ [b])) i = bit (push_bit 1 (num_of_bits xs) OR of_bool b) i"
    by (cases i) (auto simp: bit_num_of_bits nth_append)
qed

lemma read_loop_eq:
  "read_loop n bytes pos (num_of_bits acc) =
     (if n = 0 \<or> pos + n \<le> 8 * length bytes
      then Some (num_of_bits (acc @ take n (drop pos (bits_of bytes))), pos + n) else None)"
proof (induction n arbitrary: pos acc)
  case (Suc n)
  show ?case
  proof (cases "pos < 8 * length bytes")
    case True
    then have "read_loop (Suc n) bytes pos (num_of_bits acc) =
        read_loop n bytes (pos + 1) (num_of_bits (acc @ [bit (bytes ! (pos div 8)) (7 - pos mod 8)]))"
      by (simp only: read_loop.simps next_bit if_True option.case Let_def one_bit_field num_of_bits_snoc)
    with True show ?thesis by (simp add: Suc.IH drop_bits_of)
  qed (simp add: next_bit)
qed simp

lemma pack_snoc_in_zeros:
  "(pack acc @ replicate ((length acc + Suc n + 7) div 8 - (length acc + 7) div 8) 0)
      [length acc div 8 := (pack acc @ replicate ((length acc + Suc n + 7) div 8 - (length acc + 7) div 8) 0)
         ! (length acc div 8) OR push_bit (7 - length acc mod 8) (of_bool b)] =
    pack (acc @ [b]) @ replicate ((length (acc @ [b]) + n + 7) div 8 - (length (acc @ [b]) + 7) div 8) 0"
proof (cases "8 dvd length acc")
  case True
  then have "(length acc + 7) div 8 = length acc div 8"
    and "(length acc + Suc n + 7) div 8 - length acc div 8 =
      Suc ((length (acc @ [b]) + n + 7) div 8 - (length (acc @ [b]) + 7) div 8)"
    by (auto elim!: dvdE)
  with True show ?thesis
    by (simp add: pack_snoc Let_def list_update_append nth_append del: length_append)
next
  case False
  then have "(length acc + 7) div 8 = Suc (length acc div 8)" by (rule ceil8)
  with False show ?thesis
    by (simp add: pack_snoc Let_def list_update_append nth_append)
qed

lemma read_bits_loop_eq:
  "i = length acc \<Longrightarrow> length out = (length acc + n + 7) div 8 \<Longrightarrow>
   out = pack acc @ replicate ((length acc + n + 7) div 8 - (length acc + 7) div 8) 0 \<Longrightarrow>
   read_bits_loop i n bytes pos out =
     (if n = 0 \<or> pos + n \<le> 8 * length bytes
      then Some (pack (acc @ take n (drop pos (bits_of bytes))), pos + n) else None)"
proof (induction n arbitrary: i pos acc out)
  case (Suc n)
  show ?case
  proof (cases "pos < 8 * length bytes")
    case True
    let ?b = "bit (bytes ! (pos div 8)) (7 - pos mod 8)"
    let ?out = "out[i div 8 := out ! (i div 8) OR push_bit (7 - i mod 8) (of_bool ?b)]"
    have "?out = pack (acc @ [?b]) @
        replicate ((length (acc @ [?b]) + n + 7) div 8 - (length (acc @ [?b]) + 7) div 8) 0"
      unfolding Suc.prems(3) Suc.prems(1) by (rule pack_snoc_in_zeros)
    then show ?thesis
      using Suc.IH [of "Suc i" "acc @ [?b]" ?out "pos + 1"] True Suc.prems
      by (simp add: next_bit one_bit_field drop_bits_of Let_def)
  qed (simp add: next_bit)
qed simp

lemma write_bit_holds:
  "writer_holds w xs \<Longrightarrow> writer_holds (write_bit w (of_bool b)) (xs @ [b])"
  by (simp add: writer_holds_def write_bit_def pack_snoc Let_def dvd_eq_mod_eq_0)

lemma write_holds: "writer_holds w xs \<Longrightarrow> writer_holds (write_field w v n) (xs @ field_bits v n)"
proof (induction n arbitrary: w xs)
  case (Suc n)
  from Suc.IH [OF write_bit_holds [OF Suc.prems, of "bit v n"]] show ?case
    by (simp add: one_bit_field field_bits_def)
qed (simp add: field_bits_def)

lemma write_bits_loop_holds:
  "writer_holds w xs \<Longrightarrow> i + n \<le> 8 * length src \<Longrightarrow>
    \<exists>w'. write_bits_loop i n w src = Some w' \<and> writer_holds w' (xs @ take n (drop i (bits_of src)))"
proof (induction n arbitrary: i w xs)
  case (Suc n)
  let ?b = "bit (src ! (i div 8)) (7 - i mod 8)"
  have "writer_holds (write_field w (of_bool ?b) 1) (xs @ [?b])"
    using write_bit_holds [OF Suc.prems(1), of ?b] by (cases ?b) simp_all
  from Suc.IH [OF this, of "i + 1"] Suc.prems(2) show ?case
    by (simp add: next_bit one_bit_field drop_bits_of)
qed simp

lemma read_eq:
  "read r n = (if n \<le> length (reader_remaining r)
     then Some (num_of_bits (take n (reader_remaining r)), r\<lparr>rd_pos := rd_pos r + n\<rparr>) else None)"
proof -
  have "read_loop n (rd_bytes r) (rd_pos r) 0 = read_loop n (rd_bytes r) (rd_pos r) (num_of_bits [])"
    by (simp add: num_of_bits_def)
  then show ?thesis by (auto simp: read_def read_loop_eq reader_remaining_def)
qed

lemma read_bits_to_bytes_eq:
  "read_bits_to_bytes r n = (if n \<le> length (reader_remaining r)
     then Some (pack (take n (reader_remaining r)), r\<lparr>rd_pos := rd_pos r + n\<rparr>) else None)"
proof -
  have "read_bits_loop 0 n (rd_bytes r) (rd_pos r) (replicate ((n + 7) div 8) 0) =
      (if n = 0 \<or> rd_pos r + n \<le> 8 * length (rd_bytes r)
       then Some (pack ([] @ take n (drop (rd_pos r) (bits_of (rd_bytes r)))), rd_pos r + n) else None)"
    by (rule read_bits_loop_eq) simp_all
  then show ?thesis by (auto simp add: read_bits_to_bytes_def reader_remaining_def)
qed

lemma reader_remaining_skip: "reader_remaining (r\<lparr>rd_pos := rd_pos r + n\<rparr>) = drop n (reader_remaining r)"
  by (simp add: reader_remaining_def add.commute)

interpretation amr_reader: bit_source read read_bits_to_bytes reader_remaining
  by unfold_locales (simp_all add: read_eq read_bits_to_bytes_eq reader_remaining_skip)

interpretation amr_writer: bit_sink write_field write_bits_from_bytes wr_bytes writer_holds
proof unfold_locales
  fix w xs v n and src :: bytes
  assume w: "writer_holds w xs"
  then show "writer_holds (write_field w v n) (xs @ field_bits v n)" by (rule write_holds)
  from w show "wr_bytes w = pack xs" by (simp add: writer_holds_def)
  assume "n \<le> 8 * length src"
  with write_bits_loop_holds [OF w, of 0 n src]
  show "\<exists>w'. write_bits_from_bytes w src n = Some w' \<and> writer_holds w' (xs @ take n (bits_of src))"
    by (simp add: write_bits_from_bytes_def)
qed

lemma reader_new_remaining [simp]: "reader_remaining (bit_reader_new bs) = bits_of bs"
  by (simp add: reader_remaining_def bit_reader_new_def)

lemma writer_default_holds [simp]: "writer_holds bit_writer_default []"
  by (simp add: writer_holds_def bit_writer_default_def)

section \<open>Framing\<close>

datatype amr_kind = Nb | Wb

definition speech_bits :: "amr_kind \<Rightarrow> u8 \<Rightarrow> nat option" where
  "speech_bits kind frame_type =
     (let table = (case kind of
            Nb \<Rightarrow> [95, 103, 118, 134, 148, 159, 204, 244]
          | Wb \<Rightarrow> [132, 177, 253, 285, 317, 365, 397, 461, 477])
      in get_at table (unat frame_type))"

definition CMR_NO_REQUEST :: u8 where
  "CMR_NO_REQUEST = 0x0f"

definition payload_to_frame :: "bytes \<Rightarrow> amr_kind \<Rightarrow> bool \<Rightarrow> bytes option" where
  "payload_to_frame payload kind octet_aligned =
     (if octet_aligned then
        (if length payload < 2 then None
         else let toc = payload ! 1; frame_type = drop_bit 3 toc AND 0x0f
              in do {
                _ \<leftarrow> speech_bits kind frame_type;
                Some (drop 1 payload) })
      else do {
        (cmr, r) \<leftarrow> read (bit_reader_new payload) 4;
        (f, r) \<leftarrow> read r 1;
        (frame_type, r) \<leftarrow> read r 4;
        (quality, r) \<leftarrow> read r 1;
        bits \<leftarrow> speech_bits kind frame_type;
        (speech, r) \<leftarrow> read_bits_to_bytes r bits;
        Some ((push_bit 3 frame_type OR push_bit 2 quality) # speech) })"

text \<open>The outer option of \<open>frame_to_payload\<close> is the panic of an index out of range.\<close>

definition frame_to_payload :: "bytes \<Rightarrow> amr_kind \<Rightarrow> bool \<Rightarrow> bytes option option" where
  "frame_to_payload frame kind octet_aligned =
     (if frame = [] then Some None
      else let frame_type = drop_bit 3 (frame ! 0) AND 0x0f; quality = drop_bit 2 (frame ! 0) AND 1
      in case speech_bits kind frame_type of
           None \<Rightarrow> Some None
         | Some bits \<Rightarrow>
             if octet_aligned then Some (Some (push_bit 4 CMR_NO_REQUEST # frame))
             else (case get_range frame 1 (length frame) of
                None \<Rightarrow> Some None
              | Some speech \<Rightarrow>
                  if length speech < (bits + 7) div 8 then Some None
                  else let w = write_field bit_writer_default CMR_NO_REQUEST 4;
                           w = write_field w 0 1;
                           w = write_field w frame_type 4;
                           w = write_field w quality 1
                       in do {
                         w \<leftarrow> write_bits_from_bytes w speech bits;
                         Some (Some (wr_bytes w)) }))"

text \<open>
  The codec libraries' frame layout (a header byte, then the packed speech bits) and the bits of
  a bandwidth-efficient payload, as RFC 4867 draws them.
\<close>

definition toc_byte :: "u8 \<Rightarrow> u8 \<Rightarrow> u8" where
  "toc_byte ft q = push_bit 3 ft OR push_bit 2 q"

definition mime_frame :: "u8 \<Rightarrow> u8 \<Rightarrow> bool list \<Rightarrow> bytes" where
  "mime_frame ft q speech = toc_byte ft q # pack speech"

definition be_bits :: "u8 \<Rightarrow> u8 \<Rightarrow> u8 \<Rightarrow> u8 \<Rightarrow> bool list \<Rightarrow> bool list" where
  "be_bits cmr f ft q speech =
     field_bits cmr 4 @ field_bits f 1 @ field_bits ft 4 @ field_bits q 1 @ speech"

definition amr_payload :: "bool \<Rightarrow> u8 \<Rightarrow> u8 \<Rightarrow> bool list \<Rightarrow> bytes" where
  "amr_payload octet_aligned ft q speech =
     (if octet_aligned then 0xF0 # mime_frame ft q speech else pack (be_bits 15 0 ft q speech))"

lemma toc_byte_fields:
  assumes "ft < 16" "q < 2"
  shows "drop_bit 3 (toc_byte ft q) AND 15 = ft" and "drop_bit 2 (toc_byte ft q) AND 1 = q"
proof -
  show "drop_bit 3 (toc_byte ft q) AND 15 = ft"
    using assms unfolding u8_mask_15 toc_byte_def
    by (intro bit_word_eqI) (auto simp: bit_simps not_bit_u8_less_16 not_bit_u8_less_2 dest: bit_index_u8)
  have "bit (toc_byte ft q) 2 = bit q 0"
    by (simp add: toc_byte_def bit_simps)
  moreover have "of_bool (bit q 0) = q"
    using one_bit_field [of 0 q] u8_mod_2 [OF assms(2)] by (metis and_one_eq drop_bit_0 id_apply)
  ultimately show "drop_bit 2 (toc_byte ft q) AND 1 = q" by (simp only: one_bit_field)
qed

lemma speech_bits_less_16: "speech_bits kind ft = Some n \<Longrightarrow> ft < 16"
  by (auto simp: speech_bits_def get_at_Some_iff word_less_nat_alt split: amr_kind.splits)

lemma payload_to_frame_be:
  assumes "bits_of p = be_bits cmr f ft q speech @ pad" "ft < 16" "q < 2"
    "speech_bits kind ft = Some (length speech)"
  shows "payload_to_frame p kind False = Some (mime_frame ft q speech)"
proof -
  have "reader_remaining (bit_reader_new p) =
      field_bits cmr 4 @ field_bits f 1 @ field_bits ft 4 @ field_bits q 1 @ speech @ pad"
    using assms(1) by (simp add: be_bits_def)
  from amr_reader.rd_field [OF this] obtain r1 where r1:
    "read (bit_reader_new p) 4 = Some (take_bit 4 cmr, r1)"
    "reader_remaining r1 = field_bits f 1 @ field_bits ft 4 @ field_bits q 1 @ speech @ pad" by auto
  from amr_reader.rd_field [OF r1(2)] obtain r2 where r2: "read r1 1 = Some (take_bit 1 f, r2)"
    "reader_remaining r2 = field_bits ft 4 @ field_bits q 1 @ speech @ pad" by auto
  from amr_reader.rd_field [OF r2(2)] obtain r3 where r3: "read r2 4 = Some (take_bit 4 ft, r3)"
    "reader_remaining r3 = field_bits q 1 @ speech @ pad" by auto
  from amr_reader.rd_field [OF r3(2)] obtain r4 where r4: "read r3 1 = Some (take_bit 1 q, r4)"
    "reader_remaining r4 = speech @ pad" by auto
  from amr_reader.rd_many_bits [OF r4(2)] obtain r5 where
    r5: "read_bits_to_bytes r4 (length speech) = Some (pack speech, r5)" by auto
  show ?thesis
    using assms(2-4) r1(1) r2(1) r3(1) r4(1) r5
    by (simp add: payload_to_frame_def u8_take_bit_4 u8_mod_2 mime_frame_def toc_byte_def)
qed

lemma payload_to_frame_beD:
  assumes "payload_to_frame p kind False = Some frame"
  shows "\<exists>cmr f ft q speech pad. bits_of p = be_bits cmr f ft q speech @ pad \<and> ft < 16 \<and> q < 2 \<and>
    speech_bits kind ft = Some (length speech) \<and> frame = mime_frame ft q speech"
proof -
  from assms obtain cmr r1 f r2 ft r3 q r4 bits sp r5 where
    r: "read (bit_reader_new p) 4 = Some (cmr, r1)" "read r1 1 = Some (f, r2)"
      "read r2 4 = Some (ft, r3)" "read r3 1 = Some (q, r4)"
    and b: "speech_bits kind ft = Some bits" "read_bits_to_bytes r4 bits = Some (sp, r5)"
    and frame: "frame = (push_bit 3 ft OR push_bit 2 q) # sp"
    by (auto simp: payload_to_frame_def bind_eq_Some_conv)
  from amr_reader.rd_many_SomeD [OF b(2)] obtain speech where
    sp: "reader_remaining r4 = speech @ reader_remaining r5" "length speech = bits" "sp = pack speech" by auto
  have "bits_of p = be_bits cmr f ft q speech @ reader_remaining r5"
    using amr_reader.rd_SomeD [OF r(1)] amr_reader.rd_SomeD [OF r(2)]
      amr_reader.rd_SomeD [OF r(3)] amr_reader.rd_SomeD [OF r(4)] sp(1)
    by (simp add: be_bits_def)
  moreover have "q < 2" using amr_reader.rd_SomeD [OF r(4)] u8_take_bit_iff [of 1 q] by simp
  ultimately show ?thesis using b(1) sp(2,3) frame speech_bits_less_16 [OF b(1)]
    unfolding mime_frame_def toc_byte_def by blast
qed

lemma frame_to_payload_mime:
  assumes "speech_bits kind ft = Some (length speech)" "q < 2"
  shows "frame_to_payload (mime_frame ft q speech) kind oa = Some (Some (amr_payload oa ft q speech))"
proof -
  note ft = speech_bits_less_16 [OF assms(1)]
  define w where "w = write_field (write_field (write_field (write_field bit_writer_default
    CMR_NO_REQUEST 4) 0 1) ft 4) q 1"
  have "writer_holds w (be_bits 15 0 ft q [])"
    unfolding w_def be_bits_def CMR_NO_REQUEST_def append_assoc [symmetric]
    using amr_writer.wr_ok writer_default_holds by (metis append.right_neutral append_Nil)
  from amr_writer.wr_many_pack [OF this refl] obtain w' where
    w': "write_bits_from_bytes w (pack speech) (length speech) = Some w'"
      "writer_holds w' (be_bits 15 0 ft q speech)" by (auto simp: be_bits_def)
  then have "wr_bytes w' = pack (be_bits 15 0 ft q speech)" by (simp add: amr_writer.out_bytes_ok)
  with w'(1) assms ft show ?thesis
    by (simp add: frame_to_payload_def mime_frame_def toc_byte_fields amr_payload_def Let_def
        get_range_def w_def CMR_NO_REQUEST_def)
qed

lemma payload_to_frame_payload:
  assumes "speech_bits kind ft = Some (length speech)" "q < 2"
  shows "payload_to_frame (amr_payload oa ft q speech) kind oa = Some (mime_frame ft q speech)"
proof (cases oa)
  case True
  with assms speech_bits_less_16 [OF assms(1)] show ?thesis
    by (simp add: payload_to_frame_def amr_payload_def mime_frame_def toc_byte_fields)
next
  case False
  with payload_to_frame_be [OF bits_of_pack _ assms(2)] assms(1) speech_bits_less_16 [OF assms(1)]
  show ?thesis by (simp add: amr_payload_def)
qed

lemma frame_to_payload_no_panic: "\<exists>result. frame_to_payload frame kind oa = Some result"
proof (cases frame)
  case (Cons h speech)
  show ?thesis
  proof (cases "speech_bits kind (drop_bit 3 h AND 15)")
    case (Some bits)
    show ?thesis
    proof (cases "oa \<or> length speech < (bits + 7) div 8")
      case False
      let ?w = "write_field (write_field (write_field (write_field bit_writer_default
        CMR_NO_REQUEST 4) 0 1) (drop_bit 3 h AND 15) 4) (drop_bit 2 h AND 1) 1"
      from False have "bits \<le> 8 * length speech" by auto
      moreover have "\<exists>xs. writer_holds ?w xs"
        by (meson amr_writer.wr_ok writer_default_holds)
      ultimately obtain w' where "write_bits_from_bytes ?w speech bits = Some w'"
        using amr_writer.wr_many_ok by blast
      with False Some Cons show ?thesis
        by (simp add: frame_to_payload_def Let_def get_range_def)
    qed (use Some Cons in \<open>auto simp: frame_to_payload_def Let_def get_range_def\<close>)
  qed (simp add: Cons frame_to_payload_def Let_def)
qed (simp add: frame_to_payload_def)

section \<open>Properties\<close>

text \<open>A speech frame of the codec (any speech frame type, the right number of bits)
  framed as an RTP payload is exactly the RFC 4867 payload, in either packing and with no mode
  request, and unframing that payload gives the frame back.\<close>

theorem amr_framing_roundtrip:
  assumes "speech_bits kind ft = Some (length speech)" "q < 2"
  shows "frame_to_payload (mime_frame ft q speech) kind oa = Some (Some (amr_payload oa ft q speech)) \<and>
    payload_to_frame (amr_payload oa ft q speech) kind oa = Some (mime_frame ft q speech)"
  using frame_to_payload_mime [OF assms] payload_to_frame_payload [OF assms] by simp

theorem amr_framing_roundtrip_witness:
  "frame_to_payload (mime_frame 0 1 (replicate 95 True)) Nb False =
     Some (Some (amr_payload False 0 1 (replicate 95 True))) \<and>
   payload_to_frame (amr_payload False 0 1 (replicate 95 True)) Nb False =
     Some (mime_frame 0 1 (replicate 95 True))"
  by (rule amr_framing_roundtrip) (simp_all add: speech_bits_def)

text \<open>The bandwidth-efficient parser accepts exactly the payloads whose bits are a mode
  request, one table-of-contents entry of a speech frame type and that type's number of speech
  bits, whatever follows; the frame it returns holds those bits, left-aligned and zero-padded.\<close>

theorem payload_to_frame_be_iff:
  "payload_to_frame p kind False = Some frame \<longleftrightarrow>
     (\<exists>cmr f ft q speech pad. bits_of p = be_bits cmr f ft q speech @ pad \<and> ft < 16 \<and> q < 2 \<and>
        speech_bits kind ft = Some (length speech) \<and> frame = mime_frame ft q speech)"
  by (metis payload_to_frame_be payload_to_frame_beD)

text \<open>Framing never indexes out of range: for every byte string and packing
  \<open>frame_to_payload\<close> returns, with a payload or with \<open>None\<close>.\<close>

theorem frame_to_payload_total: "frame_to_payload frame kind oa \<noteq> None"
  using frame_to_payload_no_panic [of frame kind oa] by auto

text \<open>The octet-aligned parser does not look at the length of the speech data: a payload cut
  off after its table-of-contents byte is accepted as a frame without speech bytes, although a
  truncated packet is documented to give \<open>None\<close>.\<close>

theorem octet_aligned_truncation_accepted:
  "payload_to_frame [cmr, toc] kind True =
     (if speech_bits kind (drop_bit 3 toc AND 0x0f) = None then None else Some [toc])"
  by (auto simp: payload_to_frame_def split: option.split)

end
