(* ===== verification/Amr_Repack.thy ===== *)
theory Amr_Repack
  imports Amr_Rtp
begin

text \<open>
  \<^verbatim>\<open>amr_forward/repack.rs\<close>: conversion of AMR payloads between the octet-aligned and the
  bandwidth-efficient packing without decoding, for any number of frames per packet. A packet is
  described abstractly by its mode request and a list of frames with their payload bits; the
  parsers and builders of both packings are shown to agree with that description, so that a
  repacked payload parses to the packet it came from.
\<close>

section \<open>Definitions\<close>

definition frame_bits :: "amr_kind \<Rightarrow> u8 \<Rightarrow> nat option" where
  "frame_bits kind frame_type =
     (case speech_bits kind frame_type of
        Some bits \<Rightarrow> Some bits
      | None \<Rightarrow>
          if kind = Nb \<and> frame_type = 8 then Some 39
          else if kind = Wb \<and> frame_type = 9 then Some 40
          else if kind = Wb \<and> frame_type = 14 \<or> frame_type = 15 then Some 0
          else None)"

record frame =
  fr_type :: u8
  fr_quality :: u8
  fr_bits :: bytes

record packet =
  pk_cmr :: u8
  pk_frames :: "frame list"

definition canonical_bytes :: "bytes \<Rightarrow> nat \<Rightarrow> bytes" where
  "canonical_bytes bytes n =
     (if n mod 8 \<noteq> 0 \<and> bytes \<noteq> [] then butlast bytes @ [last bytes AND push_bit (8 - n mod 8) 0xff]
      else bytes)"

function oa_toc :: "bytes \<Rightarrow> nat \<Rightarrow> ((u8 \<times> u8) list \<times> nat) option" where
  "oa_toc payload pos =
     (case get_at payload pos of
        None \<Rightarrow> None
      | Some entry \<Rightarrow>
          let e = (drop_bit 3 entry AND 0x0f, drop_bit 2 entry AND 1)
          in if entry AND 0x80 = 0 then Some ([e], pos + 1)
             else (case oa_toc payload (pos + 1) of
                 None \<Rightarrow> None | Some (toc, pos') \<Rightarrow> Some (e # toc, pos')))"
  by auto
termination
  by (relation "measure (\<lambda>(payload, pos). length payload - pos)") (auto simp: get_at_Some_iff)

fun oa_frames :: "bytes \<Rightarrow> amr_kind \<Rightarrow> nat \<Rightarrow> (u8 \<times> u8) list \<Rightarrow> (frame list \<times> nat) option" where
  "oa_frames payload kind pos [] = Some ([], pos)"
| "oa_frames payload kind pos ((frame_type, quality) # toc) = do {
     bits \<leftarrow> frame_bits kind frame_type;
     let len = (bits + 7) div 8;
     data \<leftarrow> get_range payload pos (pos + len);
     (frames, pos') \<leftarrow> oa_frames payload kind (pos + len) toc;
     Some (\<lparr>fr_type = frame_type, fr_quality = quality, fr_bits = canonical_bytes data bits\<rparr> # frames, pos') }"

lemma read_remaining_less:
  assumes "read r n = Some (v, r')" "0 < n"
  shows "length (reader_remaining r') < length (reader_remaining r)"
  using assms by (auto simp: read_eq reader_remaining_skip split: if_splits)

function be_toc :: "bit_reader \<Rightarrow> ((u8 \<times> u8) list \<times> bit_reader) option" where
  "be_toc r =
     (case read r 1 of None \<Rightarrow> None | Some (follow, r1) \<Rightarrow>
      case read r1 4 of None \<Rightarrow> None | Some (frame_type, r2) \<Rightarrow>
      case read r2 1 of None \<Rightarrow> None | Some (quality, r3) \<Rightarrow>
        if follow = 0 then Some ([(frame_type, quality)], r3)
        else (case be_toc r3 of
            None \<Rightarrow> None | Some (toc, r4) \<Rightarrow> Some ((frame_type, quality) # toc, r4)))"
  by auto
termination
  by (relation "measure (\<lambda>r. length (reader_remaining r))")
     (auto dest!: read_remaining_less)

fun be_frames :: "bit_reader \<Rightarrow> amr_kind \<Rightarrow> (u8 \<times> u8) list \<Rightarrow> (frame list \<times> bit_reader) option" where
  "be_frames r kind [] = Some ([], r)"
| "be_frames r kind ((frame_type, quality) # toc) = do {
     bits \<leftarrow> frame_bits kind frame_type;
     (data, r') \<leftarrow> read_bits_to_bytes r bits;
     (frames, r'') \<leftarrow> be_frames r' kind toc;
     Some (\<lparr>fr_type = frame_type, fr_quality = quality, fr_bits = data\<rparr> # frames, r'') }"

definition parse :: "bytes \<Rightarrow> amr_kind \<Rightarrow> bool \<Rightarrow> packet option" where
  "parse payload kind octet_aligned =
     (if octet_aligned then do {
        first \<leftarrow> get_at payload 0;
        let cmr = drop_bit 4 first;
        (toc, pos) \<leftarrow> oa_toc payload 1;
        (frames, pos) \<leftarrow> oa_frames payload kind pos toc;
        if pos = length payload then Some \<lparr>pk_cmr = cmr, pk_frames = frames\<rparr> else None }
      else do {
        (cmr, r) \<leftarrow> read (bit_reader_new payload) 4;
        (toc, r) \<leftarrow> be_toc r;
        (frames, r) \<leftarrow> be_frames r kind toc;
        Some \<lparr>pk_cmr = cmr, pk_frames = frames\<rparr> })"

text \<open>The two loops of \<open>build\<close> in each packing. \<open>i\<close> counts the frames already visited.\<close>

fun build_oa_toc :: "nat \<Rightarrow> nat \<Rightarrow> frame list \<Rightarrow> bytes" where
  "build_oa_toc last_idx i [] = []"
| "build_oa_toc last_idx i (f # fs) =
     (let follow = push_bit 7 (of_bool (i \<noteq> last_idx))
      in (follow OR push_bit 3 (fr_type f) OR push_bit 2 (fr_quality f)) # build_oa_toc last_idx (i + 1) fs)"

fun build_oa_data :: "amr_kind \<Rightarrow> frame list \<Rightarrow> bytes option" where
  "build_oa_data kind [] = Some []"
| "build_oa_data kind (f # fs) = do {
     bits \<leftarrow> frame_bits kind (fr_type f);
     data \<leftarrow> get_range (fr_bits f) 0 ((bits + 7) div 8);
     rest \<leftarrow> build_oa_data kind fs;
     Some (data @ rest) }"

fun build_be_toc :: "nat \<Rightarrow> nat \<Rightarrow> frame list \<Rightarrow> bit_writer \<Rightarrow> bit_writer" where
  "build_be_toc last_idx i [] w = w"
| "build_be_toc last_idx i (f # fs) w =
     build_be_toc last_idx (i + 1) fs
       (write_field (write_field (write_field w (of_bool (i \<noteq> last_idx)) 1) (fr_type f) 4) (fr_quality f) 1)"

fun build_be_data :: "amr_kind \<Rightarrow> frame list \<Rightarrow> bit_writer \<Rightarrow> bit_writer option option" where
  "build_be_data kind [] w = Some (Some w)"
| "build_be_data kind (f # fs) w =
     (case frame_bits kind (fr_type f) of
        None \<Rightarrow> Some None
      | Some bits \<Rightarrow>
          if length (fr_bits f) < (bits + 7) div 8 then Some None
          else do {
            w \<leftarrow> write_bits_from_bytes w (fr_bits f) bits;
            build_be_data kind fs w })"

definition build :: "packet \<Rightarrow> amr_kind \<Rightarrow> bool \<Rightarrow> bytes option option" where
  "build packet kind octet_aligned =
     (if pk_frames packet = [] then Some None
      else let last_idx = length (pk_frames packet) - 1 in
        if octet_aligned then
          Some (do {
            data \<leftarrow> build_oa_data kind (pk_frames packet);
            Some ([push_bit 4 (pk_cmr packet)] @ build_oa_toc last_idx 0 (pk_frames packet) @ data) })
        else
          let w = write_field bit_writer_default (pk_cmr packet) 4;
              w = build_be_toc last_idx 0 (pk_frames packet) w
          in map_option (map_option wr_bytes) (build_be_data kind (pk_frames packet) w))"

definition cmr_of :: "bytes \<Rightarrow> u8 option" where
  "cmr_of payload = map_option (drop_bit 4) (get_at payload 0)"

definition speech_max :: "amr_kind \<Rightarrow> u8" where
  "speech_max kind = (case kind of Nb \<Rightarrow> 7 | Wb \<Rightarrow> 8)"

text \<open>One table-of-contents entry as \<open>speech_modes\<close> reads it: the follow flag and the type.\<close>

definition toc_entry_at :: "bytes \<Rightarrow> bool \<Rightarrow> nat \<Rightarrow> (bool \<times> u8) option" where
  "toc_entry_at payload octet_aligned k =
     (if octet_aligned then do {
        entry \<leftarrow> get_at payload (1 + k);
        Some (entry AND 0x80 \<noteq> 0, drop_bit 3 entry AND 0x0f) }
      else let b = 4 + 6 * k in
        if b + 6 > length payload * 8 then None
        else let hi = ucast (payload ! (b div 8)) :: u16;
                 lo = (case get_at payload (b div 8 + 1) of Some x \<Rightarrow> ucast x | None \<Rightarrow> 0) :: u16;
                 six = drop_bit (10 - b mod 8) (push_bit 8 hi OR lo) AND 0x3f
             in Some (six AND 0x20 \<noteq> 0, ucast (drop_bit 1 six AND 0x0f)))"

function speech_modes_from :: "bytes \<Rightarrow> amr_kind \<Rightarrow> bool \<Rightarrow> nat \<Rightarrow> u8 list \<Rightarrow> u8 list option" where
  "speech_modes_from payload kind octet_aligned k modes =
     (case toc_entry_at payload octet_aligned k of
        None \<Rightarrow> None
      | Some (follow, frame_type) \<Rightarrow>
          let modes = (if frame_type \<le> speech_max kind then modes @ [frame_type] else modes)
          in if follow then speech_modes_from payload kind octet_aligned (k + 1) modes else Some modes)"
  by auto
termination
  by (relation "measure (\<lambda>(payload, kind, oa, k, modes). 2 * length payload - k)")
     (auto simp: toc_entry_at_def get_at_def Let_def split: if_splits)

definition speech_modes :: "bytes \<Rightarrow> amr_kind \<Rightarrow> bool \<Rightarrow> u8 list option" where
  "speech_modes payload kind octet_aligned = speech_modes_from payload kind octet_aligned 0 []"

definition set_cmr :: "bytes \<Rightarrow> u8 \<Rightarrow> bytes" where
  "set_cmr payload cmr =
     (case payload of
        [] \<Rightarrow> []
      | first # rest \<Rightarrow> (push_bit 4 cmr OR (first AND 0x0f)) # rest)"

definition repack :: "bytes \<Rightarrow> amr_kind \<Rightarrow> bool \<Rightarrow> bool \<Rightarrow> bytes option option" where
  "repack payload kind from_octet_aligned to_octet_aligned =
     (if from_octet_aligned = to_octet_aligned then Some (Some payload)
      else case parse payload kind from_octet_aligned of
          None \<Rightarrow> Some None
        | Some packet \<Rightarrow> build packet kind to_octet_aligned)"

declare oa_toc.simps [simp del] be_toc.simps [simp del] speech_modes_from.simps [simp del]

section \<open>Packets as bit lists\<close>

type_synonym toc = "(u8 \<times> u8) list"
type_synonym aframe = "u8 \<times> u8 \<times> bool list"

abbreviation toc_of :: "aframe list \<Rightarrow> toc" where
  "toc_of fs \<equiv> map (\<lambda>(ft, q, bs). (ft, q)) fs"

definition conc_frame :: "aframe \<Rightarrow> frame" where
  "conc_frame = (\<lambda>(ft, q, bs). \<lparr>fr_type = ft, fr_quality = q, fr_bits = pack bs\<rparr>)"

definition conc_packet :: "u8 \<Rightarrow> aframe list \<Rightarrow> packet" where
  "conc_packet cmr fs = \<lparr>pk_cmr = cmr, pk_frames = map conc_frame fs\<rparr>"

definition wf_toc :: "toc \<Rightarrow> bool" where
  "wf_toc t \<longleftrightarrow> list_all (\<lambda>(ft, q). ft < 16 \<and> q < 2) t"

definition wf_speech :: "amr_kind \<Rightarrow> aframe list \<Rightarrow> bool" where
  "wf_speech kind fs \<longleftrightarrow> list_all (\<lambda>(ft, q, bs). frame_bits kind ft = Some (length bs)) fs"

definition wf_packet :: "amr_kind \<Rightarrow> u8 \<Rightarrow> aframe list \<Rightarrow> bool" where
  "wf_packet kind cmr fs \<longleftrightarrow> cmr < 16 \<and> fs \<noteq> [] \<and> wf_toc (toc_of fs) \<and> wf_speech kind fs"

fun toc_bits :: "toc \<Rightarrow> bool list" where
  "toc_bits [] = []"
| "toc_bits ((ft, q) # t) =
     field_bits (of_bool (t \<noteq> [])) 1 @ field_bits ft 4 @ field_bits q 1 @ toc_bits t"

fun toc_bytes :: "toc \<Rightarrow> bytes" where
  "toc_bytes [] = []"
| "toc_bytes ((ft, q) # t) = (push_bit 7 (of_bool (t \<noteq> [])) OR push_bit 3 ft OR push_bit 2 q) # toc_bytes t"

abbreviation speech_all :: "aframe list \<Rightarrow> bool list" where
  "speech_all fs \<equiv> concat (map (\<lambda>(ft, q, bs). bs) fs)"

abbreviation speech_bytes :: "aframe list \<Rightarrow> bytes" where
  "speech_bytes fs \<equiv> concat (map (\<lambda>(ft, q, bs). pack bs) fs)"

text \<open>The payload of a packet in either packing, as RFC 4867 draws it.\<close>

definition wire :: "bool \<Rightarrow> u8 \<Rightarrow> aframe list \<Rightarrow> bytes" where
  "wire octet_aligned cmr fs =
     (if octet_aligned then push_bit 4 cmr # toc_bytes (toc_of fs) @ speech_bytes fs
      else pack (field_bits cmr 4 @ toc_bits (toc_of fs) @ speech_all fs))"

lemma wf_toc_simps [simp]:
  "wf_toc []" "wf_toc ((ft, q) # t) \<longleftrightarrow> ft < 16 \<and> q < 2 \<and> wf_toc t"
  by (auto simp: wf_toc_def)

lemma wf_speech_simps [simp]:
  "wf_speech kind []"
  "wf_speech kind ((ft, q, bs) # fs) \<longleftrightarrow> frame_bits kind ft = Some (length bs) \<and> wf_speech kind fs"
  by (auto simp: wf_speech_def)

lemma length_toc_bytes [simp]: "length (toc_bytes t) = length t"
  by (induction t rule: toc_bytes.induct) simp_all

subsection \<open>Bandwidth-efficient\<close>

lemma be_toc_bits:
  "t \<noteq> [] \<Longrightarrow> wf_toc t \<Longrightarrow> reader_remaining r = toc_bits t @ rest \<Longrightarrow>
    \<exists>r'. be_toc r = Some (t, r') \<and> reader_remaining r' = rest"
proof (induction t arbitrary: r)
  case (Cons e t)
  obtain ft q where e: "e = (ft, q)" by fastforce
  let ?f = "of_bool (t \<noteq> []) :: u8"
  have "reader_remaining r = field_bits ?f 1 @ field_bits ft 4 @ field_bits q 1 @ toc_bits t @ rest"
    using Cons.prems e by simp
  from amr_reader.rd_field [OF this] obtain r1 where r1: "read r 1 = Some (take_bit 1 ?f, r1)"
    "reader_remaining r1 = field_bits ft 4 @ field_bits q 1 @ toc_bits t @ rest" by auto
  from amr_reader.rd_field [OF r1(2)] obtain r2 where r2: "read r1 4 = Some (take_bit 4 ft, r2)"
    "reader_remaining r2 = field_bits q 1 @ toc_bits t @ rest" by auto
  from amr_reader.rd_field [OF r2(2)] obtain r3 where r3: "read r2 1 = Some (take_bit 1 q, r3)"
    "reader_remaining r3 = toc_bits t @ rest" by auto
  have fields: "take_bit 1 ?f = ?f" "take_bit 4 ft = ft" "take_bit 1 q = q"
    using Cons.prems(2) e by (simp_all add: u8_take_bit_4 u8_mod_2)
  show ?case
  proof (cases "t = []")
    case True
    with r1(1) r2(1) r3 fields e show ?thesis by (subst be_toc.simps) simp
  next
    case False
    with Cons.IH [OF False _ r3(2)] Cons.prems(2) e obtain r4 where
      "be_toc r3 = Some (t, r4)" "reader_remaining r4 = rest" by auto
    with r1(1) r2(1) r3(1) fields e False show ?thesis by (subst be_toc.simps) simp
  qed
qed simp

lemma be_frames_bits:
  "wf_speech kind fs \<Longrightarrow> reader_remaining r = speech_all fs @ rest \<Longrightarrow>
    \<exists>r'. be_frames r kind (toc_of fs) = Some (map conc_frame fs, r') \<and> reader_remaining r' = rest"
proof (induction fs arbitrary: r)
  case (Cons f fs)
  obtain ft q bs where f: "f = (ft, q, bs)" by (metis prod_cases3)
  from Cons.prems f have "reader_remaining r = bs @ speech_all fs @ rest" by simp
  from amr_reader.rd_many_bits [OF this] obtain r1 where r1:
    "read_bits_to_bytes r (length bs) = Some (pack bs, r1)" "reader_remaining r1 = speech_all fs @ rest"
    by auto
  with Cons.IH [OF _ r1(2)] Cons.prems f show ?case by (auto simp: conc_frame_def)
qed simp

lemma be_tocD:
  "be_toc r = Some (t, r') \<Longrightarrow> t \<noteq> [] \<and> wf_toc t \<and> reader_remaining r = toc_bits t @ reader_remaining r'"
proof (induction r arbitrary: t r' rule: be_toc.induct)
  case (1 r)
  from 1(2) obtain v r1 ft r2 q r3 where r: "read r 1 = Some (v, r1)" "read r1 4 = Some (ft, r2)"
    "read r2 1 = Some (q, r3)"
    and t: "if v = 0 then t = [(ft, q)] \<and> r' = r3
      else \<exists>t'. be_toc r3 = Some (t', r') \<and> t = (ft, q) # t'"
    by (subst (asm) be_toc.simps) (auto split: option.splits if_splits)
  note d = amr_reader.rd_SomeD [OF r(1)] amr_reader.rd_SomeD [OF r(2)] amr_reader.rd_SomeD [OF r(3)]
  have lt: "v < 2" "ft < 16" "q < 2"
    using d u8_take_bit_iff [of 1 v] u8_take_bit_iff [of 4 ft] u8_take_bit_iff [of 1 q] by simp_all
  show ?case
  proof (cases "v = 0")
    case True
    with t d lt show ?thesis by simp
  next
    case False
    with t obtain t' where t': "be_toc r3 = Some (t', r')" "t = (ft, q) # t'" by auto
    from 1(1) [OF r(1) refl r(2) refl r(3) refl False t'(1)]
    have ih: "t' \<noteq> []" "wf_toc t'" "reader_remaining r3 = toc_bits t' @ reader_remaining r'" by auto
    moreover have "v = 1" using lt(1) False by (simp add: u8_less_2)
    ultimately show ?thesis using t'(2) d lt by simp
  qed
qed

lemma be_framesD:
  "be_frames r kind t = Some (frames, r') \<Longrightarrow>
    \<exists>fs. t = toc_of fs \<and> frames = map conc_frame fs \<and> wf_speech kind fs \<and>
      reader_remaining r = speech_all fs @ reader_remaining r'"
proof (induction t arbitrary: r frames)
  case Nil
  then show ?case by simp
next
  case (Cons e t)
  obtain ft q where e: "e = (ft, q)" by fastforce
  from Cons.prems e obtain bits data r1 frames' where b: "frame_bits kind ft = Some bits"
    "read_bits_to_bytes r bits = Some (data, r1)" "be_frames r1 kind t = Some (frames', r')"
    "frames = \<lparr>fr_type = ft, fr_quality = q, fr_bits = data\<rparr> # frames'"
    by (auto simp: bind_eq_Some_conv)
  from Cons.IH [OF b(3)] obtain fs where fs: "t = toc_of fs" "frames' = map conc_frame fs"
    "wf_speech kind fs" "reader_remaining r1 = speech_all fs @ reader_remaining r'" by auto
  from amr_reader.rd_many_SomeD [OF b(2)] obtain bs where
    "reader_remaining r = bs @ reader_remaining r1" "length bs = bits" "data = pack bs" by auto
  with b fs e show ?case
    by (intro exI [of _ "(ft, q, bs) # fs"]) (simp add: conc_frame_def)
qed

lemma parse_be_bits:
  assumes "wf_packet kind cmr fs"
    "bits_of p = field_bits cmr 4 @ toc_bits (toc_of fs) @ speech_all fs @ pad"
  shows "parse p kind False = Some (conc_packet cmr fs)"
proof -
  from amr_reader.rd_field [of "bit_reader_new p", simplified, OF assms(2)] obtain r1 where
    r1: "read (bit_reader_new p) 4 = Some (take_bit 4 cmr, r1)"
      "reader_remaining r1 = toc_bits (toc_of fs) @ speech_all fs @ pad" by auto
  from be_toc_bits [OF _ _ r1(2)] assms(1) obtain r2 where
    r2: "be_toc r1 = Some (toc_of fs, r2)" "reader_remaining r2 = speech_all fs @ pad"
    by (auto simp: wf_packet_def)
  from be_frames_bits [OF _ r2(2)] assms(1) obtain r3 where
    "be_frames r2 kind (toc_of fs) = Some (map conc_frame fs, r3)" by (auto simp: wf_packet_def)
  with r1(1) r2(1) assms(1) show ?thesis
    by (simp add: parse_def conc_packet_def wf_packet_def u8_take_bit_4)
qed

lemma parse_beD:
  assumes "parse p kind False = Some pkt"
  shows "\<exists>cmr fs pad. wf_packet kind cmr fs \<and> pkt = conc_packet cmr fs \<and>
    bits_of p = field_bits cmr 4 @ toc_bits (toc_of fs) @ speech_all fs @ pad"
proof -
  from assms obtain cmr r1 t r2 frames r3 where r: "read (bit_reader_new p) 4 = Some (cmr, r1)"
    "be_toc r1 = Some (t, r2)" "be_frames r2 kind t = Some (frames, r3)"
    and pkt: "pkt = \<lparr>pk_cmr = cmr, pk_frames = frames\<rparr>"
    by (auto simp: parse_def bind_eq_Some_conv)
  from be_framesD [OF r(3)] obtain fs where fs: "t = toc_of fs" "frames = map conc_frame fs"
    "wf_speech kind fs" "reader_remaining r2 = speech_all fs @ reader_remaining r3" by auto
  have "cmr < 16" using amr_reader.rd_SomeD [OF r(1)] u8_take_bit_iff [of 4 cmr] by simp
  moreover have "bits_of p = field_bits cmr 4 @ toc_bits t @ speech_all fs @ reader_remaining r3"
    using amr_reader.rd_SomeD [OF r(1)] be_tocD [OF r(2)] fs(4) by simp
  ultimately show ?thesis
    using fs be_tocD [OF r(2)] pkt unfolding wf_packet_def conc_packet_def by blast
qed

subsection \<open>Octet-aligned\<close>

lemma bit_canonical_bytes:
  assumes "length data = (n + 7) div 8" "k < length data" "j < 8"
  shows "bit (canonical_bytes data n ! k) j \<longleftrightarrow> 8 * k + (7 - j) < n \<and> bit (data ! k) j"
proof (cases "n mod 8 = 0")
  case True
  then have d: "8 dvd n" by (rule dvd_eq_mod_eq_0 [THEN iffD2])
  then have "8 * length data = n" using assms(1) ceil8(1) [OF d] by simp
  then have "8 * k + (7 - j) < n" using assms(2) by linarith
  with True show ?thesis by (simp add: canonical_bytes_def)
next
  case False
  then have n: "n = 8 * (length data - 1) + n mod 8" using assms(1) by (simp add: ceil8 dvd_eq_mod_eq_0)
  from assms(2) have ne: "data \<noteq> []" by auto
  show ?thesis
  proof (cases "k = length data - 1")
    case True
    have "bit (0xff :: u8) i" if "i < 8" for i
      using that by (auto dest!: bit_index_u8)
    then have "bit (push_bit (8 - n mod 8) 0xff :: u8) j \<longleftrightarrow> 8 - n mod 8 \<le> j"
      using assms(3) by (auto simp: bit_push_bit_iff)
    moreover have "8 * k + (7 - j) < n \<longleftrightarrow> 8 - n mod 8 \<le> j"
    proof -
      obtain m where m: "n mod 8 = m" "m < 8" "n = 8 * k + m"
        using n True that [of "n mod 8"] by simp
      show ?thesis unfolding m(1) unfolding m(3) using m(2) assms(3) by auto
    qed
    moreover have "canonical_bytes data n ! k = last data AND push_bit (8 - n mod 8) 0xff"
      using True False ne by (simp add: canonical_bytes_def nth_append)
    ultimately show ?thesis using True ne by (auto simp: bit_and_iff last_conv_nth)
  next
    case kl: False
    then have "k < length data - 1" using assms(2) by simp
    moreover from this have "8 * k + (7 - j) < n" using n by linarith
    ultimately show ?thesis using False ne by (simp add: canonical_bytes_def nth_append nth_butlast)
  qed
qed

lemma canonical_bytes_pack:
  assumes "length data = (n + 7) div 8"
  shows "canonical_bytes data n = pack (take n (bits_of data))"
proof (rule nth_equalityI)
  have n: "n \<le> 8 * length data" using assms by simp
  then have len: "length (pack (take n (bits_of data))) = length data"
    by (simp add: assms min_absorb2)
  moreover have "length (canonical_bytes data n) = length data"
    by (cases "data = []") (simp_all add: canonical_bytes_def)
  ultimately show "length (canonical_bytes data n) = length (pack (take n (bits_of data)))" by simp
  fix k assume "k < length (canonical_bytes data n)"
  with \<open>length (canonical_bytes data n) = length data\<close> have k: "k < length data" by simp
  have bit_pack: "bit (pack (take n (bits_of data)) ! k) j \<longleftrightarrow>
      j < 8 \<and> 8 * k + (7 - j) < n \<and> bit (data ! k) j" for j
  proof (cases "j < 8")
    case True
    have "8 * k + (7 - j) < 8 * length data" using k by linarith
    moreover have "(8 * k + (7 - j)) div 8 = k" "7 - (8 * k + (7 - j)) mod 8 = j"
      using True by (simp_all only: div_mult_self4 mod_mult_self4) auto
    ultimately show ?thesis
      using k len n by (auto simp: nth_pack bit_byte_at nth_bits_of min_def simp del: add_diff_assoc)
  qed (use k len in \<open>simp add: nth_pack bit_byte_at\<close>)
  show "canonical_bytes data n ! k = pack (take n (bits_of data)) ! k"
  proof (rule bit_word_eqI)
    fix j assume "j < LENGTH(8)"
    then have j: "j < 8" by simp
    have "bit (canonical_bytes data n ! k) j \<longleftrightarrow> 8 * k + (7 - j) < n \<and> bit (data ! k) j"
      using assms k j by (rule bit_canonical_bytes)
    with j show "bit (canonical_bytes data n ! k) j = bit (pack (take n (bits_of data)) ! k) j"
      by (simp add: bit_pack)
  qed
qed

lemma toc_byte_bits:
  assumes "ft < 16" "q < 2"
  shows "drop_bit 3 (push_bit 7 (of_bool c) OR push_bit 3 ft OR push_bit 2 q) AND (15 :: u8) = ft"
    and "drop_bit 2 (push_bit 7 (of_bool c) OR push_bit 3 ft OR push_bit 2 q) AND (1 :: u8) = q"
    and "(push_bit 7 (of_bool c) OR push_bit 3 ft OR push_bit 2 q) AND (128 :: u8) = 0 \<longleftrightarrow> \<not> c"
proof -
  let ?b = "push_bit 7 (of_bool c) OR toc_byte ft q"
  have "drop_bit 3 ?b AND 15 = drop_bit 3 (toc_byte ft q) AND 15"
    unfolding u8_mask_15 by (rule bit_word_eqI) (auto simp: bit_simps)
  with toc_byte_fields [OF assms]
  show "drop_bit 3 (push_bit 7 (of_bool c) OR push_bit 3 ft OR push_bit 2 q) AND (15 :: u8) = ft"
    by (simp only: toc_byte_def)
  have "drop_bit 2 ?b AND 1 = drop_bit 2 (toc_byte ft q) AND 1"
    unfolding one_bit_field by (simp add: bit_simps)
  with toc_byte_fields [OF assms]
  show "drop_bit 2 (push_bit 7 (of_bool c) OR push_bit 3 ft OR push_bit 2 q) AND (1 :: u8) = q"
    by (simp only: toc_byte_def)
  have "bit (push_bit 7 (of_bool c) OR push_bit 3 ft OR push_bit 2 q :: u8) 7 \<longleftrightarrow> c"
    using not_bit_u8_less_16 [OF assms(1)] not_bit_u8_less_2 [OF assms(2)]
    by (auto simp: bit_simps)
  then show "(push_bit 7 (of_bool c) OR push_bit 3 ft OR push_bit 2 q) AND (128 :: u8) = 0 \<longleftrightarrow> \<not> c"
    using and_exp_eq_0_iff_not_bit [of "push_bit 7 (of_bool c) OR push_bit 3 ft OR push_bit 2 q :: u8" 7]
    by simp
qed

lemma oa_toc_bytes:
  "t \<noteq> [] \<Longrightarrow> wf_toc t \<Longrightarrow> oa_toc (pre @ toc_bytes t @ rest) (length pre) = Some (t, length pre + length t)"
proof (induction t arbitrary: pre)
  case (Cons e t)
  obtain ft q where e: "e = (ft, q)" by fastforce
  let ?b = "push_bit 7 (of_bool (t \<noteq> [])) OR push_bit 3 ft OR push_bit 2 q :: u8"
  from Cons.prems e have wf: "ft < 16" "q < 2" "wf_toc t" by auto
  have "get_at (pre @ toc_bytes (e # t) @ rest) (length pre) = Some ?b" by (simp add: e)
  moreover have "oa_toc (pre @ toc_bytes (e # t) @ rest) (length pre + 1) =
      Some (t, length pre + 1 + length t)" if "t \<noteq> []"
    using Cons.IH [OF that wf(3), of "pre @ [?b]"] e by simp
  ultimately show ?case
    using wf e toc_byte_bits [OF wf(1,2), of "t \<noteq> []"]
    by (subst oa_toc.simps) (auto simp: Let_def simp del: toc_bytes.simps)
qed simp

lemma oa_frames_bytes:
  "wf_speech kind fs \<Longrightarrow>
    oa_frames (pre @ speech_bytes fs @ rest) kind (length pre) (toc_of fs) =
      Some (map conc_frame fs, length pre + length (speech_bytes fs))"
proof (induction fs arbitrary: pre)
  case (Cons f fs)
  obtain ft q bs where f: "f = (ft, q, bs)" by (metis prod_cases3)
  have "canonical_bytes (pack bs) (length bs) = pack bs"
    by (simp add: canonical_bytes_pack)
  moreover have "get_range (pre @ speech_bytes (f # fs) @ rest) (length pre)
      (length pre + (length bs + 7) div 8) = Some (pack bs)"
    using get_range_append [of pre "pack bs"] by (simp add: f)
  ultimately show ?case
    using Cons.IH [of "pre @ pack bs"] Cons.prems by (simp add: f conc_frame_def Let_def)
qed simp

lemma oa_tocD: "oa_toc p pos = Some (t, pos') \<Longrightarrow> t \<noteq> [] \<and> wf_toc t"
proof (induction p pos arbitrary: t pos' rule: oa_toc.induct)
  case (1 p pos)
  from 1(2) obtain entry where entry: "get_at p pos = Some entry"
    and t: "if entry AND 128 = 0 then t = [(drop_bit 3 entry AND 15, drop_bit 2 entry AND 1)]
      else \<exists>t' pos''. oa_toc p (pos + 1) = Some (t', pos'') \<and>
        t = (drop_bit 3 entry AND 15, drop_bit 2 entry AND 1) # t'"
    by (subst (asm) oa_toc.simps) (auto simp: Let_def split: option.splits if_splits)
  have "drop_bit 3 entry AND 15 < 16"
    unfolding u8_mask_15 using u8_take_bit_iff [of 4 "take_bit 4 (drop_bit 3 entry)"] by simp
  moreover have "drop_bit 2 entry AND 1 < 2"
    unfolding one_bit_field by (simp add: u8_less_2)
  ultimately show ?case
    using t 1(1) [OF entry refl] by (auto simp: Let_def split: if_splits)
qed

lemma oa_framesD:
  "oa_frames p kind pos t = Some (frames, pos') \<Longrightarrow>
    \<exists>fs. t = toc_of fs \<and> frames = map conc_frame fs \<and> wf_speech kind fs"
proof (induction t arbitrary: pos frames)
  case (Cons e t)
  obtain ft q where e: "e = (ft, q)" by fastforce
  from Cons.prems e obtain bits data frames' where b: "frame_bits kind ft = Some bits"
    "get_range p pos (pos + (bits + 7) div 8) = Some data"
    "oa_frames p kind (pos + (bits + 7) div 8) t = Some (frames', pos')"
    "frames = \<lparr>fr_type = ft, fr_quality = q, fr_bits = canonical_bytes data bits\<rparr> # frames'"
    by (auto simp: bind_eq_Some_conv Let_def)
  from Cons.IH [OF b(3)] obtain fs where
    fs: "t = toc_of fs" "frames' = map conc_frame fs" "wf_speech kind fs" by auto
  have "length data = (bits + 7) div 8" using length_get_range [OF b(2)] by simp
  then have "canonical_bytes data bits = pack (take bits (bits_of data))"
    and "length (take bits (bits_of data)) = bits"
    by (simp_all add: canonical_bytes_pack)
  with b fs e show ?case
    by (intro exI [of _ "(ft, q, take bits (bits_of data)) # fs"]) (simp add: conc_frame_def)
qed simp

lemma parse_oa_wire:
  assumes "wf_packet kind cmr fs"
  shows "parse (wire True cmr fs) kind True = Some (conc_packet cmr fs)"
proof -
  let ?pre = "[push_bit 4 cmr]"
  have "oa_toc (?pre @ toc_bytes (toc_of fs) @ speech_bytes fs) (length ?pre) =
      Some (toc_of fs, length ?pre + length (toc_of fs))"
    using assms by (intro oa_toc_bytes) (simp_all add: wf_packet_def)
  moreover have "oa_frames ((?pre @ toc_bytes (toc_of fs)) @ speech_bytes fs @ []) kind
      (length (?pre @ toc_bytes (toc_of fs))) (toc_of fs) =
      Some (map conc_frame fs, length (?pre @ toc_bytes (toc_of fs)) + length (speech_bytes fs))"
    using assms by (intro oa_frames_bytes) (simp add: wf_packet_def)
  moreover have "drop_bit 4 (push_bit 4 cmr) = cmr"
    using assms by (intro bit_word_eqI) (auto simp: bit_simps wf_packet_def dest: bit_u8_less_16D)
  ultimately show ?thesis
    by (simp add: parse_def wire_def conc_packet_def)
qed

lemma parse_oaD:
  assumes "parse p kind True = Some pkt"
  shows "\<exists>cmr fs. wf_packet kind cmr fs \<and> pkt = conc_packet cmr fs"
proof -
  from assms obtain first t pos frames pos' where
    r: "oa_toc p 1 = Some (t, pos)" "oa_frames p kind pos t = Some (frames, pos')"
    and pkt: "pkt = \<lparr>pk_cmr = drop_bit 4 first, pk_frames = frames\<rparr>"
    by (auto simp: parse_def bind_eq_Some_conv Let_def split: if_splits)
  have "drop_bit 4 first < 16"
  proof -
    have "take_bit 4 (drop_bit 4 first) = drop_bit 4 first"
      by (rule bit_word_eqI) (auto simp: bit_simps dest: bit_imp_le_length)
    then show ?thesis using u8_take_bit_iff [of 4 "drop_bit 4 first"] by simp
  qed
  with oa_framesD [OF r(2)] oa_tocD [OF r(1)] pkt show ?thesis
    unfolding wf_packet_def conc_packet_def by blast
qed

lemma parse_wire: "wf_packet kind cmr fs \<Longrightarrow> parse (wire oa cmr fs) kind oa = Some (conc_packet cmr fs)"
proof (cases oa)
  case False
  assume wf: "wf_packet kind cmr fs"
  let ?bits = "field_bits cmr 4 @ toc_bits (toc_of fs) @ speech_all fs"
  have "bits_of (wire False cmr fs) = field_bits cmr 4 @ toc_bits (toc_of fs) @ speech_all fs @
      replicate (8 * ((length ?bits + 7) div 8) - length ?bits) False"
    unfolding wire_def by (simp only: bits_of_pack append_assoc if_False simp_thms)
  from parse_be_bits [OF wf this] False show ?thesis by simp
qed (simp add: parse_oa_wire)

lemma parse_wf:
  "parse p kind oa = Some pkt \<Longrightarrow> \<exists>cmr fs. wf_packet kind cmr fs \<and> pkt = conc_packet cmr fs"
  using parse_oaD [of p kind pkt] parse_beD [of p kind pkt] by (cases oa) auto

subsection \<open>Building\<close>

lemma build_oa_toc_eq:
  "i + length fs = Suc last_idx \<or> fs = [] \<Longrightarrow>
    build_oa_toc last_idx i (map conc_frame fs) = toc_bytes (toc_of fs)"
proof (induction fs arbitrary: i)
  case (Cons f fs)
  obtain ft q bs where f: "f = (ft, q, bs)" by (metis prod_cases3)
  have "i \<noteq> last_idx \<longleftrightarrow> fs \<noteq> []" using Cons.prems by (cases fs) auto
  moreover have "build_oa_toc last_idx (i + 1) (map conc_frame fs) = toc_bytes (toc_of fs)"
    using Cons.prems by (intro Cons.IH) auto
  ultimately show ?case by (simp add: f conc_frame_def Let_def)
qed simp

lemma build_oa_data_eq: "wf_speech kind fs \<Longrightarrow> build_oa_data kind (map conc_frame fs) = Some (speech_bytes fs)"
proof (induction fs)
  case (Cons f fs)
  obtain ft q bs where f: "f = (ft, q, bs)" by (metis prod_cases3)
  with Cons show ?case by (simp add: conc_frame_def get_range_def)
qed simp

lemma build_be_toc_holds:
  "i + length fs = Suc last_idx \<or> fs = [] \<Longrightarrow> writer_holds w xs \<Longrightarrow>
    writer_holds (build_be_toc last_idx i (map conc_frame fs) w) (xs @ toc_bits (toc_of fs))"
proof (induction fs arbitrary: i w xs)
  case (Cons f fs)
  obtain ft q bs where f: "f = (ft, q, bs)" by (metis prod_cases3)
  have "i \<noteq> last_idx \<longleftrightarrow> fs \<noteq> []" using Cons.prems by (cases fs) auto
  then have c: "(of_bool (i \<noteq> last_idx) :: u8) = of_bool (toc_of fs \<noteq> [])" by simp
  have "writer_holds (write_field (write_field (write_field w (of_bool (i \<noteq> last_idx)) 1) ft 4) q 1)
      (((xs @ field_bits (of_bool (i \<noteq> last_idx)) 1) @ field_bits ft 4) @ field_bits q 1)"
    by (intro amr_writer.wr_ok Cons.prems)
  from Cons.IH [OF _ this, of "i + 1"] Cons.prems(1) show ?case
    unfolding c by (auto simp: f conc_frame_def simp del: write_field.simps)
qed simp

lemma build_be_data_holds:
  "wf_speech kind fs \<Longrightarrow> writer_holds w xs \<Longrightarrow>
    \<exists>w'. build_be_data kind (map conc_frame fs) w = Some (Some w') \<and> writer_holds w' (xs @ speech_all fs)"
proof (induction fs arbitrary: w xs)
  case (Cons f fs)
  obtain ft q bs where f: "f = (ft, q, bs)" by (metis prod_cases3)
  from amr_writer.wr_many_pack [OF Cons.prems(2) refl, of bs] obtain w1 where
    w1: "write_bits_from_bytes w (pack bs) (length bs) = Some w1" "writer_holds w1 (xs @ bs)" by auto
  from Cons.IH [OF _ w1(2)] Cons.prems(1) f w1(1) show ?case by (simp add: conc_frame_def)
qed simp

lemma build_wire:
  assumes "wf_packet kind cmr fs"
  shows "build (conc_packet cmr fs) kind oa = Some (Some (wire oa cmr fs))"
proof -
  from assms have fs: "fs \<noteq> []" "wf_speech kind fs" by (simp_all add: wf_packet_def)
  have last: "0 + length fs = Suc (length fs - 1) \<or> fs = []" using fs(1) by simp
  show ?thesis
  proof (cases oa)
    case True
    with fs build_oa_toc_eq [OF last] build_oa_data_eq [OF fs(2)] show ?thesis
      by (simp add: build_def conc_packet_def wire_def Let_def)
  next
    case False
    let ?w = "write_field bit_writer_default cmr 4"
    have "writer_holds ?w (field_bits cmr 4)"
      using amr_writer.wr_ok [OF writer_default_holds, of cmr 4] by simp
    from build_be_data_holds [OF fs(2) build_be_toc_holds [OF last this]] obtain w' where
      "build_be_data kind (map conc_frame fs) (build_be_toc (length fs - 1) 0 (map conc_frame fs) ?w)
        = Some (Some w')"
      "writer_holds w' ((field_bits cmr 4 @ toc_bits (toc_of fs)) @ speech_all fs)" by blast
    with False fs(1) show ?thesis
      by (simp add: build_def conc_packet_def wire_def Let_def amr_writer.out_bytes_ok)
  qed
qed

lemma build_conc_inject:
  "parse p kind oa = Some pkt \<Longrightarrow> \<exists>q. build pkt kind oa' = Some (Some q) \<and> parse q kind oa' = Some pkt"
  using parse_wf build_wire parse_wire by blast

subsection \<open>The mode guard's view and the mode request\<close>

abbreviation speech_only :: "amr_kind \<Rightarrow> u8 list \<Rightarrow> u8 list" where
  "speech_only kind \<equiv> filter (\<lambda>ft. ft \<le> speech_max kind)"

lemma speech_modes_from_oa:
  "oa_toc p pos = Some (t, pos') \<Longrightarrow> pos = 1 + k \<Longrightarrow>
    speech_modes_from p kind True k modes = Some (modes @ speech_only kind (map fst t))"
proof (induction p pos arbitrary: t pos' k modes rule: oa_toc.induct)
  case (1 p pos)
  from 1(2) obtain entry where entry: "get_at p pos = Some entry"
    and t: "if entry AND 128 = 0 then t = [(drop_bit 3 entry AND 15, drop_bit 2 entry AND 1)]
      else \<exists>t' pos''. oa_toc p (pos + 1) = Some (t', pos'') \<and>
        t = (drop_bit 3 entry AND 15, drop_bit 2 entry AND 1) # t'"
    by (subst (asm) oa_toc.simps) (auto simp: Let_def split: option.splits if_splits)
  have e: "toc_entry_at p True k = Some (entry AND 128 \<noteq> 0, drop_bit 3 entry AND 15)"
    using entry 1(3) by (simp add: toc_entry_at_def)
  show ?case
  proof (cases "entry AND 128 = 0")
    case True
    with e t show ?thesis by (subst speech_modes_from.simps) (simp add: Let_def)
  next
    case False
    with t obtain t' pos'' where t': "oa_toc p (pos + 1) = Some (t', pos'')"
      "t = (drop_bit 3 entry AND 15, drop_bit 2 entry AND 1) # t'" by auto
    from 1(1) [OF entry refl False t'(1), of "k + 1"] 1(3)
    have "speech_modes_from p kind True (k + 1) ms = Some (ms @ speech_only kind (map fst t'))" for ms
      by simp
    with e False t'(2) show ?thesis by (subst speech_modes_from.simps) (simp add: Let_def)
  qed
qed

text \<open>The six bits from position \<open>b\<close>, cut out of two neighbouring bytes.\<close>

definition six_at :: "bytes \<Rightarrow> nat \<Rightarrow> u16" where
  "six_at p b = drop_bit (10 - b mod 8) (push_bit 8 (ucast (p ! (b div 8))) OR
      (case get_at p (b div 8 + 1) of Some x \<Rightarrow> ucast x | None \<Rightarrow> 0)) AND 0x3f"

lemma u16_and_mask: "(v :: u16) AND 0x3f = take_bit 6 v" "(v :: u16) AND 0x0f = take_bit 4 v"
  by (simp_all add: take_bit_eq_mask mask_eq_exp_minus_1)

lemma bit_six_at:
  assumes "b + 6 \<le> 8 * length p"
  shows "bit (six_at p b) j \<longleftrightarrow> j < 6 \<and> bits_of p ! (b + (5 - j))"
proof (cases "j < 6")
  case True
  define m k i where "m = b mod 8" and "k = b div 8" and "i = 10 - m + j"
  have m: "m < 8" and b: "b = 8 * k + m" by (simp_all add: m_def k_def)
  then have i: "i < 16" "b + (5 - j) + i = 8 * k + 15" using True by (auto simp: i_def)
  have six: "bit (six_at p b) j \<longleftrightarrow> 8 \<le> i \<and> bit (p ! k) (i - 8) \<or>
      i < 8 \<and> (case get_at p (k + 1) of Some x \<Rightarrow> bit x i | None \<Rightarrow> False)"
    using True i(1) unfolding six_at_def u16_and_mask
    by (auto simp: bit_simps m_def [symmetric] k_def [symmetric] i_def [symmetric] split: option.splits)
  show ?thesis
  proof (cases "8 \<le> i")
    case hi: True
    then have pos: "b + (5 - j) = 8 * k + (15 - i)" and lt: "15 - i < 8" using i by auto
    have "b + (5 - j) < 8 * length p" using assms by simp
    moreover have "(b + (5 - j)) div 8 = k" "(b + (5 - j)) mod 8 = 15 - i"
      unfolding pos using lt by (simp_all only: div_mult_self4 mod_mult_self4) auto
    then have "(b + (5 - j)) div 8 = k" "7 - (b + (5 - j)) mod 8 = i - 8" using hi i(1) by auto
    ultimately show ?thesis using six hi True by (simp add: nth_bits_of)
  next
    case lo: False
    then have pos: "b + (5 - j) = 8 * (k + 1) + (7 - i)" using i by auto
    have lt: "b + (5 - j) < 8 * length p" using assms by simp
    then have "8 * (k + 1) < 8 * length p" unfolding pos by (rule add_lessD1)
    then have "k + 1 < length p" by simp
    moreover have "(b + (5 - j)) div 8 = k + 1" "(b + (5 - j)) mod 8 = 7 - i"
      unfolding pos by (simp_all only: div_mult_self4 mod_mult_self4) auto
    then have "(b + (5 - j)) div 8 = k + 1" "7 - (b + (5 - j)) mod 8 = i" using lo by auto
    ultimately show ?thesis using six lo True lt by (simp add: nth_bits_of get_at_def)
  qed
qed (simp add: six_at_def u16_and_mask bit_simps)

lemma toc_entry_at_be:
  assumes "b = 4 + 6 * k" "b + 6 \<le> 8 * length p"
  shows "toc_entry_at p False k = Some (bits_of p ! b, num_of_bits (take 4 (drop (Suc b) (bits_of p))))"
proof -
  have "six_at p b AND 0x20 \<noteq> 0 \<longleftrightarrow> bits_of p ! b"
    using and_exp_eq_0_iff_not_bit [of "six_at p b" 5] bit_six_at [OF assms(2), of 5] by simp
  moreover have "ucast (drop_bit 1 (six_at p b) AND 0x0f) = num_of_bits (take 4 (drop (Suc b) (bits_of p)))"
  proof (rule bit_word_eqI)
    fix j assume "j < LENGTH(8)"
    then have "bit (ucast (drop_bit 1 (six_at p b) AND 0x0f) :: u8) j \<longleftrightarrow> j < 4 \<and> bit (six_at p b) (Suc j)"
      unfolding u16_and_mask by (auto simp: bit_simps)
    also have "\<dots> \<longleftrightarrow> j < 4 \<and> bits_of p ! (Suc b + (3 - j))"
      using bit_six_at [OF assms(2), of "Suc j"] by (auto simp: numeral_eq_Suc Suc_diff_le)
    also have "\<dots> \<longleftrightarrow> bit (num_of_bits (take 4 (drop (Suc b) (bits_of p)))) j"
      using assms(2) by (auto simp: bit_num_of_bits min_absorb2 numeral_eq_Suc)
    finally show "bit (ucast (drop_bit 1 (six_at p b) AND 0x0f) :: u8) j =
      bit (num_of_bits (take 4 (drop (Suc b) (bits_of p)))) j" .
  qed
  ultimately show ?thesis
    using assms by (simp add: toc_entry_at_def six_at_def Let_def mult.commute)
qed

lemma speech_modes_from_be:
  "be_toc r = Some (t, r') \<Longrightarrow> rd_bytes r = p \<Longrightarrow> rd_pos r = 4 + 6 * k \<Longrightarrow>
    speech_modes_from p kind False k modes = Some (modes @ speech_only kind (map fst t))"
proof (induction r arbitrary: t r' k modes rule: be_toc.induct)
  case (1 r)
  let ?b = "4 + 6 * k"
  from 1(2) obtain v r1 ft r2 q r3 where r: "read r 1 = Some (v, r1)" "read r1 4 = Some (ft, r2)"
    "read r2 1 = Some (q, r3)"
    and t: "if v = 0 then t = [(ft, q)] \<and> r' = r3
      else \<exists>t'. be_toc r3 = Some (t', r') \<and> t = (ft, q) # t'"
    by (subst (asm) be_toc.simps) (auto split: option.splits if_splits)
  have b: "?b + 6 \<le> 8 * length p"
    and ft: "ft = num_of_bits (take 4 (drop (Suc ?b) (bits_of p)))"
    and v: "v = num_of_bits (take 1 (drop ?b (bits_of p)))"
    and r3: "rd_bytes r3 = p" "rd_pos r3 = 4 + 6 * (k + 1)"
    using r 1(3,4) by (auto simp: read_eq reader_remaining_def split: if_splits)
  have v': "v \<noteq> 0 \<longleftrightarrow> bits_of p ! ?b"
    unfolding v using b by (simp add: take_Suc_conv_app_nth hd_drop_conv_nth num_of_bits_def take_Suc)
  note e = toc_entry_at_be [OF refl b, folded ft v']
  show ?case
  proof (cases "v = 0")
    case True
    with e t show ?thesis by (subst speech_modes_from.simps) (simp add: Let_def)
  next
    case False
    with t obtain t' where t': "be_toc r3 = Some (t', r')" "t = (ft, q) # t'" by auto
    from 1(1) [OF r(1) refl r(2) refl r(3) refl False t'(1) r3]
    have "speech_modes_from p kind False (k + 1) ms = Some (ms @ speech_only kind (map fst t'))" for ms .
    with e False t'(2) show ?thesis by (subst speech_modes_from.simps) (simp add: Let_def)
  qed
qed

lemma map_fst_toc: "map fst (toc_of fs) = map fr_type (map conc_frame fs)"
  by (auto simp: conc_frame_def)

lemma speech_modes_parse:
  assumes "parse p kind oa = Some pkt"
  shows "speech_modes p kind oa = Some (speech_only kind (map fr_type (pk_frames pkt)))"
proof (cases oa)
  case True
  with assms obtain t pos frames pos' where
    r: "oa_toc p 1 = Some (t, pos)" "oa_frames p kind pos t = Some (frames, pos')" "pk_frames pkt = frames"
    by (auto simp: parse_def bind_eq_Some_conv Let_def split: if_splits)
  from oa_framesD [OF r(2)] r(3) have "map fst t = map fr_type (pk_frames pkt)"
    by (auto simp: conc_frame_def)
  with speech_modes_from_oa [OF r(1), of 0 kind "[]"] True show ?thesis
    by (simp add: speech_modes_def)
next
  case False
  with assms obtain cmr r1 t r2 frames r3 where r: "read (bit_reader_new p) 4 = Some (cmr, r1)"
    "be_toc r1 = Some (t, r2)" "be_frames r2 kind t = Some (frames, r3)" "pk_frames pkt = frames"
    by (auto simp: parse_def bind_eq_Some_conv)
  have r1: "rd_bytes r1 = p" "rd_pos r1 = 4 + 6 * 0"
    using r(1) by (auto simp: read_eq bit_reader_new_def split: if_splits)
  from be_framesD [OF r(3)] r(4) have "map fst t = map fr_type (pk_frames pkt)"
    by (auto simp: conc_frame_def)
  with speech_modes_from_be [OF r(2) r1, of kind "[]"] False show ?thesis
    by (simp add: speech_modes_def)
qed

lemma oa_toc_tail: "oa_toc (x # rest) (Suc pos) = oa_toc (y # rest) (Suc pos)"
proof (induction "length rest - pos" arbitrary: pos rule: less_induct)
  case less
  show ?case
  proof (cases "pos < length rest")
    case True
    then have "oa_toc (x # rest) (Suc (Suc pos)) = oa_toc (y # rest) (Suc (Suc pos))"
      by (intro less) auto
    then show ?thesis by (subst (1 2) oa_toc.simps) (simp add: Let_def split: option.split)
  next
    case False
    then have "get_at rest pos = None" by (simp add: get_at_def)
    then show ?thesis by (subst (1 2) oa_toc.simps) simp
  qed
qed

lemma oa_frames_tail: "oa_frames (x # rest) kind (Suc pos) t = oa_frames (y # rest) kind (Suc pos) t"
proof (induction t arbitrary: pos)
  case (Cons e t)
  obtain ft q where e: "e = (ft, q)" by fastforce
  have "get_range (x # rest) (Suc pos) (Suc pos + n) = get_range (y # rest) (Suc pos) (Suc pos + n)" for n
    by (simp add: get_range_def)
  moreover have "oa_frames (x # rest) kind (Suc pos + n) t = oa_frames (y # rest) kind (Suc pos + n) t" for n
    using Cons.IH [of "pos + n"] by simp
  ultimately show ?case by (simp only: e oa_frames.simps)
qed simp

lemma oa_toc_pos: "oa_toc p pos = Some (t, pos') \<Longrightarrow> pos < pos'"
proof (induction p pos arbitrary: t pos' rule: oa_toc.induct)
  case (1 p pos)
  from 1(2) show ?case
    by (subst (asm) oa_toc.simps)
       (auto simp: Let_def split: option.splits if_splits dest: 1(1) [OF _ refl])
qed

lemma field_bits_byte:
  "field_bits (push_bit 4 c OR (b AND 0x0f)) 8 = field_bits c 4 @ field_bits b 4"
  unfolding u8_mask_15
  by (rule nth_equalityI) (auto simp: field_bits_def rev_nth nth_append bit_simps)

lemma parse_set_cmr:
  assumes "parse p kind oa = Some pkt" "cmr < 16"
  shows "parse (set_cmr p cmr) kind oa = Some (pkt\<lparr>pk_cmr := cmr\<rparr>)"
proof (cases oa)
  case True
  with assms(1) obtain first rest where p: "p = first # rest"
    by (cases p) (auto simp: parse_def)
  let ?b = "push_bit 4 cmr OR (first AND 0x0f)"
  have cmr: "drop_bit 4 ?b = cmr"
    unfolding u8_mask_15 using assms(2) by (intro bit_word_eqI) (auto simp: bit_simps dest: bit_u8_less_16D)
  from assms(1) True p obtain t pos frames where t: "oa_toc (first # rest) 1 = Some (t, pos)"
    "oa_frames (first # rest) kind pos t = Some (frames, length p)"
    "pkt = \<lparr>pk_cmr = drop_bit 4 first, pk_frames = frames\<rparr>"
    by (auto simp: parse_def bind_eq_Some_conv Let_def split: if_splits)
  obtain pos0 where "pos = Suc pos0" using oa_toc_pos [OF t(1)] by (cases pos) auto
  with t p oa_toc_tail [of first rest 0 ?b] oa_frames_tail [of first rest kind pos0 t ?b] True cmr
  show ?thesis by (simp add: parse_def set_cmr_def)
next
  case False
  with parse_beD [of p kind pkt] assms(1) obtain cmr0 fs pad where fs: "wf_packet kind cmr0 fs"
    "pkt = conc_packet cmr0 fs"
    "bits_of p = field_bits cmr0 4 @ toc_bits (toc_of fs) @ speech_all fs @ pad" by auto
  obtain first rest where p: "p = first # rest"
    using fs(3) by (cases p) (auto simp: field_bits_def)
  have "field_bits first 8 = field_bits (drop_bit 4 first) 4 @ field_bits first 4"
    by (rule nth_equalityI) (auto simp: field_bits_def rev_nth nth_append bit_simps)
  with fs(3) p have "field_bits first 4 @ bits_of rest = toc_bits (toc_of fs) @ speech_all fs @ pad"
    by (simp add: bits_of_Cons)
  then have "bits_of (set_cmr p cmr) = field_bits cmr 4 @ toc_bits (toc_of fs) @ speech_all fs @ pad"
    by (simp add: p set_cmr_def bits_of_Cons field_bits_byte)
  moreover have "wf_packet kind cmr fs" using fs(1) assms(2) by (simp add: wf_packet_def)
  ultimately show ?thesis using False fs(2) parse_be_bits by (simp add: conc_packet_def)
qed

section \<open>Properties\<close>

text \<open>C34: Repacking to the other packing never panics; it gives up exactly on the payloads the
  source packing cannot parse, and otherwise the repacked payload parses, in its own packing, to
  the very packet the original payload holds: mode request, frame types, quality flags and every
  payload bit, for any number of frames.\<close>

theorem repack_preserves_packet:
  "\<exists>result. repack p kind (\<not> to) to = Some result \<and>
     (case result of
        None \<Rightarrow> parse p kind (\<not> to) = None
      | Some q \<Rightarrow> parse p kind (\<not> to) \<noteq> None \<and> parse q kind to = parse p kind (\<not> to))"
proof (cases "parse p kind (\<not> to)")
  case (Some pkt)
  with build_conc_inject [OF Some, of to] show ?thesis by (auto simp: repack_def)
qed (simp add: repack_def)

text \<open>A well-formed packet (any frame types with a known size, each with its number of bits)
  has one payload per packing; building gives it and parsing it gives the packet back.\<close>

theorem build_parse_roundtrip:
  assumes "wf_packet kind cmr fs"
  shows "build (conc_packet cmr fs) kind oa = Some (Some (wire oa cmr fs)) \<and>
    parse (wire oa cmr fs) kind oa = Some (conc_packet cmr fs)"
  using build_wire [OF assms] parse_wire [OF assms] by simp

theorem build_parse_roundtrip_witness:
  "build (conc_packet 15 [(8, 1, replicate 39 True), (15, 1, [])]) Nb False =
     Some (Some (wire False 15 [(8, 1, replicate 39 True), (15, 1, [])])) \<and>
   parse (wire False 15 [(8, 1, replicate 39 True), (15, 1, [])]) Nb False =
     Some (conc_packet 15 [(8, 1, replicate 39 True), (15, 1, [])])"
  by (rule build_parse_roundtrip)
     (simp add: wf_packet_def frame_bits_def speech_bits_def get_at_def)

text \<open>The mode guard reads the table of contents directly, six bits at a time out of two
  bytes; on every payload that parses it lists exactly the speech frame types of the packet's
  frames, in order.\<close>

theorem speech_modes_agrees_with_parse:
  assumes "parse p kind oa = Some pkt"
  shows "speech_modes p kind oa =
    Some (filter (\<lambda>ft. ft \<le> speech_max kind) (map fr_type (pk_frames pkt)))"
  using speech_modes_parse [OF assms] .

theorem speech_modes_agrees_with_parse_witness:
  "speech_modes (wire False 2 [(8, 1, replicate 39 True), (0, 1, replicate 95 False)]) Nb False = Some [0]"
proof -
  have "parse (wire False 2 [(8, 1, replicate 39 True), (0, 1, replicate 95 False)]) Nb False =
      Some (conc_packet 2 [(8, 1, replicate 39 True), (0, 1, replicate 95 False)])"
    by (rule parse_wire) (simp add: wf_packet_def frame_bits_def speech_bits_def get_at_def)
  from speech_modes_agrees_with_parse [OF this] show ?thesis
    by (simp add: conc_packet_def conc_frame_def speech_max_def)
qed

text \<open>Overwriting the mode request in place changes the mode request of the packet a payload
  parses to and nothing else, in both packings.\<close>

theorem set_cmr_changes_cmr_only:
  assumes "parse p kind oa = Some pkt" "cmr < 16"
  shows "parse (set_cmr p cmr) kind oa = Some (pkt\<lparr>pk_cmr := cmr\<rparr>)"
  using parse_set_cmr [OF assms] .

theorem set_cmr_changes_cmr_only_witness:
  "parse (set_cmr (wire True 15 [(15, 1, [])]) 3) Wb True = Some (conc_packet 3 [(15, 1, [])])"
proof -
  have "parse (wire True 15 [(15, 1, [])]) Wb True = Some (conc_packet 15 [(15, 1, [])])"
    by (rule parse_wire) (simp add: wf_packet_def frame_bits_def speech_bits_def get_at_def)
  from set_cmr_changes_cmr_only [OF this, of 3] show ?thesis by (simp add: conc_packet_def)
qed

end
