(* ===== verification/Utf8_Text.thy ===== *)
theory Utf8_Text
  imports Bridge_Prelude
begin

text \<open>
  Rust text: a \<open>String\<close> is modelled by the list of its Unicode scalar values. \<open>as_bytes\<close> is the
  UTF-8 encoding, \<open>utf8_lossy\<close> is \<open>String::from_utf8_lossy\<close>: every maximal prefix of an
  ill-formed sequence becomes one replacement character.
\<close>

type_synonym text_string = "nat list"

definition REPLACEMENT_CHARACTER :: nat where
  "REPLACEMENT_CHARACTER = 0xFFFD"

definition is_scalar :: "nat \<Rightarrow> bool" where
  "is_scalar c \<longleftrightarrow> c < 0xD800 \<or> 0xE000 \<le> c \<and> c < 0x110000"

definition utf8_char :: "nat \<Rightarrow> nat list" where
  "utf8_char c =
     (if c < 0x80 then [c]
      else if c < 0x800 then [0xC0 + c div 64, 0x80 + c mod 64]
      else if c < 0x10000 then [0xE0 + c div 4096, 0x80 + c div 64 mod 64, 0x80 + c mod 64]
      else [0xF0 + c div 262144, 0x80 + c div 4096 mod 64, 0x80 + c div 64 mod 64, 0x80 + c mod 64])"

definition as_bytes :: "text_string \<Rightarrow> bytes" where
  "as_bytes s = map word_of_nat (concat (map utf8_char s))"

abbreviation continuation :: "nat \<Rightarrow> bool" where
  "continuation b \<equiv> 0x80 \<le> b \<and> b \<le> 0xBF"

definition second_of_3 :: "nat \<Rightarrow> nat \<Rightarrow> bool" where
  "second_of_3 b0 b1 \<longleftrightarrow> continuation b1 \<and> (b0 = 0xE0 \<longrightarrow> 0xA0 \<le> b1) \<and> (b0 = 0xED \<longrightarrow> b1 \<le> 0x9F)"

definition second_of_4 :: "nat \<Rightarrow> nat \<Rightarrow> bool" where
  "second_of_4 b0 b1 \<longleftrightarrow> continuation b1 \<and> (b0 = 0xF0 \<longrightarrow> 0x90 \<le> b1) \<and> (b0 = 0xF4 \<longrightarrow> b1 \<le> 0x8F)"

text \<open>One character or replacement, and the input after it. A position past the end is no
  continuation byte.\<close>

definition lossy_step :: "nat \<Rightarrow> nat list \<Rightarrow> nat \<times> nat list" where
  "lossy_step b bs =
     (if b < 0x80 then (b, bs)
      else if 0xC2 \<le> b \<and> b \<le> 0xDF then
        (case bs of
           b1 # r1 \<Rightarrow> if continuation b1 then ((b - 0xC0) * 64 + (b1 - 0x80), r1)
                      else (REPLACEMENT_CHARACTER, bs)
         | [] \<Rightarrow> (REPLACEMENT_CHARACTER, bs))
      else if 0xE0 \<le> b \<and> b \<le> 0xEF then
        (case bs of
           b1 # r1 \<Rightarrow>
             if \<not> second_of_3 b b1 then (REPLACEMENT_CHARACTER, bs)
             else (case r1 of
                b2 # r2 \<Rightarrow>
                  if continuation b2
                  then ((b - 0xE0) * 4096 + (b1 - 0x80) * 64 + (b2 - 0x80), r2)
                  else (REPLACEMENT_CHARACTER, r1)
              | [] \<Rightarrow> (REPLACEMENT_CHARACTER, r1))
         | [] \<Rightarrow> (REPLACEMENT_CHARACTER, bs))
      else if 0xF0 \<le> b \<and> b \<le> 0xF4 then
        (case bs of
           b1 # r1 \<Rightarrow>
             if \<not> second_of_4 b b1 then (REPLACEMENT_CHARACTER, bs)
             else (case r1 of
                b2 # r2 \<Rightarrow>
                  if \<not> continuation b2 then (REPLACEMENT_CHARACTER, r1)
                  else (case r2 of
                     b3 # r3 \<Rightarrow>
                       if continuation b3
                       then ((b - 0xF0) * 262144 + (b1 - 0x80) * 4096 + (b2 - 0x80) * 64 + (b3 - 0x80), r3)
                       else (REPLACEMENT_CHARACTER, r2)
                   | [] \<Rightarrow> (REPLACEMENT_CHARACTER, r2))
              | [] \<Rightarrow> (REPLACEMENT_CHARACTER, r1))
         | [] \<Rightarrow> (REPLACEMENT_CHARACTER, bs))
      else (REPLACEMENT_CHARACTER, bs))"

lemma lossy_step_length: "length (snd (lossy_step b bs)) \<le> length bs"
  by (auto simp: lossy_step_def split: list.split)

function lossy :: "nat list \<Rightarrow> text_string" where
  "lossy [] = []"
| "lossy (b # bs) = fst (lossy_step b bs) # lossy (snd (lossy_step b bs))"
  by pat_completeness auto
termination
  by (relation "measure length") (auto simp: less_Suc_eq_le lossy_step_length)

definition utf8_lossy :: "bytes \<Rightarrow> text_string" where
  "utf8_lossy bs = lossy (map unat bs)"

lemma utf8_char_bytes: "is_scalar c \<Longrightarrow> b \<in> set (utf8_char c) \<Longrightarrow> b < 256"
  by (auto simp: utf8_char_def is_scalar_def less_mult_imp_div_less split: if_splits)

lemma utf8_char_nonempty: "\<exists>b bs. utf8_char c = b # bs"
  by (auto simp: utf8_char_def)

lemma base_64_digits:
  "(c :: nat) = c div 4096 * 4096 + c div 64 mod 64 * 64 + c mod 64"
  "c = c div 262144 * 262144 + c div 4096 mod 64 * 4096 + c div 64 mod 64 * 64 + c mod 64"
proof -
  have a: "c = c div 64 * 64 + c mod 64" by simp
  have b: "c div 64 = c div 4096 * 64 + c div 64 mod 64"
    using div_mult2_eq [of c 64 64] by simp
  have d: "c div 4096 = c div 262144 * 64 + c div 4096 mod 64"
    using div_mult2_eq [of c 4096 64] by simp
  from a b show "c = c div 4096 * 4096 + c div 64 mod 64 * 64 + c mod 64" by linarith
  with d show "c = c div 262144 * 262144 + c div 4096 mod 64 * 4096 + c div 64 mod 64 * 64 + c mod 64"
    by linarith
qed

lemma lossy_step_char:
  assumes "is_scalar c" "utf8_char c = b # bs"
  shows "lossy_step b (bs @ rest) = (c, rest)"
proof -
  consider (1) "c < 0x80" | (2) "0x80 \<le> c" "c < 0x800" | (3) "0x800 \<le> c" "c < 0x10000"
    | (4) "0x10000 \<le> c" by linarith
  then show ?thesis
  proof cases
    case 1
    with assms(2) show ?thesis by (auto simp: utf8_char_def lossy_step_def)
  next
    case 2
    define q r where "q = c div 64" and "r = c mod 64"
    have "c = q * 64 + r" "r < 64" "2 \<le> q" "q < 32" using 2 by (auto simp: q_def r_def)
    moreover have "b = 0xC0 + q" "bs = [0x80 + r]"
      using assms(2) 2 by (auto simp: utf8_char_def q_def r_def)
    ultimately show ?thesis by (simp add: lossy_step_def)
  next
    case 3
    define q m r where "q = c div 4096" and "m = c div 64 mod 64" and "r = c mod 64"
    have c: "c = q * 4096 + m * 64 + r" "r < 64" "m < 64" "q < 16"
      using base_64_digits [of c] 3 by (auto simp: q_def m_def r_def)
    moreover have "b = 0xE0 + q" "bs = [0x80 + m, 0x80 + r]"
      using assms(2) 3 by (auto simp: utf8_char_def q_def m_def r_def)
    moreover have "second_of_3 (0xE0 + q) (0x80 + m)"
      using c 3 assms(1) by (auto simp: second_of_3_def is_scalar_def)
    ultimately show ?thesis by (simp add: lossy_step_def)
  next
    case 4
    define q n m r where "q = c div 262144" and "n = c div 4096 mod 64" and "m = c div 64 mod 64"
      and "r = c mod 64"
    have c: "c = q * 262144 + n * 4096 + m * 64 + r" "r < 64" "m < 64" "n < 64"
      using base_64_digits [of c] by (auto simp: q_def n_def m_def r_def)
    moreover from c have "q < 5" using assms(1) 4 by (auto simp: is_scalar_def)
    moreover have "b = 0xF0 + q" "bs = [0x80 + n, 0x80 + m, 0x80 + r]"
      using assms(2) 4 by (auto simp: utf8_char_def q_def n_def m_def r_def)
    moreover have "second_of_4 (0xF0 + q) (0x80 + n)"
      using c 4 assms(1) by (auto simp: second_of_4_def is_scalar_def)
    ultimately show ?thesis by (simp add: lossy_step_def)
  qed
qed

lemma lossy_chars: "list_all is_scalar s \<Longrightarrow> lossy (concat (map utf8_char s)) = s"
proof (induction s)
  case (Cons c s)
  obtain b bs where c: "utf8_char c = b # bs" using utf8_char_nonempty by blast
  with Cons lossy_step_char [OF _ c] show ?case by simp
qed simp

text \<open>Encoding and decoding is the identity on text.\<close>

lemma utf8_lossy_as_bytes:
  assumes "list_all is_scalar s"
  shows "utf8_lossy (as_bytes s) = s"
proof -
  have "map unat (as_bytes s) = concat (map utf8_char s)"
    unfolding as_bytes_def map_map
    using assms utf8_char_bytes
    by (intro map_idI) (auto simp: unat_word_of_nat_u8 list_all_iff)
  then show ?thesis using lossy_chars [OF assms] by (simp add: utf8_lossy_def)
qed

lemma utf8_lossy_ascii:
  assumes "list_all (\<lambda>b. b < 128) bs"
  shows "utf8_lossy bs = map unat bs"
proof -
  have small: "unat b < 128" if "b \<in> set bs" for b :: u8
    using that assms by (auto simp: list_all_iff word_less_nat_alt)
  then have "as_bytes (map unat bs) = bs"
    unfolding as_bytes_def by (induction bs) (auto simp: utf8_char_def)
  moreover have "list_all is_scalar (map unat bs)"
    using small by (force simp: list_all_iff is_scalar_def)
  ultimately show ?thesis using utf8_lossy_as_bytes [of "map unat bs"] by simp
qed

end
