(* ===== verification/Rust_Text.thy ===== *)
theory Rust_Text
  imports Utf8_Text
begin

text \<open>
  The parts of Rust's \<open>str\<close> the bridge's parsers use, on text as a list of Unicode scalar values:
  \<open>split\<close>, \<open>split_once\<close>, \<open>trim\<close>, ASCII case, prefixes and the decimal \<open>parse\<close>/\<open>to_string\<close>
  of unsigned integers, with the laws that relate them.
\<close>

text \<open>A literal of the source. Literals are ASCII.\<close>

definition lit :: "string \<Rightarrow> text_string" where
  "lit s = map of_char s"

section \<open>Characters\<close>

text \<open>The Unicode property \<open>White_Space\<close> (\<open>char::is_whitespace\<close>).\<close>

definition is_whitespace :: "nat \<Rightarrow> bool" where
  "is_whitespace c \<longleftrightarrow>
     9 \<le> c \<and> c \<le> 13 \<or> c = 0x20 \<or> c = 0x85 \<or> c = 0xA0 \<or> c = 0x1680 \<or>
     0x2000 \<le> c \<and> c \<le> 0x200A \<or> c = 0x2028 \<or> c = 0x2029 \<or> c = 0x202F \<or> c = 0x205F \<or> c = 0x3000"

definition is_ascii_digit :: "nat \<Rightarrow> bool" where
  "is_ascii_digit c \<longleftrightarrow> 48 \<le> c \<and> c \<le> 57"

definition ascii_lower :: "nat \<Rightarrow> nat" where
  "ascii_lower c = (if 65 \<le> c \<and> c \<le> 90 then c + 32 else c)"

definition to_ascii_lowercase :: "text_string \<Rightarrow> text_string" where
  "to_ascii_lowercase s = map ascii_lower s"

definition eq_ignore_ascii_case :: "text_string \<Rightarrow> text_string \<Rightarrow> bool" where
  "eq_ignore_ascii_case a b \<longleftrightarrow> map ascii_lower a = map ascii_lower b"

section \<open>Trimming and splitting\<close>

definition trim_start :: "text_string \<Rightarrow> text_string" where
  "trim_start s = dropWhile is_whitespace s"

definition trim_end :: "text_string \<Rightarrow> text_string" where
  "trim_end s = rev (dropWhile is_whitespace (rev s))"

definition trim :: "text_string \<Rightarrow> text_string" where
  "trim s = trim_end (trim_start s)"

text \<open>\<open>s.split(c)\<close>: the pieces between the separators, always at least one.\<close>

fun split_on :: "nat \<Rightarrow> text_string \<Rightarrow> text_string list" where
  "split_on c [] = [[]]"
| "split_on c (x # xs) =
     (if x = c then [] # split_on c xs
      else case split_on c xs of [] \<Rightarrow> [[x]] | p # ps \<Rightarrow> (x # p) # ps)"

fun split_once :: "nat \<Rightarrow> text_string \<Rightarrow> (text_string \<times> text_string) option" where
  "split_once c [] = None"
| "split_once c (x # xs) =
     (if x = c then Some ([], xs)
      else map_option (\<lambda>(a, b). (x # a, b)) (split_once c xs))"

definition join_with :: "nat \<Rightarrow> text_string list \<Rightarrow> text_string" where
  "join_with c ps = (case ps of [] \<Rightarrow> [] | p # ps \<Rightarrow> p @ concat (map (\<lambda>q. c # q) ps))"

definition starts_with :: "text_string \<Rightarrow> text_string \<Rightarrow> bool" where
  "starts_with s p \<longleftrightarrow> take (length p) s = p"

definition strip_prefix :: "text_string \<Rightarrow> text_string \<Rightarrow> text_string option" where
  "strip_prefix s p = (if starts_with s p then Some (drop (length p) s) else None)"

text \<open>\<open>s.find(p)\<close> and \<open>s.contains(p)\<close>. Positions are counted in characters; the source only uses
  them to slice the same text.\<close>

fun str_find :: "text_string \<Rightarrow> text_string \<Rightarrow> nat option" where
  "str_find p [] = (if p = [] then Some 0 else None)"
| "str_find p (c # cs) = (if starts_with (c # cs) p then Some 0 else map_option Suc (str_find p cs))"

definition str_contains :: "text_string \<Rightarrow> text_string \<Rightarrow> bool" where
  "str_contains s p \<longleftrightarrow> str_find p s \<noteq> None"

lemma split_on_nonempty [simp]: "split_on c s \<noteq> []"
  by (induction s) (auto split: list.split)

lemma split_on_free: "c \<notin> set s \<Longrightarrow> split_on c s = [s]"
  by (induction s) auto

lemma split_on_append: "c \<notin> set p \<Longrightarrow> split_on c (p @ c # s) = p # split_on c s"
  by (induction p) auto

lemma split_on_join:
  "ps \<noteq> [] \<Longrightarrow> list_all (\<lambda>p. c \<notin> set p) ps \<Longrightarrow> split_on c (join_with c ps) = ps"
proof (induction ps)
  case (Cons p ps)
  then show ?case
    by (cases ps) (auto simp: join_with_def split_on_free split_on_append)
qed simp

lemma split_once_append: "c \<notin> set p \<Longrightarrow> split_once c (p @ c # s) = Some (p, s)"
  by (induction p) auto

lemma split_once_None: "split_once c s = None \<longleftrightarrow> c \<notin> set s"
  by (induction s) auto

lemma split_once_SomeD: "split_once c s = Some (a, b) \<Longrightarrow> s = a @ c # b \<and> c \<notin> set a"
  by (induction s arbitrary: a) (auto split: if_splits)

lemma trim_id: "s = [] \<or> \<not> is_whitespace (hd s) \<and> \<not> is_whitespace (last s) \<Longrightarrow> trim s = s"
proof -
  assume s: "s = [] \<or> \<not> is_whitespace (hd s) \<and> \<not> is_whitespace (last s)"
  show ?thesis
  proof (cases "s = []")
    case False
    with s have "dropWhile is_whitespace s = s" "dropWhile is_whitespace (rev s) = rev s"
      by (simp_all add: dropWhile_eq_self_iff hd_rev)
    then show ?thesis by (simp add: trim_def trim_start_def trim_end_def)
  qed (simp add: trim_def trim_start_def trim_end_def)
qed

lemma trim_no_whitespace: "list_all (\<lambda>c. \<not> is_whitespace c) s \<Longrightarrow> trim s = s"
  by (intro trim_id) (auto simp: list_all_iff)

section \<open>Decimal numbers\<close>

text \<open>\<open>str::parse\<close> of an unsigned type with largest value \<open>m\<close>: an optional plus sign and at least
  one digit; a value above \<open>m\<close> is an error.\<close>

definition digits_value :: "text_string \<Rightarrow> nat" where
  "digits_value s = foldl (\<lambda>n c. 10 * n + (c - 48)) 0 s"

definition parse_uint :: "nat \<Rightarrow> text_string \<Rightarrow> nat option" where
  "parse_uint m s =
     (let ds = (case s of c # r \<Rightarrow> if c = 43 then r else s | [] \<Rightarrow> [])
      in if ds \<noteq> [] \<and> list_all is_ascii_digit ds \<and> digits_value ds \<le> m
         then Some (digits_value ds) else None)"

fun show_nat :: "nat \<Rightarrow> text_string" where
  "show_nat n = (if n < 10 then [48 + n] else show_nat (n div 10) @ [48 + n mod 10])"

declare show_nat.simps [simp del]

lemma show_nat_digits: "list_all is_ascii_digit (show_nat n)" "show_nat n \<noteq> []"
proof (induction n rule: show_nat.induct)
  case (1 n)
  have "n mod 10 < 10" by simp
  then have "is_ascii_digit (48 + n mod 10)" by (simp add: is_ascii_digit_def)
  moreover have "is_ascii_digit (48 + n)" if "n < 10" using that by (simp add: is_ascii_digit_def)
  ultimately show "list_all is_ascii_digit (show_nat n)" "show_nat n \<noteq> []"
    using 1 by (auto simp: show_nat.simps [of n])
qed

lemma not_in_show_nat: "\<not> is_ascii_digit c \<Longrightarrow> c \<notin> set (show_nat n)"
  using show_nat_digits(1) [of n] by (auto simp: list_all_iff)

lemma digits_value_snoc: "digits_value (s @ [c]) = 10 * digits_value s + (c - 48)"
  by (simp add: digits_value_def)

lemma digits_value_show_nat [simp]: "digits_value (show_nat n) = n"
proof (induction n rule: show_nat.induct)
  case (1 n)
  then show ?case
    by (cases "n < 10") (simp_all add: show_nat.simps [of n] digits_value_snoc digits_value_def)
qed

lemma parse_uint_show_nat: "n \<le> m \<Longrightarrow> parse_uint m (show_nat n) = Some n"
proof -
  assume "n \<le> m"
  obtain c r where cr: "show_nat n = c # r" using show_nat_digits(2) by (metis list.exhaust)
  moreover have "c \<noteq> 43" using show_nat_digits(1) [of n] cr by (auto simp: is_ascii_digit_def)
  ultimately show ?thesis
    using \<open>n \<le> m\<close> show_nat_digits(1) [of n] digits_value_show_nat [of n]
    by (simp add: parse_uint_def del: digits_value_show_nat)
qed

lemma digit_not_whitespace: "is_ascii_digit c \<Longrightarrow> \<not> is_whitespace c"
  by (auto simp: is_ascii_digit_def is_whitespace_def)

lemma trim_show_nat [simp]: "trim (show_nat n) = show_nat n"
  using show_nat_digits(1) [of n] by (intro trim_no_whitespace) (auto simp: list_all_iff digit_not_whitespace)

section \<open>Lines and words\<close>

text \<open>\<open>str::lines\<close>, with the line read so far in reverse: a line ends with a newline, and a carriage
  return before it belongs to the ending; what is left at the end is a line unless it is empty.\<close>

fun lines_acc :: "text_string \<Rightarrow> text_string \<Rightarrow> text_string list" where
  "lines_acc acc [] = (if acc = [] then [] else [rev acc])"
| "lines_acc acc (c # s) =
     (if c = 10 then rev (case acc of b # r \<Rightarrow> if b = 13 then r else acc | [] \<Rightarrow> []) # lines_acc [] s
      else lines_acc (c # acc) s)"

definition str_lines :: "text_string \<Rightarrow> text_string list" where
  "str_lines s = lines_acc [] s"

definition crlf :: "text_string \<Rightarrow> text_string" where
  "crlf s = s @ [13, 10]"

lemma lines_acc_crlf: "10 \<notin> set l \<Longrightarrow> lines_acc acc (l @ 13 # 10 # s) = (rev acc @ l) # lines_acc [] s"
  by (induction l arbitrary: acc) simp_all

lemma str_lines_crlf: "10 \<notin> set l \<Longrightarrow> str_lines (crlf l @ s) = l # str_lines s"
  by (simp add: str_lines_def crlf_def lines_acc_crlf)

lemma str_lines_Nil [simp]: "str_lines [] = []"
  by (simp add: str_lines_def)

lemma str_lines_concat: "list_all (\<lambda>l. 10 \<notin> set l) ls \<Longrightarrow> str_lines (concat (map crlf ls)) = ls"
  by (induction ls) (simp_all add: str_lines_crlf)

lemma lines_acc_no_newline: "10 \<notin> set acc \<Longrightarrow> l \<in> set (lines_acc acc s) \<Longrightarrow> 10 \<notin> set l"
  by (induction acc s rule: lines_acc.induct) (auto split: if_splits list.splits)

lemma str_lines_no_newline: "l \<in> set (str_lines s) \<Longrightarrow> 10 \<notin> set l"
  using lines_acc_no_newline [of "[]" l s] by (simp add: str_lines_def)

text \<open>\<open>split_whitespace\<close>: the maximal runs of characters that are not whitespace.\<close>

fun words_acc :: "text_string \<Rightarrow> text_string \<Rightarrow> text_string list" where
  "words_acc acc [] = (if acc = [] then [] else [rev acc])"
| "words_acc acc (c # s) =
     (if is_whitespace c then (if acc = [] then [] else [rev acc]) @ words_acc [] s else words_acc (c # acc) s)"

definition split_whitespace :: "text_string \<Rightarrow> text_string list" where
  "split_whitespace s = words_acc [] s"

definition word_ok :: "text_string \<Rightarrow> bool" where
  "word_ok w \<longleftrightarrow> w \<noteq> [] \<and> list_all (\<lambda>c. \<not> is_whitespace c) w"

lemma words_acc_word:
  "list_all (\<lambda>c. \<not> is_whitespace c) w \<Longrightarrow> words_acc acc (w @ s) = words_acc (rev w @ acc) s"
  by (induction w arbitrary: acc) simp_all

lemma split_whitespace_word: "word_ok w \<Longrightarrow> split_whitespace w = [w]"
  using words_acc_word [of w "[]" "[]"] by (simp add: split_whitespace_def word_ok_def)

lemma split_whitespace_space: "word_ok w \<Longrightarrow> split_whitespace (w @ 32 # s) = w # split_whitespace s"
  using words_acc_word [of w "[]" "32 # s"] by (simp add: split_whitespace_def word_ok_def is_whitespace_def)

lemma words_acc_ok: "list_all (\<lambda>c. \<not> is_whitespace c) acc \<Longrightarrow> list_all word_ok (words_acc acc s)"
  by (induction acc s rule: words_acc.induct) (auto simp: word_ok_def)

lemma split_whitespace_ok: "list_all word_ok (split_whitespace s)"
  by (simp add: split_whitespace_def words_acc_ok)

lemma split_whitespace_join:
  "list_all word_ok ws \<Longrightarrow> split_whitespace (join_with 32 ws) = ws"
proof (induction ws rule: induct_list012)
  case (3 w v ws)
  then have "join_with 32 (w # v # ws) = w @ 32 # join_with 32 (v # ws)" by (simp add: join_with_def)
  with 3 show ?case by (simp add: split_whitespace_space)
qed (simp_all add: join_with_def split_whitespace_word, simp add: split_whitespace_def)

lemma word_ok_trim: "word_ok w \<Longrightarrow> trim w = w"
  by (simp add: word_ok_def trim_no_whitespace)

lemma word_ok_show_nat [simp]: "word_ok (show_nat n)"
  using show_nat_digits [of n] by (auto simp: word_ok_def list_all_iff digit_not_whitespace)

definition to_ascii_uppercase :: "text_string \<Rightarrow> text_string" where
  "to_ascii_uppercase s = map (\<lambda>c. if 97 \<le> c \<and> c \<le> 122 then c - 32 else c) s"

end
