(* ===== verification/Amr_Params.thy ===== *)
theory Amr_Params
  imports Amr_Rtp Rust_Text
begin

text \<open>
  \<^verbatim>\<open>amr_forward/params.rs\<close>: what one AMR leg negotiated, parsed from its SDP, and the rule that
  decides whether the frames of two legs may cross the bridge unchanged.
\<close>

section \<open>Reasons and policies\<close>

definition FRAME_MS :: u32 where
  "FRAME_MS = 20"

datatype reason = Disabled | Outbound | CarrierNotAmr | ClientNotAmr | FlavourDiffers | ModeSet
  | Feature | Ptime | Dtmf | AckTimeout | ReinviteFailed

fun reason_as_str :: "reason \<Rightarrow> text_string" where
  "reason_as_str Disabled = lit ''disabled''"
| "reason_as_str Outbound = lit ''outbound''"
| "reason_as_str CarrierNotAmr = lit ''carrier_not_amr''"
| "reason_as_str ClientNotAmr = lit ''client_not_amr''"
| "reason_as_str FlavourDiffers = lit ''flavour_differs''"
| "reason_as_str ModeSet = lit ''mode_set''"
| "reason_as_str Feature = lit ''feature''"
| "reason_as_str Ptime = lit ''ptime''"
| "reason_as_str Dtmf = lit ''dtmf''"
| "reason_as_str AckTimeout = lit ''ack_timeout''"
| "reason_as_str ReinviteFailed = lit ''reinvite_failed''"

definition reason_parse :: "text_string \<Rightarrow> reason option" where
  "reason_parse t =
     (if t = lit ''disabled'' then Some Disabled
      else if t = lit ''outbound'' then Some Outbound
      else if t = lit ''carrier_not_amr'' then Some CarrierNotAmr
      else if t = lit ''client_not_amr'' then Some ClientNotAmr
      else if t = lit ''flavour_differs'' then Some FlavourDiffers
      else if t = lit ''mode_set'' then Some ModeSet
      else if t = lit ''feature'' then Some Feature
      else if t = lit ''ptime'' then Some Ptime
      else if t = lit ''dtmf'' then Some Dtmf
      else if t = lit ''ack_timeout'' then Some AckTimeout
      else if t = lit ''reinvite_failed'' then Some ReinviteFailed
      else None)"

datatype mode_set_policy = Strict | Relax | RelaxDrop

fun policy_as_str :: "mode_set_policy \<Rightarrow> text_string" where
  "policy_as_str Strict = lit ''strict''"
| "policy_as_str Relax = lit ''relax''"
| "policy_as_str RelaxDrop = lit ''relax_drop''"

definition policy_parse :: "text_string \<Rightarrow> mode_set_policy option" where
  "policy_parse t =
     (if t = lit ''strict'' then Some Strict
      else if t = lit ''relax'' then Some Relax
      else if t = lit ''relax_drop'' then Some RelaxDrop
      else None)"

section \<open>Leg parameters\<close>

record amr_leg_params =
  al_flavour :: amr_kind
  al_octet_aligned :: bool
  al_mode_set :: "u16 option"
  al_frames_per_packet :: u8
  al_max_frames_per_packet :: u8
  al_crc :: bool
  al_robust_sorting :: bool
  al_interleaving :: bool
  al_redundancy :: bool
  al_payload_type :: u8
  al_dtmf_payload_type :: "u8 option"
  al_mode_set_policy :: mode_set_policy

record sdp_leg =
  sl_flavour :: amr_kind
  sl_fmtp :: text_string
  sl_payload_type :: u8
  sl_dtmf_payload_type :: "u8 option"
  sl_ptime_ms :: "u32 option"
  sl_maxptime_ms :: "u32 option"

definition mode_count :: "amr_kind \<Rightarrow> nat" where
  "mode_count k = (case k of Nb \<Rightarrow> 8 | Wb \<Rightarrow> 9)"

definition clock_rate :: "amr_kind \<Rightarrow> u32" where
  "clock_rate k = (case k of Nb \<Rightarrow> 8000 | Wb \<Rightarrow> 16000)"

definition kind_label :: "amr_kind \<Rightarrow> text_string" where
  "kind_label k = (case k of Nb \<Rightarrow> lit ''amr-nb'' | Wb \<Rightarrow> lit ''amr-wb'')"

definition all_modes :: "amr_kind \<Rightarrow> u16" where
  "all_modes k = ucast ((push_bit (mode_count k) 1 :: u32) - 1)"

definition frames_for :: "u32 \<Rightarrow> u8" where
  "frames_for ms = ucast (min (max (ms div FRAME_MS) 1) 255)"

fun mode_set_mask :: "amr_kind \<Rightarrow> text_string list \<Rightarrow> u16 \<Rightarrow> reason + u16" where
  "mode_set_mask flavour [] acc_mask = Inr acc_mask"
| "mode_set_mask flavour (part # parts) acc_mask =
     (case parse_uint (2 ^ 32 - 1) (trim part) of
        None \<Rightarrow> Inl Feature
      | Some mode \<Rightarrow>
          if mode \<ge> mode_count flavour then Inl Feature
          else mode_set_mask flavour parts (acc_mask OR push_bit mode 1))"

definition parse_mode_set :: "amr_kind \<Rightarrow> text_string \<Rightarrow> reason + u16" where
  "parse_mode_set flavour value =
     (case mode_set_mask flavour (split_on 44 value) 0 of
        Inl e \<Rightarrow> Inl e
      | Inr acc_mask \<Rightarrow> if acc_mask = 0 then Inl Feature else Inr acc_mask)"

definition positive_or_malformed :: "text_string \<Rightarrow> bool" where
  "positive_or_malformed value =
     (case parse_uint (2 ^ 32 - 1) value of None \<Rightarrow> True | Some d \<Rightarrow> d > 0)"

text \<open>The \<open>fmtp\<close> loop of \<open>from_sdp\<close>, over the parameters found so far.\<close>

fun fmtp_params :: "amr_kind \<Rightarrow> text_string list \<Rightarrow> amr_leg_params \<Rightarrow> reason + amr_leg_params" where
  "fmtp_params flavour [] leg = Inr leg"
| "fmtp_params flavour (param # params) leg =
     (case split_once 61 (trim param) of
        None \<Rightarrow> fmtp_params flavour params leg
      | Some (key, value) \<Rightarrow>
          let key = to_ascii_lowercase (trim key); value = trim value in
          if key = lit ''octet-align'' then
            fmtp_params flavour params (leg\<lparr>al_octet_aligned := (value = lit ''1'')\<rparr>)
          else if key = lit ''mode-set'' then
            (case parse_mode_set flavour value of
               Inl e \<Rightarrow> Inl e
             | Inr acc_mask \<Rightarrow> fmtp_params flavour params (leg\<lparr>al_mode_set := Some acc_mask\<rparr>))
          else if key = lit ''crc'' then
            fmtp_params flavour params (leg\<lparr>al_crc := (value = lit ''1'')\<rparr>)
          else if key = lit ''robust-sorting'' then
            fmtp_params flavour params (leg\<lparr>al_robust_sorting := (value = lit ''1'')\<rparr>)
          else if key = lit ''interleaving'' then
            fmtp_params flavour params (leg\<lparr>al_interleaving := positive_or_malformed value\<rparr>)
          else if key = lit ''max-red'' then
            fmtp_params flavour params (leg\<lparr>al_redundancy := positive_or_malformed value\<rparr>)
          else fmtp_params flavour params leg)"

definition from_sdp :: "sdp_leg \<Rightarrow> reason + amr_leg_params" where
  "from_sdp leg =
     (let frames = (case sl_ptime_ms leg of None \<Rightarrow> 1 | Some ms \<Rightarrow> frames_for ms);
          max_frames = max (case sl_maxptime_ms leg of None \<Rightarrow> frames | Some ms \<Rightarrow> frames_for ms) frames
      in fmtp_params (sl_flavour leg) (split_on 59 (sl_fmtp leg))
           \<lparr>al_flavour = sl_flavour leg, al_octet_aligned = False, al_mode_set = None,
            al_frames_per_packet = frames, al_max_frames_per_packet = max_frames,
            al_crc = False, al_robust_sorting = False, al_interleaving = False, al_redundancy = False,
            al_payload_type = sl_payload_type leg, al_dtmf_payload_type = sl_dtmf_payload_type leg,
            al_mode_set_policy = Strict\<rparr>)"

definition with_mode_set_policy :: "amr_leg_params \<Rightarrow> mode_set_policy \<Rightarrow> amr_leg_params" where
  "with_mode_set_policy leg policy = leg\<lparr>al_mode_set_policy := policy\<rparr>"

definition mode_guard :: "amr_leg_params \<Rightarrow> (u16 \<times> bool) option" where
  "mode_guard leg =
     (case (al_mode_set_policy leg, al_mode_set leg) of
        (Relax, Some m) \<Rightarrow> Some (m, False)
      | (RelaxDrop, Some m) \<Rightarrow> Some (m, True)
      | _ \<Rightarrow> None)"

definition leg_modes :: "amr_leg_params \<Rightarrow> u16" where
  "leg_modes leg = (case al_mode_set leg of Some m \<Rightarrow> m | None \<Rightarrow> all_modes (al_flavour leg))"

definition uses_feature :: "amr_leg_params \<Rightarrow> bool" where
  "uses_feature leg \<longleftrightarrow> al_crc leg \<or> al_robust_sorting leg \<or> al_interleaving leg \<or> al_redundancy leg"

definition compatible :: "amr_leg_params \<Rightarrow> amr_leg_params \<Rightarrow> reason + unit" where
  "compatible carrier client =
     (if al_flavour carrier \<noteq> al_flavour client then Inl FlavourDiffers
      else if uses_feature carrier \<or> uses_feature client then Inl Feature
      else let c = leg_modes carrier; k = leg_modes client;
               relaxed = (al_mode_set_policy carrier \<noteq> Strict) in
      if c AND NOT k \<noteq> 0 \<or> \<not> relaxed \<and> k AND NOT c \<noteq> 0 then Inl ModeSet
      else if al_frames_per_packet carrier > al_max_frames_per_packet client \<or>
              al_frames_per_packet client > al_max_frames_per_packet carrier then Inl Ptime
      else if (al_dtmf_payload_type carrier \<noteq> None) \<noteq> (al_dtmf_payload_type client \<noteq> None) then Inl Dtmf
      else Inr ())"

datatype media_path = Forwarded amr_kind bool bool | Transcoded reason

definition forwarded :: "amr_leg_params \<Rightarrow> amr_leg_params \<Rightarrow> media_path" where
  "forwarded carrier client =
     Forwarded (al_flavour carrier) (al_octet_aligned carrier) (al_octet_aligned client)"

fun record_string :: "media_path \<Rightarrow> text_string" where
  "record_string (Forwarded flavour carrier_oa client_oa) =
     (let tag = (\<lambda>oa. if oa then lit ''oa'' else lit ''be'')
      in lit ''forwarded:'' @ kind_label flavour @ lit '':'' @ tag carrier_oa @ lit ''/'' @ tag client_oa)"
| "record_string (Transcoded reason) = lit ''transcoded:'' @ reason_as_str reason"

fun log_fields :: "media_path \<Rightarrow> text_string" where
  "log_fields (Forwarded flavour carrier_oa client_oa) =
     (let packing = (\<lambda>oa. if oa then lit ''octet-aligned'' else lit ''bandwidth-efficient'')
      in lit ''path=forwarded flavour='' @ kind_label flavour @ lit '' carrier_packing='' @
         packing carrier_oa @ lit '' client_packing='' @ packing client_oa)"
| "log_fields (Transcoded reason) = lit ''path=transcoded reason='' @ reason_as_str reason"

section \<open>Lemmas\<close>

lemma reason_roundtrip: "reason_parse (reason_as_str r) = Some r"
  by (cases r) (simp_all add: reason_parse_def lit_def)

lemma and_not_eq_0: "a AND NOT b = 0 \<longleftrightarrow> (\<forall>n. bit a n \<longrightarrow> bit (b :: u16) n)"
  by (auto simp: bit_eq_iff bit_simps dest: bit_u16_less)

lemma mode_set_mask_bits:
  "list_all (\<lambda>m. m < mode_count flavour) ms \<Longrightarrow>
    \<exists>acc_mask. mode_set_mask flavour (map show_nat ms) acc_mask0 = Inr acc_mask \<and>
      (\<forall>n. bit acc_mask n \<longleftrightarrow> bit acc_mask0 n \<or> n \<in> set ms)"
proof (induction ms arbitrary: acc_mask0)
  case (Cons m ms)
  then have m: "m < mode_count flavour" by simp
  then have lt: "m < 16" by (cases flavour) (auto simp: mode_count_def)
  have "parse_uint (2 ^ 32 - 1) (trim (show_nat m)) = Some m"
    using lt parse_uint_show_nat [of m "2 ^ 32 - 1"] by simp
  with m Cons.IH [of "acc_mask0 OR push_bit m 1"] Cons.prems lt show ?case
    by (auto simp: bit_simps)
qed simp

lemma parse_mode_set_print:
  assumes "ms \<noteq> []" "list_all (\<lambda>m. m < mode_count flavour) ms"
  shows "\<exists>acc_mask. parse_mode_set flavour (join_with 44 (map show_nat ms)) = Inr acc_mask \<and>
    (\<forall>n. bit acc_mask n \<longleftrightarrow> n \<in> set ms)"
proof -
  have "list_all (\<lambda>p. 44 \<notin> set p) (map show_nat ms)"
    by (auto simp: list_all_iff is_ascii_digit_def not_in_show_nat)
  then have split: "split_on 44 (join_with 44 (map show_nat ms)) = map show_nat ms"
    using assms(1) by (intro split_on_join) auto
  from mode_set_mask_bits [OF assms(2), of 0] obtain acc_mask where
    acc_mask: "mode_set_mask flavour (map show_nat ms) 0 = Inr acc_mask" "\<And>n. bit acc_mask n \<longleftrightarrow> n \<in> set ms" by auto
  have "acc_mask \<noteq> 0" using acc_mask(2) [of "hd ms"] assms(1) by auto
  with split acc_mask show ?thesis by (auto simp: parse_mode_set_def)
qed

definition modes_of :: "amr_leg_params \<Rightarrow> nat set" where
  "modes_of leg = {n. bit (leg_modes leg) n}"

lemma compatible_Inr:
  "compatible carrier client = Inr () \<longleftrightarrow>
     al_flavour carrier = al_flavour client \<and>
     \<not> uses_feature carrier \<and> \<not> uses_feature client \<and>
     (if al_mode_set_policy carrier = Strict then modes_of carrier = modes_of client
      else modes_of carrier \<subseteq> modes_of client) \<and>
     al_frames_per_packet carrier \<le> al_max_frames_per_packet client \<and>
     al_frames_per_packet client \<le> al_max_frames_per_packet carrier \<and>
     (al_dtmf_payload_type carrier = None \<longleftrightarrow> al_dtmf_payload_type client = None)"
proof -
  have sub: "leg_modes a AND NOT (leg_modes b) \<noteq> 0 \<longleftrightarrow> \<not> modes_of a \<subseteq> modes_of b" for a b
    by (auto simp: and_not_eq_0 modes_of_def)
  have eq: "modes_of carrier = modes_of client \<longleftrightarrow>
      modes_of carrier \<subseteq> modes_of client \<and> modes_of client \<subseteq> modes_of carrier" by (rule set_eq_subset)
  show ?thesis
    unfolding compatible_def Let_def sub eq not_less [symmetric]
    by (cases "al_mode_set_policy carrier = Strict"; cases "al_dtmf_payload_type carrier";
        cases "al_dtmf_payload_type client"; simp; blast)
qed

section \<open>Properties\<close>

text \<open>Two legs are forwarded exactly when they speak the same flavour, use no packet-changing
  feature, may send each other the modes they send (the carrier's within the client's, and equal
  sets under the strict policy), fit each other's packet length and both or neither have a
  telephone-event type.\<close>

theorem compatible_iff:
  "compatible carrier client = Inr () \<longleftrightarrow>
     al_flavour carrier = al_flavour client \<and>
     \<not> uses_feature carrier \<and> \<not> uses_feature client \<and>
     (if al_mode_set_policy carrier = Strict then modes_of carrier = modes_of client
      else modes_of carrier \<subseteq> modes_of client) \<and>
     al_frames_per_packet carrier \<le> al_max_frames_per_packet client \<and>
     al_frames_per_packet client \<le> al_max_frames_per_packet carrier \<and>
     (al_dtmf_payload_type carrier = None \<longleftrightarrow> al_dtmf_payload_type client = None)"
  by (rule compatible_Inr)

text \<open>A mode set written as the comma-separated decimal list SDP uses parses to the mask of
  exactly those modes, for every nonempty list of modes the flavour has.\<close>

theorem parse_mode_set_exact:
  assumes "ms \<noteq> []" "list_all (\<lambda>m. m < mode_count flavour) ms"
  shows "\<exists>m. parse_mode_set flavour (join_with 44 (map show_nat ms)) = Inr m \<and> {n. bit m n} = set ms"
  using parse_mode_set_print [OF assms] by auto

theorem parse_mode_set_exact_witness:
  "\<exists>m. parse_mode_set Nb (join_with 44 (map show_nat [0, 2, 5, 7])) = Inr m \<and> {n. bit m n} = {0, 2, 5, 7}"
  using parse_mode_set_exact [of "[0, 2, 5, 7]" Nb] by (simp add: mode_count_def)

end
