(* ===== verification/Media_Stats.thy ===== *)
theory Media_Stats
  imports Bridge_Prelude
begin

text \<open>
  \<^verbatim>\<open>ims/media_stats.rs\<close>: the one-way-audio verdict, the send-side accounting of RTCP sender
  reports and the receive tracker that turns 16-bit sequence numbers into loss figures. Packet
  counters (\<open>u64\<close>, incremented once per packet) are \<open>nat\<close>. The jitter estimate is
  floating-point arithmetic over its own two fields and is not modelled.
\<close>

section \<open>Direction verdict\<close>

datatype direction_verdict = BothWays | SendOnly | ReceiveOnly | Neither

definition is_success :: "direction_verdict \<Rightarrow> bool" where
  "is_success v \<longleftrightarrow> v = BothWays"

definition DEFAULT_ONE_WAY_THRESHOLD_PERCENT :: u8 where
  "DEFAULT_ONE_WAY_THRESHOLD_PERCENT = 10"

text \<open>The products are computed in \<open>u128\<close> and cannot overflow, so they are taken in \<open>nat\<close>.\<close>

definition verdict :: "u64 \<Rightarrow> u64 \<Rightarrow> u8 \<Rightarrow> direction_verdict" where
  "verdict sent_samples received_samples threshold_percent =
     (let reference = max sent_samples received_samples in
      if reference = 0 then Neither
      else let ok = (\<lambda>n. unat n * 100 \<ge> unat reference * unat threshold_percent)
           in case (ok sent_samples, ok received_samples) of
                (True, True) \<Rightarrow> BothWays
              | (True, False) \<Rightarrow> SendOnly
              | (False, True) \<Rightarrow> ReceiveOnly
              | (False, False) \<Rightarrow> Neither)"

section \<open>Packet counters of a bridged call\<close>

record media_meter =
  mm_carrier_rx :: u64
  mm_pbx_rx :: u64

definition media_meter_new :: media_meter where
  "media_meter_new = \<lparr>mm_carrier_rx = 0, mm_pbx_rx = 0\<rparr>"

definition bump :: "u64 \<Rightarrow> u64" where
  "bump counter = counter + 1"

definition meter_verdict :: "media_meter \<Rightarrow> u8 \<Rightarrow> direction_verdict" where
  "meter_verdict m threshold_percent = verdict (mm_pbx_rx m) (mm_carrier_rx m) threshold_percent"

section \<open>Send accounting\<close>

record send_accounting =
  sa_packets :: u64
  sa_octets :: u64
  sa_ssrc :: u32
  sa_ssrc_known :: bool
  sa_last_rtp :: "(u32 \<times> instant) option"

record send_snapshot =
  ss_packets :: u64
  ss_octets :: u64
  ss_ssrc :: u32
  ss_last_rtp_timestamp :: u32
  ss_last_rtp_at :: instant

definition send_accounting_new :: send_accounting where
  "send_accounting_new =
     \<lparr>sa_packets = 0, sa_octets = 0, sa_ssrc = 0, sa_ssrc_known = False, sa_last_rtp = None\<rparr>"

definition record_sent :: "instant \<Rightarrow> send_accounting \<Rightarrow> u32 \<Rightarrow> u64 \<Rightarrow> u32 \<Rightarrow> send_accounting" where
  "record_sent now acc ssrc payload_octets rtp_timestamp =
     acc\<lparr>sa_packets := sa_packets acc + 1,
         sa_octets := sa_octets acc + payload_octets,
         sa_ssrc := ssrc,
         sa_ssrc_known := True,
         sa_last_rtp := Some (rtp_timestamp, now)\<rparr>"

definition snapshot :: "instant \<Rightarrow> send_accounting \<Rightarrow> send_snapshot option" where
  "snapshot now acc =
     (if \<not> sa_ssrc_known acc then None
      else let (last_rtp_timestamp, last_rtp_at) =
                 (case sa_last_rtp acc of Some x \<Rightarrow> x | None \<Rightarrow> (0, now))
           in Some \<lparr>ss_packets = sa_packets acc, ss_octets = sa_octets acc, ss_ssrc = sa_ssrc acc,
                    ss_last_rtp_timestamp = last_rtp_timestamp, ss_last_rtp_at = last_rtp_at\<rparr>)"

section \<open>Receive tracker\<close>

record receive_stats =
  received_packets :: nat
  lost_packets :: nat
  reordered_packets :: nat

record receive_tracker =
  rt_base_extended :: "nat option"
  rt_highest_extended :: nat
  rt_cycles :: nat
  rt_last_seq :: u16
  rt_received :: nat
  rt_reordered :: nat

definition receive_tracker_new :: receive_tracker where
  "receive_tracker_new =
     \<lparr>rt_base_extended = None, rt_highest_extended = 0, rt_cycles = 0, rt_last_seq = 0,
      rt_received = 0, rt_reordered = 0\<rparr>"

definition on_packet :: "receive_tracker \<Rightarrow> u16 \<Rightarrow> receive_tracker" where
  "on_packet t seq =
     (let t = (case rt_base_extended t of
            None \<Rightarrow> t\<lparr>rt_base_extended := Some (unat seq), rt_highest_extended := unat seq, rt_last_seq := seq\<rparr>
          | Some _ \<Rightarrow>
              let cycles = (if seq < rt_last_seq t \<and> rt_last_seq t - seq > 32767
                            then rt_cycles t + 1 else rt_cycles t);
                  extended = cycles * 65536 + unat seq;
                  t = t\<lparr>rt_cycles := cycles, rt_last_seq := seq\<rparr>
              in if extended > rt_highest_extended t then t\<lparr>rt_highest_extended := extended\<rparr>
                 else t\<lparr>rt_reordered := rt_reordered t + 1\<rparr>)
      in t\<lparr>rt_received := rt_received t + 1\<rparr>)"

definition stats :: "receive_tracker \<Rightarrow> receive_stats" where
  "stats t =
     (let expected = (case rt_base_extended t of
            None \<Rightarrow> 0 | Some base \<Rightarrow> (rt_highest_extended t - base) + 1)
      in \<lparr>received_packets = rt_received t,
          lost_packets = expected - rt_received t,
          reordered_packets = rt_reordered t\<rparr>)"

definition highest_extended_seq :: "receive_tracker \<Rightarrow> u32 option" where
  "highest_extended_seq t =
     map_option (\<lambda>_. word_of_nat (rt_highest_extended t)) (rt_base_extended t)"

section \<open>Loss from sequence numbers\<close>

text \<open>
  A stream is described by its packets' unwrapped positions; the wire carries each position
  modulo \<open>2 ^ 16\<close>. \<open>forward\<close> says that the positions only go forward, by at most half the
  sequence space.
\<close>

abbreviation wire_seq :: "nat \<Rightarrow> u16" where
  "wire_seq e \<equiv> word_of_nat e"

fun forward :: "nat \<Rightarrow> nat list \<Rightarrow> bool" where
  "forward e [] \<longleftrightarrow> True"
| "forward e (e' # es) \<longleftrightarrow> e < e' \<and> e' - e \<le> 32768 \<and> forward e' es"

definition track :: "receive_tracker \<Rightarrow> nat list \<Rightarrow> receive_tracker" where
  "track t es = foldl (\<lambda>t e. on_packet t (wire_seq e)) t es"

lemma unat_wire_seq: "unat (wire_seq e) = e mod 65536"
  by (simp add: unsigned_of_nat take_bit_eq_mod)

lemma unat_wire_diff:
  assumes "wire_seq e' < wire_seq e"
  shows "unat (wire_seq e - wire_seq e') = e mod 65536 - e' mod 65536"
proof -
  have "unat (wire_seq e') \<le> unat (wire_seq e)" using assms by (simp add: word_less_nat_alt)
  then show ?thesis by (simp add: unat_sub word_le_nat_alt unat_wire_seq)
qed

lemma wrap_test:
  assumes "e < e'" "e' - e \<le> 32768"
  shows "wire_seq e' < wire_seq e \<and> wire_seq e - wire_seq e' > 32767 \<longleftrightarrow> e' div 65536 = Suc (e div 65536)"
    and "e' div 65536 \<noteq> Suc (e div 65536) \<Longrightarrow> e' div 65536 = e div 65536"
proof -
  define q a q' a' where "q = e div 65536" and "a = e mod 65536" and "q' = e' div 65536" and "a' = e' mod 65536"
  have e: "e = q * 65536 + a" "e' = q' * 65536 + a'" "a < 65536" "a' < 65536"
    by (simp_all add: q_def a_def q'_def a'_def)
  then have step: "q' = q \<and> a < a' \<or> q' = Suc q \<and> a' < a \<and> 32767 < a - a'"
  proof -
    consider "q' < q" | "q' = q" | "q' = Suc q" | "Suc q < q'" by linarith
    then show ?thesis
    proof cases
      case 1
      then have "q' * 65536 + 65536 \<le> q * 65536" by simp
      with e assms(1) show ?thesis by linarith
    next
      case 4
      then have "q * 65536 + 131072 \<le> q' * 65536" by simp
      with e assms(2) show ?thesis by linarith
    qed (use e assms in auto)
  qed
  have less: "wire_seq e' < wire_seq e \<longleftrightarrow> a' < a"
    by (simp add: word_less_nat_alt unat_wire_seq a_def a'_def)
  have "wire_seq e - wire_seq e' > 32767 \<longleftrightarrow> 32767 < a - a'" if "a' < a"
    using that less unat_wire_diff [of e' e] by (simp add: word_less_nat_alt a_def a'_def)
  with step less show "wire_seq e' < wire_seq e \<and> wire_seq e - wire_seq e' > 32767 \<longleftrightarrow>
      e' div 65536 = Suc (e div 65536)"
    unfolding q_def [symmetric] q'_def [symmetric] by auto
  show "e' div 65536 \<noteq> Suc (e div 65536) \<Longrightarrow> e' div 65536 = e div 65536"
    using step unfolding q_def [symmetric] q'_def [symmetric] by auto
qed

lemma on_packet_forward:
  assumes "rt_base_extended t = Some b" "rt_highest_extended t = e" "rt_cycles t = e div 65536"
    "rt_last_seq t = wire_seq e" "e < e'" "e' - e \<le> 32768"
  shows "on_packet t (wire_seq e') = t\<lparr>rt_highest_extended := e', rt_cycles := e' div 65536,
    rt_last_seq := wire_seq e', rt_received := rt_received t + 1\<rparr>"
proof -
  have "(if wire_seq e' < rt_last_seq t \<and> rt_last_seq t - wire_seq e' > 32767
      then rt_cycles t + 1 else rt_cycles t) = e' div 65536"
    using wrap_test [OF assms(5,6)] assms(3,4) by auto
  moreover have "e' div 65536 * 65536 + unat (wire_seq e') = e'"
    by (simp add: unat_wire_seq)
  ultimately show ?thesis using assms(1,2,5) by (simp add: on_packet_def Let_def)
qed

lemma track_forward:
  assumes "rt_base_extended t = Some b" "rt_highest_extended t = e" "rt_cycles t = e div 65536"
    "rt_last_seq t = wire_seq e" "forward e es"
  shows "stats (track t es) = \<lparr>received_packets = rt_received t + length es,
      lost_packets = (last (e # es) - b + 1) - (rt_received t + length es),
      reordered_packets = rt_reordered t\<rparr>"
  using assms
proof (induction es arbitrary: t e)
  case (Cons e' es)
  let ?t = "on_packet t (wire_seq e')"
  from Cons.prems have t: "?t = t\<lparr>rt_highest_extended := e', rt_cycles := e' div 65536,
      rt_last_seq := wire_seq e', rt_received := rt_received t + 1\<rparr>"
    by (intro on_packet_forward) auto
  have "stats (track ?t es) = \<lparr>received_packets = rt_received ?t + length es,
      lost_packets = (last (e' # es) - b + 1) - (rt_received ?t + length es),
      reordered_packets = rt_reordered ?t\<rparr>"
    using Cons.prems by (intro Cons.IH) (simp_all add: t)
  then show ?case by (simp add: track_def t)
qed (simp add: track_def stats_def)

lemma track_new:
  assumes "e < 65536" "forward e es"
  shows "stats (track receive_tracker_new (e # es)) = \<lparr>received_packets = Suc (length es),
      lost_packets = (last (e # es) - e + 1) - Suc (length es), reordered_packets = 0\<rparr>"
proof -
  let ?t = "on_packet receive_tracker_new (wire_seq e)"
  have "stats (track ?t es) = \<lparr>received_packets = rt_received ?t + length es,
      lost_packets = (last (e # es) - e + 1) - (rt_received ?t + length es),
      reordered_packets = rt_reordered ?t\<rparr>"
    using assms by (intro track_forward)
      (simp_all add: on_packet_def receive_tracker_new_def unat_wire_seq)
  then show ?thesis
    by (simp add: track_def on_packet_def receive_tracker_new_def)
qed

lemma unat_max: "unat (max a b) = max (unat a) (unat (b :: 'a :: len word))"
  by (simp add: max_def word_le_nat_alt)

lemma verdict_both_ways:
  "verdict s r p = BothWays \<longleftrightarrow> max s r \<noteq> 0 \<and>
     max (unat s) (unat r) * unat p \<le> unat s * 100 \<and> max (unat s) (unat r) * unat p \<le> unat r * 100"
  by (simp add: verdict_def Let_def unat_max split: bool.split)

section \<open>Properties\<close>

text \<open>For any stream whose packets go forward by at most half the sequence space, however
  often the 16-bit sequence number wraps, the tracker reports exactly the packets missing
  between the first and the last one as lost, and none as reordered.\<close>

theorem receive_tracker_exact_loss:
  assumes "e < 65536" "forward e es"
  shows "stats (track receive_tracker_new (e # es)) = \<lparr>received_packets = Suc (length es),
      lost_packets = (last (e # es) - e + 1) - Suc (length es), reordered_packets = 0\<rparr>"
  using track_new [OF assms] .

theorem receive_tracker_exact_loss_witness:
  "stats (track receive_tracker_new [65534, 65535, 65537, 65540]) =
     \<lparr>received_packets = 4, lost_packets = 3, reordered_packets = 0\<rparr>"
  using receive_tracker_exact_loss [of 65534 "[65535, 65537, 65540]"] by simp

text \<open>A packet that is overtaken across the wrap of the sequence number breaks the tracker:
  when the four consecutive packets 65534 to 65537 all arrive, the second and third swapped, the
  tracker counts two further wraps and reports 65536 packets as lost and none as reordered.\<close>

theorem receive_tracker_reorder_at_wrap:
  "stats (track receive_tracker_new [65534, 65536, 65535, 65537]) =
     \<lparr>received_packets = 4, lost_packets = 65536, reordered_packets = 0\<rparr>"
  by (simp add: track_def stats_def on_packet_def receive_tracker_new_def word_less_nat_alt
      unsigned_of_nat take_bit_eq_mod)

text \<open>A call counts as successful exactly when something moved and the quieter direction
  carried at least the threshold share of the busier one, whatever the length of the call.\<close>

theorem verdict_both_ways_iff:
  "is_success (verdict s r p) \<longleftrightarrow>
     0 < max (unat s) (unat r) \<and>
     max (unat s) (unat r) * unat p \<le> min (unat s) (unat r) * 100"
proof -
  have "max s r \<noteq> 0 \<longleftrightarrow> 0 < max (unat s) (unat r)"
    unfolding word_unat_eq_iff unat_max by auto
  moreover have "m \<le> unat s * 100 \<and> m \<le> unat r * 100 \<longleftrightarrow> m \<le> min (unat s) (unat r) * 100" for m
    by (auto simp: min_def)
  ultimately show ?thesis
    unfolding is_success_def verdict_both_ways by simp
qed

end
