(* ===== verification/Rtcp.thy ===== *)
theory Rtcp
  imports Rtp Media_Stats Utf8_Text
begin

text \<open>
  \<^verbatim>\<open>ims/rtcp.rs\<close>: RTCP on the carrier leg. The wire format (report blocks, SR, RR, SDES, BYE and
  the compound parser), the source guard, the port binding with its fallbacks, the relay hooks
  and the report thread, one iteration at a time. Two figures the source computes in
  floating-point (the reported loss fraction and jitter) and the conversion of a reported jitter
  to a duration are arguments. The cadence of reports is floating-point and random; whether a
  report is due is an argument of the iteration.
\<close>

section \<open>Wire format\<close>

definition RTCP_VERSION :: u8 where "RTCP_VERSION = 2"
definition PT_SR :: u8 where "PT_SR = 200"
definition PT_RR :: u8 where "PT_RR = 201"
definition PT_SDES :: u8 where "PT_SDES = 202"
definition PT_BYE :: u8 where "PT_BYE = 203"
definition SDES_CNAME :: u8 where "SDES_CNAME = 1"
definition SDES_END :: u8 where "SDES_END = 0"

text \<open>\<open>cumulative_lost\<close> is an \<open>i32\<close>; the word holds its two's complement.\<close>

record report_block =
  rb_ssrc :: u32
  rb_fraction_lost :: u8
  rb_cumulative_lost :: u32
  rb_highest_seq :: u32
  rb_jitter :: u32
  rb_lsr :: u32
  rb_dlsr :: u32

definition rtcp_header :: "u8 \<Rightarrow> u8 \<Rightarrow> nat \<Rightarrow> bytes" where
  "rtcp_header pt cnt body_len =
     (let length_words = word_of_nat ((4 + body_len) div 4 - 1) :: u16
      in [push_bit 6 RTCP_VERSION OR (cnt AND 0x1f), pt] @ to_be16 length_words)"

definition push_report_block :: "report_block \<Rightarrow> bytes" where
  "push_report_block b =
     (let cumulative = rb_cumulative_lost b AND 0x00FFFFFF;
          word = push_bit 24 (ucast (rb_fraction_lost b)) OR cumulative
      in to_be32 (rb_ssrc b) @ to_be32 word @ to_be32 (rb_highest_seq b) @ to_be32 (rb_jitter b) @
         to_be32 (rb_lsr b) @ to_be32 (rb_dlsr b))"

definition be32_at :: "bytes \<Rightarrow> nat \<Rightarrow> u32" where
  "be32_at data pos = from_be32 (data ! pos) (data ! (pos + 1)) (data ! (pos + 2)) (data ! (pos + 3))"

definition parse_report_block :: "bytes \<Rightarrow> report_block option" where
  "parse_report_block data =
     (if length data < 24 then None
      else let ssrc = be32_at data 0;
               word = be32_at data 4;
               fraction_lost = ucast (drop_bit 24 word);
               raw = word AND 0x00FFFFFF;
               cumulative_lost = (if raw AND 0x00800000 \<noteq> 0 then raw - 0x01000000 else raw)
           in Some \<lparr>rb_ssrc = ssrc, rb_fraction_lost = fraction_lost,
                    rb_cumulative_lost = cumulative_lost, rb_highest_seq = be32_at data 8,
                    rb_jitter = be32_at data 12, rb_lsr = be32_at data 16, rb_dlsr = be32_at data 20\<rparr>)"

abbreviation opt_block :: "report_block option \<Rightarrow> bytes" where
  "opt_block b \<equiv> (case b of Some b \<Rightarrow> push_report_block b | None \<Rightarrow> [])"

definition build_sender_report ::
  "u32 \<Rightarrow> u64 \<Rightarrow> u32 \<Rightarrow> u32 \<Rightarrow> u32 \<Rightarrow> report_block option \<Rightarrow> bytes" where
  "build_sender_report ssrc ntp_timestamp rtp_timestamp packet_count octet_count report_block =
     (let body = to_be32 ssrc @ to_be32 (ucast (drop_bit 32 ntp_timestamp)) @ to_be32 (ucast ntp_timestamp) @
                 to_be32 rtp_timestamp @ to_be32 packet_count @ to_be32 octet_count @ opt_block report_block;
          rc = (case report_block of Some _ \<Rightarrow> 1 | None \<Rightarrow> 0)
      in rtcp_header PT_SR rc (length body) @ body)"

definition build_receiver_report :: "u32 \<Rightarrow> report_block option \<Rightarrow> bytes" where
  "build_receiver_report ssrc report_block =
     (let body = to_be32 ssrc @ opt_block report_block;
          rc = (case report_block of Some _ \<Rightarrow> 1 | None \<Rightarrow> 0)
      in rtcp_header PT_RR rc (length body) @ body)"

function pad4 :: "bytes \<Rightarrow> bytes" where
  "pad4 chunk = (if length chunk mod 4 \<noteq> 0 then pad4 (chunk @ [0]) else chunk)"
  by auto
termination
  by (relation "measure (\<lambda>chunk. (4 - length chunk mod 4) mod 4)") (auto simp: mod_Suc)

declare pad4.simps [simp del]

definition build_source_description :: "u32 \<Rightarrow> text_string \<Rightarrow> bytes" where
  "build_source_description ssrc cname =
     (let cname_bytes = as_bytes cname;
          len = min (length cname_bytes) 255;
          chunk = pad4 (to_be32 ssrc @ [SDES_CNAME, word_of_nat len] @ take len cname_bytes @ [SDES_END])
      in rtcp_header PT_SDES 1 (length chunk) @ chunk)"

definition build_bye :: "u32 \<Rightarrow> bytes" where
  "build_bye ssrc = (let body = to_be32 ssrc in rtcp_header PT_BYE 1 (length body) @ body)"

definition compound :: "bytes list \<Rightarrow> bytes" where
  "compound parts = concat parts"

datatype rtcp_item =
    SenderReport u32 u64 u32 u32 u32 "report_block list"
  | ReceiverReport u32 "report_block list"
  | SourceDescription u32 "text_string option"
  | Bye "u32 list"
  | Unknown u8

fun parse_blocks :: "nat \<Rightarrow> bytes \<Rightarrow> nat \<Rightarrow> report_block list" where
  "parse_blocks 0 body b_off = []"
| "parse_blocks (Suc n) body b_off =
     (case Option.bind (get_range body b_off (length body)) parse_report_block of
        Some b \<Rightarrow> b # parse_blocks n body (b_off + 24)
      | None \<Rightarrow> [])"

function sdes_items :: "bytes \<Rightarrow> nat \<Rightarrow> text_string option \<Rightarrow> nat \<times> text_string option" where
  "sdes_items body item_off cname =
     (if item_off \<ge> length body then (item_off, cname)
      else let item_type = body ! item_off in
      if item_type = SDES_END then (item_off + 1, cname)
      else if item_off + 1 \<ge> length body then (item_off, cname)
      else let item_len = unat (body ! (item_off + 1));
               text_start = item_off + 2;
               text_end = text_start + item_len
           in if text_end > length body then (item_off, cname)
      else let cname = (if item_type = SDES_CNAME
                        then Some (utf8_lossy (take item_len (drop text_start body))) else cname)
           in sdes_items body text_end cname)"
  by auto
termination
  by (relation "measure (\<lambda>(body, item_off, cname). length body - item_off)") auto

declare sdes_items.simps [simp del]

fun sdes_chunks :: "nat \<Rightarrow> bytes \<Rightarrow> nat \<Rightarrow> rtcp_item list" where
  "sdes_chunks 0 body b_off = []"
| "sdes_chunks (Suc n) body b_off =
     (if b_off + 4 > length body then []
      else let ssrc = be32_at body b_off;
               (item_off, cname) = sdes_items body (b_off + 4) None
           in SourceDescription ssrc cname # sdes_chunks n body ((item_off + 3) div 4 * 4))"

fun bye_ssrcs :: "nat \<Rightarrow> bytes \<Rightarrow> nat \<Rightarrow> u32 list" where
  "bye_ssrcs 0 body b_off = []"
| "bye_ssrcs (Suc n) body b_off =
     (if b_off + 4 > length body then [] else be32_at body b_off # bye_ssrcs n body (b_off + 4))"

text \<open>One member of a compound packet; \<open>None\<close> ends the walk.\<close>

definition parse_member :: "u8 \<Rightarrow> nat \<Rightarrow> bytes \<Rightarrow> rtcp_item list option" where
  "parse_member pt cnt body =
     (if pt = PT_SR then
        (if length body < 24 then None
         else let ntp_msw = be32_at body 4; ntp_lsw = be32_at body 8
              in Some [SenderReport (be32_at body 0)
                   (push_bit 32 (ucast ntp_msw) OR ucast ntp_lsw)
                   (be32_at body 12) (be32_at body 16) (be32_at body 20) (parse_blocks cnt body 24)])
      else if pt = PT_RR then
        (if length body < 4 then None
         else Some [ReceiverReport (be32_at body 0) (parse_blocks cnt body 4)])
      else if pt = PT_SDES then Some (sdes_chunks cnt body 0)
      else if pt = PT_BYE then Some [Bye (bye_ssrcs cnt body 0)]
      else Some [Unknown pt])"

function parse_compound_from :: "bytes \<Rightarrow> nat \<Rightarrow> rtcp_item list" where
  "parse_compound_from data pos =
     (if pos + 4 > length data then []
      else let byte0 = data ! pos in
      if drop_bit 6 byte0 \<noteq> RTCP_VERSION then []
      else let cnt = unat (byte0 AND 0x1f);
               pt = data ! (pos + 1);
               length_words = unat (from_be16 (data ! (pos + 2)) (data ! (pos + 3)));
               packet_len = (length_words + 1) * 4
           in if pos + packet_len > length data then []
      else let body = take (packet_len - 4) (drop (pos + 4) data)
           in case parse_member pt cnt body of
                None \<Rightarrow> []
              | Some items \<Rightarrow> items @ parse_compound_from data (pos + packet_len))"
  by auto
termination
  by (relation "measure (\<lambda>(data, pos). length data - pos)") auto

declare parse_compound_from.simps [simp del]

definition parse_compound :: "bytes \<Rightarrow> rtcp_item list" where
  "parse_compound data = parse_compound_from data 0"

section \<open>Round-trip time\<close>

definition ntp_middle_32 :: "u64 \<Rightarrow> u32" where
  "ntp_middle_32 ntp_timestamp = ucast (drop_bit 16 ntp_timestamp)"

text \<open>
  \<open>frac / 65536\<close> is exact in \<open>f64\<close> for a 16-bit \<open>frac\<close>, and \<open>Duration::from_secs_f64\<close> rounds
  to the nearest nanosecond, ties to even.
\<close>

definition round_ties_even :: "nat \<Rightarrow> nat \<Rightarrow> nat" where
  "round_ties_even n d =
     (let q = n div d; r = n mod d in
      if 2 * r < d \<or> 2 * r = d \<and> even q then q else q + 1)"

definition derive_round_trip :: "u32 \<Rightarrow> u32 \<Rightarrow> u32 \<Rightarrow> duration option" where
  "derive_round_trip now_ntp_mid lsr dlsr =
     (if lsr = 0 then None
      else let rtt_units = now_ntp_mid - lsr - dlsr in
      if rtt_units > push_bit 31 1 then None
      else let seconds = unat (drop_bit 16 rtt_units);
               frac = unat (rtt_units AND 0xFFFF)
           in Some (secs seconds + round_ties_even (frac * 1000000000) 65536))"

section \<open>Source guard\<close>

definition REJECTION_LOG_INTERVAL :: duration where
  "REJECTION_LOG_INTERVAL = secs 5"

record 'ip source_guard =
  sg_peer_ip :: 'ip
  sg_last_rejected_logged_at :: "instant option"
  sg_rejected_count :: nat

definition source_guard_new :: "'ip \<Rightarrow> 'ip source_guard" where
  "source_guard_new peer_ip =
     \<lparr>sg_peer_ip = peer_ip, sg_last_rejected_logged_at = None, sg_rejected_count = 0\<rparr>"

text \<open>The result, and whether the rejection is logged.\<close>

definition accept :: "instant \<Rightarrow> 'ip source_guard \<Rightarrow> 'ip \<times> u16 \<Rightarrow> 'ip source_guard \<times> bool \<times> bool" where
  "accept now g from =
     (if fst from = sg_peer_ip g then (g, True, False)
      else let g = g\<lparr>sg_rejected_count := sg_rejected_count g + 1\<rparr>;
               should_log = (case sg_last_rejected_logged_at g of
                   Some at \<Rightarrow> now - at \<ge> REJECTION_LOG_INTERVAL | None \<Rightarrow> True)
           in (if should_log then g\<lparr>sg_last_rejected_logged_at := Some now\<rparr> else g, False, should_log))"

section \<open>Ports\<close>

definition MAX_BIND_ATTEMPTS :: nat where
  "MAX_BIND_ATTEMPTS = 10"

datatype bind_error = Rtp_bind_failed | Rtp_local_addr_failed | Rtcp_local_addr_failed

text \<open>
  The operating system's answers are arguments: \<open>ephemeral k\<close> is the outcome of the \<open>k\<close>th bind to
  port 0 (\<open>None\<close>: refused, \<open>Some None\<close>: bound but without a local address), \<open>fixed k p\<close> whether
  the bind to port \<open>p\<close> in attempt \<open>k\<close> succeeds. A bound pair is its RTP port and, if there is one,
  its RTCP port with the \<open>declared\<close> flag.
\<close>

type_synonym rtp_rtcp_bind = "u16 \<times> (u16 \<times> bool) option"

definition bind_ephemeral :: "(nat \<Rightarrow> u16 option option) \<Rightarrow> nat \<Rightarrow> bind_error + u16" where
  "bind_ephemeral ephemeral k =
     (case ephemeral k of
        None \<Rightarrow> Inl Rtp_bind_failed
      | Some None \<Rightarrow> Inl Rtp_local_addr_failed
      | Some (Some port) \<Rightarrow> Inr port)"

fun bind_attempts :: "(nat \<Rightarrow> u16 option option) \<Rightarrow> (nat \<Rightarrow> u16 \<Rightarrow> bool) \<Rightarrow> nat \<Rightarrow> nat \<Rightarrow> u16 option \<Rightarrow>
    bind_error + (rtp_rtcp_bind option \<times> u16 option)" where
  "bind_attempts ephemeral fixed k 0 last_port = Inr (None, last_port)"
| "bind_attempts ephemeral fixed k (Suc n) last_port =
     (case bind_ephemeral ephemeral k of
        Inl e \<Rightarrow> Inl e
      | Inr rtp_port \<Rightarrow>
          if rtp_port mod 2 \<noteq> 0 then bind_attempts ephemeral fixed (k + 1) n (Some rtp_port)
          else if fixed k (rtp_port + 1) then Inr (Some (rtp_port, Some (rtp_port + 1, False)), last_port)
          else bind_attempts ephemeral fixed (k + 1) n (Some rtp_port))"

definition bind_rtp_and_rtcp ::
  "(nat \<Rightarrow> u16 option option) \<Rightarrow> (nat \<Rightarrow> u16 \<Rightarrow> bool) \<Rightarrow> bind_error + rtp_rtcp_bind" where
  "bind_rtp_and_rtcp ephemeral fixed =
     (case bind_attempts ephemeral fixed 0 MAX_BIND_ATTEMPTS None of
        Inl e \<Rightarrow> Inl e
      | Inr (Some pair, _) \<Rightarrow> Inr pair
      | Inr (None, last_port) \<Rightarrow>
          (case (case last_port of Some p \<Rightarrow> Inr p | None \<Rightarrow> bind_ephemeral ephemeral MAX_BIND_ATTEMPTS) of
             Inl e \<Rightarrow> Inl e
           | Inr rtp_port \<Rightarrow>
               (case ephemeral (MAX_BIND_ATTEMPTS + 1) of
                  None \<Rightarrow> Inr (rtp_port, None)
                | Some None \<Rightarrow> Inl Rtcp_local_addr_failed
                | Some (Some rtcp_port) \<Rightarrow> Inr (rtp_port, Some (rtcp_port, True)))))"

section \<open>Far-end quality and relay wiring\<close>

record far_end_quality =
  fe_reports_received :: nat
  fe_fraction_lost :: "u8 option"
  fe_cumulative_lost :: "u32 option"
  fe_jitter :: "duration option"
  fe_round_trip :: "duration option"

definition far_end_default :: far_end_quality where
  "far_end_default = \<lparr>fe_reports_received = 0, fe_fraction_lost = None, fe_cumulative_lost = None,
     fe_jitter = None, fe_round_trip = None\<rparr>"

text \<open>\<open>jitter_secs\<close> is the floating-point conversion of a jitter in clock units.\<close>

definition far_end_record :: "(u32 \<Rightarrow> u32 \<Rightarrow> duration) \<Rightarrow> far_end_quality \<Rightarrow> report_block \<Rightarrow> u32 \<Rightarrow> u64 \<Rightarrow>
    far_end_quality" where
  "far_end_record jitter_secs q block clock_rate now_ntp =
     q\<lparr>fe_reports_received := fe_reports_received q + 1,
       fe_fraction_lost := Some (rb_fraction_lost block),
       fe_cumulative_lost := Some (rb_cumulative_lost block),
       fe_jitter := (if clock_rate > 0 then Some (jitter_secs (rb_jitter block) clock_rate) else fe_jitter q),
       fe_round_trip := derive_round_trip (ntp_middle_32 now_ntp) (rb_lsr block) (rb_dlsr block)\<rparr>"

record carrier_rtcp_bundle =
  cb_send :: send_accounting
  cb_receive :: receive_tracker
  cb_receive_ssrc :: "u32 option"
  cb_far_end :: far_end_quality

definition bundle_new :: carrier_rtcp_bundle where
  "bundle_new = \<lparr>cb_send = send_accounting_new, cb_receive = receive_tracker_new,
     cb_receive_ssrc = None, cb_far_end = far_end_default\<rparr>"

text \<open>A role refers to the shared parts of the call's bundle.\<close>

datatype relay_rtcp_role = Sender_role | Receiver_role

definition note_rtcp :: "instant \<Rightarrow> relay_rtcp_role option \<Rightarrow> parsed_packet \<Rightarrow> carrier_rtcp_bundle \<Rightarrow>
    carrier_rtcp_bundle" where
  "note_rtcp now role pkt bundle =
     (case role of
        Some Receiver_role \<Rightarrow>
          bundle\<lparr>cb_receive := on_packet (cb_receive bundle) (pp_seq pkt),
                 cb_receive_ssrc := Some (pp_ssrc pkt)\<rparr>
      | Some Sender_role \<Rightarrow>
          bundle\<lparr>cb_send := record_sent now (cb_send bundle) (pp_ssrc pkt)
                   (word_of_nat (length (pp_payload pkt))) (pp_timestamp pkt)\<rparr>
      | None \<Rightarrow> bundle)"

section \<open>The report thread\<close>

definition NTP_UNIX_EPOCH_DIFF_SECS :: nat where
  "NTP_UNIX_EPOCH_DIFF_SECS = 2208988800"

text \<open>The wall clock as nanoseconds since the Unix epoch.\<close>

definition ntp_of :: "nat \<Rightarrow> u64" where
  "ntp_of since_unix =
     (let seconds = word_of_nat (since_unix div 1000000000 + NTP_UNIX_EPOCH_DIFF_SECS) :: u64;
          frac = word_of_nat ((since_unix mod 1000000000) * 2 ^ 32 div 1000000000) :: u64
      in push_bit 32 seconds OR frac)"

definition blocks_of :: "rtcp_item \<Rightarrow> report_block list" where
  "blocks_of item =
     (case item of
        SenderReport _ _ _ _ _ blocks \<Rightarrow> blocks
      | ReceiverReport _ blocks \<Rightarrow> blocks
      | _ \<Rightarrow> [])"

definition handle_inbound_item :: "(u32 \<Rightarrow> u32 \<Rightarrow> duration) \<Rightarrow> instant \<Rightarrow> nat \<Rightarrow> rtcp_item \<Rightarrow> u32 \<Rightarrow>
    carrier_rtcp_bundle \<Rightarrow> carrier_rtcp_bundle" where
  "handle_inbound_item jitter_secs now wall item clock_rate bundle =
     (case snapshot now (cb_send bundle) of
        None \<Rightarrow> bundle
      | Some snap \<Rightarrow>
          foldl (\<lambda>bundle b.
             if rb_ssrc b = ss_ssrc snap
             then bundle\<lparr>cb_far_end := far_end_record jitter_secs (cb_far_end bundle) b clock_rate (ntp_of wall)\<rparr>
             else bundle) bundle (blocks_of item))"

text \<open>\<open>figures\<close> gives the two floating-point figures of the report: loss fraction and jitter.\<close>

definition receive_block :: "(receive_tracker \<Rightarrow> u8 \<times> u32) \<Rightarrow> carrier_rtcp_bundle \<Rightarrow> report_block option" where
  "receive_block figures bundle =
     map_option (\<lambda>ssrc. \<lparr>rb_ssrc = ssrc,
         rb_fraction_lost = fst (figures (cb_receive bundle)),
         rb_cumulative_lost = word_of_nat (lost_packets (stats (cb_receive bundle))),
         rb_highest_seq = (case highest_extended_seq (cb_receive bundle) of Some s \<Rightarrow> s | None \<Rightarrow> 0),
         rb_jitter = snd (figures (cb_receive bundle)), rb_lsr = 0, rb_dlsr = 0\<rparr>)
       (cb_receive_ssrc bundle)"

definition build_report :: "(receive_tracker \<Rightarrow> u8 \<times> u32) \<Rightarrow> instant \<Rightarrow> nat \<Rightarrow> carrier_rtcp_bundle \<Rightarrow>
    text_string \<Rightarrow> bytes" where
  "build_report figures now wall bundle cname =
     (let rb = receive_block figures bundle in
      case (snapshot now (cb_send bundle), rb) of
        (None, None) \<Rightarrow> []
      | (None, Some b) \<Rightarrow>
          compound [build_receiver_report (rb_ssrc b) rb, build_source_description (rb_ssrc b) cname]
      | (Some snap, _) \<Rightarrow>
          compound [build_sender_report (ss_ssrc snap) (ntp_of wall) (ss_last_rtp_timestamp snap)
                      (ucast (ss_packets snap)) (ucast (ss_octets snap)) rb,
                    build_source_description (ss_ssrc snap) cname])"

text \<open>One iteration of the loop: a datagram or none, then a report if one is due. What is sent
  comes second.\<close>

definition report_iteration ::
  "(u32 \<Rightarrow> u32 \<Rightarrow> duration) \<Rightarrow> (receive_tracker \<Rightarrow> u8 \<times> u32) \<Rightarrow> u32 \<Rightarrow> text_string \<Rightarrow> instant \<Rightarrow> nat \<Rightarrow>
    (('ip \<times> u16) \<times> bytes) option \<Rightarrow> bool \<Rightarrow> 'ip source_guard \<times> carrier_rtcp_bundle \<Rightarrow>
    ('ip source_guard \<times> carrier_rtcp_bundle) \<times> bytes option" where
  "report_iteration jitter_secs figures clock_rate cname now wall datagram due st =
     (let (guard, bundle) = st;
          (guard, bundle) = (case datagram of
              None \<Rightarrow> (guard, bundle)
            | Some (from, buf) \<Rightarrow>
                let (guard, trusted, logged) = accept now guard from
                in (guard, if trusted
                           then foldl (\<lambda>bundle item. handle_inbound_item jitter_secs now wall item clock_rate bundle)
                                  bundle (parse_compound buf)
                           else bundle))
      in ((guard, bundle), if due then Some (build_report figures now wall bundle cname) else None))"

definition report_finish :: "instant \<Rightarrow> carrier_rtcp_bundle \<Rightarrow> bytes option" where
  "report_finish now bundle = map_option (\<lambda>snap. build_bye (ss_ssrc snap)) (snapshot now (cb_send bundle))"

section \<open>Compound packets as RFC 3550 draws them\<close>

text \<open>The loss count of a block must be a 24-bit signed number to survive the wire.\<close>

definition wf_block :: "report_block \<Rightarrow> bool" where
  "wf_block b \<longleftrightarrow> signed_take_bit 23 (rb_cumulative_lost b) = rb_cumulative_lost b"

datatype wire_member = Member rtcp_item | Other u8 u8 bytes

abbreviation framed :: "u8 \<Rightarrow> u8 \<Rightarrow> bytes \<Rightarrow> bytes" where
  "framed pt cnt body \<equiv> rtcp_header pt cnt (length body) @ body"

fun enc_member :: "wire_member \<Rightarrow> bytes" where
  "enc_member (Member (SenderReport ssrc ntp rtp pc oc bs)) =
     framed PT_SR (word_of_nat (length bs))
       (to_be32 ssrc @ to_be32 (ucast (drop_bit 32 ntp)) @ to_be32 (ucast ntp) @
        to_be32 rtp @ to_be32 pc @ to_be32 oc @ concat (map push_report_block bs))"
| "enc_member (Member (ReceiverReport ssrc bs)) =
     framed PT_RR (word_of_nat (length bs)) (to_be32 ssrc @ concat (map push_report_block bs))"
| "enc_member (Member (SourceDescription ssrc cname)) =
     (case cname of Some s \<Rightarrow> build_source_description ssrc s | None \<Rightarrow> [])"
| "enc_member (Member (Bye ssrcs)) = framed PT_BYE (word_of_nat (length ssrcs)) (concat (map to_be32 ssrcs))"
| "enc_member (Member (Unknown pt)) = []"
| "enc_member (Other pt cnt body) = framed pt cnt body"

fun wf_member :: "wire_member \<Rightarrow> bool" where
  "wf_member (Member (SenderReport ssrc ntp rtp pc oc bs)) \<longleftrightarrow> length bs < 32 \<and> list_all wf_block bs"
| "wf_member (Member (ReceiverReport ssrc bs)) \<longleftrightarrow> length bs < 32 \<and> list_all wf_block bs"
| "wf_member (Member (SourceDescription ssrc cname)) \<longleftrightarrow>
     (case cname of Some s \<Rightarrow> list_all is_scalar s \<and> length (as_bytes s) < 256 | None \<Rightarrow> False)"
| "wf_member (Member (Bye ssrcs)) \<longleftrightarrow> length ssrcs < 32"
| "wf_member (Member (Unknown pt)) \<longleftrightarrow> False"
| "wf_member (Other pt cnt body) \<longleftrightarrow>
     pt \<notin> {PT_SR, PT_RR, PT_SDES, PT_BYE} \<and> cnt < 32 \<and> length body mod 4 = 0 \<and> length body \<le> 4 * 65535"

fun item_of :: "wire_member \<Rightarrow> rtcp_item" where
  "item_of (Member it) = it"
| "item_of (Other pt cnt body) = Unknown pt"

lemma be32_at_0 [wire_simps]: "be32_at (to_be32 w @ rest) 0 = w"
  by (simp add: be32_at_def to_be32_def)

lemma be32_at_skip [wire_simps]: "4 \<le> n \<Longrightarrow> be32_at (to_be32 w @ rest) n = be32_at rest (n - 4)"
proof -
  assume "4 \<le> n"
  then obtain k where "n = 4 + k" using le_Suc_ex by blast
  then show ?thesis by (simp add: be32_at_def nth_append add.commute)
qed

lemma be32_at_length: "be32_at (pre @ to_be32 w @ rest) (length pre) = w"
  by (simp add: be32_at_def nth_append to_be32_def)

lemma length_push_report_block [simp]: "length (push_report_block b) = 24"
  by (simp add: push_report_block_def Let_def)

lemma length_concat_blocks [simp]: "length (concat (map push_report_block bs)) = 24 * length bs"
  by (induction bs) simp_all

lemma u32_and_mask: "(v :: u32) AND 0x00FFFFFF = take_bit 24 v"
  by (simp add: take_bit_eq_mask mask_eq_exp_minus_1)

lemma cumulative_sign:
  assumes "signed_take_bit 23 c = (c :: u32)"
  shows "(if take_bit 24 c AND 0x00800000 \<noteq> 0 then take_bit 24 c - 0x01000000 else take_bit 24 c) = c"
proof -
  have bit23: "take_bit 24 c AND 0x00800000 \<noteq> 0 \<longleftrightarrow> bit c 23"
    using and_exp_eq_0_iff_not_bit [of "take_bit 24 c" 23] by (simp add: bit_take_bit_iff)
  have high: "bit c n \<longleftrightarrow> bit c 23" if "23 \<le> n" "n < 32" for n
    using that arg_cong [OF assms, of "\<lambda>w. bit w n"] by (simp add: bit_signed_take_bit_iff min_def split: if_splits)
  show ?thesis
  proof (cases "bit c 23")
    case True
    let ?m = "push_bit 24 (mask 8) :: u32"
    have m: "bit ?m n \<longleftrightarrow> 24 \<le> n \<and> n < 32" for n
      by (auto simp only: bit_push_bit_iff bit_mask_iff possible_bit_word) auto
    have "take_bit 24 c - 0x01000000 = take_bit 24 c + ?m"
      by (simp add: mask_eq_exp_minus_1)
    also have "\<dots> = take_bit 24 c OR ?m"
      by (rule disjunctive_add_eq_or, rule bit_word_eqI) (simp only: bit_and_iff bit_take_bit_iff m, simp)
    also have "\<dots> = c"
    proof (rule bit_word_eqI)
      fix n assume "n < LENGTH(32)"
      then show "bit (take_bit 24 c OR ?m) n = bit c n"
        using high [of n] True by (cases "n < 24") (simp_all only: bit_or_iff bit_take_bit_iff m, auto)
    qed
    finally show ?thesis using True bit23 by simp
  next
    case False
    have "take_bit 24 c = c"
    proof (rule bit_word_eqI)
      fix n assume "n < LENGTH(32)"
      then show "bit (take_bit 24 c) n = bit c n"
        using high [of n] False by (cases "n < 24") (auto simp: bit_take_bit_iff)
    qed
    with False bit23 show ?thesis by simp
  qed
qed

lemma parse_push_report_block:
  assumes "wf_block b"
  shows "parse_report_block (push_report_block b @ rest) = Some b"
proof -
  let ?w = "push_bit 24 (ucast (rb_fraction_lost b)) OR take_bit 24 (rb_cumulative_lost b) :: u32"
  have "ucast (drop_bit 24 ?w) = rb_fraction_lost b"
    by (rule bit_word_eqI) (auto simp: bit_simps)
  moreover have "take_bit 24 ?w = take_bit 24 (rb_cumulative_lost b)"
    by (rule bit_word_eqI) (auto simp: bit_simps)
  ultimately show ?thesis
    using cumulative_sign [OF assms [unfolded wf_block_def]]
    by (auto simp: parse_report_block_def push_report_block_def Let_def u32_and_mask wire_simps
        split: if_splits)
qed

lemma parse_blocks_concat:
  "list_all wf_block bs \<Longrightarrow>
    parse_blocks (length bs) (pre @ concat (map push_report_block bs)) (length pre) = bs"
proof (induction bs arbitrary: pre)
  case (Cons b bs)
  have "get_range (pre @ concat (map push_report_block (b # bs))) (length pre)
      (length (pre @ concat (map push_report_block (b # bs)))) =
      Some (push_report_block b @ concat (map push_report_block bs))"
    by (simp add: get_range_def)
  with Cons.IH [of "pre @ push_report_block b"] Cons.prems show ?case
    by (simp add: parse_push_report_block)
qed simp

lemma bye_ssrcs_concat:
  "bye_ssrcs (length ws) (pre @ concat (map to_be32 ws)) (length pre) = ws"
proof (induction ws arbitrary: pre)
  case (Cons w ws)
  from Cons.IH [of "pre @ to_be32 w"] show ?case
    by (simp add: be32_at_length)
qed simp

lemma pad4_eq: "pad4 chunk = chunk @ replicate ((4 - length chunk mod 4) mod 4) 0"
proof (induction chunk rule: pad4.induct)
  case (1 chunk)
  show ?case
  proof (cases "length chunk mod 4 = 0")
    case False
    have "length chunk mod 4 < 4" by simp
    with False have "(4 - length chunk mod 4) mod 4 = Suc ((4 - Suc (length chunk) mod 4) mod 4)"
      by (auto simp: mod_Suc)
    with 1 False show ?thesis by (subst pad4.simps) (simp add: replicate_append_same)
  qed (subst pad4.simps, simp)
qed

lemma length_pad4: "length (pad4 chunk) mod 4 = 0"
proof -
  have "length (pad4 chunk) mod 4 = (length chunk mod 4 + (4 - length chunk mod 4) mod 4) mod 4"
    by (simp add: pad4_eq mod_add_left_eq)
  also have "\<dots> = 0"
  proof -
    have "length chunk mod 4 < 4" by simp
    then show ?thesis by (cases "length chunk mod 4 = 0") auto
  qed
  finally show ?thesis .
qed

lemma u8_and_31: "(v :: u8) AND 0x1f = take_bit 5 v"
  by (simp add: take_bit_eq_mask mask_eq_exp_minus_1)

lemma length_rtcp_header [simp]: "length (rtcp_header pt cnt n) = 4"
  by (simp add: rtcp_header_def Let_def)

lemma header_octet:
  assumes "cnt < 32"
  shows "drop_bit 6 (push_bit 6 RTCP_VERSION OR (cnt AND 0x1f)) = RTCP_VERSION"
    and "(push_bit 6 RTCP_VERSION OR (cnt AND 0x1f)) AND 0x1f = cnt"
proof -
  have cnt: "take_bit 5 cnt = cnt" using u8_take_bit_iff [of 5 cnt] assms by simp
  show "drop_bit 6 (push_bit 6 RTCP_VERSION OR (cnt AND 0x1f)) = RTCP_VERSION"
    unfolding u8_and_31 RTCP_VERSION_def
    by (rule bit_word_eqI) (auto simp: bit_simps dest!: bit_index_u8)
  have "take_bit 5 (push_bit 6 RTCP_VERSION OR take_bit 5 cnt) = take_bit 5 cnt"
    by (rule bit_word_eqI) (auto simp: bit_simps)
  then show "(push_bit 6 RTCP_VERSION OR (cnt AND 0x1f)) AND 0x1f = cnt"
    unfolding u8_and_31 cnt .
qed

lemma rtcp_header_octets:
  assumes "cnt < 32" "length body mod 4 = 0" "length body \<le> 4 * 65535"
  obtains h a b where "rtcp_header pt cnt (length body) = [h, pt, a, b]"
    "drop_bit 6 h = RTCP_VERSION" "h AND 0x1f = cnt" "unat (from_be16 a b) * 4 = length body"
proof -
  define w where "w = (word_of_nat (length body div 4) :: u16)"
  have "(4 + length body) div 4 - 1 = length body div 4" by simp
  then have hd: "rtcp_header pt cnt (length body) =
      [push_bit 6 RTCP_VERSION OR (cnt AND 0x1f), pt, ucast (drop_bit 8 w), ucast w]"
    by (simp only: rtcp_header_def Let_def w_def to_be16_def append_Cons append_Nil)
  have "length body div 4 < 2 ^ 16" using assms(3) by simp
  then have "unat w = length body div 4" unfolding w_def by (rule unat_word_of_nat_u16)
  then have "unat (from_be16 (ucast (drop_bit 8 w)) (ucast w)) * 4 = length body"
    using assms(2) by (simp add: mod_eq_0_iff_dvd)
  with hd header_octet [OF assms(1)] show thesis by (rule_tac that) auto
qed

lemma parse_compound_framed:
  assumes "cnt < 32" "length body mod 4 = 0" "length body \<le> 4 * 65535"
  shows "parse_compound_from (pre @ framed pt cnt body @ rest) (length pre) =
    (case parse_member pt (unat cnt) body of
       None \<Rightarrow> []
     | Some items \<Rightarrow> items @ parse_compound_from (pre @ framed pt cnt body @ rest)
         (length pre + (4 + length body)))"
proof -
  obtain h a b where h: "rtcp_header pt cnt (length body) = [h, pt, a, b]"
    "drop_bit 6 h = RTCP_VERSION" "h AND 0x1f = cnt" "unat (from_be16 a b) * 4 = length body"
    using rtcp_header_octets [OF assms] .
  show ?thesis unfolding h(1)
    by (subst parse_compound_from.simps) (simp add: nth_append Let_def h(2,3) h(4) split: option.split)
qed

lemma parse_compound_cut:
  assumes "cnt < 32" "length body mod 4 = 0" "length body \<le> 4 * 65535" "n < 4 + length body"
  shows "parse_compound_from (pre @ take n (framed pt cnt body)) (length pre) = []"
proof (cases "n < 4")
  case True
  then show ?thesis by (subst parse_compound_from.simps) simp
next
  case False
  obtain h a b where h: "rtcp_header pt cnt (length body) = [h, pt, a, b]"
    "drop_bit 6 h = RTCP_VERSION" "h AND 0x1f = cnt" "unat (from_be16 a b) * 4 = length body"
    using rtcp_header_octets [OF assms(1-3)] .
  obtain k where k: "n = 4 + k" "k < length body" using False assms(4) le_Suc_ex by force
  have "pre @ take n (framed pt cnt body) = pre @ [h, pt, a, b] @ take k body"
    by (simp add: h(1) k eval_nat_numeral)
  then show ?thesis using k
    by (subst parse_compound_from.simps) (simp add: nth_append Let_def h(2,3) h(4))
qed

lemma sdes_items_cname:
  assumes "length bs < 256"
  shows "sdes_items (to_be32 w @ [SDES_CNAME, word_of_nat (length bs)] @ bs @ [SDES_END] @ zeros) 4 None =
    (7 + length bs, Some (utf8_lossy bs))"
proof -
  let ?body = "to_be32 w @ [SDES_CNAME, word_of_nat (length bs)] @ bs @ [SDES_END] @ zeros"
  have "sdes_items ?body 4 None = sdes_items ?body (6 + length bs) (Some (utf8_lossy bs))"
    using assms
    by (subst sdes_items.simps)
       (simp add: nth_append SDES_CNAME_def SDES_END_def Let_def unat_word_of_nat_u8)
  also have "\<dots> = (7 + length bs, Some (utf8_lossy bs))"
    by (subst sdes_items.simps) (simp add: nth_append SDES_END_def)
  finally show ?thesis .
qed

lemma be32_at_be32 [wire_simps]: "be32_at (to_be32 w) 0 = w"
  using be32_at_0 [of w "[]"] by simp

lemma parse_sdes:
  assumes "list_all is_scalar t" "length (as_bytes t) < 256"
  shows "\<exists>body. build_source_description w t = framed PT_SDES 1 body \<and> length body mod 4 = 0 \<and>
    length body \<le> 4 * 65535 \<and> parse_member PT_SDES 1 body = Some [SourceDescription w (Some t)]"
proof -
  define chunk where "chunk = to_be32 w @ [SDES_CNAME, word_of_nat (length (as_bytes t))] @
    as_bytes t @ [SDES_END]"
  define zeros where "zeros = replicate ((4 - length chunk mod 4) mod 4) (0 :: u8)"
  have pad: "pad4 chunk = to_be32 w @ [SDES_CNAME, word_of_nat (length (as_bytes t))] @
      as_bytes t @ [SDES_END] @ zeros"
    by (simp add: pad4_eq zeros_def chunk_def)
  have "build_source_description w t = framed PT_SDES 1 (pad4 chunk)"
    using assms(2) by (simp add: build_source_description_def Let_def chunk_def min_absorb1)
  moreover have "length (pad4 chunk) mod 4 = 0"
    by (rule length_pad4)
  moreover have "length (pad4 chunk) \<le> 4 * 65535"
    using assms(2) by (simp add: pad4_eq chunk_def)
  moreover have "parse_member PT_SDES 1 (pad4 chunk) = Some [SourceDescription w (Some t)]"
    unfolding pad using sdes_items_cname [OF assms(2), of w zeros] assms(1)
    by (simp add: parse_member_def PT_SDES_def PT_SR_def PT_RR_def wire_simps utf8_lossy_as_bytes)
  ultimately show ?thesis by (intro exI [of _ "pad4 chunk"] conjI)
qed

lemma unat_small_count: "n < 32 \<Longrightarrow> unat (word_of_nat n :: u8) = n" "n < 32 \<Longrightarrow> (word_of_nat n :: u8) < 32"
proof -
  assume n: "n < 32"
  then show u: "unat (word_of_nat n :: u8) = n" by (intro unat_word_of_nat_u8) simp
  show "(word_of_nat n :: u8) < 32" unfolding word_less_nat_alt u using n by simp
qed

lemma ntp_halves: "push_bit 32 (ucast (ucast (drop_bit 32 n) :: u32)) OR ucast (ucast n :: u32) = (n :: u64)"
proof (rule bit_word_eqI)
  fix i assume "i < LENGTH(64)"
  then show "bit (push_bit 32 (ucast (ucast (drop_bit 32 n) :: u32)) OR ucast (ucast n :: u32) :: u64) i = bit n i"
    by (cases "i < 32") (auto simp: bit_or_iff bit_push_bit_iff bit_unsigned_iff bit_drop_bit_eq not_less)
qed

lemma length_concat_words [simp]: "length (concat (map to_be32 ws)) = 4 * length ws"
  by (induction ws) simp_all

lemma enc_member_shape:
  assumes "wf_member m"
  shows "\<exists>pt cnt body. enc_member m = framed pt cnt body \<and> cnt < 32 \<and> length body mod 4 = 0 \<and>
    length body \<le> 4 * 65535 \<and> parse_member pt (unat cnt) body = Some [item_of m]"
proof (cases m)
  case (Other pt cnt body)
  with assms show ?thesis
    by (intro exI [of _ pt] exI [of _ cnt] exI [of _ body]) (simp add: parse_member_def)
next
  case (Member it)
  show ?thesis
  proof (cases it)
    case (SenderReport ssrc ntp rtp pc oc bs)
    let ?pre = "to_be32 ssrc @ to_be32 (ucast (drop_bit 32 ntp)) @ to_be32 (ucast ntp) @
        to_be32 rtp @ to_be32 pc @ to_be32 oc"
    let ?body = "?pre @ concat (map push_report_block bs)"
    have bs: "length bs < 32" "list_all wf_block bs" using assms Member SenderReport by auto
    have "parse_blocks (length bs) ?body 24 = bs"
      using parse_blocks_concat [OF bs(2), of ?pre] by simp
    then have "parse_member PT_SR (length bs) ?body = Some [it]"
      by (simp add: parse_member_def SenderReport wire_simps ntp_halves Let_def)
    with bs(1) Member SenderReport show ?thesis
      by (intro exI [of _ PT_SR] exI [of _ "word_of_nat (length bs)"] exI [of _ ?body])
         (simp add: unat_small_count)
  next
    case (ReceiverReport ssrc bs)
    let ?body = "to_be32 ssrc @ concat (map push_report_block bs)"
    have bs: "length bs < 32" "list_all wf_block bs" using assms Member ReceiverReport by auto
    have "parse_blocks (length bs) ?body 4 = bs"
      using parse_blocks_concat [OF bs(2), of "to_be32 ssrc"] by simp
    then have "parse_member PT_RR (length bs) ?body = Some [it]"
      by (simp add: parse_member_def ReceiverReport wire_simps PT_RR_def PT_SR_def)
    with bs(1) Member ReceiverReport show ?thesis
      by (intro exI [of _ PT_RR] exI [of _ "word_of_nat (length bs)"] exI [of _ ?body])
         (simp add: unat_small_count)
  next
    case (SourceDescription ssrc cname)
    with assms Member obtain t where t: "cname = Some t" "list_all is_scalar t" "length (as_bytes t) < 256"
      by (cases cname) auto
    from parse_sdes [OF t(2,3), of ssrc] obtain body where
      "build_source_description ssrc t = framed PT_SDES 1 body" "length body mod 4 = 0"
      "length body \<le> 4 * 65535" "parse_member PT_SDES 1 body = Some [SourceDescription ssrc (Some t)]" by auto
    with t(1) Member SourceDescription show ?thesis
      by (intro exI [of _ PT_SDES] exI [of _ 1] exI [of _ body]) simp
  next
    case (Bye ws)
    have ws: "length ws < 32" using assms Member Bye by simp
    have "parse_member PT_BYE (length ws) (concat (map to_be32 ws)) = Some [it]"
      using bye_ssrcs_concat [of ws "[]"]
      by (simp add: parse_member_def Bye PT_BYE_def PT_SR_def PT_RR_def PT_SDES_def)
    with ws Member Bye show ?thesis
      by (intro exI [of _ PT_BYE] exI [of _ "word_of_nat (length ws)"] exI [of _ "concat (map to_be32 ws)"])
         (simp add: unat_small_count)
  qed (use assms Member in simp)
qed

lemma parse_enc_members:
  "list_all wf_member ms \<Longrightarrow>
    parse_compound_from (pre @ concat (map enc_member ms) @ rest) (length pre) =
      map item_of ms @ parse_compound_from (pre @ concat (map enc_member ms) @ rest)
        (length pre + length (concat (map enc_member ms)))"
proof (induction ms arbitrary: pre)
  case (Cons m ms)
  from Cons.prems enc_member_shape [of m] obtain pt cnt body where
    m: "enc_member m = framed pt cnt body" "cnt < 32" "length body mod 4 = 0"
    "length body \<le> 4 * 65535" "parse_member pt (unat cnt) body = Some [item_of m]" by auto
  have "pre @ concat (map enc_member (m # ms)) @ rest =
      pre @ framed pt cnt body @ concat (map enc_member ms) @ rest" by (simp add: m(1))
  with Cons.IH [of "pre @ framed pt cnt body"] Cons.prems m
    parse_compound_framed [OF m(2-4), of pre pt "concat (map enc_member ms) @ rest"]
  show ?case by (simp add: add.assoc)
qed simp

lemma parse_compound_members_cut:
  assumes "list_all wf_member ms" "wf_member m" "n < length (enc_member m)"
  shows "parse_compound (compound (map enc_member ms) @ take n (enc_member m)) = map item_of ms"
proof -
  from enc_member_shape [OF assms(2)] obtain pt cnt body where
    m: "enc_member m = framed pt cnt body" "cnt < 32" "length body mod 4 = 0" "length body \<le> 4 * 65535"
    by auto
  have "parse_compound_from (concat (map enc_member ms) @ take n (enc_member m))
      (length (concat (map enc_member ms))) = []"
    unfolding m(1) using assms(3) m by (intro parse_compound_cut) simp_all
  with parse_enc_members [OF assms(1), of "[]" "take n (enc_member m)"] show ?thesis
    by (simp add: parse_compound_def compound_def)
qed

section \<open>Reports this bridge sends\<close>

lemma build_reports_enc:
  "build_sender_report ssrc ntp rtp pc oc rb =
     enc_member (Member (SenderReport ssrc ntp rtp pc oc (case rb of Some b \<Rightarrow> [b] | None \<Rightarrow> [])))"
  "build_receiver_report ssrc rb =
     enc_member (Member (ReceiverReport ssrc (case rb of Some b \<Rightarrow> [b] | None \<Rightarrow> [])))"
  by (simp_all add: build_sender_report_def build_receiver_report_def Let_def split: option.split)

lemma signed_take_bit_small:
  assumes "n < 2 ^ 23"
  shows "signed_take_bit 23 (word_of_nat n :: u32) = word_of_nat n"
proof (rule bit_word_eqI)
  fix i assume "i < LENGTH(32)"
  have "\<not> bit (word_of_nat n :: u32) j" if "23 \<le> j" for j
    using not_bit_nat [OF assms that] by (auto simp: bit_simps)
  with \<open>i < LENGTH(32)\<close>
  show "bit (signed_take_bit 23 (word_of_nat n :: u32)) i = bit (word_of_nat n :: u32) i"
    by (cases "i \<le> 23") (auto simp: bit_signed_take_bit_iff min_def)
qed

lemma parse_build_report:
  assumes "list_all is_scalar cname" "length (as_bytes cname) < 256"
    "lost_packets (stats (cb_receive bundle)) < 2 ^ 23"
  shows "parse_compound (build_report figures now wall bundle cname) =
    (case (snapshot now (cb_send bundle), receive_block figures bundle) of
       (None, None) \<Rightarrow> []
     | (None, Some b) \<Rightarrow> [ReceiverReport (rb_ssrc b) [b], SourceDescription (rb_ssrc b) (Some cname)]
     | (Some snap, rb) \<Rightarrow>
         [SenderReport (ss_ssrc snap) (ntp_of wall) (ss_last_rtp_timestamp snap)
            (ucast (ss_packets snap)) (ucast (ss_octets snap)) (case rb of Some b \<Rightarrow> [b] | None \<Rightarrow> []),
          SourceDescription (ss_ssrc snap) (Some cname)])"
proof -
  let ?rb = "receive_block figures bundle"
  have wf: "list_all wf_block (case ?rb of Some b \<Rightarrow> [b] | None \<Rightarrow> [])"
    using signed_take_bit_small [OF assms(3)]
    by (auto simp: receive_block_def wf_block_def split: option.split)
  have two: "parse_compound (compound [enc_member m, build_source_description w cname]) =
      [item_of m, SourceDescription w (Some cname)]" if "wf_member m" for m w
    using parse_compound_members_cut [of "[m, Member (SourceDescription w (Some cname))]"
        "Other 0 0 []" 0] that assms(1,2) by (simp add: PT_SR_def PT_RR_def PT_SDES_def PT_BYE_def)
  have none: "parse_compound [] = []"
    by (simp add: parse_compound_def parse_compound_from.simps)
  show ?thesis
  proof (cases "snapshot now (cb_send bundle)")
    case None
    then show ?thesis using wf none two [of "Member (ReceiverReport (rb_ssrc (the ?rb)) [the ?rb])"]
      by (cases ?rb) (simp_all add: build_report_def Let_def build_reports_enc)
  next
    case (Some snap)
    then show ?thesis using wf
        two [of "Member (SenderReport (ss_ssrc snap) (ntp_of wall) (ss_last_rtp_timestamp snap)
            (ucast (ss_packets snap)) (ucast (ss_octets snap)) (case ?rb of Some b \<Rightarrow> [b] | None \<Rightarrow> []))"]
      by (cases ?rb) (simp_all add: build_report_def Let_def build_reports_enc)
  qed
qed

section \<open>Port pairs\<close>

lemma bind_attempts_pair:
  "bind_attempts ephemeral fixed k n last_port = Inr (Some pair, l) \<Longrightarrow>
    \<exists>rtp. pair = (rtp, Some (rtp + 1, False)) \<and> even rtp"
  by (induction ephemeral fixed k n last_port rule: bind_attempts.induct)
     (auto split: sum.splits if_splits)

lemma bind_attempts_exhausted:
  "bind_attempts ephemeral fixed k n last_port = Inr (None, l) \<Longrightarrow> i < n \<Longrightarrow>
    \<exists>p. ephemeral (k + i) = Some (Some p) \<and> (p mod 2 \<noteq> 0 \<or> \<not> fixed (k + i) (p + 1))"
proof (induction ephemeral fixed k n last_port arbitrary: i rule: bind_attempts.induct)
  case (2 ephemeral fixed k n last_port)
  from 2(3) obtain p where p: "bind_ephemeral ephemeral k = Inr p"
    by (auto split: sum.splits)
  then have e: "ephemeral k = Some (Some p)"
    by (auto simp: bind_ephemeral_def split: option.splits)
  from 2(3) p have c: "p mod 2 \<noteq> 0 \<or> \<not> fixed k (p + 1)"
    and rest: "bind_attempts ephemeral fixed (k + 1) n (Some p) = Inr (None, l)"
    by (auto split: if_splits)
  show ?case
  proof (cases i)
    case 0
    with e c show ?thesis by simp
  next
    case (Suc j)
    with 2(4) have "j < n" by simp
    from c 2(1) [OF p _ rest this] 2(2) [OF p _ _ rest this] Suc show ?thesis
      by (cases "p mod 2 = 0") auto
  qed
qed simp

lemma even_u16: "even (p :: u16) \<longleftrightarrow> even (unat p)"
proof -
  have "p mod 2 = 0 \<longleftrightarrow> unat p mod 2 = 0" by (simp only: word_unat_eq_iff unat_mod unsigned_0) simp
  then show ?thesis by (simp only: even_iff_mod_2_eq_zero)
qed

lemma even_port_succ: "even (p :: u16) \<Longrightarrow> unat (p + 1) = unat p + 1"
proof -
  assume "even p"
  then have "even (unat p)" by (simp only: even_u16)
  then have "unat p \<noteq> 65535" by auto
  moreover have "unat p < 2 ^ 16" using unsigned_less [of p] by simp
  ultimately show ?thesis by (simp add: unat_word_ariths)
qed

section \<open>Properties\<close>

text \<open>A compound packet of sender reports, receiver reports, source descriptions and byes (with
  any number of blocks the count field can hold) and members of foreign types parses to exactly
  its members in order, and whatever is cut off at the end costs only the member it cuts.\<close>

theorem parse_compound_members:
  assumes "list_all wf_member ms" "wf_member m" "n < length (enc_member m)"
  shows "parse_compound (compound (map enc_member ms) @ take n (enc_member m)) = map item_of ms"
  using parse_compound_members_cut [OF assms] .

theorem parse_compound_members_witness:
  "parse_compound (compound (map enc_member [Other 207 3 [1, 2, 3, 4], Member (Bye [7, 9])]) @
     take 5 (enc_member (Member (Bye [1])))) = [Unknown 207, Bye [7, 9]]"
  using parse_compound_members [of "[Other 207 3 [1, 2, 3, 4], Member (Bye [7, 9])]" "Member (Bye [1])" 5]
  by (simp add: PT_SR_def PT_RR_def PT_SDES_def PT_BYE_def)

text \<open>What the report thread sends is a well-formed compound packet: it parses to a sender report
  once anything was sent and to a receiver report before, with the block about the carrier's
  source if one is known, followed by the source description of the same source.\<close>

theorem build_report_parses:
  assumes "list_all is_scalar cname" "length (as_bytes cname) < 256"
    "lost_packets (stats (cb_receive bundle)) < 2 ^ 23"
  shows "parse_compound (build_report figures now wall bundle cname) =
    (case (snapshot now (cb_send bundle), receive_block figures bundle) of
       (None, None) \<Rightarrow> []
     | (None, Some b) \<Rightarrow> [ReceiverReport (rb_ssrc b) [b], SourceDescription (rb_ssrc b) (Some cname)]
     | (Some snap, rb) \<Rightarrow>
         [SenderReport (ss_ssrc snap) (ntp_of wall) (ss_last_rtp_timestamp snap)
            (ucast (ss_packets snap)) (ucast (ss_octets snap)) (case rb of Some b \<Rightarrow> [b] | None \<Rightarrow> []),
          SourceDescription (ss_ssrc snap) (Some cname)])"
  using parse_build_report [OF assms] .

theorem build_report_parses_witness:
  "parse_compound (build_report (\<lambda>_. (0, 0)) 0 0
      (bundle_new\<lparr>cb_receive_ssrc := Some 5\<rparr>) [0x61, 0x40, 0x62]) =
     [ReceiverReport 5 [\<lparr>rb_ssrc = 5, rb_fraction_lost = 0, rb_cumulative_lost = 0, rb_highest_seq = 0,
        rb_jitter = 0, rb_lsr = 0, rb_dlsr = 0\<rparr>], SourceDescription 5 (Some [0x61, 0x40, 0x62])]"
  using build_report_parses [of "[0x61, 0x40, 0x62]" "bundle_new\<lparr>cb_receive_ssrc := Some 5\<rparr>"
      "\<lambda>_. (0, 0)" 0 0]
  by (simp add: is_scalar_def as_bytes_def utf8_char_def bundle_new_def receive_tracker_new_def stats_def
      receive_block_def highest_extended_seq_def snapshot_def send_accounting_new_def)

text \<open>Port binding either gives the conventional pair (an even RTP port and the next port for
  RTCP, without wrapping, which needs no attribute in the answer), or it declares a port after
  every one of the ten attempts got an odd port or a taken neighbour.\<close>

theorem bind_rtp_and_rtcp_pair:
  assumes "bind_rtp_and_rtcp ephemeral fixed = Inr (rtp, Some (rtcp, declared))"
  shows "if declared
    then \<forall>k<MAX_BIND_ATTEMPTS. \<exists>p. ephemeral k = Some (Some p) \<and> (p mod 2 \<noteq> 0 \<or> \<not> fixed k (p + 1))
    else even (unat rtp) \<and> unat rtcp = unat rtp + 1"
proof (cases declared)
  case True
  with assms obtain l where "bind_attempts ephemeral fixed 0 MAX_BIND_ATTEMPTS None = Inr (None, l)"
    by (auto simp: bind_rtp_and_rtcp_def split: sum.splits option.splits dest: bind_attempts_pair)
  from bind_attempts_exhausted [OF this] True show ?thesis by simp
next
  case False
  with assms have "\<exists>l. bind_attempts ephemeral fixed 0 MAX_BIND_ATTEMPTS None =
      Inr (Some (rtp, Some (rtcp, declared)), l)"
    by (auto simp: bind_rtp_and_rtcp_def split: sum.splits option.splits)
  with bind_attempts_pair have "rtcp = rtp + 1" "even rtp" by fastforce+
  with False even_port_succ even_u16 show ?thesis by simp
qed

theorem bind_rtp_and_rtcp_pair_witness:
  "even (unat (40000 :: u16)) \<and> unat (40001 :: u16) = unat (40000 :: u16) + 1"
proof -
  have "bind_rtp_and_rtcp (\<lambda>_. Some (Some 40000)) (\<lambda>_ _. True) = Inr (40000, Some (40001, False))"
    by (simp add: bind_rtp_and_rtcp_def bind_ephemeral_def MAX_BIND_ATTEMPTS_def numeral_eq_Suc)
  from bind_rtp_and_rtcp_pair [OF this] show ?thesis by simp
qed

text \<open>A datagram whose source address is not the call's peer changes nothing the bridge
  believes about the call, whatever it contains.\<close>

theorem untrusted_rtcp_ignored:
  "fst from \<noteq> sg_peer_ip guard \<Longrightarrow>
     snd (fst (report_iteration jitter_secs figures clock_rate cname now wall (Some (from, buf)) due (guard, bundle)))
       = bundle"
  by (simp add: report_iteration_def accept_def Let_def)

theorem untrusted_rtcp_ignored_witness:
  "snd (fst (report_iteration (\<lambda>_ _. 0) (\<lambda>_. (0, 0)) 8000 [] 0 0
      (Some ((2 :: nat, 5005), build_bye 1)) False (source_guard_new 1, bundle_new))) = bundle_new"
  by (rule untrusted_rtcp_ignored) (simp add: source_guard_new_def)

end
