(* ===== verification/Amr_Relay.thy ===== *)
theory Amr_Relay
  imports Amr_Repack Amr_Params Rtcp
begin

text \<open>
  \<^verbatim>\<open>amr_forward/relay.rs\<close>: the forwarder of a call whose frames cross the bridge unchanged. Two
  legs, two pumps: a datagram is accepted by its source address, counted, parsed, held back by a
  closed gate, policed by the mode guard, relabelled and repacked, and sent. One pump iteration is
  one step on the session's state; what the sockets deliver and answer is an argument. Socket
  addresses are a type parameter.
\<close>

section \<open>Legs\<close>

datatype 'a remote = Connected | Dynamic "'a option"

record 'a leg =
  lg_remote :: "'a remote"
  lg_payload_type :: u8
  lg_dtmf_payload_type :: "u8 option"
  lg_octet_aligned :: bool

definition NO_DTMF :: u16 where
  "NO_DTMF = 0x100"

record 'a leg_io =
  li_remote :: "'a remote"
  li_payload_type :: u8
  li_dtmf :: u16
  li_octet_aligned :: bool
  li_latch :: bool
  li_confirmed :: "'a option"

definition dtmf_word :: "u8 option \<Rightarrow> u16" where
  "dtmf_word d = (case d of None \<Rightarrow> NO_DTMF | Some p \<Rightarrow> ucast p)"

definition leg_io_new :: "'a leg \<Rightarrow> 'a leg_io" where
  "leg_io_new leg =
     \<lparr>li_remote = lg_remote leg, li_payload_type = lg_payload_type leg,
      li_dtmf = dtmf_word (lg_dtmf_payload_type leg), li_octet_aligned = lg_octet_aligned leg,
      li_latch = False, li_confirmed = None\<rparr>"

definition dtmf_pt :: "'a leg_io \<Rightarrow> u8 option" where
  "dtmf_pt l = (if li_dtmf l < 256 then Some (ucast (li_dtmf l)) else None)"

definition accepts_from :: "'a leg_io \<Rightarrow> 'a \<Rightarrow> bytes \<Rightarrow> 'a leg_io \<times> bool" where
  "accepts_from l from packet =
     (case li_remote l of
        Connected \<Rightarrow> (l, True)
      | Dynamic current \<Rightarrow>
          if current = Some from then (l\<lparr>li_confirmed := Some from\<rparr>, True)
          else let may_latch = (li_latch l \<and> current \<noteq> None \<and> li_confirmed l \<noteq> current \<and>
                     (case parse_packet packet of
                        None \<Rightarrow> False
                      | Some p \<Rightarrow> pp_payload_type p = li_payload_type l \<or>
                                  Some (pp_payload_type p) = dtmf_pt l))
               in if may_latch
                  then (l\<lparr>li_remote := Dynamic (Some from), li_confirmed := Some from\<rparr>, True)
                  else (l, False))"

text \<open>\<open>os\<close> is what the socket's \<open>send\<close> returns: \<open>None\<close> for an error.\<close>

definition leg_send :: "'a leg_io \<Rightarrow> nat option \<Rightarrow> nat option" where
  "leg_send l os =
     (case li_remote l of
        Connected \<Rightarrow> os
      | Dynamic (Some addr) \<Rightarrow> os
      | Dynamic None \<Rightarrow> Some 0)"

section \<open>The mode guard\<close>

record guard_cfg =
  mg_modes :: u16
  mg_drop :: bool

text \<open>\<open>leading_zeros\<close> is a \<open>u32\<close>; the subtraction wraps as in a release build.\<close>

definition highest :: "guard_cfg \<Rightarrow> u8" where
  "highest g = ucast ((15 :: u32) - word_of_nat (leading_zeros 16 (unat (mg_modes g))))"

definition allows :: "guard_cfg \<Rightarrow> u8 \<Rightarrow> bool" where
  "allows g mode \<longleftrightarrow> mode < 16 \<and> mg_modes g AND push_bit (unat mode) 1 \<noteq> 0"

record guard_stats =
  gs_cmr_clamped :: u64
  gs_frames_seen :: u64
  gs_out_of_set :: u64
  gs_dropped :: u64

definition guard_stats_default :: guard_stats where
  "guard_stats_default = \<lparr>gs_cmr_clamped = 0, gs_frames_seen = 0, gs_out_of_set = 0, gs_dropped = 0\<rparr>"

datatype direction = A_to_B | B_to_A

text \<open>Where the payload starts in the datagram: the distance of the parsed payload slice.\<close>

definition payload_start :: "bytes \<Rightarrow> nat" where
  "payload_start buf =
     (case skip_extension buf (buf ! 0 AND 0x10 \<noteq> 0) (RTP_HEADER_LEN + unat (buf ! 0 AND 0x0f) * 4) of
        Some start \<Rightarrow> start | None \<Rightarrow> 0)"

definition apply_guard :: "amr_kind \<Rightarrow> direction \<Rightarrow> 'a leg_io \<Rightarrow> (guard_cfg \<times> guard_stats) option \<Rightarrow> bytes \<Rightarrow>
    bool \<times> bytes \<times> (guard_cfg \<times> guard_stats) option" where
  "apply_guard kind direction src guard buf =
     (case guard of
        None \<Rightarrow> (True, buf, guard)
      | Some (g, gst) \<Rightarrow>
     (case parse_packet buf of
        None \<Rightarrow> (True, buf, guard)
      | Some pkt \<Rightarrow>
          if pp_payload_type pkt \<noteq> li_payload_type src then (True, buf, guard)
          else let start = payload_start buf in
          if direction = A_to_B then
            (case cmr_of (pp_payload pkt) of
               None \<Rightarrow> (True, buf, guard)
             | Some cmr \<Rightarrow>
                 if \<not> allows g cmr
                 then (True, take start buf @ set_cmr (drop start buf) (highest g),
                       Some (g, gst\<lparr>gs_cmr_clamped := bump (gs_cmr_clamped gst)\<rparr>))
                 else (True, buf, guard))
          else (case speech_modes (pp_payload pkt) kind (li_octet_aligned src) of
               None \<Rightarrow> (True, buf, guard)
             | Some modes \<Rightarrow>
                 let bad = length (filter (\<lambda>m. \<not> allows g m) modes);
                     gst = gst\<lparr>gs_frames_seen := gs_frames_seen gst + word_of_nat (length modes)\<rparr>
                 in if bad = 0 then (True, buf, Some (g, gst))
                    else let gst = gst\<lparr>gs_out_of_set := gs_out_of_set gst + word_of_nat bad\<rparr> in
                    if mg_drop g
                    then (False, buf, Some (g, gst\<lparr>gs_dropped := gs_dropped gst + word_of_nat (length modes)\<rparr>))
                    else (True, buf, Some (g, gst)))))"

section \<open>Translation between the legs\<close>

text \<open>The outer option is the panic of an index out of range.\<close>

definition translate :: "amr_kind \<Rightarrow> 'a leg_io \<Rightarrow> 'a leg_io \<Rightarrow> bytes \<Rightarrow> bytes option option" where
  "translate kind src dst buf = do {
     marker_and_pt \<leftarrow> get_at buf 1;
     let pt = marker_and_pt AND 0x7f;
     if Some pt = dtmf_pt src then
       Some (case dtmf_pt dst of
          None \<Rightarrow> None
        | Some dst_pt \<Rightarrow> Some (buf[1 := (marker_and_pt AND 0x80) OR (dst_pt AND 0x7f)]))
     else if pt \<noteq> li_payload_type src then Some None
     else if li_octet_aligned src = li_octet_aligned dst then
       Some (Some (buf[1 := (marker_and_pt AND 0x80) OR (li_payload_type dst AND 0x7f)]))
     else (case parse_packet buf of
          None \<Rightarrow> Some None
        | Some pkt \<Rightarrow> do {
            repacked \<leftarrow> repack (pp_payload pkt) kind (li_octet_aligned src) (li_octet_aligned dst);
            case repacked of
              None \<Rightarrow> Some None
            | Some payload \<Rightarrow> do {
                seq_ts_ssrc \<leftarrow> get_range buf 2 RTP_HEADER_LEN;
                Some (Some ([0x80, (marker_and_pt AND 0x80) OR (li_payload_type dst AND 0x7f)] @
                            seq_ts_ssrc @ payload)) } }) }"

section \<open>The session\<close>

record 'a forward_session =
  fs_kind :: amr_kind
  fs_a :: "'a leg_io"
  fs_b :: "'a leg_io"
  fs_towards_a :: bool
  fs_towards_b :: bool
  fs_a_rx :: u64
  fs_b_rx :: u64
  fs_sent_to_a :: u64
  fs_sent_to_b :: u64
  fs_ssrc_ab :: ssrc_tracker
  fs_ssrc_ba :: ssrc_tracker
  fs_guard :: "(guard_cfg \<times> guard_stats) option"
  fs_a_rtcp :: "relay_rtcp_role option"
  fs_b_rtcp :: "relay_rtcp_role option"
  fs_rtcp :: carrier_rtcp_bundle

definition forward_start :: "amr_kind \<Rightarrow> 'a leg \<Rightarrow> 'a leg \<Rightarrow> relay_rtcp_role option \<Rightarrow> relay_rtcp_role option \<Rightarrow>
    carrier_rtcp_bundle \<Rightarrow> u64 \<Rightarrow> u64 \<Rightarrow> guard_cfg option \<Rightarrow> 'a forward_session" where
  "forward_start kind a b a_rtcp b_rtcp bundle a_rx b_rx guard =
     \<lparr>fs_kind = kind, fs_a = leg_io_new a, fs_b = leg_io_new b, fs_towards_a = True, fs_towards_b = True,
      fs_a_rx = a_rx, fs_b_rx = b_rx, fs_sent_to_a = 0, fs_sent_to_b = 0,
      fs_ssrc_ab = ssrc_tracker_new, fs_ssrc_ba = ssrc_tracker_new,
      fs_guard = map_option (\<lambda>g. (g, guard_stats_default)) guard,
      fs_a_rtcp = a_rtcp, fs_b_rtcp = b_rtcp, fs_rtcp = bundle\<rparr>"

definition set_direction :: "bool \<Rightarrow> bool \<Rightarrow> 'a forward_session \<Rightarrow> 'a forward_session" where
  "set_direction towards_a towards_b s = s\<lparr>fs_towards_a := towards_a, fs_towards_b := towards_b\<rparr>"

definition update_leg_b :: "u8 \<Rightarrow> u8 option \<Rightarrow> bool \<Rightarrow> 'a forward_session \<Rightarrow> 'a forward_session" where
  "update_leg_b payload_type dtmf_payload_type octet_aligned s =
     s\<lparr>fs_b := (fs_b s)\<lparr>li_payload_type := payload_type, li_dtmf := dtmf_word dtmf_payload_type,
                       li_octet_aligned := octet_aligned\<rparr>\<rparr>"

definition allow_source_latch :: "bool \<Rightarrow> 'a forward_session \<Rightarrow> 'a forward_session" where
  "allow_source_latch allow s = s\<lparr>fs_b := (fs_b s)\<lparr>li_latch := allow\<rparr>\<rparr>"

definition guard_counts :: "'a forward_session \<Rightarrow> (u64 \<times> u64 \<times> u64) option" where
  "guard_counts s = map_option (\<lambda>(g, gst). (gs_frames_seen gst, gs_out_of_set gst, gs_dropped gst)) (fs_guard s)"

text \<open>What one pump reads and writes, by direction.\<close>

definition pump_src :: "direction \<Rightarrow> 'a forward_session \<Rightarrow> 'a leg_io" where
  "pump_src d s = (case d of A_to_B \<Rightarrow> fs_a s | B_to_A \<Rightarrow> fs_b s)"

definition pump_dst :: "direction \<Rightarrow> 'a forward_session \<Rightarrow> 'a leg_io" where
  "pump_dst d s = (case d of A_to_B \<Rightarrow> fs_b s | B_to_A \<Rightarrow> fs_a s)"

definition pump_open :: "direction \<Rightarrow> 'a forward_session \<Rightarrow> bool" where
  "pump_open d s = (case d of A_to_B \<Rightarrow> fs_towards_b s | B_to_A \<Rightarrow> fs_towards_a s)"

definition set_src :: "direction \<Rightarrow> 'a leg_io \<Rightarrow> 'a forward_session \<Rightarrow> 'a forward_session" where
  "set_src d l s = (case d of A_to_B \<Rightarrow> s\<lparr>fs_a := l\<rparr> | B_to_A \<Rightarrow> s\<lparr>fs_b := l\<rparr>)"

definition bump_received :: "direction \<Rightarrow> 'a forward_session \<Rightarrow> 'a forward_session" where
  "bump_received d s = (case d of A_to_B \<Rightarrow> s\<lparr>fs_a_rx := bump (fs_a_rx s)\<rparr> | B_to_A \<Rightarrow> s\<lparr>fs_b_rx := bump (fs_b_rx s)\<rparr>)"

definition bump_sent :: "direction \<Rightarrow> 'a forward_session \<Rightarrow> 'a forward_session" where
  "bump_sent d s = (case d of A_to_B \<Rightarrow> s\<lparr>fs_sent_to_b := bump (fs_sent_to_b s)\<rparr> | B_to_A \<Rightarrow> s\<lparr>fs_sent_to_a := bump (fs_sent_to_a s)\<rparr>)"

definition note_packet :: "instant \<Rightarrow> direction \<Rightarrow> parsed_packet \<Rightarrow> 'a forward_session \<Rightarrow> 'a forward_session" where
  "note_packet now d pkt s =
     (case d of
        A_to_B \<Rightarrow> s\<lparr>fs_ssrc_ab := fst (note_and_should_log (fs_ssrc_ab s) now (pp_ssrc pkt)),
                    fs_rtcp := note_rtcp now (fs_a_rtcp s) pkt (fs_rtcp s)\<rparr>
      | B_to_A \<Rightarrow> s\<lparr>fs_ssrc_ba := fst (note_and_should_log (fs_ssrc_ba s) now (pp_ssrc pkt)),
                    fs_rtcp := note_rtcp now (fs_b_rtcp s) pkt (fs_rtcp s)\<rparr>)"

text \<open>One iteration of \<open>pump\<close> on a received datagram. The datagram sent, if any, comes second; the
  outer option is a panic.\<close>

definition pump_step :: "instant \<Rightarrow> nat option \<Rightarrow> direction \<Rightarrow> 'a \<Rightarrow> bytes \<Rightarrow> 'a forward_session \<Rightarrow>
    ('a forward_session \<times> bytes option) option" where
  "pump_step now os d from buf s =
     (let (src, ok) = accepts_from (pump_src d s) from buf; s = set_src d src s in
      if \<not> ok then Some (s, None)
      else let s = bump_received d s in
      case parse_packet buf of
        None \<Rightarrow> Some (s, None)
      | Some pkt \<Rightarrow>
          let s = note_packet now d pkt s in
          if \<not> pump_open d s then Some (s, None)
          else let (pass, buf, guard) = apply_guard (fs_kind s) d (pump_src d s) (fs_guard s) buf;
                   s = s\<lparr>fs_guard := guard\<rparr> in
          if \<not> pass then Some (s, None)
          else do {
            r \<leftarrow> translate (fs_kind s) (pump_src d s) (pump_dst d s) buf;
            case r of
              None \<Rightarrow> Some (s, None)
            | Some out \<Rightarrow>
                Some (if (case leg_send (pump_dst d s) os of Some sent \<Rightarrow> sent > 0 | None \<Rightarrow> False)
                      then (bump_sent d s, Some out) else (s, None)) })"

section \<open>Parsing a changed datagram\<close>

lemma parse_packet_SomeD:
  assumes "parse_packet buf = Some pkt"
  shows "12 \<le> length buf" "pp_payload_type pkt = buf ! 1 AND 0x7f"
    "pp_seq pkt = from_be16 (buf ! 2) (buf ! 3)"
    "pp_timestamp pkt = from_be32 (buf ! 4) (buf ! 5) (buf ! 6) (buf ! 7)"
    "pp_ssrc pkt = from_be32 (buf ! 8) (buf ! 9) (buf ! 10) (buf ! 11)"
  using assms by (auto simp: parse_packet_def RTP_HEADER_LEN_def Let_def split: if_splits option.splits)

lemma skip_extension_ge:
  "skip_extension data ext start = Some s \<Longrightarrow> start \<le> s \<and> (start \<le> length data \<longrightarrow> s \<le> length data)"
  by (auto simp: skip_extension_def Let_def split: if_splits)

lemma skip_extension_update:
  "skip_extension data ext start = Some s \<Longrightarrow> i < start \<or> s \<le> i \<Longrightarrow>
    skip_extension (data[i := x]) ext start = Some s"
  by (auto simp: skip_extension_def Let_def nth_list_update split: if_splits)

lemma parse_packet_payload:
  assumes "parse_packet buf = Some pkt"
  obtains e where "strip_padding buf (buf ! 0 AND 0x20 \<noteq> 0) (payload_start buf) = Some e"
    "skip_extension buf (buf ! 0 AND 0x10 \<noteq> 0) (RTP_HEADER_LEN + unat (buf ! 0 AND 0x0f) * 4) = Some (payload_start buf)"
    "12 \<le> payload_start buf" "payload_start buf \<le> length buf"
    "pp_payload pkt = take (e - payload_start buf) (drop (payload_start buf) buf)"
proof -
  let ?st = "RTP_HEADER_LEN + unat (buf ! 0 AND 0x0f) * 4"
  from assms obtain st e where
    sk: "skip_extension buf (buf ! 0 AND 0x10 \<noteq> 0) ?st = Some st"
    and e: "strip_padding buf (buf ! 0 AND 0x20 \<noteq> 0) st = Some e"
    and pl: "pp_payload pkt = take (e - st) (drop st buf)" and len: "?st \<le> length buf"
    by (auto simp: parse_packet_def Let_def split: if_splits option.splits)
  have "payload_start buf = st" using sk by (simp add: payload_start_def)
  with skip_extension_ge [OF sk] len sk e pl show thesis
    by (intro that [of e]) (simp_all add: RTP_HEADER_LEN_def)
qed

text \<open>Changing the payload type octet changes the payload type only.\<close>

lemma parse_packet_pt:
  assumes "parse_packet buf = Some pkt"
  shows "parse_packet (buf[1 := b]) = Some (pkt\<lparr>pp_payload_type := b AND 0x7f\<rparr>)"
proof -
  note d = parse_packet_SomeD [OF assms]
  from parse_packet_payload [OF assms] obtain e where
    e: "strip_padding buf (buf ! 0 AND 0x20 \<noteq> 0) (payload_start buf) = Some e"
    "skip_extension buf (buf ! 0 AND 0x10 \<noteq> 0) (RTP_HEADER_LEN + unat (buf ! 0 AND 0x0f) * 4) = Some (payload_start buf)"
    "12 \<le> payload_start buf"
    "pp_payload pkt = take (e - payload_start buf) (drop (payload_start buf) buf)" .
  have sk: "skip_extension (buf[1 := b]) (buf ! 0 AND 0x10 \<noteq> 0) (RTP_HEADER_LEN + unat (buf ! 0 AND 0x0f) * 4) =
      Some (payload_start buf)"
    by (rule skip_extension_update [OF e(2)]) (simp add: RTP_HEADER_LEN_def)
  have st: "strip_padding (buf[1 := b]) (buf ! 0 AND 0x20 \<noteq> 0) (payload_start buf) = Some e"
    using e(1) d(1) by (auto simp: strip_padding_def Let_def nth_list_update split: if_splits)
  have dr: "drop (payload_start buf) (buf[1 := b]) = drop (payload_start buf) buf"
    using e(3) by (intro drop_update_cancel) simp
  show ?thesis
    using assms d sk st dr e
    by (simp add: parse_packet_def Let_def RTP_HEADER_LEN_def nth_list_update split: if_splits)
qed

lemma parse_packet_pt_Suc:
  "parse_packet buf = Some pkt \<Longrightarrow>
    parse_packet (buf[Suc 0 := b]) = Some (pkt\<lparr>pp_payload_type := b AND 0x7f, pp_payload := pp_payload pkt\<rparr>)"
  using parse_packet_pt [of buf pkt b] by simp

text \<open>Changing the first payload octet changes that octet of the payload only.\<close>

lemma parse_packet_first:
  assumes "parse_packet buf = Some pkt" "pp_payload pkt \<noteq> []"
  shows "parse_packet (buf[payload_start buf := b]) = Some (pkt\<lparr>pp_payload := (pp_payload pkt)[0 := b]\<rparr>)"
proof -
  note d = parse_packet_SomeD [OF assms(1)]
  let ?i = "payload_start buf"
  from parse_packet_payload [OF assms(1)] obtain e where
    e: "strip_padding buf (buf ! 0 AND 0x20 \<noteq> 0) ?i = Some e"
    "skip_extension buf (buf ! 0 AND 0x10 \<noteq> 0) (RTP_HEADER_LEN + unat (buf ! 0 AND 0x0f) * 4) = Some ?i"
    "12 \<le> ?i" "?i \<le> length buf"
    "pp_payload pkt = take (e - ?i) (drop ?i buf)" .
  have lt: "?i < e" using assms(2) e(5) by auto
  have sk: "skip_extension (buf[?i := b]) (buf ! 0 AND 0x10 \<noteq> 0) (RTP_HEADER_LEN + unat (buf ! 0 AND 0x0f) * 4) = Some ?i"
    by (rule skip_extension_update [OF e(2)]) simp
  have st: "strip_padding (buf[?i := b]) (buf ! 0 AND 0x20 \<noteq> 0) ?i = Some e"
    using e(1) lt by (auto simp: strip_padding_def Let_def nth_list_update split: if_splits)
  have dr: "take (e - ?i) (drop ?i (buf[?i := b])) = (take (e - ?i) (drop ?i buf))[0 := b]"
    using lt by (simp add: drop_update_swap take_update_swap)
  show ?thesis
    using assms(1) d sk st dr e
    by (simp add: parse_packet_def Let_def RTP_HEADER_LEN_def nth_list_update split: if_splits)
qed

text \<open>The datagram \<open>translate\<close> rebuilds when the packings differ.\<close>

lemma parse_packet_rebuilt:
  assumes "parse_packet buf = Some pkt" "get_range buf 2 RTP_HEADER_LEN = Some h"
  shows "parse_packet ([0x80, m] @ h @ payload) =
    Some (pkt\<lparr>pp_payload_type := m AND 0x7f, pp_payload := payload\<rparr>)"
proof -
  note d = parse_packet_SomeD [OF assms(1)]
  from assms(2) d(1) have h: "h = take 10 (drop 2 buf)"
    by (simp add: get_range_Some_iff RTP_HEADER_LEN_def)
  then have "length h = 10" "\<And>i. i < 10 \<Longrightarrow> h ! i = buf ! (i + 2)"
    using d(1) by (simp_all add: add.commute)
  then have nth: "([0x80, m] @ h @ payload) ! i = buf ! i" if "2 \<le> i" "i < 12" for i
  proof -
    define j where "j = i - 2"
    have "i = j + 2" "j < 10" using that by (auto simp: j_def)
    with \<open>length h = 10\<close> \<open>\<And>i. i < 10 \<Longrightarrow> h ! i = buf ! (i + 2)\<close> show ?thesis by (simp add: nth_append)
  qed
  have fields: "drop_bit 6 (0x80 :: u8) = 2" "(0x80 :: u8) AND 0x20 = 0" "(0x80 :: u8) AND 0x10 = 0"
    "(0x80 :: u8) AND 0x0f = 0" by simp_all
  show ?thesis
    using d nth [of 2] nth [of 3] nth [of 4] nth [of 5] nth [of 6] nth [of 7] nth [of 8] nth [of 9]
      nth [of 10] nth [of 11] \<open>length h = 10\<close> fields
    by (simp add: parse_packet_def Let_def RTP_HEADER_LEN_def RTP_VERSION_def skip_extension_def
        strip_padding_def)
qed

section \<open>Translation\<close>

lemma marker_pt:
  "((m AND 0x80) OR (p AND 0x7f)) AND 0x7f = p AND (0x7f :: u8)"
  "((m AND 0x80) OR (p AND 0x7f)) AND 0x80 = m AND (0x80 :: u8)"
  by (rule bit_word_eqI, auto simp: bit_simps dest!: bit_index_u8)+

text \<open>The new payload carries what the old one carried: the same octets, or, between legs of
  different packing, a payload that parses to the same AMR packet.\<close>

definition same_audio :: "amr_kind \<Rightarrow> bool \<Rightarrow> bool \<Rightarrow> bytes \<Rightarrow> bytes \<Rightarrow> bool" where
  "same_audio kind src_oa dst_oa p q \<longleftrightarrow>
     (if src_oa = dst_oa then q = p else parse p kind src_oa \<noteq> None \<and> parse q kind dst_oa = parse p kind src_oa)"

lemma repack_same_audio:
  assumes "src_oa \<noteq> dst_oa"
  shows "\<exists>r. repack p kind src_oa dst_oa = Some r \<and> (\<forall>q. r = Some q \<longrightarrow> same_audio kind src_oa dst_oa p q)"
proof (cases "parse p kind src_oa")
  case (Some pkt)
  from build_conc_inject [OF Some, of dst_oa] Some assms show ?thesis
    by (auto simp: repack_def same_audio_def)
qed (use assms in \<open>simp add: repack_def\<close>)

lemma translate_parse:
  assumes "parse_packet buf = Some pkt"
  obtains r where "translate kind src dst buf = Some r"
    "\<And>out. r = Some out \<Longrightarrow> out ! 1 AND 0x80 = buf ! 1 AND 0x80 \<and>
      (\<exists>pt payload. parse_packet out = Some (pkt\<lparr>pp_payload_type := pt, pp_payload := payload\<rparr>) \<and>
        (Some (pp_payload_type pkt) = dtmf_pt src \<and> map_option (\<lambda>p. p AND 0x7f) (dtmf_pt dst) = Some pt \<and>
           payload = pp_payload pkt \<or>
         pp_payload_type pkt = li_payload_type src \<and> pt = li_payload_type dst AND 0x7f \<and>
           same_audio kind (li_octet_aligned src) (li_octet_aligned dst) (pp_payload pkt) payload))"
proof -
  note d = parse_packet_SomeD [OF assms]
  have pt: "buf ! Suc 0 AND 0x7f = pp_payload_type pkt" using d(2) by simp
  have at: "get_at buf 1 = Some (buf ! 1)" using d(1) by (simp add: get_at_def)
  consider (dtmf) "Some (pp_payload_type pkt) = dtmf_pt src"
    | (other) "Some (pp_payload_type pkt) \<noteq> dtmf_pt src" "pp_payload_type pkt \<noteq> li_payload_type src"
    | (same) "Some (pp_payload_type pkt) \<noteq> dtmf_pt src" "pp_payload_type pkt = li_payload_type src"
        "li_octet_aligned src = li_octet_aligned dst"
    | (repack) "Some (pp_payload_type pkt) \<noteq> dtmf_pt src" "pp_payload_type pkt = li_payload_type src"
        "li_octet_aligned src \<noteq> li_octet_aligned dst" by blast
  then show thesis
  proof cases
    case dtmf
    show ?thesis
    proof (cases "dtmf_pt dst")
      case None
      with dtmf at show ?thesis by (intro that [of None]) (auto simp: translate_def pt Let_def)
    next
      case (Some p)
      have tr: "translate kind src dst buf = Some (Some (buf[1 := (buf ! 1 AND 0x80) OR (p AND 0x7f)]))"
        using dtmf at Some by (simp add: translate_def pt Let_def)
      show ?thesis using dtmf Some d(1)
        by (intro that [OF tr])
           (auto simp: parse_packet_pt_Suc [OF assms] marker_pt intro!: exI [of _ "p AND 0x7f"] exI [of _ "pp_payload pkt"])
    qed
  next
    case other
    then show ?thesis using at by (intro that [of None]) (auto simp: translate_def pt Let_def)
  next
    case same
    then show ?thesis using at d(1)
      by (intro that [of "Some (buf[1 := (buf ! 1 AND 0x80) OR (li_payload_type dst AND 0x7f)])"])
         (auto simp: translate_def pt Let_def parse_packet_pt_Suc [OF assms] marker_pt same_audio_def)
  next
    case repack
    from repack_same_audio [OF repack(3), of "pp_payload pkt" kind] obtain r where
      r: "repack (pp_payload pkt) kind (li_octet_aligned src) (li_octet_aligned dst) = Some r"
      "\<And>q. r = Some q \<Longrightarrow> same_audio kind (li_octet_aligned src) (li_octet_aligned dst) (pp_payload pkt) q"
      by auto
    obtain h where h: "get_range buf 2 RTP_HEADER_LEN = Some h"
      using d(1) by (simp add: get_range_def RTP_HEADER_LEN_def)
    have tr: "translate kind src dst buf = Some (map_option (\<lambda>payload.
        [0x80, (buf ! 1 AND 0x80) OR (li_payload_type dst AND 0x7f)] @ h @ payload) r)"
      using repack r(1) h at assms
      by (cases r) (auto simp: translate_def pt Let_def)
    show ?thesis
    proof (rule that [OF tr])
      fix out
      let ?m = "(buf ! 1 AND 0x80) OR (li_payload_type dst AND 0x7f)"
      assume "map_option (\<lambda>payload. [0x80, ?m] @ h @ payload) r = Some out"
      then obtain q where q: "r = Some q" "out = [0x80, ?m] @ h @ q" by auto
      from parse_packet_rebuilt [OF assms h, of ?m q] q(2)
      have "parse_packet out = Some (pkt\<lparr>pp_payload_type := li_payload_type dst AND 0x7f, pp_payload := q\<rparr>)"
        by (simp only: marker_pt)
      moreover have "out ! 1 AND 0x80 = buf ! 1 AND 0x80" using q(2) by (simp add: marker_pt)
      ultimately show "out ! 1 AND 0x80 = buf ! 1 AND 0x80 \<and>
        (\<exists>pt payload. parse_packet out = Some (pkt\<lparr>pp_payload_type := pt, pp_payload := payload\<rparr>) \<and>
          (Some (pp_payload_type pkt) = dtmf_pt src \<and> map_option (\<lambda>p. p AND 0x7f) (dtmf_pt dst) = Some pt \<and>
             payload = pp_payload pkt \<or>
           pp_payload_type pkt = li_payload_type src \<and> pt = li_payload_type dst AND 0x7f \<and>
             same_audio kind (li_octet_aligned src) (li_octet_aligned dst) (pp_payload pkt) payload))"
        using repack(2) r(2) [OF q(1)] by blast
    qed
  qed
qed

lemma translate_audio:
  assumes "parse_packet buf = Some pkt" "translate kind src dst buf = Some (Some out)"
    "pp_payload_type pkt = li_payload_type src" "Some (pp_payload_type pkt) \<noteq> dtmf_pt src"
  obtains pt payload where "parse_packet out = Some (pkt\<lparr>pp_payload_type := pt, pp_payload := payload\<rparr>)"
    "same_audio kind (li_octet_aligned src) (li_octet_aligned dst) (pp_payload pkt) payload"
proof -
  obtain r where r: "translate kind src dst buf = Some r"
    "\<And>out. r = Some out \<Longrightarrow> \<exists>pt payload.
      parse_packet out = Some (pkt\<lparr>pp_payload_type := pt, pp_payload := payload\<rparr>) \<and>
      same_audio kind (li_octet_aligned src) (li_octet_aligned dst) (pp_payload pkt) payload"
    by (rule translate_parse [OF assms(1), of kind src dst]) (use assms(4) in blast)
  from r(2) [of out] r(1) assms(2) that show thesis by auto
qed

section \<open>The mode guard\<close>

lemma highest_allowed:
  assumes "mg_modes g \<noteq> 0"
  shows "allows g (highest g)" "highest g < 16"
proof -
  let ?v = "unat (mg_modes g)"
  have "1 \<le> ?v" using assms by (simp add: word_unat_eq_iff Suc_le_eq)
  then obtain e where e: "2 ^ e \<le> ?v" "?v < 2 ^ (e + 1)" using ex_power_ivl1 [of 2 ?v] by auto
  have "?v < 2 ^ 16" using unsigned_less [of "mg_modes g"] by simp
  with e(1) have "(2 :: nat) ^ e < 2 ^ 16" by (rule le_less_trans)
  then have e16: "e < 16" by (rule power_less_imp_less_exp [rotated]) simp
  have "leading_zeros 16 ?v = 15 - e" using leading_zeros_range [of e ?v 16] e e16 by simp
  then have "(15 :: u32) - word_of_nat (leading_zeros 16 ?v) = word_of_nat e"
    using e16 by (simp add: of_nat_diff)
  then have h: "highest g = word_of_nat e"
    using e16 by (simp add: highest_def unsigned_of_nat take_bit_nat_eq_self)
  then have uh: "unat (highest g) = e" using e16 by (simp add: unat_word_of_nat_u8)
  then show "highest g < 16" using e16 by (simp add: word_less_nat_alt)
  have "?v div 2 ^ e = 1" using e by (intro div_nat_eqI) auto
  then have "bit ?v e" by (simp add: bit_iff_odd)
  then have "bit (mg_modes g) e" by (simp add: bit_unsigned_iff)
  with \<open>highest g < 16\<close> uh show "allows g (highest g)"
    by (simp add: allows_def and_exp_eq_0_iff_not_bit push_bit_eq_mult)
qed

lemma set_cmr_update: "p \<noteq> [] \<Longrightarrow> set_cmr p c = p[0 := push_bit 4 c OR (hd p AND 0x0f)]"
  by (cases p) (simp_all add: set_cmr_def)

lemma cmr_of_set_cmr: "c < 16 \<Longrightarrow> p \<noteq> [] \<Longrightarrow> cmr_of (set_cmr p c) = Some c"
proof -
  assume "c < 16" "p \<noteq> []"
  moreover have "drop_bit 4 (push_bit 4 c OR (hd p AND 0x0f)) = c"
    unfolding u8_mask_15 using \<open>c < 16\<close>
    by (intro bit_word_eqI) (auto simp: bit_simps dest: bit_u8_less_16D)
  ultimately show ?thesis by (cases p) (simp_all add: set_cmr_def cmr_of_def)
qed

lemma clamp_parse:
  assumes "parse_packet buf = Some pkt" "pp_payload pkt \<noteq> []"
  shows "parse_packet (take (payload_start buf) buf @ set_cmr (drop (payload_start buf) buf) c) =
    Some (pkt\<lparr>pp_payload := set_cmr (pp_payload pkt) c\<rparr>)"
proof -
  let ?i = "payload_start buf"
  obtain e where e: "?i \<le> length buf" "pp_payload pkt = take (e - ?i) (drop ?i buf)"
    using parse_packet_payload [OF assms(1)] by metis
  have lt: "?i < e" "?i < length buf" using assms(2) e(2) by auto
  have hd: "hd (pp_payload pkt) = buf ! ?i" using lt e(2) by (simp add: hd_drop_conv_nth hd_take)
  have "take ?i buf @ set_cmr (drop ?i buf) c = buf[?i := push_bit 4 c OR (buf ! ?i AND 0x0f)]"
    using lt by (simp add: set_cmr_update hd_drop_conv_nth upd_conv_take_nth_drop Cons_nth_drop_Suc [symmetric])
  with parse_packet_first [OF assms] show ?thesis
    by (simp add: set_cmr_update [OF assms(2)] hd)
qed

lemma cmr_of_parse:
  assumes "parse p kind oa = Some pkt"
  shows "cmr_of p = Some (pk_cmr pkt)"
proof (cases oa)
  case True
  with assms show ?thesis
    by (auto simp: parse_def cmr_of_def bind_eq_Some_conv Let_def split: if_splits)
next
  case False
  with parse_beD [of p kind pkt] assms obtain cmr fs pad where fs: "wf_packet kind cmr fs"
    "pkt = conc_packet cmr fs"
    "bits_of p = field_bits cmr 4 @ toc_bits (toc_of fs) @ speech_all fs @ pad" by auto
  obtain first rest where p: "p = first # rest"
    using fs(3) by (cases p) (auto simp: field_bits_def)
  have "field_bits first 8 = field_bits (drop_bit 4 first) 4 @ field_bits first 4"
    by (rule nth_equalityI) (auto simp: field_bits_def rev_nth nth_append bit_simps)
  with fs(3) p have "field_bits (drop_bit 4 first) 4 = field_bits cmr 4"
    by (simp add: bits_of_Cons)
  then have "take_bit 4 (drop_bit 4 first) = take_bit 4 cmr"
    by (metis num_of_field_bits)
  moreover have "take_bit 4 (drop_bit 4 first) = drop_bit 4 first"
    by (rule bit_word_eqI) (auto simp: bit_simps dest: bit_imp_le_length)
  moreover have "take_bit 4 cmr = cmr" using fs(1) by (simp add: wf_packet_def u8_take_bit_4)
  ultimately show ?thesis using fs(2) p by (simp add: cmr_of_def conc_packet_def)
qed

lemma same_audio_cmr: "same_audio kind so da p q \<Longrightarrow> cmr_of q = cmr_of p"
  unfolding same_audio_def by (metis cmr_of_parse not_None_eq)

lemma same_audio_modes: "same_audio kind so da p q \<Longrightarrow> speech_modes q kind da = speech_modes p kind so"
proof (cases "so = da")
  case False
  assume "same_audio kind so da p q"
  with False obtain y where "parse p kind so = Some y" "parse q kind da = Some y"
    by (auto simp: same_audio_def)
  with speech_modes_parse [of p kind so y] speech_modes_parse [of q kind da y] show ?thesis by simp
qed (simp add: same_audio_def)

section \<open>Source addresses\<close>

text \<open>The senders whose datagrams a leg accepts, over any sequence of datagrams.\<close>

fun accepted :: "'a leg_io \<Rightarrow> ('a \<times> bytes) list \<Rightarrow> 'a list" where
  "accepted l [] = []"
| "accepted l ((from, packet) # ds) =
     (let (l', ok) = accepts_from l from packet in (if ok then [from] else []) @ accepted l' ds)"

lemma accepted_settled:
  "li_remote l = Dynamic (Some a) \<Longrightarrow> li_confirmed l = Some a \<Longrightarrow> set (accepted l ds) \<subseteq> {a}"
proof (induction ds arbitrary: l)
  case (Cons d ds)
  obtain fr packet where d: "d = (fr, packet)" by fastforce
  have "accepts_from l fr packet = (l, fr = a) \<or> accepts_from l fr packet = (l\<lparr>li_confirmed := Some a\<rparr>, fr = a)"
    using Cons.prems by (auto simp: accepts_from_def)
  with Cons.IH [of l] Cons.IH [of "l\<lparr>li_confirmed := Some a\<rparr>"] Cons.prems show ?case
    by (auto simp: d)
qed simp

section \<open>One pump step\<close>

lemma accepts_from_pt:
  "accepts_from l from packet = (l', ok) \<Longrightarrow> li_payload_type l' = li_payload_type l \<and> dtmf_pt l' = dtmf_pt l \<and>
    li_octet_aligned l' = li_octet_aligned l"
  by (auto simp: accepts_from_def Let_def dtmf_pt_def split: remote.splits if_splits)

lemmas pump_frame = pump_src_def pump_dst_def pump_open_def set_src_def bump_received_def bump_sent_def
  note_packet_def

text \<open>What a sent datagram says about the step: the guard let a datagram through and its translation
  went out, with the source leg's payload types and packing as before the step.\<close>

lemma pump_step_sent:
  assumes "pump_step now os d from buf s = Some (s', Some out)"
  obtains pkt src buf' guard where "parse_packet buf = Some pkt"
    "apply_guard (fs_kind s) d src (fs_guard s) buf = (True, buf', guard)"
    "translate (fs_kind s) src (pump_dst d s) buf' = Some (Some out)"
    "li_payload_type src = li_payload_type (pump_src d s)" "dtmf_pt src = dtmf_pt (pump_src d s)"
    "li_octet_aligned src = li_octet_aligned (pump_src d s)" "pump_open d s"
proof -
  obtain src ok where src: "accepts_from (pump_src d s) from buf = (src, ok)" by fastforce
  note keep = accepts_from_pt [OF src]
  from assms src obtain pkt where pkt: "parse_packet buf = Some pkt"
    by (auto simp: pump_step_def Let_def split: option.splits if_splits)
  define s1 where "s1 = note_packet now d pkt (bump_received d (set_src d src s))"
  have s1: "fs_kind s1 = fs_kind s" "fs_guard s1 = fs_guard s" "pump_src d s1 = src"
    "pump_dst d s1 = pump_dst d s" "pump_open d s1 = pump_open d s"
    by (cases d; simp add: s1_def pump_frame)+
  obtain pass buf' guard where g: "apply_guard (fs_kind s) d src (fs_guard s) buf = (pass, buf', guard)"
    by (metis prod_cases3)
  have f: "fs_kind (s1\<lparr>fs_guard := guard\<rparr>) = fs_kind s" "pump_src d (s1\<lparr>fs_guard := guard\<rparr>) = src"
    "pump_dst d (s1\<lparr>fs_guard := guard\<rparr>) = pump_dst d s"
    using s1 by (cases d; simp add: pump_frame)+
  have "pump_open d s" "pass" "translate (fs_kind s) src (pump_dst d s) buf' = Some (Some out)"
    using assms src pkt g s1 f unfolding pump_step_def s1_def [symmetric]
    by (auto simp: Let_def bind_eq_Some_conv s1_def [symmetric] split: if_splits option.splits)
  with that [OF pkt] g keep show thesis by simp
qed

lemma apply_guard_clamp:
  assumes "apply_guard kind A_to_B src (Some (g, st)) buf = (True, buf', guard)"
    "parse_packet buf = Some pkt" "pp_payload_type pkt = li_payload_type src" "mg_modes g \<noteq> 0"
  obtains payload where "parse_packet buf' = Some (pkt\<lparr>pp_payload := payload\<rparr>)"
    "\<And>cmr. cmr_of payload = Some cmr \<Longrightarrow> allows g cmr"
proof (cases "cmr_of (pp_payload pkt)")
  case None
  with assms(1-3) have "buf' = buf" by (simp add: apply_guard_def)
  with None assms(2) that [of "pp_payload pkt"] show thesis by simp
next
  case (Some cmr)
  then have ne: "pp_payload pkt \<noteq> []" by (auto simp: cmr_of_def)
  show thesis
  proof (cases "allows g cmr")
    case True
    with Some assms(1-3) have "buf' = buf" by (simp add: apply_guard_def Let_def)
    with True Some assms(2) that [of "pp_payload pkt"] show thesis by simp
  next
    case False
    with Some assms(1-3)
    have "buf' = take (payload_start buf) buf @ set_cmr (drop (payload_start buf) buf) (highest g)"
      by (simp add: apply_guard_def Let_def)
    with clamp_parse [OF assms(2) ne, of "highest g"] highest_allowed [OF assms(4)]
      cmr_of_set_cmr [OF _ ne, of "highest g"]
    show thesis by (intro that [of "set_cmr (pp_payload pkt) (highest g)"]) auto
  qed
qed

lemma pump_step_clamped:
  assumes "pump_step now os A_to_B from buf s = Some (s', Some out)"
    "fs_guard s = Some (g, st)" "mg_modes g \<noteq> 0" "parse_packet buf = Some pkt"
    "pp_payload_type pkt = li_payload_type (fs_a s)" "Some (pp_payload_type pkt) \<noteq> dtmf_pt (fs_a s)"
  shows "\<exists>pkt'. parse_packet out = Some pkt' \<and> (case cmr_of (pp_payload pkt') of None \<Rightarrow> True | Some cmr \<Rightarrow> allows g cmr)"
proof -
  obtain src buf' guard where
    st: "apply_guard (fs_kind s) A_to_B src (Some (g, st)) buf = (True, buf', guard)"
    "translate (fs_kind s) src (pump_dst A_to_B s) buf' = Some (Some out)"
    "li_payload_type src = li_payload_type (fs_a s)" "dtmf_pt src = dtmf_pt (fs_a s)"
    by (rule pump_step_sent [OF assms(1)]) (simp add: assms(2) pump_src_def)
  obtain payload where p: "parse_packet buf' = Some (pkt\<lparr>pp_payload := payload\<rparr>)"
    "\<And>cmr. cmr_of payload = Some cmr \<Longrightarrow> allows g cmr"
    using apply_guard_clamp [OF st(1) assms(4) _ assms(3)] assms(5) st(3) by auto
  obtain pt payload' where "parse_packet out = Some (pkt\<lparr>pp_payload := payload, pp_payload_type := pt, pp_payload := payload'\<rparr>)"
    "same_audio (fs_kind s) (li_octet_aligned src) (li_octet_aligned (pump_dst A_to_B s)) payload payload'"
    by (rule translate_audio [OF p(1) st(2)]) (use st(3,4) assms(5,6) in auto)
  with p(2) same_audio_cmr show ?thesis by (auto split: option.split)
qed

lemma apply_guard_drop:
  assumes "apply_guard kind B_to_A src (Some (g, st)) buf = (True, buf', guard)"
    "parse_packet buf = Some pkt" "pp_payload_type pkt = li_payload_type src" "mg_drop g"
  shows "buf' = buf \<and> (case speech_modes (pp_payload pkt) kind (li_octet_aligned src) of
    None \<Rightarrow> True | Some modes \<Rightarrow> list_all (allows g) modes)"
  using assms by (auto simp: apply_guard_def Let_def filter_empty_conv list_all_iff split: option.splits if_splits)

lemma pump_step_dropped:
  assumes "pump_step now os B_to_A from buf s = Some (s', Some out)"
    "fs_guard s = Some (g, st)" "mg_drop g" "parse_packet buf = Some pkt"
    "pp_payload_type pkt = li_payload_type (fs_b s)" "Some (pp_payload_type pkt) \<noteq> dtmf_pt (fs_b s)"
  shows "\<exists>pkt'. parse_packet out = Some pkt' \<and>
    (case speech_modes (pp_payload pkt') (fs_kind s) (li_octet_aligned (fs_a s)) of
       None \<Rightarrow> True | Some modes \<Rightarrow> list_all (allows g) modes)"
proof -
  obtain src buf' guard where
    st: "apply_guard (fs_kind s) B_to_A src (Some (g, st)) buf = (True, buf', guard)"
    "translate (fs_kind s) src (fs_a s) buf' = Some (Some out)"
    "li_payload_type src = li_payload_type (fs_b s)" "dtmf_pt src = dtmf_pt (fs_b s)"
    by (rule pump_step_sent [OF assms(1)]) (simp add: assms(2) pump_src_def pump_dst_def)
  have p: "buf' = buf" "case speech_modes (pp_payload pkt) (fs_kind s) (li_octet_aligned src) of
      None \<Rightarrow> True | Some modes \<Rightarrow> list_all (allows g) modes"
    using apply_guard_drop [OF st(1) assms(4) _ assms(3)] assms(5) st(3) by auto
  obtain pt payload' where "parse_packet out = Some (pkt\<lparr>pp_payload_type := pt, pp_payload := payload'\<rparr>)"
    "same_audio (fs_kind s) (li_octet_aligned src) (li_octet_aligned (fs_a s)) (pp_payload pkt) payload'"
    by (rule translate_audio [OF assms(4) st(2) [unfolded p(1)]]) (use st(3,4) assms(5,6) in auto)
  with p(2) same_audio_modes show ?thesis by auto
qed

section \<open>Properties\<close>

text \<open>Translating any parseable RTP datagram between the legs never panics, and what it sends
  parses to the same packet: sequence number, timestamp, SSRC and marker bit untouched, the payload
  type relabelled to what the receiving leg negotiated for audio or telephone events, and the payload
  unchanged or, between legs of different packing, holding the same AMR packet.\<close>

theorem relay_translate_preserves:
  assumes "parse_packet buf = Some pkt"
  shows "\<exists>r. translate kind src dst buf = Some r \<and>
    (\<forall>out. r = Some out \<longrightarrow> out ! 1 AND 0x80 = buf ! 1 AND 0x80 \<and>
      (\<exists>pt payload. parse_packet out = Some (pkt\<lparr>pp_payload_type := pt, pp_payload := payload\<rparr>) \<and>
        (Some (pp_payload_type pkt) = dtmf_pt src \<and> map_option (\<lambda>p. p AND 0x7f) (dtmf_pt dst) = Some pt \<and>
           payload = pp_payload pkt \<or>
         pp_payload_type pkt = li_payload_type src \<and> pt = li_payload_type dst AND 0x7f \<and>
           same_audio kind (li_octet_aligned src) (li_octet_aligned dst) (pp_payload pkt) payload)))"
  by (rule translate_parse [OF assms, of kind src dst]) blast

definition demo_leg :: "u8 \<Rightarrow> bool \<Rightarrow> nat leg" where
  "demo_leg pt oa = \<lparr>lg_remote = Connected, lg_payload_type = pt, lg_dtmf_payload_type = Some 101,
     lg_octet_aligned = oa\<rparr>"

theorem relay_translate_preserves_witness:
  "\<exists>r. translate Nb (leg_io_new (demo_leg 96 True)) (leg_io_new (demo_leg 97 True))
      (build_packet 7 160 42 96 [0xF0, 0x7C]) = Some r \<and>
    (\<forall>out. r = Some out \<longrightarrow> out ! 1 AND 0x80 = build_packet 7 160 42 96 [0xF0, 0x7C] ! 1 AND 0x80 \<and>
      (\<exists>pt payload. parse_packet out =
          Some (\<lparr>pp_seq = 7, pp_timestamp = 160, pp_ssrc = 42, pp_payload_type = 96 AND 0x7f,
                pp_payload = [0xF0, 0x7C]\<rparr>\<lparr>pp_payload_type := pt, pp_payload := payload\<rparr>) \<and>
        (Some (96 AND 0x7f) = dtmf_pt (leg_io_new (demo_leg 96 True)) \<and>
           map_option (\<lambda>p. p AND 0x7f) (dtmf_pt (leg_io_new (demo_leg 97 True))) = Some pt \<and>
           payload = [0xF0, 0x7C] \<or>
         96 AND 0x7f = li_payload_type (leg_io_new (demo_leg 96 True)) \<and>
           pt = li_payload_type (leg_io_new (demo_leg 97 True)) AND 0x7f \<and>
           same_audio Nb True True [0xF0, 0x7C] payload)))"
  using relay_translate_preserves [of "build_packet 7 160 42 96 [0xF0, 0x7C]"
      "\<lparr>pp_seq = 7, pp_timestamp = 160, pp_ssrc = 42, pp_payload_type = 96 AND 0x7f,
        pp_payload = [0xF0, 0x7C]\<rparr>" Nb "leg_io_new (demo_leg 96 True)" "leg_io_new (demo_leg 97 True)"]
  by (simp add: demo_leg_def leg_io_new_def)

text \<open>C24: With a nonempty mode guard, no audio packet that reaches the client carries a mode request
  outside the carrier's set: a request outside it has been replaced by the highest allowed mode,
  also when the packet was repacked on the way.\<close>

theorem relay_clamps_mode_request:
  assumes "pump_step now os A_to_B from buf s = Some (s', Some out)"
    "fs_guard s = Some (g, st)" "mg_modes g \<noteq> 0" "parse_packet buf = Some pkt"
    "pp_payload_type pkt = li_payload_type (fs_a s)" "Some (pp_payload_type pkt) \<noteq> dtmf_pt (fs_a s)"
  shows "\<exists>pkt'. parse_packet out = Some pkt' \<and>
    (case cmr_of (pp_payload pkt') of None \<Rightarrow> True | Some cmr \<Rightarrow> allows g cmr)"
  using pump_step_clamped [OF assms] .

definition demo_session :: "bool \<Rightarrow> nat forward_session" where
  "demo_session dr = forward_start Nb (demo_leg 96 True) (demo_leg 97 True) None None bundle_new 0 0
     (Some \<lparr>mg_modes = 0x0F, mg_drop = dr\<rparr>)"

lemmas demo_eval = demo_session_def demo_leg_def forward_start_def leg_io_new_def pump_step_def
  accepts_from_def pump_frame apply_guard_def translate_def leg_send_def dtmf_pt_def dtmf_word_def
  note_rtcp_def ssrc_tracker_new_def note_and_should_log_def

theorem relay_clamps_mode_request_witness:
  "cmr_of [0x70, 0x3C] = Some 7 \<and> \<not> allows \<lparr>mg_modes = 0x0F, mg_drop = False\<rparr> 7 \<and>
   (\<exists>s' out pkt'. pump_step 0 (Some 14) A_to_B 0 (build_packet 7 160 42 96 [0x70, 0x3C]) (demo_session False) =
     Some (s', Some out) \<and> parse_packet out = Some pkt' \<and>
     (case cmr_of (pp_payload pkt') of None \<Rightarrow> True | Some cmr \<Rightarrow> allows \<lparr>mg_modes = 0x0F, mg_drop = False\<rparr> cmr))"
proof -
  let ?p = "build_packet 7 160 42 96 [0x70, 0x3C]"
  have "?p ! Suc 0 = 96" "length ?p = 14"
    by (simp_all add: build_packet_def)
  moreover have "payload_start ?p = 12" "drop 12 ?p = [0x70, 0x3C]" "length (take 12 ?p) = 12"
    by (simp_all add: payload_start_def skip_extension_def build_packet_def RTP_HEADER_LEN_def RTP_VERSION_def to_be16_def to_be32_def)
  ultimately have "\<exists>s' out. pump_step 0 (Some 14) A_to_B 0 ?p (demo_session False) = Some (s', Some out)"
    by (simp add: demo_eval Let_def cmr_of_def allows_def get_at_def set_cmr_def nth_append)
  then obtain s' out where st: "pump_step 0 (Some 14) A_to_B 0 ?p (demo_session False) = Some (s', Some out)" by blast
  have "\<exists>pkt'. parse_packet out = Some pkt' \<and>
      (case cmr_of (pp_payload pkt') of None \<Rightarrow> True | Some cmr \<Rightarrow> allows \<lparr>mg_modes = 0x0F, mg_drop = False\<rparr> cmr)"
    by (rule relay_clamps_mode_request [OF st, where st = guard_stats_default and pkt = "\<lparr>pp_seq = 7, pp_timestamp = 160,
         pp_ssrc = 42, pp_payload_type = 96, pp_payload = [0x70, 0x3C]\<rparr>"])
       (simp_all add: demo_session_def forward_start_def leg_io_new_def demo_leg_def dtmf_pt_def dtmf_word_def)
  moreover have "cmr_of [0x70, 0x3C] = Some 7" "\<not> allows \<lparr>mg_modes = 0x0F, mg_drop = False\<rparr> 7"
    by (simp_all add: cmr_of_def allows_def get_at_def)
  ultimately show ?thesis using st by blast
qed

text \<open>Under the dropping policy, no audio packet that reaches the carrier holds a speech frame of a
  mode outside the carrier's set.\<close>

theorem relay_drops_foreign_modes:
  assumes "pump_step now os B_to_A from buf s = Some (s', Some out)"
    "fs_guard s = Some (g, st)" "mg_drop g" "parse_packet buf = Some pkt"
    "pp_payload_type pkt = li_payload_type (fs_b s)" "Some (pp_payload_type pkt) \<noteq> dtmf_pt (fs_b s)"
  shows "\<exists>pkt'. parse_packet out = Some pkt' \<and>
    (case speech_modes (pp_payload pkt') (fs_kind s) (li_octet_aligned (fs_a s)) of
       None \<Rightarrow> True | Some modes \<Rightarrow> list_all (allows g) modes)"
  using pump_step_dropped [OF assms] .

theorem relay_drops_foreign_modes_witness:
  "\<exists>s' out pkt'. pump_step 0 (Some 14) B_to_A 0 (build_packet 7 160 42 97 [0xF0]) (demo_session True) =
     Some (s', Some out) \<and> parse_packet out = Some pkt' \<and>
     (case speech_modes (pp_payload pkt') Nb True of None \<Rightarrow> True
      | Some modes \<Rightarrow> list_all (allows \<lparr>mg_modes = 0x0F, mg_drop = True\<rparr>) modes)"
proof -
  let ?p = "build_packet 7 160 42 97 [0xF0]"
  have "?p ! Suc 0 = 97" "length ?p = 13" by (simp_all add: build_packet_def)
  moreover have "speech_modes [0xF0] Nb True = None"
    by (simp add: speech_modes_def speech_modes_from.simps toc_entry_at_def)
  ultimately have "\<exists>s' out. pump_step 0 (Some 14) B_to_A 0 ?p (demo_session True) = Some (s', Some out)"
    by (simp add: demo_eval Let_def get_at_def)
  then obtain s' out where st: "pump_step 0 (Some 14) B_to_A 0 ?p (demo_session True) = Some (s', Some out)" by blast
  have "\<exists>pkt'. parse_packet out = Some pkt' \<and>
      (case speech_modes (pp_payload pkt') (fs_kind (demo_session True)) (li_octet_aligned (fs_a (demo_session True))) of
         None \<Rightarrow> True | Some modes \<Rightarrow> list_all (allows \<lparr>mg_modes = 0x0F, mg_drop = True\<rparr>) modes)"
    by (rule relay_drops_foreign_modes [OF st, where st = guard_stats_default and pkt = "\<lparr>pp_seq = 7, pp_timestamp = 160,
         pp_ssrc = 42, pp_payload_type = 97, pp_payload = [0xF0]\<rparr>"])
       (simp_all add: demo_session_def forward_start_def leg_io_new_def demo_leg_def dtmf_pt_def dtmf_word_def)
  with st show ?thesis by (auto simp: demo_session_def forward_start_def leg_io_new_def demo_leg_def)
qed

text \<open>Once a datagram from the client's current address has been accepted, that address is settled:
  over any further sequence of datagrams, with source latching on or off, no datagram from another
  address enters the call.\<close>

theorem relay_source_settles:
  assumes "li_remote l = Dynamic (Some a)" "accepts_from l a packet = (l', True)"
  shows "set (accepted l' ds) \<subseteq> {a}"
proof -
  have "l' = l\<lparr>li_confirmed := Some a\<rparr>" using assms by (simp add: accepts_from_def)
  with assms(1) show ?thesis by (intro accepted_settled) simp_all
qed

theorem relay_source_settles_witness:
  "set (accepted (\<lparr>li_remote = Dynamic (Some (1 :: nat)), li_payload_type = 96, li_dtmf = NO_DTMF,
      li_octet_aligned = True, li_latch = True, li_confirmed = Some 1\<rparr>)
      [(2, build_packet 7 160 42 96 [])]) \<subseteq> {1}"
  by (rule relay_source_settles [of "\<lparr>li_remote = Dynamic (Some 1), li_payload_type = 96, li_dtmf = NO_DTMF,
      li_octet_aligned = True, li_latch = True, li_confirmed = None\<rparr>" 1 "[]"])
     (simp_all add: accepts_from_def)

end
