(* ===== verification/Restart_Scheduler.thy ===== *)
theory Restart_Scheduler
  imports Rust_Text "HOL-Library.Multiset"
begin

text \<open>
  The scheduled restart of the cards (\<^verbatim>\<open>modules/scheduler.rs\<close>, \<^verbatim>\<open>modules/restart_policy.rs\<close>, and the
  checks of its section in \<^verbatim>\<open>config/build.rs\<close>): one cycle walks over the slots, restarts the idle ones one at
  a time, defers those with a call to the end of the cycle, and records what became of each. The random
  source is the argument \<open>rng\<close>: the answer of a draw from \<open>-m..=m\<close>. The outer \<open>None\<close> is a panic.
\<close>

section \<open>Configuration\<close>

record scheduled_restart_config =
  sr_enabled :: bool
  sr_cron :: text_string
  sr_start_jitter_seconds :: u64
  sr_inter_card_gap_seconds :: u64
  sr_inter_card_gap_jitter_seconds :: u64
  sr_restart_mode :: text_string

definition default_scheduled_restart :: scheduled_restart_config where
  "default_scheduled_restart =
     \<lparr>sr_enabled = True, sr_cron = lit ''0 1 * * *'', sr_start_jitter_seconds = 600, sr_inter_card_gap_seconds = 30,
      sr_inter_card_gap_jitter_seconds = 15, sr_restart_mode = lit ''full''\<rparr>"

definition disabled_scheduled_restart :: scheduled_restart_config where
  "disabled_scheduled_restart = default_scheduled_restart\<lparr>sr_enabled := False\<rparr>"

definition in_range_or_warn :: "u64 \<Rightarrow> u64 \<Rightarrow> u64 \<Rightarrow> u64 option" where
  "in_range_or_warn value low high = (if low \<le> value \<and> value \<le> high then Some value else None)"

text \<open>\<open>cron_ok\<close> is whether the cron library accepts a seven-field expression. The raw section has the fields
  of the checked one.\<close>

definition build_scheduled_restart :: "(text_string \<Rightarrow> bool) \<Rightarrow> scheduled_restart_config \<Rightarrow> scheduled_restart_config" where
  "build_scheduled_restart cron_ok raw =
     (if \<not> sr_enabled raw then default_scheduled_restart\<lparr>sr_enabled := False\<rparr>
      else if sr_cron raw = [] then disabled_scheduled_restart
      else
        (case (in_range_or_warn (sr_start_jitter_seconds raw) 0 86400,
               in_range_or_warn (sr_inter_card_gap_seconds raw) 0 3600,
               in_range_or_warn (sr_inter_card_gap_jitter_seconds raw) 0 3600) of
           (Some start_jitter, Some gap, Some gap_jitter) \<Rightarrow>
             if gap < gap_jitter then disabled_scheduled_restart
             else if \<not> cron_ok (lit ''0 '' @ sr_cron raw @ lit '' *'') then disabled_scheduled_restart
             else if sr_restart_mode raw \<noteq> lit ''full'' \<and> sr_restart_mode raw \<noteq> lit ''radio'' then disabled_scheduled_restart
             else
               \<lparr>sr_enabled = True, sr_cron = sr_cron raw, sr_start_jitter_seconds = start_jitter, sr_inter_card_gap_seconds = gap,
                sr_inter_card_gap_jitter_seconds = gap_jitter, sr_restart_mode = sr_restart_mode raw\<rparr>
         | _ \<Rightarrow> disabled_scheduled_restart))"

text \<open>The error of the expression check: its class, with the number of fields where that is wrong.\<close>

datatype cron_error = CronEmpty | CronFields nat | CronInvalid

definition parse_cron_5field :: "(text_string \<Rightarrow> 's option) \<Rightarrow> text_string \<Rightarrow> cron_error + 's" where
  "parse_cron_5field cron_parse expr =
     (let trimmed = trim expr
      in if trimmed = [] then Inl CronEmpty
         else
           (let n_fields = length (split_whitespace trimmed)
            in if n_fields \<noteq> 5 then Inl (CronFields n_fields)
               else ok_or (cron_parse (lit ''0 '' @ trimmed @ lit '' *'')) CronInvalid))"

section \<open>Restart modes\<close>

datatype restart_mode = Radio | Full

definition parse_restart_mode :: "text_string \<Rightarrow> restart_mode option" where
  "parse_restart_mode s = (if s = lit ''full'' then Some Full else if s = lit ''radio'' then Some Radio else None)"

definition scheduled_restart_mode :: "scheduled_restart_config \<Rightarrow> restart_mode" where
  "scheduled_restart_mode config = (if sr_restart_mode config = lit ''radio'' then Radio else Full)"

definition RECOVERY_RETRY_DELAY :: duration where
  "RECOVERY_RETRY_DELAY = secs 10"

definition RADIO_RESTART_RETRY_DELAY :: duration where
  "RADIO_RESTART_RETRY_DELAY = secs 30"

definition retry_delay_for :: "restart_mode \<Rightarrow> bool \<Rightarrow> duration" where
  "retry_delay_for mode had_worker =
     (if had_worker \<and> mode = Full then RECOVERY_RETRY_DELAY else RADIO_RESTART_RETRY_DELAY)"

section \<open>The state of a cycle\<close>

datatype cycle_phase = PhaseInitial | PhaseDeferredRetry | PhaseComplete

datatype attempt_type = AttemptInitial | AttemptDeferredRetry

record current_card =
  cc_slot :: u32
  cc_attempt :: attempt_type
  cc_started_at :: instant
  cc_deadline :: instant

datatype skip_reason = NonReady text_string | ActiveCall | SlotDisappeared

datatype outcome =
    OutSuccess | OutFailed text_string | OutDeferred text_string | OutSkipped skip_reason | OutTimedOut
  | OutAlreadyRestartedByManual

record cycle_outcome =
  co_slot :: u32
  co_attempt :: attempt_type
  co_outcome :: outcome
  co_duration :: duration

definition metric_label :: "outcome \<Rightarrow> text_string" where
  "metric_label oc =
     (case oc of
        OutSuccess \<Rightarrow> lit ''success''
      | OutFailed _ \<Rightarrow> lit ''failed''
      | OutDeferred _ \<Rightarrow> lit ''deferred''
      | OutSkipped (NonReady _) \<Rightarrow> lit ''skipped-non-ready''
      | OutSkipped ActiveCall \<Rightarrow> lit ''skipped-active-call''
      | OutSkipped SlotDisappeared \<Rightarrow> lit ''skipped-slot-disappeared''
      | OutTimedOut \<Rightarrow> lit ''timed-out''
      | OutAlreadyRestartedByManual \<Rightarrow> lit ''skipped-already-restarted-by-manual'')"

record cycle_state =
  cy_id :: u64
  cy_cron_tick :: int
  cy_started_at :: instant
  cy_phase :: cycle_phase
  cy_pending :: "u32 list"
  cy_deferred :: "u32 list"
  cy_current :: "current_card option"
  cy_next_action_at :: instant
  cy_outcomes :: "cycle_outcome list"

datatype restart_progress = InFlight | Succeeded | Failed | Gone

text \<open>What the scheduler can ask about the slots.\<close>

record slot_view =
  sv_is_ready :: "u32 \<Rightarrow> bool"
  sv_non_ready_skip_reason :: "u32 \<Rightarrow> text_string option"
  sv_has_active_call :: "u32 \<Rightarrow> bool"
  sv_restart_progress :: "u32 \<Rightarrow> restart_progress"

datatype scheduler_action = SendReboot u32 | RecordOutcome u32 cycle_outcome | CycleComplete

section \<open>Manual restarts during a cycle\<close>

datatype manual_restart_cycle_advice = AdviceProceed | AdviceReject u64 | AdvicePreemptAndProceed

definition handle_manual_restart_during_cycle ::
  "cycle_state \<Rightarrow> u32 \<Rightarrow> manual_restart_cycle_advice \<times> cycle_state" where
  "handle_manual_restart_during_cycle cycle slot =
     (if (case cy_current cycle of Some current \<Rightarrow> cc_slot current = slot | None \<Rightarrow> False) then (AdviceReject (cy_id cycle), cycle)
      else
        (let was_pending = (slot \<in> set (cy_pending cycle));
             was_deferred = (slot \<in> set (cy_deferred cycle));
             cycle = cycle\<lparr>cy_pending := remove1 slot (cy_pending cycle), cy_deferred := remove1 slot (cy_deferred cycle)\<rparr>
         in if was_pending \<or> was_deferred then
              (AdvicePreemptAndProceed,
               cycle\<lparr>cy_outcomes := cy_outcomes cycle @
                 [\<lparr>co_slot = slot, co_attempt = AttemptInitial, co_outcome = OutAlreadyRestartedByManual, co_duration = 0\<rparr>]\<rparr>)
            else (AdviceProceed, cycle)))"

section \<open>Times\<close>

definition jitter_offset :: "(int \<Rightarrow> int) \<Rightarrow> u64 \<Rightarrow> int option" where
  "jitter_offset rng max_seconds =
     (if max_seconds = 0 then Some 0
      else if 0 < sint max_seconds then Some (rng (sint max_seconds))
      else None)"

definition gap_with_jitter :: "(int \<Rightarrow> int) \<Rightarrow> u64 \<Rightarrow> u64 \<Rightarrow> duration option" where
  "gap_with_jitter rng base jitter =
     Option.bind (jitter_offset rng jitter) (\<lambda>off.
       let raw = sint base + off
       in if raw < - (2 ^ 63) \<or> 2 ^ 63 \<le> raw then None else Some (secs (nat raw)))"

definition PER_CARD_TIMEOUT :: duration where
  "PER_CARD_TIMEOUT = secs 60"

definition REBOOT_SETTLE_DELAY :: duration where
  "REBOOT_SETTLE_DELAY = secs 10"

section \<open>A step of the cycle\<close>

text \<open>What the polled progress of the current card amounts to; \<open>None\<close>: still under way.\<close>

definition current_outcome :: "slot_view \<Rightarrow> instant \<Rightarrow> current_card \<Rightarrow> outcome option" where
  "current_outcome view now current =
     (case sv_restart_progress view (cc_slot current) of
        Succeeded \<Rightarrow> Some OutSuccess
      | Failed \<Rightarrow> Some (OutFailed (lit ''slot reached GivenUp during restart''))
      | Gone \<Rightarrow> Some (OutSkipped SlotDisappeared)
      | InFlight \<Rightarrow> if cc_deadline current \<le> now then Some OutTimedOut else None)"

text \<open>What a slot whose turn has come gets instead of a restart; \<open>None\<close>: it is restarted.\<close>

definition turn_outcome :: "slot_view \<Rightarrow> attempt_type \<Rightarrow> u32 \<Rightarrow> outcome option" where
  "turn_outcome view attempt slot =
     (case sv_non_ready_skip_reason view slot of
        Some reason \<Rightarrow> Some (OutSkipped (NonReady reason))
      | None \<Rightarrow>
          if sv_has_active_call view slot then
            (case attempt of
               AttemptInitial \<Rightarrow> Some (OutDeferred (lit ''active call''))
             | AttemptDeferredRetry \<Rightarrow> Some (OutSkipped ActiveCall))
          else if \<not> sv_is_ready view slot then Some (OutSkipped (NonReady (lit ''not ready at turn'')))
          else None)"

definition is_deferral :: "outcome \<Rightarrow> bool" where
  "is_deferral oc = (case oc of OutDeferred _ \<Rightarrow> True | _ \<Rightarrow> False)"

definition phase_attempt :: "cycle_phase \<Rightarrow> attempt_type" where
  "phase_attempt ph = (if ph = PhaseInitial then AttemptInitial else AttemptDeferredRetry)"

definition begin_restart :: "cycle_state \<Rightarrow> u32 \<Rightarrow> instant \<Rightarrow> cycle_state" where
  "begin_restart state slot now =
     state\<lparr>cy_current := Some \<lparr>cc_slot = slot, cc_attempt = phase_attempt (cy_phase state), cc_started_at = now,
                               cc_deadline = now + PER_CARD_TIMEOUT\<rparr>,
           cy_next_action_at := now + REBOOT_SETTLE_DELAY\<rparr>"

definition skip_slot :: "cycle_state \<Rightarrow> u32 \<Rightarrow> outcome \<Rightarrow> cycle_state \<times> scheduler_action" where
  "skip_slot state slot oc =
     (let entry = \<lparr>co_slot = slot, co_attempt = phase_attempt (cy_phase state), co_outcome = oc, co_duration = 0\<rparr>
      in (state\<lparr>cy_outcomes := cy_outcomes state @ [entry],
                cy_deferred := (if is_deferral oc then cy_deferred state @ [slot] else cy_deferred state)\<rparr>,
          RecordOutcome slot entry))"

text \<open>The turns of the phase and of the one after it that are still to come.\<close>

definition turns_left :: "cycle_state \<Rightarrow> nat" where
  "turns_left state =
     (case cy_phase state of
        PhaseInitial \<Rightarrow> 2 * length (cy_pending state) + length (cy_deferred state)
      | PhaseDeferredRetry \<Rightarrow> length (cy_deferred state)
      | PhaseComplete \<Rightarrow> 0)"

lemma turn_outcome_retry: "turn_outcome view AttemptDeferredRetry slot = Some oc \<Longrightarrow> \<not> is_deferral oc"
  by (auto simp: turn_outcome_def is_deferral_def split: option.splits if_splits)

text \<open>The loop over the queue of the phase.\<close>

function (sequential) next_card :: "slot_view \<Rightarrow> instant \<Rightarrow> cycle_state \<Rightarrow> cycle_state \<times> scheduler_action list" where
  "next_card view now state =
     (case cy_phase state of
        PhaseComplete \<Rightarrow> (state, [])
      | PhaseInitial \<Rightarrow>
          (case cy_pending state of
             [] \<Rightarrow>
               if cy_deferred state = [] then (state\<lparr>cy_phase := PhaseComplete\<rparr>, [CycleComplete])
               else next_card view now (state\<lparr>cy_phase := PhaseDeferredRetry\<rparr>)
           | slot # rest \<Rightarrow>
               (case turn_outcome view AttemptInitial slot of
                  None \<Rightarrow> (begin_restart (state\<lparr>cy_pending := rest\<rparr>) slot now, [SendReboot slot])
                | Some oc \<Rightarrow>
                    (case skip_slot (state\<lparr>cy_pending := rest\<rparr>) slot oc of
                       (state, act) \<Rightarrow> apsnd (Cons act) (next_card view now state))))
      | PhaseDeferredRetry \<Rightarrow>
          (case cy_deferred state of
             [] \<Rightarrow> (state\<lparr>cy_phase := PhaseComplete\<rparr>, [CycleComplete])
           | slot # rest \<Rightarrow>
               (case turn_outcome view AttemptDeferredRetry slot of
                  None \<Rightarrow> (begin_restart (state\<lparr>cy_deferred := rest\<rparr>) slot now, [SendReboot slot])
                | Some oc \<Rightarrow>
                    (case skip_slot (state\<lparr>cy_deferred := rest\<rparr>) slot oc of
                       (state, act) \<Rightarrow> apsnd (Cons act) (next_card view now state)))))"
  by pat_completeness auto
termination
  by (relation "measure (\<lambda>(_, _, s). 2 * turns_left s + (if cy_phase s = PhaseInitial then 1 else 0))")
    (auto simp: turns_left_def skip_slot_def Let_def dest!: turn_outcome_retry split: if_splits)

definition tick_scheduler ::
  "cycle_state \<Rightarrow> slot_view \<Rightarrow> instant \<Rightarrow> (int \<Rightarrow> int) \<Rightarrow> u64 \<Rightarrow> u64 \<Rightarrow> (cycle_state \<times> scheduler_action list) option" where
  "tick_scheduler state view now rng gap_base gap_jitter =
     (case cy_current state of
        None \<Rightarrow> Some (next_card view now state)
      | Some current \<Rightarrow>
          (case current_outcome view now current of
             None \<Rightarrow> Some (state\<lparr>cy_next_action_at := min (now + secs 1) (cc_deadline current)\<rparr>, [])
           | Some oc \<Rightarrow>
               map_option (\<lambda>gap.
                 let entry = \<lparr>co_slot = cc_slot current, co_attempt = cc_attempt current, co_outcome = oc,
                              co_duration = now - cc_started_at current\<rparr>
                 in apsnd (Cons (RecordOutcome (cc_slot current) entry))
                      (next_card view now (state\<lparr>cy_outcomes := cy_outcomes state @ [entry], cy_current := None,
                                                 cy_next_action_at := now + gap\<rparr>)))
                 (gap_with_jitter rng gap_base gap_jitter)))"

declare next_card.simps [simp del]

section \<open>What one step does\<close>

definition reboots :: "scheduler_action list \<Rightarrow> u32 list" where
  "reboots acts = List.map_filter (\<lambda>a. case a of SendReboot s \<Rightarrow> Some s | _ \<Rightarrow> None) acts"

lemma reboots_simps [simp]:
  "reboots [] = []" "reboots (SendReboot s # acts) = s # reboots acts" "reboots (RecordOutcome s oc # acts) = reboots acts"
  "reboots (CycleComplete # acts) = reboots acts"
  by (simp_all add: reboots_def)

lemma reboots_append [simp]: "reboots (xs @ ys) = reboots xs @ reboots ys"
  by (simp add: reboots_def List.map_filter_def)

definition idle_in :: "slot_view \<Rightarrow> u32 \<Rightarrow> bool" where
  "idle_in view s \<longleftrightarrow> sv_is_ready view s \<and> \<not> sv_has_active_call view s \<and> sv_non_ready_skip_reason view s = None"

lemma turn_idle: "turn_outcome view attempt s = None \<longleftrightarrow> idle_in view s"
  by (auto simp: turn_outcome_def idle_in_def split: option.splits attempt_type.splits)

text \<open>What the code relies on from an implementation of the view: a slot without a reason to skip it is in
  service, and a slot in service has no restart under way.\<close>

locale slot_view_laws =
  fixes view :: slot_view
  assumes unskipped_ready: "sv_non_ready_skip_reason view s = None \<Longrightarrow> sv_is_ready view s"
    and ready_succeeded: "sv_is_ready view s \<Longrightarrow> sv_restart_progress view s = Succeeded"
begin

lemma turn_restarts: "turn_outcome view attempt s = None \<longleftrightarrow> sv_non_ready_skip_reason view s = None \<and> \<not> sv_has_active_call view s"
  using unskipped_ready [of s] by (auto simp: turn_idle idle_in_def)

lemma ready_settles: "sv_is_ready view (cc_slot c) \<Longrightarrow> current_outcome view now c = Some OutSuccess"
  by (simp add: current_outcome_def ready_succeeded)

end

text \<open>The slots that are done, and those the cycle still has to see to.\<close>

definition final_slots :: "cycle_outcome list \<Rightarrow> u32 list" where
  "final_slots ocs = map co_slot (filter (\<lambda>oc. \<not> is_deferral (co_outcome oc)) ocs)"

definition queued :: "cycle_state \<Rightarrow> u32 multiset" where
  "queued state = mset (cy_pending state) + mset (cy_deferred state)"

definition under_way :: "cycle_state \<Rightarrow> u32 multiset" where
  "under_way state = (case cy_current state of Some c \<Rightarrow> {#cc_slot c#} | None \<Rightarrow> {#})"

lemma final_slots_simps [simp]:
  "final_slots [] = []" "final_slots (xs @ ys) = final_slots xs @ final_slots ys"
  "final_slots [oc] = (if is_deferral (co_outcome oc) then [] else [co_slot oc])"
  by (simp_all add: final_slots_def)

definition phase_ok :: "cycle_state \<Rightarrow> bool" where
  "phase_ok state \<longleftrightarrow>
     (cy_phase state \<noteq> PhaseInitial \<longrightarrow> cy_pending state = []) \<and>
     (cy_phase state = PhaseComplete \<longrightarrow> cy_deferred state = [] \<and> cy_current state = None)"

text \<open>
  What a pass over the queue leaves: either the cycle is complete, or exactly one idle slot is being
  restarted. Every slot passed over is recorded or deferred.
\<close>

definition advanced :: "slot_view \<Rightarrow> instant \<Rightarrow> cycle_state \<Rightarrow> cycle_state \<Rightarrow> scheduler_action list \<Rightarrow> bool" where
  "advanced view now state state' acts \<longleftrightarrow>
     phase_ok state' \<and>
     (\<exists>new. cy_outcomes state' = cy_outcomes state @ new) \<and>
     mset (final_slots (cy_outcomes state')) + queued state' + under_way state' =
       mset (final_slots (cy_outcomes state)) + queued state \<and>
     mset (reboots acts) = under_way state' \<and>
     (cy_current state' = None \<longleftrightarrow> cy_phase state' = PhaseComplete) \<and>
     (\<forall>c. cy_current state' = Some c \<longrightarrow>
        idle_in view (cc_slot c) \<and> cc_deadline c = now + PER_CARD_TIMEOUT \<and> cc_started_at c = now \<and>
        cy_next_action_at state' = now + REBOOT_SETTLE_DELAY \<and> turns_left state' < turns_left state)"

lemma next_card_advanced:
  assumes "phase_ok state" "cy_current state = None" "next_card view now state = (state', acts)"
  shows "advanced view now state state' acts"
  using assms
proof (induction view now state arbitrary: state' acts rule: next_card.induct)
  case (1 view now state)
  note unfold = next_card.simps [of view now state]
  show ?case
  proof (cases "cy_phase state")
    case PhaseComplete
    then show ?thesis using 1(4-) by (auto simp: unfold advanced_def under_way_def)
  next
    case PhaseInitial
    note ph = this
    show ?thesis
    proof (cases "cy_pending state")
      case Nil
      show ?thesis
      proof (cases "cy_deferred state = []")
        case True
        then show ?thesis using 1(5,6) ph Nil by (auto simp: unfold advanced_def under_way_def phase_ok_def queued_def)
      next
        case False
        have "next_card view now (state\<lparr>cy_phase := PhaseDeferredRetry\<rparr>) = (state', acts)"
          using 1(6) ph Nil False by (simp add: unfold)
        from 1(1) [OF ph Nil False _ _ this] have "advanced view now (state\<lparr>cy_phase := PhaseDeferredRetry\<rparr>) state' acts"
          using 1(5) Nil by (simp add: phase_ok_def)
        then show ?thesis using ph Nil by (simp add: advanced_def queued_def turns_left_def)
      qed
    next
      case (Cons slot rest)
      show ?thesis
      proof (cases "turn_outcome view AttemptInitial slot")
        case None
        then have "idle_in view slot" by (simp add: turn_idle)
        with None show ?thesis using 1(5,6) ph Cons
          by (auto simp: unfold advanced_def begin_restart_def under_way_def queued_def phase_ok_def turns_left_def)
      next
        case (Some oc)
        define mid where "mid = fst (skip_slot (state\<lparr>cy_pending := rest\<rparr>) slot oc)"
        define act where "act = snd (skip_slot (state\<lparr>cy_pending := rest\<rparr>) slot oc)"
        have sk: "skip_slot (state\<lparr>cy_pending := rest\<rparr>) slot oc = (mid, act)" by (simp add: mid_def act_def)
        obtain acts' where rec: "next_card view now mid = (state', acts')" and acts: "acts = act # acts'"
          using 1(6) ph Cons Some sk by (cases "next_card view now mid") (auto simp: unfold)
        have mid: "phase_ok mid" "cy_current mid = None"
          using 1(5) ph by (simp_all add: mid_def skip_slot_def Let_def phase_ok_def)
        from 1(2) [OF ph Cons Some sk [symmetric] mid rec] have "advanced view now mid state' acts'" .
        then show ?thesis using ph Cons acts
          by (auto simp: advanced_def queued_def turns_left_def mid_def act_def skip_slot_def Let_def split: if_splits)
      qed
    qed
  next
    case PhaseDeferredRetry
    note ph = this
    show ?thesis
    proof (cases "cy_deferred state")
      case Nil
      then show ?thesis using 1(4-) ph by (auto simp: unfold advanced_def under_way_def phase_ok_def queued_def)
    next
      case (Cons slot rest)
      show ?thesis
      proof (cases "turn_outcome view AttemptDeferredRetry slot")
        case None
        then have "idle_in view slot" by (simp add: turn_idle)
        with None show ?thesis using 1(4-) ph Cons
          by (auto simp: unfold advanced_def begin_restart_def under_way_def queued_def phase_ok_def turns_left_def)
      next
        case (Some oc)
        define mid where "mid = fst (skip_slot (state\<lparr>cy_deferred := rest\<rparr>) slot oc)"
        define act where "act = snd (skip_slot (state\<lparr>cy_deferred := rest\<rparr>) slot oc)"
        have sk: "skip_slot (state\<lparr>cy_deferred := rest\<rparr>) slot oc = (mid, act)" by (simp add: mid_def act_def)
        obtain acts' where rec: "next_card view now mid = (state', acts')" and acts: "acts = act # acts'"
          using 1(6) ph Cons Some sk by (cases "next_card view now mid") (auto simp: unfold)
        have mid: "phase_ok mid" "cy_current mid = None"
          using 1(4,5) ph by (simp_all add: mid_def skip_slot_def Let_def phase_ok_def)
        from 1(3) [OF ph Cons Some sk [symmetric] mid rec] have "advanced view now mid state' acts'" .
        then show ?thesis using ph Cons acts turn_outcome_retry [OF Some]
          by (auto simp: advanced_def queued_def turns_left_def mid_def act_def skip_slot_def Let_def)
      qed
    qed
  qed
qed

lemma advanced_queue:
  assumes "advanced view now state state' acts"
  shows "queued state' + mset (reboots acts) \<subseteq># queued state"
    and "\<forall>s \<in> set (reboots acts). idle_in view s \<and> reboots acts = [s] \<and> (\<exists>c. cy_current state' = Some c \<and> cc_slot c = s)"
proof -
  from assms obtain new where "cy_outcomes state' = cy_outcomes state @ new"
    "mset (final_slots (cy_outcomes state')) + queued state' + under_way state' = mset (final_slots (cy_outcomes state)) + queued state"
    "mset (reboots acts) = under_way state'"
    by (auto simp: advanced_def)
  then have "queued state = mset (final_slots new) + (queued state' + mset (reboots acts))" by (simp add: ac_simps)
  then show "queued state' + mset (reboots acts) \<subseteq># queued state" by simp
  show "\<forall>s \<in> set (reboots acts). idle_in view s \<and> reboots acts = [s] \<and> (\<exists>c. cy_current state' = Some c \<and> cc_slot c = s)"
  proof (cases "cy_current state'")
    case None
    then show ?thesis using assms by (simp add: advanced_def under_way_def)
  next
    case (Some c)
    then show ?thesis using assms by (simp add: advanced_def under_way_def)
  qed
qed

lemma advanced_books:
  assumes "advanced view now state state' acts"
  shows "phase_ok state'"
    and "mset (final_slots (cy_outcomes state')) + queued state' + under_way state' =
      mset (final_slots (cy_outcomes state)) + queued state"
  using assms by (simp_all add: advanced_def)

lemma tick_none_current:
  assumes "phase_ok state" "cy_current state = None" "tick_scheduler state view now rng gb gj = Some (state', acts)"
  shows "advanced view now state state' acts"
  using assms by (intro next_card_advanced) (simp_all add: tick_scheduler_def)

definition settled :: "cycle_state \<Rightarrow> current_card \<Rightarrow> outcome \<Rightarrow> instant \<Rightarrow> duration \<Rightarrow> cycle_state" where
  "settled state current oc now gap =
     state\<lparr>cy_outcomes := cy_outcomes state @
             [\<lparr>co_slot = cc_slot current, co_attempt = cc_attempt current, co_outcome = oc, co_duration = now - cc_started_at current\<rparr>],
           cy_current := None, cy_next_action_at := now + gap\<rparr>"

lemma current_outcome_final: "current_outcome view now current = Some oc \<Longrightarrow> \<not> is_deferral oc"
  by (auto simp: current_outcome_def is_deferral_def split: restart_progress.splits if_splits)

lemma tick_settles:
  assumes "phase_ok state" "cy_current state = Some current" "current_outcome view now current = Some oc"
    and "tick_scheduler state view now rng gb gj = Some (state', acts)"
  obtains gap acts' entry where "gap_with_jitter rng gb gj = Some gap" "acts = RecordOutcome (cc_slot current) entry # acts'"
    "next_card view now (settled state current oc now gap) = (state', acts')"
    "advanced view now (settled state current oc now gap) state' acts'"
proof -
  from assms(2-4) obtain gap where gap: "gap_with_jitter rng gb gj = Some gap"
    by (auto simp: tick_scheduler_def)
  obtain st as where n: "next_card view now (settled state current oc now gap) = (st, as)" by fastforce
  have ok: "phase_ok (settled state current oc now gap)" "cy_current (settled state current oc now gap) = None"
    using assms(1,2) by (auto simp: settled_def phase_ok_def)
  have "state' = st" "\<exists>entry. acts = RecordOutcome (cc_slot current) entry # as"
    using assms(2-4) gap n by (auto simp: tick_scheduler_def Let_def settled_def)
  then show ?thesis using that gap n next_card_advanced [OF ok n] by blast
qed

lemma tick_waits:
  assumes "cy_current state = Some current" "current_outcome view now current = None"
    and "tick_scheduler state view now rng gb gj = Some (state', acts)"
  shows "acts = []" "state' = state\<lparr>cy_next_action_at := min (now + secs 1) (cc_deadline current)\<rparr>"
  using assms by (simp_all add: tick_scheduler_def)

text \<open>The books of a step: nothing is lost, and what is rebooted comes from the queue.\<close>

lemma tick_books:
  assumes "phase_ok state" "tick_scheduler state view now rng gb gj = Some (state', acts)"
  shows "phase_ok state'"
    and "mset (final_slots (cy_outcomes state')) + queued state' + under_way state' =
      mset (final_slots (cy_outcomes state)) + queued state + under_way state"
    and "queued state' + mset (reboots acts) \<subseteq># queued state"
    and "\<forall>s \<in> set (reboots acts). idle_in view s \<and> reboots acts = [s] \<and> (\<exists>c. cy_current state' = Some c \<and> cc_slot c = s)"
proof -
  have "phase_ok state' \<and>
    mset (final_slots (cy_outcomes state')) + queued state' + under_way state' =
      mset (final_slots (cy_outcomes state)) + queued state + under_way state \<and>
    queued state' + mset (reboots acts) \<subseteq># queued state \<and>
    (\<forall>s \<in> set (reboots acts). idle_in view s \<and> reboots acts = [s] \<and> (\<exists>c. cy_current state' = Some c \<and> cc_slot c = s))"
  proof (cases "cy_current state")
    case None
    from tick_none_current [OF assms(1) None assms(2)] have adv: "advanced view now state state' acts" .
    have "under_way state = {#}" using None by (simp add: under_way_def)
    then show ?thesis using advanced_books [OF adv] advanced_queue [OF adv] by simp
  next
    case (Some current)
    show ?thesis
    proof (cases "current_outcome view now current")
      case None
      show ?thesis using tick_waits [OF Some None assms(2)] assms(1) Some by (simp add: phase_ok_def queued_def under_way_def)
    next
      case over: (Some oc)
      from tick_settles [OF assms(1) Some over assms(2)] obtain gap acts' entry where
        acts: "acts = RecordOutcome (cc_slot current) entry # acts'" and
        adv: "advanced view now (settled state current oc now gap) state' acts'" by metis
      have "final_slots (cy_outcomes (settled state current oc now gap)) = final_slots (cy_outcomes state) @ [cc_slot current]"
        "queued (settled state current oc now gap) = queued state"
        using current_outcome_final [OF over] by (simp_all add: settled_def queued_def)
      moreover have "under_way state = {#cc_slot current#}" using Some by (simp add: under_way_def)
      ultimately show ?thesis using advanced_books [OF adv] advanced_queue [OF adv] acts by simp
    qed
  qed
  then show "phase_ok state'"
    and "mset (final_slots (cy_outcomes state')) + queued state' + under_way state' =
      mset (final_slots (cy_outcomes state)) + queued state + under_way state"
    and "queued state' + mset (reboots acts) \<subseteq># queued state"
    and "\<forall>s \<in> set (reboots acts). idle_in view s \<and> reboots acts = [s] \<and> (\<exists>c. cy_current state' = Some c \<and> cc_slot c = s)"
    by blast+
qed

section \<open>Whole cycles\<close>

text \<open>A cycle as it is started, on the sorted slots of the pool.\<close>

definition new_cycle :: "u64 \<Rightarrow> int \<Rightarrow> instant \<Rightarrow> u32 list \<Rightarrow> cycle_state" where
  "new_cycle cycle_id cron_tick now slots =
     \<lparr>cy_id = cycle_id, cy_cron_tick = cron_tick, cy_started_at = now, cy_phase = PhaseInitial, cy_pending = slots, cy_deferred = [],
      cy_current = None, cy_next_action_at = now, cy_outcomes = []\<rparr>"

text \<open>What happens to a cycle: the event loop ticks it, and manual restarts come in between.\<close>

datatype cycle_event = Ticked slot_view instant "int \<Rightarrow> int" | Manual u32

definition cycle_step :: "u64 \<Rightarrow> u64 \<Rightarrow> cycle_event \<Rightarrow> cycle_state \<Rightarrow> (cycle_state \<times> scheduler_action list) option" where
  "cycle_step gb gj ev state =
     (case ev of
        Ticked view now rng \<Rightarrow> tick_scheduler state view now rng gb gj
      | Manual slot \<Rightarrow> Some (snd (handle_manual_restart_during_cycle state slot), []))"

fun cycle_run :: "u64 \<Rightarrow> u64 \<Rightarrow> cycle_event list \<Rightarrow> cycle_state \<Rightarrow> (cycle_state \<times> scheduler_action list) option" where
  "cycle_run gb gj [] state = Some (state, [])"
| "cycle_run gb gj (ev # evs) state =
     Option.bind (cycle_step gb gj ev state) (\<lambda>(state, acts). map_option (apsnd (append acts)) (cycle_run gb gj evs state))"

lemma distinct_submset:
  assumes "mset xs \<subseteq># mset ys" "distinct ys" shows "distinct xs"
proof -
  obtain M where "mset ys = mset xs + M" using assms(1) by (auto simp: mset_subset_eq_exists_conv)
  moreover obtain zs where "mset zs = M" using ex_mset by blast
  ultimately have "mset ys = mset (xs @ zs)" by simp
  then have "distinct (xs @ zs)" using assms(2) mset_eq_imp_distinct_iff by blast
  then show ?thesis by simp
qed

lemma submset_trans: "A \<subseteq># B \<Longrightarrow> B + C \<subseteq># D \<Longrightarrow> A + C \<subseteq># D" for A :: "'a multiset"
  using subset_mset.add_right_mono subset_mset.order_trans by blast

definition run_inv :: "u32 list \<Rightarrow> cycle_state \<Rightarrow> u32 list \<Rightarrow> bool" where
  "run_inv slots state rebooted \<longleftrightarrow>
     phase_ok state \<and>
     mset (final_slots (cy_outcomes state)) + queued state + under_way state = mset slots \<and>
     queued state + mset rebooted \<subseteq># mset slots"

lemma run_inv_new: "run_inv slots (new_cycle cycle_id cron_tick now slots) []"
  by (simp add: run_inv_def new_cycle_def phase_ok_def queued_def under_way_def)

lemma manual_books:
  assumes "phase_ok state" "\<not> (slot \<in> set (cy_pending state) \<and> slot \<in> set (cy_deferred state))"
  defines "state' \<equiv> snd (handle_manual_restart_during_cycle state slot)"
  shows "phase_ok state'"
    and "mset (final_slots (cy_outcomes state')) + queued state' + under_way state' =
      mset (final_slots (cy_outcomes state)) + queued state + under_way state"
    and "queued state' \<subseteq># queued state"
proof -
  let ?entry = "\<lparr>co_slot = slot, co_attempt = AttemptInitial, co_outcome = OutAlreadyRestartedByManual, co_duration = 0\<rparr>"
  have "phase_ok state' \<and>
    mset (final_slots (cy_outcomes state')) + queued state' + under_way state' =
      mset (final_slots (cy_outcomes state)) + queued state + under_way state \<and> queued state' \<subseteq># queued state"
  proof (cases "\<exists>c. cy_current state = Some c \<and> cc_slot c = slot")
    case True
    then have "state' = state" by (auto simp: state'_def handle_manual_restart_during_cycle_def)
    then show ?thesis using assms(1) by simp
  next
    case False
    then have "state' =
      (if slot \<in> set (cy_pending state) \<or> slot \<in> set (cy_deferred state) then
         state\<lparr>cy_pending := remove1 slot (cy_pending state), cy_deferred := remove1 slot (cy_deferred state),
               cy_outcomes := cy_outcomes state @ [?entry]\<rparr>
       else state)"
      by (cases state) (auto simp: state'_def handle_manual_restart_during_cycle_def Let_def remove1_idem split: option.split)
    then show ?thesis using assms(1,2)
      by (auto simp: phase_ok_def queued_def under_way_def is_deferral_def remove1_idem)
  qed
  then show "phase_ok state'"
    and "mset (final_slots (cy_outcomes state')) + queued state' + under_way state' =
      mset (final_slots (cy_outcomes state)) + queued state + under_way state"
    and "queued state' \<subseteq># queued state"
    by blast+
qed

lemma run_inv_step:
  assumes "distinct slots" "run_inv slots state rebooted" "cycle_step gb gj ev state = Some (state', acts)"
  shows "run_inv slots state' (rebooted @ reboots acts)"
proof (cases ev)
  case (Ticked view now rng)
  note books = tick_books [of state view now rng gb gj state' acts]
  have "queued state' + mset (reboots acts) + mset rebooted \<subseteq># mset slots"
    using submset_trans [OF books(3), of "mset rebooted" "mset slots"] assms(2,3) Ticked by (simp add: run_inv_def cycle_step_def)
  then show ?thesis using books(1,2) assms(2,3) Ticked by (simp add: run_inv_def cycle_step_def ac_simps)
next
  case (Manual slot)
  have "mset (cy_pending state) + mset (cy_deferred state) \<subseteq># mset slots"
    using assms(2) by (auto simp: run_inv_def queued_def intro: mset_subset_eq_add_left subset_mset.order_trans)
  then have "distinct (cy_pending state @ cy_deferred state)"
    using distinct_submset [of "cy_pending state @ cy_deferred state" slots] assms(1) by simp
  then have "\<not> (slot \<in> set (cy_pending state) \<and> slot \<in> set (cy_deferred state))" by auto
  note books = manual_books [OF _ this]
  have st: "state' = snd (handle_manual_restart_during_cycle state slot)" "acts = []"
    using assms(3) Manual by (simp_all add: cycle_step_def)
  have "queued state' + mset rebooted \<subseteq># mset slots"
    using submset_trans [OF books(3), of "mset rebooted" "mset slots"] assms(2) st by (simp add: run_inv_def)
  then show ?thesis using books(1,2) assms(2) st by (simp add: run_inv_def)
qed

lemma run_inv_run:
  assumes "distinct slots" "run_inv slots state rebooted" "cycle_run gb gj evs state = Some (state', acts)"
  shows "run_inv slots state' (rebooted @ reboots acts)"
  using assms(2,3)
proof (induction evs arbitrary: state rebooted acts)
  case (Cons ev evs)
  from Cons.prems(2) obtain mid acts1 acts2 where step: "cycle_step gb gj ev state = Some (mid, acts1)"
    and rest: "cycle_run gb gj evs mid = Some (state', acts2)" and acts: "acts = acts1 @ acts2"
    by (auto simp: bind_eq_Some_conv)
  show ?case using Cons.IH [OF run_inv_step [OF assms(1) Cons.prems(1) step] rest] by (simp add: acts)
qed simp

section \<open>Progress\<close>

text \<open>How many more ticks a cycle can take: each turn costs at most 53, the polls of a restart
  being a second apart between the settle delay and the timeout.\<close>

definition polls_left :: "cycle_state \<Rightarrow> nat" where
  "polls_left state =
     (case cy_current state of
        None \<Rightarrow> 0
      | Some c \<Rightarrow> 1 + (cc_deadline c - cy_next_action_at state + 999999999) div 1000000000)"

definition ticks_left :: "cycle_state \<Rightarrow> nat" where
  "ticks_left state = 53 * turns_left state + polls_left state + (if cy_phase state = PhaseComplete then 0 else 1)"

lemma poll_decreases:
  fixes k :: nat
  assumes "n \<le> now" "now < d" "0 < k"
  shows "(d - min (now + k) d + (k - 1)) div k < (d - n + (k - 1)) div k"
proof (cases "now + k \<le> d")
  case True
  then have "(d - min (now + k) d + (k - 1)) div k = (d - now - 1) div k" using assms by simp
  also have "\<dots> < (d - now - 1 + k) div k" using assms(3) div_add_self2 [of k "d - now - 1"] by simp
  also have "\<dots> \<le> (d - n + (k - 1)) div k" using assms by (intro div_le_mono) simp
  finally show ?thesis .
next
  case False
  have "k \<le> d - n + (k - 1)" using assms by simp
  then have "0 < (d - n + (k - 1)) div k" using assms(3) by (simp add: div_greater_zero_iff)
  then show ?thesis using False assms(3) by simp
qed

lemma advanced_ticks:
  assumes "advanced view now state state' acts" "turns_left state \<le> n"
  shows "ticks_left state' < 53 * n + 1"
proof (cases "cy_current state'")
  case None
  then show ?thesis using assms(1) by (simp add: advanced_def ticks_left_def polls_left_def turns_left_def)
next
  case (Some c)
  then have "polls_left state' = 51" "turns_left state' < n" "cy_phase state' \<noteq> PhaseComplete"
    using assms by (auto simp: advanced_def polls_left_def PER_CARD_TIMEOUT_def REBOOT_SETTLE_DELAY_def)
  then show ?thesis by (simp add: ticks_left_def)
qed

lemma tick_decreases:
  assumes "phase_ok state" "cy_phase state \<noteq> PhaseComplete" "cy_next_action_at state \<le> now"
    and "tick_scheduler state view now rng gb gj = Some (state', acts)"
  shows "ticks_left state' < ticks_left state"
proof (cases "cy_current state")
  case None
  show ?thesis using advanced_ticks [OF tick_none_current [OF assms(1) None assms(4)] order_refl] assms(2)
    by (simp add: ticks_left_def)
next
  case (Some current)
  show ?thesis
  proof (cases "current_outcome view now current")
    case None
    then have "now < cc_deadline current" by (auto simp: current_outcome_def split: restart_progress.splits if_splits)
    then have "polls_left state' < polls_left state"
      unfolding polls_left_def
      using tick_waits(2) [OF Some None assms(4)] Some poll_decreases [OF assms(3), of "cc_deadline current" 1000000000]
      by (simp del: Nat.add_diff_assoc Nat.add_diff_assoc2 Nat.diff_add_assoc Nat.diff_add_assoc2)
    moreover have "turns_left state' = turns_left state" "cy_phase state' = cy_phase state"
      using tick_waits(2) [OF Some None assms(4)] by (simp_all add: turns_left_def split: cycle_phase.split)
    ultimately show ?thesis by (simp add: ticks_left_def)
  next
    case over: (Some oc)
    from tick_settles [OF assms(1) Some over assms(4)] obtain gap acts' where
      adv: "advanced view now (settled state current oc now gap) state' acts'" by metis
    have "turns_left (settled state current oc now gap) = turns_left state"
      by (simp add: settled_def turns_left_def split: cycle_phase.split)
    from advanced_ticks [OF adv order_eq_refl [OF this]] show ?thesis using assms(2) by (simp add: ticks_left_def)
  qed
qed

lemma manual_ticks:
  fixes state :: cycle_state and slot :: u32
  defines "state' \<equiv> snd (handle_manual_restart_during_cycle state slot)"
  shows "ticks_left state' \<le> ticks_left state"
proof -
  have "cy_phase state' = cy_phase state" "cy_current state' = cy_current state" "cy_next_action_at state' = cy_next_action_at state"
    "length (cy_pending state') \<le> length (cy_pending state)" "length (cy_deferred state') \<le> length (cy_deferred state)"
    by (auto simp: state'_def handle_manual_restart_during_cycle_def Let_def length_remove1 split: option.split)
  then show ?thesis by (simp add: ticks_left_def polls_left_def turns_left_def split: cycle_phase.split option.split)
qed

lemma tick_complete: "phase_ok state \<Longrightarrow> cy_phase state = PhaseComplete \<Longrightarrow> tick_scheduler state view now rng gb gj = Some (state, [])"
  by (simp add: tick_scheduler_def phase_ok_def next_card.simps)

lemma ticks_left_0: "ticks_left state = 0 \<longleftrightarrow> cy_phase state = PhaseComplete \<and> cy_current state = None"
  by (auto simp: ticks_left_def polls_left_def turns_left_def split: option.splits)

text \<open>The random source answers within the range it is asked for.\<close>

definition draws_ok :: "(int \<Rightarrow> int) \<Rightarrow> bool" where
  "draws_ok rng \<longleftrightarrow> (\<forall>m > 0. - m \<le> rng m \<and> rng m \<le> m)"

lemma uint_lower [simp]: "- 9223372036854775808 \<le> uint (x :: u64)" "\<not> uint (x :: u64) < - 9223372036854775808"
proof -
  have "0 \<le> uint x" by simp
  then show "- 9223372036854775808 \<le> uint x" "\<not> uint x < - 9223372036854775808" by linarith+
qed

lemma sint_small:
  fixes x :: u64 assumes "x \<le> 86400" shows "sint x = uint x" "uint x \<le> 86400"
proof -
  show le: "uint x \<le> 86400" using assms by (simp add: word_le_def)
  then show "sint x = uint x" using signed_take_bit_int_eq_self [of 63 "uint x"] by (simp add: sint_uint)
qed

lemma gap_defined:
  assumes "gb \<le> 3600" "gj \<le> 3600" "draws_ok rng"
  shows "\<exists>gap. gap_with_jitter rng gb gj = Some gap"
proof -
  have b: "sint gb = uint gb" "uint gb \<le> 86400" "sint gj = uint gj" "uint gj \<le> 86400"
    using sint_small [of gb] sint_small [of gj] assms(1,2) order_trans [of _ "3600 :: u64" 86400] by auto
  show ?thesis
  proof (cases "gj = 0")
    case True
    then show ?thesis using b(1,2) by (simp add: gap_with_jitter_def jitter_offset_def Let_def)
  next
    case False
    then have pos: "0 < uint gj" by (simp add: word_neq_0_conv word_less_def)
    then have "- uint gj \<le> rng (uint gj)" "rng (uint gj) \<le> uint gj" using assms(3) by (auto simp: draws_ok_def)
    moreover have "0 \<le> uint gb" by simp
    ultimately have "- 9223372036854775808 \<le> uint gb + rng (uint gj)" "uint gb + rng (uint gj) < 9223372036854775808" using b(2,4) by linarith+
    then show ?thesis using False b pos by (simp add: gap_with_jitter_def jitter_offset_def Let_def not_less not_le)
  qed
qed

lemma gap_range:
  assumes "gb \<le> 3600" "gj \<le> gb" "draws_ok rng"
  shows "\<exists>gap. gap_with_jitter rng gb gj = Some gap \<and> secs (unat gb - unat gj) \<le> gap \<and> gap \<le> secs (unat gb + unat gj)"
proof -
  have gj: "gj \<le> 3600" using assms(1,2) by (rule order_trans [rotated])
  have b: "sint gb = uint gb" "sint gj = uint gj"
    using sint_small [of gb] sint_small [of gj] assms(1) gj order_trans [of _ "3600 :: u64" 86400] by auto
  obtain gap where gap: "gap_with_jitter rng gb gj = Some gap" using gap_defined [OF assms(1) gj assms(3)] by blast
  have le: "uint gj \<le> uint gb" using assms(2) by (simp add: word_le_def)
  obtain off where off: "- uint gj \<le> off" "off \<le> uint gj" "gap = secs (nat (uint gb + off))"
  proof (cases "gj = 0")
    case True
    then show ?thesis using that [of 0] gap b by (simp add: gap_with_jitter_def jitter_offset_def Let_def split: if_splits)
  next
    case False
    then have pos: "0 < uint gj" by (simp add: word_neq_0_conv word_less_def)
    then have "- uint gj \<le> rng (uint gj)" "rng (uint gj) \<le> uint gj" using assms(3) by (auto simp: draws_ok_def)
    then show ?thesis using that [of "rng (uint gj)"] gap b False pos
      by (simp add: gap_with_jitter_def jitter_offset_def Let_def split: if_splits)
  qed
  have "unat gb - unat gj \<le> nat (uint gb + off)" "nat (uint gb + off) \<le> unat gb + unat gj"
    using off(1,2) le unfolding unat_eq_nat_uint by linarith+
  then show ?thesis using gap off(3) by simp
qed

lemma tick_defined: "gb \<le> 3600 \<Longrightarrow> gj \<le> 3600 \<Longrightarrow> draws_ok rng \<Longrightarrow> \<exists>r. tick_scheduler state view now rng gb gj = Some r"
  using gap_defined [of gb gj rng] by (auto simp: tick_scheduler_def split: option.split)

text \<open>The contract of the event loop: a tick comes when the cycle has asked for it or later.\<close>

fun paced :: "u64 \<Rightarrow> u64 \<Rightarrow> cycle_event list \<Rightarrow> cycle_state \<Rightarrow> bool" where
  "paced gb gj [] state = True"
| "paced gb gj (ev # evs) state =
     ((case ev of Ticked view now rng \<Rightarrow> cy_next_action_at state \<le> now \<and> draws_ok rng | Manual _ \<Rightarrow> True) \<and>
      (case cycle_step gb gj ev state of Some (state', _) \<Rightarrow> paced gb gj evs state' | None \<Rightarrow> True))"

definition is_tick :: "cycle_event \<Rightarrow> bool" where
  "is_tick ev = (case ev of Ticked _ _ _ \<Rightarrow> True | Manual _ \<Rightarrow> False)"

lemma run_progress:
  assumes "gb \<le> 3600" "gj \<le> 3600" "distinct slots" "run_inv slots state rebooted" "paced gb gj evs state"
  shows "\<exists>state' acts. cycle_run gb gj evs state = Some (state', acts) \<and>
    ticks_left state' \<le> ticks_left state - length (filter is_tick evs)"
  using assms(4,5)
proof (induction evs arbitrary: state rebooted)
  case (Cons ev evs)
  have step: "\<exists>mid acts1. cycle_step gb gj ev state = Some (mid, acts1) \<and>
    ticks_left mid \<le> ticks_left state - (if is_tick ev then 1 else 0)"
  proof (cases ev)
    case (Ticked view now rng)
    have ok: "phase_ok state" using Cons.prems(1) by (simp add: run_inv_def)
    from Cons.prems(2) Ticked have pace: "cy_next_action_at state \<le> now" "draws_ok rng" by simp_all
    obtain mid acts1 where tick: "tick_scheduler state view now rng gb gj = Some (mid, acts1)"
      using tick_defined [OF assms(1,2) pace(2)] by (metis surj_pair)
    have "ticks_left mid \<le> ticks_left state - 1"
    proof (cases "cy_phase state = PhaseComplete")
      case True
      then have "mid = state" using tick_complete [OF ok True, of view now rng gb gj] tick by simp
      moreover have "ticks_left state = 0" using ok True by (simp add: ticks_left_0 phase_ok_def)
      ultimately show ?thesis by simp
    next
      case False
      show ?thesis using tick_decreases [OF ok False pace(1) tick] by simp
    qed
    then show ?thesis using Ticked tick by (simp add: cycle_step_def is_tick_def)
  next
    case (Manual slot)
    then show ?thesis using manual_ticks by (simp add: cycle_step_def is_tick_def)
  qed
  then obtain mid acts1 where mid: "cycle_step gb gj ev state = Some (mid, acts1)"
    "ticks_left mid \<le> ticks_left state - (if is_tick ev then 1 else 0)" by blast
  have "paced gb gj evs mid" using Cons.prems(2) mid(1) by simp
  from Cons.IH [OF run_inv_step [OF assms(3) Cons.prems(1) mid(1)] this] obtain state' acts where
    rest: "cycle_run gb gj evs mid = Some (state', acts)" "ticks_left state' \<le> ticks_left mid - length (filter is_tick evs)"
    by blast
  then have "ticks_left state' \<le> ticks_left state - length (filter is_tick (ev # evs))"
    using mid(2) by (simp split: if_splits)
  then show ?case using mid(1) rest(1) by simp
qed simp

lemma built_config_bounds:
  fixes cron_ok :: "text_string \<Rightarrow> bool" and raw :: scheduled_restart_config
  defines "c \<equiv> build_scheduled_restart cron_ok raw"
  shows "sr_inter_card_gap_seconds c \<le> 3600" "sr_inter_card_gap_jitter_seconds c \<le> sr_inter_card_gap_seconds c"
    "sr_start_jitter_seconds c \<le> 86400" "sr_restart_mode c = lit ''full'' \<or> sr_restart_mode c = lit ''radio''"
  by (auto simp: c_def build_scheduled_restart_def disabled_scheduled_restart_def default_scheduled_restart_def in_range_or_warn_def
      split: option.split)

section \<open>Properties\<close>

lemma reboots_mem: "s \<in> set (reboots acts) \<longleftrightarrow> SendReboot s \<in> set acts"
  by (induction acts) (auto simp: reboots_def List.map_filter_def split: scheduler_action.splits)

text \<open>
  C8: A cycle restarts no card twice, and only cards it started with, whatever the cards do and whichever manual
  restarts come in between. When it is complete, every card has exactly one final outcome on record.
\<close>

theorem restart_cycle_accounts:
  assumes "distinct slots" "cycle_run gb gj evs (new_cycle cycle_id cron_tick start slots) = Some (state, acts)"
  shows "distinct (reboots acts) \<and> set (reboots acts) \<subseteq> set slots \<and>
    (cy_phase state = PhaseComplete \<longrightarrow> mset (final_slots (cy_outcomes state)) = mset slots)"
proof -
  have inv: "run_inv slots state (reboots acts)" using run_inv_run [OF assms(1) run_inv_new assms(2)] by simp
  then have sub: "mset (reboots acts) \<subseteq># mset slots"
    by (auto simp: run_inv_def intro: subset_mset.order_trans mset_subset_eq_add_right)
  moreover have "mset (final_slots (cy_outcomes state)) = mset slots" if "cy_phase state = PhaseComplete"
    using inv that by (auto simp: run_inv_def phase_ok_def queued_def under_way_def)
  ultimately show ?thesis using distinct_submset [OF sub assms(1)] set_mset_mono [OF sub] by simp
qed

definition sample_view :: slot_view where
  "sample_view =
     \<lparr>sv_is_ready = (\<lambda>_. True), sv_non_ready_skip_reason = (\<lambda>_. None), sv_has_active_call = (\<lambda>s. s = 2),
      sv_restart_progress = (\<lambda>_. Succeeded)\<rparr>"

lemma sample_first_tick:
  "\<exists>state. tick_scheduler (new_cycle 0 0 0 [1, 2]) sample_view 0 (\<lambda>_. 0) 30 15 = Some (state, [SendReboot 1]) \<and>
     cy_current state = Some \<lparr>cc_slot = 1, cc_attempt = AttemptInitial, cc_started_at = 0, cc_deadline = PER_CARD_TIMEOUT\<rparr>"
  by (simp add: tick_scheduler_def new_cycle_def next_card.simps sample_view_def turn_outcome_def begin_restart_def phase_attempt_def)

theorem restart_cycle_accounts_witness:
  "\<exists>state acts. cycle_run 30 15 [Ticked sample_view 0 (\<lambda>_. 0)] (new_cycle 0 0 0 [1, 2]) = Some (state, acts) \<and>
     distinct (reboots acts) \<and> reboots acts = [1]"
proof -
  obtain state where "tick_scheduler (new_cycle 0 0 0 [1, 2]) sample_view 0 (\<lambda>_. 0) 30 15 = Some (state, [SendReboot 1])"
    using sample_first_tick by blast
  then have run: "cycle_run 30 15 [Ticked sample_view 0 (\<lambda>_. 0)] (new_cycle 0 0 0 [1, 2]) = Some (state, [SendReboot 1])"
    by (simp add: cycle_step_def)
  from restart_cycle_accounts [OF _ this] run show ?thesis by simp
qed

text \<open>
  A restart is sent only to a card that is in service and has no call at that moment, one per step, and only
  once the restart before it is over.
\<close>

theorem restart_only_idle_cards:
  assumes "cycle_run gb gj evs (new_cycle cycle_id cron_tick start slots) = Some (state, acts)" "distinct slots"
    and "tick_scheduler state view now rng gb gj = Some (state', acts')" "SendReboot s \<in> set acts'"
  shows "sv_is_ready view s \<and> \<not> sv_has_active_call view s \<and> reboots acts' = [s] \<and>
    (\<forall>c. cy_current state = Some c \<longrightarrow> current_outcome view now c \<noteq> None)"
proof -
  have ok: "phase_ok state" using run_inv_run [OF assms(2) run_inv_new assms(1)] by (simp add: run_inv_def)
  have mem: "s \<in> set (reboots acts')" using assms(4) by (simp add: reboots_mem)
  have "current_outcome view now c \<noteq> None" if "cy_current state = Some c" for c
    using tick_waits(1) [OF that _ assms(3)] assms(4) by (cases "current_outcome view now c") auto
  then show ?thesis using tick_books(4) [OF ok assms(3)] mem by (simp add: idle_in_def)
qed

theorem restart_only_idle_cards_witness:
  "\<exists>state. tick_scheduler (new_cycle 0 0 0 [1, 2]) sample_view 0 (\<lambda>_. 0) 30 15 = Some (state, [SendReboot 1]) \<and>
     sv_is_ready sample_view 1 \<and> \<not> sv_has_active_call sample_view 1"
proof -
  obtain state where tick: "tick_scheduler (new_cycle 0 0 0 [1, 2]) sample_view 0 (\<lambda>_. 0) 30 15 = Some (state, [SendReboot 1])"
    using sample_first_tick by blast
  have run: "cycle_run 30 15 [] (new_cycle 0 0 0 [1, 2]) = Some (new_cycle 0 0 0 [1, 2], [])" by simp
  from restart_only_idle_cards [OF run _ tick, of 1] tick show ?thesis by simp
qed

text \<open>
  C27: A cycle always ends. Under any configuration that passes the checks, with the loop ticking when it is asked
  to or later, whatever the cards do and with any manual restarts in between, a cycle over \<open>n\<close> cards is complete
  after at most \<open>106 * n + 1\<close> ticks, and no tick panics.
\<close>

theorem restart_cycle_ends:
  fixes cron_ok :: "text_string \<Rightarrow> bool"
  defines "config raw \<equiv> build_scheduled_restart cron_ok raw"
  assumes "distinct slots"
    and "paced (sr_inter_card_gap_seconds (config raw)) (sr_inter_card_gap_jitter_seconds (config raw)) evs
      (new_cycle cycle_id cron_tick start slots)"
    and "106 * length slots + 1 \<le> length (filter is_tick evs)"
  shows "\<exists>state acts. cycle_run (sr_inter_card_gap_seconds (config raw)) (sr_inter_card_gap_jitter_seconds (config raw)) evs
      (new_cycle cycle_id cron_tick start slots) = Some (state, acts) \<and> cy_phase state = PhaseComplete"
proof -
  note b = built_config_bounds [of cron_ok raw, folded config_def]
  have "sr_inter_card_gap_jitter_seconds (config raw) \<le> 3600" using b(1,2) by (rule order_trans [rotated])
  from run_progress [OF b(1) this assms(2) run_inv_new assms(3)] obtain state acts where
    run: "cycle_run (sr_inter_card_gap_seconds (config raw)) (sr_inter_card_gap_jitter_seconds (config raw)) evs
      (new_cycle cycle_id cron_tick start slots) = Some (state, acts)"
    and left: "ticks_left state \<le> ticks_left (new_cycle cycle_id cron_tick start slots) - length (filter is_tick evs)" by blast
  have "ticks_left (new_cycle cycle_id cron_tick start slots) = 106 * length slots + 1"
    by (simp add: ticks_left_def turns_left_def polls_left_def new_cycle_def)
  then have "ticks_left state = 0" using left assms(4) by simp
  then show ?thesis using run by (auto simp: ticks_left_0)
qed

lemma paced_complete:
  "phase_ok state \<Longrightarrow> cy_phase state = PhaseComplete \<Longrightarrow> cy_next_action_at state \<le> now \<Longrightarrow> draws_ok rng \<Longrightarrow>
   paced gb gj (replicate n (Ticked view now rng)) state"
  by (induction n) (simp_all add: cycle_step_def tick_complete)

theorem restart_cycle_ends_witness:
  "\<exists>state acts. cycle_run 30 15 (replicate 107 (Ticked (sample_view\<lparr>sv_has_active_call := (\<lambda>_. True)\<rparr>) 0 (\<lambda>_. 0)))
      (new_cycle 0 0 0 [1]) = Some (state, acts) \<and> cy_phase state = PhaseComplete"
proof -
  let ?v = "sample_view\<lparr>sv_has_active_call := (\<lambda>_. True)\<rparr>"
  obtain state acts where first: "tick_scheduler (new_cycle 0 0 0 [1]) ?v 0 (\<lambda>_. 0) 30 15 = Some (state, acts)"
    and st: "phase_ok state" "cy_phase state = PhaseComplete" "cy_next_action_at state \<le> 0"
    by (simp add: tick_scheduler_def new_cycle_def next_card.simps sample_view_def turn_outcome_def skip_slot_def is_deferral_def
        phase_ok_def Let_def)
  have draws: "draws_ok (\<lambda>_. 0)" by (simp add: draws_ok_def)
  have config: "sr_inter_card_gap_seconds (build_scheduled_restart (\<lambda>_. True) disabled_scheduled_restart) = 30"
    "sr_inter_card_gap_jitter_seconds (build_scheduled_restart (\<lambda>_. True) disabled_scheduled_restart) = 15"
    by (simp_all add: build_scheduled_restart_def disabled_scheduled_restart_def default_scheduled_restart_def)
  have "paced 30 15 (Ticked ?v 0 (\<lambda>_. 0) # replicate 106 (Ticked ?v 0 (\<lambda>_. 0))) (new_cycle 0 0 0 [1])"
    using first paced_complete [OF st draws, of 30 15 106 ?v] draws by (simp add: cycle_step_def new_cycle_def)
  then have "paced 30 15 (replicate 107 (Ticked ?v 0 (\<lambda>_. 0))) (new_cycle 0 0 0 [1])"
    using replicate_Suc [of 106 "Ticked ?v 0 (\<lambda>_. 0)"] by simp
  moreover have "length (filter is_tick (replicate 107 (Ticked ?v 0 (\<lambda>_. 0)))) = 107" by (simp add: is_tick_def)
  ultimately show ?thesis
    using restart_cycle_ends [of "[1]" "\<lambda>_. True" disabled_scheduled_restart "replicate 107 (Ticked ?v 0 (\<lambda>_. 0))" 0 0 0]
    unfolding config by simp
qed

text \<open>
  C28: The gap between two cards stays within its configured range, whatever the configuration file says. The base that the
  built configuration holds is at most an hour and its jitter at most the base. With a random source that keeps to its
  range, drawing the gap never panics; it lies between base minus jitter and base plus jitter seconds, so at most two hours.
\<close>

theorem gap_within_configured_range:
  fixes cron_ok :: "text_string \<Rightarrow> bool"
  defines "config raw \<equiv> build_scheduled_restart cron_ok raw"
  assumes "draws_ok rng"
  shows "sr_inter_card_gap_seconds (config raw) \<le> 3600 \<and> sr_inter_card_gap_jitter_seconds (config raw) \<le> sr_inter_card_gap_seconds (config raw) \<and>
    (\<exists>gap. gap_with_jitter rng (sr_inter_card_gap_seconds (config raw)) (sr_inter_card_gap_jitter_seconds (config raw)) = Some gap \<and>
      secs (unat (sr_inter_card_gap_seconds (config raw)) - unat (sr_inter_card_gap_jitter_seconds (config raw))) \<le> gap \<and>
      gap \<le> secs (unat (sr_inter_card_gap_seconds (config raw)) + unat (sr_inter_card_gap_jitter_seconds (config raw))) \<and> gap \<le> secs 7200)"
proof -
  note b = built_config_bounds [of cron_ok raw, folded config_def]
  have "unat (sr_inter_card_gap_seconds (config raw)) \<le> 3600" "unat (sr_inter_card_gap_jitter_seconds (config raw)) \<le> 3600"
    using b(1) order_trans [OF b(2,1)] by (simp_all add: word_le_nat_alt)
  then have "secs (unat (sr_inter_card_gap_seconds (config raw)) + unat (sr_inter_card_gap_jitter_seconds (config raw))) \<le> secs 7200" by simp
  moreover note gap_range [OF b(1,2) assms(2)]
  ultimately show ?thesis using b(1,2) by (meson order_trans)
qed

theorem gap_within_configured_range_witness:
  "\<exists>gap. gap_with_jitter (\<lambda>m. - m) 30 15 = Some gap \<and> secs 15 \<le> gap \<and> gap \<le> secs 45"
proof -
  have config: "sr_inter_card_gap_seconds (build_scheduled_restart (\<lambda>_. True) disabled_scheduled_restart) = 30"
    "sr_inter_card_gap_jitter_seconds (build_scheduled_restart (\<lambda>_. True) disabled_scheduled_restart) = 15"
    by (simp_all add: build_scheduled_restart_def disabled_scheduled_restart_def default_scheduled_restart_def)
  have "draws_ok (\<lambda>m. - m)" by (simp add: draws_ok_def)
  from gap_within_configured_range [OF this, of "\<lambda>_. True" disabled_scheduled_restart] show ?thesis unfolding config by auto
qed

text \<open>
  C36: The configured gap has no effect. A step that finds a card's restart over goes on to the next idle card at
  once, whatever the gap, and the time it drew for the gap is overwritten by the settle delay of that card.
\<close>

theorem inter_card_gap_ignored:
  assumes "cy_current state = Some current" "current_outcome view now current = Some oc"
    and "cy_phase state = PhaseInitial" "cy_pending state = s # rest" "idle_in view s"
    and "gap_with_jitter rng gb gj = Some gap"
  shows "\<exists>state' entry. tick_scheduler state view now rng gb gj = Some (state', [RecordOutcome (cc_slot current) entry, SendReboot s]) \<and>
    cy_next_action_at state' = now + REBOOT_SETTLE_DELAY"
  using assms turn_idle [of view AttemptInitial s] by (simp add: tick_scheduler_def next_card.simps begin_restart_def Let_def)

theorem inter_card_gap_ignored_witness:
  "\<exists>state state' entry. cy_next_action_at state' = secs 20 \<and>
     tick_scheduler state sample_view (secs 10) (\<lambda>_. 0) 3600 0 = Some (state', [RecordOutcome 1 entry, SendReboot 3])"
proof -
  let ?state = "begin_restart (new_cycle 0 0 0 [3]) 1 0"
  have "idle_in sample_view 3" by (simp add: idle_in_def sample_view_def)
  moreover have "gap_with_jitter (\<lambda>_. 0) 3600 0 = Some (secs 3600)"
    using sint_small [of 3600] by (simp add: gap_with_jitter_def jitter_offset_def)
  ultimately show ?thesis
    using inter_card_gap_ignored [of ?state _ sample_view "secs 10" OutSuccess 3 "[]" "\<lambda>_. 0" 3600 0]
    by (fastforce simp: begin_restart_def new_cycle_def current_outcome_def sample_view_def REBOOT_SETTLE_DELAY_def)
qed

end
