(* ===== verification/Sip_Message.thy ===== *)
theory Sip_Message
  imports Rust_Text
begin

text \<open>
  SIP messages (\<^verbatim>\<open>ims/sip_client.rs\<close>): framing and parsing of requests and responses from wire bytes,
  and the builders of responses and of out-of-dialog and in-dialog requests. A parser returns
  \<open>None\<close> where the source would panic; otherwise an error, or no message yet, or a message with the
  number of bytes consumed. The theorems print a message and parse it back.
\<close>

section \<open>Parsing\<close>

definition MAX_USIZE :: nat where
  "MAX_USIZE = 2 ^ 64 - 1"

definition crlf :: text_string where
  "crlf = [13, 10]"

definition canonical_header_name :: "text_string \<Rightarrow> text_string" where
  "canonical_header_name name =
     (case name of
        [c] \<Rightarrow>
          (let l = ascii_lower c in
           if l = 97 then lit ''Accept-Contact''
           else if l = 98 then lit ''Referred-By''
           else if l = 99 then lit ''Content-Type''
           else if l = 100 then lit ''Request-Disposition''
           else if l = 101 then lit ''Content-Encoding''
           else if l = 102 then lit ''From''
           else if l = 105 then lit ''Call-ID''
           else if l = 106 then lit ''Reject-Contact''
           else if l = 107 then lit ''Supported''
           else if l = 108 then lit ''Content-Length''
           else if l = 109 then lit ''Contact''
           else if l = 111 then lit ''Event''
           else if l = 114 then lit ''Refer-To''
           else if l = 115 then lit ''Subject''
           else if l = 116 then lit ''To''
           else if l = 117 then lit ''Allow-Events''
           else if l = 118 then lit ''Via''
           else if l = 120 then lit ''Session-Expires''
           else name)
      | _ \<Rightarrow> name)"

fun find_subslice :: "'a list \<Rightarrow> 'a list \<Rightarrow> nat option" where
  "find_subslice [] needle = (if needle = [] then Some 0 else None)"
| "find_subslice (x # xs) needle =
     (if take (length needle) (x # xs) = needle then Some 0 else map_option Suc (find_subslice xs needle))"

type_synonym sip_header = "text_string \<times> text_string"

record sip_response =
  rs_status :: nat
  rs_reason :: text_string
  rs_headers :: "sip_header list"
  rs_body :: text_string

record sip_request =
  rq_method :: text_string
  rq_request_uri :: text_string
  rq_headers :: "sip_header list"
  rq_body :: text_string
  rq_body_bytes :: bytes

datatype sip_error = EmptySip | MalformedRequestLine text_string | MalformedStatusLine text_string | MalformedStatusCode text_string

definition header_in :: "sip_header list \<Rightarrow> text_string \<Rightarrow> text_string option" where
  "header_in hs name = map_option snd (find (\<lambda>(k, _). eq_ignore_ascii_case k name) hs)"

definition headers_all_in :: "sip_header list \<Rightarrow> text_string \<Rightarrow> text_string list" where
  "headers_all_in hs name = map snd (filter (\<lambda>(k, _). eq_ignore_ascii_case k name) hs)"

definition response_header :: "sip_response \<Rightarrow> text_string \<Rightarrow> text_string option" where
  "response_header resp = header_in (rs_headers resp)"

definition response_headers_all :: "sip_response \<Rightarrow> text_string \<Rightarrow> text_string list" where
  "response_headers_all resp = headers_all_in (rs_headers resp)"

definition header :: "sip_request \<Rightarrow> text_string \<Rightarrow> text_string option" where
  "header req = header_in (rq_headers req)"

definition headers_all :: "sip_request \<Rightarrow> text_string \<Rightarrow> text_string list" where
  "headers_all req = headers_all_in (rq_headers req)"

text \<open>\<open>header_part.split("\r\n")\<close>.\<close>

fun split_crlf :: "text_string \<Rightarrow> text_string list" where
  "split_crlf [] = [[]]"
| "split_crlf (x # xs) =
     (if x = 13 \<and> (case xs of y # _ \<Rightarrow> y = 10 | [] \<Rightarrow> False) then [] # split_crlf (tl xs)
      else case split_crlf xs of [] \<Rightarrow> [[x]] | p # ps \<Rightarrow> (x # p) # ps)"

text \<open>Continuation lines are joined to the line before; the empty line ends the headers.\<close>

fun unfold_lines :: "text_string list \<Rightarrow> text_string list \<Rightarrow> text_string list" where
  "unfold_lines [] unfolded = unfolded"
| "unfold_lines (l # ls) unfolded =
     (if l = [] then unfolded
      else if (starts_with l [32] \<or> starts_with l [9]) \<and> unfolded \<noteq> []
      then unfold_lines ls (butlast unfolded @ [last unfolded @ 32 # trim_start l])
      else unfold_lines ls (unfolded @ [l]))"

definition parse_header_line :: "text_string \<Rightarrow> sip_header option" where
  "parse_header_line l = map_option (\<lambda>(k, v). (canonical_header_name (trim k), trim v)) (split_once 58 l)"

definition parse_header_lines :: "text_string list \<Rightarrow> sip_header list" where
  "parse_header_lines ls = List.map_filter parse_header_line (unfold_lines ls [])"

definition content_length_of :: "sip_header list \<Rightarrow> nat" where
  "content_length_of hs =
     (case header_in hs (lit ''Content-Length'') of
        Some v \<Rightarrow> (case parse_uint MAX_USIZE (trim v) of Some n \<Rightarrow> n | None \<Rightarrow> 0)
      | None \<Rightarrow> 0)"

text \<open>The body of a message whose headers end at \<open>header_len\<close>: \<open>None\<close> where the length computation
  overflows a \<open>usize\<close>, which panics in a checked build and gives an inverted slice, which panics, in
  an unchecked one.\<close>

definition body_slice :: "bytes \<Rightarrow> nat \<Rightarrow> nat \<Rightarrow> (bytes \<times> nat) option option" where
  "body_slice buf header_len content_length =
     (let total_len = header_len + content_length
      in if MAX_USIZE < total_len then None
         else if length buf < total_len then Some None
         else Some (Some (take content_length (drop header_len buf), total_len)))"

definition response_try_parse :: "bytes \<Rightarrow> (sip_error + (sip_response \<times> nat) option) option" where
  "response_try_parse buf =
     (case find_subslice buf [13, 10, 13, 10] of
        None \<Rightarrow> Some (Inr None)
      | Some idx \<Rightarrow>
          (let header_len = idx + 4
           in case split_crlf (utf8_lossy (take header_len buf)) of
                [] \<Rightarrow> Some (Inl EmptySip)
              | status_line # ls \<Rightarrow>
                  (case split_once 32 status_line of
                     None \<Rightarrow> Some (Inl (MalformedStatusLine status_line))
                   | Some (_, rest) \<Rightarrow>
                       (let (code, reason) = (case split_once 32 rest of Some (c, r) \<Rightarrow> (c, r) | None \<Rightarrow> (rest, []))
                        in case parse_uint (2 ^ 16 - 1) code of
                             None \<Rightarrow> Some (Inl (MalformedStatusCode status_line))
                           | Some status \<Rightarrow>
                               (let hs = parse_header_lines ls
                                in map_option (\<lambda>slice. Inr (map_option (\<lambda>(body, total_len).
                                      (\<lparr>rs_status = status, rs_reason = reason, rs_headers = hs,
                                        rs_body = utf8_lossy body\<rparr>, total_len)) slice))
                                    (body_slice buf header_len (content_length_of hs)))))))"

definition request_try_parse :: "bytes \<Rightarrow> (sip_error + (sip_request \<times> nat) option) option" where
  "request_try_parse buf =
     (case find_subslice buf [13, 10, 13, 10] of
        None \<Rightarrow> Some (Inr None)
      | Some idx \<Rightarrow>
          (let header_len = idx + 4
           in case split_crlf (utf8_lossy (take header_len buf)) of
                [] \<Rightarrow> Some (Inl EmptySip)
              | request_line # ls \<Rightarrow>
                  (case split_once 32 request_line of
                     None \<Rightarrow> Some (Inl (MalformedRequestLine request_line))
                   | Some (method, rest) \<Rightarrow>
                       (let uri = (case split_once 32 rest of Some (u, _) \<Rightarrow> u | None \<Rightarrow> rest);
                            hs = parse_header_lines ls
                        in map_option (\<lambda>slice. Inr (map_option (\<lambda>(body, total_len).
                              (\<lparr>rq_method = method, rq_request_uri = uri, rq_headers = hs,
                                rq_body = utf8_lossy body, rq_body_bytes = body\<rparr>, total_len)) slice))
                            (body_slice buf header_len (content_length_of hs))))))"

datatype sip_message = Request sip_request | Response sip_response

definition try_parse_one :: "bytes \<Rightarrow> (sip_error + (sip_message \<times> nat) option) option" where
  "try_parse_one buf =
     (case find_subslice buf [13, 10] of
        None \<Rightarrow> Some (Inr None)
      | Some line_end \<Rightarrow>
          if take 7 (take line_end buf) = as_bytes (lit ''SIP/2.0'')
          then map_option (map_sum id (map_option (\<lambda>(resp, n). (Response resp, n)))) (response_try_parse buf)
          else map_option (map_sum id (map_option (\<lambda>(req, n). (Request req, n)))) (request_try_parse buf))"

definition parse_datagram :: "text_string \<Rightarrow> (sip_error + sip_message option) option" where
  "parse_datagram s = map_option (map_sum id (map_option fst)) (try_parse_one (as_bytes s))"

section \<open>Responses\<close>

definition hdr :: "string \<Rightarrow> text_string \<Rightarrow> text_string" where
  "hdr name value = lit name @ lit '': '' @ value @ crlf"

definition opt_hdr :: "string \<Rightarrow> text_string option \<Rightarrow> text_string" where
  "opt_hdr name value = (case value of Some v \<Rightarrow> hdr name v | None \<Rightarrow> [])"

definition to_already_tagged :: "text_string \<Rightarrow> bool" where
  "to_already_tagged to \<longleftrightarrow>
     list_ex (\<lambda>p. starts_with (trim_start p) (lit ''tag='')) (drop 1 (split_on 59 (to_ascii_lowercase to)))"

definition build_uas_response_with_headers ::
  "nat \<Rightarrow> string \<Rightarrow> sip_request \<Rightarrow> text_string option \<Rightarrow> text_string option \<Rightarrow> text_string option \<Rightarrow>
   (string \<times> text_string) list \<Rightarrow> text_string" where
  "build_uas_response_with_headers status reason request to_tag contact body extra =
     (let to = (case header request (lit ''To'') of Some t \<Rightarrow> t | None \<Rightarrow> []);
          body = (case body of Some b \<Rightarrow> b | None \<Rightarrow> [])
      in lit ''SIP/2.0 '' @ show_nat status @ [32] @ lit reason @ crlf @
         concat (map (hdr ''Via'') (headers_all request (lit ''Via''))) @
         concat (map (hdr ''Record-Route'') (headers_all request (lit ''Record-Route''))) @
         opt_hdr ''From'' (header request (lit ''From'')) @
         (case to_tag of
            Some tag \<Rightarrow> if \<not> to_already_tagged to then hdr ''To'' (to @ lit '';tag='' @ tag) else hdr ''To'' to
          | None \<Rightarrow> hdr ''To'' to) @
         opt_hdr ''Call-ID'' (header request (lit ''Call-ID'')) @
         opt_hdr ''CSeq'' (header request (lit ''CSeq'')) @
         opt_hdr ''Contact'' contact @
         concat (map (\<lambda>(name, value). hdr name value) extra) @
         (if body \<noteq> [] then hdr ''Content-Type'' (lit ''application/sdp'') else []) @
         hdr ''Content-Length'' (show_nat (length (as_bytes body))) @ crlf @ body)"

definition build_uas_response ::
  "nat \<Rightarrow> string \<Rightarrow> sip_request \<Rightarrow> text_string option \<Rightarrow> text_string option \<Rightarrow> text_string option \<Rightarrow> text_string" where
  "build_uas_response status reason request to_tag contact body =
     build_uas_response_with_headers status reason request to_tag contact body []"

definition build_100_trying :: "sip_request \<Rightarrow> text_string" where
  "build_100_trying request = build_uas_response 100 ''Trying'' request None None None"

definition build_180_ringing :: "sip_request \<Rightarrow> text_string \<Rightarrow> text_string \<Rightarrow> text_string" where
  "build_180_ringing request to_tag contact =
     build_uas_response 180 ''Ringing'' request (Some to_tag) (Some contact) None"

definition build_200_ok_invite :: "sip_request \<Rightarrow> text_string \<Rightarrow> text_string \<Rightarrow> text_string \<Rightarrow> text_string" where
  "build_200_ok_invite request to_tag contact sdp_body =
     build_uas_response 200 ''OK'' request (Some to_tag) (Some contact) (Some sdp_body)"

definition build_200_ok_bye :: "sip_request \<Rightarrow> text_string \<Rightarrow> text_string" where
  "build_200_ok_bye request to_tag = build_uas_response 200 ''OK'' request (Some to_tag) None None"

definition build_486_busy_here :: "sip_request \<Rightarrow> text_string \<Rightarrow> text_string" where
  "build_486_busy_here request to_tag = build_uas_response 486 ''Busy Here'' request (Some to_tag) None None"

definition build_488_not_acceptable :: "sip_request \<Rightarrow> text_string \<Rightarrow> text_string \<Rightarrow> text_string" where
  "build_488_not_acceptable request to_tag agent =
     build_uas_response_with_headers 488 ''Not Acceptable Here'' request (Some to_tag) None None
       [(''Warning'', lit ''304 '' @ agent @ 32 # 34 # lit ''media type not available'' @ [34])]"

definition build_488_incompatible_transport :: "sip_request \<Rightarrow> text_string \<Rightarrow> text_string \<Rightarrow> text_string" where
  "build_488_incompatible_transport request to_tag agent =
     build_uas_response_with_headers 488 ''Not Acceptable Here'' request (Some to_tag) None None
       [(''Warning'', lit ''305 '' @ agent @ 32 # 34 # lit ''incompatible network protocol used'' @ [34])]"

definition build_420_bad_extension :: "sip_request \<Rightarrow> text_string \<Rightarrow> text_string \<Rightarrow> text_string" where
  "build_420_bad_extension request to_tag unsupported =
     build_uas_response_with_headers 420 ''Bad Extension'' request (Some to_tag) None None
       [(''Unsupported'', unsupported)]"

definition build_580_precondition_failure :: "sip_request \<Rightarrow> text_string \<Rightarrow> text_string" where
  "build_580_precondition_failure request to_tag =
     build_uas_response_with_headers 580 ''Precondition Failure'' request (Some to_tag) None None []"

definition build_415_unsupported_media :: "sip_request \<Rightarrow> text_string \<Rightarrow> text_string \<Rightarrow> text_string" where
  "build_415_unsupported_media request to_tag accept =
     build_uas_response_with_headers 415 ''Unsupported Media Type'' request (Some to_tag) None None
       [(''Accept'', accept)]"

definition build_200_ok_message :: "sip_request \<Rightarrow> text_string \<Rightarrow> text_string" where
  "build_200_ok_message request to_tag = build_uas_response 200 ''OK'' request (Some to_tag) None None"

section \<open>Requests\<close>

text \<open>An IP address carries the text \<open>Display\<close> prints for it.\<close>

datatype ip_addr = V4 text_string | V6 text_string

record socket_addr =
  sa_ip :: ip_addr
  sa_port :: u16

definition format_sip_addr :: "socket_addr \<Rightarrow> text_string" where
  "format_sip_addr a =
     (case sa_ip a of
        V6 ip \<Rightarrow> [91] @ ip @ [93, 58] @ show_nat (unat (sa_port a))
      | V4 ip \<Rightarrow> ip @ [58] @ show_nat (unat (sa_port a)))"

definition sec_agree_headers :: "text_string option \<Rightarrow> text_string" where
  "sec_agree_headers verify =
     (case verify of
        Some sv \<Rightarrow> hdr ''Require'' (lit ''sec-agree'') @ hdr ''Proxy-Require'' (lit ''sec-agree'') @ hdr ''Security-Verify'' sv
      | None \<Rightarrow> [])"

definition via_line :: "text_string \<Rightarrow> socket_addr \<Rightarrow> text_string \<Rightarrow> text_string" where
  "via_line transport local_addr branch =
     hdr ''Via'' (lit ''SIP/2.0/'' @ transport @ [32] @ format_sip_addr local_addr @ lit '';branch='' @ branch @ lit '';rport'')"

definition request_start :: "string \<Rightarrow> text_string \<Rightarrow> text_string" where
  "request_start method uri = lit method @ [32] @ uri @ lit '' SIP/2.0'' @ crlf"

definition raw_lines :: "text_string list \<Rightarrow> text_string" where
  "raw_lines ls = concat (map (\<lambda>l. l @ crlf) ls)"

record bye_request =
  br_request_uri :: text_string
  br_route_headers :: "text_string list"
  br_via_transport :: text_string
  br_local_addr :: socket_addr
  br_from :: text_string
  br_to :: text_string
  br_call_id :: text_string
  br_cseq :: nat
  br_branch :: text_string
  br_security_verify :: "text_string option"

definition sip_build_bye :: "bye_request \<Rightarrow> text_string" where
  "sip_build_bye req =
     request_start ''BYE'' (br_request_uri req) @
     via_line (br_via_transport req) (br_local_addr req) (br_branch req) @
     hdr ''Max-Forwards'' (lit ''70'') @ raw_lines (br_route_headers req) @
     hdr ''From'' (br_from req) @ hdr ''To'' (br_to req) @ hdr ''Call-ID'' (br_call_id req) @
     hdr ''CSeq'' (show_nat (br_cseq req) @ lit '' BYE'') @
     sec_agree_headers (br_security_verify req) @ hdr ''Content-Length'' (lit ''0'') @ crlf"

record update_request = bye_request +
  ur_session_expires :: text_string

definition build_update :: "update_request \<Rightarrow> text_string" where
  "build_update req =
     request_start ''UPDATE'' (br_request_uri req) @
     via_line (br_via_transport req) (br_local_addr req) (br_branch req) @
     hdr ''Max-Forwards'' (lit ''70'') @ raw_lines (br_route_headers req) @
     hdr ''From'' (br_from req) @ hdr ''To'' (br_to req) @ hdr ''Call-ID'' (br_call_id req) @
     hdr ''CSeq'' (show_nat (br_cseq req) @ lit '' UPDATE'') @
     hdr ''Supported'' (lit ''timer'') @ hdr ''Session-Expires'' (ur_session_expires req) @
     sec_agree_headers (br_security_verify req) @ hdr ''Content-Length'' (lit ''0'') @ crlf"

record options_request =
  or_request_uri :: text_string
  or_local_addr :: socket_addr
  or_transport :: text_string
  or_public_uri :: text_string
  or_from_tag :: text_string
  or_call_id :: text_string
  or_cseq :: nat
  or_branch :: text_string
  or_security_verify :: "text_string option"

definition build_options :: "options_request \<Rightarrow> text_string" where
  "build_options req =
     request_start ''OPTIONS'' (lit ''sip:'' @ or_request_uri req) @
     via_line (or_transport req) (or_local_addr req) (or_branch req) @
     hdr ''Max-Forwards'' (lit ''70'') @
     hdr ''From'' (lit ''<sip:'' @ or_public_uri req @ lit ''>;tag='' @ or_from_tag req) @
     hdr ''To'' (lit ''<sip:'' @ or_public_uri req @ lit ''>'') @
     hdr ''Call-ID'' (or_call_id req) @ hdr ''CSeq'' (show_nat (or_cseq req) @ lit '' OPTIONS'') @
     sec_agree_headers (or_security_verify req) @ hdr ''Content-Length'' (lit ''0'') @ crlf"

record message_request =
  mr_target_uri :: text_string
  mr_impu :: text_string
  mr_route_headers :: "text_string list"
  mr_local_addr :: socket_addr
  mr_transport :: text_string
  mr_call_id :: text_string
  mr_in_reply_to :: "text_string option"
  mr_from_tag :: text_string
  mr_branch :: text_string
  mr_cseq :: nat
  mr_content_type :: text_string
  mr_body :: bytes
  mr_security_verify :: "text_string option"

definition build_message :: "message_request \<Rightarrow> bytes" where
  "build_message req =
     as_bytes
       (request_start ''MESSAGE'' (mr_target_uri req) @
        via_line (mr_transport req) (mr_local_addr req) (mr_branch req) @
        hdr ''Max-Forwards'' (lit ''70'') @ raw_lines (mr_route_headers req) @
        sec_agree_headers (mr_security_verify req) @
        hdr ''P-Preferred-Identity'' ([60] @ mr_impu req @ [62]) @
        hdr ''From'' ([60] @ mr_impu req @ lit ''>;tag='' @ mr_from_tag req) @
        hdr ''To'' ([60] @ mr_target_uri req @ [62]) @
        hdr ''Call-ID'' (mr_call_id req) @
        opt_hdr ''In-Reply-To'' (mr_in_reply_to req) @
        hdr ''CSeq'' (show_nat (mr_cseq req) @ lit '' MESSAGE'') @
        hdr ''Content-Type'' (mr_content_type req) @
        hdr ''Content-Length'' (show_nat (length (mr_body req))) @ crlf) @
     mr_body req"

section \<open>Printed messages\<close>

text \<open>Text that can stand in a header line: no line break. A header as the builders print it: a name of
  more than one character without colon or surrounding blanks, and a value without surrounding blanks.\<close>

definition clean :: "text_string \<Rightarrow> bool" where
  "clean s \<longleftrightarrow> list_all is_scalar s \<and> 13 \<notin> set s \<and> 10 \<notin> set s"

definition sip_header_ok :: "sip_header \<Rightarrow> bool" where
  "sip_header_ok h \<longleftrightarrow> clean (fst h) \<and> clean (snd h) \<and> 58 \<notin> set (fst h) \<and> 1 < length (fst h) \<and>
     \<not> is_whitespace (hd (fst h)) \<and> trim (fst h) = fst h \<and> trim (snd h) = snd h"

definition header_text :: "sip_header \<Rightarrow> text_string" where
  "header_text h = fst h @ [58, 32] @ snd h"

definition message_head :: "text_string \<Rightarrow> sip_header list \<Rightarrow> text_string" where
  "message_head start hs = start @ crlf @ concat (map (\<lambda>h. header_text h @ crlf) hs) @ crlf"

lemma hdr_eq: "hdr n v = header_text (lit n, v) @ crlf"
  by (simp add: hdr_def header_text_def lit_def)

lemma as_bytes_append [simp]: "as_bytes (a @ b) = as_bytes a @ as_bytes b"
  by (simp add: as_bytes_def)

lemma as_bytes_Nil [simp]: "as_bytes [] = []"
  by (simp add: as_bytes_def)

lemma as_bytes_crlf [simp]: "as_bytes crlf = [13, 10]"
  by (simp add: as_bytes_def crlf_def utf8_char_def)

lemma as_bytes_no_break:
  assumes "clean s"
  shows "13 \<notin> set (as_bytes s)" "10 \<notin> set (as_bytes s)"
proof -
  have b: "b \<noteq> 13 \<and> b \<noteq> 10 \<and> b < 256" if "c \<in> set s" "b \<in> set (utf8_char c)" for b c
  proof -
    have "is_scalar c" "c \<noteq> 13" "c \<noteq> 10" using assms that(1) by (auto simp: clean_def list_all_iff)
    then show ?thesis using that(2) utf8_char_bytes by (auto simp: utf8_char_def split: if_splits)
  qed
  have w: "(word_of_nat b :: u8) \<noteq> 13 \<and> (word_of_nat b :: u8) \<noteq> 10" if "b \<noteq> 13" "b \<noteq> 10" "b < 256" for b
    using that unat_word_of_nat_u8 [of b] by force
  show "13 \<notin> set (as_bytes s)" "10 \<notin> set (as_bytes s)"
    unfolding as_bytes_def using b w by fastforce+
qed

lemma find_subslice_skip:
  "13 \<notin> set xs \<Longrightarrow> find_subslice (xs @ ys) (13 # needle) = map_option (\<lambda>i. length xs + i) (find_subslice ys (13 # needle))"
  by (cases "find_subslice ys (13 # needle)"; induction xs) auto

lemma find_subslice_break:
  "x \<noteq> 13 \<Longrightarrow> find_subslice (13 # 10 # x # xs) [13, 10, 13, 10 :: u8] = map_option (\<lambda>i. i + 2) (find_subslice (x # xs) [13, 10, 13, 10])"
  by (auto simp: option.map_comp o_def)

lemma find_head_end:
  assumes "list_all (\<lambda>l. l \<noteq> [] \<and> 13 \<notin> set l) ls" "13 \<notin> set start"
  shows "find_subslice (start @ [13, 10] @ concat (map (\<lambda>l. l @ [13, 10]) ls) @ [13, 10] @ body) [13, 10, 13, 10 :: u8]
    = Some (length start + length (concat (map (\<lambda>l. l @ [13, 10]) ls)))"
  using assms
proof (induction ls arbitrary: start)
  case Nil
  then show ?case by (simp add: find_subslice_skip)
next
  case (Cons l ls)
  then obtain x l' where l: "l = x # l'" "x \<noteq> 13" by (cases l) auto
  have "find_subslice (start @ [13, 10] @ concat (map (\<lambda>l. l @ [13, 10]) (l # ls)) @ [13, 10] @ body) [13, 10, 13, 10] =
      map_option (\<lambda>i. length start + (i + 2))
        (find_subslice (l @ [13, 10] @ concat (map (\<lambda>l. l @ [13, 10]) ls) @ [13, 10] @ body) [13, 10, 13, 10])"
    using Cons.prems(2) l
    by (simp add: find_subslice_skip find_subslice_break option.map_comp o_def del: find_subslice.simps)
  also have "find_subslice (l @ [13, 10] @ concat (map (\<lambda>l. l @ [13, 10]) ls) @ [13, 10] @ body) [13, 10, 13, 10] =
      Some (length l + length (concat (map (\<lambda>l. l @ [13, 10]) ls)))"
    using Cons.IH [of l] Cons.prems(1) by simp
  finally show ?case by simp
qed

lemma split_crlf_free: "13 \<notin> set s \<Longrightarrow> split_crlf s = [s]"
  by (induction s) auto

lemma split_crlf_line: "13 \<notin> set l \<Longrightarrow> split_crlf (l @ crlf @ s) = l # split_crlf s"
  by (induction l) (auto simp: crlf_def)

lemma split_crlf_lines:
  "list_all (\<lambda>l. 13 \<notin> set l) ls \<Longrightarrow> split_crlf (concat (map (\<lambda>l. l @ crlf) ls) @ s) = ls @ split_crlf s"
  by (induction ls) (auto simp: split_crlf_line)

lemma unfold_lines_plain:
  "list_all (\<lambda>l. l \<noteq> [] \<and> \<not> is_whitespace (hd l)) ls \<Longrightarrow> unfold_lines (ls @ [] # rest) acc = acc @ ls"
proof (induction ls arbitrary: acc)
  case (Cons l ls)
  then obtain x l' where l: "l = x # l'" "\<not> is_whitespace x" by (cases l) auto
  then have "x \<noteq> 32" "x \<noteq> 9" by (auto simp: is_whitespace_def)
  with l Cons show ?case by (simp add: starts_with_def)
qed simp

lemma trim_blank: "trim (32 # v) = trim v"
  by (simp add: trim_def trim_start_def is_whitespace_def)

lemma parse_header_text:
  assumes "sip_header_ok h"
  shows "parse_header_line (header_text h) = Some h"
proof -
  have "split_once 58 (header_text h) = Some (fst h, 32 # snd h)"
    using assms by (simp add: header_text_def sip_header_ok_def split_once_append)
  moreover have "canonical_header_name (fst h) = fst h"
    using assms by (cases "fst h" rule: remdups_adj.cases) (auto simp: sip_header_ok_def canonical_header_name_def)
  ultimately show ?thesis
    using assms by (simp add: parse_header_line_def sip_header_ok_def trim_blank)
qed

lemma parse_header_texts:
  "list_all sip_header_ok hs \<Longrightarrow> List.map_filter parse_header_line (map header_text hs) = hs"
  by (induction hs) (simp_all add: map_filter_simps parse_header_text)

lemma clean_append [simp]: "clean (a @ b) \<longleftrightarrow> clean a \<and> clean b"
  by (auto simp: clean_def)

lemma clean_Cons [simp]: "clean (c # s) \<longleftrightarrow> is_scalar c \<and> c \<noteq> 13 \<and> c \<noteq> 10 \<and> clean s"
  by (auto simp: clean_def)

lemma clean_Nil [simp]: "clean []"
  by (simp add: clean_def)

lemma clean_lit: "list_all (\<lambda>c. of_char c \<noteq> (13 :: nat) \<and> of_char c \<noteq> (10 :: nat)) s \<Longrightarrow> clean (lit s)"
proof -
  have "is_scalar (of_char c)" for c :: char
    unfolding is_scalar_def by (rule disjI1, rule order.strict_trans [OF nat_of_char_less_256]) simp
  then show "list_all (\<lambda>c. of_char c \<noteq> (13 :: nat) \<and> of_char c \<noteq> (10 :: nat)) s \<Longrightarrow> clean (lit s)"
    by (auto simp: clean_def lit_def list_all_iff)
qed

lemma clean_version: "clean (lit '' SIP/2.0'')" "clean (lit ''SIP/2.0 '')" "clean [32]"
  by (simp_all add: clean_def lit_def is_scalar_def)

lemma clean_show_nat [simp]: "clean (show_nat n)"
proof -
  have "\<forall>c\<in>set (show_nat n). 48 \<le> c \<and> c \<le> 57"
    using show_nat_digits(1) [of n] by (simp add: list_all_iff is_ascii_digit_def)
  then show ?thesis by (force simp: clean_def list_all_iff is_scalar_def)
qed

lemma sip_header_ok_content_length: "sip_header_ok (lit ''Content-Length'', show_nat n)"
  by (simp add: sip_header_ok_def clean_lit)
    (simp add: lit_def is_whitespace_def trim_def trim_start_def trim_end_def)

lemma header_text_line:
  "sip_header_ok h \<Longrightarrow> header_text h \<noteq> [] \<and> \<not> is_whitespace (hd (header_text h)) \<and> clean (header_text h)"
  by (cases "fst h") (auto simp: sip_header_ok_def header_text_def clean_def is_scalar_def)

text \<open>Framing and header parsing of a printed message, whatever bytes follow the head.\<close>

lemma parse_message_head:
  assumes "list_all sip_header_ok hs" "clean start"
  defines "head \<equiv> as_bytes (message_head start hs)"
  shows "\<exists>idx. find_subslice (head @ body) [13, 10, 13, 10] = Some idx \<and> idx + 4 = length head"
    "split_crlf (utf8_lossy head) = start # map header_text hs @ [[], []]"
    "parse_header_lines (map header_text hs @ [[], []]) = hs"
proof -
  let ?ls = "map (\<lambda>h. as_bytes (header_text h)) hs"
  have ok: "list_all (\<lambda>l. clean l \<and> l \<noteq> [] \<and> \<not> is_whitespace (hd l)) (map header_text hs)"
    using assms(1) header_text_line by (auto simp: list_all_iff)
  have ne: "as_bytes l \<noteq> []" if "l \<noteq> []" for l
    using that utf8_char_nonempty [of "hd l"] by (cases l) (auto simp: as_bytes_def)
  have c: "as_bytes (concat (map (\<lambda>h. header_text h @ crlf) hs)) = concat (map (\<lambda>l. l @ [13, 10]) ?ls)"
    by (induction hs) simp_all
  have "find_subslice (head @ body) [13, 10, 13, 10] =
      Some (length (as_bytes start) + length (concat (map (\<lambda>l. l @ [13, 10]) ?ls)))"
    using find_head_end [of ?ls "as_bytes start" body] ok as_bytes_no_break ne assms(2)
    by (auto simp: head_def message_head_def c list_all_iff)
  then show "\<exists>idx. find_subslice (head @ body) [13, 10, 13, 10] = Some idx \<and> idx + 4 = length head"
    by (simp add: head_def message_head_def c)
  have "list_all is_scalar (message_head start hs)"
    using ok assms(2) by (auto simp: message_head_def list_all_iff clean_def crlf_def is_scalar_def)
  then have "utf8_lossy head = message_head start hs"
    unfolding head_def by (rule utf8_lossy_as_bytes)
  moreover have "split_crlf (message_head start hs) = start # map header_text hs @ [[], []]"
    using split_crlf_lines [of "map header_text hs" crlf] ok assms(2) split_crlf_line [of "[]" "[]"]
    by (auto simp: message_head_def split_crlf_line clean_def o_def list_all_iff)
  ultimately show "split_crlf (utf8_lossy head) = start # map header_text hs @ [[], []]" by simp
  have "unfold_lines (map header_text hs @ [] # [[]]) [] = map header_text hs"
    using ok by (subst unfold_lines_plain) (auto simp: list_all_iff)
  then show "parse_header_lines (map header_text hs @ [[], []]) = hs"
    using assms(1) by (simp add: parse_header_lines_def parse_header_texts)
qed

lemma content_length_last:
  assumes "header_in hs (lit ''Content-Length'') = None" "n \<le> MAX_USIZE"
  shows "content_length_of (hs @ [(lit ''Content-Length'', show_nat n)]) = n"
proof -
  have "find (\<lambda>(k, _). eq_ignore_ascii_case k (lit ''Content-Length'')) (hs @ [(lit ''Content-Length'', show_nat n)])
      = Some (lit ''Content-Length'', show_nat n)"
    using assms(1) by (induction hs) (auto simp: header_in_def eq_ignore_ascii_case_def split: if_splits)
  then show ?thesis
    using assms(2) by (simp add: content_length_of_def header_in_def parse_uint_show_nat)
qed

lemma body_slice_exact:
  "length (head @ body) \<le> MAX_USIZE \<Longrightarrow>
   body_slice (head @ body @ rest) (length head) (length body) = Some (Some (body, length (head @ body)))"
  by (simp add: body_slice_def)

lemma request_try_parse_printed:
  fixes body :: bytes and meth uri :: text_string
  assumes "list_all sip_header_ok hs" "header_in hs (lit ''Content-Length'') = None" "clean meth" "clean uri"
    "32 \<notin> set meth" "32 \<notin> set uri"
  defines "hs' \<equiv> hs @ [(lit ''Content-Length'', show_nat (length body))]"
  defines "head \<equiv> as_bytes (message_head (meth @ [32] @ uri @ lit '' SIP/2.0'') hs')"
  assumes "length (head @ body) \<le> MAX_USIZE"
  shows "request_try_parse (head @ body @ rest) =
    Some (Inr (Some (\<lparr>rq_method = meth, rq_request_uri = uri, rq_headers = hs', rq_body = utf8_lossy body,
      rq_body_bytes = body\<rparr>, length (head @ body))))"
proof -
  let ?start = "meth @ [32] @ uri @ lit '' SIP/2.0''"
  have ok: "list_all sip_header_ok hs'" "clean ?start"
    using assms(1,3,4) by (simp_all add: hs'_def sip_header_ok_content_length clean_version is_scalar_def)
  note parsed = parse_message_head [OF ok, folded head_def]
  obtain idx where idx: "find_subslice (head @ body @ rest) [13, 10, 13, 10] = Some idx" "idx + 4 = length head"
    using parsed(1) by blast
  have "split_once 32 ?start = Some (meth, uri @ lit '' SIP/2.0'')"
    using assms(5) split_once_append by simp
  moreover have "split_once 32 (uri @ lit '' SIP/2.0'') = Some (uri, lit ''SIP/2.0'')"
    using split_once_append [OF assms(6), of "lit ''SIP/2.0''"] by (simp add: lit_def)
  moreover have "content_length_of hs' = length body"
    using assms(2,9) by (simp add: hs'_def content_length_last)
  moreover have "take (length head) (head @ body @ rest) = head" by simp
  ultimately show ?thesis
    using idx parsed(2,3) body_slice_exact [OF assms(9)]
    by (simp add: request_try_parse_def Let_def)
qed

lemma response_try_parse_printed:
  fixes body :: text_string
  assumes "list_all sip_header_ok hs" "header_in hs (lit ''Content-Length'') = None" "clean reason" "status < 2 ^ 16"
    "list_all is_scalar body"
  defines "hs' \<equiv> hs @ [(lit ''Content-Length'', show_nat (length (as_bytes body)))]"
  defines "msg \<equiv> as_bytes (message_head (lit ''SIP/2.0 '' @ show_nat status @ [32] @ reason) hs' @ body)"
  assumes "length msg \<le> MAX_USIZE"
  shows "response_try_parse (msg @ rest) =
    Some (Inr (Some (\<lparr>rs_status = status, rs_reason = reason, rs_headers = hs', rs_body = body\<rparr>, length msg)))"
proof -
  let ?start = "lit ''SIP/2.0 '' @ show_nat status @ [32] @ reason"
  let ?head = "as_bytes (message_head ?start hs')"
  have ok: "list_all sip_header_ok hs'" "clean ?start"
    using assms(1,3) by (simp_all add: hs'_def sip_header_ok_content_length clean_version is_scalar_def)
  note parsed = parse_message_head [OF ok]
  have msg: "msg @ rest = ?head @ as_bytes body @ rest" "length (?head @ as_bytes body) \<le> MAX_USIZE"
    using assms(8) by (simp_all add: msg_def)
  obtain idx where idx: "find_subslice (msg @ rest) [13, 10, 13, 10] = Some idx" "idx + 4 = length ?head"
    using parsed(1) unfolding msg(1) by blast
  have "split_once 32 ?start = Some (lit ''SIP/2.0'', show_nat status @ [32] @ reason)"
    using split_once_append [of 32 "lit ''SIP/2.0''"] by (simp add: lit_def)
  moreover have "split_once 32 (show_nat status @ [32] @ reason) = Some (show_nat status, reason)"
    using split_once_append [of 32 "show_nat status" reason] not_in_show_nat [of 32 status]
    by (simp add: is_ascii_digit_def)
  moreover have "parse_uint (2 ^ 16 - 1) (show_nat status) = Some status"
    using assms(4) by (intro parse_uint_show_nat) simp
  moreover have "content_length_of hs' = length (as_bytes body)"
    using assms(2) msg(2) by (simp add: hs'_def content_length_last)
  moreover have "take (length ?head) (msg @ rest) = ?head" by (simp add: msg(1))
  ultimately show ?thesis
    using idx parsed(2,3) body_slice_exact [OF msg(2), of rest] utf8_lossy_as_bytes [OF assms(5)]
    by (simp add: response_try_parse_def Let_def msg(1) msg_def)
qed

section \<open>Replies\<close>

text \<open>The headers of a reply, in order.\<close>

definition reply_to :: "sip_request \<Rightarrow> text_string option \<Rightarrow> text_string" where
  "reply_to request to_tag =
     (let to = (case header request (lit ''To'') of Some t \<Rightarrow> t | None \<Rightarrow> [])
      in case to_tag of
           Some tag \<Rightarrow> if to_already_tagged to then to else to @ lit '';tag='' @ tag
         | None \<Rightarrow> to)"

definition opt_header :: "string \<Rightarrow> text_string option \<Rightarrow> sip_header list" where
  "opt_header name v = (case v of Some v \<Rightarrow> [(lit name, v)] | None \<Rightarrow> [])"

definition reply_headers ::
  "sip_request \<Rightarrow> text_string option \<Rightarrow> text_string option \<Rightarrow> text_string \<Rightarrow> (string \<times> text_string) list \<Rightarrow> sip_header list" where
  "reply_headers request to_tag contact body extra =
     map (\<lambda>v. (lit ''Via'', v)) (headers_all request (lit ''Via'')) @
     map (\<lambda>v. (lit ''Record-Route'', v)) (headers_all request (lit ''Record-Route'')) @
     opt_header ''From'' (header request (lit ''From'')) @
     [(lit ''To'', reply_to request to_tag)] @
     opt_header ''Call-ID'' (header request (lit ''Call-ID'')) @
     opt_header ''CSeq'' (header request (lit ''CSeq'')) @
     opt_header ''Contact'' contact @
     map (\<lambda>(name, v). (lit name, v)) extra @
     (if body \<noteq> [] then [(lit ''Content-Type'', lit ''application/sdp'')] else [])"

definition reply_text :: "sip_header list \<Rightarrow> text_string" where
  "reply_text hs = concat (map (\<lambda>h. header_text h @ crlf) hs)"

lemma reply_text_simps [simp]:
  "reply_text [] = []" "reply_text (h # hs) = header_text h @ crlf @ reply_text hs"
  "reply_text (hs @ hs') = reply_text hs @ reply_text hs'"
  by (simp_all add: reply_text_def)

lemma reply_text_hdrs:
  "concat (map (hdr name) vs) = reply_text (map (\<lambda>v. (lit name, v)) vs)"
  "opt_hdr name v = reply_text (opt_header name v)"
  "concat (map (\<lambda>(n, v). hdr n v) extra) = reply_text (map (\<lambda>(n, v). (lit n, v)) extra)"
proof -
  have h: "hdr n = (\<lambda>v. header_text (lit n, v) @ crlf)" for n by (rule ext) (rule hdr_eq)
  show "concat (map (hdr name) vs) = reply_text (map (\<lambda>v. (lit name, v)) vs)"
    "opt_hdr name v = reply_text (opt_header name v)"
    "concat (map (\<lambda>(n, v). hdr n v) extra) = reply_text (map (\<lambda>(n, v). (lit n, v)) extra)"
    by (simp_all add: reply_text_def h opt_hdr_def opt_header_def o_def case_prod_unfold split: option.split)
qed

lemma build_uas_response_eq:
  "build_uas_response_with_headers status reason request to_tag contact body extra =
     (let b = (case body of Some b \<Rightarrow> b | None \<Rightarrow> [])
      in message_head (lit ''SIP/2.0 '' @ show_nat status @ [32] @ lit reason)
           (reply_headers request to_tag contact b extra @ [(lit ''Content-Length'', show_nat (length (as_bytes b)))]) @ b)"
  unfolding build_uas_response_with_headers_def message_head_def reply_text_def [symmetric] Let_def reply_text_hdrs
  by (simp add: reply_headers_def hdr_eq reply_to_def Let_def split: option.split)

lemma starts_with_append: "starts_with (p @ s) p"
  by (simp add: starts_with_def)

lemma split_on_append_gen: "split_on c (a @ c # b) = split_on c a @ split_on c b"
  by (induction a) (auto split: list.split)

lemma starts_with_split_on:
  "starts_with s p \<Longrightarrow> c \<notin> set p \<Longrightarrow> starts_with (hd (split_on c s)) p"
proof (induction p arbitrary: s)
  case (Cons x p)
  then obtain s' where s: "s = x # s'" "starts_with s' p" by (cases s) (auto simp: starts_with_def)
  have "hd (split_on c (x # s')) = x # hd (split_on c s')"
    using Cons.prems(2) split_on_nonempty [of c s'] by (auto split: list.split)
  with Cons s show ?case by (simp add: starts_with_def)
qed (simp add: starts_with_def)

text \<open>A tag the reply adds is recognised as one, so no later reply adds a second.\<close>

lemma reply_to_tagged: "to_already_tagged (reply_to request (Some tag))"
proof -
  let ?to = "case header request (lit ''To'') of Some t \<Rightarrow> t | None \<Rightarrow> []"
  have "to_already_tagged (to @ lit '';tag='' @ tag)" for to
  proof -
    let ?l = "to_ascii_lowercase"
    have "?l (to @ lit '';tag='' @ tag) = ?l to @ 59 # (lit ''tag='' @ ?l tag)"
      by (simp add: to_ascii_lowercase_def lit_def ascii_lower_def)
    then have pieces: "split_on 59 (?l (to @ lit '';tag='' @ tag)) =
        split_on 59 (?l to) @ split_on 59 (lit ''tag='' @ ?l tag)"
      by (simp add: split_on_append_gen)
    let ?p = "hd (split_on 59 (lit ''tag='' @ ?l tag))"
    have start: "starts_with ?p (lit ''tag='')"
      by (rule starts_with_split_on [OF starts_with_append]) (simp add: lit_def)
    then have "trim_start ?p = ?p"
      by (cases ?p) (auto simp: starts_with_def lit_def trim_start_def is_whitespace_def)
    moreover have "?p \<in> set (drop 1 (split_on 59 (?l (to @ lit '';tag='' @ tag))))"
      unfolding pieces using split_on_nonempty [of 59 "?l to"] split_on_nonempty [of 59 "lit ''tag='' @ ?l tag"]
      by (cases "split_on 59 (?l to)") (auto intro: hd_in_set)
    ultimately show ?thesis using start unfolding to_already_tagged_def list_ex_iff by force
  qed
  then show ?thesis by (simp add: reply_to_def Let_def)
qed

section \<open>The delivery report request\<close>

definition message_headers :: "message_request \<Rightarrow> sip_header list \<Rightarrow> sip_header list" where
  "message_headers req routes =
     [(lit ''Via'', lit ''SIP/2.0/'' @ mr_transport req @ [32] @ format_sip_addr (mr_local_addr req) @
         lit '';branch='' @ mr_branch req @ lit '';rport''),
      (lit ''Max-Forwards'', lit ''70'')] @ routes @
     (case mr_security_verify req of
        Some sv \<Rightarrow> [(lit ''Require'', lit ''sec-agree''), (lit ''Proxy-Require'', lit ''sec-agree''), (lit ''Security-Verify'', sv)]
      | None \<Rightarrow> []) @
     [(lit ''P-Preferred-Identity'', [60] @ mr_impu req @ [62]),
      (lit ''From'', [60] @ mr_impu req @ lit ''>;tag='' @ mr_from_tag req),
      (lit ''To'', [60] @ mr_target_uri req @ [62]),
      (lit ''Call-ID'', mr_call_id req)] @
     opt_header ''In-Reply-To'' (mr_in_reply_to req) @
     [(lit ''CSeq'', show_nat (mr_cseq req) @ lit '' MESSAGE''),
      (lit ''Content-Type'', mr_content_type req)]"

lemma build_message_eq:
  assumes "mr_route_headers req = map header_text routes"
  shows "build_message req =
    as_bytes (message_head (lit ''MESSAGE'' @ [32] @ mr_target_uri req @ lit '' SIP/2.0'')
      (message_headers req routes @ [(lit ''Content-Length'', show_nat (length (mr_body req)))])) @ mr_body req"
proof -
  have "raw_lines (mr_route_headers req) = reply_text routes"
    by (simp add: raw_lines_def assms reply_text_def o_def)
  then show ?thesis
    unfolding build_message_def message_head_def reply_text_def [symmetric] reply_text_hdrs
    by (simp add: message_headers_def request_start_def via_line_def hdr_eq sec_agree_headers_def split: option.split)
qed

section \<open>Properties\<close>

text \<open>
  A reply parses back to what was replied. Printing a response to a request and parsing the
  bytes gives the status, the reason and the body, and exactly the headers of the request that a
  reply must echo, in order (every \<open>Via\<close> and \<open>Record-Route\<close>, \<open>From\<close>, \<open>Call-ID\<close>, \<open>CSeq\<close>), the
  \<open>To\<close> header with a tag whenever one was to be added, and the exact content length. Bytes of a next
  message in the buffer are left alone.
\<close>

theorem sip_reply_roundtrip:
  assumes "status < 2 ^ 16" "clean (lit reason)" "list_all is_scalar body"
    and "list_all sip_header_ok (reply_headers request to_tag contact body extra)"
    and "header_in (reply_headers request to_tag contact body extra) (lit ''Content-Length'') = None"
    and "length (as_bytes (build_uas_response_with_headers status reason request to_tag contact (Some body) extra)) \<le> MAX_USIZE"
  shows "response_try_parse
      (as_bytes (build_uas_response_with_headers status reason request to_tag contact (Some body) extra) @ rest) =
    Some (Inr (Some
      (\<lparr>rs_status = status, rs_reason = lit reason,
        rs_headers = reply_headers request to_tag contact body extra @
          [(lit ''Content-Length'', show_nat (length (as_bytes body)))],
        rs_body = body\<rparr>,
       length (as_bytes (build_uas_response_with_headers status reason request to_tag contact (Some body) extra)))))
    \<and> (\<forall>tag. to_tag = Some tag \<longrightarrow> to_already_tagged (reply_to request to_tag))"
  using response_try_parse_printed [OF assms(4,5,2,1,3), of rest] assms(6) reply_to_tagged
  by (simp add: build_uas_response_eq Let_def)

definition sample_invite :: sip_request where
  "sample_invite =
     \<lparr>rq_method = lit ''INVITE'', rq_request_uri = lit ''sip:x'',
      rq_headers = [(lit ''Via'', lit ''a''), (lit ''via'', lit ''b''), (lit ''To'', lit ''t'')],
      rq_body = [], rq_body_bytes = []\<rparr>"

lemma sample_reply_headers:
  "reply_headers sample_invite (Some (lit ''k'')) None [] [] = [(lit ''Via'', lit ''a''), (lit ''Via'', lit ''b''), (lit ''To'', lit ''t;tag=k'')]"
  by (simp add: reply_headers_def sample_invite_def header_def headers_all_def header_in_def headers_all_in_def
      eq_ignore_ascii_case_def lit_def ascii_lower_def opt_header_def reply_to_def to_already_tagged_def
      to_ascii_lowercase_def)

theorem sip_reply_roundtrip_witness:
  "response_try_parse (as_bytes (build_uas_response_with_headers 200 ''OK'' sample_invite (Some (lit ''k'')) None (Some []) []) @ [1]) =
    Some (Inr (Some
      (\<lparr>rs_status = 200, rs_reason = lit ''OK'',
        rs_headers = [(lit ''Via'', lit ''a''), (lit ''Via'', lit ''b''), (lit ''To'', lit ''t;tag=k''), (lit ''Content-Length'', lit ''0'')],
        rs_body = []\<rparr>,
       length (as_bytes (build_uas_response_with_headers 200 ''OK'' sample_invite (Some (lit ''k'')) None (Some []) [])))))"
proof -
  have "list_all sip_header_ok (reply_headers sample_invite (Some (lit ''k'')) None [] [])"
    unfolding sample_reply_headers
    by (simp add: sip_header_ok_def clean_def lit_def is_scalar_def is_whitespace_def trim_def trim_start_def trim_end_def)
  moreover have "header_in (reply_headers sample_invite (Some (lit ''k'')) None [] []) (lit ''Content-Length'') = None"
    unfolding sample_reply_headers by (simp add: header_in_def eq_ignore_ascii_case_def lit_def ascii_lower_def)
  moreover have "length (as_bytes (build_uas_response_with_headers 200 ''OK'' sample_invite (Some (lit ''k'')) None (Some []) [])) \<le> MAX_USIZE"
    by (simp add: build_uas_response_eq sample_reply_headers)
      (simp add: message_head_def header_text_def lit_def as_bytes_def utf8_char_def crlf_def show_nat.simps MAX_USIZE_def)
  ultimately show ?thesis
    using sip_reply_roundtrip [of 200 "''OK''" "[]" sample_invite "Some (lit ''k'')" None "[]" "[1]"] sample_reply_headers
    by (simp add: clean_def lit_def is_scalar_def show_nat.simps [of 0])
qed

text \<open>
  A content length near the machine limit stops the parser. A request whose \<open>Content-Length\<close>
  together with the length of its headers exceeds the largest \<open>usize\<close> panics instead of being
  reported as incomplete or malformed.
\<close>

theorem sip_content_length_overflow_panics:
  assumes "list_all sip_header_ok hs" "header_in hs (lit ''Content-Length'') = None" "clean method" "clean uri"
    and "32 \<notin> set method" "n \<le> MAX_USIZE"
    and "MAX_USIZE < n + length (as_bytes (message_head (method @ [32] @ uri) (hs @ [(lit ''Content-Length'', show_nat n)])))"
  shows "request_try_parse
    (as_bytes (message_head (method @ [32] @ uri) (hs @ [(lit ''Content-Length'', show_nat n)])) @ rest) = None"
proof -
  let ?start = "method @ [32] @ uri" and ?hs = "hs @ [(lit ''Content-Length'', show_nat n)]"
  let ?head = "as_bytes (message_head ?start ?hs)"
  have ok: "list_all sip_header_ok ?hs" "clean ?start"
    using assms(1,3,4) by (simp_all add: sip_header_ok_content_length is_scalar_def)
  note parsed = parse_message_head [OF ok]
  obtain idx where idx: "find_subslice (?head @ rest) [13, 10, 13, 10] = Some idx" "idx + 4 = length ?head"
    using parsed(1) by blast
  have "body_slice (?head @ rest) (length ?head) n = None"
    using assms(7) by (simp add: body_slice_def add.commute)
  then show ?thesis
    using idx parsed(2,3) split_once_append [OF assms(5), of uri] content_length_last [OF assms(2,6)]
    by (simp add: request_try_parse_def Let_def)
qed

theorem sip_content_length_overflow_panics_witness:
  "request_try_parse (as_bytes (lit ''A B'' @ crlf @ lit ''Content-Length: 18446744073709551615'' @ crlf @ crlf) @ []) = None"
proof -
  have "show_nat 18446744073709551615 = lit ''18446744073709551615''"
    by (simp add: show_nat.simps lit_def)
  then show ?thesis
    using sip_content_length_overflow_panics [of "[]" "lit ''A''" "lit ''B''" 18446744073709551615 "[]"]
    by (simp add: header_in_def clean_def lit_def is_scalar_def MAX_USIZE_def message_head_def header_text_def
        as_bytes_def utf8_char_def crlf_def)
qed

text \<open>
  A delivery report request carries its bytes intact. The printed \<open>MESSAGE\<close> parses back to its
  method, target and headers, and to exactly the binary body that was put in, whatever bytes that
  body has.
\<close>

theorem sip_message_request_roundtrip:
  assumes "mr_route_headers req = map header_text routes" "list_all sip_header_ok (message_headers req routes)"
    and "header_in (message_headers req routes) (lit ''Content-Length'') = None"
    and "clean (mr_target_uri req)" "32 \<notin> set (mr_target_uri req)"
    and "length (build_message req) \<le> MAX_USIZE"
  shows "request_try_parse (build_message req @ rest) =
    Some (Inr (Some
      (\<lparr>rq_method = lit ''MESSAGE'', rq_request_uri = mr_target_uri req,
        rq_headers = message_headers req routes @ [(lit ''Content-Length'', show_nat (length (mr_body req)))],
        rq_body = utf8_lossy (mr_body req), rq_body_bytes = mr_body req\<rparr>, length (build_message req))))"
proof -
  have "clean (lit ''MESSAGE'')" "32 \<notin> set (lit ''MESSAGE'')"
    by (simp_all add: clean_def lit_def is_scalar_def)
  from request_try_parse_printed [OF assms(2,3) this(1) assms(4) this(2) assms(5), of "mr_body req" rest]
  show ?thesis using assms(6) by (simp add: build_message_eq [OF assms(1)])
qed

definition sample_report :: message_request where
  "sample_report =
     \<lparr>mr_target_uri = lit ''sip:g'', mr_impu = lit ''sip:u'', mr_route_headers = [],
      mr_local_addr = \<lparr>sa_ip = V4 (lit ''10.0.0.1''), sa_port = 5060\<rparr>, mr_transport = lit ''UDP'',
      mr_call_id = lit ''c1'', mr_in_reply_to = None, mr_from_tag = lit ''ft'', mr_branch = lit ''z9'', mr_cseq = 1,
      mr_content_type = lit ''application/vnd.3gpp.sms'', mr_body = [2, 0xFF, 13, 10, 13, 10], mr_security_verify = None\<rparr>"

lemma sample_report_ok:
  "list_all sip_header_ok (message_headers sample_report [])"
  "header_in (message_headers sample_report []) (lit ''Content-Length'') = None"
  "length (build_message sample_report) \<le> MAX_USIZE"
proof -
  show "list_all sip_header_ok (message_headers sample_report [])"
    by (simp add: message_headers_def sample_report_def opt_header_def sip_header_ok_def format_sip_addr_def clean_def lit_def
        is_scalar_def is_whitespace_def trim_def trim_start_def trim_end_def show_nat.simps)
  show "header_in (message_headers sample_report []) (lit ''Content-Length'') = None"
    by (simp add: message_headers_def sample_report_def opt_header_def header_in_def eq_ignore_ascii_case_def lit_def ascii_lower_def)
  show "length (build_message sample_report) \<le> MAX_USIZE"
    by (simp add: build_message_eq [of sample_report "[]", simplified sample_report_def, simplified] message_headers_def
        opt_header_def format_sip_addr_def sample_report_def)
      (simp add: message_head_def header_text_def lit_def as_bytes_def utf8_char_def crlf_def show_nat.simps MAX_USIZE_def)
qed

theorem sip_message_request_roundtrip_witness:
  "map_option (map_sum id (map_option (\<lambda>(r, n). (rq_method r, rq_body_bytes r)))) (request_try_parse (build_message sample_report @ [7])) =
    Some (Inr (Some (lit ''MESSAGE'', [2, 0xFF, 13, 10, 13, 10])))"
proof -
  have "mr_route_headers sample_report = map header_text []" "clean (mr_target_uri sample_report)"
    "32 \<notin> set (mr_target_uri sample_report)" "mr_body sample_report = [2, 0xFF, 13, 10, 13, 10]"
    by (simp_all add: sample_report_def clean_def lit_def is_scalar_def)
  then show ?thesis
    using sip_message_request_roundtrip [of sample_report "[]" "[7]"] sample_report_ok by simp
qed

end
