(* ===== verification/Sip_Identity.thy ===== *)
theory Sip_Identity
  imports Sip_Message
begin

text \<open>
  Who a request comes from (\<^verbatim>\<open>ims/identity.rs\<close> and the caller functions of \<^verbatim>\<open>ims/session.rs\<close>): splitting
  header lists, \<open>name-addr\<close> values, the number a URI names, and the choice between the asserted
  identity and \<open>From\<close>. The theorems show that printed display names are read back exactly, that a
  list of printed values is split into those values, and that an extracted caller is always safe to
  embed in a header.
\<close>

section \<open>Header values\<close>

text \<open>The scan of \<open>split_header_values\<close>: quoted, escaped, bracket depth, and the entry so far.\<close>

fun split_values :: "bool \<Rightarrow> bool \<Rightarrow> nat \<Rightarrow> text_string \<Rightarrow> text_string \<Rightarrow> text_string list" where
  "split_values quoted escaped depth entry [] = [trim entry]"
| "split_values quoted escaped depth entry (c # cs) =
     (if quoted then
        (if escaped then split_values True False depth (entry @ [c]) cs
         else if c = 92 then split_values True True depth (entry @ [c]) cs
         else if c = 34 then split_values False escaped depth (entry @ [c]) cs
         else split_values True escaped depth (entry @ [c]) cs)
      else if c = 34 then split_values True escaped depth (entry @ [c]) cs
      else if c = 60 then split_values False escaped (depth + 1) (entry @ [c]) cs
      else if c = 62 then split_values False escaped (depth - 1) (entry @ [c]) cs
      else if c = 44 \<and> depth = 0 then trim entry # split_values False escaped depth [] cs
      else split_values False escaped depth (entry @ [c]) cs)"

definition split_header_values :: "text_string \<Rightarrow> text_string list" where
  "split_header_values v = filter (\<lambda>e. e \<noteq> []) (split_values False False 0 [] v)"

datatype header_params = ParamsAllowed | ParamsNone

record name_addr =
  na_display :: "text_string option"
  na_uri :: text_string

text \<open>The quoted display name: its text and what follows the closing quote.\<close>

fun quoted_name :: "bool \<Rightarrow> text_string \<Rightarrow> text_string \<Rightarrow> (text_string \<times> text_string) option" where
  "quoted_name escaped name [] = None"
| "quoted_name escaped name (c # cs) =
     (if escaped then quoted_name False (name @ [c]) cs
      else if c = 92 then quoted_name True name cs
      else if c = 34 then Some (name, cs)
      else quoted_name False (name @ [c]) cs)"

definition name_addr_parts :: "text_string \<Rightarrow> header_params \<Rightarrow> (text_string \<times> text_string) option" where
  "name_addr_parts value params =
     (case strip_prefix value [34] of
        Some after \<Rightarrow>
          (case quoted_name False [] after of
             None \<Rightarrow> None
           | Some (name, rest) \<Rightarrow>
               (case strip_prefix (trim_start rest) [60] of
                  None \<Rightarrow> None
                | Some rest \<Rightarrow> map_option (\<lambda>(uri, _). (name, uri)) (split_once 62 rest)))
      | None \<Rightarrow>
          (case split_once 60 value of
             Some (before, rest) \<Rightarrow> map_option (\<lambda>(uri, _). (trim before, uri)) (split_once 62 rest)
           | None \<Rightarrow>
               Some ([], case params of ParamsAllowed \<Rightarrow> hd (split_on 59 value) | ParamsNone \<Rightarrow> value)))"

definition parse_name_addr :: "text_string \<Rightarrow> header_params \<Rightarrow> name_addr option" where
  "parse_name_addr value params =
     (case name_addr_parts (trim value) params of
        None \<Rightarrow> None
      | Some (display, uri) \<Rightarrow>
          (let uri = trim uri
           in if 58 \<notin> set uri then None
              else Some \<lparr>na_display = (if display \<noteq> [] \<and> 13 \<notin> set display \<and> 10 \<notin> set display then Some display else None),
                         na_uri = uri\<rparr>))"

section \<open>Numbers\<close>

definition hex_digit :: "u8 \<Rightarrow> nat option" where
  "hex_digit b =
     (let n = unat b
      in if 48 \<le> n \<and> n \<le> 57 then Some (n - 48)
         else if 97 \<le> n \<and> n \<le> 102 then Some (n - 87)
         else if 65 \<le> n \<and> n \<le> 70 then Some (n - 55)
         else None)"

text \<open>\<open>u8::from_str_radix(hex, 16)\<close> on two bytes: two digits, or a plus sign and one digit.\<close>

definition hex_pair :: "u8 \<Rightarrow> u8 \<Rightarrow> u8 option" where
  "hex_pair h l =
     (if h = 43 then map_option word_of_nat (hex_digit l)
      else (case hex_digit h of
              None \<Rightarrow> None
            | Some hi \<Rightarrow> map_option (\<lambda>lo. word_of_nat (16 * hi + lo)) (hex_digit l)))"

fun percent_bytes :: "bytes \<Rightarrow> bytes option" where
  "percent_bytes [] = Some []"
| "percent_bytes (b # bs) =
     (if b = 37 then
        (case bs of
           h # l # rest \<Rightarrow>
             (case hex_pair h l of
                None \<Rightarrow> None
              | Some v \<Rightarrow> map_option (\<lambda>r. v # r) (percent_bytes rest))
         | _ \<Rightarrow> None)
      else map_option (\<lambda>r. b # r) (percent_bytes bs))"

text \<open>\<open>String::from_utf8\<close>: the text whose encoding the bytes are.\<close>

definition from_utf8 :: "bytes \<Rightarrow> text_string option" where
  "from_utf8 bs = (if as_bytes (utf8_lossy bs) = bs then Some (utf8_lossy bs) else None)"

definition percent_decode :: "text_string \<Rightarrow> text_string option" where
  "percent_decode s = (case percent_bytes (as_bytes s) of None \<Rightarrow> None | Some bs \<Rightarrow> from_utf8 bs)"

definition is_ascii_alphanumeric :: "nat \<Rightarrow> bool" where
  "is_ascii_alphanumeric c \<longleftrightarrow> 48 \<le> c \<and> c \<le> 57 \<or> 65 \<le> c \<and> c \<le> 90 \<or> 97 \<le> c \<and> c \<le> 122"

definition safe_number_char :: "nat \<Rightarrow> bool" where
  "safe_number_char c \<longleftrightarrow> is_ascii_alphanumeric c \<or> c \<in> {43, 42, 35, 45, 46, 95, 126}"

definition uri_raw_number :: "text_string \<Rightarrow> (text_string \<times> bool) option" where
  "uri_raw_number uri =
     (case split_once 58 (trim uri) of
        None \<Rightarrow> None
      | Some (scheme, rest) \<Rightarrow>
          if eq_ignore_ascii_case scheme (lit ''tel'') then Some (hd (split_on 59 rest), True)
          else if eq_ignore_ascii_case scheme (lit ''sip'') \<or> eq_ignore_ascii_case scheme (lit ''sips'') then
            (case split_once 64 rest of
               None \<Rightarrow> None
             | Some (userinfo, hostpart) \<Rightarrow>
                 (let user = hd (split_on 58 (hd (split_on 59 userinfo)));
                      user_phone = list_ex (\<lambda>p. eq_ignore_ascii_case (trim p) (lit ''user=phone''))
                        (split_on 59 (hd (split_on 63 hostpart)));
                      leading_plus = starts_with user [43] \<or> eq_ignore_ascii_case (take 3 user) (lit ''%2B'')
                  in Some (user, user_phone \<or> leading_plus)))
          else None)"

definition uri_number :: "text_string \<Rightarrow> text_string option" where
  "uri_number uri =
     (case uri_raw_number uri of
        None \<Rightarrow> None
      | Some (raw, is_phone) \<Rightarrow>
          (case percent_decode raw of
             None \<Rightarrow> None
           | Some number \<Rightarrow>
               (let number = (if is_phone then filter (\<lambda>c. c \<notin> {45, 46, 40, 41}) number else number)
                in if number \<noteq> [] \<and> list_all safe_number_char number then Some number else None)))"

section \<open>The caller of a request\<close>

record sip_identity =
  id_number :: text_string
  id_display :: "text_string option"

definition header_uri_values :: "sip_request \<Rightarrow> text_string \<Rightarrow> header_params \<Rightarrow> name_addr list" where
  "header_uri_values req name params =
     List.map_filter (\<lambda>v. parse_name_addr v params) (concat (map split_header_values (headers_all req name)))"

definition is_tel :: "text_string \<Rightarrow> bool" where
  "is_tel uri \<longleftrightarrow> (case split_once 58 uri of Some (scheme, _) \<Rightarrow> eq_ignore_ascii_case scheme (lit ''tel'') | None \<Rightarrow> False)"

text \<open>\<open>find_map\<close>: the first result, if any.\<close>

fun find_map :: "('a \<Rightarrow> 'b option) \<Rightarrow> 'a list \<Rightarrow> 'b option" where
  "find_map f [] = None"
| "find_map f (x # xs) = (case f x of Some y \<Rightarrow> Some y | None \<Rightarrow> find_map f xs)"

definition header_identity :: "sip_request \<Rightarrow> text_string \<Rightarrow> header_params \<Rightarrow> sip_identity option" where
  "header_identity req name params =
     (let values = header_uri_values req name params;
          number = (case find_map (\<lambda>v. uri_number (na_uri v)) (filter (\<lambda>v. is_tel (na_uri v)) values) of
                      Some n \<Rightarrow> Some n
                    | None \<Rightarrow> find_map (\<lambda>v. uri_number (na_uri v)) values)
      in map_option (\<lambda>n. \<lparr>id_number = n, id_display = find_map na_display values\<rparr>) number)"

definition caller_identity :: "sip_request \<Rightarrow> sip_identity option" where
  "caller_identity req =
     (case header_identity req (lit ''P-Asserted-Identity'') ParamsNone of
        Some i \<Rightarrow> Some i
      | None \<Rightarrow> header_identity req (lit ''From'') ParamsAllowed)"

definition extract_caller :: "sip_request \<Rightarrow> text_string" where
  "extract_caller req = (case caller_identity req of Some i \<Rightarrow> id_number i | None \<Rightarrow> lit ''unknown'')"

definition caller_unresolved :: "sip_request \<Rightarrow> bool" where
  "caller_unresolved req \<longleftrightarrow> caller_identity req = None"

definition extract_caller_name :: "sip_request \<Rightarrow> text_string option" where
  "extract_caller_name req =
     (case header_identity req (lit ''P-Asserted-Identity'') ParamsNone of
        Some asserted \<Rightarrow> id_display asserted
      | None \<Rightarrow>
          (case header_identity req (lit ''From'') ParamsAllowed of
             Some i \<Rightarrow> id_display i
           | None \<Rightarrow> None))"

definition caller_identity_is_private :: "sip_request \<Rightarrow> bool" where
  "caller_identity_is_private req \<longleftrightarrow>
     list_ex (\<lambda>v. list_ex (\<lambda>p. eq_ignore_ascii_case (trim p) (lit ''id'') \<or> eq_ignore_ascii_case (trim p) (lit ''user''))
         (concat (map (split_on 44) (split_on 59 v))))
       (headers_all req (lit ''Privacy''))"

text \<open>\<open>replace('\\', "\\\\")\<close> and then \<open>replace('"', "\\\"")\<close>.\<close>

definition replace_char :: "nat \<Rightarrow> text_string \<Rightarrow> text_string \<Rightarrow> text_string" where
  "replace_char c r s = concat (map (\<lambda>x. if x = c then r else [x]) s)"

definition escape_display_name :: "text_string \<Rightarrow> text_string" where
  "escape_display_name name = replace_char 34 [92, 34] (replace_char 92 [92, 92] name)"

definition header_uri :: "sip_request \<Rightarrow> text_string \<Rightarrow> text_string option" where
  "header_uri req name =
     (let params = (if list_ex (\<lambda>h. eq_ignore_ascii_case h name) [lit ''From'', lit ''To'', lit ''Contact'']
                    then ParamsAllowed else ParamsNone);
          values = header_uri_values req name params;
          sip = find (\<lambda>v. case split_once 58 (na_uri v) of
                   Some (scheme, _) \<Rightarrow> eq_ignore_ascii_case scheme (lit ''sip'') \<or> eq_ignore_ascii_case scheme (lit ''sips'')
                 | None \<Rightarrow> False) values
      in map_option na_uri (case sip of Some v \<Rightarrow> Some v | None \<Rightarrow> (case values of v # _ \<Rightarrow> Some v | [] \<Rightarrow> None)))"

section \<open>Printed identities\<close>

text \<open>A display name and URI as a \<open>name-addr\<close>, and a list of them as one header line.\<close>

definition name_addr_text :: "text_string \<times> text_string \<Rightarrow> text_string" where
  "name_addr_text v = [34] @ escape_display_name (fst v) @ [34, 32, 60] @ snd v @ [62]"

definition name_addr_ok :: "text_string \<times> text_string \<Rightarrow> bool" where
  "name_addr_ok v \<longleftrightarrow> fst v \<noteq> [] \<and> 13 \<notin> set (fst v) \<and> 10 \<notin> set (fst v) \<and>
     58 \<in> set (snd v) \<and> 34 \<notin> set (snd v) \<and> 60 \<notin> set (snd v) \<and> 62 \<notin> set (snd v) \<and> trim (snd v) = snd v"

fun join_values :: "text_string list \<Rightarrow> text_string" where
  "join_values [] = []"
| "join_values [v] = v"
| "join_values (v # vs) = v @ [44, 32] @ join_values vs"

lemma escape_display_name_simps [simp]:
  "escape_display_name [] = []"
  "escape_display_name (c # n) =
     (if c = 92 then [92, 92] else if c = 34 then [92, 34] else [c]) @ escape_display_name n"
  by (simp_all add: escape_display_name_def replace_char_def)

lemma quoted_name_escape:
  "quoted_name False acc (escape_display_name n @ 34 # rest) = Some (acc @ n, rest)"
  by (induction n arbitrary: acc) auto

lemma split_values_escape:
  "split_values True False d e (escape_display_name n @ 34 # rest) =
   split_values False False d (e @ escape_display_name n @ [34]) rest"
  by (induction n arbitrary: e) auto

lemma split_values_inside:
  "34 \<notin> set u \<Longrightarrow> 60 \<notin> set u \<Longrightarrow> 62 \<notin> set u \<Longrightarrow>
   split_values False False (Suc d) e (u @ rest) = split_values False False (Suc d) (e @ u) rest"
  by (induction u arbitrary: e) auto

lemma split_values_printed:
  assumes "name_addr_ok v"
  shows "split_values False False 0 e (name_addr_text v @ rest) = split_values False False 0 (e @ name_addr_text v) rest"
proof -
  have "split_values False False 0 e (name_addr_text v @ rest) =
      split_values False False 0 (e @ [34] @ escape_display_name (fst v) @ [34]) ([32, 60] @ snd v @ 62 # rest)"
    by (simp add: name_addr_text_def split_values_escape)
  also have "\<dots> = split_values False False (Suc 0) (e @ [34] @ escape_display_name (fst v) @ [34, 32, 60]) (snd v @ 62 # rest)"
    by simp
  also have "\<dots> = split_values False False 0 (e @ name_addr_text v) rest"
    using assms by (simp add: split_values_inside name_addr_ok_def name_addr_text_def)
  finally show ?thesis .
qed

lemma name_addr_text_ends: "name_addr_text v \<noteq> []" "hd (name_addr_text v) = 34" "last (name_addr_text v) = 62"
  by (simp_all add: name_addr_text_def)

lemma trim_name_addr_text [simp]: "trim (name_addr_text v) = name_addr_text v" "trim (32 # name_addr_text v) = name_addr_text v"
  using name_addr_text_ends [of v] trim_id [of "name_addr_text v"] by (simp_all add: is_whitespace_def trim_blank)

lemma split_values_join:
  "list_all name_addr_ok vs \<Longrightarrow> vs \<noteq> [] \<Longrightarrow> (e = [] \<or> e = [32]) \<Longrightarrow>
   split_values False False 0 e (join_values (map name_addr_text vs)) = map name_addr_text vs"
proof (induction vs arbitrary: e)
  case (Cons v vs)
  have t: "trim (e @ name_addr_text v) = name_addr_text v" using Cons.prems(3) by auto
  show ?case
  proof (cases vs)
    case Nil
    with Cons.prems t show ?thesis
      using split_values_printed [of v e "[]"] by simp
  next
    case (Cons w ws)
    then have "join_values (map name_addr_text (v # vs)) = name_addr_text v @ 44 # 32 # join_values (map name_addr_text vs)"
      by simp
    then show ?thesis
      using Cons.prems Cons.IH [of "[32]"] Cons t
      by (simp add: split_values_printed del: join_values.simps)
  qed
qed simp

lemma parse_name_addr_text:
  assumes "name_addr_ok v"
  shows "parse_name_addr (name_addr_text v) params = Some \<lparr>na_display = Some (fst v), na_uri = snd v\<rparr>"
proof -
  have "strip_prefix (name_addr_text v) [34] = Some (escape_display_name (fst v) @ 34 # [32, 60] @ snd v @ [62])"
    by (simp add: strip_prefix_def starts_with_def name_addr_text_def)
  moreover have "strip_prefix (trim_start ([32, 60] @ snd v @ [62])) [60] = Some (snd v @ 62 # [])"
    by (simp add: strip_prefix_def starts_with_def trim_start_def is_whitespace_def)
  ultimately have "name_addr_parts (name_addr_text v) params = Some (fst v, snd v)"
    using assms split_once_append [of 62 "snd v" "[]"]
    by (simp add: name_addr_parts_def quoted_name_escape name_addr_ok_def)
  then show ?thesis
    using assms by (simp add: parse_name_addr_def name_addr_ok_def case_prod_unfold Let_def)
qed

lemma header_uri_values_printed:
  assumes "list_all name_addr_ok vs" "headers_all req name = [join_values (map name_addr_text vs)]" "vs \<noteq> []"
  shows "header_uri_values req name params = map (\<lambda>v. \<lparr>na_display = Some (fst v), na_uri = snd v\<rparr>) vs"
proof -
  have "split_header_values (join_values (map name_addr_text vs)) = map name_addr_text vs"
    using assms(1,3) name_addr_text_ends
    by (simp add: split_header_values_def split_values_join filter_id_conv)
  moreover have "List.map_filter (\<lambda>v. parse_name_addr v params) (map name_addr_text vs) =
      map (\<lambda>v. \<lparr>na_display = Some (fst v), na_uri = snd v\<rparr>) vs"
    using assms(1) by (induction vs) (simp_all add: map_filter_simps parse_name_addr_text)
  ultimately show ?thesis using assms(2) by (simp add: header_uri_values_def)
qed

lemma uri_number_safe: "uri_number u = Some n \<Longrightarrow> n \<noteq> [] \<and> list_all safe_number_char n"
  by (auto simp: uri_number_def Let_def split: option.splits prod.splits if_splits)

lemma find_map_Some: "find_map f xs = Some y \<Longrightarrow> \<exists>x\<in>set xs. f x = Some y"
  by (induction xs) (auto split: option.splits)

lemma header_identity_safe:
  "header_identity req name params = Some i \<Longrightarrow> id_number i \<noteq> [] \<and> list_all safe_number_char (id_number i)"
  by (auto simp: header_identity_def Let_def split: option.splits dest!: find_map_Some uri_number_safe)

section \<open>Properties\<close>

text \<open>
  Identities are read back exactly. A header line that lists printed identities, each an escaped
  quoted display name and a bracketed URI, is read as that list, whatever quotes, backslashes, commas
  or angle brackets the names contain.
\<close>

theorem identity_list_roundtrip:
  assumes "list_all name_addr_ok vs" "headers_all req name = [join_values (map name_addr_text vs)]" "vs \<noteq> []"
  shows "header_uri_values req name params = map (\<lambda>v. \<lparr>na_display = Some (fst v), na_uri = snd v\<rparr>) vs"
  using assms by (rule header_uri_values_printed)

definition sample_identities :: "(text_string \<times> text_string) list" where
  "sample_identities = [([66, 44, 34, 60, 92], lit ''tel:+1''), (lit ''x>'', lit ''sip:a@b'')]"

definition sample_call :: sip_request where
  "sample_call =
     \<lparr>rq_method = lit ''INVITE'', rq_request_uri = lit ''sip:x'',
      rq_headers = [(lit ''P-Asserted-Identity'', join_values (map name_addr_text sample_identities))],
      rq_body = [], rq_body_bytes = []\<rparr>"

theorem identity_list_roundtrip_witness:
  "header_uri_values sample_call (lit ''P-Asserted-Identity'') ParamsNone =
    [\<lparr>na_display = Some [66, 44, 34, 60, 92], na_uri = lit ''tel:+1''\<rparr>,
     \<lparr>na_display = Some (lit ''x>''), na_uri = lit ''sip:a@b''\<rparr>]"
proof -
  have "list_all name_addr_ok sample_identities"
    by (simp add: sample_identities_def name_addr_ok_def lit_def trim_def trim_start_def trim_end_def is_whitespace_def)
  moreover have "headers_all sample_call (lit ''P-Asserted-Identity'') = [join_values (map name_addr_text sample_identities)]"
    by (simp add: headers_all_def headers_all_in_def sample_call_def eq_ignore_ascii_case_def)
  ultimately show ?thesis
    using identity_list_roundtrip [of sample_identities sample_call "lit ''P-Asserted-Identity''" ParamsNone]
    by (simp add: sample_identities_def)
qed

text \<open>
  A caller is always presentable. Whatever the headers of a request, the extracted caller is not
  empty and consists of unreserved characters and the signs plus, star and hash, so it can be embedded
  in a header or URI without escaping.
\<close>

theorem caller_always_safe:
  "extract_caller req \<noteq> [] \<and> list_all safe_number_char (extract_caller req)"
proof (cases "caller_identity req")
  case None
  then show ?thesis
    by (simp add: extract_caller_def lit_def safe_number_char_def is_ascii_alphanumeric_def)
next
  case (Some i)
  then show ?thesis
    using header_identity_safe by (auto simp: extract_caller_def caller_identity_def split: option.splits)
qed

end
