(* ===== verification/Ims_Session.thy ===== *)
theory Ims_Session
  imports Sip_Identity
begin

text \<open>
  A registered IMS session as far as the bridge sends requests over it (\<^verbatim>\<open>ims/mod.rs\<close>:
  \<open>RegisteredSession\<close> and the readings of a REGISTER answer; \<^verbatim>\<open>ims/session.rs\<close>: route sets, the
  reg-event SUBSCRIBE, the SMS delivery report). Randomness and the answer of the socket are
  arguments. \<open>None\<close> outside is a panic of the source.
\<close>

section \<open>The session\<close>

record gm_sa =
  gm_port_s :: u16
  gm_security_verify :: text_string

record registered_session =
  se_public_uri :: text_string
  se_local_addr :: socket_addr
  se_contact_addr :: socket_addr
  se_use_tcp :: bool
  se_cseq :: u32
  se_gm_state :: "gm_sa option"
  se_headers :: "sip_header list"
  se_pcscf_addr :: socket_addr

definition security_verify :: "registered_session \<Rightarrow> text_string option" where
  "security_verify s = map_option gm_security_verify (se_gm_state s)"

text \<open>The slice \<open>v[start..end]\<close> of \<open>default_impu\<close> panics when the first \<open>>\<close> stands before the
  first \<open><\<close>.\<close>

definition default_impu :: "registered_session \<Rightarrow> text_string option option" where
  "default_impu s =
     (case find (\<lambda>(k, v). eq_ignore_ascii_case k (lit ''P-Associated-URI'') \<and> str_contains v (lit ''sip:'')) (se_headers s) of
        None \<Rightarrow> Some None
      | Some (_, v) \<Rightarrow>
          (case str_find [60] v of
             None \<Rightarrow> Some None
           | Some i \<Rightarrow>
               (case str_find [62] v of
                  None \<Rightarrow> Some None
                | Some j \<Rightarrow> if i + 1 \<le> j then Some (Some (take (j - (i + 1)) (drop (i + 1) v))) else None)))"

text \<open>\<open>trim_start_matches("sip:")\<close>: the prefix is removed as often as it occurs.\<close>

fun strip_sip :: "text_string \<Rightarrow> text_string" where
  "strip_sip s = (if starts_with s (lit ''sip:'') \<and> s \<noteq> [] then strip_sip (drop 4 s) else s)"

declare strip_sip.simps [simp del]

definition origination_identity :: "registered_session \<Rightarrow> text_string option" where
  "origination_identity s =
     map_option (\<lambda>impu. case impu of Some i \<Rightarrow> strip_sip i | None \<Rightarrow> se_public_uri s) (default_impu s)"

definition impu_or_public :: "registered_session \<Rightarrow> text_string option" where
  "impu_or_public s =
     map_option (\<lambda>impu. case impu of Some i \<Rightarrow> i | None \<Rightarrow> lit ''sip:'' @ se_public_uri s) (default_impu s)"

section \<open>Reading a REGISTER answer\<close>

definition MAX_U32 :: nat where
  "MAX_U32 = 4294967295"

definition MAX_U64 :: nat where
  "MAX_U64 = 18446744073709551615"

definition retry_after :: "sip_header list \<Rightarrow> duration option" where
  "retry_after headers =
     (case find (\<lambda>(k, _). eq_ignore_ascii_case k (lit ''Retry-After'')) headers of
        None \<Rightarrow> None
      | Some (_, v) \<Rightarrow> map_option secs (parse_uint MAX_U64 (takeWhile is_ascii_digit (trim v))))"

definition expires_header :: "sip_header \<Rightarrow> nat option" where
  "expires_header h =
     (if eq_ignore_ascii_case (fst h) (lit ''expires'') then parse_uint MAX_U32 (trim (snd h)) else None)"

definition expires_param :: "sip_header \<Rightarrow> nat option" where
  "expires_param h =
     (if eq_ignore_ascii_case (fst h) (lit ''contact'') then
        (case str_find (lit ''expires='') (to_ascii_lowercase (snd h)) of
           Some i \<Rightarrow> parse_uint MAX_U32 (takeWhile is_ascii_digit (drop (i + 8) (snd h)))
         | None \<Rightarrow> None)
      else None)"

definition granted_expires :: "sip_header list \<Rightarrow> nat \<Rightarrow> nat" where
  "granted_expires headers requested =
     (case find_map expires_header headers of
        Some v \<Rightarrow> v
      | None \<Rightarrow> (case find_map expires_param headers of Some v \<Rightarrow> v | None \<Rightarrow> requested))"

datatype failure_class = FcTimeout | FcTransport | FcNoRoute | FcPeerClosed | FcNotPcscf

definition failure_class_str :: "failure_class \<Rightarrow> text_string" where
  "failure_class_str f =
     (case f of FcTimeout \<Rightarrow> lit ''timeout'' | FcTransport \<Rightarrow> lit ''transport'' | FcNoRoute \<Rightarrow> lit ''no-route''
      | FcPeerClosed \<Rightarrow> lit ''peer-closed'' | FcNotPcscf \<Rightarrow> lit ''not-pcscf'')"

definition classify_register_failure :: "text_string \<Rightarrow> failure_class" where
  "classify_register_failure e =
     (let msg = to_ascii_lowercase e; has = (\<lambda>p. str_contains msg (lit p))
      in if has ''os error 101'' \<or> has ''os error 113'' \<or> has ''network is unreachable'' \<or> has ''no route to host''
         then FcNoRoute
         else if has ''connect to '' \<and> has '' failed'' \<or> has ''tcp send failed'' \<or> has ''udp send failed'' then FcTransport
         else if has ''timed out waiting for a sip response'' then FcTimeout
         else if has ''connection closed by peer'' \<or> has ''recv failed'' then FcPeerClosed
         else FcNotPcscf)"

datatype registration_status = RegSuccess | AuthFailed | RegRejected | RegTimeout

definition map_registration_error :: "text_string \<Rightarrow> registration_status" where
  "map_registration_error e =
     (let msg = to_ascii_lowercase e; has = (\<lambda>p. str_contains msg (lit p))
      in if has ''auth'' \<or> has ''aka'' \<or> has ''challenge'' then AuthFailed
         else if has ''timeout'' \<or> has ''timed out'' then RegTimeout
         else RegRejected)"

definition map_registration_status_code :: "nat \<Rightarrow> registration_status" where
  "map_registration_status_code status =
     (if status \<in> {401, 403, 407} then AuthFailed else if status \<in> {408, 504} then RegTimeout else RegRejected)"

text \<open>Durations are bounded by \<open>MAX_DURATION\<close> (the largest \<open>Duration\<close>, in nanoseconds); doubling past it
  is the \<open>None\<close> of \<open>checked_mul\<close>.\<close>

definition MAX_DURATION :: duration where
  "MAX_DURATION = MAX_U64 * 1000000000 + 999999999"

definition next_backoff :: "duration \<Rightarrow> duration \<Rightarrow> duration" where
  "next_backoff current limit = min (if current * 2 \<le> MAX_DURATION then current * 2 else limit) limit"

definition register_request_uri :: "socket_addr \<Rightarrow> text_string \<Rightarrow> bool \<Rightarrow> text_string" where
  "register_request_uri pcscf realm home_domain = (if home_domain then realm else format_sip_addr pcscf)"

section \<open>Routes and requests\<close>

definition service_route_headers :: "registered_session \<Rightarrow> text_string list" where
  "service_route_headers s =
     map (\<lambda>(_, v). lit ''Route: '' @ v) (filter (\<lambda>(k, _). eq_ignore_ascii_case k (lit ''Service-Route'')) (se_headers s))"

definition pcscf_route_header :: "registered_session \<Rightarrow> text_string" where
  "pcscf_route_header s =
     (let addr = (case se_gm_state s of Some sa \<Rightarrow> (se_pcscf_addr s)\<lparr>sa_port := gm_port_s sa\<rparr> | None \<Rightarrow> se_pcscf_addr s)
      in lit ''Route: <sip:'' @ format_sip_addr addr @ lit '';lr>'')"

definition report_route_headers :: "registered_session \<Rightarrow> bool \<Rightarrow> text_string list" where
  "report_route_headers s pcscf_route =
     (if pcscf_route then [pcscf_route_header s] else []) @ service_route_headers s"

text \<open>The three random strings of a request we originate: Call-ID, From tag and Via branch.\<close>

record fresh_ids =
  fi_call_id :: text_string
  fi_tag :: text_string
  fi_branch :: text_string

definition transport_name :: "registered_session \<Rightarrow> text_string" where
  "transport_name s = (if se_use_tcp s then lit ''TCP'' else lit ''UDP'')"

definition delivery_report :: "registered_session \<Rightarrow> text_string \<Rightarrow> text_string \<Rightarrow> bytes \<Rightarrow> text_string option \<Rightarrow> bool \<Rightarrow> fresh_ids \<Rightarrow> message_request" where
  "delivery_report s impu ipsmgw_uri rp_ack in_reply_to pcscf_route ids =
     \<lparr>mr_target_uri = ipsmgw_uri, mr_impu = impu, mr_route_headers = report_route_headers s pcscf_route,
      mr_local_addr = se_local_addr s, mr_transport = transport_name s, mr_call_id = fi_call_id ids,
      mr_in_reply_to = in_reply_to, mr_from_tag = fi_tag ids, mr_branch = lit ''z9hG4bK'' @ fi_branch ids,
      mr_cseq = unat (se_cseq s), mr_content_type = lit ''application/vnd.3gpp.sms'', mr_body = rp_ack,
      mr_security_verify = security_verify s\<rparr>"

text \<open>The message handed to the transport, the Call-ID to remember when it was written, the session.\<close>

definition send_sms_delivery_report ::
  "registered_session \<Rightarrow> text_string \<Rightarrow> bytes \<Rightarrow> text_string option \<Rightarrow> bool \<Rightarrow> fresh_ids \<Rightarrow> bool \<Rightarrow>
   (bytes \<times> text_string option \<times> registered_session) option" where
  "send_sms_delivery_report s ipsmgw_uri rp_ack in_reply_to pcscf_route ids sent =
     map_option
       (\<lambda>impu.
         (build_message (delivery_report s impu ipsmgw_uri rp_ack in_reply_to pcscf_route ids),
          if sent then Some (fi_call_id ids) else None,
          s\<lparr>se_cseq := se_cseq s + 1\<rparr>))
       (impu_or_public s)"

record subscribe_dialog =
  sd_remote_tag :: text_string
  sd_request_uri :: text_string

record subscribe_parts =
  sp_impu :: text_string
  sp_route_headers :: "text_string list"
  sp_via_transport :: text_string
  sp_local_addr :: socket_addr
  sp_contact_addr :: socket_addr
  sp_public_user :: text_string
  sp_call_id :: text_string
  sp_from_tag :: text_string
  sp_cseq :: nat
  sp_expires :: nat
  sp_access_network_info :: text_string
  sp_security_verify :: "text_string option"
  sp_dialog :: "subscribe_dialog option"

definition build_subscribe :: "subscribe_parts \<Rightarrow> text_string \<Rightarrow> text_string" where
  "build_subscribe p branch =
     request_start ''SUBSCRIBE'' (case sp_dialog p of Some d \<Rightarrow> sd_request_uri d | None \<Rightarrow> sp_impu p) @
     via_line (sp_via_transport p) (sp_local_addr p) (lit ''z9hG4bK'' @ branch) @
     hdr ''Max-Forwards'' (lit ''70'') @ raw_lines (sp_route_headers p) @
     hdr ''From'' ([60] @ sp_impu p @ lit ''>;tag='' @ sp_from_tag p) @
     hdr ''To'' ([60] @ sp_impu p @ [62] @ (case sp_dialog p of Some d \<Rightarrow> lit '';tag='' @ sd_remote_tag d | None \<Rightarrow> [])) @
     hdr ''Call-ID'' (sp_call_id p) @
     hdr ''CSeq'' (show_nat (sp_cseq p) @ lit '' SUBSCRIBE'') @
     hdr ''Contact'' (lit ''<sip:'' @ sp_public_user p @ [64] @ format_sip_addr (sp_contact_addr p) @
                       lit '';transport='' @ sp_via_transport p @ [62]) @
     hdr ''Event'' (lit ''reg'') @
     hdr ''Expires'' (show_nat (sp_expires p)) @
     hdr ''Accept'' (lit ''application/reginfo+xml'') @
     sec_agree_headers (sp_security_verify p) @
     hdr ''P-Access-Network-Info'' (sp_access_network_info p) @
     hdr ''Content-Length'' (lit ''0'') @ crlf"

record subscribe_refresh =
  sf_call_id :: text_string
  sf_local_tag :: text_string
  sf_remote_tag :: text_string
  sf_remote_target :: "text_string option"
  sf_route_set :: "text_string list"

record subscribe_request =
  sq_access_network_info :: text_string
  sq_expires :: nat
  sq_refresh :: "subscribe_refresh option"

record sent_subscribe =
  ss_call_id :: text_string
  ss_local_tag :: text_string
  ss_cseq :: nat
  ss_expires :: nat

definition send_reg_subscribe ::
  "registered_session \<Rightarrow> subscribe_request \<Rightarrow> fresh_ids \<Rightarrow> bool \<Rightarrow>
   (text_string \<times> sent_subscribe option \<times> registered_session) option" where
  "send_reg_subscribe s req ids sent =
     map_option
       (\<lambda>impu.
         let route_headers = (case sq_refresh req of
               Some r \<Rightarrow> if sf_route_set r \<noteq> [] then sf_route_set r else service_route_headers s
             | None \<Rightarrow> service_route_headers s);
             (call_id, local_tag) = (case sq_refresh req of
               Some r \<Rightarrow> (sf_call_id r, sf_local_tag r) | None \<Rightarrow> (fi_call_id ids, fi_tag ids));
             msg = build_subscribe
               \<lparr>sp_impu = impu, sp_route_headers = route_headers, sp_via_transport = transport_name s,
                sp_local_addr = se_local_addr s, sp_contact_addr = se_contact_addr s,
                sp_public_user = hd (split_on 64 (se_public_uri s)), sp_call_id = call_id, sp_from_tag = local_tag,
                sp_cseq = unat (se_cseq s), sp_expires = sq_expires req,
                sp_access_network_info = sq_access_network_info req, sp_security_verify = security_verify s,
                sp_dialog = map_option (\<lambda>r. \<lparr>sd_remote_tag = sf_remote_tag r,
                  sd_request_uri = (case sf_remote_target r of Some t \<Rightarrow> t | None \<Rightarrow> impu)\<rparr>) (sq_refresh req)\<rparr>
               (fi_branch ids)
         in (msg,
             if sent then Some \<lparr>ss_call_id = call_id, ss_local_tag = local_tag, ss_cseq = unat (se_cseq s), ss_expires = sq_expires req\<rparr>
             else None,
             s\<lparr>se_cseq := se_cseq s + 1\<rparr>))
       (impu_or_public s)"

text \<open>A registrar's answer whose associated URI has its angle brackets the wrong way round stops the
  agent: every request it originates reads the header.\<close>

lemma default_impu_panics:
  "default_impu s = None \<longleftrightarrow>
     (\<exists>k v i j. find (\<lambda>(k, v). eq_ignore_ascii_case k (lit ''P-Associated-URI'') \<and> str_contains v (lit ''sip:'')) (se_headers s) =
        Some (k, v) \<and> str_find [60] v = Some i \<and> str_find [62] v = Some j \<and> j \<le> i)"
  by (auto simp: default_impu_def not_less_eq_eq split: option.splits)

lemma impu_or_public_panics: "impu_or_public s = None \<longleftrightarrow> default_impu s = None"
  by (simp add: impu_or_public_def)

end
