(* ===== verification/Mime_Body.thy ===== *)
theory Mime_Body
  imports Rust_Text
begin

text \<open>
  Finding the session description in a message body (\<^verbatim>\<open>ims/body.rs\<close>): media types and dispositions,
  RFC 2046 multipart framing, and the walk over nested parts. Nesting is bounded by the source's
  \<open>MAX_DEPTH\<close>; the walk recurses on the number of levels still allowed.
\<close>

section \<open>Media types\<close>

definition MAX_DEPTH :: nat where
  "MAX_DEPTH = 4"

definition MAX_PARTS :: nat where
  "MAX_PARTS = 16"

definition MAX_BOUNDARY_LEN :: nat where
  "MAX_BOUNDARY_LEN = 70"

record media_type =
  mt_type :: text_string
  mt_subtype :: text_string
  mt_params :: "(text_string \<times> text_string) list"

text \<open>The scan of \<open>split_params\<close>: in quotes, escaped, and the field so far.\<close>

fun split_fields :: "bool \<Rightarrow> bool \<Rightarrow> text_string \<Rightarrow> text_string \<Rightarrow> text_string list" where
  "split_fields in_quotes escaped field [] = [trim field]"
| "split_fields in_quotes escaped field (c # cs) =
     (if escaped then split_fields in_quotes False (field @ [c]) cs
      else if in_quotes \<and> c = 92 then split_fields in_quotes True (field @ [c]) cs
      else if c = 34 then split_fields (\<not> in_quotes) escaped (field @ [c]) cs
      else if c = 59 \<and> \<not> in_quotes then trim field # split_fields in_quotes escaped [] cs
      else split_fields in_quotes escaped (field @ [c]) cs)"

definition split_params :: "text_string \<Rightarrow> text_string list" where
  "split_params v = split_fields False False [] v"

fun unquote :: "text_string \<Rightarrow> text_string" where
  "unquote [] = []"
| "unquote (c # cs) =
     (if c = 92 then (case cs of d # ds \<Rightarrow> d # unquote ds | [] \<Rightarrow> [])
      else if c = 34 then []
      else c # unquote cs)"

definition parse_param :: "text_string \<Rightarrow> (text_string \<times> text_string) option" where
  "parse_param field =
     (if field = [] then None
      else
        (let (name, v) = (case split_once 61 field of Some nv \<Rightarrow> nv | None \<Rightarrow> (field, []));
             v = trim v;
             v = (case strip_prefix v [34] of Some quoted \<Rightarrow> unquote quoted | None \<Rightarrow> v)
         in Some (to_ascii_lowercase (trim name), v)))"

definition media_type_parse :: "text_string \<Rightarrow> media_type option" where
  "media_type_parse v =
     (case split_params v of
        [] \<Rightarrow> None
      | essence # flds \<Rightarrow>
          (case split_once 47 essence of
             None \<Rightarrow> None
           | Some (ty, subty) \<Rightarrow>
               if trim ty = [] \<or> trim subty = [] then None
               else Some \<lparr>mt_type = to_ascii_lowercase (trim ty), mt_subtype = to_ascii_lowercase (trim subty),
                          mt_params = List.map_filter parse_param flds\<rparr>))"

definition media_is :: "media_type \<Rightarrow> text_string \<Rightarrow> bool" where
  "media_is mt essence \<longleftrightarrow>
     (case split_once 47 essence of
        Some (t, s) \<Rightarrow> eq_ignore_ascii_case (mt_type mt) t \<and> eq_ignore_ascii_case (mt_subtype mt) s
      | None \<Rightarrow> False)"

definition media_param :: "media_type \<Rightarrow> text_string \<Rightarrow> text_string option" where
  "media_param mt name = map_option snd (find (\<lambda>(k, _). eq_ignore_ascii_case k name) (mt_params mt))"

definition is_multipart :: "media_type \<Rightarrow> bool" where
  "is_multipart mt \<longleftrightarrow> mt_type mt = lit ''multipart''"

definition is_sdp :: "media_type \<Rightarrow> bool" where
  "is_sdp mt \<longleftrightarrow> media_is mt (lit ''application/sdp'')"

definition essence_of :: "media_type \<Rightarrow> text_string" where
  "essence_of mt = mt_type mt @ [47] @ mt_subtype mt"

datatype handling = Required | Optional

record body_disposition =
  dp_kind :: text_string
  dp_handling :: handling

definition disposition_parse :: "text_string option \<Rightarrow> media_type option \<Rightarrow> body_disposition" where
  "disposition_parse h mt =
     (let default_kind = (if (case mt of Some m \<Rightarrow> is_sdp m | None \<Rightarrow> False) then lit ''session'' else lit ''render'');
          flds = (case h of Some v \<Rightarrow> split_params v | None \<Rightarrow> []);
          kind = (case flds of
                    k # _ \<Rightarrow> if k \<noteq> [] then to_ascii_lowercase k else default_kind
                  | [] \<Rightarrow> default_kind);
          handling = (case find (\<lambda>(k, _). k = lit ''handling'') (List.map_filter parse_param (drop 1 flds)) of
                        Some (_, v) \<Rightarrow> if eq_ignore_ascii_case v (lit ''optional'') then Optional else Required
                      | None \<Rightarrow> Required)
      in \<lparr>dp_kind = kind, dp_handling = handling\<rparr>)"

section \<open>Multipart framing\<close>

record body_part =
  pt_media_type :: "media_type option"
  pt_disposition :: body_disposition
  pt_transfer_encoding :: "text_string option"
  pt_content :: bytes

definition part_type_name :: "body_part \<Rightarrow> text_string" where
  "part_type_name p = (case pt_media_type p of Some mt \<Rightarrow> essence_of mt | None \<Rightarrow> lit ''text/plain'')"

text \<open>The next line break at or after a position: the length of the line's content and of the line
  with its terminator, over the bytes from the position on.\<close>

fun line_len :: "bytes \<Rightarrow> nat \<times> nat" where
  "line_len [] = (0, 0)"
| "line_len (b # bs) =
     (if b = 10 then (0, 1)
      else if b = 13 \<and> (case bs of c # _ \<Rightarrow> c = 10 | [] \<Rightarrow> False) then (0, 2)
      else (case line_len bs of (n, m) \<Rightarrow> (Suc n, Suc m)))"

lemma line_len_pos: "bs \<noteq> [] \<Longrightarrow> 0 < snd (line_len bs)"
  by (cases bs) (auto split: prod.split)

function lines_from :: "bytes \<Rightarrow> nat \<Rightarrow> (nat \<times> nat \<times> nat) list" where
  "lines_from bs pos =
     (if length bs \<le> pos then []
      else (case line_len (drop pos bs) of
              (n, m) \<Rightarrow> (pos, pos + n, pos + m) # lines_from bs (pos + m)))"
  by pat_completeness auto
termination
  by (relation "measure (\<lambda>(bs, pos). length bs - pos)")
    (use line_len_pos in \<open>auto simp: prod_eq_iff not_le intro!: diff_less_mono2 dest!: sym [of _ "line_len _"]\<close>)

declare lines_from.simps [simp del]

datatype delimiter = DelimPart | DelimClose

definition strip_bytes :: "bytes \<Rightarrow> bytes \<Rightarrow> bytes option" where
  "strip_bytes bs p = (if take (length p) bs = p then Some (drop (length p) bs) else None)"

definition delimiter_of :: "bytes \<Rightarrow> bytes \<Rightarrow> delimiter option" where
  "delimiter_of l boundary =
     (case strip_bytes l [45, 45] of
        None \<Rightarrow> None
      | Some rest \<Rightarrow>
          (case strip_bytes rest boundary of
             None \<Rightarrow> None
           | Some rest \<Rightarrow>
               (let (kind, rest) = (case strip_bytes rest [45, 45] of Some r \<Rightarrow> (DelimClose, r) | None \<Rightarrow> (DelimPart, rest))
                in if list_all (\<lambda>b. b = 32 \<or> b = 9) rest then Some kind else None)))"

definition slice :: "bytes \<Rightarrow> nat \<Rightarrow> nat \<Rightarrow> bytes" where
  "slice bs a b = take (b - a) (drop a bs)"

text \<open>The header block of a part: folded lines joined, names lowercased; and where the content starts.\<close>

fun part_headers :: "bytes \<Rightarrow> (nat \<times> nat \<times> nat) list \<Rightarrow> (text_string \<times> text_string) list \<Rightarrow> (text_string \<times> text_string) list \<times> nat" where
  "part_headers raw [] hs = (hs, length raw)"
| "part_headers raw ((start, content_end, next_pos) # ls) hs =
     (let l = slice raw start content_end
      in if l = [] then (hs, next_pos)
         else
           (let t = utf8_lossy l
            in if starts_with t [32] \<or> starts_with t [9]
               then (if hs = [] then part_headers raw ls hs
                     else part_headers raw ls (butlast hs @ [(fst (last hs), snd (last hs) @ 32 # trim t)]))
               else (case split_once 58 t of
                       Some (name, v) \<Rightarrow> part_headers raw ls (hs @ [(to_ascii_lowercase (trim name), trim v)])
                     | None \<Rightarrow> part_headers raw ls hs)))"

definition parse_part :: "bytes \<Rightarrow> body_part" where
  "parse_part raw =
     (let (hs, content_start) = part_headers raw (lines_from raw 0) [];
          get = (\<lambda>name. map_option snd (find (\<lambda>(k, _). k = name) hs));
          mt = (case get (lit ''content-type'') of Some v \<Rightarrow> media_type_parse v | None \<Rightarrow> None)
      in \<lparr>pt_media_type = mt,
          pt_disposition = disposition_parse (get (lit ''content-disposition'')) mt,
          pt_transfer_encoding = map_option (\<lambda>v. to_ascii_lowercase (trim v)) (get (lit ''content-transfer-encoding'')),
          pt_content = drop content_start raw\<rparr>)"

datatype body_error = BoundaryLength | TooManyParts | CloseBeforePart | MissingClose | NoBoundary
  | NestedTooDeeply | MissingBoundary

text \<open>Where the content before a delimiter at \<open>start\<close> ends: the line break belongs to the delimiter.\<close>

definition part_end :: "bytes \<Rightarrow> nat \<Rightarrow> nat \<Rightarrow> nat" where
  "part_end body begin_pos start =
     (if begin_pos < start \<and> body ! (start - 1) = 10 then
        (if begin_pos < start - 1 \<and> body ! (start - 2) = 13 then start - 2 else start - 1)
      else start)"

fun split_parts :: "bytes \<Rightarrow> bytes \<Rightarrow> (nat \<times> nat \<times> nat) list \<Rightarrow> nat option \<Rightarrow> body_part list \<Rightarrow> body_error + body_part list" where
  "split_parts body boundary [] part_start parts =
     Inl (if part_start \<noteq> None then MissingClose else NoBoundary)"
| "split_parts body boundary ((start, content_end, next_pos) # ls) part_start parts =
     (case delimiter_of (slice body start content_end) boundary of
        None \<Rightarrow> split_parts body boundary ls part_start parts
      | Some kind \<Rightarrow>
          and_then
            (case part_start of
               None \<Rightarrow> Inr parts
             | Some begin_pos \<Rightarrow>
                 if length parts = MAX_PARTS then Inl TooManyParts
                 else Inr (parts @ [parse_part (slice body begin_pos (max (part_end body begin_pos start) begin_pos))]))
            (\<lambda>parts.
              case kind of
                DelimPart \<Rightarrow> split_parts body boundary ls (Some next_pos) parts
              | DelimClose \<Rightarrow> if part_start \<noteq> None then Inr parts else Inl CloseBeforePart))"

definition split_multipart :: "bytes \<Rightarrow> text_string \<Rightarrow> body_error + body_part list" where
  "split_multipart body boundary =
     (if boundary = [] \<or> MAX_BOUNDARY_LEN < length (as_bytes boundary) then Inl BoundaryLength
      else split_parts body (as_bytes boundary) (lines_from body 0) None [])"

section \<open>The walk\<close>

record walk =
  wk_skipped :: "text_string list"
  wk_skipped_required :: bool
  wk_encoded_sdp :: "text_string option"

definition walk_default :: walk where
  "walk_default = \<lparr>wk_skipped = [], wk_skipped_required = False, wk_encoded_sdp = None\<rparr>"

definition walk_skip :: "walk \<Rightarrow> body_part \<Rightarrow> walk" where
  "walk_skip w p =
     w\<lparr>wk_skipped_required := wk_skipped_required w \<or> dp_handling (pt_disposition p) = Required,
       wk_skipped := wk_skipped w @ [part_type_name p]\<rparr>"

text \<open>One part, given the walk of a nested multipart.\<close>

definition part_sessions ::
  "(media_type \<Rightarrow> bytes \<Rightarrow> walk \<Rightarrow> body_error + bytes list \<times> walk) \<Rightarrow> body_part \<Rightarrow> walk \<Rightarrow> body_error + bytes list \<times> walk" where
  "part_sessions nested p w =
     (case pt_media_type p of
        None \<Rightarrow> Inr ([], walk_skip w p)
      | Some mt \<Rightarrow>
          if is_multipart mt then nested mt (pt_content p) w
          else if is_sdp mt \<and> dp_kind (pt_disposition p) = lit ''session'' then
            (case pt_transfer_encoding p of
               None \<Rightarrow> Inr ([pt_content p], w)
             | Some e \<Rightarrow>
                 if e \<in> {lit ''7bit'', lit ''8bit'', lit ''binary''} then Inr ([pt_content p], w)
                 else Inr ([], w\<lparr>wk_encoded_sdp := Some (lit ''application/sdp; content-transfer-encoding='' @ e)\<rparr>))
          else Inr ([], walk_skip w p))"

fun each_part ::
  "(body_part \<Rightarrow> walk \<Rightarrow> body_error + bytes list \<times> walk) \<Rightarrow> body_part list \<Rightarrow> walk \<Rightarrow> body_error + bytes list list \<times> walk" where
  "each_part f [] w = Inr ([], w)"
| "each_part f (p # ps) w =
     and_then (f p w) (\<lambda>(found, w). and_then (each_part f ps w) (\<lambda>(rest, w). Inr (found # rest, w)))"

definition last_found :: "bytes list list \<Rightarrow> nat option" where
  "last_found per_part = find (\<lambda>i. per_part ! i \<noteq> []) (rev [0..<length per_part])"

definition choose_sessions :: "media_type \<Rightarrow> body_part list \<Rightarrow> bytes list list \<Rightarrow> walk \<Rightarrow> bytes list \<times> walk" where
  "choose_sessions mt parts per_part w =
     (if mt_subtype mt = lit ''alternative'' then
        (case last_found per_part of
           None \<Rightarrow> ([], w)
         | Some chosen \<Rightarrow>
             (per_part ! chosen,
              w\<lparr>wk_skipped := wk_skipped w @
                 map (\<lambda>i. part_type_name (parts ! i))
                   (filter (\<lambda>i. i \<noteq> chosen \<and> per_part ! i \<noteq> []) [0..<length parts])\<rparr>))
      else (concat per_part, w))"

primrec sessions :: "nat \<Rightarrow> media_type \<Rightarrow> bytes \<Rightarrow> walk \<Rightarrow> body_error + bytes list \<times> walk" where
  "sessions 0 = (\<lambda>mt content w. Inl NestedTooDeeply)"
| "sessions (Suc levels) = (\<lambda>mt content w.
     case media_param mt (lit ''boundary'') of
       None \<Rightarrow> Inl MissingBoundary
     | Some boundary \<Rightarrow>
         and_then (split_multipart content boundary) (\<lambda>parts.
         and_then (each_part (part_sessions (sessions levels)) parts w) (\<lambda>(per_part, w).
         Inr (choose_sessions mt parts per_part w))))"

record decode_info =
  di_outer :: text_string
  di_selected :: text_string
  di_skipped :: "text_string list"

datatype decoded = EmptyBody | Sdp text_string decode_info

datatype rejection =
    Unsupported text_string text_string
  | NoSession text_string "text_string list"
  | MalformedBody text_string body_error
  | Ambiguous text_string nat

definition rejection_status :: "rejection \<Rightarrow> nat" where
  "rejection_status r =
     (case r of Unsupported _ _ \<Rightarrow> 415 | NoSession _ _ \<Rightarrow> 415 | MalformedBody _ _ \<Rightarrow> 400 | Ambiguous _ _ \<Rightarrow> 400)"

definition is_ascii_whitespace :: "u8 \<Rightarrow> bool" where
  "is_ascii_whitespace b \<longleftrightarrow> b \<in> {9, 10, 12, 13, 32}"

definition is_blank :: "bytes \<Rightarrow> bool" where
  "is_blank body \<longleftrightarrow> list_all is_ascii_whitespace body"

definition sdp_whole :: "bytes \<Rightarrow> text_string \<Rightarrow> decoded" where
  "sdp_whole body outer =
     Sdp (utf8_lossy body) \<lparr>di_outer = outer, di_selected = lit ''application/sdp'', di_skipped = []\<rparr>"

definition extract_sdp :: "text_string option \<Rightarrow> bytes \<Rightarrow> rejection + decoded" where
  "extract_sdp content_type body =
     (if is_blank body then Inr EmptyBody
      else case content_type of
        None \<Rightarrow> Inr (sdp_whole body (lit ''(none)''))
      | Some raw_type \<Rightarrow>
          (case media_type_parse raw_type of
             None \<Rightarrow> Inl (Unsupported (trim raw_type) (trim raw_type))
           | Some mt \<Rightarrow>
               (let outer = essence_of mt
                in if is_sdp mt then Inr (sdp_whole body outer)
                   else if \<not> is_multipart mt then Inl (Unsupported outer outer)
                   else case sessions MAX_DEPTH mt body walk_default of
                          Inl reason \<Rightarrow> Inl (MalformedBody outer reason)
                        | Inr (found, w) \<Rightarrow>
                            (case found of
                               [one] \<Rightarrow> Inr (Sdp (utf8_lossy one)
                                 \<lparr>di_outer = outer, di_selected = lit ''application/sdp'', di_skipped = wk_skipped w\<rparr>)
                             | [] \<Rightarrow> Inl (case wk_encoded_sdp w of
                                           Some offending \<Rightarrow> Unsupported outer offending
                                         | None \<Rightarrow> NoSession outer (wk_skipped w))
                             | _ \<Rightarrow> Inl (Ambiguous outer (length found))))))"

section \<open>Framing is read back\<close>

text \<open>The lines of a block that ends in a line break are read from wherever the block stands.\<close>

lemma line_len_block:
  "bs \<noteq> [] \<Longrightarrow> last bs = 10 \<Longrightarrow> line_len (bs @ rest) = line_len bs \<and> snd (line_len bs) \<le> length bs \<and> fst (line_len bs) \<le> snd (line_len bs)"
proof (induction bs)
  case (Cons b bs)
  show ?case
  proof (cases "bs = []")
    case True
    with Cons.prems show ?thesis by simp
  next
    case False
    then obtain c cs where bs: "bs = c # cs" by (cases bs) auto
    obtain n m where nm: "line_len bs = (n, m)" by (cases "line_len bs")
    from False Cons nm have "line_len (bs @ rest) = (n, m)" "m \<le> length bs" "n \<le> m" by auto
    then show ?thesis using nm by (simp add: bs)
  qed
qed simp

definition shift_line :: "nat \<Rightarrow> nat \<times> nat \<times> nat \<Rightarrow> nat \<times> nat \<times> nat" where
  "shift_line n = (\<lambda>(a, b, c). (n + a, n + b, n + c))"

lemma lines_from_block:
  assumes "block = [] \<or> last block = 10" "pos \<le> length block"
  shows "lines_from (before @ block @ rest) (length before + pos) =
    map (shift_line (length before)) (lines_from block pos) @ lines_from (before @ block @ rest) (length before + length block)"
  using assms
proof (induction block pos rule: lines_from.induct)
  case (1 block pos)
  show ?case
  proof (cases "pos = length block")
    case True
    then show ?thesis by (simp add: lines_from.simps [of block])
  next
    case False
    with "1.prems" have pos: "pos < length block" by simp
    then have ne: "drop pos block \<noteq> []" "last (drop pos block) = 10" using "1.prems" by (auto simp: last_drop)
    obtain n m where nm: "line_len (drop pos block) = (n, m)" by (cases "line_len (drop pos block)")
    from line_len_block [OF ne, of rest] nm have
      len: "line_len (drop pos block @ rest) = (n, m)" "m \<le> length block - pos" by auto
    have "lines_from block pos = (pos, pos + n, pos + m) # lines_from block (pos + m)"
      using pos nm by (subst lines_from.simps) simp
    moreover have "lines_from (before @ block @ rest) (length before + pos) =
      (length before + pos, length before + pos + n, length before + pos + m) #
        lines_from (before @ block @ rest) (length before + (pos + m))"
      using pos len by (subst lines_from.simps) (simp add: add.assoc)
    moreover have "lines_from (before @ block @ rest) (length before + (pos + m)) =
      map (shift_line (length before)) (lines_from block (pos + m)) @ lines_from (before @ block @ rest) (length before + length block)"
      by (rule "1.IH") (use pos nm len "1.prems" in auto)
    ultimately show ?thesis by (simp add: shift_line_def)
  qed
qed

lemma slice_block:
  "b \<le> length block \<Longrightarrow> slice (before @ block @ rest) (length before + a) (length before + b) = slice block a b"
  by (cases "a \<le> length block") (simp_all add: slice_def)

lemma lines_from_bounds: "(a, b, c) \<in> set (lines_from bs pos) \<Longrightarrow> b \<le> length bs"
proof (induction bs pos rule: lines_from.induct)
  case (1 bs pos)
  have len: "fst (line_len xs) \<le> length xs" for xs by (induction xs rule: line_len.induct) (auto split: prod.splits)
  show ?case
  proof (cases "length bs \<le> pos")
    case True
    with "1.prems" show ?thesis by (simp add: lines_from.simps [of bs pos])
  next
    case False
    obtain n m where nm: "line_len (drop pos bs) = (n, m)" by (cases "line_len (drop pos bs)")
    with False have "lines_from bs pos = (pos, pos + n, pos + m) # lines_from bs (pos + m)"
      by (subst lines_from.simps) simp
    with "1.prems" "1.IH" [OF False nm [symmetric]] len [of "drop pos bs"] nm False show ?thesis by auto
  qed
qed

text \<open>A block none of whose lines is a delimiter line.\<close>

definition undelimited :: "bytes \<Rightarrow> bytes \<Rightarrow> bool" where
  "undelimited boundary block \<longleftrightarrow>
     list_all (\<lambda>(a, b, _). delimiter_of (slice block a b) boundary = None) (lines_from block 0)"

lemma split_parts_undelimited:
  "list_all (\<lambda>(a, b, _). delimiter_of (slice body a b) boundary = None) ls \<Longrightarrow>
   split_parts body boundary (ls @ ls') st parts = split_parts body boundary ls' st parts"
  by (induction ls) auto

lemma split_parts_skip:
  assumes "block = [] \<or> last block = 10" "undelimited boundary block"
  shows "split_parts (before @ block @ rest) boundary (lines_from (before @ block @ rest) (length before)) st parts =
    split_parts (before @ block @ rest) boundary (lines_from (before @ block @ rest) (length before + length block)) st parts"
proof -
  have "list_all (\<lambda>(a, b, _). delimiter_of (slice (before @ block @ rest) a b) boundary = None)
      (map (shift_line (length before)) (lines_from block 0))"
    using assms(2) lines_from_bounds [of _ _ _ block 0]
    by (fastforce simp: undelimited_def list_all_iff shift_line_def slice_block)
  from split_parts_undelimited [OF this] lines_from_block [OF assms(1), of 0 before rest]
  show ?thesis by simp
qed

text \<open>The printed form of RFC 2046: preamble, each part after its delimiter line, the close delimiter,
  epilogue. Every part's text is followed by the line break that belongs to the next delimiter.\<close>

definition part_block :: "bytes \<Rightarrow> bytes \<Rightarrow> bytes" where
  "part_block boundary raw = ([45, 45] @ boundary @ [13, 10]) @ raw @ [13, 10]"

definition parts_tail :: "bytes \<Rightarrow> bytes list \<Rightarrow> bytes \<Rightarrow> bytes" where
  "parts_tail boundary raws epilogue =
     concat (map (part_block boundary) raws) @ ([45, 45] @ boundary @ [45, 45] @ [13, 10]) @ epilogue"

definition print_multipart :: "bytes \<Rightarrow> bytes \<Rightarrow> bytes list \<Rightarrow> bytes \<Rightarrow> bytes" where
  "print_multipart boundary preamble raws epilogue = preamble @ parts_tail boundary raws epilogue"

lemma line_len_crlf: "10 \<notin> set xs \<Longrightarrow> line_len (xs @ 13 # 10 # rest) = (length xs, length xs + 2)"
  by (induction xs) (auto simp: neq_Nil_conv split: list.splits)

lemma lines_from_line:
  assumes "10 \<notin> set line"
  shows "lines_from (before @ (line @ [13, 10]) @ rest) (length before) =
    (length before, length before + length line, length before + length line + 2) #
      lines_from (before @ (line @ [13, 10]) @ rest) (length before + length line + 2)"
  using line_len_crlf [OF assms, of rest] by (subst lines_from.simps) simp

lemma delimiter_of_lines:
  "delimiter_of ([45, 45] @ boundary) boundary = Some DelimPart"
  "delimiter_of ([45, 45] @ boundary @ [45, 45]) boundary = Some DelimClose"
  by (simp_all add: delimiter_of_def strip_bytes_def)

lemma slice_line:
  "slice (before @ (line @ [13, 10]) @ rest) (length before) (length before + length line) = line"
  by (simp add: slice_def)

lemma part_end_crlf:
  "part_end (before @ raw @ [13, 10] @ rest) (length before) (length before + length raw + 2) = length before + length raw"
  by (simp add: part_end_def nth_append)

text \<open>One delimiter line after a part: the part is recorded and the scan goes on or stops.\<close>

lemma split_parts_delimiter:
  fixes before raw line rest :: bytes
  defines "body \<equiv> before @ (raw @ [13, 10]) @ (line @ [13, 10]) @ rest"
  assumes "undelimited boundary (raw @ [13, 10])" "10 \<notin> set line" "delimiter_of line boundary = Some kind"
    "length parts < MAX_PARTS"
  shows "split_parts body boundary (lines_from body (length before)) (Some (length before)) parts =
    (case kind of
       DelimPart \<Rightarrow> split_parts body boundary (lines_from body (length before + length raw + 2 + length line + 2))
                      (Some (length before + length raw + 2 + length line + 2)) (parts @ [parse_part raw])
     | DelimClose \<Rightarrow> Inr (parts @ [parse_part raw]))"
proof -
  let ?start = "length before + length raw + 2"
  have body: "body = (before @ raw @ [13, 10]) @ (line @ [13, 10]) @ rest" by (simp add: body_def)
  have "split_parts body boundary (lines_from body (length before)) (Some (length before)) parts =
      split_parts body boundary (lines_from body ?start) (Some (length before)) parts"
    using split_parts_skip [of "raw @ [13, 10]" boundary before "(line @ [13, 10]) @ rest" "Some (length before)" parts]
      assms(2) by (simp add: body_def add.assoc)
  moreover have "lines_from body ?start = (?start, ?start + length line, ?start + length line + 2) #
      lines_from body (?start + length line + 2)"
    using lines_from_line [OF assms(3), of "before @ raw @ [13, 10]" rest] by (simp add: body add.assoc)
  moreover have "slice body ?start (?start + length line) = line"
    using slice_line [of "before @ raw @ [13, 10]" line rest] by (simp add: body add.assoc)
  moreover have "part_end body (length before) ?start = length before + length raw"
    using part_end_crlf [of before raw "(line @ [13, 10]) @ rest"] by (simp add: body_def)
  moreover have "slice body (length before) (length before + length raw) = raw"
    by (simp add: body_def slice_def)
  ultimately show ?thesis using assms(4,5) by (cases kind) (simp_all add: add.assoc)
qed

lemma split_parts_tail:
  assumes "10 \<notin> set boundary" "undelimited boundary (raw @ [13, 10])" "\<forall>raw \<in> set raws. undelimited boundary (raw @ [13, 10])"
    "length parts + length raws < MAX_PARTS"
  shows "split_parts (before @ (raw @ [13, 10]) @ parts_tail boundary raws epilogue) boundary
      (lines_from (before @ (raw @ [13, 10]) @ parts_tail boundary raws epilogue) (length before)) (Some (length before)) parts =
    Inr (parts @ map parse_part (raw # raws))"
  using assms
proof (induction raws arbitrary: before raw parts)
  case Nil
  then show ?case
    using split_parts_delimiter [of boundary raw "[45, 45] @ boundary @ [45, 45]" DelimClose parts before epilogue]
    by (simp add: parts_tail_def delimiter_of_lines del: append_Cons)
next
  case (Cons next_raw raws)
  let ?line = "[45, 45] @ boundary" and ?rest = "(next_raw @ [13, 10]) @ parts_tail boundary raws epilogue"
  let ?before = "before @ (raw @ [13, 10]) @ (?line @ [13, 10])"
  have body: "before @ (raw @ [13, 10]) @ parts_tail boundary (next_raw # raws) epilogue =
      before @ (raw @ [13, 10]) @ (?line @ [13, 10]) @ ?rest"
    "?before @ ?rest = before @ (raw @ [13, 10]) @ (?line @ [13, 10]) @ ?rest"
    by (simp_all add: parts_tail_def part_block_def)
  have len: "length ?before = length before + length raw + 2 + length ?line + 2" by simp
  have "split_parts (?before @ ?rest) boundary (lines_from (?before @ ?rest) (length ?before)) (Some (length ?before)) (parts @ [parse_part raw]) =
      Inr ((parts @ [parse_part raw]) @ map parse_part (next_raw # raws))"
    using Cons.prems by (intro Cons.IH) auto
  then show ?case
    using split_parts_delimiter [of boundary raw ?line DelimPart parts before ?rest] Cons.prems
    unfolding body len by (simp add: delimiter_of_lines [simplified])
qed

text \<open>A seventeenth part is refused at the delimiter that ends it.\<close>

lemma split_parts_full:
  fixes before raw line rest :: bytes
  defines "body \<equiv> before @ (raw @ [13, 10]) @ (line @ [13, 10]) @ rest"
  assumes "undelimited boundary (raw @ [13, 10])" "10 \<notin> set line" "delimiter_of line boundary = Some kind"
    "length parts = MAX_PARTS"
  shows "split_parts body boundary (lines_from body (length before)) (Some (length before)) parts = Inl TooManyParts"
proof -
  let ?start = "length before + length raw + 2"
  have body: "body = (before @ raw @ [13, 10]) @ (line @ [13, 10]) @ rest" by (simp add: body_def)
  have "split_parts body boundary (lines_from body (length before)) (Some (length before)) parts =
      split_parts body boundary (lines_from body ?start) (Some (length before)) parts"
    using split_parts_skip [of "raw @ [13, 10]" boundary before "(line @ [13, 10]) @ rest" "Some (length before)" parts]
      assms(2) by (simp add: body_def add.assoc)
  moreover have "lines_from body ?start = (?start, ?start + length line, ?start + length line + 2) #
      lines_from body (?start + length line + 2)"
    using lines_from_line [OF assms(3), of "before @ raw @ [13, 10]" rest] by (simp add: body add.assoc)
  moreover have "slice body ?start (?start + length line) = line"
    using slice_line [of "before @ raw @ [13, 10]" line rest] by (simp add: body add.assoc)
  ultimately show ?thesis using assms(4,5) by simp
qed

lemma split_parts_tail_full:
  assumes "10 \<notin> set boundary" "undelimited boundary (raw @ [13, 10])" "\<forall>raw \<in> set raws. undelimited boundary (raw @ [13, 10])"
    "length parts \<le> MAX_PARTS" "MAX_PARTS \<le> length parts + length raws"
  shows "split_parts (before @ (raw @ [13, 10]) @ parts_tail boundary raws epilogue) boundary
      (lines_from (before @ (raw @ [13, 10]) @ parts_tail boundary raws epilogue) (length before)) (Some (length before)) parts =
    Inl TooManyParts"
  using assms
proof (induction raws arbitrary: before raw parts)
  case Nil
  then show ?case
    using split_parts_full [of boundary raw "[45, 45] @ boundary @ [45, 45]" DelimClose parts before epilogue]
    by (simp add: parts_tail_def delimiter_of_lines del: append_Cons)
next
  case (Cons next_raw raws)
  let ?line = "[45, 45] @ boundary" and ?rest = "(next_raw @ [13, 10]) @ parts_tail boundary raws epilogue"
  let ?before = "before @ (raw @ [13, 10]) @ (?line @ [13, 10])"
  have body: "before @ (raw @ [13, 10]) @ parts_tail boundary (next_raw # raws) epilogue =
      before @ (raw @ [13, 10]) @ (?line @ [13, 10]) @ ?rest"
    "?before @ ?rest = before @ (raw @ [13, 10]) @ (?line @ [13, 10]) @ ?rest"
    by (simp_all add: parts_tail_def part_block_def)
  have len: "length ?before = length before + length raw + 2 + length ?line + 2" by simp
  show ?case
  proof (cases "length parts = MAX_PARTS")
    case True
    then show ?thesis
      using split_parts_full [of boundary raw ?line DelimPart parts before ?rest] Cons.prems
      unfolding body by (simp add: delimiter_of_lines [simplified])
  next
    case False
    then have "split_parts (?before @ ?rest) boundary (lines_from (?before @ ?rest) (length ?before)) (Some (length ?before)) (parts @ [parse_part raw]) =
        Inl TooManyParts"
      using Cons.prems by (intro Cons.IH) auto
    then show ?thesis
      using split_parts_delimiter [of boundary raw ?line DelimPart parts before ?rest] Cons.prems False
      unfolding body len by (simp add: delimiter_of_lines [simplified])
  qed
qed

text \<open>A body framed with a boundary that no line of its parts or its preamble can be taken for.\<close>

definition framed :: "text_string \<Rightarrow> bytes \<Rightarrow> bytes list \<Rightarrow> bool" where
  "framed boundary preamble raws \<longleftrightarrow>
     boundary \<noteq> [] \<and> length (as_bytes boundary) \<le> MAX_BOUNDARY_LEN \<and> 10 \<notin> set (as_bytes boundary) \<and>
     (preamble = [] \<or> last preamble = 10) \<and> undelimited (as_bytes boundary) preamble \<and>
     raws \<noteq> [] \<and> list_all (\<lambda>raw. undelimited (as_bytes boundary) (raw @ [13, 10])) raws"

lemma split_print_multipart:
  assumes "framed boundary preamble raws"
  shows "split_multipart (print_multipart (as_bytes boundary) preamble raws epilogue) boundary =
    (if length raws \<le> MAX_PARTS then Inr (map parse_part raws) else Inl TooManyParts)"
proof -
  have f: "boundary \<noteq> []" "length (as_bytes boundary) \<le> MAX_BOUNDARY_LEN" "10 \<notin> set (as_bytes boundary)"
    "preamble = [] \<or> last preamble = 10" "undelimited (as_bytes boundary) preamble"
    "raws \<noteq> []" "\<forall>raw \<in> set raws. undelimited (as_bytes boundary) (raw @ [13, 10])"
    using assms by (simp_all add: framed_def list_all_iff)
  from f(6) obtain raw raws' where raws: "raws = raw # raws'" by (cases raws) auto
  let ?b = "as_bytes boundary"
  let ?line = "[45, 45] @ ?b" and ?rest = "(raw @ [13, 10]) @ parts_tail ?b raws' epilogue"
  let ?before = "preamble @ (?line @ [13, 10])"
  have body: "print_multipart ?b preamble raws epilogue = preamble @ (?line @ [13, 10]) @ ?rest"
    "?before @ ?rest = preamble @ (?line @ [13, 10]) @ ?rest"
    by (simp_all add: print_multipart_def parts_tail_def part_block_def raws)
  have len: "length ?before = length preamble + length ?line + 2" by simp
  have und: "undelimited ?b (raw @ [13, 10])" "\<forall>raw \<in> set raws'. undelimited ?b (raw @ [13, 10])" using f(7) raws by simp_all
  have "split_parts (?before @ ?rest) ?b (lines_from (?before @ ?rest) (length ?before)) (Some (length ?before)) [] =
      (if length raws \<le> MAX_PARTS then Inr (map parse_part raws) else Inl TooManyParts)"
    using split_parts_tail [OF f(3) und, of "[]" ?before epilogue] split_parts_tail_full [OF f(3) und, of "[]" ?before epilogue]
    by (auto simp: raws MAX_PARTS_def)
  moreover have "split_parts (preamble @ (?line @ [13, 10]) @ ?rest) ?b (lines_from (preamble @ (?line @ [13, 10]) @ ?rest) 0) None [] =
      split_parts (preamble @ (?line @ [13, 10]) @ ?rest) ?b
        (lines_from (preamble @ (?line @ [13, 10]) @ ?rest) (length preamble)) None []"
    using split_parts_skip [OF f(4,5), of "[]" "(?line @ [13, 10]) @ ?rest"] by simp
  moreover have "lines_from (preamble @ (?line @ [13, 10]) @ ?rest) (length preamble) =
      (length preamble, length preamble + length ?line, length preamble + length ?line + 2) #
      lines_from (preamble @ (?line @ [13, 10]) @ ?rest) (length preamble + length ?line + 2)"
    by (rule lines_from_line) (use f(3) in simp)
  moreover have "slice (preamble @ (?line @ [13, 10]) @ ?rest) (length preamble) (length preamble + length ?line) = ?line"
    by (rule slice_line)
  moreover have "delimiter_of ?line ?b = Some DelimPart" by (rule delimiter_of_lines)
  ultimately show ?thesis using f(1,2) unfolding split_multipart_def body len by simp
qed

section \<open>The tree of parts\<close>

definition nested_part :: "body_part \<Rightarrow> bool" where
  "nested_part p \<longleftrightarrow> (case pt_media_type p of Some mt \<Rightarrow> is_multipart mt | None \<Rightarrow> False)"

definition session_part :: "body_part \<Rightarrow> bool" where
  "session_part p \<longleftrightarrow>
     (case pt_media_type p of Some mt \<Rightarrow> is_sdp mt | None \<Rightarrow> False) \<and> dp_kind (pt_disposition p) = lit ''session''"

definition plain_coded :: "body_part \<Rightarrow> bool" where
  "plain_coded p \<longleftrightarrow>
     (case pt_transfer_encoding p of Some e \<Rightarrow> e \<in> {lit ''7bit'', lit ''8bit'', lit ''binary''} | None \<Rightarrow> True)"

definition readable_sdp :: "body_part \<Rightarrow> bool" where
  "readable_sdp p \<longleftrightarrow> session_part p \<and> plain_coded p"

definition encoded_sdp :: "body_part \<Rightarrow> bool" where
  "encoded_sdp p \<longleftrightarrow> session_part p \<and> \<not> plain_coded p"

definition encoding_name :: "body_part \<Rightarrow> text_string" where
  "encoding_name p = lit ''application/sdp; content-transfer-encoding='' @ the (pt_transfer_encoding p)"

text \<open>
  A multipart body as a tree. A leaf is the text of a part that is no multipart itself; a node is the header text of a
  multipart part with the boundary, preamble, parts and epilogue of its content.
\<close>

datatype mime_part = MimeLeaf bytes | MimeNode bytes text_string bytes "mime_part list" bytes

primrec part_text :: "mime_part \<Rightarrow> bytes" where
  "part_text (MimeLeaf raw) = raw"
| "part_text (MimeNode head boundary preamble ps epilogue) =
     head @ print_multipart (as_bytes boundary) preamble (map part_text ps) epilogue"

definition part_of_text :: "mime_part \<Rightarrow> body_part" where
  "part_of_text t = parse_part (part_text t)"

text \<open>How many multiparts stand inside one another, the widest of them, and whether each is framed as its header says.\<close>

primrec part_depth :: "mime_part \<Rightarrow> nat" where
  "part_depth (MimeLeaf raw) = 0"
| "part_depth (MimeNode head boundary preamble ps epilogue) = Suc (fold max (map part_depth ps) 0)"

primrec part_width :: "mime_part \<Rightarrow> nat" where
  "part_width (MimeLeaf raw) = 0"
| "part_width (MimeNode head boundary preamble ps epilogue) = fold max (map part_width ps) (length ps)"

primrec part_framed :: "mime_part \<Rightarrow> bool" where
  "part_framed (MimeLeaf raw) \<longleftrightarrow> \<not> nested_part (parse_part raw)"
| "part_framed (MimeNode head boundary preamble ps epilogue) \<longleftrightarrow>
     framed boundary preamble (map part_text ps) \<and> list_all id (map part_framed ps) \<and>
     (let p = part_of_text (MimeNode head boundary preamble ps epilogue)
      in pt_content p = print_multipart (as_bytes boundary) preamble (map part_text ps) epilogue \<and>
         (case pt_media_type p of Some mt \<Rightarrow> is_multipart mt \<and> media_param mt (lit ''boundary'') = Some boundary | None \<Rightarrow> False))"

definition is_alternative :: "body_part \<Rightarrow> bool" where
  "is_alternative p \<longleftrightarrow> (case pt_media_type p of Some mt \<Rightarrow> mt_subtype mt = lit ''alternative'' | None \<Rightarrow> False)"

text \<open>The session descriptions that count: those of the last alternative that has any, and of all parts otherwise.\<close>

definition counted :: "bool \<Rightarrow> 'a list list \<Rightarrow> 'a list" where
  "counted alternative found =
     (let full = filter (\<lambda>f. f \<noteq> []) found
      in if \<not> alternative then concat found else if full = [] then [] else last full)"

primrec part_sdps :: "mime_part \<Rightarrow> bytes list" where
  "part_sdps (MimeLeaf raw) = (if readable_sdp (parse_part raw) then [pt_content (parse_part raw)] else [])"
| "part_sdps (MimeNode head boundary preamble ps epilogue) =
     counted (is_alternative (part_of_text (MimeNode head boundary preamble ps epilogue))) (map part_sdps ps)"

text \<open>What is reported as skipped: the parts that are no session description, and the earlier alternatives.\<close>

definition passed_over :: "bool \<Rightarrow> mime_part list \<Rightarrow> text_string list" where
  "passed_over alternative ps =
     (if alternative then map (\<lambda>t. part_type_name (part_of_text t)) (butlast (filter (\<lambda>t. part_sdps t \<noteq> []) ps)) else [])"

primrec part_skips :: "mime_part \<Rightarrow> text_string list" where
  "part_skips (MimeLeaf raw) = (if session_part (parse_part raw) then [] else [part_type_name (parse_part raw)])"
| "part_skips (MimeNode head boundary preamble ps epilogue) =
     concat (map part_skips ps) @ passed_over (is_alternative (part_of_text (MimeNode head boundary preamble ps epilogue))) ps"

primrec part_leaves :: "mime_part \<Rightarrow> body_part list" where
  "part_leaves (MimeLeaf raw) = [parse_part raw]"
| "part_leaves (MimeNode head boundary preamble ps epilogue) = concat (map part_leaves ps)"

text \<open>What a body should give: the one readable session description, or why there is none.\<close>

definition tree_answer :: "text_string \<Rightarrow> bool \<Rightarrow> mime_part list \<Rightarrow> rejection + decoded" where
  "tree_answer outer alternative ps =
     (let skipped = concat (map part_skips ps) @ passed_over alternative ps;
          coded = filter encoded_sdp (concat (map part_leaves ps))
      in case counted alternative (map part_sdps ps) of
           [] \<Rightarrow> Inl (if coded \<noteq> [] then Unsupported outer (encoding_name (last coded)) else NoSession outer skipped)
         | [one] \<Rightarrow> Inr (Sdp (utf8_lossy one) \<lparr>di_outer = outer, di_selected = lit ''application/sdp'', di_skipped = skipped\<rparr>)
         | found \<Rightarrow> Inl (Ambiguous outer (length found)))"

section \<open>The walk follows the tree\<close>

definition walk_on :: "walk \<Rightarrow> text_string list \<Rightarrow> body_part list \<Rightarrow> walk" where
  "walk_on w skips leaves =
     \<lparr>wk_skipped = wk_skipped w @ skips,
      wk_skipped_required = wk_skipped_required w \<or>
        list_ex (\<lambda>p. \<not> session_part p \<and> dp_handling (pt_disposition p) = Required) leaves,
      wk_encoded_sdp = (if filter encoded_sdp leaves = [] then wk_encoded_sdp w
                        else Some (encoding_name (last (filter encoded_sdp leaves))))\<rparr>"

lemma walk_on_walk_on: "walk_on (walk_on w s l) s' l' = walk_on w (s @ s') (l @ l')"
  by (auto simp: walk_on_def)

lemma walk_on_skipped: "(walk_on w s l)\<lparr>wk_skipped := wk_skipped (walk_on w s l) @ s'\<rparr> = walk_on w (s @ s') l"
  by (simp add: walk_on_def)

lemma part_sessions_leaf:
  assumes "\<not> nested_part p"
  shows "part_sessions f p w =
    Inr (if readable_sdp p then [pt_content p] else [], walk_on w (if session_part p then [] else [part_type_name p]) [p])"
  using assms
  by (auto simp: part_sessions_def nested_part_def session_part_def plain_coded_def readable_sdp_def encoded_sdp_def
      encoding_name_def walk_on_def walk_skip_def split: option.splits)

text \<open>The choice of an alternative, by position in the code and by filtering in the tree.\<close>

lemma map_filter_indices: "map (\<lambda>i. f (xs ! i)) (filter (\<lambda>i. P (xs ! i)) [0..<length xs]) = map f (filter P xs)"
proof -
  have "filter P xs = filter P (map ((!) xs) [0..<length xs])" by (simp add: map_nth)
  also have "\<dots> = map ((!) xs) (filter (\<lambda>i. P (xs ! i)) [0..<length xs])" by (simp add: filter_map o_def)
  finally show ?thesis by simp
qed

lemma last_found_map:
  fixes ts :: "'a list" and g :: "'a \<Rightarrow> bytes list" and name :: "'a \<Rightarrow> 'b"
  defines "full \<equiv> \<lambda>ts. filter (\<lambda>t. g t \<noteq> []) ts"
  shows "(full ts = [] \<longrightarrow> last_found (map g ts) = None) \<and>
    (full ts \<noteq> [] \<longrightarrow>
      (\<exists>i < length ts. last_found (map g ts) = Some i \<and> ts ! i = last (full ts) \<and>
        map (\<lambda>j. name (ts ! j)) (filter (\<lambda>j. j \<noteq> i \<and> g (ts ! j) \<noteq> []) [0..<length ts]) = map name (butlast (full ts))))"
proof (induction ts rule: rev_induct)
  case (snoc t ts)
  have low: "map (\<lambda>j. name ((ts @ [t]) ! j)) (filter (\<lambda>j. Q j \<and> g ((ts @ [t]) ! j) \<noteq> []) [0..<length ts]) =
      map (\<lambda>j. name (ts ! j)) (filter (\<lambda>j. Q j \<and> g (ts ! j) \<noteq> []) [0..<length ts])" for Q
    by (rule map_cong) (auto simp: nth_append intro!: filter_cong)
  show ?case
  proof (cases "g t = []")
    case False
    then have "last_found (map g (ts @ [t])) = Some (length ts)"
      by (simp add: last_found_def nth_append)
    moreover have "filter (\<lambda>j. j \<noteq> length ts \<and> g ((ts @ [t]) ! j) \<noteq> []) [0..<length (ts @ [t])] =
        filter (\<lambda>j. True \<and> g ((ts @ [t]) ! j) \<noteq> []) [0..<length ts]"
      by (auto intro!: filter_cong)
    ultimately show ?thesis using False low [of "\<lambda>_. True"] map_filter_indices [of name ts "\<lambda>t. g t \<noteq> []"]
      by (auto simp: full_def intro!: exI [of _ "length ts"])
  next
    case True
    then have "last_found (map g (ts @ [t])) = last_found (map g ts)"
      by (auto simp: last_found_def nth_append intro!: find_cong)
    moreover have "filter (\<lambda>j. j \<noteq> i \<and> g ((ts @ [t]) ! j) \<noteq> []) [0..<length (ts @ [t])] =
        filter (\<lambda>j. j \<noteq> i \<and> g ((ts @ [t]) ! j) \<noteq> []) [0..<length ts]" for i
      using True by simp
    ultimately show ?thesis using True snoc.IH low
      by (auto simp: full_def nth_append intro: less_SucI)
  qed
qed (simp add: last_found_def full_def)

lemma choose_sessions_tree:
  fixes ps :: "mime_part list"
  defines "alternative mt \<equiv> mt_subtype mt = lit ''alternative''"
  shows "choose_sessions mt (map part_of_text ps) (map part_sdps ps) w =
    (counted (alternative mt) (map part_sdps ps), w\<lparr>wk_skipped := wk_skipped w @ passed_over (alternative mt) ps\<rparr>)"
proof (cases "alternative mt")
  case False
  then show ?thesis by (simp add: choose_sessions_def alternative_def counted_def passed_over_def)
next
  case True
  let ?full = "filter (\<lambda>t. part_sdps t \<noteq> []) ps"
  note found = last_found_map [of part_sdps ps "\<lambda>t. part_type_name (part_of_text t)"]
  have full: "filter (\<lambda>f. f \<noteq> []) (map part_sdps ps) = map part_sdps ?full" by (simp add: filter_map comp_def)
  show ?thesis
  proof (cases "?full = []")
    case no: True
    with True found show ?thesis by (simp add: choose_sessions_def alternative_def counted_def passed_over_def full)
  next
    case False
    with found obtain i where i: "i < length ps" "last_found (map part_sdps ps) = Some i" "ps ! i = last ?full"
      "map (\<lambda>j. part_type_name (part_of_text (ps ! j))) (filter (\<lambda>j. j \<noteq> i \<and> part_sdps (ps ! j) \<noteq> []) [0..<length ps]) =
        map (\<lambda>t. part_type_name (part_of_text t)) (butlast ?full)" by auto
    have "map (\<lambda>j. part_type_name (map part_of_text ps ! j)) (filter (\<lambda>j. j \<noteq> i \<and> map part_sdps ps ! j \<noteq> []) [0..<length (map part_of_text ps)]) =
        map (\<lambda>j. part_type_name (part_of_text (ps ! j))) (filter (\<lambda>j. j \<noteq> i \<and> part_sdps (ps ! j) \<noteq> []) [0..<length ps])"
      by (rule map_cong) (auto intro!: filter_cong)
    moreover have "counted True (map part_sdps ps) = part_sdps (last ?full)"
      using False by (simp add: counted_def full last_map)
    ultimately show ?thesis using True i by (simp add: choose_sessions_def alternative_def passed_over_def)
  qed
qed

lemma fold_max_le: "fold max xs (n :: nat) \<le> m \<longleftrightarrow> n \<le> m \<and> (\<forall>x \<in> set xs. x \<le> m)"
  by (induction xs arbitrary: n) auto

text \<open>Within the limits the walk finds what the tree holds.\<close>

definition fits :: "nat \<Rightarrow> mime_part \<Rightarrow> bool" where
  "fits levels t \<longleftrightarrow> part_depth t \<le> levels \<and> part_width t \<le> MAX_PARTS"

definition walks :: "nat \<Rightarrow> mime_part \<Rightarrow> bool" where
  "walks levels t \<longleftrightarrow>
     (\<forall>w. if fits levels t
          then part_sessions (sessions levels) (part_of_text t) w = Inr (part_sdps t, walk_on w (part_skips t) (part_leaves t))
          else part_sessions (sessions levels) (part_of_text t) w \<in> {Inl NestedTooDeeply, Inl TooManyParts})"

lemma each_part_walks:
  assumes "list_all (walks levels) ps"
  shows "if list_all (fits levels) ps
    then each_part (part_sessions (sessions levels)) (map part_of_text ps) w =
      Inr (map part_sdps ps, walk_on w (concat (map part_skips ps)) (concat (map part_leaves ps)))
    else each_part (part_sessions (sessions levels)) (map part_of_text ps) w \<in> {Inl NestedTooDeeply, Inl TooManyParts}"
  using assms
proof (induction ps arbitrary: w)
  case Nil
  then show ?case by (simp add: walk_on_def)
next
  case (Cons t ps)
  have t: "walks levels t" and ps: "list_all (walks levels) ps" using Cons.prems by simp_all
  show ?case
  proof (cases "fits levels t")
    case True
    then have "part_sessions (sessions levels) (part_of_text t) w = Inr (part_sdps t, walk_on w (part_skips t) (part_leaves t))"
      using t by (simp add: walks_def)
    then show ?thesis using Cons.IH [OF ps, of "walk_on w (part_skips t) (part_leaves t)"] True
      by (auto simp: walk_on_walk_on)
  next
    case False
    then have "part_sessions (sessions levels) (part_of_text t) w \<in> {Inl NestedTooDeeply, Inl TooManyParts}"
      using t by (simp add: walks_def)
    then show ?thesis using False by auto
  qed
qed

lemma sessions_walks:
  assumes "framed boundary preamble (map part_text ps)" "media_param mt (lit ''boundary'') = Some boundary" "list_all (walks levels) ps"
  shows "if length ps \<le> MAX_PARTS \<and> list_all (fits levels) ps
    then sessions (Suc levels) mt (print_multipart (as_bytes boundary) preamble (map part_text ps) epilogue) w =
      Inr (counted (mt_subtype mt = lit ''alternative'') (map part_sdps ps),
        walk_on w (concat (map part_skips ps) @ passed_over (mt_subtype mt = lit ''alternative'') ps) (concat (map part_leaves ps)))
    else sessions (Suc levels) mt (print_multipart (as_bytes boundary) preamble (map part_text ps) epilogue) w \<in> {Inl NestedTooDeeply, Inl TooManyParts}"
proof -
  have parts: "map parse_part (map part_text ps) = map part_of_text ps" by (simp add: part_of_text_def)
  show ?thesis
    using split_print_multipart [OF assms(1), of epilogue] each_part_walks [OF assms(3), of w] assms(2)
    unfolding parts by (auto simp: choose_sessions_tree walk_on_skipped split: if_splits)
qed

lemma tree_walks: "part_framed t \<Longrightarrow> walks levels t"
proof (induction t arbitrary: levels)
  case (MimeLeaf raw)
  then show ?case by (simp add: walks_def fits_def part_of_text_def part_sessions_leaf)
next
  case (MimeNode head boundary preamble ps epilogue)
  let ?t = "MimeNode head boundary preamble ps epilogue"
  from MimeNode.prems obtain mt where mt: "pt_media_type (part_of_text ?t) = Some mt" "is_multipart mt"
    "media_param mt (lit ''boundary'') = Some boundary" "framed boundary preamble (map part_text ps)" "list_all part_framed ps"
    "pt_content (part_of_text ?t) = print_multipart (as_bytes boundary) preamble (map part_text ps) epilogue"
    by (auto simp: Let_def list_all_iff split: option.splits)
  let ?body = "print_multipart (as_bytes boundary) preamble (map part_text ps) epilogue"
  have down: "part_sessions f (part_of_text ?t) w = f mt ?body w" for f w using mt by (simp add: part_sessions_def)
  have alt: "is_alternative (part_of_text ?t) \<longleftrightarrow> mt_subtype mt = lit ''alternative''" using mt(1) by (simp add: is_alternative_def)
  show ?case
  proof (cases levels)
    case 0
    then show ?thesis by (simp add: walks_def down fits_def)
  next
    case (Suc l)
    have fit: "fits (Suc l) ?t \<longleftrightarrow> length ps \<le> MAX_PARTS \<and> list_all (fits l) ps"
      by (auto simp: fits_def fold_max_le list_all_iff)
    have "list_all (walks l) ps" using MimeNode.IH mt(5) by (simp add: list_all_iff)
    from sessions_walks [OF mt(4,3) this, of epilogue] show ?thesis
      unfolding walks_def down Suc fit by (simp only: part_sdps.simps part_skips.simps part_leaves.simps alt) blast
  qed
qed

lemma multipart_not_sdp: "is_multipart mt \<Longrightarrow> \<not> is_sdp mt"
  by (auto simp: is_multipart_def is_sdp_def media_is_def eq_ignore_ascii_case_def to_ascii_lowercase_def lit_def)

lemma print_multipart_not_blank: "\<not> is_blank (print_multipart boundary preamble raws epilogue)"
  by (simp add: is_blank_def print_multipart_def parts_tail_def is_ascii_whitespace_def)

text \<open>
  C22: A multipart body is decoded exactly. Take any tree of parts, nested to any depth, printed as RFC 2046 prescribes: every
  multipart with at least one part, any preamble and epilogue, and a boundary that no line of its parts or preamble can be
  taken for. With at most four multiparts inside one another and at most 16 parts in each, the decoder gives the one readable
  session description that counts (of an alternative, the last branch that has any), byte for byte, and otherwise rejects
  the body for the reason that applies. Beyond these limits it rejects the body as malformed.
\<close>

theorem multipart_body_decoded:
  assumes "media_type_parse content_type = Some mt" "is_multipart mt" "media_param mt (lit ''boundary'') = Some boundary"
    and "framed boundary preamble (map part_text ps)" "list_all part_framed ps"
  shows "if length ps \<le> MAX_PARTS \<and> list_all (\<lambda>t. part_depth t < MAX_DEPTH \<and> part_width t \<le> MAX_PARTS) ps
    then extract_sdp (Some content_type) (print_multipart (as_bytes boundary) preamble (map part_text ps) epilogue) =
      tree_answer (essence_of mt) (mt_subtype mt = lit ''alternative'') ps
    else extract_sdp (Some content_type) (print_multipart (as_bytes boundary) preamble (map part_text ps) epilogue) \<in>
      {Inl (MalformedBody (essence_of mt) NestedTooDeeply), Inl (MalformedBody (essence_of mt) TooManyParts)}"
proof -
  let ?body = "print_multipart (as_bytes boundary) preamble (map part_text ps) epilogue"
  have "list_all (walks 3) ps" using assms(5) tree_walks by (simp add: list_all_iff)
  note walk = sessions_walks [OF assms(4,3) this, of epilogue walk_default]
  have top: "extract_sdp (Some content_type) ?body =
      (case sessions MAX_DEPTH mt ?body walk_default of
         Inl reason \<Rightarrow> Inl (MalformedBody (essence_of mt) reason)
       | Inr (found, w) \<Rightarrow>
           (case found of
              [one] \<Rightarrow> Inr (Sdp (utf8_lossy one) \<lparr>di_outer = essence_of mt, di_selected = lit ''application/sdp'', di_skipped = wk_skipped w\<rparr>)
            | [] \<Rightarrow> Inl (case wk_encoded_sdp w of Some offending \<Rightarrow> Unsupported (essence_of mt) offending | None \<Rightarrow> NoSession (essence_of mt) (wk_skipped w))
            | _ \<Rightarrow> Inl (Ambiguous (essence_of mt) (length found))))"
    using assms(1,2) multipart_not_sdp [OF assms(2)] print_multipart_not_blank [of "as_bytes boundary" preamble "map part_text ps" epilogue]
    by (simp add: extract_sdp_def Let_def)
  have lim: "list_all (\<lambda>t. part_depth t < MAX_DEPTH \<and> part_width t \<le> MAX_PARTS) ps \<longleftrightarrow> list_all (fits 3) ps"
    "sessions MAX_DEPTH = sessions (Suc 3)"
    by (auto simp: list_all_iff fits_def MAX_DEPTH_def numeral_eq_Suc)
  show ?thesis
  proof (cases "length ps \<le> MAX_PARTS \<and> list_all (fits 3) ps")
    case True
    then show ?thesis using walk unfolding top lim
      by (simp add: tree_answer_def walk_on_def walk_default_def Let_def split: list.split)
  next
    case False
    then show ?thesis using walk unfolding top lim by auto
  qed
qed

definition sample_location :: bytes where
  "sample_location = [67, 111, 110, 116, 101, 110, 116, 45, 84, 121, 112, 101, 58, 32, 97, 47, 98, 13, 10, 13, 10, 120]"

definition sample_sdp :: bytes where
  "sample_sdp = [67, 111, 110, 116, 101, 110, 116, 45, 84, 121, 112, 101, 58, 32, 97, 112, 112, 108, 105, 99, 97, 116, 105, 111, 110, 47, 115, 100, 112, 13, 10, 13, 10, 118, 61, 48]"

definition sample_head :: bytes where
  "sample_head = [67, 111, 110, 116, 101, 110, 116, 45, 84, 121, 112, 101, 58, 32, 109, 117, 108, 116, 105, 112, 97, 114, 116, 47, 97, 108, 116, 101, 114, 110, 97, 116, 105, 118, 101, 59, 98, 111, 117, 110, 100, 97, 114, 121, 61, 114, 13, 10, 13, 10]"

definition sample_nested :: mime_part where
  "sample_nested = MimeNode sample_head (lit ''r'') [] [MimeLeaf sample_sdp] []"

lemma undelimited_Nil: "undelimited boundary []"
  by (simp add: undelimited_def lines_from.simps)

lemma sample_boundaries: "as_bytes (lit ''q'') = [113]" "as_bytes (lit ''r'') = [114]"
  by (simp_all add: as_bytes_def lit_def utf8_char_def)

lemma sample_nested_text: "part_text sample_nested = sample_head @ print_multipart [114] [] [sample_sdp] []"
  by (simp add: sample_nested_def sample_boundaries)

lemma sample_undelimited:
  "undelimited [113] (sample_location @ [13, 10])" "undelimited [114] (sample_sdp @ [13, 10])"
  "undelimited [113] (part_text sample_nested @ [13, 10])"
  by (simp_all add: sample_nested_text sample_head_def print_multipart_def parts_tail_def part_block_def sample_location_def sample_sdp_def
      undelimited_def lines_from.simps slice_def delimiter_of_def strip_bytes_def)

lemma sample_parts_parsed:
  "parse_part sample_location =
     \<lparr>pt_media_type = Some \<lparr>mt_type = lit ''a'', mt_subtype = lit ''b'', mt_params = []\<rparr>,
      pt_disposition = \<lparr>dp_kind = lit ''render'', dp_handling = Required\<rparr>, pt_transfer_encoding = None, pt_content = [120]\<rparr>"
  "parse_part sample_sdp =
     \<lparr>pt_media_type = Some \<lparr>mt_type = lit ''application'', mt_subtype = lit ''sdp'', mt_params = []\<rparr>,
      pt_disposition = \<lparr>dp_kind = lit ''session'', dp_handling = Required\<rparr>, pt_transfer_encoding = None,
      pt_content = [118, 61, 48]\<rparr>"
  by (simp_all add: parse_part_def sample_location_def sample_sdp_def lines_from.simps slice_def utf8_lossy_ascii
      starts_with_def trim_def trim_start_def trim_end_def is_whitespace_def to_ascii_lowercase_def ascii_lower_def
      lit_def disposition_parse_def is_sdp_def media_is_def eq_ignore_ascii_case_def media_type_parse_def split_params_def map_filter_simps)

lemma sample_nested_parsed:
  "parse_part (part_text sample_nested) =
     \<lparr>pt_media_type = Some \<lparr>mt_type = lit ''multipart'', mt_subtype = lit ''alternative'', mt_params = [(lit ''boundary'', lit ''r'')]\<rparr>,
      pt_disposition = \<lparr>dp_kind = lit ''render'', dp_handling = Required\<rparr>, pt_transfer_encoding = None,
      pt_content = print_multipart [114] [] [sample_sdp] []\<rparr>"
  by (simp add: sample_nested_text parse_part_def sample_head_def sample_sdp_def print_multipart_def parts_tail_def part_block_def
      lines_from.simps slice_def utf8_lossy_ascii starts_with_def strip_prefix_def trim_def trim_start_def trim_end_def is_whitespace_def
      to_ascii_lowercase_def ascii_lower_def lit_def disposition_parse_def is_sdp_def media_is_def eq_ignore_ascii_case_def
      media_type_parse_def split_params_def parse_param_def map_filter_simps)

lemma sample_content_type:
  "media_type_parse (lit ''multipart/mixed;boundary=q'') =
     Some \<lparr>mt_type = lit ''multipart'', mt_subtype = lit ''mixed'', mt_params = [(lit ''boundary'', lit ''q'')]\<rparr>"
  by (simp add: media_type_parse_def split_params_def lit_def trim_def trim_start_def trim_end_def is_whitespace_def
      to_ascii_lowercase_def ascii_lower_def map_filter_simps parse_param_def strip_prefix_def starts_with_def)

lemma sample_nested_framed: "part_framed (MimeLeaf sample_location)" "part_framed sample_nested"
proof -
  show "part_framed (MimeLeaf sample_location)" by (simp add: sample_parts_parsed nested_part_def is_multipart_def lit_def)
  have "framed (lit ''r'') [] [sample_sdp]"
    using sample_undelimited(2) by (simp add: framed_def sample_boundaries undelimited_Nil MAX_BOUNDARY_LEN_def) (simp add: lit_def)
  moreover have "\<not> nested_part (parse_part sample_sdp)" by (simp add: sample_parts_parsed nested_part_def is_multipart_def lit_def)
  ultimately show "part_framed sample_nested"
    using sample_nested_parsed
    by (simp add: sample_nested_def part_of_text_def Let_def sample_boundaries)
      (simp add: is_multipart_def media_param_def eq_ignore_ascii_case_def to_ascii_lowercase_def ascii_lower_def lit_def)
qed

theorem multipart_body_decoded_witness:
  "extract_sdp (Some (lit ''multipart/mixed;boundary=q''))
     (print_multipart (as_bytes (lit ''q'')) [] (map part_text [MimeLeaf sample_location, sample_nested]) []) =
   Inr (Sdp (lit ''v=0'') \<lparr>di_outer = lit ''multipart/mixed'', di_selected = lit ''application/sdp'', di_skipped = [lit ''a/b'']\<rparr>)"
proof -
  let ?mt = "\<lparr>mt_type = lit ''multipart'', mt_subtype = lit ''mixed'', mt_params = [(lit ''boundary'', lit ''q'')]\<rparr>"
  let ?ps = "[MimeLeaf sample_location, sample_nested]"
  have "is_multipart ?mt" "media_param ?mt (lit ''boundary'') = Some (lit ''q'')"
    by (simp_all add: is_multipart_def media_param_def eq_ignore_ascii_case_def to_ascii_lowercase_def ascii_lower_def lit_def)
  moreover have "framed (lit ''q'') [] (map part_text ?ps)"
    using sample_undelimited(1,3) by (simp add: framed_def sample_boundaries undelimited_Nil MAX_BOUNDARY_LEN_def) (simp add: lit_def)
  moreover have "list_all part_framed ?ps" using sample_nested_framed by simp
  moreover have "list_all (\<lambda>t. part_depth t < MAX_DEPTH \<and> part_width t \<le> MAX_PARTS) ?ps" "length ?ps \<le> MAX_PARTS"
    by (simp_all add: sample_nested_def MAX_DEPTH_def MAX_PARTS_def)
  ultimately have "extract_sdp (Some (lit ''multipart/mixed;boundary=q'')) (print_multipart (as_bytes (lit ''q'')) [] (map part_text ?ps) []) =
      tree_answer (essence_of ?mt) (mt_subtype ?mt = lit ''alternative'') ?ps"
    using multipart_body_decoded [OF sample_content_type, of "lit ''q''" "[]" ?ps "[]"] by simp
  moreover have "part_sdps sample_nested = [[118, 61, 48]]" "part_skips sample_nested = []" "part_leaves sample_nested = [parse_part sample_sdp]"
    using sample_nested_parsed
    by (simp_all add: sample_nested_def counted_def passed_over_def readable_sdp_def session_part_def plain_coded_def sample_parts_parsed is_sdp_def
        media_is_def eq_ignore_ascii_case_def to_ascii_lowercase_def ascii_lower_def lit_def Let_def)
  ultimately show ?thesis
    by (simp add: tree_answer_def counted_def passed_over_def sample_parts_parsed readable_sdp_def session_part_def is_sdp_def media_is_def
        eq_ignore_ascii_case_def ascii_lower_def lit_def part_type_name_def essence_of_def utf8_lossy_ascii)
qed

end
