(* ===== verification/Sms_Pdu.thy ===== *)
theory Sms_Pdu
  imports Rust_Text
begin

text \<open>
  The SMS-over-IP decoder (\<^verbatim>\<open>ims/sms_pdu.rs\<close>): the RP envelope of TS 24.011, the SMS-DELIVER
  TPDU of TS 23.040 inside it, the address and user-data codings of TS 23.038, and the delivery
  reports sent back. The second half defines the layouts of the specifications as encoders (septet
  packing with fill bits behind a user data header, UTF-16, semi-octet digits) and shows that the
  decoder inverts them.
\<close>

section \<open>Data\<close>

record concat_part =
  cp_reference :: u16
  cp_sequence :: u8
  cp_total :: u8

record decoded_sms =
  sms_sender :: text_string
  sms_text :: text_string
  sms_part :: "concat_part option"
  sms_rp_mr :: u8
  sms_is_type_zero :: bool

datatype tpdu_message_type = Deliver | SubmitReport | StatusReport | Reserved

datatype decoded_rp =
    RpMsg decoded_sms
  | RpAck u8
  | RpErr u8 "u8 option"
  | UnsupportedTpdu u8 tpdu_message_type
  | Undecodable u8

text \<open>The messages of the errors, one constructor each.\<close>

datatype pdu_error =
    EmptyRpEnvelope | NoRpMessageReference | TruncatedBefore string | LengthExceeds string
  | NoUserDataLength | UserDataExceeds | ForeignMti u8
  | EmptyTpdu | NotDeliver tpdu_message_type | NoOaLength | NoOaType | OaExceeds
  | NoPid | NoDcs | NoUdl | NoUd | EmptyUdWithUdhi | UdhExceeds

datatype sms_alphabet = Gsm7 | Octet | Ucs2

definition from_first_octet :: "u8 \<Rightarrow> tpdu_message_type" where
  "from_first_octet first_octet =
     (let m = first_octet AND 0x03
      in if m = 0 then Deliver else if m = 1 then SubmitReport
         else if m = 2 then StatusReport else Reserved)"

section \<open>Septets and alphabets\<close>

text \<open>\<open>unpack_septets\<close>: the loop over \<open>k\<close> from a given index, \<open>n\<close> rounds remaining.\<close>

definition septet_at :: "bytes \<Rightarrow> nat \<Rightarrow> u8 \<Rightarrow> u8" where
  "septet_at data k low_byte =
     (let byte_index = (k * 7) div 8; bit_index = (k * 7) mod 8;
          low = drop_bit bit_index (ucast low_byte :: u16);
          high = (case get_at data (byte_index + 1) of
                    Some b \<Rightarrow> if 0 < bit_index then push_bit (8 - bit_index) (ucast b :: u16) else 0
                  | None \<Rightarrow> 0)
      in ucast ((low OR high) AND 0x7F))"

fun unpack_from :: "bytes \<Rightarrow> nat \<Rightarrow> nat \<Rightarrow> u8 list" where
  "unpack_from data k 0 = []"
| "unpack_from data k (Suc n) =
     (case get_at data ((k * 7) div 8) of
        None \<Rightarrow> []
      | Some low_byte \<Rightarrow> septet_at data k low_byte # unpack_from data (Suc k) n)"

definition unpack_septets :: "bytes \<Rightarrow> nat \<Rightarrow> u8 list" where
  "unpack_septets data n = unpack_from data 0 n"

definition DEFAULT_ALPHABET :: "nat list" where
  "DEFAULT_ALPHABET =
     [0x40, 0xA3, 0x24, 0xA5, 0xE8, 0xE9, 0xF9, 0xEC, 0xF2, 0xC7, 0xA, 0xD8, 0xF8, 0xD, 0xC5, 0xE5,
      0x394, 0x5F, 0x3A6, 0x393, 0x39B, 0x3A9, 0x3A0, 0x3A8, 0x3A3, 0x398, 0x39E, 0x1B, 0xC6, 0xE6, 0xDF, 0xC9,
      0x20, 0x21, 0x22, 0x23, 0xA4, 0x25, 0x26, 0x27, 0x28, 0x29, 0x2A, 0x2B, 0x2C, 0x2D, 0x2E, 0x2F,
      0x30, 0x31, 0x32, 0x33, 0x34, 0x35, 0x36, 0x37, 0x38, 0x39, 0x3A, 0x3B, 0x3C, 0x3D, 0x3E, 0x3F,
      0xA1, 0x41, 0x42, 0x43, 0x44, 0x45, 0x46, 0x47, 0x48, 0x49, 0x4A, 0x4B, 0x4C, 0x4D, 0x4E, 0x4F,
      0x50, 0x51, 0x52, 0x53, 0x54, 0x55, 0x56, 0x57, 0x58, 0x59, 0x5A, 0xC4, 0xD6, 0xD1, 0xDC, 0xA7,
      0xBF, 0x61, 0x62, 0x63, 0x64, 0x65, 0x66, 0x67, 0x68, 0x69, 0x6A, 0x6B, 0x6C, 0x6D, 0x6E, 0x6F,
      0x70, 0x71, 0x72, 0x73, 0x74, 0x75, 0x76, 0x77, 0x78, 0x79, 0x7A, 0xE4, 0xF6, 0xF1, 0xFC, 0xE0]"

text \<open>The extension entries recognised after an escape.\<close>

definition gsm7_extension :: "u8 \<Rightarrow> nat option" where
  "gsm7_extension ext =
     map_of [(0x14, 0x5E), (0x28, 0x7B), (0x29, 0x7D), (0x2F, 0x5C), (0x3C, 0x5B), (0x3D, 0x7E),
             (0x3E, 0x5D), (0x40, 0x7C), (0x65, 0x20AC)] ext"

text \<open>A septet list is consumed one septet at a time, two for an escape; an escape at the very end
  reads a missing septet as 0.\<close>

fun decode_gsm7_reporting_escapes :: "u8 list \<Rightarrow> text_string \<times> bool" where
  "decode_gsm7_reporting_escapes [] = ([], False)"
| "decode_gsm7_reporting_escapes (sep # rest) =
     (if sep = 0x1B then
        (let ext = (case rest of e # _ \<Rightarrow> e | [] \<Rightarrow> 0);
             (out, bad) = decode_gsm7_reporting_escapes (drop 1 rest)
         in case gsm7_extension ext of
              Some c \<Rightarrow> (c # out, bad)
            | None \<Rightarrow> (0x20 # out, True))
      else
        (let (out, bad) = decode_gsm7_reporting_escapes rest
         in (DEFAULT_ALPHABET ! unat (sep AND 0x7F) # out, bad)))"

definition decode_gsm7 :: "u8 list \<Rightarrow> text_string" where
  "decode_gsm7 septets = fst (decode_gsm7_reporting_escapes septets)"

fun ucs2_units :: "bytes \<Rightarrow> u16 list" where
  "ucs2_units [] = []"
| "ucs2_units [hi] = [push_bit 8 (ucast hi)]"
| "ucs2_units (hi # lo # rest) = from_be16 hi lo # ucs2_units rest"

definition char_from_u32 :: "nat \<Rightarrow> nat" where
  "char_from_u32 code = (if is_scalar code then code else REPLACEMENT_CHARACTER)"

abbreviation high_surrogate :: "nat \<Rightarrow> bool" where
  "high_surrogate u \<equiv> 0xD800 \<le> u \<and> u \<le> 0xDBFF"

abbreviation low_surrogate :: "nat \<Rightarrow> bool" where
  "low_surrogate u \<equiv> 0xDC00 \<le> u \<and> u \<le> 0xDFFF"

fun ucs2_chars :: "nat list \<Rightarrow> text_string" where
  "ucs2_chars [] = []"
| "ucs2_chars (unit # rest) =
     (if high_surrogate unit then
        (case rest of
           low # rest' \<Rightarrow>
             if low_surrogate low
             then char_from_u32 (0x10000 + (unit - 0xD800) * 0x400 + (low - 0xDC00)) # ucs2_chars rest'
             else REPLACEMENT_CHARACTER # ucs2_chars rest
         | [] \<Rightarrow> REPLACEMENT_CHARACTER # ucs2_chars rest)
      else char_from_u32 unit # ucs2_chars rest)"

definition decode_ucs2 :: "bytes \<Rightarrow> text_string" where
  "decode_ucs2 bs = ucs2_chars (map unat (ucs2_units bs))"

definition from_dcs :: "u8 \<Rightarrow> sms_alphabet" where
  "from_dcs dcs =
     (if dcs AND 0xC0 = 0x00 then
        (let a = drop_bit 2 dcs AND 0x03 in if a = 1 then Octet else if a = 2 then Ucs2 else Gsm7)
      else if dcs AND 0xF0 = 0xF0 then (if dcs AND 0x04 \<noteq> 0 then Octet else Gsm7)
      else if dcs AND 0xF0 = 0xE0 then Ucs2
      else Gsm7)"

section \<open>Addresses\<close>

definition nibbles_of :: "bytes \<Rightarrow> u8 list" where
  "nibbles_of bs = concat (map (\<lambda>b. [b AND 0x0F, drop_bit 4 b]) bs)"

fun address_digits :: "nat \<Rightarrow> u8 list \<Rightarrow> text_string \<Rightarrow> text_string" where
  "address_digits digit_count [] digits = digits"
| "address_digits digit_count (nibble # nibbles) digits =
     (if digit_count + (if starts_with digits (lit ''+'') then 1 else 0) \<le> length digits then digits
      else if nibble \<le> 9 then address_digits digit_count nibbles (digits @ [48 + unat nibble])
      else if nibble = 0xF then digits
      else address_digits digit_count nibbles (digits @ lit ''?''))"

definition decode_address :: "u8 \<Rightarrow> nat \<Rightarrow> bytes \<Rightarrow> text_string" where
  "decode_address type_of_address digit_count bs =
     (if drop_bit 4 type_of_address AND 0x07 = 5
      then decode_gsm7 (unpack_septets bs (digit_count * 4 div 7))
      else address_digits digit_count (nibbles_of bs)
             (if drop_bit 4 type_of_address AND 0x07 = 1 then lit ''+'' else []))"

section \<open>User data\<close>

function concatenation_from :: "bytes \<Rightarrow> nat \<Rightarrow> concat_part option" where
  "concatenation_from udh pos =
     (if pos + 1 < length udh then
        (let iei = udh ! pos; ie_len = unat (udh ! (pos + 1))
         in case get_range udh (pos + 2) (pos + 2 + ie_len) of
              None \<Rightarrow> None
            | Some ie \<Rightarrow>
                if iei = 0x00 \<and> 3 \<le> length ie
                then Some \<lparr>cp_reference = ucast (ie ! 0), cp_sequence = ie ! 2, cp_total = ie ! 1\<rparr>
                else if iei = 0x08 \<and> 4 \<le> length ie
                then Some \<lparr>cp_reference = from_be16 (ie ! 0) (ie ! 1), cp_sequence = ie ! 3, cp_total = ie ! 2\<rparr>
                else concatenation_from udh (pos + 2 + ie_len))
      else None)"
  by pat_completeness auto
termination
  by (relation "measure (\<lambda>(udh, pos). length udh - pos)") auto

declare concatenation_from.simps [simp del]

definition parse_concatenation_udh :: "bytes \<Rightarrow> concat_part option" where
  "parse_concatenation_udh udh = concatenation_from udh 0"

definition printable_ascii :: "u8 \<Rightarrow> bool" where
  "printable_ascii b \<longleftrightarrow> 0x20 \<le> b \<and> b \<le> 0x7E"

definition user_data_header :: "bytes \<Rightarrow> bool \<Rightarrow> pdu_error + concat_part option \<times> nat" where
  "user_data_header ud udhi =
     (if udhi then
        and_then (ok_or (get_at ud 0) EmptyUdWithUdhi) (\<lambda>udhl.
        and_then (ok_or (get_range ud 1 (1 + unat udhl)) UdhExceeds) (\<lambda>udh.
        Inr (parse_concatenation_udh udh, 1 + unat udhl)))
      else Inr (None, 0))"

text \<open>\<open>octets.get(a..b).unwrap_or(&[])\<close>.\<close>

definition range_or_empty :: "bytes \<Rightarrow> nat \<Rightarrow> nat \<Rightarrow> bytes" where
  "range_or_empty bs a b = (case get_range bs a b of Some r \<Rightarrow> r | None \<Rightarrow> [])"

definition gsm7_text :: "bytes \<Rightarrow> nat \<Rightarrow> nat \<Rightarrow> text_string" where
  "gsm7_text ud udl udh_octets =
     (let fill_septets = (udh_octets * 8 + 6) div 7;
          (unpacked, bad_escape) = decode_gsm7_reporting_escapes (drop fill_septets (unpack_septets ud udl))
      in if udh_octets = 0 \<and> bad_escape then
           (case get_range ud 0 udl of
              Some raw \<Rightarrow> if list_all printable_ascii raw then utf8_lossy raw else unpacked
            | None \<Rightarrow> unpacked)
         else unpacked)"

definition decode_user_data :: "bytes \<Rightarrow> nat \<Rightarrow> sms_alphabet \<Rightarrow> bool \<Rightarrow> pdu_error + concat_part option \<times> text_string" where
  "decode_user_data ud udl alphabet udhi =
     and_then (user_data_header ud udhi) (\<lambda>(part, udh_octets).
     Inr (part,
       case alphabet of
         Gsm7 \<Rightarrow> gsm7_text ud udl udh_octets
       | Ucs2 \<Rightarrow> decode_ucs2 (range_or_empty ud udh_octets udl)
       | Octet \<Rightarrow> utf8_lossy (range_or_empty ud udh_octets udl)))"

section \<open>SMS-DELIVER\<close>

definition is_type_zero_pid :: "u8 \<Rightarrow> bool" where
  "is_type_zero_pid pid \<longleftrightarrow> drop_bit 6 pid = 1 \<and> pid AND 0x3F = 0"

record sms_deliver_tpdu =
  originating_address :: text_string
  tpdu_text :: text_string
  tpdu_part :: "concat_part option"
  tpdu_is_type_zero :: bool

definition tpdu_parse :: "bytes \<Rightarrow> pdu_error + sms_deliver_tpdu" where
  "tpdu_parse buf =
     and_then (ok_or (get_at buf 0) EmptyTpdu) (\<lambda>first_octet.
     let mti = from_first_octet first_octet in
     if mti \<noteq> Deliver then Inl (NotDeliver mti)
     else
     let udhi = (first_octet AND 0x40 \<noteq> 0) in
     and_then (ok_or (get_at buf 1) NoOaLength) (\<lambda>oa_len.
     and_then (ok_or (get_at buf 2) NoOaType) (\<lambda>oa_type.
     let oa_digit_count = unat oa_len; oa_octets = (oa_digit_count + 1) div 2 in
     and_then (ok_or (get_range buf 3 (3 + oa_octets)) OaExceeds) (\<lambda>oa_bytes.
     let pos = 3 + oa_octets in
     and_then (ok_or (get_at buf pos) NoPid) (\<lambda>pid.
     and_then (ok_or (get_at buf (pos + 1)) NoDcs) (\<lambda>dcs.
     and_then (ok_or (get_at buf (pos + 9)) NoUdl) (\<lambda>udl.
     and_then (ok_or (get_range buf (pos + 10) (length buf)) NoUd) (\<lambda>ud.
     and_then (decode_user_data ud (unat udl) (from_dcs dcs) udhi) (\<lambda>(part, txt).
     Inr \<lparr>originating_address = decode_address oa_type oa_digit_count oa_bytes,
          tpdu_text = txt, tpdu_part = part, tpdu_is_type_zero = is_type_zero_pid pid\<rparr>)))))))))"

definition decode_sms_deliver_tpdu :: "bytes \<Rightarrow> pdu_error + decoded_sms" where
  "decode_sms_deliver_tpdu tpdu =
     and_then (tpdu_parse tpdu) (\<lambda>parsed.
     Inr \<lparr>sms_sender = originating_address parsed, sms_text = tpdu_text parsed,
          sms_part = tpdu_part parsed, sms_rp_mr = 0, sms_is_type_zero = tpdu_is_type_zero parsed\<rparr>)"

section \<open>The RP envelope\<close>

record rp_data =
  rp_mr :: u8
  rp_user_data :: bytes

datatype rp_message = Data rp_data | AckMsg u8 | ErrorMsg u8 "u8 option"

definition skip_length_prefixed :: "bytes \<Rightarrow> nat \<Rightarrow> string \<Rightarrow> pdu_error + nat" where
  "skip_length_prefixed buf pos field =
     and_then (ok_or (get_at buf pos) (TruncatedBefore field)) (\<lambda>len.
     let end_pos = pos + 1 + unat len in
     if end_pos > length buf then Inl (LengthExceeds field) else Inr end_pos)"

definition rp_message_parse :: "bytes \<Rightarrow> pdu_error + rp_message" where
  "rp_message_parse buf =
     and_then (ok_or (get_at buf 0) EmptyRpEnvelope) (\<lambda>octet0.
     let mti = octet0 AND 0x07 in
     and_then (ok_or (get_at buf 1) NoRpMessageReference) (\<lambda>mr.
     if mti = 1 then
       and_then (skip_length_prefixed buf 2 ''RP-Originator-Address'') (\<lambda>pos.
       and_then (skip_length_prefixed buf pos ''RP-Destination-Address'') (\<lambda>pos.
       and_then (ok_or (get_at buf pos) NoUserDataLength) (\<lambda>ud_len.
       and_then (ok_or (get_range buf (pos + 1) (pos + 1 + unat ud_len)) UserDataExceeds) (\<lambda>user_data.
       Inr (Data \<lparr>rp_mr = mr, rp_user_data = user_data\<rparr>)))))
     else if mti = 3 then Inr (AckMsg mr)
     else if mti = 5 then
       Inr (ErrorMsg mr (case get_at buf 2 of
                           Some len \<Rightarrow> if 1 \<le> len then get_at buf 3 else None
                         | None \<Rightarrow> None))
     else Inl (ForeignMti mti)))"

definition decode_vnd_3gpp_sms :: "bytes \<Rightarrow> pdu_error + decoded_rp" where
  "decode_vnd_3gpp_sms body =
     and_then (rp_message_parse body) (\<lambda>m. case m of
         Data rp \<Rightarrow>
           (let kind = (case get_at (rp_user_data rp) 0 of Some b \<Rightarrow> from_first_octet b | None \<Rightarrow> Reserved)
            in if kind \<noteq> Deliver then Inr (UnsupportedTpdu (rp_mr rp) kind)
               else (case decode_sms_deliver_tpdu (rp_user_data rp) of
                       Inr decoded \<Rightarrow> Inr (RpMsg (decoded\<lparr>sms_rp_mr := rp_mr rp\<rparr>))
                     | Inl e \<Rightarrow> Inr (Undecodable (rp_mr rp))))
       | AckMsg mr \<Rightarrow> Inr (RpAck mr)
       | ErrorMsg mr cause \<Rightarrow> Inr (RpErr mr cause))"

definition build_rp_ack :: "u8 \<Rightarrow> bytes" where
  "build_rp_ack mr = [0x02, mr, 0x41, 0x02, 0x00, 0x00]"

definition build_rp_error :: "u8 \<Rightarrow> u8 option \<Rightarrow> bytes" where
  "build_rp_error mr cause = [0x04, mr, 0x01, case cause of Some c \<Rightarrow> c | None \<Rightarrow> 111]"

section \<open>Septet packing\<close>

text \<open>
  TS 23.038: the bits of a packed stream, least significant first, and the octets that carry them.
  A user data header occupies whole octets and is filled up to a septet boundary.
\<close>

definition lsb_bits :: "nat \<Rightarrow> u8 \<Rightarrow> bool list" where
  "lsb_bits n b = map (bit b) [0..<n]"

definition octet_bits :: "bytes \<Rightarrow> bool list" where
  "octet_bits bs = concat (map (lsb_bits 8) bs)"

definition septet_bits :: "u8 list \<Rightarrow> bool list" where
  "septet_bits ss = concat (map (lsb_bits 7) ss)"

definition octet_of_bits :: "bool list \<Rightarrow> u8" where
  "octet_of_bits xs = horner_sum of_bool 2 (take 8 xs)"

definition pack_lsb :: "bool list \<Rightarrow> bytes" where
  "pack_lsb xs = map (\<lambda>i. octet_of_bits (drop (8 * i) xs)) [0..<(length xs + 7) div 8]"

definition septet_stream :: "bytes \<Rightarrow> u8 list \<Rightarrow> bool list" where
  "septet_stream header ss =
     octet_bits header @
     replicate (7 * ((length header * 8 + 6) div 7) - 8 * length header) False @ septet_bits ss"

lemma length_concat_uniform:
  "list_all (\<lambda>x. length (f x) = m) xs \<Longrightarrow> length (concat (map f xs)) = m * length xs"
  by (induction xs) auto

lemma nth_concat_uniform:
  "list_all (\<lambda>x. length (f x) = m) xs \<Longrightarrow> k < length xs \<Longrightarrow> j < m \<Longrightarrow>
   concat (map f xs) ! (m * k + j) = f (xs ! k) ! j"
proof (induction xs arbitrary: k)
  case (Cons x xs)
  then show ?case by (cases k) (auto simp: nth_append)
qed simp

lemma length_lsb_bits [simp]: "length (lsb_bits n b) = n"
  by (simp add: lsb_bits_def)

lemma nth_lsb_bits [simp]: "j < n \<Longrightarrow> lsb_bits n b ! j = bit b j"
  by (simp add: lsb_bits_def)

lemma length_octet_bits [simp]: "length (octet_bits bs) = 8 * length bs"
  unfolding octet_bits_def by (rule length_concat_uniform) (simp add: list_all_iff)

lemma length_septet_bits [simp]: "length (septet_bits ss) = 7 * length ss"
  unfolding septet_bits_def by (rule length_concat_uniform) (simp add: list_all_iff)

lemma nth_septet_bits: "k < length ss \<Longrightarrow> j < 7 \<Longrightarrow> septet_bits ss ! (7 * k + j) = bit (ss ! k) j"
  unfolding septet_bits_def by (subst nth_concat_uniform) (simp_all add: list_all_iff)

lemma bit_octet_of_bits: "bit (octet_of_bits xs) j \<longleftrightarrow> j < 8 \<and> j < length xs \<and> xs ! j"
  by (auto simp: octet_of_bits_def bit_horner_sum_bit_iff dest: bit_imp_le_length)

lemma octet_of_octet_bits [simp]: "octet_of_bits (lsb_bits 8 b @ xs) = b"
  by (rule bit_word_eqI) (auto simp: bit_octet_of_bits nth_append)

lemma length_pack_lsb [simp]: "length (pack_lsb xs) = (length xs + 7) div 8"
  by (simp add: pack_lsb_def)

lemma pack_lsb_octet: "pack_lsb (lsb_bits 8 b @ xs) = b # pack_lsb xs"
proof -
  have "(length (lsb_bits 8 b @ xs) + 7) div 8 = Suc ((length xs + 7) div 8)"
    using div_add_self1 [of 8 "length xs + 7"] by (simp del: div_add_self1)
  then show ?thesis
    unfolding pack_lsb_def
    by (simp only: upt_conv_Cons map_Suc_upt [symmetric] list.map map_map) (simp add: o_def)
qed

lemma pack_lsb_octets: "pack_lsb (octet_bits bs @ xs) = bs @ pack_lsb xs"
  by (induction bs) (simp_all add: octet_bits_def pack_lsb_octet)

lemma bit_pack_lsb:
  assumes "p < length xs"
  shows "bit (pack_lsb xs ! (p div 8)) (p mod 8) = xs ! p"
proof -
  define q r where "q = p div 8" and "r = p mod 8"
  have p: "p = 8 * q + r" "r < 8" by (simp_all add: q_def r_def)
  have "q < (length xs + 7) div 8" using assms p ceil8_le [of "length xs"] by linarith
  then show ?thesis
    using assms p(2) unfolding q_def [symmetric] r_def [symmetric]
    by (simp add: pack_lsb_def bit_octet_of_bits p(1) less_diff_conv add.commute)
qed

section \<open>Unpacking\<close>

lemma octet_index: "m < 8 \<Longrightarrow> (8 * q + m) div 8 = (q :: nat)" "m < 8 \<Longrightarrow> (8 * q + m) mod 8 = m"
  by simp_all

lemma not_bit_septet: "v < 0x80 \<Longrightarrow> 7 \<le> j \<Longrightarrow> \<not> bit (v :: u8) j"
proof -
  assume "v < 0x80" "7 \<le> j"
  then have "take_bit 7 v = v" by (subst u8_take_bit_iff) simp_all
  with \<open>7 \<le> j\<close> show ?thesis by (metis bit_take_bit_iff not_less)
qed

lemma u16_and_127: "(w :: u16) AND 0x7F = take_bit 7 w"
  by (simp add: take_bit_eq_mask mask_eq_exp_minus_1)

lemma bit_septet_at:
  assumes "k * 7 div 8 < length data"
  shows "bit (septet_at data k (data ! (k * 7 div 8))) j \<longleftrightarrow>
    j < 7 \<and> (k * 7 + j) div 8 < length data \<and> bit (data ! ((k * 7 + j) div 8)) ((k * 7 + j) mod 8)"
proof (cases "j < 7")
  case True
  define q r where "q = k * 7 div 8" and "r = k * 7 mod 8"
  have k: "k * 7 = 8 * q + r" "r < 8" by (simp_all add: q_def r_def)
  have bits: "bit (septet_at data k (data ! q)) j \<longleftrightarrow>
    bit (data ! q) (r + j) \<or> Suc q < length data \<and> 0 < r \<and> 8 - r \<le> j \<and> bit (data ! Suc q) (j - (8 - r))"
    using True k(2) unfolding septet_at_def q_def [symmetric] r_def [symmetric]
    by (auto simp: get_at_def bit_simps Let_def u16_and_127 split: if_splits)
  show ?thesis
  proof (cases "r + j < 8")
    case True
    then have "(8 * q + (r + j)) div 8 = q" "(8 * q + (r + j)) mod 8 = r + j" by simp_all
    then have "(8 * q + r + j) div 8 = q" "(8 * q + r + j) mod 8 = r + j" by (simp_all only: add.assoc)
    with True \<open>j < 7\<close> assms bits k show ?thesis unfolding q_def [symmetric] by auto
  next
    case False
    then have "8 * q + r + j = 8 * Suc q + (r + j - 8)" "r + j - 8 < 8" using k(2) \<open>j < 7\<close> by simp_all
    then have "(8 * q + r + j) div 8 = Suc q" "(8 * q + r + j) mod 8 = r + j - 8"
      by (simp_all only: octet_index)
    moreover have "j - (8 - r) = r + j - 8" using k(2) by simp
    ultimately show ?thesis
      using False \<open>j < 7\<close> assms k bits unfolding q_def [symmetric] by (auto simp del: diff_diff_right)
  qed
next
  case False
  then show ?thesis by (auto simp: septet_at_def Let_def u16_and_127 bit_simps)
qed

lemma unpack_from_all:
  "(\<And>i. i < k + n \<Longrightarrow> i * 7 div 8 < length data) \<Longrightarrow>
   unpack_from data k n = map (\<lambda>i. septet_at data i (data ! (i * 7 div 8))) [k..<k + n]"
proof (induction n arbitrary: k)
  case (Suc n)
  then show ?case by (simp add: get_at_def upt_conv_Cons del: upt_Suc)
qed simp

lemma fill_septets_bound: "8 * (h :: nat) \<le> 7 * ((h * 8 + 6) div 7)"
proof -
  have "h * 8 + 6 < 7 * ((h * 8 + 6) div 7) + 7"
    using dividend_less_times_div [of 7 "h * 8 + 6"] by simp
  then show ?thesis by linarith
qed

lemma length_septet_stream:
  "length (septet_stream header ss) = 7 * ((length header * 8 + 6) div 7 + length ss)"
  using fill_septets_bound [of "length header"] by (simp add: septet_stream_def)

text \<open>Septets behind a header are read back, whatever the header occupies.\<close>

lemma drop_unpack_septets:
  fixes header :: bytes
  assumes "list_all (\<lambda>v. v < 0x80) ss"
  defines "fill \<equiv> (length header * 8 + 6) div 7"
  shows "drop fill (unpack_septets (pack_lsb (septet_stream header ss)) (fill + length ss)) = ss"
proof -
  let ?s = "septet_stream header ss"
  let ?data = "pack_lsb ?s"
  have len: "length ?s = 7 * (fill + length ss)"
    unfolding fill_def by (rule length_septet_stream)
  have inside: "p div 8 < length ?data" if "p < length ?s" for p
    using that ceil8_le [of "length ?s"] unfolding length_pack_lsb
    by (intro less_mult_imp_div_less) linarith
  have "drop fill (unpack_septets ?data (fill + length ss)) =
        map (\<lambda>i. septet_at ?data i (?data ! (i * 7 div 8))) [fill..<fill + length ss]"
    unfolding unpack_septets_def
    by (subst unpack_from_all) (auto simp: len drop_map intro!: inside)
  also have "\<dots> = ss"
  proof (rule nth_equalityI)
    fix i assume "i < length (map (\<lambda>i. septet_at ?data i (?data ! (i * 7 div 8))) [fill..<fill + length ss])"
    then have i: "i < length ss" by simp
    define n where "n = fill + i"
    have "septet_at ?data n (?data ! (n * 7 div 8)) = ss ! i"
    proof (rule bit_word_eqI)
      fix j
      have in_n: "n * 7 div 8 < length ?data" using i by (intro inside) (simp add: len n_def)
      show "bit (septet_at ?data n (?data ! (n * 7 div 8))) j = bit (ss ! i) j"
      proof (cases "j < 7")
        case True
        have "n * 7 + j = 7 * fill + (7 * i + j)" by (simp add: n_def)
        moreover have "length (octet_bits header @ replicate (7 * fill - 8 * length header) False) = 7 * fill"
          using fill_septets_bound [of "length header"] by (simp add: fill_def)
        ultimately have "?s ! (n * 7 + j) = bit (ss ! i) j"
          using nth_septet_bits [OF i True]
          unfolding septet_stream_def fill_def [symmetric] append_assoc [symmetric]
          by (metis nth_append_length_plus)
        moreover have lt: "n * 7 + j < length ?s" using True i by (simp add: len n_def)
        ultimately show ?thesis
          using True in_n inside [OF lt] bit_pack_lsb [OF lt] by (simp add: bit_septet_at)
      next
        case False
        then have "\<not> bit (ss ! i) j"
          using assms(1) i by (intro not_bit_septet) (simp_all add: list_all_length)
        with False in_n show ?thesis by (simp add: bit_septet_at)
      qed
    qed
    then show "map (\<lambda>i. septet_at ?data i (?data ! (i * 7 div 8))) [fill..<fill + length ss] ! i = ss ! i"
      using i by (simp add: n_def)
  qed simp
  finally show ?thesis .
qed

section \<open>Text encoders\<close>

definition gsm7_escapes :: "(nat \<times> u8) list" where
  "gsm7_escapes =
     [(0x5E, 0x14), (0x7B, 0x28), (0x7D, 0x29), (0x5C, 0x2F), (0x5B, 0x3C), (0x7E, 0x3D),
      (0x5D, 0x3E), (0x7C, 0x40), (0x20AC, 0x65)]"

definition gsm7_code :: "nat \<Rightarrow> u8 list" where
  "gsm7_code c =
     (case map_of gsm7_escapes c of
        Some e \<Rightarrow> [0x1B, e]
      | None \<Rightarrow> (case map_of (zip DEFAULT_ALPHABET [0..<length DEFAULT_ALPHABET]) c of Some i \<Rightarrow> [word_of_nat i] | None \<Rightarrow> []))"

definition gsm7_char :: "nat \<Rightarrow> bool" where
  "gsm7_char c \<longleftrightarrow> c \<noteq> 0x1B \<and> (c \<in> set DEFAULT_ALPHABET \<or> c \<in> fst ` set gsm7_escapes)"

definition gsm7_encode :: "text_string \<Rightarrow> u8 list" where
  "gsm7_encode s = concat (map gsm7_code s)"

definition utf16_code :: "nat \<Rightarrow> nat list" where
  "utf16_code c =
     (if c < 0x10000 then [c]
      else [0xD800 + (c - 0x10000) div 0x400, 0xDC00 + (c - 0x10000) mod 0x400])"

definition utf16_encode :: "text_string \<Rightarrow> bytes" where
  "utf16_encode s = concat (map (\<lambda>u. to_be16 (word_of_nat u)) (concat (map utf16_code s)))"

lemma length_DEFAULT_ALPHABET: "length DEFAULT_ALPHABET = 128"
  by (simp add: DEFAULT_ALPHABET_def)

lemma gsm7_index:
  assumes "c \<in> set DEFAULT_ALPHABET"
  obtains i where "map_of (zip DEFAULT_ALPHABET [0..<length DEFAULT_ALPHABET]) c = Some i" "i < 128" "DEFAULT_ALPHABET ! i = c"
proof -
  obtain i where i: "map_of (zip DEFAULT_ALPHABET [0..<length DEFAULT_ALPHABET]) c = Some i"
    using assms map_of_zip_is_None [of DEFAULT_ALPHABET "[0..<length DEFAULT_ALPHABET]" c]
    by (cases "map_of (zip DEFAULT_ALPHABET [0..<length DEFAULT_ALPHABET]) c") simp_all
  then have "(c, i) \<in> set (zip DEFAULT_ALPHABET [0..<length DEFAULT_ALPHABET])" by (rule map_of_SomeD)
  then have "i < 128" "DEFAULT_ALPHABET ! i = c" by (auto simp: set_zip length_DEFAULT_ALPHABET)
  with i that show ?thesis by blast
qed

lemma u8_and_63: "(w :: u8) AND 0x3F = take_bit 6 w"
  by (simp add: take_bit_eq_mask mask_eq_exp_minus_1)

lemma u8_and_127: "(w :: u8) AND 0x7F = take_bit 7 w"
  by (simp add: take_bit_eq_mask mask_eq_exp_minus_1)

lemma decode_gsm7_code:
  assumes "gsm7_char c"
  shows "decode_gsm7_reporting_escapes (gsm7_code c @ rest) =
    (c # fst (decode_gsm7_reporting_escapes rest), snd (decode_gsm7_reporting_escapes rest))"
proof (cases "map_of gsm7_escapes c")
  case (Some e)
  then have "gsm7_extension e = Some c"
    by (auto simp: gsm7_escapes_def gsm7_extension_def split: if_splits)
  with Some show ?thesis by (simp add: gsm7_code_def split: prod.split)
next
  case None
  with assms have "c \<in> set DEFAULT_ALPHABET" by (auto simp: gsm7_char_def map_of_eq_None_iff)
  then obtain i where i: "map_of (zip DEFAULT_ALPHABET [0..<length DEFAULT_ALPHABET]) c = Some i" "i < 128" "DEFAULT_ALPHABET ! i = c"
    by (rule gsm7_index)
  have "DEFAULT_ALPHABET ! 27 = 0x1B" by (simp add: DEFAULT_ALPHABET_def)
  with i(3) assms have "i \<noteq> 27" by (auto simp: gsm7_char_def)
  have u: "unat (word_of_nat i :: u8) = i" using i(2) by (intro unat_word_of_nat_u8) simp
  have "unat (0x1B :: u8) = 27" by simp
  with u \<open>i \<noteq> 27\<close> have "word_of_nat i \<noteq> (0x1B :: u8)" by metis
  moreover have "(word_of_nat i :: u8) < 2 ^ 7" using i(2) u by (simp add: word_less_nat_alt)
  then have "take_bit 7 (word_of_nat i :: u8) = word_of_nat i"
    by (subst u8_take_bit_iff) simp_all
  ultimately show ?thesis using None i u by (simp add: gsm7_code_def u8_and_127 split: prod.split)
qed

lemma decode_gsm7_encode:
  "list_all gsm7_char s \<Longrightarrow> decode_gsm7_reporting_escapes (gsm7_encode s) = (s, False)"
  by (induction s) (simp_all add: gsm7_encode_def decode_gsm7_code)

lemma gsm7_code_septets: "gsm7_char c \<Longrightarrow> list_all (\<lambda>v. v < 0x80) (gsm7_code c)"
proof (cases "map_of gsm7_escapes c")
  case None
  assume "gsm7_char c"
  with None have "c \<in> set DEFAULT_ALPHABET" by (auto simp: gsm7_char_def map_of_eq_None_iff)
  then obtain i where "map_of (zip DEFAULT_ALPHABET [0..<length DEFAULT_ALPHABET]) c = Some i" "i < 128"
    by (rule gsm7_index)
  with None show ?thesis by (simp add: gsm7_code_def word_less_nat_alt unat_word_of_nat_u8)
next
  case (Some e)
  then have "e < 0x80" by (auto simp: gsm7_escapes_def split: if_splits)
  with Some show ?thesis by (simp add: gsm7_code_def)
qed

lemma gsm7_encode_septets: "list_all gsm7_char s \<Longrightarrow> list_all (\<lambda>v. v < 0x80) (gsm7_encode s)"
  by (induction s) (simp_all add: gsm7_encode_def gsm7_code_septets)

lemma ucs2_units_encode:
  "list_all (\<lambda>u. u < 2 ^ 16) us \<Longrightarrow>
   map unat (ucs2_units (concat (map (\<lambda>u. to_be16 (word_of_nat u)) us))) = us"
  by (induction us) (simp_all add: to_be16_def unat_word_of_nat_u16)

lemma utf16_code_units: "is_scalar c \<Longrightarrow> list_all (\<lambda>u. u < 2 ^ 16) (utf16_code c)"
  by (auto simp: utf16_code_def is_scalar_def)

lemma ucs2_chars_code: "is_scalar c \<Longrightarrow> ucs2_chars (utf16_code c @ rest) = c # ucs2_chars rest"
proof (cases "c < 0x10000")
  case True
  assume "is_scalar c"
  moreover from this have "\<not> high_surrogate c" by (auto simp: is_scalar_def)
  ultimately show ?thesis using True by (auto simp: utf16_code_def char_from_u32_def)
next
  case False
  define q r where "q = (c - 0x10000) div 0x400" and "r = (c - 0x10000) mod 0x400"
  have c: "c = 0x10000 + q * 0x400 + r" "r < 0x400"
    using False by (simp_all add: q_def r_def)
  assume "is_scalar c"
  with c(1) have "q < 0x400" by (auto simp: is_scalar_def)
  moreover have "utf16_code c = [0xD800 + q, 0xDC00 + r]"
    using False by (simp add: utf16_code_def q_def r_def)
  ultimately show ?thesis using c \<open>is_scalar c\<close> by (simp add: char_from_u32_def)
qed

lemma decode_ucs2_encode: "list_all is_scalar s \<Longrightarrow> decode_ucs2 (utf16_encode s) = s"
proof -
  assume s: "list_all is_scalar s"
  then have "list_all (\<lambda>u. u < 2 ^ 16) (concat (map utf16_code s))"
    using utf16_code_units by (fastforce simp: list_all_iff)
  then have "decode_ucs2 (utf16_encode s) = ucs2_chars (concat (map utf16_code s))"
    unfolding decode_ucs2_def utf16_encode_def by (simp only: ucs2_units_encode)
  also have "\<dots> = s" using s by (induction s) (simp_all add: ucs2_chars_code)
  finally show ?thesis .
qed

section \<open>The layout of a delivery\<close>

text \<open>
  TS 23.040 and TS 24.011 as an encoder. The user data header is a list of information elements; its
  concatenation element, if any, is the first one with a concatenation identifier and enough octets.
\<close>

definition ie_part :: "u8 \<times> bytes \<Rightarrow> concat_part option" where
  "ie_part ie =
     (case ie of
        (iei, r # t # n # rest) \<Rightarrow>
          if iei = 0x00 then Some \<lparr>cp_reference = ucast r, cp_sequence = n, cp_total = t\<rparr>
          else if iei = 0x08 then
            (case rest of
               n' # _ \<Rightarrow> Some \<lparr>cp_reference = from_be16 r t, cp_sequence = n', cp_total = n\<rparr>
             | [] \<Rightarrow> None)
          else None
      | _ \<Rightarrow> None)"

fun ies_part :: "(u8 \<times> bytes) list \<Rightarrow> concat_part option" where
  "ies_part [] = None"
| "ies_part (ie # ies) = (case ie_part ie of Some p \<Rightarrow> Some p | None \<Rightarrow> ies_part ies)"

definition ie_octets :: "u8 \<times> bytes \<Rightarrow> bytes" where
  "ie_octets ie = (case ie of (iei, body) \<Rightarrow> iei # word_of_nat (length body) # body)"

definition udh_octets_of :: "(u8 \<times> bytes) list \<Rightarrow> bytes" where
  "udh_octets_of ies = concat (map ie_octets ies)"

definition header_of :: "(u8 \<times> bytes) list option \<Rightarrow> bytes" where
  "header_of udh =
     (case udh of None \<Rightarrow> []
      | Some ies \<Rightarrow> word_of_nat (length (udh_octets_of ies)) # udh_octets_of ies)"

datatype sms_address = Number "nat list" | Name text_string

fun semi_octets :: "nat list \<Rightarrow> bytes" where
  "semi_octets [] = []"
| "semi_octets [d] = [0xF0 OR word_of_nat d]"
| "semi_octets (d # e # ds) = (push_bit 4 (word_of_nat e) OR word_of_nat d) # semi_octets ds"

record delivery =
  dl_first :: u8
  dl_toa :: u8
  dl_address :: sms_address
  dl_pid :: u8
  dl_dcs :: u8
  dl_scts :: bytes
  dl_udh :: "(u8 \<times> bytes) list option"
  dl_text :: text_string

definition address_field :: "sms_address \<Rightarrow> nat \<times> bytes" where
  "address_field a =
     (case a of
        Number ds \<Rightarrow> (length ds, semi_octets ds)
      | Name s \<Rightarrow> ((7 * length (gsm7_encode s) + 3) div 4, pack_lsb (septet_bits (gsm7_encode s))))"

definition address_text :: "u8 \<Rightarrow> sms_address \<Rightarrow> text_string" where
  "address_text toa a =
     (case a of
        Number ds \<Rightarrow> (if drop_bit 4 toa AND 0x07 = 1 then lit ''+'' else []) @ map (\<lambda>d. 48 + d) ds
      | Name s \<Rightarrow> s)"

definition user_data_field :: "sms_alphabet \<Rightarrow> bytes \<Rightarrow> text_string \<Rightarrow> nat \<times> bytes" where
  "user_data_field alphabet header s =
     (case alphabet of
        Gsm7 \<Rightarrow> ((length header * 8 + 6) div 7 + length (gsm7_encode s),
                 pack_lsb (septet_stream header (gsm7_encode s)))
      | Ucs2 \<Rightarrow> (length (header @ utf16_encode s), header @ utf16_encode s)
      | Octet \<Rightarrow> (length (header @ as_bytes s), header @ as_bytes s))"

definition tpdu_of :: "delivery \<Rightarrow> bytes" where
  "tpdu_of m =
     (let (oa_len, oa) = address_field (dl_address m);
          (udl, ud) = user_data_field (from_dcs (dl_dcs m)) (header_of (dl_udh m)) (dl_text m)
      in [dl_first m, word_of_nat oa_len, dl_toa m] @ oa @ [dl_pid m, dl_dcs m] @ dl_scts m @
         word_of_nat udl # ud)"

definition rp_data_of :: "u8 \<Rightarrow> u8 \<Rightarrow> bytes \<Rightarrow> bytes \<Rightarrow> bytes \<Rightarrow> bytes" where
  "rp_data_of octet0 mr oa da ud =
     [octet0, mr, word_of_nat (length oa)] @ oa @ word_of_nat (length da) # da @
     word_of_nat (length ud) # ud"

definition address_ok :: "u8 \<Rightarrow> sms_address \<Rightarrow> bool" where
  "address_ok toa a \<longleftrightarrow> fst (address_field a) < 256 \<and>
     (case a of
        Number ds \<Rightarrow> drop_bit 4 toa AND 0x07 \<noteq> 5 \<and> list_all (\<lambda>d. d < 10) ds
      | Name s \<Rightarrow> drop_bit 4 toa AND 0x07 = 5 \<and> list_all gsm7_char s)"

definition header_ok :: "(u8 \<times> bytes) list option \<Rightarrow> bool" where
  "header_ok udh \<longleftrightarrow>
     (case udh of None \<Rightarrow> True | Some ies \<Rightarrow> length (udh_octets_of ies) < 256)"

definition text_ok :: "sms_alphabet \<Rightarrow> text_string \<Rightarrow> bool" where
  "text_ok alphabet s \<longleftrightarrow> list_all (if alphabet = Gsm7 then gsm7_char else is_scalar) s"

definition delivery_ok :: "delivery \<Rightarrow> bool" where
  "delivery_ok m \<longleftrightarrow>
     dl_first m AND 0x03 = 0 \<and> (dl_first m AND 0x40 \<noteq> 0 \<longleftrightarrow> dl_udh m \<noteq> None) \<and>
     address_ok (dl_toa m) (dl_address m) \<and> length (dl_scts m) = 7 \<and>
     header_ok (dl_udh m) \<and> text_ok (from_dcs (dl_dcs m)) (dl_text m) \<and>
     fst (user_data_field (from_dcs (dl_dcs m)) (header_of (dl_udh m)) (dl_text m)) < 256"

definition part_of :: "(u8 \<times> bytes) list option \<Rightarrow> concat_part option" where
  "part_of udh = (case udh of None \<Rightarrow> None | Some ies \<Rightarrow> ies_part ies)"

section \<open>The decoder inverts the layout\<close>

lemma concatenation_from_ies:
  "list_all (\<lambda>ie. length (snd ie) < 256) ies \<Longrightarrow>
   concatenation_from (pre @ udh_octets_of ies) (length pre) = ies_part ies"
proof (induction ies arbitrary: pre)
  case Nil
  then show ?case by (simp add: udh_octets_of_def concatenation_from.simps)
next
  case (Cons ie ies)
  obtain iei body where ie: "ie = (iei, body)" by (cases ie)
  let ?rest = "udh_octets_of ies"
  have b: "unat (word_of_nat (length body) :: u8) = length body"
    using Cons.prems ie by (intro unat_word_of_nat_u8) simp
  have split: "pre @ udh_octets_of (ie # ies) = pre @ iei # word_of_nat (length body) # body @ ?rest"
    by (simp add: udh_octets_of_def ie_octets_def ie)
  have next_ie: "concatenation_from (pre @ udh_octets_of (ie # ies)) (length pre + 2 + length body) = ies_part ies"
    using Cons.IH [of "pre @ ie_octets ie"] Cons.prems
    by (simp add: udh_octets_of_def ie_octets_def ie add.commute)
  have body_range: "get_range (pre @ iei # word_of_nat (length body) # body @ ?rest)
      (length pre + 2) (length pre + 2 + length body) = Some body"
    using get_range_append [of "pre @ [iei, word_of_nat (length body)]" body ?rest] by simp
  have part: "ie_part ie =
     (if iei = 0x00 \<and> 3 \<le> length body
      then Some \<lparr>cp_reference = ucast (body ! 0), cp_sequence = body ! 2, cp_total = body ! 1\<rparr>
      else if iei = 0x08 \<and> 4 \<le> length body
      then Some \<lparr>cp_reference = from_be16 (body ! 0) (body ! 1), cp_sequence = body ! 3, cp_total = body ! 2\<rparr>
      else None)"
    by (auto simp: ie_part_def ie numeral_2_eq_2 numeral_3_eq_3 split: list.splits)
  have at: "(pre @ udh_octets_of (ie # ies)) ! length pre = iei"
    "(pre @ udh_octets_of (ie # ies)) ! (length pre + 1) = word_of_nat (length body)"
    "length pre + 1 < length (pre @ udh_octets_of (ie # ies))"
    unfolding split by (simp_all add: nth_append)
  show ?case
    unfolding concatenation_from.simps [of _ "length pre"] Let_def at b if_P [OF at(3)]
    using next_ie body_range by (simp add: split part)
qed

lemma udh_element_lengths:
  "length (udh_octets_of ies) < 256 \<Longrightarrow> list_all (\<lambda>ie. length (snd ie) < 256) ies"
  by (induction ies) (auto simp: udh_octets_of_def ie_octets_def split: prod.splits)

lemma parse_concatenation_ies:
  "length (udh_octets_of ies) < 256 \<Longrightarrow> parse_concatenation_udh (udh_octets_of ies) = ies_part ies"
  using concatenation_from_ies [of ies "[]"] udh_element_lengths
  by (simp add: parse_concatenation_udh_def)

lemma user_data_header_of:
  assumes "header_ok udh"
  shows "user_data_header (header_of udh @ rest) (udh \<noteq> None) = Inr (part_of udh, length (header_of udh))"
proof (cases udh)
  case (Some ies)
  with assms have "length (udh_octets_of ies) < 256" by (simp add: header_ok_def)
  then show ?thesis
    using Some parse_concatenation_ies [of ies]
    by (simp add: user_data_header_def header_of_def part_of_def unat_word_of_nat_u8 get_range_def)
qed (simp add: user_data_header_def header_of_def part_of_def)

lemma pack_septet_stream: "\<exists>tail. pack_lsb (septet_stream header ss) = header @ tail"
  unfolding septet_stream_def by (metis pack_lsb_octets)

lemma decode_user_data_field:
  assumes "header_ok udh" "text_ok alphabet s" "user_data_field alphabet (header_of udh) s = (udl, ud)"
  shows "decode_user_data ud udl alphabet (udh \<noteq> None) = Inr (part_of udh, s)"
proof (cases alphabet)
  case Gsm7
  let ?h = "header_of udh"
  let ?n = "(length ?h * 8 + 6) div 7"
  have s: "list_all gsm7_char s" using assms(2) Gsm7 by (simp add: text_ok_def)
  have ud: "ud = pack_lsb (septet_stream ?h (gsm7_encode s))" "udl = ?n + length (gsm7_encode s)"
    using assms(3) Gsm7 by (auto simp: user_data_field_def)
  obtain tail where "ud = ?h @ tail" using pack_septet_stream ud(1) by blast
  moreover have "drop ?n (unpack_septets ud udl) = gsm7_encode s"
    unfolding ud by (rule drop_unpack_septets [OF gsm7_encode_septets [OF s]])
  ultimately show ?thesis
    using Gsm7 user_data_header_of [OF assms(1), of tail] decode_gsm7_encode [OF s]
    by (simp add: decode_user_data_def gsm7_text_def)
next
  case Ucs2
  then have "ud = header_of udh @ utf16_encode s" "udl = length ud" "list_all is_scalar s"
    using assms(2,3) by (auto simp: user_data_field_def text_ok_def)
  then show ?thesis
    using Ucs2 user_data_header_of [OF assms(1)]
    by (simp add: decode_user_data_def range_or_empty_def get_range_def decode_ucs2_encode)
next
  case Octet
  then have "ud = header_of udh @ as_bytes s" "udl = length ud" "list_all is_scalar s"
    using assms(2,3) by (auto simp: user_data_field_def text_ok_def)
  then show ?thesis
    using Octet user_data_header_of [OF assms(1)]
    by (simp add: decode_user_data_def range_or_empty_def get_range_def utf8_lossy_as_bytes)
qed

lemma digit_less_16: "d < 10 \<Longrightarrow> (word_of_nat d :: u8) < 16"
  by (simp add: word_less_nat_alt unat_word_of_nat_u8)

lemma nibbles_of_pair:
  assumes "(d :: u8) < 16" "e < 16"
  shows "(push_bit 4 e OR d) AND 0x0F = d" "drop_bit 4 (push_bit 4 e OR d) = e"
  using assms unfolding u8_mask_15
  by (auto intro!: bit_word_eqI simp: bit_simps not_bit_u8_less_16 dest: bit_u8_less_16D)

lemma nibbles_of_last:
  assumes "(d :: u8) < 16"
  shows "(0xF0 OR d) AND 0x0F = d" "drop_bit 4 (0xF0 OR d) = 0xF"
proof -
  have "0xF0 OR d = push_bit 4 0xF OR d" by simp
  then show "(0xF0 OR d) AND 0x0F = d" "drop_bit 4 (0xF0 OR d) = 0xF"
    using nibbles_of_pair [of d "0xF"] assms by (simp_all del: drop_bit_or)
qed

lemma nibbles_of_semi_octets:
  "list_all (\<lambda>d. d < 10) ds \<Longrightarrow>
   nibbles_of (semi_octets ds) = map word_of_nat ds @ (if odd (length ds) then [0xF] else [])"
  by (induction ds rule: semi_octets.induct)
    (simp_all add: nibbles_of_def nibbles_of_pair nibbles_of_last digit_less_16 del: drop_bit_or)

lemma length_semi_octets: "length (semi_octets ds) = (length ds + 1) div 2"
  by (induction ds rule: semi_octets.induct) simp_all

lemma starts_with_plus:
  "starts_with (lit ''+'' @ s) (lit ''+'')" "\<not> starts_with (map (\<lambda>d. 48 + d) ds) (lit ''+'')"
  by (cases ds; simp add: starts_with_def lit_def)+

lemma address_digits_number:
  assumes "list_all (\<lambda>d. d < 10) es" "prefix = lit ''+'' \<or> prefix = []"
  shows "address_digits (length ds + length es) (map word_of_nat es @ fill)
    (prefix @ map (\<lambda>d. 48 + d) ds) = prefix @ map (\<lambda>d. 48 + d) (ds @ es)"
  using assms(1)
proof (induction es arbitrary: ds)
  case Nil
  have "(if starts_with (prefix @ map (\<lambda>d. 48 + d) ds) (lit ''+'') then 1 else 0) = length prefix"
    using assms(2) starts_with_plus by (auto simp: lit_def)
  then show ?case by (cases fill) simp_all
next
  case (Cons e es)
  have "(if starts_with (prefix @ map (\<lambda>d. 48 + d) ds) (lit ''+'') then 1 else 0) = length prefix"
    using assms(2) starts_with_plus by (auto simp: lit_def)
  moreover have "unat (word_of_nat e :: u8) = e" using Cons.prems by (intro unat_word_of_nat_u8) simp
  ultimately show ?case
    using Cons.IH [of "ds @ [e]"] Cons.prems by (simp add: word_le_nat_alt)
qed

lemma decode_address_field:
  assumes "address_ok toa a" "address_field a = (n, oa)"
  shows "decode_address toa n oa = address_text toa a" "length oa = (n + 1) div 2"
proof -
  show "decode_address toa n oa = address_text toa a"
  proof (cases a)
    case (Number ds)
    with assms show ?thesis
      using address_digits_number [of ds "if drop_bit 4 toa AND 7 = 1 then lit ''+'' else []" "[]"]
        nibbles_of_semi_octets [of ds]
      by (auto simp: decode_address_def address_ok_def address_field_def address_text_def)
  next
    case (Name s)
    let ?ss = "gsm7_encode s"
    have s: "list_all gsm7_char s" using assms(1) Name by (simp add: address_ok_def)
    have "n = (7 * length ?ss + 3) div 4" using assms(2) Name by (simp add: address_field_def)
    then have "n * 4 \<le> 7 * length ?ss + 3" "7 * length ?ss \<le> n * 4"
      using dividend_less_times_div [of 4 "7 * length ?ss + 3"] div_times_less_eq_dividend [of "7 * length ?ss + 3" 4]
      by linarith+
    then have "n * 4 div 7 = length ?ss" by (intro div_nat_eqI) auto
    moreover have "oa = pack_lsb (septet_stream [] ?ss)"
      using assms(2) Name by (simp add: address_field_def septet_stream_def octet_bits_def)
    ultimately have "unpack_septets oa (n * 4 div 7) = ?ss"
      using drop_unpack_septets [OF gsm7_encode_septets [OF s], of "[]"] by simp
    then show ?thesis
      using assms(1) Name decode_gsm7_encode [OF s]
      by (simp add: decode_address_def address_ok_def decode_gsm7_def address_text_def)
  qed
  show "length oa = (n + 1) div 2"
  proof (cases a)
    case (Number ds)
    with assms(2) show ?thesis by (auto simp: address_field_def length_semi_octets)
  next
    case (Name s)
    define m where "m = 7 * length (gsm7_encode s)"
    have "((m + 3) div 4 + 1) div 2 = (m + 3 + 4) div 4 div 2" by simp
    also have "\<dots> = (m + 7) div 8" using div_mult2_eq [of "m + 7" 4 2] by simp
    finally show ?thesis using Name assms(2) by (auto simp: address_field_def m_def)
  qed
qed

lemma from_first_octet_Deliver: "from_first_octet b = Deliver \<longleftrightarrow> b AND 0x03 = 0"
  by (simp add: from_first_octet_def Let_def)

lemma get_at_append_plus [slice_simps]: "get_at (xs @ ys) (length xs + i) = get_at ys i"
  by (simp add: get_at_def)

lemma tpdu_parse_tpdu_of:
  assumes "delivery_ok m"
  shows "tpdu_parse (tpdu_of m) =
    Inr \<lparr>originating_address = address_text (dl_toa m) (dl_address m), tpdu_text = dl_text m,
         tpdu_part = part_of (dl_udh m), tpdu_is_type_zero = is_type_zero_pid (dl_pid m)\<rparr>"
proof -
  obtain n oa where a: "address_field (dl_address m) = (n, oa)" by fastforce
  obtain udl ud where u: "user_data_field (from_dcs (dl_dcs m)) (header_of (dl_udh m)) (dl_text m) = (udl, ud)"
    by fastforce
  have ok: "n < 256" "udl < 256" "length (dl_scts m) = 7" "dl_first m AND 0x03 = 0"
    "(dl_first m AND 0x40 \<noteq> 0) = (dl_udh m \<noteq> None)"
    using assms a u by (simp_all add: delivery_ok_def address_ok_def)
  then have n: "unat (word_of_nat n :: u8) = n" "unat (word_of_nat udl :: u8) = udl"
    by (simp_all add: unat_word_of_nat_u8)
  note addr = decode_address_field [OF _ a, of "dl_toa m"]
  define head where "head = [dl_first m, word_of_nat n, dl_toa m] @ oa"
  define tail where "tail = [dl_pid m, dl_dcs m] @ dl_scts m @ word_of_nat udl # ud"
  have buf: "tpdu_of m = head @ tail" by (simp add: tpdu_of_def a u head_def tail_def)
  have len: "length head = 3 + (n + 1) div 2" using addr(2) assms by (simp add: head_def delivery_ok_def)
  have front: "get_at (tpdu_of m) 0 = Some (dl_first m)" "get_at (tpdu_of m) 1 = Some (word_of_nat n)"
    "get_at (tpdu_of m) 2 = Some (dl_toa m)"
    by (simp_all add: buf head_def numeral_2_eq_2)
  have oa: "get_range (tpdu_of m) 3 (3 + (n + 1) div 2) = Some oa"
    using get_range_append [of "[dl_first m, word_of_nat n, dl_toa m]" oa tail] len
    by (simp add: buf head_def numeral_3_eq_3)
  have back_end: "get_at (tpdu_of m) (length head + i) = get_at tail i" for i
    by (simp add: buf get_at_append_plus)
  have pid: "get_at tail 0 = Some (dl_pid m)" "get_at tail 1 = Some (dl_dcs m)"
    "get_at tail 9 = Some (word_of_nat udl)"
    using ok(3) by (simp_all add: tail_def get_at_def nth_append)
  have ud: "get_range (tpdu_of m) (length head + 10) (length (tpdu_of m)) = Some ud"
    using ok(3) by (simp add: buf tail_def get_range_def)
  have body: "decode_user_data ud udl (from_dcs (dl_dcs m)) (dl_udh m \<noteq> None) = Inr (part_of (dl_udh m), dl_text m)"
    using assms u by (intro decode_user_data_field) (simp_all add: delivery_ok_def)
  show ?thesis
    unfolding tpdu_parse_def Let_def
    using front oa back_end [of 0] back_end [of 1] back_end [of 9] pid ud body addr(1) assms ok n len
    by (simp add: from_first_octet_Deliver delivery_ok_def)
qed

section \<open>Envelopes\<close>

lemma get_range_tail [slice_simps]: "get_range (xs @ ys) (length xs) (length (xs @ ys)) = Some ys"
  by (simp add: get_range_def)

lemma skip_length_prefixed_Inr:
  "skip_length_prefixed buf pos f = Inr e \<longleftrightarrow>
    (\<exists>pre field rest. buf = pre @ word_of_nat (length field) # field @ rest \<and> length pre = pos \<and>
       length field < 256 \<and> e = pos + 1 + length field)"
proof
  assume "skip_length_prefixed buf pos f = Inr e"
  then have *: "pos < length buf" "pos + 1 + unat (buf ! pos) \<le> length buf" "e = pos + 1 + unat (buf ! pos)"
    by (auto simp: skip_length_prefixed_def and_then_Inr_iff get_at_Some_iff Let_def split: if_splits)
  let ?field = "take (unat (buf ! pos)) (drop (Suc pos) buf)"
  have "length ?field = unat (buf ! pos)" using *(2) by simp
  moreover have "buf = take pos buf @ buf ! pos # ?field @ drop (unat (buf ! pos)) (drop (Suc pos) buf)"
    using *(1) by (simp add: id_take_nth_drop [symmetric] del: drop_drop)
  ultimately show "\<exists>pre field rest. buf = pre @ word_of_nat (length field) # field @ rest \<and> length pre = pos \<and>
       length field < 256 \<and> e = pos + 1 + length field"
    using * by (intro exI [of _ "take pos buf"] exI [of _ ?field] exI) auto
next
  assume "\<exists>pre field rest. buf = pre @ word_of_nat (length field) # field @ rest \<and> length pre = pos \<and>
       length field < 256 \<and> e = pos + 1 + length field"
  then show "skip_length_prefixed buf pos f = Inr e"
    by (auto simp: skip_length_prefixed_def unat_word_of_nat_u8 Let_def)
qed

definition rp_data_envelope :: "bytes \<Rightarrow> u8 \<Rightarrow> bytes \<Rightarrow> bool" where
  "rp_data_envelope body mr ud \<longleftrightarrow>
     (\<exists>octet0 oa da rest. octet0 AND 0x07 = 1 \<and> length oa < 256 \<and> length da < 256 \<and> length ud < 256 \<and>
        body = rp_data_of octet0 mr oa da ud @ rest)"

lemma rp_message_parse_Data:
  "rp_message_parse body = Inr (Data rp) \<longleftrightarrow> rp_data_envelope body (rp_mr rp) (rp_user_data rp)"
proof
  assume "rp_data_envelope body (rp_mr rp) (rp_user_data rp)"
  then obtain octet0 oa da rest where b: "octet0 AND 0x07 = 1" "length oa < 256" "length da < 256"
    "length (rp_user_data rp) < 256" "body = rp_data_of octet0 (rp_mr rp) oa da (rp_user_data rp) @ rest"
    unfolding rp_data_envelope_def by blast
  let ?ud = "rp_user_data rp"
  have "body = [octet0, rp_mr rp] @ word_of_nat (length oa) # oa @ word_of_nat (length da) # da @
      word_of_nat (length ?ud) # ?ud @ rest"
    using b(5) by (simp add: rp_data_of_def)
  then have s1: "skip_length_prefixed body 2 f = Inr (3 + length oa)" for f
    unfolding skip_length_prefixed_Inr using b(2)
    by (intro exI [of _ "[octet0, rp_mr rp]"] exI [of _ oa]
        exI [of _ "word_of_nat (length da) # da @ word_of_nat (length ?ud) # ?ud @ rest"]) simp
  have "body = ([octet0, rp_mr rp, word_of_nat (length oa)] @ oa) @ word_of_nat (length da) # da @
      (word_of_nat (length ?ud) # ?ud @ rest)"
    using b(5) by (simp add: rp_data_of_def)
  then have s2: "skip_length_prefixed body (3 + length oa) f = Inr (4 + length oa + length da)" for f
    unfolding skip_length_prefixed_Inr using b(3)
    by (intro exI [of _ "[octet0, rp_mr rp, word_of_nat (length oa)] @ oa"] exI [of _ da]
        exI [of _ "word_of_nat (length ?ud) # ?ud @ rest"]) simp
  let ?pre = "[octet0, rp_mr rp, word_of_nat (length oa)] @ oa @ word_of_nat (length da) # da"
  have body: "body = ?pre @ word_of_nat (length ?ud) # ?ud @ rest" "length ?pre = 4 + length oa + length da"
    using b(5) by (simp_all add: rp_data_of_def)
  have "get_at body (4 + length oa + length da) = Some (word_of_nat (length ?ud))"
    unfolding body(1) body(2) [symmetric] by (rule get_at_append_length)
  moreover have "get_range body (4 + length oa + length da + 1) (4 + length oa + length da + 1 + length ?ud) = Some ?ud"
    using get_range_append [of "?pre @ [word_of_nat (length ?ud)]" ?ud rest] body
    by (simp add: eval_nat_numeral)
  moreover have "get_at body 0 = Some octet0" "get_at body 1 = Some (rp_mr rp)"
    by (simp_all add: body(1))
  ultimately show "rp_message_parse body = Inr (Data rp)"
    using b(1-4) s1 s2 by (simp add: rp_message_parse_def unat_word_of_nat_u8 add.assoc)
next
  assume "rp_message_parse body = Inr (Data rp)"
  then obtain octet0 pos1 pos2 len ud where p: "get_at body 0 = Some octet0" "octet0 AND 0x07 = 1"
    "get_at body 1 = Some (rp_mr rp)"
    "skip_length_prefixed body 2 ''RP-Originator-Address'' = Inr pos1"
    "skip_length_prefixed body pos1 ''RP-Destination-Address'' = Inr pos2"
    "get_at body pos2 = Some len" "get_range body (pos2 + 1) (pos2 + 1 + unat len) = Some (rp_user_data rp)"
    by (auto simp: rp_message_parse_def and_then_Inr_iff Let_def split: if_splits)
  obtain pre oa rest where 1: "body = pre @ word_of_nat (length oa) # oa @ rest" "length pre = 2"
    "length oa < 256" "pos1 = 3 + length oa"
    using p(4) unfolding skip_length_prefixed_Inr by auto
  obtain pre' da rest' where 2: "body = pre' @ word_of_nat (length da) # da @ rest'" "length pre' = pos1"
    "length da < 256" "pos2 = pos1 + 1 + length da"
    using p(5) unfolding skip_length_prefixed_Inr by auto
  have pre: "pre = [octet0, rp_mr rp]"
    using 1(1,2) p(1,3) by (auto simp: numeral_2_eq_2 length_Suc_conv)
  have "pre' = take pos1 body" using 2 by simp
  also have "\<dots> = [octet0, rp_mr rp, word_of_nat (length oa)] @ oa" using 1 pre by (simp add: eval_nat_numeral)
  finally have pre': "pre' = [octet0, rp_mr rp, word_of_nat (length oa)] @ oa" .
  have r: "rest' = drop pos2 body" using 2 by simp
  have "pos2 < length body" "body ! pos2 = len" using p(6) by (auto simp: get_at_Some_iff)
  then have "rest' = len # drop (Suc pos2) body" unfolding r by (metis Cons_nth_drop_Suc)
  moreover have ud: "rp_user_data rp = take (unat len) (drop (Suc pos2) body)" "length (rp_user_data rp) = unat len"
    using p(7) length_get_range [OF p(7)] by (auto simp: get_range_Some_iff)
  ultimately have "rest' = word_of_nat (length (rp_user_data rp)) # rp_user_data rp @ drop (unat len) (drop (Suc pos2) body)"
    by (metis append_take_drop_id of_nat_unat ucast_id)
  then have "body = rp_data_of octet0 (rp_mr rp) oa da (rp_user_data rp) @ drop (unat len) (drop (Suc pos2) body)"
    using 2(1) pre' by (simp add: rp_data_of_def del: drop_drop)
  with p(2) 1(3) 2(3) ud(2) show "rp_data_envelope body (rp_mr rp) (rp_user_data rp)"
    unfolding rp_data_envelope_def by (metis u8_less_256)
qed

text \<open>The outcomes a delivery report is owed for, with the reference it echoes.\<close>

definition report_reference :: "decoded_rp \<Rightarrow> u8 option" where
  "report_reference r =
     (case r of
        RpMsg d \<Rightarrow> Some (sms_rp_mr d)
      | UnsupportedTpdu mr _ \<Rightarrow> Some mr
      | Undecodable mr \<Rightarrow> Some mr
      | _ \<Rightarrow> None)"

definition data_outcome :: "rp_data \<Rightarrow> decoded_rp" where
  "data_outcome rp =
     (case get_at (rp_user_data rp) 0 of
        None \<Rightarrow> UnsupportedTpdu (rp_mr rp) Reserved
      | Some b \<Rightarrow>
          if from_first_octet b \<noteq> Deliver then UnsupportedTpdu (rp_mr rp) (from_first_octet b)
          else (case decode_sms_deliver_tpdu (rp_user_data rp) of
                  Inr decoded \<Rightarrow> RpMsg (decoded\<lparr>sms_rp_mr := rp_mr rp\<rparr>)
                | Inl e \<Rightarrow> Undecodable (rp_mr rp)))"

lemma decode_vnd_3gpp_sms_eq:
  "decode_vnd_3gpp_sms body =
     and_then (rp_message_parse body) (\<lambda>m. Inr (case m of
         Data rp \<Rightarrow> data_outcome rp | AckMsg mr \<Rightarrow> RpAck mr | ErrorMsg mr cause \<Rightarrow> RpErr mr cause))"
  by (auto simp: decode_vnd_3gpp_sms_def and_then_def data_outcome_def Let_def
      split: sum.split rp_message.split option.split)

lemma report_reference_data_outcome: "report_reference (data_outcome rp) = Some (rp_mr rp)"
  by (simp add: report_reference_def data_outcome_def split: option.split sum.split)

lemma report_owed:
  "(\<exists>r. decode_vnd_3gpp_sms body = Inr r \<and> report_reference r = Some mr) \<longleftrightarrow>
   (\<exists>ud. rp_data_envelope body mr ud)"
proof
  assume "\<exists>r. decode_vnd_3gpp_sms body = Inr r \<and> report_reference r = Some mr"
  then obtain msg where "rp_message_parse body = Inr msg" "report_reference (case msg of
      Data rp \<Rightarrow> data_outcome rp | AckMsg mr \<Rightarrow> RpAck mr | ErrorMsg mr cause \<Rightarrow> RpErr mr cause) = Some mr"
    by (auto simp: decode_vnd_3gpp_sms_eq and_then_Inr_iff)
  then obtain rp where "rp_message_parse body = Inr (Data rp)" "rp_mr rp = mr"
    by (cases msg) (simp_all add: report_reference_data_outcome,
        simp_all add: report_reference_def)
  then show "\<exists>ud. rp_data_envelope body mr ud" unfolding rp_message_parse_Data by blast
next
  assume "\<exists>ud. rp_data_envelope body mr ud"
  then obtain ud where "rp_message_parse body = Inr (Data \<lparr>rp_mr = mr, rp_user_data = ud\<rparr>)"
    unfolding rp_message_parse_Data by auto
  then show "\<exists>r. decode_vnd_3gpp_sms body = Inr r \<and> report_reference r = Some mr"
    by (simp add: decode_vnd_3gpp_sms_eq report_reference_data_outcome)
qed

lemma tpdu_of_first: "get_at (tpdu_of m) 0 = Some (dl_first m)"
  by (simp add: tpdu_of_def split: prod.split)

lemma deliver_decoded:
  assumes "delivery_ok m" "rp_data_envelope body mr (tpdu_of m)"
  shows "decode_vnd_3gpp_sms body =
    Inr (RpMsg \<lparr>sms_sender = address_text (dl_toa m) (dl_address m), sms_text = dl_text m,
                sms_part = part_of (dl_udh m), sms_rp_mr = mr, sms_is_type_zero = is_type_zero_pid (dl_pid m)\<rparr>)"
proof -
  have "rp_message_parse body = Inr (Data \<lparr>rp_mr = mr, rp_user_data = tpdu_of m\<rparr>)"
    using assms(2) by (simp add: rp_message_parse_Data)
  moreover have "from_first_octet (dl_first m) = Deliver"
    using assms(1) by (simp add: from_first_octet_Deliver delivery_ok_def)
  ultimately show ?thesis
    by (simp add: decode_vnd_3gpp_sms_eq data_outcome_def tpdu_of_first decode_sms_deliver_tpdu_def
        tpdu_parse_tpdu_of [OF assms(1)])
qed

text \<open>Type 0 is the one value 0x40: the neighbouring values of its group are ordinary messages.\<close>

lemma is_type_zero_pid_iff: "is_type_zero_pid pid \<longleftrightarrow> pid = 0x40"
proof
  assume z: "is_type_zero_pid pid"
  have "pid = push_bit 6 (drop_bit 6 pid) OR (pid AND 0x3F)"
    by (rule bit_word_eqI) (auto simp: bit_simps u8_and_63 not_less)
  also have "\<dots> = 0x40" using z by (simp add: is_type_zero_pid_def)
  finally show "pid = 0x40" .
qed (simp add: is_type_zero_pid_def)

section \<open>Properties\<close>

text \<open>
  C23: A short message laid out by the specifications is decoded exactly. For any sender (a number,
  international or not, or an alphanumeric name in packed septets), any of the three alphabets, any
  user data header (with the text of a 7-bit message starting at the septet boundary behind it) and
  any envelope addresses, decoding gives back the sender, the text, the concatenation fields of the
  header and the message reference of the envelope.
\<close>

theorem sms_deliver_roundtrip:
  assumes "delivery_ok m" "octet0 AND 0x07 = 1" "length oa < 256" "length da < 256" "length (tpdu_of m) < 256"
  shows "decode_vnd_3gpp_sms (rp_data_of octet0 mr oa da (tpdu_of m) @ rest) =
    Inr (RpMsg \<lparr>sms_sender = address_text (dl_toa m) (dl_address m), sms_text = dl_text m,
                sms_part = part_of (dl_udh m), sms_rp_mr = mr, sms_is_type_zero = (dl_pid m = 0x40)\<rparr>)"
  using assms unfolding is_type_zero_pid_iff [symmetric]
  by (intro deliver_decoded) (auto simp: rp_data_envelope_def)

text \<open>
  A delivery report is owed, and echoes a message reference, exactly for the bodies that are an
  RP-DATA envelope of TS 24.011 with that reference: acknowledgements, errors and envelopes of the
  other direction or with a truncated field never yield a message.
\<close>

theorem rp_report_iff_data_envelope:
  "(\<exists>r. decode_vnd_3gpp_sms body = Inr r \<and> report_reference r = Some mr) \<longleftrightarrow>
   (\<exists>octet0 oa da ud rest. octet0 AND 0x07 = 1 \<and> length oa < 256 \<and> length da < 256 \<and> length ud < 256 \<and>
      body = rp_data_of octet0 mr oa da ud @ rest)"
  unfolding report_owed rp_data_envelope_def by blast

definition sample_delivery :: delivery where
  "sample_delivery =
     \<lparr>dl_first = 0x44, dl_toa = 0x91, dl_address = Number [4, 4, 7], dl_pid = 0, dl_dcs = 0x08,
      dl_scts = [0, 0, 0, 0, 0, 0, 0], dl_udh = Some [(0x24, [1]), (0x00, [7, 2, 1])], dl_text = [0x48, 0x1F600]\<rparr>"

lemma sample_delivery_ok: "delivery_ok sample_delivery" "length (tpdu_of sample_delivery) < 256"
  by (simp_all add: sample_delivery_def delivery_ok_def address_ok_def address_field_def header_ok_def
      udh_octets_of_def ie_octets_def text_ok_def from_dcs_def is_scalar_def user_data_field_def header_of_def
      utf16_encode_def utf16_code_def to_be16_def tpdu_of_def)

theorem sms_deliver_roundtrip_witness:
  "decode_vnd_3gpp_sms (rp_data_of 0x01 5 [0x91] [] (tpdu_of sample_delivery) @ []) =
    Inr (RpMsg \<lparr>sms_sender = lit ''+447'', sms_text = [0x48, 0x1F600],
                sms_part = Some \<lparr>cp_reference = 7, cp_sequence = 1, cp_total = 2\<rparr>,
                sms_rp_mr = 5, sms_is_type_zero = False\<rparr>)"
  using sms_deliver_roundtrip [of sample_delivery 1 "[0x91]" "[]" 5 "[]"] sample_delivery_ok
  by (simp add: sample_delivery_def address_text_def lit_def part_of_def ie_part_def)

end
