(* ===== verification/Sms_Dedupe.thy ===== *)
theory Sms_Dedupe
  imports Rust_Text
begin

text \<open>
  Duplicate suppression between the two routes a text can arrive by (\<^verbatim>\<open>volte/sms.rs\<close>: \<open>Dedupe\<close>,
  \<open>InboundMessage\<close>, \<open>decide\<close>). A key is claimed before its relay, confirmed after the relay succeeded
  and forgotten after it failed; the oldest claim is evicted at capacity. The locale \<open>claim_store\<close> is
  what the routes rely on.
\<close>

section \<open>Messages and the store\<close>

datatype message_route = OverRegistration | ThroughModem

definition message_route_str :: "message_route \<Rightarrow> text_string" where
  "message_route_str r = (case r of OverRegistration \<Rightarrow> lit ''registration'' | ThroughModem \<Rightarrow> lit ''modem'')"

record inbound_message =
  im_route :: message_route
  im_sender :: text_string
  im_body :: text_string
  im_modem_index :: "u32 option"

definition dedupe_key :: "inbound_message \<Rightarrow> text_string" where
  "dedupe_key m = im_sender m @ 1 # im_body m"

record dedupe =
  dd_seen :: "text_string list"
  dd_capacity :: nat
  dd_confirmed :: "text_string set"

definition dedupe_new :: "nat \<Rightarrow> dedupe" where
  "dedupe_new capacity = \<lparr>dd_seen = [], dd_capacity = max capacity 1, dd_confirmed = {}\<rparr>"

definition dedupe_default :: dedupe where
  "dedupe_default = dedupe_new 64"

definition contains_key :: "dedupe \<Rightarrow> text_string \<Rightarrow> bool" where
  "contains_key d key \<longleftrightarrow> list_ex (\<lambda>k. k = key) (dd_seen d)"

definition admit :: "dedupe \<Rightarrow> text_string \<Rightarrow> bool \<times> dedupe" where
  "admit d key =
     (if contains_key d key then (False, d)
      else
        (let d = (if dd_capacity d \<le> length (dd_seen d)
                  then (case dd_seen d of
                          [] \<Rightarrow> d
                        | evicted # seen \<Rightarrow> d\<lparr>dd_seen := seen, dd_confirmed := dd_confirmed d - {evicted}\<rparr>)
                  else d)
         in (True, d\<lparr>dd_seen := dd_seen d @ [key]\<rparr>)))"

definition is_confirmed :: "dedupe \<Rightarrow> text_string \<Rightarrow> bool" where
  "is_confirmed d key \<longleftrightarrow> key \<in> dd_confirmed d"

definition confirm :: "dedupe \<Rightarrow> text_string \<Rightarrow> dedupe" where
  "confirm d key = (if contains_key d key then d\<lparr>dd_confirmed := insert key (dd_confirmed d)\<rparr> else d)"

definition forget :: "dedupe \<Rightarrow> text_string \<Rightarrow> dedupe" where
  "forget d key = d\<lparr>dd_seen := filter (\<lambda>k. k \<noteq> key) (dd_seen d), dd_confirmed := dd_confirmed d - {key}\<rparr>"

definition dedupe_len :: "dedupe \<Rightarrow> nat" where
  "dedupe_len d = length (dd_seen d)"

definition dedupe_is_empty :: "dedupe \<Rightarrow> bool" where
  "dedupe_is_empty d \<longleftrightarrow> dd_seen d = []"

datatype disposition = Handle | AcknowledgeOnly

definition decide :: "dedupe \<Rightarrow> inbound_message \<Rightarrow> disposition \<times> dedupe" where
  "decide d message =
     (let (fresh, d) = admit d (dedupe_key message)
      in (if fresh then Handle else AcknowledgeOnly, d))"

section \<open>What the routes rely on\<close>

datatype claim = Claimed | Delivered

locale claim_store =
  fixes status :: "'s \<Rightarrow> 'k \<Rightarrow> claim option"
    and take_claim :: "'s \<Rightarrow> 'k \<Rightarrow> bool \<times> 's"
    and settle :: "'s \<Rightarrow> 'k \<Rightarrow> 's"
    and release :: "'s \<Rightarrow> 'k \<Rightarrow> 's"
    and victim :: "'s \<Rightarrow> 'k option"
    and inv :: "'s \<Rightarrow> bool"
  assumes taken: "inv s \<Longrightarrow> status s k \<noteq> None \<Longrightarrow> take_claim s k = (False, s)"
    and fresh: "inv s \<Longrightarrow> status s k = None \<Longrightarrow> fst (take_claim s k)"
    and status_fresh: "inv s \<Longrightarrow> status s k = None \<Longrightarrow>
      status (snd (take_claim s k)) = (\<lambda>j. if j = k then Some Claimed else if victim s = Some j then None else status s j)"
    and status_settle: "inv s \<Longrightarrow> status (settle s k) = (if status s k = None then status s else (status s)(k \<mapsto> Delivered))"
    and status_release: "inv s \<Longrightarrow> status (release s k) = (status s)(k := None)"
    and inv_take: "inv s \<Longrightarrow> inv (snd (take_claim s k))"
    and inv_settle: "inv s \<Longrightarrow> inv (settle s k)"
    and inv_release: "inv s \<Longrightarrow> inv (release s k)"
begin

lemma delivered_not_lost_by_take:
  "inv s \<Longrightarrow> status s j = Some c \<Longrightarrow> victim s \<noteq> Some j \<Longrightarrow> status (snd (take_claim s k)) j = Some c"
  by (cases "status s k") (auto simp: taken status_fresh)

lemma failed_attempt_leaves_no_trace:
  "inv s \<Longrightarrow> status s k = None \<Longrightarrow> victim s = None \<Longrightarrow> status (release (snd (take_claim s k)) k) = status s"
  by (auto simp: status_release status_fresh inv_take fun_eq_iff)

lemma successful_attempt_recorded:
  "inv s \<Longrightarrow> status s k = None \<Longrightarrow> status (settle (snd (take_claim s k)) k) k = Some Delivered"
  by (simp add: status_settle status_fresh inv_take)

end

text \<open>The status of a key in the code's store, and the key the next admission evicts.\<close>

definition claim_status :: "dedupe \<Rightarrow> text_string \<Rightarrow> claim option" where
  "claim_status d key =
     (if key \<in> dd_confirmed d then Some Delivered else if key \<in> set (dd_seen d) then Some Claimed else None)"

definition next_victim :: "dedupe \<Rightarrow> text_string option" where
  "next_victim d = (if dd_capacity d \<le> length (dd_seen d) then Some (hd (dd_seen d)) else None)"

definition dedupe_inv :: "dedupe \<Rightarrow> bool" where
  "dedupe_inv d \<longleftrightarrow> 0 < dd_capacity d \<and> distinct (dd_seen d) \<and> length (dd_seen d) \<le> dd_capacity d \<and>
     dd_confirmed d \<subseteq> set (dd_seen d)"

lemma contains_key_iff: "contains_key d key \<longleftrightarrow> key \<in> set (dd_seen d)"
  by (auto simp: contains_key_def list_ex_iff)

lemma claim_status_None: "dedupe_inv d \<Longrightarrow> claim_status d key = None \<longleftrightarrow> key \<notin> set (dd_seen d)"
  by (auto simp: claim_status_def dedupe_inv_def)

lemma admit_taken: "contains_key d key \<Longrightarrow> admit d key = (False, d)"
  by (simp add: admit_def)

lemma admit_fresh:
  assumes "dedupe_inv d" "\<not> contains_key d key"
  shows "admit d key =
    (True, case next_victim d of
       None \<Rightarrow> d\<lparr>dd_seen := dd_seen d @ [key]\<rparr>
     | Some v \<Rightarrow> d\<lparr>dd_seen := tl (dd_seen d) @ [key], dd_confirmed := dd_confirmed d - {v}\<rparr>)"
  using assms by (cases "dd_seen d") (auto simp: admit_def next_victim_def dedupe_inv_def Let_def)

lemma dedupe_inv_admit [step_inv]: "dedupe_inv d \<Longrightarrow> dedupe_inv (snd (admit d key))"
proof (cases "contains_key d key")
  case False
  assume inv: "dedupe_inv d"
  show ?thesis
  proof (cases "next_victim d")
    case None
    with inv False show ?thesis
      by (auto simp: admit_fresh dedupe_inv_def next_victim_def contains_key_iff split: if_splits)
  next
    case (Some v)
    with inv False show ?thesis
      by (cases "dd_seen d")
        (auto simp: admit_fresh dedupe_inv_def next_victim_def contains_key_iff split: if_splits)
  qed
qed (simp add: admit_taken)

lemma dedupe_inv_confirm [step_inv]: "dedupe_inv d \<Longrightarrow> dedupe_inv (confirm d key)"
  by (auto simp: confirm_def dedupe_inv_def contains_key_iff)

lemma dedupe_inv_forget [step_inv]: "dedupe_inv d \<Longrightarrow> dedupe_inv (forget d key)"
  by (auto simp: forget_def dedupe_inv_def intro: order_trans [OF length_filter_le])

lemma dedupe_inv_new [simp]: "dedupe_inv (dedupe_new capacity)"
  by (simp add: dedupe_inv_def dedupe_new_def)

lemma confirmed_admit: "dd_confirmed (snd (admit d key)) \<subseteq> dd_confirmed d"
  by (auto simp: admit_def Let_def split: list.splits if_splits)

lemma claim_status_admit:
  assumes "dedupe_inv d" "key \<notin> set (dd_seen d)"
  shows "claim_status (snd (admit d key)) =
    (\<lambda>j. if j = key then Some Claimed else if next_victim d = Some j then None else claim_status d j)"
proof -
  have c: "\<not> contains_key d key" using assms(2) by (simp add: contains_key_iff)
  show ?thesis
  proof (cases "next_victim d")
    case None
    with assms c show ?thesis
      by (auto simp: admit_fresh claim_status_def fun_eq_iff dedupe_inv_def)
  next
    case (Some v)
    then obtain seen where "dd_seen d = v # seen"
      using assms(1) by (cases "dd_seen d") (auto simp: next_victim_def dedupe_inv_def split: if_splits)
    with Some assms c show ?thesis
      by (auto simp: admit_fresh claim_status_def fun_eq_iff dedupe_inv_def)
  qed
qed

lemma claim_status_confirm:
  "dedupe_inv d \<Longrightarrow> claim_status (confirm d key) =
    (if claim_status d key = None then claim_status d else (claim_status d)(key \<mapsto> Delivered))"
  by (auto simp: claim_status_def confirm_def contains_key_iff fun_eq_iff dedupe_inv_def)

lemma claim_status_forget: "claim_status (forget d key) = (claim_status d)(key := None)"
  by (auto simp: claim_status_def forget_def fun_eq_iff)

interpretation store: claim_store claim_status admit confirm forget next_victim dedupe_inv
proof unfold_locales
  fix d :: dedupe and key
  assume inv: "dedupe_inv d"
  show "claim_status d key \<noteq> None \<Longrightarrow> admit d key = (False, d)"
    using inv by (simp add: claim_status_None admit_taken contains_key_iff)
  show "claim_status d key = None \<Longrightarrow> fst (admit d key)"
    using inv by (simp add: claim_status_None admit_fresh contains_key_iff)
  show "claim_status d key = None \<Longrightarrow> claim_status (snd (admit d key)) =
      (\<lambda>j. if j = key then Some Claimed else if next_victim d = Some j then None else claim_status d j)"
    using inv by (simp add: claim_status_None claim_status_admit)
qed (simp_all add: step_inv claim_status_confirm claim_status_forget)

lemma decide_Handle:
  "dedupe_inv d \<Longrightarrow> decide d m = (Handle, d') \<longleftrightarrow> claim_status d (dedupe_key m) = None \<and> d' = snd (admit d (dedupe_key m))"
  by (cases "contains_key d (dedupe_key m)")
    (auto simp: decide_def admit_taken admit_fresh claim_status_None contains_key_iff)

lemma decide_AcknowledgeOnly:
  "dedupe_inv d \<Longrightarrow> decide d m = (AcknowledgeOnly, d') \<longleftrightarrow> claim_status d (dedupe_key m) \<noteq> None \<and> d' = d"
  by (cases "contains_key d (dedupe_key m)")
    (auto simp: decide_def admit_taken admit_fresh claim_status_None contains_key_iff)

end
