(* ===== verification/Sms_Reassembly.thy ===== *)
theory Sms_Reassembly
  imports Sms_Pdu Rust_Collections
begin

text \<open>
  Reassembly of multi-part texts (\<^verbatim>\<open>volte/sms.rs\<close>: \<open>Reassembly\<close>). Parts are buffered by sender and
  reference until the set is complete; a buffer that is evicted, expires or meets a reused reference
  is moved part by part into a retry queue. The buffers are a hash map whose iteration order is that
  of the association list, which no theorem below depends on.
\<close>

section \<open>State and operations\<close>

definition REASSEMBLY_TIMEOUT :: duration where
  "REASSEMBLY_TIMEOUT = secs 180"

definition REASSEMBLY_CAPACITY :: nat where
  "REASSEMBLY_CAPACITY = 64"

type_synonym reassembly_key = "text_string \<times> u16"

record partial_message =
  pm_total :: u8
  pm_parts :: "(u8, text_string) btree_map"
  pm_last_updated :: instant

datatype part_outcome = Complete text_string | Pending | Malformed

record queued_flush =
  qf_id :: nat
  qf_sender :: text_string
  qf_sequence :: u8
  qf_total :: u8
  qf_text :: text_string

record reassembly =
  ra_buffers :: "(reassembly_key, partial_message) hash_map"
  ra_order :: "reassembly_key list"
  ra_capacity :: nat
  ra_pending :: "queued_flush list"
  ra_next_pending_id :: nat

definition reassembly_new :: "nat \<Rightarrow> reassembly" where
  "reassembly_new capacity =
     \<lparr>ra_buffers = [], ra_order = [], ra_capacity = max capacity 1, ra_pending = [], ra_next_pending_id = 0\<rparr>"

definition reassembly_default :: reassembly where
  "reassembly_default = reassembly_new REASSEMBLY_CAPACITY"

fun enqueue_parts :: "text_string \<Rightarrow> u8 \<Rightarrow> (u8 \<times> text_string) list \<Rightarrow> reassembly \<Rightarrow> reassembly" where
  "enqueue_parts sender tot [] r = r"
| "enqueue_parts sender tot ((seq, txt) # parts) r =
     (let id = ra_next_pending_id r + 1
      in enqueue_parts sender tot parts
           (r\<lparr>ra_next_pending_id := id,
              ra_pending := ra_pending r @
                [\<lparr>qf_id = id, qf_sender = sender, qf_sequence = seq, qf_total = tot, qf_text = txt\<rparr>]\<rparr>))"

definition enqueue_pending :: "reassembly \<Rightarrow> text_string \<Rightarrow> partial_message \<Rightarrow> reassembly" where
  "enqueue_pending r sender msg = enqueue_parts sender (pm_total msg) (pm_parts msg) r"

text \<open>The three stages of \<open>admit_part\<close> after its guards: giving up a buffer whose reference was
  reused, making room and a fresh buffer for an unknown identity, and filling the position.\<close>

definition give_up_buffer :: "reassembly \<Rightarrow> reassembly_key \<Rightarrow> reassembly" where
  "give_up_buffer r key =
     (let r = (case map_of (ra_buffers r) key of
                 Some old \<Rightarrow> enqueue_pending (r\<lparr>ra_buffers := hm_remove key (ra_buffers r)\<rparr>) (fst key) old
               | None \<Rightarrow> r)
      in r\<lparr>ra_order := filter (\<lambda>k. k \<noteq> key) (ra_order r)\<rparr>)"

definition evict_oldest :: "reassembly \<Rightarrow> reassembly" where
  "evict_oldest r =
     (if ra_capacity r \<le> length (ra_buffers r) then
        (case ra_order r of
           [] \<Rightarrow> r
         | evicted_key # order \<Rightarrow>
             (let r = r\<lparr>ra_order := order\<rparr>
              in case map_of (ra_buffers r) evicted_key of
                   Some evicted \<Rightarrow>
                     enqueue_pending (r\<lparr>ra_buffers := hm_remove evicted_key (ra_buffers r)\<rparr>) (fst evicted_key) evicted
                 | None \<Rightarrow> r))
      else r)"

definition open_buffer :: "reassembly \<Rightarrow> reassembly_key \<Rightarrow> u8 \<Rightarrow> instant \<Rightarrow> reassembly" where
  "open_buffer r key tot now =
     (if map_of (ra_buffers r) key = None then
        (let r = evict_oldest r
         in r\<lparr>ra_buffers := hm_insert key \<lparr>pm_total = tot, pm_parts = [], pm_last_updated = now\<rparr> (ra_buffers r),
              ra_order := ra_order r @ [key]\<rparr>)
      else r)"

definition reuse_check :: "reassembly \<Rightarrow> reassembly_key \<Rightarrow> u8 \<Rightarrow> text_string \<Rightarrow> reassembly" where
  "reuse_check r key seq txt =
     (case map_of (ra_buffers r) key of
        Some existing \<Rightarrow>
          (case map_of (pm_parts existing) seq of
             Some t \<Rightarrow> if t \<noteq> txt then give_up_buffer r key else r
           | None \<Rightarrow> r)
      | None \<Rightarrow> r)"

definition fill_position :: "reassembly \<Rightarrow> reassembly_key \<Rightarrow> u8 \<Rightarrow> text_string \<Rightarrow> instant \<Rightarrow> (part_outcome \<times> reassembly) option" where
  "fill_position r key seq txt now =
     (case map_of (ra_buffers r) key of
        None \<Rightarrow> None
      | Some buf \<Rightarrow>
          (let buf = buf\<lparr>pm_parts := bt_insert seq txt (pm_parts buf), pm_last_updated := now\<rparr>;
               r = r\<lparr>ra_buffers := hm_insert key buf (ra_buffers r)\<rparr>
           in Some (if length (pm_parts buf) = unat (pm_total buf)
                    then Complete (concat (map snd (pm_parts buf))) else Pending, r)))"

text \<open>The result is \<open>None\<close> where the \<open>expect\<close> of the source would panic.\<close>

definition admit_part :: "reassembly \<Rightarrow> text_string \<Rightarrow> concat_part \<Rightarrow> text_string \<Rightarrow> instant \<Rightarrow> (part_outcome \<times> reassembly) option" where
  "admit_part r sender part txt now =
     (if cp_total part = 0 \<or> cp_sequence part = 0 \<or> cp_sequence part > cp_total part then Some (Malformed, r)
      else
      let key = (sender, cp_reference part) in
      if (case map_of (ra_buffers r) key of Some existing \<Rightarrow> pm_total existing \<noteq> cp_total part | None \<Rightarrow> False)
      then Some (Malformed, r)
      else
      let r = reuse_check r key (cp_sequence part) txt;
          r = open_buffer r key (cp_total part) now
      in fill_position r key (cp_sequence part) txt now)"

definition mark_delivered :: "reassembly \<Rightarrow> text_string \<Rightarrow> concat_part \<Rightarrow> reassembly" where
  "mark_delivered r sender part =
     (let key = (sender, cp_reference part)
      in r\<lparr>ra_buffers := hm_remove key (ra_buffers r), ra_order := filter (\<lambda>k. k \<noteq> key) (ra_order r)\<rparr>)"

definition expire_due :: "reassembly \<Rightarrow> instant \<Rightarrow> reassembly" where
  "expire_due r now =
     (let expired_keys = map fst (filter (\<lambda>(_, buf). REASSEMBLY_TIMEOUT \<le> now - pm_last_updated buf) (ra_buffers r))
      in fold (\<lambda>key r. give_up_buffer r key) expired_keys r)"

definition ready_for_delivery :: "reassembly \<Rightarrow> (nat \<times> text_string \<times> u8 \<times> u8 \<times> text_string) list" where
  "ready_for_delivery r =
     map (\<lambda>p. (qf_id p, qf_sender p, qf_sequence p, qf_total p, qf_text p)) (ra_pending r)"

definition mark_flush_delivered :: "reassembly \<Rightarrow> nat \<Rightarrow> reassembly" where
  "mark_flush_delivered r flush_id = r\<lparr>ra_pending := filter (\<lambda>p. qf_id p \<noteq> flush_id) (ra_pending r)\<rparr>"

section \<open>What is held\<close>

text \<open>The parts held for delivery, in a buffer or in the retry queue.\<close>

type_synonym held_part = "text_string \<times> u8 \<times> u8 \<times> text_string"

definition buffer_held :: "reassembly_key \<times> partial_message \<Rightarrow> held_part multiset" where
  "buffer_held kb = image_mset (\<lambda>(seq, txt). (fst (fst kb), seq, pm_total (snd kb), txt)) (mset (pm_parts (snd kb)))"

definition buffers_held :: "reassembly \<Rightarrow> held_part multiset" where
  "buffers_held r = \<Sum>\<^sub># (image_mset buffer_held (mset (ra_buffers r)))"

definition pending_held :: "reassembly \<Rightarrow> held_part multiset" where
  "pending_held r = image_mset (\<lambda>p. (qf_sender p, qf_sequence p, qf_total p, qf_text p)) (mset (ra_pending r))"

definition held_parts :: "reassembly \<Rightarrow> held_part multiset" where
  "held_parts r = buffers_held r + pending_held r"

definition buffer_ok :: "partial_message \<Rightarrow> bool" where
  "buffer_ok b \<longleftrightarrow> bt_inv (pm_parts b) \<and> list_all (\<lambda>(seq, _). 0 < seq \<and> seq \<le> pm_total b) (pm_parts b)"

definition ids_ok :: "reassembly \<Rightarrow> bool" where
  "ids_ok r \<longleftrightarrow> distinct (map qf_id (ra_pending r)) \<and> list_all (\<lambda>p. qf_id p \<le> ra_next_pending_id r) (ra_pending r)"

definition reassembly_inv :: "reassembly \<Rightarrow> bool" where
  "reassembly_inv r \<longleftrightarrow>
     hm_inv (ra_buffers r) \<and> distinct (ra_order r) \<and> set (ra_order r) = fst ` set (ra_buffers r) \<and>
     0 < ra_capacity r \<and> length (ra_buffers r) \<le> ra_capacity r \<and>
     list_all (\<lambda>(_, b). buffer_ok b) (ra_buffers r) \<and> ids_ok r"

lemma enqueue_parts_fields:
  "ra_buffers (enqueue_parts sender tot parts r) = ra_buffers r"
  "ra_order (enqueue_parts sender tot parts r) = ra_order r"
  "ra_capacity (enqueue_parts sender tot parts r) = ra_capacity r"
  by (induction sender tot parts r rule: enqueue_parts.induct) (simp_all add: Let_def)

lemma reassembly_update_order:
  "r\<lparr>ra_next_pending_id := n, ra_pending := ps, ra_order := ks\<rparr> = r\<lparr>ra_order := ks, ra_next_pending_id := n, ra_pending := ps\<rparr>"
  "r\<lparr>ra_buffers := bs, ra_order := ks\<rparr> = r\<lparr>ra_order := ks, ra_buffers := bs\<rparr>"
  by (rule reassembly.equality; simp)+

lemma enqueue_parts_order:
  "(enqueue_parts sender tot parts r)\<lparr>ra_order := order\<rparr> = enqueue_parts sender tot parts (r\<lparr>ra_order := order\<rparr>)"
  by (induction sender tot parts r rule: enqueue_parts.induct) (simp_all add: Let_def reassembly_update_order)

lemma enqueue_parts_pending:
  "pending_held (enqueue_parts sender tot parts r) =
     pending_held r + image_mset (\<lambda>(seq, txt). (sender, seq, tot, txt)) (mset parts)"
  by (induction sender tot parts r rule: enqueue_parts.induct) (simp_all add: Let_def pending_held_def)

lemma ids_ok_snoc:
  "ids_ok r \<Longrightarrow> qf_id p = Suc (ra_next_pending_id r) \<Longrightarrow>
   ids_ok (r\<lparr>ra_next_pending_id := Suc (ra_next_pending_id r), ra_pending := ra_pending r @ [p]\<rparr>)"
  by (force simp: ids_ok_def list_all_iff)

lemma enqueue_parts_ids: "ids_ok r \<Longrightarrow> ids_ok (enqueue_parts sender tot parts r)"
  by (induction sender tot parts r rule: enqueue_parts.induct) (simp_all add: Let_def ids_ok_snoc)

lemma buffers_held_remove:
  assumes "hm_inv (ra_buffers r)" "map_of (ra_buffers r) key = Some b"
  shows "buffers_held r = buffer_held (key, b) + buffers_held (r\<lparr>ra_buffers := hm_remove key (ra_buffers r)\<rparr>)"
  using mset_hm_remove [OF assms] by (simp add: buffers_held_def)

lemma give_up_buffer_eq:
  "map_of (ra_buffers r) key = Some b \<Longrightarrow>
   give_up_buffer r key =
     (enqueue_pending (r\<lparr>ra_buffers := hm_remove key (ra_buffers r)\<rparr>) (fst key) b)
       \<lparr>ra_order := filter (\<lambda>k. k \<noteq> key) (ra_order r)\<rparr>"
  by (simp add: give_up_buffer_def enqueue_pending_def enqueue_parts_fields)

lemma give_up_buffer_fields:
  assumes "map_of (ra_buffers r) key = Some b"
  shows "ra_buffers (give_up_buffer r key) = hm_remove key (ra_buffers r)"
    "ra_order (give_up_buffer r key) = filter (\<lambda>k. k \<noteq> key) (ra_order r)"
    "ra_capacity (give_up_buffer r key) = ra_capacity r"
    "held_parts (give_up_buffer r key) =
       held_parts (r\<lparr>ra_buffers := hm_remove key (ra_buffers r)\<rparr>) + buffer_held (key, b)"
proof -
  let ?r = "r\<lparr>ra_buffers := hm_remove key (ra_buffers r)\<rparr>"
  show "ra_buffers (give_up_buffer r key) = hm_remove key (ra_buffers r)"
    "ra_order (give_up_buffer r key) = filter (\<lambda>k. k \<noteq> key) (ra_order r)"
    "ra_capacity (give_up_buffer r key) = ra_capacity r"
    using assms by (simp_all add: give_up_buffer_eq enqueue_pending_def enqueue_parts_fields)
  have "pending_held (give_up_buffer r key) = pending_held (enqueue_parts (fst key) (pm_total b) (pm_parts b) ?r)"
    using assms by (simp add: give_up_buffer_eq enqueue_pending_def pending_held_def)
  then show "held_parts (give_up_buffer r key) = held_parts ?r + buffer_held (key, b)"
    using assms
    by (simp add: held_parts_def enqueue_parts_pending buffer_held_def buffers_held_def give_up_buffer_eq
        enqueue_pending_def enqueue_parts_fields pending_held_def [of ?r] pending_held_def [of r])
qed

lemma held_give_up_buffer:
  assumes "hm_inv (ra_buffers r)"
  shows "held_parts (give_up_buffer r key) = held_parts r"
proof (cases "map_of (ra_buffers r) key")
  case None
  then show ?thesis by (simp add: give_up_buffer_def held_parts_def buffers_held_def pending_held_def)
next
  case (Some b)
  then show ?thesis
    using buffers_held_remove [OF assms Some] give_up_buffer_fields(4) [OF Some]
    by (simp add: held_parts_def pending_held_def)
qed

lemma ids_ok_give_up: "ids_ok r \<Longrightarrow> ids_ok (give_up_buffer r key)"
  using enqueue_parts_ids [of "r\<lparr>ra_buffers := hm_remove key (ra_buffers r)\<rparr>"]
  by (auto simp: give_up_buffer_def enqueue_pending_def ids_ok_def Let_def split: option.split)

lemma reassembly_inv_give_up [step_inv]:
  assumes "reassembly_inv r"
  shows "reassembly_inv (give_up_buffer r key)"
proof (cases "map_of (ra_buffers r) key")
  case None
  then have "filter (\<lambda>k. k \<noteq> key) (ra_order r) = ra_order r"
    using assms by (auto simp: filter_id_conv reassembly_inv_def map_of_eq_None_iff)
  with None assms show ?thesis by (simp add: give_up_buffer_def)
next
  case (Some b)
  have "hm_inv (ra_buffers r)" using assms by (simp add: reassembly_inv_def)
  note del = hm_remove_props [OF this, where k = key]
  show ?thesis
    using assms Some del ids_ok_give_up [of r key] unfolding reassembly_inv_def
    by (auto simp: give_up_buffer_fields intro: le_trans)
qed

lemma evict_oldest_eq:
  assumes "reassembly_inv r"
  shows "evict_oldest r = (if ra_capacity r \<le> length (ra_buffers r) then give_up_buffer r (hd (ra_order r)) else r)"
proof (cases "ra_order r")
  case Nil
  then have "ra_buffers r = []" using assms by (simp add: reassembly_inv_def)
  with Nil assms show ?thesis by (simp add: evict_oldest_def reassembly_inv_def)
next
  case (Cons k order)
  then have "filter (\<lambda>j. j \<noteq> k) order = order"
    using assms by (auto simp: reassembly_inv_def filter_id_conv)
  with Cons show ?thesis
    by (auto simp: evict_oldest_def give_up_buffer_def Let_def enqueue_pending_def enqueue_parts_fields
        enqueue_parts_order reassembly_update_order split: option.split)
qed

lemma evict_oldest_props:
  assumes "reassembly_inv r"
  shows "reassembly_inv (evict_oldest r)" "held_parts (evict_oldest r) = held_parts r"
    "length (ra_buffers (evict_oldest r)) < ra_capacity (evict_oldest r)"
    "fst ` set (ra_buffers (evict_oldest r)) \<subseteq> fst ` set (ra_buffers r)"
    "ra_capacity (evict_oldest r) = ra_capacity r"
proof -
  have hm: "hm_inv (ra_buffers r)" using assms by (simp add: reassembly_inv_def)
  show "reassembly_inv (evict_oldest r)" "held_parts (evict_oldest r) = held_parts r"
    using assms hm by (simp_all add: evict_oldest_eq step_inv held_give_up_buffer)
  show "length (ra_buffers (evict_oldest r)) < ra_capacity (evict_oldest r)"
    "fst ` set (ra_buffers (evict_oldest r)) \<subseteq> fst ` set (ra_buffers r)"
    "ra_capacity (evict_oldest r) = ra_capacity r"
  proof (atomize (full), cases "ra_capacity r \<le> length (ra_buffers r)")
    case True
    then have "ra_order r \<noteq> []" using assms by (auto simp: reassembly_inv_def)
    then have "hd (ra_order r) \<in> fst ` set (ra_buffers r)"
      using assms hd_in_set by (fastforce simp: reassembly_inv_def)
    then obtain b where b: "map_of (ra_buffers r) (hd (ra_order r)) = Some b"
      by (metis map_of_eq_None_iff not_None_eq)
    have "length (hm_remove (hd (ra_order r)) (ra_buffers r)) < length (ra_buffers r)"
      using hm_remove_props(5) [OF hm] \<open>hd (ra_order r) \<in> _\<close> .
    moreover have "length (ra_buffers r) \<le> ra_capacity r" using assms by (simp add: reassembly_inv_def)
    ultimately show "length (ra_buffers (evict_oldest r)) < ra_capacity (evict_oldest r) \<and>
      fst ` set (ra_buffers (evict_oldest r)) \<subseteq> fst ` set (ra_buffers r) \<and>
      ra_capacity (evict_oldest r) = ra_capacity r"
      using assms True b hm_remove_props(2) [OF hm] by (auto simp: evict_oldest_eq give_up_buffer_fields)
  next
    case False
    then show "length (ra_buffers (evict_oldest r)) < ra_capacity (evict_oldest r) \<and>
      fst ` set (ra_buffers (evict_oldest r)) \<subseteq> fst ` set (ra_buffers r) \<and>
      ra_capacity (evict_oldest r) = ra_capacity r"
      using assms by (simp add: evict_oldest_eq)
  qed
qed

text \<open>The parts buffered for an identity.\<close>

definition parts_of :: "reassembly \<Rightarrow> reassembly_key \<Rightarrow> (u8, text_string) btree_map" where
  "parts_of r key = (case map_of (ra_buffers r) key of None \<Rightarrow> [] | Some b \<Rightarrow> pm_parts b)"

definition total_fits :: "reassembly \<Rightarrow> reassembly_key \<Rightarrow> u8 \<Rightarrow> bool" where
  "total_fits r key tot \<longleftrightarrow> (case map_of (ra_buffers r) key of None \<Rightarrow> True | Some b \<Rightarrow> pm_total b = tot)"

lemma open_buffer_props:
  assumes "reassembly_inv r" "total_fits r key tot"
  shows "reassembly_inv (open_buffer r key tot now)" "held_parts (open_buffer r key tot now) = held_parts r"
    "\<exists>b. map_of (ra_buffers (open_buffer r key tot now)) key = Some b \<and> pm_total b = tot \<and> pm_parts b = parts_of r key"
proof (atomize (full), cases "map_of (ra_buffers r) key")
  case (Some b)
  with assms show "reassembly_inv (open_buffer r key tot now) \<and> held_parts (open_buffer r key tot now) = held_parts r \<and>
    (\<exists>b. map_of (ra_buffers (open_buffer r key tot now)) key = Some b \<and> pm_total b = tot \<and> pm_parts b = parts_of r key)"
    by (simp add: open_buffer_def total_fits_def parts_of_def)
next
  case None
  let ?e = "evict_oldest r" and ?b = "\<lparr>pm_total = tot, pm_parts = [], pm_last_updated = now\<rparr>"
  note e = evict_oldest_props [OF assms(1)]
  have hm: "hm_inv (ra_buffers ?e)" using e(1) by (simp add: reassembly_inv_def)
  have fresh: "key \<notin> fst ` set (ra_buffers ?e)" using None e(4) by (auto simp: map_of_eq_None_iff)
  have o: "open_buffer r key tot now =
      ?e\<lparr>ra_buffers := hm_insert key ?b (ra_buffers ?e), ra_order := ra_order ?e @ [key]\<rparr>"
    using None by (simp add: open_buffer_def Let_def)
  have "mset (hm_insert key ?b (ra_buffers ?e)) = add_mset (key, ?b) (mset (ra_buffers ?e))"
    using fresh by (simp add: mset_hm_insert [OF hm] AList.delete_id)
  then have "held_parts (open_buffer r key tot now) = held_parts ?e"
    unfolding o by (simp add: held_parts_def buffers_held_def buffer_held_def pending_held_def)
  moreover have "reassembly_inv (open_buffer r key tot now)"
    using e(1,3) fresh hm_insert_props [OF hm, where k = key and v = ?b] unfolding o reassembly_inv_def
    by (auto simp: ids_ok_def buffer_ok_def bt_inv_def)
  ultimately show "reassembly_inv (open_buffer r key tot now) \<and> held_parts (open_buffer r key tot now) = held_parts r \<and>
    (\<exists>b. map_of (ra_buffers (open_buffer r key tot now)) key = Some b \<and> pm_total b = tot \<and> pm_parts b = parts_of r key)"
    using e(2) None by (simp add: o parts_of_def update_conv')
qed

lemma fill_position_props:
  fixes now :: instant
  assumes "reassembly_inv r" "map_of (ra_buffers r) key = Some b" "0 < sq" "sq \<le> pm_total b"
    "map_of (pm_parts b) sq = None \<or> map_of (pm_parts b) sq = Some t"
  defines "parts \<equiv> bt_insert sq t (pm_parts b)"
  defines "r' \<equiv> r\<lparr>ra_buffers := hm_insert key (b\<lparr>pm_parts := parts, pm_last_updated := now\<rparr>) (ra_buffers r)\<rparr>"
  shows "fill_position r key sq t now =
      Some (if length parts = unat (pm_total b) then Complete (concat (map snd parts)) else Pending, r')"
    "reassembly_inv r'"
    "held_parts r' = held_parts r + (if map_of (pm_parts b) sq = None then {#(fst key, sq, pm_total b, t)#} else {#})"
proof -
  show "fill_position r key sq t now =
      Some (if length parts = unat (pm_total b) then Complete (concat (map snd parts)) else Pending, r')"
    using assms(2) by (simp add: fill_position_def parts_def r'_def Let_def)
  let ?b = "b\<lparr>pm_parts := parts, pm_last_updated := now\<rparr>"
  have hm: "hm_inv (ra_buffers r)" using assms(1) by (simp add: reassembly_inv_def)
  have "(key, b) \<in> set (ra_buffers r)" using assms(2) by (rule map_of_SomeD)
  then have ok: "buffer_ok b" "key \<in> fst ` set (ra_buffers r)"
    using assms(1) by (force simp: reassembly_inv_def list_all_iff)+
  have "list_all (\<lambda>(q, _). 0 < q \<and> q \<le> pm_total b) parts"
  proof (cases "map_of (pm_parts b) sq")
    case None
    then show ?thesis using ok(1) assms(3,4) by (simp add: parts_def list_all_iff set_bt_insert_fresh buffer_ok_def)
  next
    case (Some v)
    then show ?thesis using ok(1) assms(5) by (simp add: parts_def buffer_ok_def bt_insert_same)
  qed
  then have "buffer_ok ?b" using ok(1) by (simp add: buffer_ok_def parts_def bt_inv_insert)
  then show "reassembly_inv r'"
    using assms(1) ok(2) hm_insert_props [OF hm, where k = key and v = ?b] unfolding r'_def reassembly_inv_def
    by (auto simp: ids_ok_def)
  have "buffer_held (key, ?b) = buffer_held (key, b) +
      (if map_of (pm_parts b) sq = None then {#(fst key, sq, pm_total b, t)#} else {#})"
    using assms(5) ok(1)
    by (cases "map_of (pm_parts b) sq")
      (auto simp: buffer_held_def parts_def mset_bt_insert_fresh bt_insert_same buffer_ok_def)
  then show "held_parts r' = held_parts r + (if map_of (pm_parts b) sq = None then {#(fst key, sq, pm_total b, t)#} else {#})"
    using mset_hm_remove [OF hm assms(2)] mset_hm_insert [OF hm, of key ?b]
    by (simp add: r'_def held_parts_def buffers_held_def pending_held_def)
qed

lemma reuse_check_props:
  assumes "reassembly_inv r" "total_fits r key tot"
  shows "reassembly_inv (reuse_check r key sq t)" "held_parts (reuse_check r key sq t) = held_parts r"
    "total_fits (reuse_check r key sq t) key tot"
    "parts_of (reuse_check r key sq t) key =
      (if map_of (parts_of r key) sq = None \<or> map_of (parts_of r key) sq = Some t then parts_of r key else [])"
proof -
  have hm: "hm_inv (ra_buffers r)" using assms(1) by (simp add: reassembly_inv_def)
  show "reassembly_inv (reuse_check r key sq t)" "held_parts (reuse_check r key sq t) = held_parts r"
    using assms(1) hm by (auto simp: reuse_check_def step_inv held_give_up_buffer split: option.split)
  show "total_fits (reuse_check r key sq t) key tot"
    "parts_of (reuse_check r key sq t) key =
      (if map_of (parts_of r key) sq = None \<or> map_of (parts_of r key) sq = Some t then parts_of r key else [])"
    using assms(2)
    by (auto simp: reuse_check_def total_fits_def parts_of_def give_up_buffer_fields delete_conv' split: option.split)
qed

text \<open>A part that is not malformed never panics and is held afterwards: beside everything held
  before, unless it is a retransmission of a part already in the buffer.\<close>

definition part_ok :: "reassembly \<Rightarrow> text_string \<Rightarrow> concat_part \<Rightarrow> bool" where
  "part_ok r sender part \<longleftrightarrow>
     0 < cp_sequence part \<and> cp_sequence part \<le> cp_total part \<and> total_fits r (sender, cp_reference part) (cp_total part)"

lemma admit_part_Malformed:
  "\<not> part_ok r sender part \<Longrightarrow> admit_part r sender part t now = Some (Malformed, r)"
  by (auto simp: admit_part_def part_ok_def total_fits_def Let_def word_gt_0 split: option.split)

lemma admit_part_props:
  fixes t :: text_string
  assumes "reassembly_inv r" "part_ok r sender part"
  defines "key \<equiv> (sender, cp_reference part)"
  defines "old \<equiv> parts_of r key"
  defines "kept \<equiv> (if map_of old (cp_sequence part) = None \<or> map_of old (cp_sequence part) = Some t then old else [])"
  defines "parts \<equiv> bt_insert (cp_sequence part) t kept"
  shows "\<exists>r'. admit_part r sender part t now =
      Some (if length parts = unat (cp_total part) then Complete (concat (map snd parts)) else Pending, r') \<and>
    reassembly_inv r' \<and> parts_of r' key = parts \<and> total_fits r' key (cp_total part) \<and>
    held_parts r' = held_parts r + (if map_of old (cp_sequence part) = Some t then {#}
                                    else {#(sender, cp_sequence part, cp_total part, t)#})"
proof -
  let ?r1 = "reuse_check r key (cp_sequence part) t"
  let ?r2 = "open_buffer ?r1 key (cp_total part) now"
  have fits: "total_fits r key (cp_total part)" using assms(2) by (simp add: part_ok_def key_def)
  note 1 = reuse_check_props [OF assms(1) fits, where sq = "cp_sequence part" and t = t]
  note 2 = open_buffer_props [OF 1(1) 1(3), where now = now]
  obtain b where b: "map_of (ra_buffers ?r2) key = Some b" "pm_total b = cp_total part" "pm_parts b = kept"
    using 2(3) 1(4) unfolding kept_def old_def by metis
  have "map_of kept (cp_sequence part) = None \<or> map_of kept (cp_sequence part) = Some t"
    unfolding kept_def by auto
  note 3 = fill_position_props [OF 2(1) b(1), of "cp_sequence part" t now, unfolded b(2,3), OF _ _ this]
  have new: "map_of kept (cp_sequence part) = None \<longleftrightarrow> map_of old (cp_sequence part) \<noteq> Some t"
    unfolding kept_def by auto
  have "admit_part r sender part t now = fill_position ?r2 key (cp_sequence part) t now"
    using assms(2) fits by (auto simp: admit_part_def part_ok_def total_fits_def key_def Let_def word_gt_0 split: option.splits)
  with 1(2) 2(2) 3 assms(2) new b(2) show ?thesis
    by (intro exI) (auto simp: part_ok_def parts_def parts_of_def total_fits_def update_conv' key_def)
qed

lemma fold_give_up:
  "reassembly_inv r \<Longrightarrow> reassembly_inv (fold (\<lambda>key r. give_up_buffer r key) keys r) \<and>
     held_parts (fold (\<lambda>key r. give_up_buffer r key) keys r) = held_parts r"
proof (induction keys arbitrary: r)
  case (Cons key keys)
  have "hm_inv (ra_buffers r)" using Cons.prems by (simp add: reassembly_inv_def)
  then show ?case using Cons by (simp add: step_inv held_give_up_buffer)
qed simp

lemma expire_due_inv [step_inv]: "reassembly_inv r \<Longrightarrow> reassembly_inv (expire_due r now)"
  unfolding expire_due_def Let_def using fold_give_up by blast

lemma held_expire_due: "reassembly_inv r \<Longrightarrow> held_parts (expire_due r now) = held_parts r"
  unfolding expire_due_def Let_def using fold_give_up by blast

lemma fold_give_up_buffers:
  "ra_buffers (fold (\<lambda>key r. give_up_buffer r key) keys r) = fold hm_remove keys (ra_buffers r)"
proof (induction keys arbitrary: r)
  case (Cons key keys)
  have "ra_buffers (give_up_buffer r key) = hm_remove key (ra_buffers r)"
  proof (cases "map_of (ra_buffers r) key")
    case None
    moreover from this have "key \<notin> fst ` set (ra_buffers r)" by (simp add: map_of_eq_None_iff)
    ultimately show ?thesis by (simp add: give_up_buffer_def AList.delete_id)
  qed (simp add: give_up_buffer_fields)
  with Cons show ?case by simp
qed simp

lemma set_fold_hm_remove: "set (fold hm_remove keys m) = {e \<in> set m. fst e \<notin> set keys}"
  by (induction keys arbitrary: m) (auto simp: AList.delete_eq)

text \<open>Expiry leaves no buffer that has waited the timeout.\<close>

lemma expire_due_complete:
  "(key, b) \<in> set (ra_buffers (expire_due r now)) \<Longrightarrow> now - pm_last_updated b < REASSEMBLY_TIMEOUT"
  unfolding expire_due_def Let_def fold_give_up_buffers set_fold_hm_remove by force

lemma mark_delivered_held:
  assumes "reassembly_inv r" "map_of (ra_buffers r) (sender, cp_reference part) = Some b"
  shows "held_parts r = held_parts (mark_delivered r sender part) + buffer_held ((sender, cp_reference part), b)"
proof -
  have "hm_inv (ra_buffers r)" using assms(1) by (simp add: reassembly_inv_def)
  from buffers_held_remove [OF this assms(2)] show ?thesis
    by (simp add: held_parts_def mark_delivered_def Let_def buffers_held_def pending_held_def)
qed

lemma mark_delivered_inv [step_inv]:
  assumes "reassembly_inv r"
  shows "reassembly_inv (mark_delivered r sender part)"
proof -
  have "hm_inv (ra_buffers r)" using assms by (simp add: reassembly_inv_def)
  note del = hm_remove_props [OF this, where k = "(sender, cp_reference part)"]
  show ?thesis
    using assms del unfolding reassembly_inv_def mark_delivered_def Let_def
    by (auto simp: ids_ok_def intro: le_trans)
qed

lemma mark_flush_delivered_inv [step_inv]: "reassembly_inv r \<Longrightarrow> reassembly_inv (mark_flush_delivered r n)"
  by (auto simp: reassembly_inv_def mark_flush_delivered_def ids_ok_def list_all_iff distinct_map_filter)

lemma reassembly_inv_new [simp]: "reassembly_inv (reassembly_new capacity)"
  by (simp add: reassembly_inv_def reassembly_new_def ids_ok_def hm_inv_def)

lemma reassembly_new_empty [simp]: "ra_buffers (reassembly_new capacity) = []" "held_parts (reassembly_new capacity) = {#}"
  by (simp_all add: reassembly_new_def held_parts_def buffers_held_def pending_held_def)

section \<open>Admitting a whole message\<close>

fun admit_all :: "reassembly \<Rightarrow> text_string \<Rightarrow> u16 \<Rightarrow> u8 \<Rightarrow> (u8 \<times> text_string \<times> instant) list \<Rightarrow> (part_outcome list \<times> reassembly) option" where
  "admit_all r sender reference tot [] = Some ([], r)"
| "admit_all r sender reference tot ((sq, t, now) # ps) =
     (case admit_part r sender \<lparr>cp_reference = reference, cp_sequence = sq, cp_total = tot\<rparr> t now of
        None \<Rightarrow> None
      | Some (outcome, r) \<Rightarrow>
          map_option (\<lambda>(outcomes, r). (outcome # outcomes, r)) (admit_all r sender reference tot ps))"

definition text_at :: "(u8 \<times> text_string \<times> instant) list \<Rightarrow> u8 \<Rightarrow> text_string" where
  "text_at ps sq = (case map_of ps sq of Some (t, _) \<Rightarrow> t | None \<Rightarrow> [])"

lemma length_bt_insert_fresh: "map_of m k = None \<Longrightarrow> length (bt_insert k v m) = Suc (length m)"
  by (metis mset_bt_insert_fresh size_add_mset size_mset)

lemma admit_all_parts:
  assumes "reassembly_inv r" "total_fits r (sender, ref) tot" "bt_inv (parts_of r (sender, ref))" "ps \<noteq> []"
    "distinct (map fst ps)" "\<forall>p\<in>set ps. 0 < fst p \<and> fst p \<le> tot \<and> map_of (parts_of r (sender, ref)) (fst p) = None"
    "length (parts_of r (sender, ref)) + length ps = unat tot"
  shows "\<exists>r' parts. admit_all r sender ref tot ps =
      Some (replicate (length ps - 1) Pending @ [Complete (concat (map snd parts))], r') \<and>
    bt_inv parts \<and> map_of parts = map_of (parts_of r (sender, ref)) ++ map_of (map (\<lambda>(sq, t, _). (sq, t)) ps)"
  using assms
proof (induction ps arbitrary: r)
  case (Cons p ps)
  obtain sq t now where p: "p = (sq, t, now)" by (cases p)
  let ?key = "(sender, ref)"
  let ?part = "\<lparr>cp_reference = ref, cp_sequence = sq, cp_total = tot\<rparr>"
  let ?parts = "bt_insert sq t (parts_of r ?key)"
  have fresh: "map_of (parts_of r ?key) sq = None" using Cons.prems(6) p by simp
  have "part_ok r sender ?part" using Cons.prems(2,6) p by (simp add: part_ok_def)
  from admit_part_props [OF Cons.prems(1) this, of t now] fresh
  obtain r1 where r1: "admit_part r sender ?part t now =
      Some (if length ?parts = unat tot then Complete (concat (map snd ?parts)) else Pending, r1)"
    "reassembly_inv r1" "parts_of r1 ?key = ?parts" "total_fits r1 ?key tot" by auto
  have len: "length ?parts = Suc (length (parts_of r ?key))" using fresh by (rule length_bt_insert_fresh)
  have map1: "map_of ?parts = (map_of (parts_of r ?key))(sq \<mapsto> t)" using Cons.prems(3) by (rule map_of_bt_insert)
  have bt1: "bt_inv ?parts" using Cons.prems(3) by (rule bt_inv_insert)
  show ?case
  proof (cases "ps = []")
    case True
    with Cons.prems(7) len r1 map1 bt1 p show ?thesis
      by (intro exI [of _ r1] exI [of _ ?parts]) (auto simp: fun_eq_iff map_add_def)
  next
    case False
    then have pending: "length ?parts \<noteq> unat tot" using Cons.prems(7) len by (cases ps) simp_all
    have "\<exists>r' parts. admit_all r1 sender ref tot ps =
        Some (replicate (length ps - 1) Pending @ [Complete (concat (map snd parts))], r') \<and>
      bt_inv parts \<and> map_of parts = map_of (parts_of r1 ?key) ++ map_of (map (\<lambda>(sq, t, _). (sq, t)) ps)"
      using Cons.prems p r1 bt1 map1 len False by (intro Cons.IH) auto
    then obtain r' parts where rest: "admit_all r1 sender ref tot ps =
        Some (replicate (length ps - 1) Pending @ [Complete (concat (map snd parts))], r')"
      "bt_inv parts" "map_of parts = map_of ?parts ++ map_of (map (\<lambda>(sq, t, _). (sq, t)) ps)"
      unfolding r1(3) by blast
    have "sq \<notin> dom (map_of (map (\<lambda>(sq, t, _). (sq, t)) ps))"
      using Cons.prems(5) p unfolding dom_map_of_conv_image_fst by force
    then have joined: "map_of parts = map_of (parts_of r ?key) ++ map_of (map (\<lambda>(sq, t, _). (sq, t)) (p # ps))"
      unfolding rest(3) map1 p by (simp add: map_add_upd_left)
    have "replicate (length ps) Pending = Pending # replicate (length ps - 1) Pending"
      using False by (cases ps) simp_all
    then have "admit_all r sender ref tot (p # ps) =
        Some (replicate (length (p # ps) - 1) Pending @ [Complete (concat (map snd parts))], r')"
      using rest(1) r1(1) pending p by simp
    with rest(2) joined show ?thesis by blast
  qed
qed simp

lemma bt_entries_in_order:
  assumes "bt_inv m" "bt_inv m'" "map_of m = map_of m'"
  shows "m = m'"
proof -
  have "sorted (map fst m) \<and> distinct (map fst m)" "sorted (map fst m') \<and> distinct (map fst m')"
    using assms(1,2) by (simp_all add: bt_inv_def strict_sorted_iff)
  moreover have "set (map fst m) = set (map fst m')"
    using assms(3) by (metis dom_map_of_conv_image_fst list.set_map)
  ultimately have "map fst m = map fst m'" by (metis sorted_distinct_set_unique)
  moreover have "map snd m = map (\<lambda>k. the (map_of m k)) (map fst m)" if "bt_inv m" for m :: "('a, 'b) btree_map"
    using bt_inv_distinct [OF that] map_of_is_SomeI by fastforce
  ultimately show ?thesis using assms by (metis zip_map_fst_snd)
qed

lemma bt_inv_positions:
  "n < 256 \<Longrightarrow> bt_inv (map (\<lambda>i. (word_of_nat i :: u8, f i)) [1..<Suc n])"
proof -
  assume n: "n < 256"
  have "sorted_wrt (<) (map (word_of_nat :: nat \<Rightarrow> u8) [1..<Suc n])"
    unfolding sorted_wrt_map
    by (rule sorted_wrt_mono_rel [OF _ sorted_wrt_upt])
      (use n in \<open>auto simp: word_less_nat_alt unat_word_of_nat_u8 simp del: upt_Suc\<close>)
  then show ?thesis by (simp add: bt_inv_def o_def)
qed

lemma u8_positions: "set (map (word_of_nat :: nat \<Rightarrow> u8) [1..<Suc (unat tot)]) = {1..tot}"
proof (intro set_eqI iffI)
  fix x assume "x \<in> {1..tot}"
  then have "unat x \<in> {1..unat tot}" by (simp add: word_le_nat_alt)
  moreover have "x = word_of_nat (unat x)" by simp
  ultimately show "x \<in> set (map word_of_nat [1..<Suc (unat tot)])"
    by (metis (no_types, lifting) atLeastAtMost_upt image_eqI list.set_map)
next
  fix x :: u8 assume "x \<in> set (map word_of_nat [1..<Suc (unat tot)])"
  then obtain i where "x = word_of_nat i" "1 \<le> i" "i \<le> unat tot" by (auto simp del: upt_Suc)
  moreover from this have "unat x = i"
    using u8_less_256 [of tot] by (metis le_less_trans unat_word_of_nat_u8)
  ultimately show "x \<in> {1..tot}" by (simp add: word_le_nat_alt)
qed

lemma reassembled:
  assumes "reassembly_inv r" "map_of (ra_buffers r) (sender, ref) = None" "distinct (map fst ps)"
    "set (map fst ps) = {1..tot}" "tot \<noteq> 0"
  shows "\<exists>r'. admit_all r sender ref tot ps =
    Some (replicate (unat tot - 1) Pending @
          [Complete (concat (map (\<lambda>i. text_at ps (word_of_nat i)) [1..<Suc (unat tot)]))], r')"
proof -
  let ?n = "unat tot"
  let ?m = "map (\<lambda>i. (word_of_nat i :: u8, text_at ps (word_of_nat i))) [1..<Suc ?n]"
  have m: "bt_inv ?m" by (rule bt_inv_positions) simp
  have keys: "map fst ?m = map word_of_nat [1..<Suc ?n]" by simp
  have "length ps = card {1..tot}" using assms(3,4) distinct_card [of "map fst ps"] by simp
  moreover have "length ?m = card {1..tot}"
    using bt_inv_distinct [OF m] distinct_card [of "map fst ?m"] unfolding keys u8_positions by (simp del: upt_Suc)
  ultimately have card: "length ps = ?n" by (simp del: upt_Suc)
  have "ps \<noteq> []" using card assms(5) by (auto simp: unat_eq_zero)
  moreover have "0 < fst p \<and> fst p \<le> tot" if "p \<in> set ps" for p
  proof -
    have "fst p \<in> {1..tot}" using assms(4) that by force
    then show ?thesis by (auto simp: word_le_nat_alt word_less_nat_alt)
  qed
  ultimately obtain r' parts where a: "admit_all r sender ref tot ps =
      Some (replicate (length ps - 1) Pending @ [Complete (concat (map snd parts))], r')"
    "bt_inv parts" "map_of parts = map_of (map (\<lambda>(sq, t, _). (sq, t)) ps)"
    using admit_all_parts [of r sender ref tot ps] assms card
    by (auto simp: parts_of_def total_fits_def bt_inv_def)
  have "map_of ?m x = map_of (map (\<lambda>(sq, t, _). (sq, t)) ps) x" for x
  proof (cases "x \<in> {1..tot}")
    case True
    then have "(x, text_at ps x) \<in> set ?m" unfolding u8_positions [symmetric] by auto
    then have "map_of ?m x = Some (text_at ps x)" using bt_inv_distinct [OF m] by (intro map_of_is_SomeI)
    moreover have "x \<in> fst ` set ps" using True assms(4) by simp
    then obtain t now where "map_of ps x = Some (t, now)"
      by (metis map_of_eq_None_iff not_None_eq prod.exhaust)
    moreover have "map_of (map (\<lambda>(sq, t, _). (sq, t)) ps) x = map_option fst (map_of ps x)"
      by (induction ps) auto
    ultimately show ?thesis by (simp add: text_at_def)
  next
    case False
    then have "map_of ?m x = None"
      unfolding map_of_eq_None_iff u8_positions [symmetric] by (simp add: image_image del: upt_Suc)
    moreover have "map_of (map (\<lambda>(sq, t, _). (sq, t)) ps) x = None"
      using False assms(4) unfolding map_of_eq_None_iff by force
    ultimately show ?thesis by simp
  qed
  then have "map_of parts = map_of ?m" unfolding a(3) by (intro ext) (rule sym)
  then have "parts = ?m" by (rule bt_entries_in_order [OF a(2) m])
  then show ?thesis using a(1) card by (auto simp: o_def simp del: upt_Suc)
qed

section \<open>Properties\<close>

text \<open>
  C21: The parts of a message are reassembled whatever order they arrive in. When no part of it is
  buffered, admitting parts 1 to the total in any order reports every part but the last as pending
  and the last as complete, with the texts joined in sequence order.
\<close>

theorem reassembly_any_order:
  assumes "reassembly_inv r" "map_of (ra_buffers r) (sender, ref) = None" "distinct (map fst ps)"
    "set (map fst ps) = {1..tot}" "tot \<noteq> 0"
  shows "\<exists>r'. admit_all r sender ref tot ps =
    Some (replicate (unat tot - 1) Pending @
          [Complete (concat (map (\<lambda>i. text_at ps (word_of_nat i)) [1..<Suc (unat tot)]))], r')"
  using assms by (rule reassembled)

lemma u8_upto_2: "{1..2 :: u8} = {1, 2}"
  using u8_positions [of 2] by (simp add: upt_conv_Cons insert_commute)

theorem reassembly_any_order_witness:
  "\<exists>r'. admit_all (reassembly_new 64) [43] 7 2 [(2, [66], 5), (1, [65], 9)] =
    Some ([Pending, Complete [65, 66]], r')"
  using reassembly_any_order [of "reassembly_new 64" "[43]" 7 "[(2, [66], 5), (1, [65], 9)]" 2]
  by (simp add: u8_upto_2 text_at_def upt_conv_Cons insert_commute)

text \<open>
  No part is lost. Admitting a well-formed part never panics and keeps the invariant; afterwards
  the buffers and the retry queue together hold exactly what they held before and the new part (once,
  if it is a retransmission of a buffered part), even when room had to be made or a reused reference
  displaced a buffer, and a later expiry moves parts to the queue without losing any.
\<close>

theorem reassembly_keeps_parts:
  assumes "reassembly_inv r" "part_ok r sender part"
  shows "\<exists>outcome r'. admit_part r sender part t now = Some (outcome, r') \<and> outcome \<noteq> Malformed \<and>
    reassembly_inv r' \<and> reassembly_inv (expire_due r' later) \<and>
    held_parts (expire_due r' later) = held_parts r +
      (if map_of (parts_of r (sender, cp_reference part)) (cp_sequence part) = Some t then {#}
       else {#(sender, cp_sequence part, cp_total part, t)#})"
  using admit_part_props [OF assms, of t now] held_expire_due expire_due_inv by (auto split: if_splits)

theorem reassembly_keeps_parts_witness:
  "\<exists>outcome r'. admit_part (reassembly_new 1) [43] \<lparr>cp_reference = 7, cp_sequence = 1, cp_total = 2\<rparr> [65] 0 =
    Some (outcome, r') \<and> held_parts (expire_due r' (secs 200)) = {#([43], 1, 2, [65])#}"
  using reassembly_keeps_parts [of "reassembly_new 1" "[43]" "\<lparr>cp_reference = 7, cp_sequence = 1, cp_total = 2\<rparr>" "[65]" 0 "secs 200"]
  by (auto simp: part_ok_def total_fits_def parts_of_def)

end
