(* ===== verification/Sms_Inbound.thy ===== *)
theory Sms_Inbound
  imports Ims_Session Mime_Body Sms_Pdu Sms_Dedupe Sms_Reassembly
begin

text \<open>
  An inbound \<open>MESSAGE\<close> from the carrier (\<^verbatim>\<open>ims/agent/mod.rs\<close>: \<open>handle_message\<close> and what it calls): the body
  is decoded, duplicates of the other route are suppressed, parts are reassembled, the text is handed
  to the recording half, and only then is the network answered, with a \<open>200 OK\<close> and a delivery report
  of its own. The handler's state is the shared stores, the reports in flight and the session; what it
  does to the outside is a list of actions in the order of the code. The store of claims is shared with
  the modem sweep: \<open>me_meanwhile\<close> is what the other route does to it between the two times the handler
  takes its lock.
\<close>

section \<open>Reading the request\<close>

definition SUPPORTED_MESSAGE_CONTENT_TYPES :: "text_string list" where
  "SUPPORTED_MESSAGE_CONTENT_TYPES = [lit ''application/vnd.3gpp.sms'', lit ''text/plain'']"

definition message_content_type_supported :: "sip_request \<Rightarrow> bool" where
  "message_content_type_supported req \<longleftrightarrow>
     (case header req (lit ''Content-Type'') of
        None \<Rightarrow> True
      | Some ct \<Rightarrow> (case media_type_parse ct of
                     Some mt \<Rightarrow> list_ex (media_is mt) SUPPORTED_MESSAGE_CONTENT_TYPES
                   | None \<Rightarrow> False))"

definition is_3gpp_sms :: "sip_request \<Rightarrow> bool" where
  "is_3gpp_sms req \<longleftrightarrow>
     (case header req (lit ''Content-Type'') of
        None \<Rightarrow> False
      | Some ct \<Rightarrow> (case media_type_parse ct of
                     Some mt \<Rightarrow> media_is mt (lit ''application/vnd.3gpp.sms'')
                   | None \<Rightarrow> False))"

definition decode_pdu_body :: "sip_request \<Rightarrow> decoded_rp option" where
  "decode_pdu_body req =
     (if \<not> is_3gpp_sms req then None
      else case decode_vnd_3gpp_sms (rq_body_bytes req) of Inr decoded \<Rightarrow> Some decoded | Inl _ \<Rightarrow> None)"

definition inbound_call_id :: "sip_request \<Rightarrow> text_string option" where
  "inbound_call_id req = header req (lit ''Call-ID'')"

definition report_address :: "sip_request \<Rightarrow> text_string option" where
  "report_address req =
     (case header_uri req (lit ''P-Asserted-Identity'') of Some u \<Rightarrow> Some u | None \<Rightarrow> header_uri req (lit ''From''))"

section \<open>Delivery reports in flight\<close>

definition REPORTS_IN_FLIGHT_CAP :: nat where
  "REPORTS_IN_FLIGHT_CAP = 32"

datatype report_answer =
    NotOurs | ReportPending | Accepted | Rejected text_string nat text_string "text_string option"

definition reports_record :: "text_string list \<Rightarrow> text_string option \<Rightarrow> text_string list" where
  "reports_record reports call_id =
     (case call_id of
        None \<Rightarrow> reports
      | Some cid \<Rightarrow> (if REPORTS_IN_FLIGHT_CAP \<le> length reports then tl reports else reports) @ [cid])"

text \<open>\<open>split_whitespace().nth(1)\<close> of a CSeq value.\<close>

definition cseq_method :: "text_string \<Rightarrow> text_string option" where
  "cseq_method cseq =
     (let rest = dropWhile (\<lambda>c. \<not> is_whitespace c) (trim_start cseq);
          word = takeWhile (\<lambda>c. \<not> is_whitespace c) (trim_start rest)
      in if word = [] then None else Some word)"

fun remove_first :: "'a \<Rightarrow> 'a list \<Rightarrow> 'a list" where
  "remove_first x [] = []"
| "remove_first x (y # ys) = (if y = x then ys else y # remove_first x ys)"

definition reports_on_response :: "text_string list \<Rightarrow> sip_response \<Rightarrow> report_answer \<times> text_string list" where
  "reports_on_response reports resp =
     (let is_message = (case response_header resp (lit ''CSeq'') of
            Some c \<Rightarrow> (case cseq_method c of Some m \<Rightarrow> eq_ignore_ascii_case m (lit ''MESSAGE'') | None \<Rightarrow> False)
          | None \<Rightarrow> False)
      in case response_header resp (lit ''Call-ID'') of
           None \<Rightarrow> (NotOurs, reports)
         | Some call_id \<Rightarrow>
             if \<not> is_message \<or> call_id \<notin> set reports then (NotOurs, reports)
             else if rs_status resp < 200 then (ReportPending, reports)
             else (if rs_status resp < 300 then Accepted
                   else Rejected call_id (rs_status resp) (rs_reason resp) (response_header resp (lit ''Warning'')),
                   remove_first call_id reports))"

section \<open>The handler\<close>

datatype message_action =
    Respond text_string
  | SendReport bytes
  | RelaySms text_string text_string text_string

record message_params =
  pr_sms_delivery_report :: bool
  pr_sms_report_pcscf_route :: bool

text \<open>What the outside contributes to one request: random strings, the answers of the sockets, the
  clock, and the other route's operations on the shared store.\<close>

record message_env =
  me_tag :: text_string
  me_ids :: fresh_ids
  me_sent :: bool
  me_relayed :: bool
  me_received_at :: text_string
  me_now :: instant
  me_meanwhile :: "dedupe \<Rightarrow> dedupe"

record message_state =
  ms_session :: registered_session
  ms_reports :: "text_string list"
  ms_dedupe :: dedupe
  ms_reassembly :: reassembly

type_synonym message_result = "(message_action list \<times> message_state) option"

definition send_report :: "message_params \<Rightarrow> message_env \<Rightarrow> sip_request \<Rightarrow> bytes \<Rightarrow> message_state \<Rightarrow> message_result" where
  "send_report p env req pdu st =
     (case report_address req of
        None \<Rightarrow> Some ([], st)
      | Some ipsmgw \<Rightarrow>
          map_option
            (\<lambda>(msg, call_id, session).
              ([SendReport msg], st\<lparr>ms_session := session, ms_reports := reports_record (ms_reports st) call_id\<rparr>))
            (send_sms_delivery_report (ms_session st) ipsmgw pdu (inbound_call_id req)
              (pr_sms_report_pcscf_route p) (me_ids env) (me_sent env)))"

definition respond_ok :: "message_env \<Rightarrow> sip_request \<Rightarrow> message_action" where
  "respond_ok env req = Respond (build_200_ok_message req (me_tag env))"

text \<open>Actions first, then the rest of the handler.\<close>

definition after :: "message_action list \<Rightarrow> message_result \<Rightarrow> message_result" where
  "after acts r = map_option (\<lambda>(acts', st). (acts @ acts', st)) r"

definition acknowledge ::
  "message_params \<Rightarrow> message_env \<Rightarrow> sip_request \<Rightarrow> decoded_sms option \<Rightarrow> bool \<Rightarrow> message_state \<Rightarrow> message_result" where
  "acknowledge p env req decoded send_delivery_report st =
     after [respond_ok env req]
       (case decoded of
          Some d \<Rightarrow> if send_delivery_report then send_report p env req (build_rp_ack (sms_rp_mr d)) st else Some ([], st)
        | None \<Rightarrow> Some ([], st))"

definition part_label :: "u8 \<Rightarrow> u8 \<Rightarrow> text_string \<Rightarrow> text_string" where
  "part_label seq tot t =
     [91] @ show_nat (unat seq) @ [47] @ show_nat (unat tot) @ [93, 32] @ t"

definition labelled_body :: "decoded_sms \<Rightarrow> text_string" where
  "labelled_body d =
     (case sms_part d of
        Some part \<Rightarrow> part_label (cp_sequence part) (cp_total part) (sms_text d)
      | None \<Rightarrow> sms_text d)"

definition over_registration :: "text_string \<Rightarrow> text_string \<Rightarrow> inbound_message" where
  "over_registration sender body =
     \<lparr>im_route = OverRegistration, im_sender = sender, im_body = body, im_modem_index = None\<rparr>"

text \<open>The last section of \<open>handle_message\<close>: the relay, and what its result settles.\<close>

definition relay_and_settle ::
  "message_params \<Rightarrow> message_env \<Rightarrow> sip_request \<Rightarrow> decoded_sms option \<Rightarrow> text_string \<Rightarrow> text_string \<Rightarrow> text_string \<Rightarrow>
   concat_part option \<Rightarrow> message_state \<Rightarrow> message_result" where
  "relay_and_settle p env req decoded sender key body completed_part st =
     after [RelaySms sender body (me_received_at env)]
       (let d = me_meanwhile env (ms_dedupe st)
        in if me_relayed env then
             (let st = st\<lparr>ms_dedupe := confirm d key\<rparr>;
                  st = (case completed_part of
                          Some part \<Rightarrow> st\<lparr>ms_reassembly := mark_delivered (ms_reassembly st) sender part\<rparr>
                        | None \<Rightarrow> st)
              in acknowledge p env req decoded (pr_sms_delivery_report p) st)
           else Some ([], st\<lparr>ms_dedupe := forget d key\<rparr>))"

definition handle_claimed ::
  "message_params \<Rightarrow> message_env \<Rightarrow> sip_request \<Rightarrow> decoded_sms option \<Rightarrow> text_string \<Rightarrow> text_string \<Rightarrow> text_string \<Rightarrow>
   message_state \<Rightarrow> message_result" where
  "handle_claimed p env req decoded sender key body st =
     (case decoded of
        None \<Rightarrow> relay_and_settle p env req decoded sender key body None st
      | Some d \<Rightarrow>
          (case sms_part d of
             None \<Rightarrow> relay_and_settle p env req decoded sender key body None st
           | Some part \<Rightarrow>
               (case admit_part (ms_reassembly st) sender part (sms_text d) (me_now env) of
                  None \<Rightarrow> None
                | Some (outcome, r) \<Rightarrow>
                    (let st = st\<lparr>ms_reassembly := r\<rparr>
                     in case outcome of
                          Pending \<Rightarrow> acknowledge p env req decoded (pr_sms_delivery_report p)
                            (st\<lparr>ms_dedupe := me_meanwhile env (ms_dedupe st)\<rparr>)
                        | Complete joined \<Rightarrow> relay_and_settle p env req decoded sender key joined (Some part) st
                        | Malformed \<Rightarrow> relay_and_settle p env req decoded sender key body None st))))"

definition handle_text ::
  "message_params \<Rightarrow> message_env \<Rightarrow> sip_request \<Rightarrow> decoded_sms option \<Rightarrow> text_string \<Rightarrow> text_string \<Rightarrow>
   message_state \<Rightarrow> message_result" where
  "handle_text p env req decoded sender body st =
     (let inbound = over_registration sender body;
          key = dedupe_key inbound;
          (disposition, d) = decide (ms_dedupe st) inbound;
          st = st\<lparr>ms_dedupe := d\<rparr>
      in case disposition of
           AcknowledgeOnly \<Rightarrow>
             (let d = me_meanwhile env (ms_dedupe st)
              in acknowledge p env req decoded (pr_sms_delivery_report p \<and> is_confirmed d key) (st\<lparr>ms_dedupe := d\<rparr>))
         | Handle \<Rightarrow> handle_claimed p env req decoded sender key body st)"

definition handle_decoded :: "message_params \<Rightarrow> message_env \<Rightarrow> sip_request \<Rightarrow> decoded_sms option \<Rightarrow> message_state \<Rightarrow> message_result" where
  "handle_decoded p env req decoded st =
     (let sender = (case decoded of Some d \<Rightarrow> sms_sender d | None \<Rightarrow> extract_caller req);
          body = (case decoded of Some d \<Rightarrow> labelled_body d | None \<Rightarrow> rq_body req)
      in if (case decoded of Some d \<Rightarrow> sms_is_type_zero d | None \<Rightarrow> False)
         then acknowledge p env req decoded (pr_sms_delivery_report p) st
         else handle_text p env req decoded sender body st)"

definition handle_message :: "message_params \<Rightarrow> message_env \<Rightarrow> sip_request \<Rightarrow> message_state \<Rightarrow> message_result" where
  "handle_message p env req st =
     (if \<not> message_content_type_supported req then
        Some ([Respond (build_415_unsupported_media req (me_tag env) (lit ''application/vnd.3gpp.sms, text/plain''))], st)
      else case decode_pdu_body req of
        Some (RpMsg sms) \<Rightarrow> handle_decoded p env req (Some sms) st
      | Some (RpAck _) \<Rightarrow> Some ([respond_ok env req], st)
      | Some (RpErr _ _) \<Rightarrow> Some ([respond_ok env req], st)
      | Some (UnsupportedTpdu mr _) \<Rightarrow> after [respond_ok env req] (send_report p env req (build_rp_ack mr) st)
      | Some (Undecodable mr) \<Rightarrow> after [respond_ok env req] (send_report p env req (build_rp_error mr None) st)
      | None \<Rightarrow> handle_decoded p env req None st)"

section \<open>Parts given up by reassembly\<close>

definition deliver_flushed_part ::
  "text_string \<Rightarrow> u8 \<Rightarrow> u8 \<Rightarrow> text_string \<Rightarrow> text_string \<Rightarrow> bool \<Rightarrow> dedupe \<Rightarrow> message_action \<times> bool \<times> dedupe" where
  "deliver_flushed_part sender seq tot t received_at delivered d =
     (let body = part_label seq tot t;
          key = dedupe_key (over_registration sender body)
      in (RelaySms sender body received_at, delivered, if delivered then confirm d key else d))"

text \<open>The loop over the parts ready for delivery; the answer of the control channel to each.\<close>

fun flush_ready ::
  "(nat \<times> text_string \<times> u8 \<times> u8 \<times> text_string) list \<Rightarrow> bool list \<Rightarrow> text_string \<Rightarrow> message_state \<Rightarrow> message_action list \<times> message_state" where
  "flush_ready ((fid, sender, seq, tot, t) # ready) (ok # oks) received_at st =
     (let (act, ok, d) = deliver_flushed_part sender seq tot t received_at ok (ms_dedupe st);
          st = st\<lparr>ms_dedupe := d\<rparr>;
          st = (if ok then st\<lparr>ms_reassembly := mark_flush_delivered (ms_reassembly st) fid\<rparr> else st);
          (acts, st) = flush_ready ready oks received_at st
      in (act # acts, st))"
| "flush_ready _ _ received_at st = ([], st)"

definition flush_expired_reassembly :: "instant \<Rightarrow> bool list \<Rightarrow> text_string \<Rightarrow> message_state \<Rightarrow> message_action list \<times> message_state" where
  "flush_expired_reassembly now oks received_at st =
     (let st = st\<lparr>ms_reassembly := expire_due (ms_reassembly st) now\<rparr>
      in flush_ready (ready_for_delivery (ms_reassembly st)) oks received_at st)"

section \<open>What each step gives\<close>

text \<open>The decoded message of a request, its sender, the text it is claimed under, and the claim's key.\<close>

definition request_sms :: "sip_request \<Rightarrow> decoded_sms option" where
  "request_sms req = (case decode_pdu_body req of Some (RpMsg sms) \<Rightarrow> Some sms | _ \<Rightarrow> None)"

definition request_sender :: "sip_request \<Rightarrow> text_string" where
  "request_sender req = (case request_sms req of Some d \<Rightarrow> sms_sender d | None \<Rightarrow> extract_caller req)"

definition request_text :: "sip_request \<Rightarrow> text_string" where
  "request_text req = (case request_sms req of Some d \<Rightarrow> labelled_body d | None \<Rightarrow> rq_body req)"

definition request_key :: "sip_request \<Rightarrow> text_string" where
  "request_key req = dedupe_key (over_registration (request_sender req) (request_text req))"

definition is_relay :: "message_action \<Rightarrow> bool" where
  "is_relay a \<longleftrightarrow> (case a of RelaySms _ _ _ \<Rightarrow> True | _ \<Rightarrow> False)"

definition is_report :: "message_action \<Rightarrow> bool" where
  "is_report a \<longleftrightarrow> (case a of SendReport _ \<Rightarrow> True | _ \<Rightarrow> False)"

lemma action_kinds [simp]:
  "is_relay (RelaySms s b a)" "\<not> is_relay (Respond m)" "\<not> is_relay (SendReport bs)"
  "\<not> is_report (RelaySms s b a)" "\<not> is_report (Respond m)" "is_report (SendReport bs)" "\<not> is_relay (respond_ok env req)"
  "\<not> is_report (respond_ok env req)"
  by (simp_all add: is_relay_def is_report_def respond_ok_def)

lemma after_Some: "after acts r = Some (acts', st) \<longleftrightarrow> (\<exists>rest. r = Some (rest, st) \<and> acts' = acts @ rest)"
  by (auto simp: after_def)

lemma after_None: "after acts r = None \<longleftrightarrow> r = None"
  by (simp add: after_def)

text \<open>A report and an acknowledgement touch the session and the reports in flight only.\<close>

lemma send_report_SomeD:
  assumes "send_report p env req pdu st = Some (acts, st')"
  shows "ms_dedupe st' = ms_dedupe st \<and> ms_reassembly st' = ms_reassembly st \<and> (\<forall>a \<in> set acts. is_report a) \<and> filter is_relay acts = [] \<and>
    (default_impu (ms_session st') = default_impu (ms_session st))"
  using assms
  by (auto simp: send_report_def send_sms_delivery_report_def is_report_def default_impu_def split: option.splits)

lemma acknowledge_SomeD:
  assumes "acknowledge p env req decoded b st = Some (acts, st')"
  shows "ms_dedupe st' = ms_dedupe st \<and> ms_reassembly st' = ms_reassembly st \<and>
    (\<exists>reports. acts = respond_ok env req # reports \<and> (\<forall>a \<in> set reports. is_report a) \<and> filter is_relay reports = [] \<and> (\<not> b \<longrightarrow> reports = [])) \<and>
    (default_impu (ms_session st') = default_impu (ms_session st))"
  using assms
  by (auto simp: acknowledge_def after_Some split: option.splits if_splits dest!: send_report_SomeD)

lemma acknowledge_total:
  "default_impu (ms_session st) \<noteq> None \<Longrightarrow> acknowledge p env req decoded b st \<noteq> None"
  by (auto simp: acknowledge_def after_None send_report_def send_sms_delivery_report_def impu_or_public_def split: option.splits)

lemma admit_part_total:
  "reassembly_inv r \<Longrightarrow> \<exists>outcome r'. admit_part r sender part t now = Some (outcome, r') \<and> reassembly_inv r'"
  using admit_part_Malformed [of r sender part t now] admit_part_props [of r sender part t now]
  by (cases "part_ok r sender part") auto

text \<open>The relay: with the claim settled and the network answered, or with nothing but the attempt.\<close>

lemma relay_and_settle_SomeD:
  assumes "relay_and_settle p env req decoded sender key body completed st = Some (acts, st')"
  shows "if me_relayed env
    then (\<exists>rest. acts = RelaySms sender body (me_received_at env) # respond_ok env req # rest \<and> (\<forall>a \<in> set rest. is_report a)) \<and>
      ms_dedupe st' = confirm (me_meanwhile env (ms_dedupe st)) key
    else acts = [RelaySms sender body (me_received_at env)] \<and> st' = st\<lparr>ms_dedupe := forget (me_meanwhile env (ms_dedupe st)) key\<rparr>"
  using assms
  by (auto simp: relay_and_settle_def after_Some Let_def split: if_splits option.splits dest!: acknowledge_SomeD)

lemma relay_and_settle_total:
  assumes "default_impu (ms_session st) \<noteq> None"
  shows "relay_and_settle p env req decoded sender key body completed st \<noteq> None"
proof -
  have "acknowledge p env req decoded b (st\<lparr>ms_dedupe := d\<rparr>) \<noteq> None"
    "acknowledge p env req decoded b (st\<lparr>ms_dedupe := d, ms_reassembly := r\<rparr>) \<noteq> None" for b d r
    using assms by (simp_all add: acknowledge_total)
  then show ?thesis by (simp add: relay_and_settle_def after_None Let_def split: option.split)
qed

lemma handle_claimed_total:
  assumes "default_impu (ms_session st) \<noteq> None" "reassembly_inv (ms_reassembly st)"
  shows "handle_claimed p env req decoded sender key body st \<noteq> None"
proof -
  have "relay_and_settle p env req decoded sender key body completed (st\<lparr>ms_reassembly := r\<rparr>) \<noteq> None"
    "acknowledge p env req decoded b (st\<lparr>ms_reassembly := r, ms_dedupe := d\<rparr>) \<noteq> None" for decoded body completed r b d
    using assms by (simp_all add: acknowledge_total relay_and_settle_total)
  moreover have "admit_part (ms_reassembly st) sender part t now \<noteq> None" for part t now
    using admit_part_total [OF assms(2), of sender part t now] by auto
  ultimately show ?thesis using relay_and_settle_total [OF assms(1)]
    by (simp add: handle_claimed_def Let_def split: option.split part_outcome.split prod.split del: not_None_eq)
qed

lemma handle_message_total:
  assumes "default_impu (ms_session st) \<noteq> None" "reassembly_inv (ms_reassembly st)"
  shows "handle_message p env req st \<noteq> None"
proof -
  have "handle_decoded p env req decoded st \<noteq> None" for decoded
  proof -
    have "handle_claimed p env req decoded sender key body (st\<lparr>ms_dedupe := d\<rparr>) \<noteq> None"
      "acknowledge p env req decoded b (st\<lparr>ms_dedupe := d\<rparr>) \<noteq> None" for sender key body d b
      using assms by (simp_all add: acknowledge_total handle_claimed_total)
    then have "handle_text p env req decoded sender body st \<noteq> None" for sender body
      by (simp add: handle_text_def Let_def split: prod.split disposition.split del: not_None_eq)
    with assms show ?thesis
      by (simp add: handle_decoded_def Let_def acknowledge_total del: not_None_eq)
  qed
  moreover have "send_report p env req pdu st \<noteq> None" for pdu
    using assms(1) by (auto simp: send_report_def send_sms_delivery_report_def impu_or_public_def split: option.splits)
  ultimately show ?thesis
    by (simp add: handle_message_def after_None split: option.split decoded_rp.split del: not_None_eq)
qed

text \<open>What handling a claimed text can come to.\<close>

lemma handle_claimed_SomeD:
  assumes "handle_claimed p env req decoded sender key body st = Some (acts, st')" "reassembly_inv (ms_reassembly st)"
  shows "if filter is_relay acts = [] then
      (\<exists>d part r. decoded = Some d \<and> sms_part d = Some part \<and>
        admit_part (ms_reassembly st) sender part (sms_text d) (me_now env) = Some (Pending, r) \<and> ms_reassembly st' = r \<and>
        ms_dedupe st' = me_meanwhile env (ms_dedupe st))
    else (\<exists>text at. acts ! 0 = RelaySms sender text at) \<and>
      (if me_relayed env then ms_dedupe st' = confirm (me_meanwhile env (ms_dedupe st)) key
       else (\<exists>text at. acts = [RelaySms sender text at]) \<and> ms_dedupe st' = forget (me_meanwhile env (ms_dedupe st)) key \<and>
            ms_session st' = ms_session st \<and> ms_reports st' = ms_reports st)"
  using assms
  by (auto simp: handle_claimed_def Let_def split: option.splits prod.splits part_outcome.splits if_splits
      dest!: relay_and_settle_SomeD acknowledge_SomeD)

lemma handle_text_SomeD:
  assumes "handle_text p env req decoded sender body st = Some (acts, st')"
    "dedupe_inv (ms_dedupe st)"
  defines "key \<equiv> dedupe_key (over_registration sender body)"
  shows "if contains_key (ms_dedupe st) key then
      filter is_relay acts = [] \<and> ms_dedupe st' = me_meanwhile env (ms_dedupe st) \<and> ms_reassembly st' = ms_reassembly st \<and>
      (list_ex is_report acts \<longrightarrow> is_confirmed (me_meanwhile env (ms_dedupe st)) key)
    else handle_claimed p env req decoded sender key body (st\<lparr>ms_dedupe := snd (admit (ms_dedupe st) key)\<rparr>) = Some (acts, st')"
proof (cases "contains_key (ms_dedupe st) key")
  case True
  then have "decide (ms_dedupe st) (over_registration sender body) = (AcknowledgeOnly, ms_dedupe st)"
    by (simp add: decide_def admit_taken key_def)
  with assms(1) True show ?thesis
    by (auto simp: handle_text_def key_def Let_def dest!: acknowledge_SomeD)
next
  case False
  with assms(2) have "decide (ms_dedupe st) (over_registration sender body) = (Handle, snd (admit (ms_dedupe st) key))"
    by (simp add: decide_def admit_fresh key_def)
  with assms(1) False show ?thesis
    by (simp add: handle_text_def key_def Let_def)
qed

text \<open>A request that carries a text to hand on is handled by the claim section.\<close>

definition carries_text :: "sip_request \<Rightarrow> bool" where
  "carries_text req \<longleftrightarrow> message_content_type_supported req \<and>
     (case decode_pdu_body req of
        Some (RpMsg sms) \<Rightarrow> \<not> sms_is_type_zero sms
      | Some _ \<Rightarrow> False
      | None \<Rightarrow> True)"

lemma handle_message_text:
  "carries_text req \<Longrightarrow>
   handle_message p env req st = handle_text p env req (request_sms req) (request_sender req) (request_text req) st"
  by (auto simp: carries_text_def handle_message_def handle_decoded_def request_sms_def request_sender_def request_text_def
      split: option.splits decoded_rp.splits)

lemma handle_message_no_text:
  "\<not> carries_text req \<Longrightarrow> handle_message p env req st = Some (acts, st') \<Longrightarrow>
   filter is_relay acts = [] \<and> ms_dedupe st' = ms_dedupe st \<and> ms_reassembly st' = ms_reassembly st"
  by (auto simp: carries_text_def handle_message_def handle_decoded_def after_Some
      split: option.splits decoded_rp.splits if_splits dest!: acknowledge_SomeD send_report_SomeD)

lemma admit_part_held:
  assumes "reassembly_inv r" "admit_part r sender part t now = Some (Pending, r')"
  shows "(sender, cp_sequence part, cp_total part, t) \<in># held_parts r'"
proof -
  have ok: "part_ok r sender part"
    using admit_part_Malformed [of r sender part t now] assms(2) by (cases "part_ok r sender part") auto
  have "bt_inv ([] :: (u8, text_string) btree_map)" by (simp add: bt_inv_def)
  then have "bt_inv (parts_of r (sender, cp_reference part))"
    using assms(1) by (auto simp: reassembly_inv_def parts_of_def buffer_ok_def list_all_iff split: option.split dest!: map_of_SomeD)
  then obtain r'' outcome where r'': "admit_part r sender part t now = Some (outcome, r'')" "reassembly_inv r''"
    "map_of (parts_of r'' (sender, cp_reference part)) (cp_sequence part) = Some t" "total_fits r'' (sender, cp_reference part) (cp_total part)"
    using admit_part_props [OF assms(1) ok, of t now] by (auto simp: map_of_bt_insert)
  then have r': "r'' = r'" using assms(2) by simp
  then obtain b where b: "map_of (ra_buffers r') (sender, cp_reference part) = Some b" "pm_total b = cp_total part" "(cp_sequence part, t) \<in> set (pm_parts b)"
    using r''(3,4) by (auto simp: parts_of_def total_fits_def dest!: map_of_SomeD split: option.splits)
  then have "((sender, cp_reference part), b) \<in> set (ra_buffers r')" by (simp add: map_of_SomeD)
  with b show ?thesis
    by (force simp: held_parts_def buffers_held_def buffer_held_def)
qed

section \<open>A message in parts\<close>

fun handle_all :: "message_params \<Rightarrow> (message_env \<times> sip_request) list \<Rightarrow> message_state \<Rightarrow> message_result" where
  "handle_all p [] st = Some ([], st)"
| "handle_all p ((env, req) # ms) st =
     (case handle_message p env req st of None \<Rightarrow> None | Some (acts, st') \<Rightarrow> after acts (handle_all p ms st'))"

text \<open>A request that carries one part of a message, with the environment's answers: the relay works
  and the other route leaves the store alone meanwhile.\<close>

definition carries_part :: "text_string \<Rightarrow> u16 \<Rightarrow> u8 \<Rightarrow> message_env \<times> sip_request \<times> u8 \<times> text_string \<Rightarrow> bool" where
  "carries_part sender ref tot = (\<lambda>(env, req, seq, t).
     me_relayed env \<and> me_meanwhile env = (\<lambda>d. d) \<and>
     (\<exists>sms. request_sms req = Some sms \<and> sms_sender sms = sender \<and> sms_text sms = t \<and> \<not> sms_is_type_zero sms \<and>
        sms_part sms = Some \<lparr>cp_reference = ref, cp_sequence = seq, cp_total = tot\<rparr>))"

definition part_requests :: "(message_env \<times> sip_request \<times> u8 \<times> text_string) list \<Rightarrow> (message_env \<times> sip_request) list" where
  "part_requests ms = map (\<lambda>m. (fst m, fst (snd m))) ms"

definition part_seq :: "message_env \<times> sip_request \<times> u8 \<times> text_string \<Rightarrow> u8" where
  "part_seq m = fst (snd (snd m))"

definition part_key :: "text_string \<Rightarrow> u8 \<Rightarrow> u8 \<Rightarrow> text_string \<Rightarrow> text_string" where
  "part_key sender tot seq t = dedupe_key (over_registration sender (part_label seq tot t))"

lemma part_label_inject: "part_label seq tot t = part_label seq' tot' t' \<Longrightarrow> seq = seq'"
proof -
  assume eq: "part_label seq tot t = part_label seq' tot' t'"
  have "47 \<notin> set (show_nat n)" for n by (rule not_in_show_nat) (simp add: is_ascii_digit_def)
  then have "split_once 47 (tl (part_label seq tot t)) = Some (show_nat (unat seq), show_nat (unat tot) @ [93, 32] @ t)" for seq tot :: u8 and t
    by (simp add: part_label_def split_once_append)
  from this [of seq tot t] this [of seq' tot' t'] eq have "show_nat (unat seq) = show_nat (unat seq')" by simp
  then have "digits_value (show_nat (unat seq)) = digits_value (show_nat (unat seq'))" by simp
  then show ?thesis by (simp add: word_unat_eq_iff)
qed

lemma part_key_inject: "part_key sender tot seq t = part_key sender tot seq' t' \<Longrightarrow> seq = seq'"
  by (auto simp: part_key_def dedupe_key_def over_registration_def dest: part_label_inject)

lemma request_sms_carries_text:
  "request_sms req = Some sms \<Longrightarrow> carries_text req \<longleftrightarrow> \<not> sms_is_type_zero sms"
  by (auto simp: request_sms_def carries_text_def decode_pdu_body_def is_3gpp_sms_def message_content_type_supported_def
      SUPPORTED_MESSAGE_CONTENT_TYPES_def split: option.splits decoded_rp.splits if_splits sum.splits)

lemma carries_part_handled:
  assumes "carries_part sender ref tot (env, req, seq, t)" "dedupe_inv (ms_dedupe st)"
    "part_key sender tot seq t \<notin> set (dd_seen (ms_dedupe st))"
  shows "handle_message p env req st =
    handle_claimed p env req (request_sms req) sender (part_key sender tot seq t) (part_label seq tot t)
      (st\<lparr>ms_dedupe := snd (admit (ms_dedupe st) (part_key sender tot seq t))\<rparr>)"
proof -
  from assms(1) obtain sms where sms: "request_sms req = Some sms" "sms_sender sms = sender" "sms_text sms = t"
    "\<not> sms_is_type_zero sms" "sms_part sms = Some \<lparr>cp_reference = ref, cp_sequence = seq, cp_total = tot\<rparr>"
    by (auto simp: carries_part_def)
  then have req: "request_sender req = sender" "request_text req = part_label seq tot t"
    by (simp_all add: request_sender_def request_text_def labelled_body_def)
  have "carries_text req" using sms request_sms_carries_text by simp
  then show ?thesis using assms(2,3)
    by (simp add: handle_message_text req handle_text_def decide_def admit_fresh contains_key_iff part_key_def Let_def)
qed

lemma carries_part_step:
  assumes "carries_part sender ref tot (env, req, seq, t)" "dedupe_inv (ms_dedupe st)"
    "part_key sender tot seq t \<notin> set (dd_seen (ms_dedupe st))" "default_impu (ms_session st) \<noteq> None"
    "admit_part (ms_reassembly st) sender \<lparr>cp_reference = ref, cp_sequence = seq, cp_total = tot\<rparr> t (me_now env) = Some (outcome, r)"
  defines "d \<equiv> snd (admit (ms_dedupe st) (part_key sender tot seq t))"
  shows "outcome = Pending \<Longrightarrow> \<exists>acts st'. handle_message p env req st = Some (acts, st') \<and> filter is_relay acts = [] \<and>
      ms_dedupe st' = d \<and> ms_reassembly st' = r \<and> default_impu (ms_session st') \<noteq> None"
    "outcome = Complete joined \<Longrightarrow> \<exists>acts st'. handle_message p env req st = Some (acts, st') \<and>
      filter is_relay acts = [RelaySms sender joined (me_received_at env)] \<and>
      ms_dedupe st' = confirm d (part_key sender tot seq t) \<and> default_impu (ms_session st') \<noteq> None"
proof -
  from assms(1) obtain sms where sms: "request_sms req = Some sms" "sms_text sms = t"
    "sms_part sms = Some \<lparr>cp_reference = ref, cp_sequence = seq, cp_total = tot\<rparr>" "me_relayed env" "me_meanwhile env = (\<lambda>d. d)"
    by (auto simp: carries_part_def)
  note claimed = carries_part_handled [OF assms(1-3), of p]
  {
    assume "outcome = Pending"
    then have "handle_message p env req st = acknowledge p env req (Some sms) (pr_sms_delivery_report p)
        (st\<lparr>ms_dedupe := d, ms_reassembly := r\<rparr>)"
      using claimed assms(5) sms by (simp add: handle_claimed_def d_def)
    moreover obtain acts st' where "acknowledge p env req (Some sms) (pr_sms_delivery_report p)
        (st\<lparr>ms_dedupe := d, ms_reassembly := r\<rparr>) = Some (acts, st')"
      using acknowledge_total [of "st\<lparr>ms_dedupe := d, ms_reassembly := r\<rparr>"] assms(4) by fastforce
    ultimately show "\<exists>acts st'. handle_message p env req st = Some (acts, st') \<and> filter is_relay acts = [] \<and>
      ms_dedupe st' = d \<and> ms_reassembly st' = r \<and> default_impu (ms_session st') \<noteq> None"
      using assms(4) by (auto dest!: acknowledge_SomeD)
  }
  {
    assume "outcome = Complete joined"
    let ?st = "st\<lparr>ms_dedupe := confirm d (part_key sender tot seq t),
      ms_reassembly := mark_delivered r sender \<lparr>cp_reference = ref, cp_sequence = seq, cp_total = tot\<rparr>\<rparr>"
    have st: "st\<lparr>ms_dedupe := a, ms_reassembly := b, ms_dedupe := c, ms_reassembly := e\<rparr> = st\<lparr>ms_dedupe := c, ms_reassembly := e\<rparr>" for a b c e
      by (rule message_state.equality) simp_all
    from \<open>outcome = Complete joined\<close> have "handle_message p env req st =
        after [RelaySms sender joined (me_received_at env)] (acknowledge p env req (Some sms) (pr_sms_delivery_report p) ?st)"
      using claimed assms(5) sms by (simp add: handle_claimed_def relay_and_settle_def d_def st)
    moreover obtain acts st' where "acknowledge p env req (Some sms) (pr_sms_delivery_report p) ?st = Some (acts, st')"
      using acknowledge_total [of ?st] assms(4) by fastforce
    ultimately show "\<exists>acts st'. handle_message p env req st = Some (acts, st') \<and>
      filter is_relay acts = [RelaySms sender joined (me_received_at env)] \<and>
      ms_dedupe st' = confirm d (part_key sender tot seq t) \<and> default_impu (ms_session st') \<noteq> None"
      using assms(4) by (auto simp: after_def dest!: acknowledge_SomeD)
  }
qed

lemma seen_admit: "set (dd_seen (snd (admit d key))) \<subseteq> insert key (set (dd_seen d))" "key \<in> set (dd_seen (snd (admit d key)))"
  by (auto simp: admit_def Let_def contains_key_iff split: list.splits if_splits)

text \<open>A run over requests that carry the parts: whatever \<open>admit_all\<close> says of the parts is what is
  relayed, and only the request that completed the message settles its claim.\<close>

lemma handle_parts:
  fixes ms :: "(message_env \<times> sip_request \<times> u8 \<times> text_string) list" and sender :: text_string and tot :: u8
  defines "keys \<equiv> map (\<lambda>(_, _, seq, t). part_key sender tot seq t)"
  assumes "admit_all (ms_reassembly st) sender ref tot (map (\<lambda>(env, _, seq, t). (seq, t, me_now env)) ms) =
      Some (replicate (length ms - 1) Pending @ [Complete joined], r)" "ms \<noteq> []"
    "list_all (carries_part sender ref tot) ms" "distinct (keys ms)" "set (keys ms) \<inter> set (dd_seen (ms_dedupe st)) = {}"
    "dedupe_inv (ms_dedupe st)" "default_impu (ms_session st) \<noteq> None"
  shows "\<exists>acts st'. handle_all p (part_requests ms) st = Some (acts, st') \<and>
    filter is_relay acts = [RelaySms sender joined (me_received_at (fst (last ms)))] \<and>
    dd_confirmed (ms_dedupe st') \<subseteq> insert (last (keys ms)) (dd_confirmed (ms_dedupe st)) \<and>
    last (keys ms) \<in> dd_confirmed (ms_dedupe st')"
  using assms(2-)
proof (induction ms arbitrary: st)
  case (Cons m ms)
  obtain env req seq t where m: "m = (env, req, seq, t)" by (cases m)
  let ?part = "\<lparr>cp_reference = ref, cp_sequence = seq, cp_total = tot\<rparr>" and ?key = "part_key sender tot seq t"
  let ?d = "snd (admit (ms_dedupe st) ?key)"
  have keys: "keys (m # ms) = ?key # keys ms" by (simp add: keys_def m)
  have part: "carries_part sender ref tot (env, req, seq, t)" "?key \<notin> set (dd_seen (ms_dedupe st))"
    using Cons.prems(3) m Cons.prems(5) [unfolded keys] by simp_all
  from Cons.prems(1) obtain outcome r1 where
    admit: "admit_part (ms_reassembly st) sender ?part t (me_now env) = Some (outcome, r1)"
    by (auto simp: m split: option.splits)
  note step = carries_part_step [OF part(1) Cons.prems(6) part(2) Cons.prems(7) admit, where p = p]
  show ?case
  proof (cases "ms = []")
    case True
    with Cons.prems(1) admit have "outcome = Complete joined" by (auto simp: m)
    from step(2) [OF this] obtain acts st' where "handle_message p env req st = Some (acts, st')"
      "filter is_relay acts = [RelaySms sender joined (me_received_at env)]" "ms_dedupe st' = confirm ?d ?key" by blast
    moreover have "dd_confirmed (confirm ?d ?key) = insert ?key (dd_confirmed ?d)"
      using seen_admit(2) by (simp add: confirm_def contains_key_iff)
    ultimately show ?thesis using True confirmed_admit [of "ms_dedupe st" ?key]
      by (auto simp: m keys_def after_def part_requests_def)
  next
    case False
    then obtain n where n: "length ms = Suc n" by (cases ms) auto
    with Cons.prems(1) admit have outcome: "outcome = Pending" and
      rest: "admit_all r1 sender ref tot (map (\<lambda>(env, _, seq, t). (seq, t, me_now env)) ms) =
        Some (replicate (length ms - 1) Pending @ [Complete joined], r)"
      by (auto simp: m split: option.splits)
    from step(1) [OF outcome] obtain acts st' where st': "handle_message p env req st = Some (acts, st')"
      "filter is_relay acts = []" "ms_dedupe st' = ?d" "ms_reassembly st' = r1" "default_impu (ms_session st') \<noteq> None" by blast
    have fresh: "set (keys ms) \<inter> set (dd_seen (ms_dedupe st')) = {}"
      using Cons.prems(4,5) seen_admit(1) [of "ms_dedupe st" ?key] by (auto simp: keys st'(3))
    have "\<exists>acts st''. handle_all p (part_requests ms) st' = Some (acts, st'') \<and>
        filter is_relay acts = [RelaySms sender joined (me_received_at (fst (last ms)))] \<and>
        dd_confirmed (ms_dedupe st'') \<subseteq> insert (last (keys ms)) (dd_confirmed (ms_dedupe st')) \<and>
        last (keys ms) \<in> dd_confirmed (ms_dedupe st'')"
      using Cons.prems False rest fresh st' by (intro Cons.IH) (simp_all add: keys dedupe_inv_admit)
    then obtain acts' st'' where "handle_all p (part_requests ms) st' = Some (acts', st'')"
        "filter is_relay acts' = [RelaySms sender joined (me_received_at (fst (last ms)))]"
        "dd_confirmed (ms_dedupe st'') \<subseteq> insert (last (keys ms)) (dd_confirmed (ms_dedupe st'))"
        "last (keys ms) \<in> dd_confirmed (ms_dedupe st'')" by blast
    moreover have "last (keys (m # ms)) = last (keys ms)" using False by (simp add: keys_def)
    moreover have "dd_confirmed (ms_dedupe st') \<subseteq> dd_confirmed (ms_dedupe st)"
      using confirmed_admit by (simp add: st'(3))
    ultimately show ?thesis using st'(1,2) False by (auto simp: m after_def part_requests_def)
  qed
qed simp

lemma card_u8_positions: "card {1..tot :: u8} = unat tot"
proof -
  have "distinct (map (word_of_nat :: nat \<Rightarrow> u8) [1..<Suc (unat tot)])"
    using bt_inv_distinct [OF bt_inv_positions [of "unat tot" "\<lambda>_. ()"]] unsigned_less [of tot] by (simp add: o_def)
  from distinct_card [OF this] show ?thesis unfolding u8_positions by simp
qed

lemma handle_whole_message:
  fixes ms :: "(message_env \<times> sip_request \<times> u8 \<times> text_string) list"
  assumes "list_all (carries_part sender ref tot) ms" "distinct (map part_seq ms)"
    and "set (map part_seq ms) = {1..tot}" "tot \<noteq> 0"
    and "\<forall>(_, _, seq, t) \<in> set ms. \<not> contains_key (ms_dedupe st) (part_key sender tot seq t)"
    and "map_of (ra_buffers (ms_reassembly st)) (sender, ref) = None"
    and "dedupe_inv (ms_dedupe st)" "reassembly_inv (ms_reassembly st)" "default_impu (ms_session st) \<noteq> None"
  shows "\<exists>acts st'. handle_all p (part_requests ms) st = Some (acts, st') \<and>
    filter is_relay acts =
      [RelaySms sender (concat (map (\<lambda>i. text_at (map (\<lambda>(env, _, seq, t). (seq, t, me_now env)) ms) (word_of_nat i)) [1..<Suc (unat tot)]))
        (me_received_at (fst (last ms)))] \<and>
    (\<forall>(_, _, seq, t) \<in> set (butlast ms). \<not> is_confirmed (ms_dedupe st') (part_key sender tot seq t))"
proof -
  let ?ps = "map (\<lambda>(env, _, seq, t). (seq, t, me_now env)) ms"
  let ?keys = "map (\<lambda>(_, _, seq, t). part_key sender tot seq t) ms"
  let ?joined = "concat (map (\<lambda>i. text_at ?ps (word_of_nat i)) [1..<Suc (unat tot)])"
  have seqs: "map fst ?ps = map part_seq ms" by (simp add: part_seq_def case_prod_unfold)
  have len: "length ms = unat tot"
    using distinct_card [OF assms(2)] assms(3) card_u8_positions [of tot] by simp
  then have ne: "ms \<noteq> []" using assms(4) by (auto simp: unat_eq_0)
  obtain r where "admit_all (ms_reassembly st) sender ref tot ?ps = Some (replicate (length ms - 1) Pending @ [Complete ?joined], r)"
    using reassembled [OF assms(8,6), of ?ps tot] assms(2-4) len seqs by (auto simp del: upt_Suc map_map)
  moreover have dist: "distinct ?keys"
    using assms(2) part_key_inject by (fastforce simp: distinct_map inj_on_def part_seq_def)
  moreover have "set ?keys \<inter> set (dd_seen (ms_dedupe st)) = {}"
    using assms(5) by (fastforce simp: contains_key_iff)
  ultimately obtain acts st' where st': "handle_all p (part_requests ms) st = Some (acts, st')"
    "filter is_relay acts = [RelaySms sender ?joined (me_received_at (fst (last ms)))]"
    "dd_confirmed (ms_dedupe st') \<subseteq> insert (last ?keys) (dd_confirmed (ms_dedupe st))"
    using handle_parts [where ms = ms and st = st, OF _ ne assms(1) _ _ assms(7,9)] by blast
  have "part_key sender tot seq t \<noteq> last ?keys" "part_key sender tot seq t \<notin> dd_confirmed (ms_dedupe st)"
    if m: "(env, req, seq, t) \<in> set (butlast ms)" for env req seq t
  proof -
    have "part_key sender tot seq t \<in> set (butlast ?keys)" using m by (force simp: map_butlast [symmetric])
    moreover have "last ?keys \<notin> set (butlast ?keys)"
      using dist ne by (metis append_butlast_last_id distinct_butlast not_distinct_conv_prefix map_is_Nil_conv)
    ultimately show "part_key sender tot seq t \<noteq> last ?keys" by metis
    show "part_key sender tot seq t \<notin> dd_confirmed (ms_dedupe st)"
      using assms(5,7) in_set_butlastD [OF m] by (fastforce simp: contains_key_iff dedupe_inv_def)
  qed
  with st'(3) have "\<forall>(_, _, seq, t) \<in> set (butlast ms). \<not> is_confirmed (ms_dedupe st') (part_key sender tot seq t)"
    by (fastforce simp: is_confirmed_def)
  with st' show ?thesis by blast
qed

section \<open>Properties\<close>

text \<open>Sample requests: a text of one character from +447, alone or as one of two parts.\<close>

definition sample_text_delivery :: "u8 option \<Rightarrow> nat \<Rightarrow> delivery" where
  "sample_text_delivery part c =
     \<lparr>dl_first = (case part of Some _ \<Rightarrow> 0x44 | None \<Rightarrow> 0x04), dl_toa = 0x91, dl_address = Number [4, 4, 7], dl_pid = 0, dl_dcs = 0x08,
      dl_scts = [0, 0, 0, 0, 0, 0, 0], dl_udh = map_option (\<lambda>seq. [(0x00, [7, 2, seq])]) part, dl_text = [c]\<rparr>"

definition sample_request :: "u8 option \<Rightarrow> nat \<Rightarrow> sip_request" where
  "sample_request part c =
     \<lparr>rq_method = lit ''MESSAGE'', rq_request_uri = lit ''sip:a'',
      rq_headers = [(lit ''From'', lit ''<sip:g>''), (lit ''Content-Type'', lit ''application/vnd.3gpp.sms'')],
      rq_body = [], rq_body_bytes = rp_data_of 1 5 [0x91] [] (tpdu_of (sample_text_delivery part c)) @ []\<rparr>"

definition sample_env :: "bool \<Rightarrow> message_env" where
  "sample_env works =
     \<lparr>me_tag = lit ''t'', me_ids = \<lparr>fi_call_id = lit ''c'', fi_tag = lit ''f'', fi_branch = lit ''b''\<rparr>, me_sent = True,
      me_relayed = works, me_received_at = lit ''now'', me_now = 0, me_meanwhile = (\<lambda>d. d)\<rparr>"

definition sample_state :: message_state where
  "sample_state =
     \<lparr>ms_session = \<lparr>se_public_uri = lit ''u@h'', se_local_addr = \<lparr>sa_ip = V4 (lit ''10.0.0.1''), sa_port = 5060\<rparr>,
        se_contact_addr = \<lparr>sa_ip = V4 (lit ''10.0.0.1''), sa_port = 5061\<rparr>, se_use_tcp = True, se_cseq = 1, se_gm_state = None,
        se_headers = [], se_pcscf_addr = \<lparr>sa_ip = V4 (lit ''10.0.0.2''), sa_port = 5060\<rparr>\<rparr>,
      ms_reports = [], ms_dedupe = dedupe_new 64, ms_reassembly = reassembly_new 64\<rparr>"

lemma sample_request_sms:
  assumes "c < 128"
  shows "request_sms (sample_request part c) =
    Some \<lparr>sms_sender = lit ''+447'', sms_text = [c],
          sms_part = map_option (\<lambda>seq. \<lparr>cp_reference = 7, cp_sequence = seq, cp_total = 2\<rparr>) part,
          sms_rp_mr = 5, sms_is_type_zero = False\<rparr>"
proof -
  have ok: "delivery_ok (sample_text_delivery part c)" "length (tpdu_of (sample_text_delivery part c)) < 256"
    using assms
    by (cases part; simp add: sample_text_delivery_def delivery_ok_def address_ok_def address_field_def header_ok_def
        udh_octets_of_def ie_octets_def text_ok_def from_dcs_def is_scalar_def user_data_field_def header_of_def
        utf16_encode_def utf16_code_def to_be16_def tpdu_of_def)+
  have "rp_data_envelope (rp_data_of 1 5 [0x91] [] (tpdu_of (sample_text_delivery part c)) @ []) 5 (tpdu_of (sample_text_delivery part c))"
    unfolding rp_data_envelope_def using ok(2) by (intro exI [of _ 1] exI [of _ "[0x91]"] exI [of _ "[]"]) simp
  from deliver_decoded [OF ok(1) this] have
    "decode_vnd_3gpp_sms (rq_body_bytes (sample_request part c)) =
      Inr (RpMsg \<lparr>sms_sender = lit ''+447'', sms_text = [c],
          sms_part = map_option (\<lambda>seq. \<lparr>cp_reference = 7, cp_sequence = seq, cp_total = 2\<rparr>) part,
          sms_rp_mr = 5, sms_is_type_zero = False\<rparr>)"
    by (cases part) (simp_all add: sample_request_def sample_text_delivery_def address_text_def lit_def part_of_def ie_part_def is_type_zero_pid_iff)
  moreover have "is_3gpp_sms (sample_request part c)"
    by (simp add: is_3gpp_sms_def sample_request_def header_def header_in_def media_type_parse_def split_params_def lit_def trim_def
        trim_start_def trim_end_def is_whitespace_def to_ascii_lowercase_def ascii_lower_def eq_ignore_ascii_case_def
        map_filter_simps media_is_def)
  ultimately show ?thesis by (simp add: request_sms_def decode_pdu_body_def)
qed

lemma sample_state_ok:
  "dedupe_inv (ms_dedupe sample_state)" "reassembly_inv (ms_reassembly sample_state)"
  "default_impu (ms_session sample_state) \<noteq> None" "dd_seen (ms_dedupe sample_state) = []"
  by (simp_all add: sample_state_def default_impu_def dedupe_new_def dedupe_inv_def)

lemma sample_request_address: "report_address (sample_request part c) = Some (lit ''sip:g'')"
  by (simp add: report_address_def header_uri_def header_uri_values_def sample_request_def headers_all_def headers_all_in_def
      eq_ignore_ascii_case_def ascii_lower_def lit_def split_header_values_def parse_name_addr_def name_addr_parts_def
      map_filter_simps trim_def trim_start_def trim_end_def is_whitespace_def strip_prefix_def starts_with_def str_find.simps)

lemma sample_handled:
  "\<exists>msg st'. handle_message \<lparr>pr_sms_delivery_report = True, pr_sms_report_pcscf_route = False\<rparr> (sample_env works)
     (sample_request None 65) sample_state =
   Some (RelaySms (lit ''+447'') [65] (lit ''now'') #
           (if works then [respond_ok (sample_env True) (sample_request None 65), SendReport msg] else []), st')"
proof -
  have sms: "request_sms (sample_request None 65) =
      Some \<lparr>sms_sender = lit ''+447'', sms_text = [65], sms_part = None, sms_rp_mr = 5, sms_is_type_zero = False\<rparr>"
    using sample_request_sms [of 65 None] by simp
  then have carries: "carries_text (sample_request None 65)" by (simp add: request_sms_carries_text)
  have d: "decide (ms_dedupe sample_state) (over_registration (lit ''+447'') [65]) =
      (Handle, snd (admit (ms_dedupe sample_state) (dedupe_key (over_registration (lit ''+447'') [65]))))"
    using sample_state_ok by (simp add: decide_def admit_fresh contains_key_iff)
  obtain impu where "default_impu (ms_session sample_state) = Some impu" using sample_state_ok(3) by blast
  moreover have "me_meanwhile (sample_env works) = (\<lambda>d. d)" "me_relayed (sample_env works) = works"
    "me_received_at (sample_env works) = lit ''now''" by (simp_all add: sample_env_def)
  ultimately show ?thesis
    by (simp add: handle_message_text [OF carries] sms request_sender_def request_text_def labelled_body_def handle_text_def d Let_def
        handle_claimed_def relay_and_settle_def acknowledge_def send_report_def sample_request_address
        send_sms_delivery_report_def impu_or_public_def after_def)
qed

text \<open>
  C2: A delivery report, which is what stops the network from sending a text again, goes out for a
  deliverable text only when the text is safe: it has just been handed to the recording half, an
  earlier claim on it is confirmed to have been handed over, or it is one part of a longer message and
  is held for reassembly. Whatever the other route does in between.
\<close>

theorem sms_report_only_when_safe:
  assumes "handle_message p env req st = Some (acts, st')" "list_ex is_report acts" "carries_text req"
    and "dedupe_inv (ms_dedupe st)" "reassembly_inv (ms_reassembly st)"
  shows "me_relayed env \<and> (\<exists>text at. acts ! 0 = RelaySms (request_sender req) text at) \<or>
    is_confirmed (me_meanwhile env (ms_dedupe st)) (request_key req) \<or>
    (\<exists>sms part. request_sms req = Some sms \<and> sms_part sms = Some part \<and>
      (request_sender req, cp_sequence part, cp_total part, sms_text sms) \<in># held_parts (ms_reassembly st'))"
proof -
  note handled = handle_text_SomeD [OF assms(1) [unfolded handle_message_text [OF assms(3)]] assms(4), folded request_key_def]
  show ?thesis
  proof (cases "contains_key (ms_dedupe st) (request_key req)")
    case True
    with handled assms(2) show ?thesis by simp
  next
    case False
    with handled have "handle_claimed p env req (request_sms req) (request_sender req) (request_key req) (request_text req)
        (st\<lparr>ms_dedupe := snd (admit (ms_dedupe st) (request_key req))\<rparr>) = Some (acts, st')" by simp
    note claimed = handle_claimed_SomeD [OF this, simplified, OF assms(5)]
    show ?thesis
    proof (cases "filter is_relay acts = []")
      case True
      with claimed admit_part_held [OF assms(5)] show ?thesis by auto
    next
      case False
      with claimed assms(2) show ?thesis by (auto split: if_splits)
    qed
  qed
qed

theorem sms_report_only_when_safe_witness:
  "\<exists>acts st' text at. handle_message \<lparr>pr_sms_delivery_report = True, pr_sms_report_pcscf_route = False\<rparr> (sample_env True)
      (sample_request None 65) sample_state = Some (acts, st') \<and> list_ex is_report acts \<and>
    me_relayed (sample_env True) \<and> acts ! 0 = RelaySms (lit ''+447'') text at"
proof -
  obtain msg st' where st': "handle_message \<lparr>pr_sms_delivery_report = True, pr_sms_report_pcscf_route = False\<rparr> (sample_env True)
      (sample_request None 65) sample_state =
    Some ([RelaySms (lit ''+447'') [65] (lit ''now''), respond_ok (sample_env True) (sample_request None 65), SendReport msg], st')"
    using sample_handled [of True] by auto
  have sms: "request_sms (sample_request None 65) =
      Some \<lparr>sms_sender = lit ''+447'', sms_text = [65], sms_part = None, sms_rp_mr = 5, sms_is_type_zero = False\<rparr>"
    using sample_request_sms [of 65 None] by simp
  then have "carries_text (sample_request None 65)" by (simp add: request_sms_carries_text)
  moreover have "\<not> is_confirmed (me_meanwhile (sample_env True) (ms_dedupe sample_state)) k" for k
    by (simp add: sample_env_def sample_state_def is_confirmed_def dedupe_new_def)
  ultimately have "me_relayed (sample_env True)"
    using sms_report_only_when_safe [OF st'] sample_state_ok sms by simp
  with st' show ?thesis by simp
qed

text \<open>
  C26: A text that could not be handed over is not acknowledged. When the relay fails the attempt is
  all that happens: no answer and no report goes to the network, the session and the reports in flight
  are as before, and the claim is released, so the retransmission is handled as a fresh text.
\<close>

theorem sms_failed_relay_unacknowledged:
  assumes "handle_message p env req st = Some (acts, st')" "list_ex is_relay acts" "\<not> me_relayed env"
    and "dedupe_inv (ms_dedupe st)" "reassembly_inv (ms_reassembly st)"
  shows "(\<exists>text at. acts = [RelaySms (request_sender req) text at]) \<and> ms_session st' = ms_session st \<and>
    ms_reports st' = ms_reports st \<and> \<not> contains_key (ms_dedupe st') (request_key req)"
proof -
  have relay: "filter is_relay acts \<noteq> []" using assms(2) by (auto simp: list_ex_iff filter_empty_conv)
  then have "carries_text req" using handle_message_no_text [OF _ assms(1)] by blast
  note handled = handle_text_SomeD [OF assms(1) [unfolded handle_message_text [OF this]] assms(4), folded request_key_def]
  from relay handled have "handle_claimed p env req (request_sms req) (request_sender req) (request_key req) (request_text req)
      (st\<lparr>ms_dedupe := snd (admit (ms_dedupe st) (request_key req))\<rparr>) = Some (acts, st')" by (auto split: if_splits)
  note claimed = handle_claimed_SomeD [OF this, simplified, OF assms(5)]
  with relay assms(3) show ?thesis
    by (auto simp: contains_key_iff forget_def)
qed

theorem sms_failed_relay_unacknowledged_witness:
  "\<exists>acts st'. handle_message \<lparr>pr_sms_delivery_report = True, pr_sms_report_pcscf_route = False\<rparr> (sample_env False)
      (sample_request None 65) sample_state = Some (acts, st') \<and> list_ex is_relay acts \<and>
    \<not> contains_key (ms_dedupe st') (request_key (sample_request None 65))"
proof -
  obtain st' where st': "handle_message \<lparr>pr_sms_delivery_report = True, pr_sms_report_pcscf_route = False\<rparr> (sample_env False)
      (sample_request None 65) sample_state = Some ([RelaySms (lit ''+447'') [65] (lit ''now'')], st')"
    using sample_handled [of False] by auto
  moreover have "\<not> me_relayed (sample_env False)" by (simp add: sample_env_def)
  ultimately show ?thesis
    using sms_failed_relay_unacknowledged [OF st'] sample_state_ok by simp
qed

text \<open>
  A message in parts is relayed once and whole. When its parts arrive in any order, none of them
  claimed before, and the hand-over works, the handler relays exactly one text, at the last arrival:
  the parts joined in their sequence order.
\<close>

theorem multipart_sms_relayed_once:
  fixes ms :: "(message_env \<times> sip_request \<times> u8 \<times> text_string) list"
  assumes "list_all (carries_part sender ref tot) ms" "distinct (map part_seq ms)"
    and "set (map part_seq ms) = {1..tot}" "tot \<noteq> 0"
    and "\<forall>(_, _, seq, t) \<in> set ms. \<not> contains_key (ms_dedupe st) (part_key sender tot seq t)"
    and "map_of (ra_buffers (ms_reassembly st)) (sender, ref) = None"
    and "dedupe_inv (ms_dedupe st)" "reassembly_inv (ms_reassembly st)" "default_impu (ms_session st) \<noteq> None"
  shows "\<exists>acts st'. handle_all p (part_requests ms) st = Some (acts, st') \<and>
    filter is_relay acts =
      [RelaySms sender (concat (map (\<lambda>i. text_at (map (\<lambda>(env, _, seq, t). (seq, t, me_now env)) ms) (word_of_nat i)) [1..<Suc (unat tot)]))
        (me_received_at (fst (last ms)))]"
  using handle_whole_message [OF assms, of p] by blast

definition sample_params :: message_params where
  "sample_params = \<lparr>pr_sms_delivery_report = True, pr_sms_report_pcscf_route = False\<rparr>"

lemma sample_parts_carried:
  "list_all (carries_part (lit ''+447'') 7 2) [(sample_env True, sample_request (Some 2) 66, 2, [66]), (sample_env True, sample_request (Some 1) 65, 1, [65])]"
  using sample_request_sms [of 66 "Some 2"] sample_request_sms [of 65 "Some 1"]
  by (simp add: carries_part_def sample_env_def)

theorem multipart_sms_relayed_once_witness:
  "\<exists>acts st'. handle_all sample_params (part_requests [(sample_env True, sample_request (Some 2) 66, 2, [66]),
      (sample_env True, sample_request (Some 1) 65, 1, [65])]) sample_state = Some (acts, st') \<and>
    filter is_relay acts = [RelaySms (lit ''+447'') [65, 66] (lit ''now'')]"
  using multipart_sms_relayed_once [OF sample_parts_carried, of sample_state sample_params] sample_state_ok
  by (simp add: part_seq_def u8_upto_2 insert_commute contains_key_iff sample_state_def [THEN arg_cong, of ms_reassembly]
      upt_conv_Cons text_at_def sample_env_def)

text \<open>
  Of a message in parts only the last claim is ever settled. After the whole message has been
  relayed, the claims of all its other parts are still unconfirmed: a retransmission of such a part
  gets no delivery report, and the other route does not learn that its copy is safe to discard.
\<close>

theorem multipart_earlier_claims_unconfirmed:
  fixes ms :: "(message_env \<times> sip_request \<times> u8 \<times> text_string) list"
  assumes "list_all (carries_part sender ref tot) ms" "distinct (map part_seq ms)"
    and "set (map part_seq ms) = {1..tot}" "tot \<noteq> 0"
    and "\<forall>(_, _, seq, t) \<in> set ms. \<not> contains_key (ms_dedupe st) (part_key sender tot seq t)"
    and "map_of (ra_buffers (ms_reassembly st)) (sender, ref) = None"
    and "dedupe_inv (ms_dedupe st)" "reassembly_inv (ms_reassembly st)" "default_impu (ms_session st) \<noteq> None"
  shows "\<exists>acts st'. handle_all p (part_requests ms) st = Some (acts, st') \<and>
    (\<forall>(_, _, seq, t) \<in> set (butlast ms). \<not> is_confirmed (ms_dedupe st') (part_key sender tot seq t))"
  using handle_whole_message [OF assms, of p] by blast

theorem multipart_earlier_claims_unconfirmed_witness:
  "\<exists>acts st'. handle_all sample_params (part_requests [(sample_env True, sample_request (Some 2) 66, 2, [66]),
      (sample_env True, sample_request (Some 1) 65, 1, [65])]) sample_state = Some (acts, st') \<and>
    \<not> is_confirmed (ms_dedupe st') (part_key (lit ''+447'') 2 2 [66])"
  using multipart_earlier_claims_unconfirmed [OF sample_parts_carried, of sample_state sample_params] sample_state_ok
  by (simp add: part_seq_def u8_upto_2 insert_commute contains_key_iff sample_state_def [THEN arg_cong, of ms_reassembly])

end
