(* ===== verification/Sms_Sweep.thy ===== *)
theory Sms_Sweep
  imports Sms_Inbound
begin

text \<open>
  Texts the network left in the modem's own storage (\<^verbatim>\<open>sms/reader.rs\<close> and the sweep of
  \<^verbatim>\<open>volte/sms.rs\<close>): listing, reading, relaying and clearing them. The answers of the modem and of the
  control channel, the clock, and what the registration route does to the shared store between two
  takings of its lock are arguments. A pass stops early when its time budget runs out; a stored text is
  cleared only when it is known to have been handed over.
\<close>

section \<open>Reading stored messages\<close>

datatype at_response = AtOk "text_string list" | AtError text_string | AtCmeError u32 text_string

datatype sms_error =
    PortFailed | CmgrFailed u32 | CmglFailed | CmgdFailed u32 | NoCmgrHeader u32 | NoPduLine u32 | NotHex u32 | EmptyPdu u32
  | SmscExceeds u32 | BadPdu u32 pdu_error

record incoming_sms =
  is_sender :: text_string
  is_body :: text_string
  is_index :: u32

text \<open>\<open>hex_decode\<close> slices the text two bytes at a time; \<open>None\<close> is the panic of a slice that ends inside
  a character. The characters are followed with the length of their encoding.\<close>

fun hex_pairs :: "text_string \<Rightarrow> bytes option option" where
  "hex_pairs [] = Some (Some [])"
| "hex_pairs (a # s) =
     (if 128 \<le> a then (if length (utf8_char a) = 2 then Some None else None)
      else
        (case s of
           [] \<Rightarrow> None
         | b # s \<Rightarrow>
             if 128 \<le> b then None
             else (case hex_pair (word_of_nat a) (word_of_nat b) of
                     None \<Rightarrow> Some None
                   | Some v \<Rightarrow> map_option (map_option (\<lambda>r. v # r)) (hex_pairs s))))"

definition hex_decode :: "text_string \<Rightarrow> bytes option option" where
  "hex_decode s = (if s = [] \<or> odd (length (as_bytes s)) then Some None else hex_pairs s)"

definition decode_pdu_line :: "text_string \<Rightarrow> u32 \<Rightarrow> (sms_error + incoming_sms) option" where
  "decode_pdu_line hex index =
     map_option
       (\<lambda>decoded.
         and_then (ok_or decoded (NotHex index)) (\<lambda>bs.
         and_then (ok_or (get_at bs 0) (EmptyPdu index)) (\<lambda>smsc_len.
         and_then (if 1 + unat smsc_len \<le> length bs then Inr (drop (1 + unat smsc_len) bs) else Inl (SmscExceeds index)) (\<lambda>tpdu.
         (case decode_sms_deliver_tpdu tpdu of
            Inl e \<Rightarrow> Inl (BadPdu index e)
          | Inr d \<Rightarrow> Inr \<lparr>is_sender = sms_sender d, is_body = labelled_body d, is_index = index\<rparr>)))))
       (hex_decode (trim hex))"

definition parse_cmgr_response :: "text_string list \<Rightarrow> u32 \<Rightarrow> (sms_error + incoming_sms) option" where
  "parse_cmgr_response lines index =
     (case dropWhile (\<lambda>l. \<not> starts_with l (lit ''+CMGR:'')) lines of
        [] \<Rightarrow> Some (Inl (NoCmgrHeader index))
      | _ # rest \<Rightarrow>
          (case find (\<lambda>l. trim l \<noteq> []) rest of
             None \<Rightarrow> Some (Inl (NoPduLine index))
           | Some hex_line \<Rightarrow> decode_pdu_line hex_line index))"

text \<open>The answer to the command, or the failure to get the modem, the port or an answer.\<close>

type_synonym at_answer = "sms_error + at_response"

definition read_sms :: "at_answer \<Rightarrow> u32 \<Rightarrow> (sms_error + incoming_sms) option" where
  "read_sms answer index =
     (case answer of
        Inl e \<Rightarrow> Some (Inl e)
      | Inr (AtOk lines) \<Rightarrow> parse_cmgr_response lines index
      | Inr (AtError _) \<Rightarrow> Some (Inl (CmgrFailed index))
      | Inr (AtCmeError _ _) \<Rightarrow> Some (Inl (CmgrFailed index)))"

definition cmgl_index :: "text_string \<Rightarrow> u32 option" where
  "cmgl_index l =
     (case strip_prefix (trim l) (lit ''+CMGL:'') of
        None \<Rightarrow> None
      | Some payload \<Rightarrow> map_option word_of_nat (parse_uint MAX_U32 (trim (hd (split_on 44 payload)))))"

definition parse_cmgl_indexes :: "text_string list \<Rightarrow> u32 list" where
  "parse_cmgl_indexes lines = List.map_filter cmgl_index lines"

definition list_sms_indexes :: "at_answer \<Rightarrow> sms_error + u32 list" where
  "list_sms_indexes answer =
     (case answer of
        Inl e \<Rightarrow> Inl e
      | Inr (AtOk lines) \<Rightarrow> Inr (parse_cmgl_indexes lines)
      | Inr (AtError _) \<Rightarrow> Inl CmglFailed
      | Inr (AtCmeError _ _) \<Rightarrow> Inl CmglFailed)"

definition delete_sms :: "at_answer \<Rightarrow> u32 \<Rightarrow> sms_error + unit" where
  "delete_sms answer index =
     (case answer of
        Inl e \<Rightarrow> Inl e
      | Inr (AtOk _) \<Rightarrow> Inr ()
      | Inr (AtError _) \<Rightarrow> Inl (CmgdFailed index)
      | Inr (AtCmeError _ _) \<Rightarrow> Inl (CmgdFailed index))"

section \<open>Time budgets and opening the port\<close>

definition MODEM_SWEEP_INTERVAL :: duration where
  "MODEM_SWEEP_INTERVAL = secs 20"

definition passes_per_signal_poll :: "nat \<Rightarrow> nat option" where
  "passes_per_signal_poll interval_secs =
     (if interval_secs = 0 then None
      else (let sweep = max (MODEM_SWEEP_INTERVAL div 1000000000) 1;
                n = (interval_secs + sweep - 1) div sweep
            in Some (if n \<le> MAX_U32 then n else MAX_U32)))"

definition signal_due_on_pass :: "nat \<Rightarrow> nat \<Rightarrow> bool" where
  "signal_due_on_pass pass every_n_passes \<longleftrightarrow> pass mod max every_n_passes 1 = 0"

definition OPEN_RETRY_ATTEMPTS :: nat where
  "OPEN_RETRY_ATTEMPTS = 4"

definition OPEN_RETRY_BASE_DELAY :: duration where
  "OPEN_RETRY_BASE_DELAY = 300000000"

text \<open>The attempts to open the port: what each gives, and the pauses slept in between.\<close>

fun open_attempts :: "nat \<Rightarrow> bool list \<Rightarrow> bool \<times> duration list" where
  "open_attempts attempt [] = (False, [])"
| "open_attempts attempt (opened # later) =
     (if opened then (True, [])
      else if OPEN_RETRY_ATTEMPTS \<le> attempt + 1 then (False, [])
      else (case open_attempts (attempt + 1) later of
              (ok, pauses) \<Rightarrow> (ok, OPEN_RETRY_BASE_DELAY * (attempt + 1) # pauses)))"

definition open_with_retry :: "bool list \<Rightarrow> bool \<times> duration list" where
  "open_with_retry attempts = open_attempts 0 attempts"

definition SWEEP_PASS_BUDGET :: duration where
  "SWEEP_PASS_BUDGET = secs 60"

definition PER_MESSAGE_PORT_BUDGET :: duration where
  "PER_MESSAGE_PORT_BUDGET = secs 30"

definition PER_MESSAGE_RELAY_BUDGET :: duration where
  "PER_MESSAGE_RELAY_BUDGET = secs 15"

definition MODEM_LOCK_TIMEOUT :: duration where
  "MODEM_LOCK_TIMEOUT = secs 20"

text \<open>A pass's budget is its deadline.\<close>

definition budget_start :: "instant \<Rightarrow> instant" where
  "budget_start now = now + SWEEP_PASS_BUDGET"

definition budget_remaining :: "instant \<Rightarrow> instant \<Rightarrow> duration" where
  "budget_remaining deadline now = deadline - now"

definition room_for :: "instant \<Rightarrow> instant \<Rightarrow> duration \<Rightarrow> bool" where
  "room_for deadline now need \<longleftrightarrow> need \<le> budget_remaining deadline now"

definition lock_wait :: "instant \<Rightarrow> instant \<Rightarrow> duration" where
  "lock_wait deadline now = min (budget_remaining deadline now) MODEM_LOCK_TIMEOUT"

section \<open>Waiting for the other route\<close>

definition CROSS_ROUTE_POLL_INTERVAL :: duration where
  "CROSS_ROUTE_POLL_INTERVAL = 500000000"

definition CROSS_ROUTE_SETTLE_TIMEOUT :: duration where
  "CROSS_ROUTE_SETTLE_TIMEOUT = secs 8"

datatype claim_resolution = ResConfirmed | ResReclaimed | ResTimedOut

text \<open>Each poll sees the store after what the other route did since the last one, and the clock after
  its check. \<open>None\<close>: still polling after the polls given.\<close>

fun poll_claim :: "text_string \<Rightarrow> instant \<Rightarrow> ((dedupe \<Rightarrow> dedupe) \<times> instant) list \<Rightarrow> dedupe \<Rightarrow> claim_resolution option \<times> dedupe" where
  "poll_claim key deadline [] d = (None, d)"
| "poll_claim key deadline ((other, now) # polls) d =
     (let d = other d
      in if is_confirmed d key then (Some ResConfirmed, d)
         else if \<not> contains_key d key then (Some ResReclaimed, snd (admit d key))
         else if deadline \<le> now then (Some ResTimedOut, d)
         else poll_claim key deadline polls d)"

definition wait_for_resolution :: "text_string \<Rightarrow> instant \<Rightarrow> ((dedupe \<Rightarrow> dedupe) \<times> instant) list \<Rightarrow> dedupe \<Rightarrow> claim_resolution option \<times> dedupe" where
  "wait_for_resolution key now polls d = poll_claim key (now + CROSS_ROUTE_SETTLE_TIMEOUT) polls d"

section \<open>One pass\<close>

text \<open>What the outside contributes to the handling of one stored message: the clock before it and when
  a wait for the other route starts, what that route does before it, during the wait and before the
  settlement, and the relay's answer.\<close>

record sweep_env =
  sw_now :: instant
  sw_before :: "dedupe \<Rightarrow> dedupe"
  sw_waiting_from :: instant
  sw_polls :: "((dedupe \<Rightarrow> dedupe) \<times> instant) list"
  sw_relaying :: "dedupe \<Rightarrow> dedupe"
  sw_relayed :: bool

definition through_modem :: "incoming_sms \<Rightarrow> inbound_message" where
  "through_modem sms =
     \<lparr>im_route = ThroughModem, im_sender = is_sender sms, im_body = is_body sms, im_modem_index = Some (is_index sms)\<rparr>"

definition sms_key :: "incoming_sms \<Rightarrow> text_string" where
  "sms_key sms = dedupe_key (through_modem sms)"

text \<open>The relay attempt of a claimed message: whether it was handed over, and the settled store.\<close>

definition relay_stored :: "sweep_env \<Rightarrow> incoming_sms \<Rightarrow> dedupe \<Rightarrow> bool \<times> dedupe" where
  "relay_stored env sms d =
     (let d = sw_relaying env d
      in if sw_relayed env then (True, confirm d (sms_key sms)) else (False, forget d (sms_key sms)))"

text \<open>One message of phase two: relay attempts made, whether its stored copy may go, the store;
  \<open>None\<close> while the wait for the other route is not over.\<close>

definition handle_stored :: "sweep_env \<Rightarrow> incoming_sms \<Rightarrow> dedupe \<Rightarrow> (bool \<times> bool \<times> dedupe) option" where
  "handle_stored env sms d =
     (let (disposition, d) = decide (sw_before env d) (through_modem sms)
      in case disposition of
           Handle \<Rightarrow> (case relay_stored env sms d of (ok, d) \<Rightarrow> Some (True, ok, d))
         | AcknowledgeOnly \<Rightarrow>
             (case wait_for_resolution (sms_key sms) (sw_waiting_from env) (sw_polls env) d of
                (None, d) \<Rightarrow> None
              | (Some ResConfirmed, d) \<Rightarrow> Some (False, True, d)
              | (Some ResReclaimed, d) \<Rightarrow> (case relay_stored env sms d of (ok, d) \<Rightarrow> Some (True, ok, d))
              | (Some ResTimedOut, d) \<Rightarrow> Some (False, False, d)))"

text \<open>Phase two: the relays attempted with their answers, the indexes to clear, the store.\<close>

fun relay_all :: "instant \<Rightarrow> (sweep_env \<times> incoming_sms) list \<Rightarrow> dedupe \<Rightarrow> ((incoming_sms \<times> bool) list \<times> u32 list \<times> dedupe) option" where
  "relay_all deadline [] d = Some ([], [], d)"
| "relay_all deadline ((env, sms) # ms) d =
     (if \<not> room_for deadline (sw_now env) PER_MESSAGE_RELAY_BUDGET then Some ([], [], d)
      else
        (case handle_stored env sms d of
           None \<Rightarrow> None
         | Some (attempted, clear, d) \<Rightarrow>
             map_option
               (\<lambda>(relays, to_delete, d).
                 ((if attempted then [(sms, sw_relayed env)] else []) @ relays,
                  (if clear then [is_index sms] else []) @ to_delete, d))
               (relay_all deadline ms d)))"

text \<open>Phase one: the messages read; a panic of the decoder is \<open>None\<close>.\<close>

fun read_all :: "instant \<Rightarrow> (instant \<times> at_answer) list \<Rightarrow> u32 list \<Rightarrow> incoming_sms list option" where
  "read_all deadline ((now, answer) # answers) (index # indexes) =
     (if \<not> room_for deadline now PER_MESSAGE_PORT_BUDGET then Some []
      else
        (case read_sms answer index of
           None \<Rightarrow> None
         | Some (Inr sms) \<Rightarrow> map_option (\<lambda>rest. sms # rest) (read_all deadline answers indexes)
         | Some (Inl _) \<Rightarrow> read_all deadline answers indexes))"
| "read_all deadline _ _ = Some []"

text \<open>Phase three: the delete commands sent, of the sessions whose port could be had.\<close>

fun delete_all :: "instant \<Rightarrow> (instant \<times> bool) list \<Rightarrow> u32 list \<Rightarrow> u32 list" where
  "delete_all deadline ((now, port) # later) (index # indexes) =
     (if \<not> room_for deadline now PER_MESSAGE_PORT_BUDGET then []
      else (if port then [index] else []) @ delete_all deadline later indexes)"
| "delete_all deadline _ _ = []"

record sweep_result =
  sr_relays :: "(incoming_sms \<times> bool) list"
  sr_deleted :: "u32 list"
  sr_dedupe :: dedupe

text \<open>The whole pass: started at an instant, with the answer to the listing, the answers to the reads,
  the environments of the relays, and the clock before each delete with whether its port could be had.\<close>

definition sweep_modem_storage ::
  "instant \<Rightarrow> at_answer \<Rightarrow> (instant \<times> at_answer) list \<Rightarrow> sweep_env list \<Rightarrow> (instant \<times> bool) list \<Rightarrow> dedupe \<Rightarrow>
   (sms_error + sweep_result) option" where
  "sweep_modem_storage start listing reads envs deletes d =
     (let deadline = budget_start start
      in case list_sms_indexes listing of
           Inl e \<Rightarrow> Some (Inl e)
         | Inr indexes \<Rightarrow>
             (case read_all deadline reads indexes of
                None \<Rightarrow> None
              | Some messages \<Rightarrow>
                  map_option
                    (\<lambda>(relays, to_delete, d).
                      Inr \<lparr>sr_relays = relays, sr_deleted = delete_all deadline deletes to_delete, sr_dedupe = d\<rparr>)
                    (relay_all deadline (zip envs messages) d)))"

section \<open>What a pass relies on and keeps\<close>

text \<open>\<open>D\<close> is the set of keys whose text somebody has handed over. The other route is honest about it:
  whatever it does to the store, it confirms only such keys.\<close>

definition honest :: "text_string set \<Rightarrow> (dedupe \<Rightarrow> dedupe) \<Rightarrow> bool" where
  "honest D f \<longleftrightarrow> (\<forall>d. dd_confirmed d \<subseteq> D \<longrightarrow> dd_confirmed (f d) \<subseteq> D)"

definition honest_env :: "text_string set \<Rightarrow> sweep_env \<Rightarrow> bool" where
  "honest_env D env \<longleftrightarrow> honest D (sw_before env) \<and> honest D (sw_relaying env) \<and> list_all (\<lambda>(f, _). honest D f) (sw_polls env)"

lemma honestD: "honest D f \<Longrightarrow> dd_confirmed d \<subseteq> D \<Longrightarrow> dd_confirmed (f d) \<subseteq> D"
  by (simp add: honest_def)

lemma confirmed_decide_sub: "dd_confirmed (snd (decide d m)) \<subseteq> dd_confirmed d"
  using confirmed_admit [of d "dedupe_key m"] by (simp add: decide_def case_prod_unfold Let_def)

lemma poll_claim_honest:
  assumes "poll_claim key deadline polls d = (res, d')" "list_all (\<lambda>(f, _). honest D f) polls" "dd_confirmed d \<subseteq> D"
  shows "dd_confirmed d' \<subseteq> D \<and> (res = Some ResConfirmed \<longrightarrow> key \<in> D)"
  using assms
proof (induction polls arbitrary: d)
  case (Cons poll polls)
  obtain f now where poll: "poll = (f, now)" by (cases poll)
  with Cons.prems have sub: "dd_confirmed (f d) \<subseteq> D" by (simp add: honest_def)
  with Cons.prems Cons.IH [of "f d"] poll confirmed_admit [of "f d" key] show ?case
    by (auto simp: Let_def is_confirmed_def split: if_splits)
qed simp

lemma relay_stored_honest:
  assumes "relay_stored env sms d = (ok, d')" "honest_env D env" "dd_confirmed d \<subseteq> D" "sw_relayed env \<Longrightarrow> sms_key sms \<in> D"
  shows "dd_confirmed d' \<subseteq> D \<and> ok = sw_relayed env"
  using assms honestD [of D "sw_relaying env" d]
  by (auto simp: relay_stored_def Let_def honest_env_def confirm_def forget_def split: if_splits)

lemma handle_stored_honest:
  assumes "handle_stored env sms d = Some (attempted, clear, d')" "honest_env D env" "dd_confirmed d \<subseteq> D"
    "attempted \<Longrightarrow> sw_relayed env \<Longrightarrow> sms_key sms \<in> D"
  shows "dd_confirmed d' \<subseteq> D \<and> (clear \<longrightarrow> sms_key sms \<in> D)"
proof -
  let ?d = "snd (decide (sw_before env d) (through_modem sms))"
  have "dd_confirmed (sw_before env d) \<subseteq> D" using assms(2,3) by (simp add: honest_env_def honest_def)
  then have d: "dd_confirmed ?d \<subseteq> D" using confirmed_decide_sub by blast
  have polls: "list_all (\<lambda>(f, _). honest D f) (sw_polls env)" using assms(2) by (simp add: honest_env_def)
  show ?thesis
  proof (cases "fst (decide (sw_before env d) (through_modem sms))")
    case Handle
    with assms(1) obtain ok where "relay_stored env sms ?d = (ok, d')" "attempted" "clear = ok"
      by (auto simp: handle_stored_def split: prod.splits)
    with relay_stored_honest [OF _ assms(2) d] assms(4) show ?thesis by auto
  next
    case AcknowledgeOnly
    obtain res d'' where wait: "wait_for_resolution (sms_key sms) (sw_waiting_from env) (sw_polls env) ?d = (res, d'')" by fastforce
    then have d'': "dd_confirmed d'' \<subseteq> D" "res = Some ResConfirmed \<Longrightarrow> sms_key sms \<in> D"
      using poll_claim_honest [OF _ polls d] by (auto simp: wait_for_resolution_def)
    show ?thesis
    proof (cases "res = Some ResReclaimed")
      case True
      with assms(1) AcknowledgeOnly wait obtain ok where "relay_stored env sms d'' = (ok, d')" "attempted" "clear = ok"
        by (auto simp: handle_stored_def split: prod.splits)
      with relay_stored_honest [OF _ assms(2) d''(1)] assms(4) show ?thesis by auto
    next
      case False
      with assms(1) AcknowledgeOnly wait d'' show ?thesis
        by (auto simp: handle_stored_def split: prod.splits option.splits claim_resolution.splits)
    qed
  qed
qed

lemma relay_all_honest:
  assumes "relay_all deadline ms d = Some (relays, to_delete, d')" "list_all (\<lambda>(env, _). honest_env D env) ms"
    "dd_confirmed d \<subseteq> D" "\<forall>(sms, ok) \<in> set relays. ok \<longrightarrow> sms_key sms \<in> D"
  shows "dd_confirmed d' \<subseteq> D \<and> (\<forall>index \<in> set to_delete. \<exists>sms \<in> snd ` set ms. is_index sms = index \<and> sms_key sms \<in> D)"
  using assms
proof (induction ms arbitrary: d relays to_delete)
  case (Cons m ms)
  obtain env sms where m: "m = (env, sms)" by (cases m)
  show ?case
  proof (cases "room_for deadline (sw_now env) PER_MESSAGE_RELAY_BUDGET")
    case False
    with Cons.prems m show ?thesis by simp
  next
    case True
    with Cons.prems(1) m obtain attempted clear d1 relays' to_delete' where
      step: "handle_stored env sms d = Some (attempted, clear, d1)" "relay_all deadline ms d1 = Some (relays', to_delete', d')"
      "relays = (if attempted then [(sms, sw_relayed env)] else []) @ relays'"
      "to_delete = (if clear then [is_index sms] else []) @ to_delete'"
      by (auto split: option.splits)
    have "dd_confirmed d1 \<subseteq> D \<and> (clear \<longrightarrow> sms_key sms \<in> D)"
      by (rule handle_stored_honest [OF step(1)]) (use Cons.prems m step(3) in auto)
    moreover have "dd_confirmed d' \<subseteq> D \<and> (\<forall>index \<in> set to_delete'. \<exists>sms \<in> snd ` set ms. is_index sms = index \<and> sms_key sms \<in> D)"
      if "dd_confirmed d1 \<subseteq> D"
      using Cons.IH [OF step(2) _ that] Cons.prems(2,4) step(3) by auto
    ultimately show ?thesis using step(4) m by auto
  qed
qed simp

lemma set_delete_all: "set (delete_all deadline nows indexes) \<subseteq> set indexes"
  by (induction deadline nows indexes rule: delete_all.induct) auto

text \<open>With two polls of the clock at least half a second apart, the seventeenth finds the deadline passed.\<close>

lemma poll_claim_returns:
  assumes "i < length polls" "deadline \<le> snd (polls ! i)"
  shows "\<exists>res d'. poll_claim key deadline polls d = (Some res, d')"
  using assms
proof (induction polls arbitrary: d i)
  case (Cons poll polls)
  obtain f now where poll: "poll = (f, now)" by (cases poll)
  show ?case
  proof (cases i)
    case 0
    with Cons.prems poll show ?thesis by (auto simp: Let_def)
  next
    case (Suc j)
    with Cons.prems Cons.IH [of j "f d"] poll show ?thesis by (auto simp: Let_def)
  qed
qed simp

text \<open>One character that is not ASCII makes the slices of \<open>hex_decode\<close> end inside it.\<close>

definition hex_char :: "nat \<Rightarrow> bool" where
  "hex_char c \<longleftrightarrow> is_ascii_digit c \<or> 65 \<le> c \<and> c \<le> 70 \<or> 97 \<le> c \<and> c \<le> 102"

lemma hex_char_props:
  "hex_char c \<Longrightarrow> c < 128" "hex_char c \<Longrightarrow> \<not> is_whitespace c" "hex_char c \<Longrightarrow> utf8_char c = [c]"
  by (auto simp: hex_char_def is_ascii_digit_def is_whitespace_def utf8_char_def)

lemma hex_pair_chars:
  assumes "hex_char a" "hex_char b"
  shows "hex_pair (word_of_nat a) (word_of_nat b) \<noteq> None"
proof -
  have "unat (word_of_nat c :: u8) = c" if "hex_char c" for c
    using hex_char_props(1) [OF that] by (simp add: unat_word_of_nat_u8)
  with assms have "hex_digit (word_of_nat a) \<noteq> None" "hex_digit (word_of_nat b) \<noteq> None"
    by (auto simp: hex_digit_def hex_char_def is_ascii_digit_def Let_def)
  then show ?thesis by (auto simp: hex_pair_def)
qed

lemma hex_pairs_garbled:
  assumes "list_all hex_char xs" "128 \<le> c" "length (utf8_char c) \<noteq> 2"
  shows "hex_pairs (xs @ c # ys) = None"
  using assms(1)
proof (induction xs rule: induct_list012)
  case 1
  then show ?case using assms(2,3) by simp
next
  case (2 a)
  then show ?case using assms(2) hex_char_props(1) [of a] by simp
next
  case (3 a b xs)
  then show ?case
    using hex_char_props(1) [of a] hex_char_props(1) [of b] hex_pair_chars [of a b] by (auto split: option.split)
qed

section \<open>Properties\<close>

text \<open>
  C4: A stored text is cleared only when it is safe. Let \<open>D\<close> be the keys of the texts that have been
  handed over, by this pass or by the registration route, which never confirms another key. Then every
  index the pass tells the modem to delete is the index of a message it read whose text is among them,
  and the pass itself confirms only such keys.
\<close>

theorem sweep_clears_only_handed_over:
  assumes "sweep_modem_storage start listing reads envs deletes d = Some (Inr r)"
    and "list_all (honest_env D) envs" "dd_confirmed d \<subseteq> D" "\<forall>(sms, ok) \<in> set (sr_relays r). ok \<longrightarrow> sms_key sms \<in> D"
  shows "\<exists>indexes messages. list_sms_indexes listing = Inr indexes \<and>
      read_all (budget_start start) reads indexes = Some messages \<and>
      (\<forall>index \<in> set (sr_deleted r). \<exists>sms \<in> set messages. is_index sms = index \<and> sms_key sms \<in> D) \<and>
      dd_confirmed (sr_dedupe r) \<subseteq> D"
proof -
  obtain indexes messages to_delete where run: "list_sms_indexes listing = Inr indexes"
    "read_all (budget_start start) reads indexes = Some messages"
    "relay_all (budget_start start) (zip envs messages) d = Some (sr_relays r, to_delete, sr_dedupe r)"
    "sr_deleted r = delete_all (budget_start start) deletes to_delete"
    using assms(1) by (auto simp: sweep_modem_storage_def Let_def split: sum.splits option.splits)
  have "list_all (\<lambda>(env, _). honest_env D env) (zip envs messages)"
    using assms(2) by (auto simp: list_all_iff dest: set_zip_leftD)
  from relay_all_honest [OF run(3) this assms(3,4)]
  have "dd_confirmed (sr_dedupe r) \<subseteq> D" and
    del: "\<forall>index \<in> set to_delete. \<exists>sms \<in> snd ` set (zip envs messages). is_index sms = index \<and> sms_key sms \<in> D"
    by blast+
  moreover have "snd ` set (zip envs messages) \<subseteq> set messages" by (auto dest: set_zip_rightD)
  ultimately show ?thesis using run set_delete_all [of "budget_start start" deletes to_delete]
    by (intro exI [of _ indexes] exI [of _ messages]) (auto 0 4)
qed

text \<open>A storage with one text, the letter A from +447, at index 3.\<close>

definition sample_listing :: at_answer where
  "sample_listing = Inr (AtOk [lit ''+CMGL: 3,1,,16''])"

definition sample_read :: at_answer where
  "sample_read = Inr (AtOk [lit ''+CMGR: 1,,16'', lit ''0004039144F7000800000000000000020041''])"

definition sample_sweep_env :: sweep_env where
  "sample_sweep_env = \<lparr>sw_now = 0, sw_before = (\<lambda>d. d), sw_waiting_from = 0, sw_polls = [], sw_relaying = (\<lambda>d. d), sw_relayed = True\<rparr>"

lemma sample_read_decoded:
  "read_sms sample_read 3 = Some (Inr \<lparr>is_sender = lit ''+447'', is_body = [65], is_index = 3\<rparr>)"
proof -
  let ?hex = "lit ''0004039144F7000800000000000000020041''"
  let ?tpdu = "[4, 3, 0x91, 0x44, 0xF7, 0, 8, 0, 0, 0, 0, 0, 0, 0, 2, 0, 65] :: bytes"
  have hex: "hex_decode (trim ?hex) = Some (Some (0 # ?tpdu))"
    by (simp add: hex_decode_def lit_def trim_def trim_start_def trim_end_def is_whitespace_def as_bytes_def utf8_char_def
        hex_pair_def hex_digit_def)
  let ?m = "sample_text_delivery None 65"
  have "?tpdu = tpdu_of ?m"
    by (simp add: tpdu_of_def sample_text_delivery_def address_field_def user_data_field_def from_dcs_def header_of_def
        utf16_encode_def utf16_code_def to_be16_def)
  moreover have "delivery_ok ?m"
    by (simp add: sample_text_delivery_def delivery_ok_def address_ok_def address_field_def header_ok_def text_ok_def
        from_dcs_def is_scalar_def user_data_field_def header_of_def utf16_encode_def utf16_code_def to_be16_def)
  ultimately have "decode_sms_deliver_tpdu ?tpdu =
      Inr \<lparr>sms_sender = lit ''+447'', sms_text = [65], sms_part = None, sms_rp_mr = 0, sms_is_type_zero = False\<rparr>"
    by (simp only: decode_sms_deliver_tpdu_def tpdu_parse_tpdu_of)
      (simp add: sample_text_delivery_def address_text_def lit_def part_of_def is_type_zero_pid_iff)
  moreover have "starts_with (lit ''+CMGR: 1,,16'') (lit ''+CMGR:'')" "\<not> starts_with ?hex (lit ''+CMGR:'')" "trim ?hex \<noteq> []"
    by (simp_all add: starts_with_def lit_def trim_def trim_start_def trim_end_def is_whitespace_def)
  ultimately show ?thesis
    using hex by (simp add: read_sms_def sample_read_def parse_cmgr_response_def decode_pdu_line_def labelled_body_def)
qed

lemma sample_sweep:
  "\<exists>d. sweep_modem_storage 0 sample_listing [(0, sample_read)] [sample_sweep_env] [(0, True)] (dedupe_new 64) =
    Some (Inr \<lparr>sr_relays = [(\<lparr>is_sender = lit ''+447'', is_body = [65], is_index = 3\<rparr>, True)], sr_deleted = [3], sr_dedupe = d\<rparr>)"
proof -
  have "list_sms_indexes sample_listing = Inr [3]"
    by (simp add: list_sms_indexes_def sample_listing_def parse_cmgl_indexes_def cmgl_index_def lit_def trim_def trim_start_def
        trim_end_def is_whitespace_def strip_prefix_def starts_with_def map_filter_simps parse_uint_def is_ascii_digit_def
        digits_value_def MAX_U32_def)
  then show ?thesis
    by (simp add: sweep_modem_storage_def Let_def sample_read_decoded room_for_def budget_remaining_def budget_start_def
        SWEEP_PASS_BUDGET_def PER_MESSAGE_PORT_BUDGET_def PER_MESSAGE_RELAY_BUDGET_def sample_sweep_env_def handle_stored_def
        decide_def admit_def contains_key_def dedupe_new_def relay_stored_def)
qed

theorem sweep_clears_only_handed_over_witness:
  "\<exists>r. sweep_modem_storage 0 sample_listing [(0, sample_read)] [sample_sweep_env] [(0, True)] (dedupe_new 64) = Some (Inr r) \<and>
    sr_deleted r = [3] \<and> dd_confirmed (sr_dedupe r) \<subseteq> {lit ''+447'' @ [1, 65]}"
proof -
  obtain r where r: "sweep_modem_storage 0 sample_listing [(0, sample_read)] [sample_sweep_env] [(0, True)] (dedupe_new 64) = Some (Inr r)"
    "sr_relays r = [(\<lparr>is_sender = lit ''+447'', is_body = [65], is_index = 3\<rparr>, True)]" "sr_deleted r = [3]"
    using sample_sweep by fastforce
  have "dd_confirmed (sr_dedupe r) \<subseteq> {lit ''+447'' @ [1, 65]}"
    using sweep_clears_only_handed_over [OF r(1), of "{lit ''+447'' @ [1, 65]}"] r(2)
    by (simp add: honest_env_def honest_def sample_sweep_env_def dedupe_new_def sms_key_def through_modem_def dedupe_key_def)
      blast
  with r show ?thesis by blast
qed

text \<open>
  C29: The wait for the other route ends. However the other route changes the store, with at least the
  poll interval between two looks at the clock the wait is over after at most seventeen polls, with a
  definite answer.
\<close>

theorem wait_for_resolution_returns:
  assumes "17 \<le> length polls" "\<forall>i < length polls. now + i * CROSS_ROUTE_POLL_INTERVAL \<le> snd (polls ! i)"
  shows "\<exists>res d'. wait_for_resolution key now polls d = (Some res, d')"
  unfolding wait_for_resolution_def
proof (rule poll_claim_returns [of 16])
  show "now + CROSS_ROUTE_SETTLE_TIMEOUT \<le> snd (polls ! 16)"
    using assms(1) spec [OF assms(2), of 16] by (simp add: CROSS_ROUTE_SETTLE_TIMEOUT_def CROSS_ROUTE_POLL_INTERVAL_def)
qed (use assms in simp)

theorem wait_for_resolution_returns_witness:
  "\<exists>res d'. wait_for_resolution [7] 0 (map (\<lambda>i. (\<lambda>d. d, i * CROSS_ROUTE_POLL_INTERVAL)) [0..<17]) (dedupe_new 64) = (Some res, d')"
  by (rule wait_for_resolution_returns) simp_all

text \<open>
  One garbled byte in a stored message stops the reader. A byte that is not UTF-8 reaches the
  decoder as the replacement character; anywhere in a line of hexadecimal digits of even length it
  makes the decoder panic instead of reporting the line as invalid.
\<close>

theorem garbled_pdu_line_panics:
  assumes "list_all hex_char xs" "list_all hex_char ys" "odd (length xs + length ys)"
  shows "decode_pdu_line (xs @ REPLACEMENT_CHARACTER # ys) index = None"
proof -
  have "list_all (\<lambda>c. \<not> is_whitespace c) (xs @ REPLACEMENT_CHARACTER # ys)"
    using assms(1,2) hex_char_props(2) by (auto simp: list_all_iff REPLACEMENT_CHARACTER_def is_whitespace_def)
  then have trim: "trim (xs @ REPLACEMENT_CHARACTER # ys) = xs @ REPLACEMENT_CHARACTER # ys"
    by (rule trim_no_whitespace)
  have "length (as_bytes zs) = length zs" if "list_all hex_char zs" for zs
    using that by (induction zs) (auto simp: as_bytes_def hex_char_props(3))
  with assms have "even (length (as_bytes (xs @ REPLACEMENT_CHARACTER # ys)))"
    by (simp add: as_bytes_def REPLACEMENT_CHARACTER_def utf8_char_def)
  moreover have "hex_pairs (xs @ REPLACEMENT_CHARACTER # ys) = None"
    by (rule hex_pairs_garbled [OF assms(1)]) (simp_all add: REPLACEMENT_CHARACTER_def utf8_char_def)
  ultimately show ?thesis by (simp add: decode_pdu_line_def trim hex_decode_def)
qed

theorem garbled_pdu_line_panics_witness: "decode_pdu_line (lit ''079'' @ REPLACEMENT_CHARACTER # lit ''1'' @ lit ''0'') 3 = None"
  by (rule garbled_pdu_line_panics) (simp_all add: lit_def hex_char_def is_ascii_digit_def)

end
