(* ===== verification/Card_Pool.thy ===== *)
theory Card_Pool
  imports Restart_Scheduler Sms_Sweep
begin

text \<open>
  The pool of circuit-switched cards (\<^verbatim>\<open>modules/slot.rs\<close>, \<^verbatim>\<open>modules/pool/mod.rs\<close>,
  \<^verbatim>\<open>modules/pool/dispatch.rs\<close>, \<^verbatim>\<open>modules/pool/restart_cycle.rs\<close>): the slot map, its workers, initialisation
  with backoff, rescans, calls, control commands and the scheduled restarts. The slot map is a hash map in some
  iteration order. A worker is known by the number of its command channel. What the modem, the store, the
  SIP side and the clock answer are arguments; what the pool does to them is appended to \<open>cp_log\<close>.
\<close>

section \<open>Slots\<close>

record discovered_module =
  mo_id :: text_string
  mo_serial_port :: text_string
  mo_audio_device :: text_string
  mo_usb_serial :: text_string
  mo_usb_path :: text_string

datatype network_type = FourGLte | ThreeGUmts | TwoGEdge | NoSignal | NoSim | UnknownNetwork

datatype network_mode = Auto | Gsm | Wcdma | Lte

definition parse_network_mode :: "text_string \<Rightarrow> network_mode option" where
  "parse_network_mode s =
     (let s = to_ascii_lowercase s
      in if s = lit ''auto'' then Some Auto
         else if s = lit ''2g'' \<or> s = lit ''gsm'' then Some Gsm
         else if s = lit ''3g'' \<or> s = lit ''wcdma'' then Some Wcdma
         else if s = lit ''4g'' \<or> s = lit ''lte'' then Some Lte
         else None)"

datatype lifecycle_state = Initializing | Ready | Recovering | GivenUp

definition lifecycle_str :: "lifecycle_state \<Rightarrow> text_string" where
  "lifecycle_str l =
     (case l of Initializing \<Rightarrow> lit ''Initializing'' | Ready \<Rightarrow> lit ''Ready'' | Recovering \<Rightarrow> lit ''Recovering''
      | GivenUp \<Rightarrow> lit ''GivenUp'')"

record slot_state =
  ss_slot :: u32
  ss_instance :: nat
  ss_module :: discovered_module
  ss_imei :: text_string
  ss_phone_number :: text_string
  ss_network_type :: network_type
  ss_network_mode :: "network_mode option"
  ss_lifecycle :: lifecycle_state
  ss_retry_count :: nat
  ss_next_retry_at :: "instant option"
  ss_cmd_tx :: "nat option"
  ss_has_active_call :: bool
  ss_hanging_up :: bool
  ss_lifecycle_alert_open :: bool

type_synonym slot_map = "(u32, slot_state) hash_map"

abbreviation module_id :: "slot_state \<Rightarrow> text_string" where
  "module_id s \<equiv> mo_id (ss_module s)"

definition usable_phone :: "text_string \<Rightarrow> text_string option" where
  "usable_phone phone = (let p = trim phone in if p \<noteq> [] \<and> p \<noteq> lit ''Unknown'' then Some p else None)"

definition alert_phone :: "slot_state \<Rightarrow> text_string option" where
  "alert_phone s = usable_phone (ss_phone_number s)"

definition release_call :: "slot_state \<Rightarrow> slot_state" where
  "release_call s = s\<lparr>ss_has_active_call := False, ss_hanging_up := False\<rparr>"

record slot_info =
  si_slot :: u32
  si_state :: text_string
  si_phone :: text_string
  si_network :: network_type
  si_module_id :: text_string
  si_has_active_call :: bool

definition slot_info_of :: "slot_state \<Rightarrow> slot_info" where
  "slot_info_of s =
     \<lparr>si_slot = ss_slot s, si_state = lifecycle_str (ss_lifecycle s),
      si_phone = (if ss_phone_number s = [] then lit ''Unknown'' else ss_phone_number s), si_network = ss_network_type s,
      si_module_id = module_id s, si_has_active_call = ss_has_active_call s\<rparr>"

definition backoff_delay :: "nat \<Rightarrow> nat \<Rightarrow> nat \<Rightarrow> duration" where
  "backoff_delay attempt initial_sec max_sec =
     (let shift = min attempt 30;
          s = min (initial_sec * 2 ^ shift) MAX_U64
      in secs (min s max_sec))"

record task_exit =
  te_slot :: u32
  te_module_id :: text_string
  te_instance :: nat

definition exit_target :: "slot_map \<Rightarrow> task_exit \<Rightarrow> u32 option" where
  "exit_target slots ex =
     (if (case map_of slots (te_slot ex) of Some s \<Rightarrow> ss_instance s = te_instance ex | None \<Rightarrow> False) then Some (te_slot ex)
      else map_option fst (find (\<lambda>(_, s). ss_instance s = te_instance ex) slots))"

text \<open>The modems the pool already holds: the topologies, the card ids of those without one, and the ports.\<close>

record occupied_modems =
  om_usb_paths :: "text_string list"
  om_fallback_card_ids :: "text_string list"
  om_serial_ports :: "text_string list"

definition occupied_from_slots :: "slot_map \<Rightarrow> occupied_modems" where
  "occupied_from_slots slots =
     (let held = map ss_module (filter (\<lambda>s. ss_lifecycle s \<noteq> GivenUp) (map snd slots))
      in \<lparr>om_usb_paths = map mo_usb_path (filter (\<lambda>m. mo_usb_path m \<noteq> []) held),
          om_fallback_card_ids = map mo_id (filter (\<lambda>m. mo_usb_path m = []) held),
          om_serial_ports = map mo_serial_port held\<rparr>)"

definition occupied_contains :: "occupied_modems \<Rightarrow> discovered_module \<Rightarrow> bool" where
  "occupied_contains occ m \<longleftrightarrow>
     mo_serial_port m \<in> set (om_serial_ports occ) \<or>
     mo_usb_path m \<noteq> [] \<and> mo_usb_path m \<in> set (om_usb_paths occ) \<or>
     mo_id m \<in> set (om_fallback_card_ids occ)"

definition owns_its_key :: "slot_state \<Rightarrow> bool" where
  "owns_its_key s \<longleftrightarrow> ss_imei s \<noteq> []"

definition live_slot_at :: "slot_map \<Rightarrow> u32 \<Rightarrow> bool" where
  "live_slot_at slots key = (case map_of slots key of Some s \<Rightarrow> ss_lifecycle s \<noteq> GivenUp \<and> owns_its_key s | None \<Rightarrow> False)"

text \<open>The search over all keys stops within one more than the keys excluded; \<open>None\<close> is the panic of a full map.\<close>

definition free_slot_key_except :: "slot_map \<Rightarrow> u32 option \<Rightarrow> u32 option" where
  "free_slot_key_except slots reserved =
     find (\<lambda>k. k \<notin> fst ` set slots \<and> Some k \<noteq> reserved) (map word_of_nat [0..<min (2 ^ 32) (length slots + 2)])"

definition free_slot_key :: "slot_map \<Rightarrow> u32 option" where
  "free_slot_key slots = free_slot_key_except slots None"

definition place_slot :: "slot_map \<Rightarrow> u32 \<Rightarrow> slot_state \<Rightarrow> slot_map option" where
  "place_slot slots key state =
     map_option (\<lambda>slots. hm_insert key (state\<lparr>ss_slot := key\<rparr>) slots)
       (case map_of slots key of
          Some parked \<Rightarrow>
            if \<not> owns_its_key parked then
              (let slots = hm_remove key slots
               in map_option (\<lambda>to. hm_insert to (parked\<lparr>ss_slot := to\<rparr>) slots) (free_slot_key_except slots (Some key)))
            else Some slots
        | None \<Rightarrow> Some slots)"

definition move_slot :: "slot_map \<Rightarrow> u32 \<Rightarrow> u32 \<Rightarrow> slot_map option" where
  "move_slot slots from_key to_key =
     (if from_key = to_key then Some slots
      else
        (case map_of slots from_key of
           Some state \<Rightarrow> place_slot (hm_remove from_key slots) to_key state
         | None \<Rightarrow> Some slots))"

definition find_given_up_slot :: "slot_map \<Rightarrow> text_string \<Rightarrow> u32 option" where
  "find_given_up_slot slots mid = map_option fst (find (\<lambda>(_, s). ss_lifecycle s = GivenUp \<and> module_id s = mid) slots)"

datatype alert_category =
    SmsAlert | ModuleLifecycle | RegistrationLoss | TunnelFailure | MissedCall | LineDiscoveryFailed | GmConnectionLost
  | PcscfPoolExhausted

datatype critical_event_kind = AlertFailure | AlertRecovered

record critical_event =
  ce_category :: alert_category
  ce_unit_id :: "text_string option"
  ce_description :: text_string
  ce_phone_number :: "text_string option"
  ce_kind :: critical_event_kind

text \<open>\<open>get_mut\<close> at a key, and \<open>values_mut().find(..)\<close>: the first entry in iteration order.\<close>

definition modify_at :: "'k \<Rightarrow> ('v \<Rightarrow> 'v) \<Rightarrow> ('k, 'v) hash_map \<Rightarrow> ('k, 'v) hash_map" where
  "modify_at k f m = map (\<lambda>(k', v). (k', if k' = k then f v else v)) m"

fun modify_first :: "('v \<Rightarrow> bool) \<Rightarrow> ('v \<Rightarrow> 'v) \<Rightarrow> ('k, 'v) hash_map \<Rightarrow> ('k, 'v) hash_map" where
  "modify_first P f [] = []"
| "modify_first P f ((k, v) # m) = (if P v then (k, f v) # m else (k, v) # modify_first P f m)"

definition modify_all :: "('v \<Rightarrow> bool) \<Rightarrow> ('v \<Rightarrow> 'v) \<Rightarrow> ('k, 'v) hash_map \<Rightarrow> ('k, 'v) hash_map" where
  "modify_all P f m = map (\<lambda>(k, v). (k, if P v then f v else v)) m"

definition track_lifecycle_alert :: "slot_map \<Rightarrow> critical_event \<Rightarrow> slot_map" where
  "track_lifecycle_alert slots event =
     (if ce_category event \<noteq> ModuleLifecycle then slots
      else
        (case ce_unit_id event of
           None \<Rightarrow> slots
         | Some mid \<Rightarrow>
             modify_all (\<lambda>s. module_id s = mid) (\<lambda>s. s\<lparr>ss_lifecycle_alert_open := (ce_kind event = AlertFailure)\<rparr>) slots))"

definition take_open_lifecycle_alert :: "slot_map \<Rightarrow> text_string \<Rightarrow> bool \<times> slot_map" where
  "take_open_lifecycle_alert slots mid =
     (list_ex (\<lambda>(_, s). module_id s = mid \<and> ss_lifecycle_alert_open s) slots,
      modify_all (\<lambda>s. module_id s = mid) (\<lambda>s. s\<lparr>ss_lifecycle_alert_open := False\<rparr>) slots)"

definition claim_idle_cs_slot :: "slot_map \<Rightarrow> (u32 \<times> text_string \<times> nat) option \<times> slot_map" where
  "claim_idle_cs_slot slots =
     (case find (\<lambda>(_, s). ss_lifecycle s = Ready \<and> \<not> ss_has_active_call s) slots of
        None \<Rightarrow> (None, slots)
      | Some (slot, s) \<Rightarrow>
          (case ss_cmd_tx s of
             None \<Rightarrow> (None, slots)
           | Some cmd_tx \<Rightarrow>
               (Some (slot, mo_audio_device (ss_module s), cmd_tx), modify_at slot (\<lambda>s. s\<lparr>ss_has_active_call := True\<rparr>) slots)))"

text \<open>The scheduler's view of the slot map.\<close>

definition pool_slot_view :: "slot_map \<Rightarrow> slot_view" where
  "pool_slot_view slots =
     \<lparr>sv_is_ready = (\<lambda>k. case map_of slots k of Some s \<Rightarrow> ss_lifecycle s = Ready | None \<Rightarrow> False),
      sv_non_ready_skip_reason =
        (\<lambda>k. case map_of slots k of
               None \<Rightarrow> Some (lit ''slot not present'')
             | Some s \<Rightarrow> if ss_lifecycle s = Ready then None else Some (lifecycle_str (ss_lifecycle s))),
      sv_has_active_call = (\<lambda>k. case map_of slots k of Some s \<Rightarrow> ss_has_active_call s | None \<Rightarrow> False),
      sv_restart_progress =
        (\<lambda>k. case map_of slots k of
               None \<Rightarrow> Gone
             | Some s \<Rightarrow> (case ss_lifecycle s of Ready \<Rightarrow> Succeeded | GivenUp \<Rightarrow> Failed | Initializing \<Rightarrow> InFlight | Recovering \<Rightarrow> InFlight))\<rparr>"

section \<open>The pool\<close>

datatype module_cmd = CmdSetMode network_mode | CmdReboot restart_mode | CmdDial text_string | CmdHangup | CmdSipPeerHangup

text \<open>The tasks of the join set: workers, by their command channel, and fallback restarts.\<close>

record pool_task =
  tk_exit :: task_exit
  tk_channel :: "nat option"

datatype pool_effect =
    EffSend nat module_cmd | EffFallbackRestart text_string restart_mode | EffAlert text_string critical_event_kind "text_string option"
  | EffRefuse nat | EffAccept text_string | EffMakeCall | EffHangupActiveCall | EffRefusalRecord text_string text_string
  | EffSetModePref u32 network_mode | EffOutcome u32 cycle_outcome | EffForwardAlert critical_event

record card_pool =
  cp_slots :: slot_map
  cp_tasks :: "pool_task list"
  cp_next_instance :: nat
  cp_next_channel :: nat
  cp_alerts_client :: bool
  cp_cron_schedule :: "(int \<Rightarrow> int option) option"
  cp_cycle :: "cycle_state option"
  cp_next_scheduled_at :: "instant option"
  cp_last_fired_tick :: "int option"
  cp_rescan_deadline :: instant
  cp_log :: "pool_effect list"

text \<open>The wall clock is in nanoseconds; a cron schedule maps a time to its next occurrence.\<close>

record resilience_config =
  rs_initial_backoff_sec :: nat
  rs_max_backoff_sec :: nat
  rs_max_retries :: nat

definition on_slots :: "(slot_map \<Rightarrow> slot_map) \<Rightarrow> card_pool \<Rightarrow> card_pool" where
  "on_slots f p = p\<lparr>cp_slots := f (cp_slots p)\<rparr>"

definition emit :: "pool_effect \<Rightarrow> card_pool \<Rightarrow> card_pool" where
  "emit e p = p\<lparr>cp_log := cp_log p @ [e]\<rparr>"

subsection \<open>Initialising a module\<close>

definition query_imei :: "text_string + at_response \<Rightarrow> text_string option" where
  "query_imei answer =
     (case answer of
        Inr (AtOk lines) \<Rightarrow> find (\<lambda>l. list_all is_ascii_digit l \<and> 14 \<le> length l \<and> length l \<le> 16) lines
      | _ \<Rightarrow> None)"

record module_init =
  in_slot :: u32
  in_imei :: text_string
  in_phone :: text_string
  in_network :: network_type
  in_mode :: "network_mode option"

text \<open>What the port, the modem and the store answer while a module is initialised.\<close>

record init_answers =
  ia_open :: "text_string option"
  ia_probe :: "text_string + at_response"
  ia_voice_call :: "text_string + bool"
  ia_imei :: "text_string + at_response"
  ia_lookup :: "text_string \<Rightarrow> text_string + u32 option"
  ia_assign :: "text_string \<Rightarrow> text_string + u32"
  ia_phone :: "text_string option"
  ia_network :: "network_type option"
  ia_mode :: "u32 \<Rightarrow> network_mode option"

definition try_init_module :: "discovered_module \<Rightarrow> init_answers \<Rightarrow> text_string + module_init" where
  "try_init_module m ans =
     (if mo_serial_port m = [] then Inl (lit ''serial port path not resolved'')
      else
        (case ia_open ans of
           Some e \<Rightarrow> Inl e
         | None \<Rightarrow>
        (case ia_probe ans of
           Inr (AtError e) \<Rightarrow> Inl (lit ''AT probe returned ERROR: '' @ e)
         | Inr (AtCmeError code msg) \<Rightarrow> Inl (lit ''AT probe returned +CME ERROR '' @ show_nat (unat code) @ lit '': '' @ msg)
         | Inl e \<Rightarrow> Inl (lit ''AT probe failed: '' @ e)
         | Inr (AtOk _) \<Rightarrow>
        (case ia_voice_call ans of
           Inr True \<Rightarrow> Inl (lit ''modem still lists a voice call'')
         | Inl e \<Rightarrow> Inl (lit ''cannot confirm the line is free: '' @ e)
         | Inr False \<Rightarrow>
             let imei = (case query_imei (ia_imei ans) of Some i \<Rightarrow> i | None \<Rightarrow> lit ''Unknown'')
             in and_then
                  (case ia_lookup ans imei of
                     Inr (Some s) \<Rightarrow> Inr s
                   | Inr None \<Rightarrow> ia_assign ans imei
                   | Inl e \<Rightarrow> Inl (lit ''DB slot lookup failed: '' @ e))
                  (\<lambda>slot. Inr \<lparr>in_slot = slot, in_imei = imei,
                      in_phone = (case ia_phone ans of Some ph \<Rightarrow> ph | None \<Rightarrow> lit ''Unknown''),
                      in_network = (case ia_network ans of Some n \<Rightarrow> n | None \<Rightarrow> UnknownNetwork),
                      in_mode = ia_mode ans slot\<rparr>)))))"

definition pending_slot :: "u32 \<Rightarrow> discovered_module \<Rightarrow> resilience_config \<Rightarrow> instant \<Rightarrow> card_pool \<Rightarrow> slot_state \<times> card_pool" where
  "pending_slot slot m resilience clock p =
     (\<lparr>ss_slot = slot, ss_instance = cp_next_instance p, ss_module = m, ss_imei = [], ss_phone_number = [],
       ss_network_type = UnknownNetwork, ss_network_mode = None, ss_lifecycle = Initializing, ss_retry_count = 0,
       ss_next_retry_at = Some (clock + backoff_delay 0 (rs_initial_backoff_sec resilience) (rs_max_backoff_sec resilience)),
       ss_cmd_tx = None, ss_has_active_call = False, ss_hanging_up = False, ss_lifecycle_alert_open = False\<rparr>,
      p\<lparr>cp_next_instance := cp_next_instance p + 1\<rparr>)"

definition spawn_worker :: "text_string \<Rightarrow> u32 \<Rightarrow> nat \<Rightarrow> card_pool \<Rightarrow> nat \<times> card_pool" where
  "spawn_worker mid slot inst p =
     (cp_next_channel p,
      p\<lparr>cp_tasks := cp_tasks p @
          [\<lparr>tk_exit = \<lparr>te_slot = slot, te_module_id = mid, te_instance = inst\<rparr>, tk_channel = Some (cp_next_channel p)\<rparr>],
        cp_next_channel := cp_next_channel p + 1\<rparr>)"

definition ready_slot :: "discovered_module \<Rightarrow> module_init \<Rightarrow> nat \<Rightarrow> nat \<Rightarrow> slot_state" where
  "ready_slot m init inst cmd_tx =
     \<lparr>ss_slot = in_slot init, ss_instance = inst, ss_module = m, ss_imei = in_imei init, ss_phone_number = in_phone init,
      ss_network_type = in_network init, ss_network_mode = in_mode init, ss_lifecycle = Ready, ss_retry_count = 0,
      ss_next_retry_at = None, ss_cmd_tx = Some cmd_tx, ss_has_active_call = False, ss_hanging_up = False,
      ss_lifecycle_alert_open = False\<rparr>"

text \<open>A new entry for an initialised module: a fresh instance and its worker. \<open>None\<close>: no key is free.\<close>

definition add_ready :: "discovered_module \<Rightarrow> module_init \<Rightarrow> card_pool \<Rightarrow> card_pool option" where
  "add_ready m init p =
     (let inst = cp_next_instance p;
          (cmd_tx, p) = spawn_worker (mo_id m) (in_slot init) inst (p\<lparr>cp_next_instance := inst + 1\<rparr>)
      in map_option (\<lambda>slots. p\<lparr>cp_slots := slots\<rparr>) (place_slot (cp_slots p) (in_slot init) (ready_slot m init inst cmd_tx)))"

definition park_module :: "discovered_module \<Rightarrow> resilience_config \<Rightarrow> instant \<Rightarrow> card_pool \<Rightarrow> card_pool option" where
  "park_module m resilience clock p =
     map_option (\<lambda>slot. case pending_slot slot m resilience clock p of (s, p) \<Rightarrow> on_slots (hm_insert slot s) p)
       (free_slot_key (cp_slots p))"

text \<open>The modules come with their initialisation answers and the time read after them.\<close>

definition bootstrap_one :: "resilience_config \<Rightarrow> discovered_module \<times> init_answers \<times> instant \<Rightarrow> card_pool \<Rightarrow> card_pool option" where
  "bootstrap_one resilience entry p =
     (case entry of
        (m, ans, clock) \<Rightarrow>
          (case try_init_module m ans of
             Inr init \<Rightarrow> if live_slot_at (cp_slots p) (in_slot init) then Some p else add_ready m init p
           | Inl _ \<Rightarrow> park_module m resilience clock p))"

fun bootstrap_slots :: "resilience_config \<Rightarrow> (discovered_module \<times> init_answers \<times> instant) list \<Rightarrow> card_pool \<Rightarrow> card_pool option" where
  "bootstrap_slots resilience [] p = Some p"
| "bootstrap_slots resilience (m # ms) p = Option.bind (bootstrap_one resilience m p) (bootstrap_slots resilience ms)"

subsection \<open>Alerts\<close>

definition dispatch_alert :: "text_string \<Rightarrow> critical_event_kind \<Rightarrow> text_string option \<Rightarrow> card_pool \<Rightarrow> card_pool" where
  "dispatch_alert mid kind phone p = (if cp_alerts_client p then emit (EffAlert mid kind phone) p else p)"

definition clear_stale_given_up :: "text_string \<Rightarrow> text_string option \<Rightarrow> card_pool \<Rightarrow> card_pool" where
  "clear_stale_given_up mid phone p =
     (case find_given_up_slot (cp_slots p) mid of
        None \<Rightarrow> p
      | Some stale \<Rightarrow> dispatch_alert mid AlertRecovered phone (on_slots (hm_remove stale) p))"

definition close_open_lifecycle_alert :: "text_string \<Rightarrow> text_string option \<Rightarrow> card_pool \<Rightarrow> card_pool" where
  "close_open_lifecycle_alert mid phone p =
     (case take_open_lifecycle_alert (cp_slots p) mid of
        (was_open, slots) \<Rightarrow>
          let p = p\<lparr>cp_slots := slots\<rparr> in if was_open then dispatch_alert mid AlertRecovered phone p else p)"

subsection \<open>Retries, worker exits and rescans\<close>

text \<open>\<open>None\<close>: the entry is gone, or no key is free.\<close>

definition retry_recovered :: "u32 \<Rightarrow> slot_state \<Rightarrow> module_init \<Rightarrow> card_pool \<Rightarrow> card_pool option" where
  "retry_recovered slot s init p =
     (let mid = module_id s;
          phone = usable_phone (in_phone init);
          (cmd_tx, p) = spawn_worker mid (in_slot init) (ss_instance s) p;
          p = on_slots (modify_at slot (\<lambda>s. s\<lparr>ss_imei := in_imei init, ss_phone_number := in_phone init,
                ss_network_type := in_network init, ss_network_mode := in_mode init, ss_lifecycle := Ready,
                ss_retry_count := 0, ss_next_retry_at := None, ss_cmd_tx := Some cmd_tx\<rparr>)) p;
          p = clear_stale_given_up mid phone p;
          p = close_open_lifecycle_alert mid phone p
      in map_option (\<lambda>slots. p\<lparr>cp_slots := slots\<rparr>) (move_slot (cp_slots p) slot (in_slot init)))"

definition retry_failed :: "u32 \<Rightarrow> slot_state \<Rightarrow> resilience_config \<Rightarrow> instant \<Rightarrow> card_pool \<Rightarrow> card_pool" where
  "retry_failed slot s resilience clock p =
     (let n = ss_retry_count s + 1
      in if n < rs_max_retries resilience then
           on_slots (modify_at slot (\<lambda>s. s\<lparr>ss_retry_count := n,
             ss_next_retry_at := Some (clock + backoff_delay n (rs_initial_backoff_sec resilience) (rs_max_backoff_sec resilience))\<rparr>)) p
         else
           dispatch_alert (module_id s) AlertFailure (alert_phone s)
             (on_slots (modify_at slot (\<lambda>s. s\<lparr>ss_retry_count := n, ss_lifecycle := GivenUp, ss_next_retry_at := None\<rparr>)) p))"

definition retry_slot :: "u32 \<Rightarrow> init_answers \<Rightarrow> resilience_config \<Rightarrow> instant \<Rightarrow> card_pool \<Rightarrow> card_pool option" where
  "retry_slot slot ans resilience clock p =
     (case map_of (cp_slots p) slot of
        None \<Rightarrow> None
      | Some s \<Rightarrow>
          (case try_init_module (ss_module s) ans of
             Inl _ \<Rightarrow> Some (retry_failed slot s resilience clock p)
           | Inr init \<Rightarrow>
               if in_slot init \<noteq> slot \<and> live_slot_at (cp_slots p) (in_slot init) then Some (retry_failed slot s resilience clock p)
               else retry_recovered slot s init p))"

definition should_retry :: "instant \<Rightarrow> slot_state \<Rightarrow> bool" where
  "should_retry now s \<longleftrightarrow>
     ss_lifecycle s \<noteq> Ready \<and> ss_lifecycle s \<noteq> GivenUp \<and> (case ss_next_retry_at s of Some t \<Rightarrow> t \<le> now | None \<Rightarrow> False)"

text \<open>The retries of a timer tick over the keys it started with; \<open>answers\<close> per slot.\<close>

fun retry_due :: "instant \<Rightarrow> resilience_config \<Rightarrow> (u32 \<Rightarrow> init_answers \<times> instant) \<Rightarrow> u32 list \<Rightarrow> card_pool \<Rightarrow> card_pool option" where
  "retry_due now resilience answers [] p = Some p"
| "retry_due now resilience answers (slot # slots) p =
     (case map_of (cp_slots p) slot of
        None \<Rightarrow> retry_due now resilience answers slots p
      | Some s \<Rightarrow>
          if should_retry now s then
            Option.bind (retry_slot slot (fst (answers slot)) resilience (snd (answers slot)) p) (retry_due now resilience answers slots)
          else retry_due now resilience answers slots p)"

text \<open>A task of the join set ends. \<open>None\<close> as the result is a panic of the task, which carries no identity.\<close>

definition on_worker_exit :: "task_exit option \<Rightarrow> resilience_config \<Rightarrow> instant \<Rightarrow> card_pool \<Rightarrow> card_pool" where
  "on_worker_exit result resilience clock p =
     (case result of
        None \<Rightarrow> p
      | Some ex \<Rightarrow>
          (case exit_target (cp_slots p) ex of
             None \<Rightarrow> p
           | Some slot \<Rightarrow>
               on_slots (modify_at slot (\<lambda>s. (release_call (s\<lparr>ss_lifecycle := Recovering, ss_cmd_tx := None\<rparr>))
                 \<lparr>ss_next_retry_at :=
                    Some (clock + backoff_delay (ss_retry_count s) (rs_initial_backoff_sec resilience) (rs_max_backoff_sec resilience))\<rparr>)) p))"

definition rescan_one :: "resilience_config \<Rightarrow> discovered_module \<times> init_answers \<times> instant \<Rightarrow> card_pool \<Rightarrow> card_pool option" where
  "rescan_one resilience entry p =
     (case entry of
        (m, ans, clock) \<Rightarrow>
          (case try_init_module m ans of
             Inr init \<Rightarrow>
               if live_slot_at (cp_slots p) (in_slot init) then Some p
               else
                 (let phone = usable_phone (in_phone init)
                  in add_ready m init (close_open_lifecycle_alert (mo_id m) phone (clear_stale_given_up (mo_id m) phone p)))
           | Inl _ \<Rightarrow> park_module m resilience clock p))"

fun rescan_each :: "resilience_config \<Rightarrow> (discovered_module \<times> init_answers \<times> instant) list \<Rightarrow> card_pool \<Rightarrow> card_pool option" where
  "rescan_each resilience [] p = Some p"
| "rescan_each resilience (m # ms) p = Option.bind (rescan_one resilience m p) (rescan_each resilience ms)"

text \<open>\<open>scan\<close> is what discovery reports, \<open>None\<close> when it fails.\<close>

definition rescan_new_modules ::
  "resilience_config \<Rightarrow> (discovered_module \<times> init_answers \<times> instant) list option \<Rightarrow> card_pool \<Rightarrow> card_pool option" where
  "rescan_new_modules resilience scan p =
     (case scan of
        None \<Rightarrow> Some p
      | Some found \<Rightarrow>
          rescan_each resilience (filter (\<lambda>(m, _). \<not> occupied_contains (occupied_from_slots (cp_slots p)) m) found) p)"

subsection \<open>Scheduled and manual restarts\<close>

definition restart_line :: "restart_mode \<Rightarrow> u32 \<Rightarrow> slot_state \<Rightarrow> card_pool \<Rightarrow> card_pool" where
  "restart_line mode slot s p =
     (case ss_cmd_tx s of
        Some cmd_tx \<Rightarrow> emit (EffSend cmd_tx (CmdReboot mode)) p
      | None \<Rightarrow>
          emit (EffFallbackRestart (mo_serial_port (ss_module s)) mode)
            (p\<lparr>cp_tasks := cp_tasks p @
               [\<lparr>tk_exit = \<lparr>te_slot = slot, te_module_id = module_id s, te_instance = ss_instance s\<rparr>, tk_channel = None\<rparr>]\<rparr>))"

definition restart_slot :: "restart_mode \<Rightarrow> u32 \<Rightarrow> instant \<Rightarrow> card_pool \<Rightarrow> card_pool" where
  "restart_slot mode slot now p =
     (case map_of (cp_slots p) slot of
        None \<Rightarrow> p
      | Some s \<Rightarrow>
          let retry_delay = retry_delay_for mode (ss_cmd_tx s \<noteq> None)
          in on_slots (modify_at slot (\<lambda>s. s\<lparr>ss_cmd_tx := None, ss_lifecycle := Recovering, ss_retry_count := 0,
                 ss_next_retry_at := Some (now + retry_delay)\<rparr>))
               (restart_line mode slot s p))"

definition apply_send_reboot :: "scheduled_restart_config \<Rightarrow> u32 \<Rightarrow> instant \<Rightarrow> card_pool \<Rightarrow> card_pool" where
  "apply_send_reboot config slot now p = restart_slot (scheduled_restart_mode config) slot now p"

definition start_cycle :: "int \<Rightarrow> instant \<Rightarrow> card_pool \<Rightarrow> card_pool" where
  "start_cycle now_local now p =
     (if cp_cycle p \<noteq> None then p
      else
        p\<lparr>cp_next_scheduled_at := None,
          cp_cycle := Some (new_cycle (word_of_int (max 0 (now_local div 1000000000))) now_local now (sort (map fst (cp_slots p))))\<rparr>)"

definition trunc_secs :: "int \<Rightarrow> int" where
  "trunc_secs d = (if 0 \<le> d then d div 1000000000 else - (- d div 1000000000))"

definition recompute_next_scheduled_at ::
  "scheduled_restart_config \<Rightarrow> (int \<Rightarrow> int) \<Rightarrow> int \<Rightarrow> instant \<Rightarrow> card_pool \<Rightarrow> card_pool option" where
  "recompute_next_scheduled_at config rng now_local now_instant p =
     (case cp_cron_schedule p of
        None \<Rightarrow> Some (p\<lparr>cp_next_scheduled_at := None\<rparr>)
      | Some schedule \<Rightarrow>
          (case schedule (case cp_last_fired_tick p of Some t \<Rightarrow> t | None \<Rightarrow> now_local) of
             None \<Rightarrow> Some (p\<lparr>cp_cron_schedule := None, cp_next_scheduled_at := None\<rparr>)
           | Some next_tick \<Rightarrow>
               map_option (\<lambda>jitter.
                 let delta_sec = trunc_secs (next_tick - now_local) + jitter
                 in p\<lparr>cp_last_fired_tick := Some next_tick,
                      cp_next_scheduled_at := Some (if delta_sec \<le> 0 then now_instant else now_instant + secs (nat delta_sec))\<rparr>)
                 (jitter_offset rng (sr_start_jitter_seconds config))))"

text \<open>The clock readings and random draws of a tick that ends a cycle.\<close>

record cycle_env =
  ev_rng :: "int \<Rightarrow> int"
  ev_now_local :: int
  ev_now_instant :: instant
  ev_rng_start :: "int \<Rightarrow> int"

definition complete_cycle :: "scheduled_restart_config \<Rightarrow> cycle_env \<Rightarrow> card_pool \<Rightarrow> card_pool option" where
  "complete_cycle config env p =
     (case cp_cycle p of
        None \<Rightarrow> Some p
      | Some _ \<Rightarrow>
          recompute_next_scheduled_at config (ev_rng_start env) (ev_now_local env) (ev_now_instant env) (p\<lparr>cp_cycle := None\<rparr>))"

definition apply_action :: "scheduled_restart_config \<Rightarrow> instant \<Rightarrow> scheduler_action \<Rightarrow> card_pool \<Rightarrow> card_pool" where
  "apply_action config now act p =
     (case act of
        SendReboot slot \<Rightarrow> apply_send_reboot config slot now p
      | RecordOutcome slot oc \<Rightarrow> emit (EffOutcome slot oc) p
      | CycleComplete \<Rightarrow> p)"

definition advance_scheduler :: "scheduled_restart_config \<Rightarrow> instant \<Rightarrow> cycle_env \<Rightarrow> card_pool \<Rightarrow> card_pool option" where
  "advance_scheduler config now env p =
     (case cp_cycle p of
        None \<Rightarrow>
          (case cp_next_scheduled_at p of
             None \<Rightarrow> Some p
           | Some scheduled \<Rightarrow> if now < scheduled then Some p else Some (start_cycle (ev_now_local env) now p))
      | Some cycle \<Rightarrow>
          if now < cy_next_action_at cycle then Some p
          else
            (case tick_scheduler cycle (pool_slot_view (cp_slots p)) now (ev_rng env) (sr_inter_card_gap_seconds config)
                    (sr_inter_card_gap_jitter_seconds config) of
               None \<Rightarrow> None
             | Some (cycle, actions) \<Rightarrow>
                 let p = fold (apply_action config now) actions (p\<lparr>cp_cycle := Some cycle\<rparr>)
                 in if CycleComplete \<in> set actions then complete_cycle config env p else Some p))"

definition RESCAN_INTERVAL :: duration where
  "RESCAN_INTERVAL = secs 60"

record tick_env =
  tv_answers :: "u32 \<Rightarrow> init_answers \<times> instant"
  tv_scan :: "(discovered_module \<times> init_answers \<times> instant) list option"
  tv_clock :: instant
  tv_cycle :: cycle_env

definition on_timer_tick ::
  "resilience_config \<Rightarrow> scheduled_restart_config \<Rightarrow> instant \<Rightarrow> tick_env \<Rightarrow> card_pool \<Rightarrow> card_pool option" where
  "on_timer_tick resilience config now env p =
     Option.bind (retry_due now resilience (tv_answers env) (map fst (cp_slots p)) p) (\<lambda>p.
     Option.bind
       (if cp_rescan_deadline p \<le> now then
          map_option (\<lambda>p. p\<lparr>cp_rescan_deadline := tv_clock env + RESCAN_INTERVAL\<rparr>) (rescan_new_modules resilience (tv_scan env) p)
        else Some p)
       (advance_scheduler config now (tv_cycle env)))"

definition earliest_wakeup :: "instant \<Rightarrow> card_pool \<Rightarrow> instant" where
  "earliest_wakeup clock p =
     (let retries = List.map_filter (\<lambda>(_, s). ss_next_retry_at s) (cp_slots p);
          next_slot_retry = (if retries = [] then clock + secs 3600 else Min (set retries));
          earliest = min next_slot_retry (cp_rescan_deadline p);
          earliest = (case cp_next_scheduled_at p of Some t \<Rightarrow> min earliest t | None \<Rightarrow> earliest)
      in case cp_cycle p of Some c \<Rightarrow> min earliest (cy_next_action_at c) | None \<Rightarrow> earliest)"

subsection \<open>Calls\<close>

text \<open>\<open>alive\<close> is whether the worker behind a channel still takes commands.\<close>

definition send_if_alive :: "(nat \<Rightarrow> bool) \<Rightarrow> nat option \<Rightarrow> module_cmd \<Rightarrow> card_pool \<Rightarrow> card_pool" where
  "send_if_alive alive cmd_tx cmd p =
     (case cmd_tx of Some tx \<Rightarrow> if alive tx then emit (EffSend tx cmd) p else p | None \<Rightarrow> p)"

definition request_hangup :: "(nat \<Rightarrow> bool) \<Rightarrow> nat option \<Rightarrow> slot_state \<Rightarrow> slot_state" where
  "request_hangup alive cmd_tx s =
     (if (case cmd_tx of Some tx \<Rightarrow> alive tx | None \<Rightarrow> False) then s\<lparr>ss_has_active_call := True, ss_hanging_up := True\<rparr>
      else release_call s)"

definition slot_module_id :: "slot_map \<Rightarrow> u32 \<Rightarrow> text_string" where
  "slot_module_id slots slot = (case map_of slots slot of Some s \<Rightarrow> module_id s | None \<Rightarrow> [])"

definition release_slot :: "u32 \<Rightarrow> slot_map \<Rightarrow> slot_map" where
  "release_slot slot slots = modify_at slot release_call slots"

definition hang_up_claimed_slot :: "(nat \<Rightarrow> bool) \<Rightarrow> u32 \<Rightarrow> nat \<Rightarrow> card_pool \<Rightarrow> card_pool" where
  "hang_up_claimed_slot alive slot cmd_tx p =
     send_if_alive alive (Some cmd_tx) CmdHangup (on_slots (modify_at slot (request_hangup alive (Some cmd_tx))) p)"

definition hang_up_first :: "(slot_state \<Rightarrow> bool) \<Rightarrow> module_cmd \<Rightarrow> (nat \<Rightarrow> bool) \<Rightarrow> card_pool \<Rightarrow> card_pool" where
  "hang_up_first P cmd alive p =
     (case find (\<lambda>(_, s). P s) (cp_slots p) of
        None \<Rightarrow> p
      | Some (_, s) \<Rightarrow>
          send_if_alive alive (ss_cmd_tx s) cmd (on_slots (modify_first P (\<lambda>s. request_hangup alive (ss_cmd_tx s) s)) p))"

definition hang_up_unbridged_call :: "text_string \<Rightarrow> (nat \<Rightarrow> bool) \<Rightarrow> card_pool \<Rightarrow> card_pool" where
  "hang_up_unbridged_call mid alive p = hang_up_first (\<lambda>s. module_id s = mid) CmdHangup alive p"

definition signal_sip_peer_hangup :: "(nat \<Rightarrow> bool) \<Rightarrow> card_pool \<Rightarrow> card_pool" where
  "signal_sip_peer_hangup alive p = hang_up_first (\<lambda>s. ss_has_active_call s \<and> \<not> ss_hanging_up s) CmdSipPeerHangup alive p"

definition poll_sip_peer_disconnect :: "bool \<Rightarrow> (nat \<Rightarrow> bool) \<Rightarrow> card_pool \<Rightarrow> card_pool" where
  "poll_sip_peer_disconnect disconnected alive p =
     (if \<not> disconnected then p else signal_sip_peer_hangup alive (emit EffHangupActiveCall p))"

definition release_hung_up_line :: "text_string \<Rightarrow> slot_map \<Rightarrow> slot_map" where
  "release_hung_up_line mid slots = modify_first (\<lambda>s. module_id s = mid \<and> ss_hanging_up s) release_call slots"

definition validate_destination :: "text_string \<Rightarrow> bool" where
  "validate_destination destination \<longleftrightarrow>
     destination \<noteq> [] \<and> list_all (\<lambda>c. is_ascii_digit c \<or> c = 42 \<or> c = 35 \<or> c = 43) destination"

datatype dial_reply = DialAccepted | DialRefused | DialNoReply

record dial_env =
  dv_alive :: "nat \<Rightarrow> bool"
  dv_reply :: dial_reply
  dv_accept_ok :: bool
  dv_alive_after :: "nat \<Rightarrow> bool"

definition handle_outbound_request :: "text_string \<Rightarrow> dial_env \<Rightarrow> card_pool \<Rightarrow> card_pool" where
  "handle_outbound_request destination env p =
     (if \<not> validate_destination destination then emit (EffRefusalRecord [] destination) (emit (EffRefuse 484) p)
      else
        (case claim_idle_cs_slot (cp_slots p) of
           (None, _) \<Rightarrow> emit (EffRefusalRecord [] destination) (emit (EffRefuse 503) p)
         | (Some (slot, audio_device, cmd_tx), slots) \<Rightarrow>
             let p = p\<lparr>cp_slots := slots\<rparr>;
                 refuse = (\<lambda>p. emit (EffRefusalRecord (slot_module_id (cp_slots p) slot) destination)
                                 (emit (EffRefuse 503) (on_slots (release_slot slot) p)))
             in if \<not> dv_alive env cmd_tx then refuse p
                else
                  (let p = emit (EffSend cmd_tx (CmdDial destination)) p
                   in case dv_reply env of
                        DialAccepted \<Rightarrow>
                          if dv_accept_ok env then emit (EffAccept audio_device) p
                          else hang_up_claimed_slot (dv_alive_after env) slot cmd_tx p
                      | DialRefused \<Rightarrow> refuse p
                      | DialNoReply \<Rightarrow> emit (EffRefuse 503) (hang_up_claimed_slot (dv_alive_after env) slot cmd_tx p))))"

record ring_env =
  rv_registered :: bool
  rv_destination_ok :: bool
  rv_sound_ok :: bool
  rv_call_ok :: bool
  rv_alive :: "nat \<Rightarrow> bool"

definition handle_ring_event :: "text_string \<Rightarrow> ring_env \<Rightarrow> card_pool \<Rightarrow> card_pool" where
  "handle_ring_event mid env p =
     (let p = on_slots (modify_first (\<lambda>s. module_id s = mid) (\<lambda>s. s\<lparr>ss_has_active_call := True\<rparr>)) p
      in if \<not> rv_registered env \<or> \<not> rv_destination_ok env \<or> \<not> rv_sound_ok env then hang_up_unbridged_call mid (rv_alive env) p
         else if \<not> rv_call_ok env then hang_up_unbridged_call mid (rv_alive env) (emit EffMakeCall p)
         else emit EffMakeCall p)"

datatype bridge_event =
    EvRing text_string ring_env | EvHangup text_string | EvLineIdle text_string | EvSmsReceived | EvNetworkLost text_string
  | EvCriticalAlert critical_event

definition network_lost :: "resilience_config \<Rightarrow> instant \<Rightarrow> slot_state \<Rightarrow> slot_state" where
  "network_lost resilience clock s =
     release_call
       (if ss_lifecycle s = Ready then
          s\<lparr>ss_lifecycle := Recovering, ss_network_type := NoSignal, ss_cmd_tx := None, ss_retry_count := 0,
            ss_next_retry_at := Some (clock + backoff_delay 0 (rs_initial_backoff_sec resilience) (rs_max_backoff_sec resilience))\<rparr>
        else s)"

definition handle_bridge_event :: "resilience_config \<Rightarrow> instant \<Rightarrow> bridge_event \<Rightarrow> card_pool \<Rightarrow> card_pool" where
  "handle_bridge_event resilience clock event p =
     (case event of
        EvNetworkLost mid \<Rightarrow> on_slots (modify_first (\<lambda>s. module_id s = mid) (network_lost resilience clock)) p
      | EvRing mid env \<Rightarrow> handle_ring_event mid env p
      | EvHangup mid \<Rightarrow> emit EffHangupActiveCall (on_slots (modify_first (\<lambda>s. module_id s = mid) release_call) p)
      | EvLineIdle mid \<Rightarrow> on_slots (release_hung_up_line mid) p
      | EvSmsReceived \<Rightarrow> p
      | EvCriticalAlert ce \<Rightarrow>
          let p = on_slots (\<lambda>slots. track_lifecycle_alert slots ce) p
          in if cp_alerts_client p then emit (EffForwardAlert ce) p else p)"

subsection \<open>Control commands\<close>

datatype control_cmd = CardRestart u32 text_string | SetMode u32 text_string | GetMode u32 | ListSlots | Observe

datatype control_resp = RespOk | RespSlots "slot_info list" | RespMode network_mode | RespErr text_string

datatype mode_reply = ModeConfirmed network_mode | ModeFailed text_string | ModeNoAnswer | ModeTimeout

record control_env =
  ke_clock :: instant
  ke_alive :: "nat \<Rightarrow> bool"
  ke_mode_pref :: "u32 \<Rightarrow> text_string + network_mode option"
  ke_mode_reply :: mode_reply

definition unknown_slot :: "slot_map \<Rightarrow> u32 \<Rightarrow> text_string" where
  "unknown_slot slots slot =
     (let max_key = (if slots = [] then 0 else Max (fst ` set slots))
      in lit ''slot '' @ show_nat (unat slot) @ lit '' not found; valid slots: 0..='' @ show_nat (unat max_key))"

definition card_restart :: "u32 \<Rightarrow> text_string \<Rightarrow> control_env \<Rightarrow> card_pool \<Rightarrow> control_resp \<times> card_pool" where
  "card_restart slot mode_str env p =
     (case parse_restart_mode mode_str of
        None \<Rightarrow> (RespErr (lit ''unknown restart mode: '' @ mode_str @ lit '' (expected \"full\" or \"radio\")''), p)
      | Some mode \<Rightarrow>
          (let (advice, p) =
                 (case cp_cycle p of
                    None \<Rightarrow> (AdviceProceed, p)
                  | Some c \<Rightarrow> (case handle_manual_restart_during_cycle c slot of (advice, c) \<Rightarrow> (advice, p\<lparr>cp_cycle := Some c\<rparr>)))
           in case advice of
                AdviceReject cycle_id \<Rightarrow>
                  (RespErr (lit ''slot '' @ show_nat (unat slot) @
                     lit '' is currently being restarted by the scheduled cycle (cycle id='' @ show_nat (unat cycle_id) @ lit '')''), p)
              | _ \<Rightarrow>
                  let p = (if advice = AdvicePreemptAndProceed then
                             emit (EffOutcome slot \<lparr>co_slot = slot, co_attempt = AttemptInitial,
                               co_outcome = OutAlreadyRestartedByManual, co_duration = 0\<rparr>) p
                           else p)
                  in if map_of (cp_slots p) slot = None then (RespErr (unknown_slot (cp_slots p) slot), p)
                     else (RespOk, restart_slot mode slot (ke_clock env) p)))"

definition set_mode :: "u32 \<Rightarrow> text_string \<Rightarrow> control_env \<Rightarrow> card_pool \<Rightarrow> control_resp \<times> card_pool" where
  "set_mode slot mode_str env p =
     (case parse_network_mode mode_str of
        None \<Rightarrow> (RespErr (lit ''unknown network mode: '' @ mode_str), p)
      | Some mode \<Rightarrow>
     (case map_of (cp_slots p) slot of
        None \<Rightarrow> (RespErr (unknown_slot (cp_slots p) slot), p)
      | Some s \<Rightarrow>
          if ss_lifecycle s \<noteq> Ready then
            (RespErr (lit ''slot '' @ show_nat (unat slot) @ lit '' is not in Ready state (current: '' @
               lifecycle_str (ss_lifecycle s) @ lit '')''), p)
          else
     (case ss_cmd_tx s of
        None \<Rightarrow> (RespErr (lit ''module command channel not available''), p)
      | Some cmd_tx \<Rightarrow>
          if \<not> ke_alive env cmd_tx then (RespErr (lit ''module command channel closed''), p)
          else
            (let p = emit (EffSend cmd_tx (CmdSetMode mode)) p
             in case ke_mode_reply env of
                  ModeConfirmed confirmed \<Rightarrow> (RespMode confirmed, emit (EffSetModePref slot confirmed) p)
                | ModeFailed e \<Rightarrow> (RespErr (lit ''AT command failed: '' @ e), p)
                | ModeNoAnswer \<Rightarrow> (RespErr (lit ''module did not respond''), p)
                | ModeTimeout \<Rightarrow> (RespErr (lit ''AT command timeout while applying mode''), p)))))"

definition handle_control_cmd :: "control_cmd \<Rightarrow> control_env \<Rightarrow> card_pool \<Rightarrow> control_resp \<times> card_pool" where
  "handle_control_cmd cmd env p =
     (case cmd of
        ListSlots \<Rightarrow> (RespSlots (sort_key si_slot (map (\<lambda>(_, s). slot_info_of s) (cp_slots p))), p)
      | GetMode slot \<Rightarrow>
          if map_of (cp_slots p) slot = None then (RespErr (unknown_slot (cp_slots p) slot), p)
          else
            (case ke_mode_pref env slot of
               Inr (Some m) \<Rightarrow> (RespMode m, p)
             | Inr None \<Rightarrow> (RespMode Auto, p)
             | Inl e \<Rightarrow> (RespErr (lit ''DB error: '' @ e), p))
      | SetMode slot mode_str \<Rightarrow> set_mode slot mode_str env p
      | CardRestart slot mode_str \<Rightarrow> card_restart slot mode_str env p
      | Observe \<Rightarrow> (RespErr (lit ''observe commands are handled by the control server, not CardPool''), p))"

section \<open>Updates of the slot map\<close>

lemma map_of_modify_at [simp]: "map_of (modify_at k f m) = (map_of m)(k := map_option f (map_of m k))"
  by (induction m) (auto simp: modify_at_def fun_eq_iff)

lemma hm_inv_modify_at [simp]: "hm_inv (modify_at k f m) = hm_inv m"
proof -
  have "map fst (modify_at k f m) = map fst m" by (induction m) (auto simp: modify_at_def)
  then show ?thesis by (simp add: hm_inv_def)
qed

lemma map_of_modify_all [simp]: "map_of (modify_all P f m) k = map_option (\<lambda>v. if P v then f v else v) (map_of m k)"
  by (induction m) (auto simp: modify_all_def)

lemma hm_inv_modify_all [simp]: "hm_inv (modify_all P f m) = hm_inv m"
proof -
  have "map fst (modify_all P f m) = map fst m" by (induction m) (auto simp: modify_all_def)
  then show ?thesis by (simp add: hm_inv_def)
qed

lemma modify_at_absent: "k \<notin> fst ` set m \<Longrightarrow> modify_at k f m = m"
  by (induction m) (auto simp: modify_at_def)

lemma modify_first_at:
  "hm_inv m \<Longrightarrow> modify_first P f m = (case find (\<lambda>(_, v). P v) m of Some (k, _) \<Rightarrow> modify_at k f m | None \<Rightarrow> m)"
proof (induction m)
  case (Cons e m)
  obtain k v where e: "e = (k, v)" by force
  show ?case
  proof (cases "P v")
    case True
    then show ?thesis using Cons.prems modify_at_absent [of k m f] by (simp add: e hm_inv_def modify_at_def)
  next
    case False
    have "k \<noteq> k'" if "find (\<lambda>(_, v). P v) m = Some (k', v')" for k' v'
      using that Cons.prems by (auto simp: e hm_inv_def find_Some_iff image_iff) (metis fst_conv nth_mem)
    then show ?thesis using False Cons.IH Cons.prems by (auto simp: e hm_inv_def modify_at_def split: option.split)
  qed
qed simp

lemma find_entry:
  assumes "hm_inv m" "find (\<lambda>(_, v). P v) m = Some (k, v)"
  shows "map_of m k = Some v" "P v"
  using assms by (auto simp: hm_inv_def find_Some_iff) (metis nth_mem map_of_eq_Some_iff)

lemma map_of_insert [simp]: "map_of (hm_insert k v m) = (map_of m)(k \<mapsto> v)"
  by (rule update_conv')

lemma map_of_remove [simp]: "map_of (hm_remove k m) = (map_of m)(k := None)"
  by (rule delete_conv')

lemma hm_inv_update [simp]: "hm_inv m \<Longrightarrow> hm_inv (hm_insert k v m)" "hm_inv m \<Longrightarrow> hm_inv (hm_remove k m)"
  by (rule hashm.inv_put, assumption, rule hashm.inv_del)

lemma free_key:
  assumes "free_slot_key_except slots reserved = Some k"
  shows "map_of slots k = None" "Some k \<noteq> reserved"
proof -
  have "k \<notin> fst ` set slots" "Some k \<noteq> reserved"
    using assms by (auto simp: free_slot_key_except_def find_Some_iff)
  then show "map_of slots k = None" "Some k \<noteq> reserved" by (simp_all add: map_of_eq_None_iff)
qed

section \<open>Well-formed pools\<close>

definition entry_ok :: "nat \<Rightarrow> nat \<Rightarrow> u32 \<Rightarrow> slot_state \<Rightarrow> bool" where
  "entry_ok ni nc k s \<longleftrightarrow>
     ss_slot s = k \<and> ss_instance s < ni \<and>
     (ss_lifecycle s = Ready \<longleftrightarrow> ss_cmd_tx s \<noteq> None) \<and>
     (\<forall>c. ss_cmd_tx s = Some c \<longrightarrow> c < nc) \<and>
     (ss_lifecycle s = Ready \<longrightarrow> owns_its_key s) \<and>
     (ss_hanging_up s \<longrightarrow> ss_has_active_call s) \<and>
     (ss_lifecycle s = Initializing \<or> ss_lifecycle s = Recovering \<longrightarrow> ss_next_retry_at s \<noteq> None)"

definition same_line :: "slot_state \<Rightarrow> slot_state \<Rightarrow> bool" where
  "same_line s s' \<longleftrightarrow> ss_instance s = ss_instance s' \<or> ss_cmd_tx s = ss_cmd_tx s' \<and> ss_cmd_tx s \<noteq> None"

definition slots_ok :: "nat \<Rightarrow> nat \<Rightarrow> slot_map \<Rightarrow> bool" where
  "slots_ok ni nc slots \<longleftrightarrow>
     hm_inv slots \<and>
     (\<forall>k s. map_of slots k = Some s \<longrightarrow> entry_ok ni nc k s) \<and>
     (\<forall>k k' s s'. map_of slots k = Some s \<longrightarrow> map_of slots k' = Some s' \<longrightarrow> same_line s s' \<longrightarrow> k = k')"

definition pool_ok :: "card_pool \<Rightarrow> bool" where
  "pool_ok p \<longleftrightarrow>
     slots_ok (cp_next_instance p) (cp_next_channel p) (cp_slots p) \<and>
     (case cp_cycle p of Some c \<Rightarrow> phase_ok c | None \<Rightarrow> True)"

lemma same_line_sym: "same_line s t \<Longrightarrow> same_line t s"
  unfolding same_line_def by metis

lemma slots_okD:
  assumes "slots_ok ni nc slots"
  shows "hm_inv slots" "map_of slots k = Some s \<Longrightarrow> entry_ok ni nc k s"
    "map_of slots k = Some s \<Longrightarrow> map_of slots k' = Some s' \<Longrightarrow> same_line s s' \<Longrightarrow> k = k'"
  using assms by (auto simp: slots_ok_def)

text \<open>An update in place keeps the identity of an entry and may take its worker away, never give it one.\<close>

definition in_place :: "nat \<Rightarrow> nat \<Rightarrow> u32 \<Rightarrow> slot_state \<Rightarrow> slot_state \<Rightarrow> bool" where
  "in_place ni nc k s s' \<longleftrightarrow>
     ss_instance s' = ss_instance s \<and> (ss_cmd_tx s' = ss_cmd_tx s \<or> ss_cmd_tx s' = None) \<and> entry_ok ni nc k s'"

lemma slots_ok_at:
  assumes "slots_ok ni nc slots" "\<And>s. map_of slots k = Some s \<Longrightarrow> in_place ni nc k s (f s)"
  shows "slots_ok ni nc (modify_at k f slots)"
  unfolding slots_ok_def
proof (intro conjI allI impI)
  show "hm_inv (modify_at k f slots)" using slots_okD(1) [OF assms(1)] by simp
next
  fix k' s assume "map_of (modify_at k f slots) k' = Some s"
  then show "entry_ok ni nc k' s"
    using slots_okD(2) [OF assms(1)] assms(2) by (auto simp: in_place_def split: if_splits)
next
  fix k1 k2 s1 s2
  assume e: "map_of (modify_at k f slots) k1 = Some s1" "map_of (modify_at k f slots) k2 = Some s2" "same_line s1 s2"
  have "\<exists>t. map_of slots k' = Some t \<and> ss_instance s = ss_instance t \<and> (ss_cmd_tx s = ss_cmd_tx t \<or> ss_cmd_tx s = None)"
    if "map_of (modify_at k f slots) k' = Some s" for k' s
    using that assms(2) by (auto simp: in_place_def split: if_splits)
  from this [OF e(1)] this [OF e(2)] obtain t1 t2 where t: "map_of slots k1 = Some t1" "map_of slots k2 = Some t2"
    and i: "ss_instance s1 = ss_instance t1" "ss_instance s2 = ss_instance t2"
    and c: "ss_cmd_tx s1 = ss_cmd_tx t1 \<or> ss_cmd_tx s1 = None" "ss_cmd_tx s2 = ss_cmd_tx t2 \<or> ss_cmd_tx s2 = None"
    by blast
  have "same_line t1 t2" using e(3) i c unfolding same_line_def by metis
  then show "k1 = k2" using slots_okD(3) [OF assms(1) t] by blast
qed

lemma slots_ok_all:
  assumes "slots_ok ni nc slots" "\<And>k s. map_of slots k = Some s \<Longrightarrow> P s \<Longrightarrow> in_place ni nc k s (f s) \<and> ss_cmd_tx (f s) = ss_cmd_tx s"
  shows "slots_ok ni nc (modify_all P f slots)"
  unfolding slots_ok_def
proof (intro conjI allI impI)
  show "hm_inv (modify_all P f slots)" using slots_okD(1) [OF assms(1)] by simp
next
  fix k s assume "map_of (modify_all P f slots) k = Some s"
  then show "entry_ok ni nc k s"
    using slots_okD(2) [OF assms(1)] assms(2) by (auto simp: in_place_def split: if_splits)
next
  fix k1 k2 s1 s2
  assume e: "map_of (modify_all P f slots) k1 = Some s1" "map_of (modify_all P f slots) k2 = Some s2" "same_line s1 s2"
  have "\<exists>t. map_of slots k = Some t \<and> ss_instance s = ss_instance t \<and> ss_cmd_tx s = ss_cmd_tx t"
    if "map_of (modify_all P f slots) k = Some s" for k s
    using that assms(2) by (auto simp: in_place_def split: if_splits)
  from this [OF e(1)] this [OF e(2)] obtain t1 t2 where t: "map_of slots k1 = Some t1" "map_of slots k2 = Some t2"
    and i: "ss_instance s1 = ss_instance t1" "ss_instance s2 = ss_instance t2"
    and c: "ss_cmd_tx s1 = ss_cmd_tx t1" "ss_cmd_tx s2 = ss_cmd_tx t2"
    by blast
  have "same_line t1 t2" using e(3) i c unfolding same_line_def by metis
  then show "k1 = k2" using slots_okD(3) [OF assms(1) t] by blast
qed

lemma slots_ok_first:
  assumes "slots_ok ni nc slots" "\<And>k s. map_of slots k = Some s \<Longrightarrow> P s \<Longrightarrow> in_place ni nc k s (f s)"
  shows "slots_ok ni nc (modify_first P f slots)"
proof (cases "find (\<lambda>(_, v). P v) slots")
  case None
  then show ?thesis using assms(1) by (simp add: modify_first_at slots_okD(1) [OF assms(1)])
next
  case (Some e)
  obtain k v where e: "e = (k, v)" by force
  have "map_of slots k = Some v" "P v" using find_entry [OF slots_okD(1) [OF assms(1)]] Some e by auto
  then have "slots_ok ni nc (modify_at k f slots)" using assms(2) by (intro slots_ok_at [OF assms(1)]) simp
  then show ?thesis using Some e by (simp add: modify_first_at slots_okD(1) [OF assms(1)])
qed

lemma slots_ok_remove: "slots_ok ni nc slots \<Longrightarrow> slots_ok ni nc (hm_remove k slots)"
  by (auto simp: slots_ok_def split: if_splits)

lemma slots_ok_insert:
  assumes "slots_ok ni nc slots" "entry_ok ni nc k s"
    and "\<And>k' s'. map_of slots k' = Some s' \<Longrightarrow> same_line s s' \<Longrightarrow> k' = k"
  shows "slots_ok ni nc (hm_insert k s slots)"
  unfolding slots_ok_def
proof (intro conjI allI impI)
  show "hm_inv (hm_insert k s slots)" using slots_okD(1) [OF assms(1)] by simp
  show "entry_ok ni nc k' s'" if "map_of (hm_insert k s slots) k' = Some s'" for k' s'
    using that assms(2) slots_okD(2) [OF assms(1)] by (auto split: if_splits)
  show "k1 = k2" if "map_of (hm_insert k s slots) k1 = Some s1" "map_of (hm_insert k s slots) k2 = Some s2" "same_line s1 s2"
    for k1 k2 s1 s2
    using that assms(3) slots_okD(3) [OF assms(1)] same_line_sym [OF that(3)] by (auto split: if_splits)
qed

lemma entry_ok_mono: "entry_ok ni nc k s \<Longrightarrow> ni \<le> ni' \<Longrightarrow> nc \<le> nc' \<Longrightarrow> entry_ok ni' nc' k s"
  by (auto simp: entry_ok_def)

lemma slots_ok_mono: "slots_ok ni nc slots \<Longrightarrow> ni \<le> ni' \<Longrightarrow> nc \<le> nc' \<Longrightarrow> slots_ok ni' nc' slots"
  using entry_ok_mono by (auto simp: slots_ok_def) blast

text \<open>What placing an entry does to the map: the new entry is at its key, a parked one there has moved to a free
  key, and everything else is as it was.\<close>

lemma place_slot_cases:
  assumes "place_slot slots key state = Some slots'"
  obtains (plain) "slots' = hm_insert key (state\<lparr>ss_slot := key\<rparr>) slots"
      "\<And>parked. map_of slots key = Some parked \<Longrightarrow> owns_its_key parked"
    | (moved) parked to where "map_of slots key = Some parked" "\<not> owns_its_key parked" "to \<noteq> key" "map_of slots to = None"
      "slots' = hm_insert key (state\<lparr>ss_slot := key\<rparr>) (hm_insert to (parked\<lparr>ss_slot := to\<rparr>) (hm_remove key slots))"
proof (cases "map_of slots key")
  case None
  then show ?thesis using assms plain by (simp add: place_slot_def)
next
  case (Some parked)
  show ?thesis
  proof (cases "owns_its_key parked")
    case True
    then show ?thesis using assms plain Some by (simp add: place_slot_def)
  next
    case False
    then obtain to where to: "free_slot_key_except (hm_remove key slots) (Some key) = Some to"
      "slots' = hm_insert key (state\<lparr>ss_slot := key\<rparr>) (hm_insert to (parked\<lparr>ss_slot := to\<rparr>) (hm_remove key slots))"
      using assms Some by (auto simp: place_slot_def Let_def)
    have "to \<noteq> key" "map_of slots to = None" using free_key [OF to(1)] by auto
    then show ?thesis using moved Some False to(2) by blast
  qed
qed

lemma entry_ok_rekey: "entry_ok ni nc k s \<Longrightarrow> entry_ok ni nc k' (s\<lparr>ss_slot := k'\<rparr>)"
  by (auto simp: entry_ok_def owns_its_key_def)

lemma same_line_rekey [simp]: "same_line (s\<lparr>ss_slot := k\<rparr>) t = same_line s t" "same_line s (t\<lparr>ss_slot := k\<rparr>) = same_line s t"
  by (simp_all add: same_line_def)

lemma place_slot_ok:
  assumes ok: "slots_ok ni nc slots" and placed: "place_slot slots key state = Some slots'" and entry: "entry_ok ni nc k0 state"
    and fresh: "\<And>k s. map_of slots k = Some s \<Longrightarrow> \<not> same_line state s"
  shows "slots_ok ni nc slots'"
  using placed
proof (cases rule: place_slot_cases)
  case plain
  show ?thesis unfolding plain(1) using fresh by (intro slots_ok_insert [OF ok entry_ok_rekey [OF entry]]) auto
next
  case (moved parked to)
  have mid: "slots_ok ni nc (hm_insert to (parked\<lparr>ss_slot := to\<rparr>) (hm_remove key slots))"
    using slots_okD(2) [OF ok moved(1)] slots_okD(3) [OF ok moved(1)]
    by (intro slots_ok_insert [OF slots_ok_remove [OF ok] entry_ok_rekey]) (auto split: if_splits)
  show ?thesis unfolding moved(5)
    by (rule slots_ok_insert [OF mid entry_ok_rekey [OF entry]]) (use fresh moved(1) in \<open>auto split: if_splits\<close>)
qed

section \<open>Every operation keeps the pool well formed\<close>

lemma release_call_in_place: "entry_ok ni nc k s \<Longrightarrow> in_place ni nc k s (release_call s)"
  by (simp add: in_place_def entry_ok_def release_call_def owns_its_key_def)

lemma request_hangup_in_place: "entry_ok ni nc k s \<Longrightarrow> in_place ni nc k s (request_hangup alive tx s)"
  by (auto simp: request_hangup_def release_call_in_place) (simp_all add: in_place_def entry_ok_def owns_its_key_def)

lemma network_lost_in_place: "entry_ok ni nc k s \<Longrightarrow> in_place ni nc k s (network_lost resilience clock s)"
  by (simp add: in_place_def entry_ok_def network_lost_def release_call_def owns_its_key_def)

lemma alert_flag_in_place: "entry_ok ni nc k s \<Longrightarrow> in_place ni nc k s (s\<lparr>ss_lifecycle_alert_open := b\<rparr>)"
  by (simp add: in_place_def entry_ok_def owns_its_key_def)

lemma busy_in_place: "entry_ok ni nc k s \<Longrightarrow> in_place ni nc k s (s\<lparr>ss_has_active_call := True\<rparr>)"
  by (simp add: in_place_def entry_ok_def owns_its_key_def)

lemmas in_place_rules =
  release_call_in_place request_hangup_in_place network_lost_in_place alert_flag_in_place busy_in_place

text \<open>Parts of the pool that an operation leaves alone.\<close>

definition same_frame :: "card_pool \<Rightarrow> card_pool \<Rightarrow> bool" where
  "same_frame p p' \<longleftrightarrow>
     cp_next_instance p' = cp_next_instance p \<and> cp_next_channel p' = cp_next_channel p \<and> cp_cycle p' = cp_cycle p"

lemma pool_ok_slots:
  assumes "pool_ok p" "same_frame p p'" "slots_ok (cp_next_instance p) (cp_next_channel p) (cp_slots p')"
  shows "pool_ok p'"
  using assms by (simp add: pool_ok_def same_frame_def)

lemma pool_ok_emit [simp]: "pool_ok (emit e p) = pool_ok p"
  by (simp add: pool_ok_def emit_def)

lemma pool_ok_send [simp]: "pool_ok (send_if_alive alive tx cmd p) = pool_ok p"
  by (simp add: send_if_alive_def split: option.split)

lemma pool_ok_alert [simp]: "pool_ok (dispatch_alert mid kind ph p) = pool_ok p"
  by (simp add: dispatch_alert_def)

lemma pool_ok_on_slots:
  assumes "pool_ok p" "slots_ok (cp_next_instance p) (cp_next_channel p) (cp_slots p) \<Longrightarrow>
    slots_ok (cp_next_instance p) (cp_next_channel p) (f (cp_slots p))"
  shows "pool_ok (on_slots f p)"
  using assms by (simp add: pool_ok_def on_slots_def)

lemma pool_ok_first:
  assumes "pool_ok p" "\<And>ni nc k s. entry_ok ni nc k s \<Longrightarrow> P s \<Longrightarrow> in_place ni nc k s (f s)"
  shows "pool_ok (on_slots (modify_first P f) p)"
  by (rule pool_ok_on_slots [OF assms(1)]) (use assms(2) slots_okD(2) in \<open>blast intro: slots_ok_first\<close>)

lemma pool_ok_at:
  assumes "pool_ok p" "\<And>ni nc s. entry_ok ni nc k s \<Longrightarrow> in_place ni nc k s (f s)"
  shows "pool_ok (on_slots (modify_at k f) p)"
  by (rule pool_ok_on_slots [OF assms(1)]) (use assms(2) slots_okD(2) in \<open>blast intro: slots_ok_at\<close>)

lemma pool_ok_all:
  assumes "pool_ok p" "\<And>ni nc k s. entry_ok ni nc k s \<Longrightarrow> P s \<Longrightarrow> in_place ni nc k s (f s) \<and> ss_cmd_tx (f s) = ss_cmd_tx s"
  shows "pool_ok (on_slots (modify_all P f) p)"
  by (rule pool_ok_on_slots [OF assms(1)]) (use assms(2) slots_okD(2) in \<open>blast intro: slots_ok_all\<close>)

lemma hang_up_first_ok [step_inv]: "pool_ok p \<Longrightarrow> pool_ok (hang_up_first P cmd alive p)"
  by (auto simp: hang_up_first_def intro!: pool_ok_first in_place_rules split: option.split)

lemma claim_ok:
  assumes "pool_ok p" shows "pool_ok (p\<lparr>cp_slots := snd (claim_idle_cs_slot (cp_slots p))\<rparr>)"
proof (cases "find (\<lambda>(_, s). ss_lifecycle s = Ready \<and> \<not> ss_has_active_call s) (cp_slots p)")
  case None
  then show ?thesis using assms by (simp add: claim_idle_cs_slot_def)
next
  case (Some e)
  then show ?thesis using assms pool_ok_at [OF assms busy_in_place, of "fst e"]
    by (cases e) (simp add: claim_idle_cs_slot_def on_slots_def split: option.split)
qed

lemma handle_outbound_ok [step_inv]: "pool_ok p \<Longrightarrow> pool_ok (handle_outbound_request destination env p)"
proof -
  assume ok: "pool_ok p"
  obtain claim slots where c: "claim_idle_cs_slot (cp_slots p) = (claim, slots)" by force
  have ok': "pool_ok (p\<lparr>cp_slots := slots\<rparr>)" using claim_ok [OF ok] c by simp
  then show ?thesis using ok c
    by (auto simp: handle_outbound_request_def Let_def hang_up_claimed_slot_def release_slot_def [abs_def]
        intro!: pool_ok_at in_place_rules split: option.split dial_reply.split)
qed

lemma handle_ring_ok [step_inv]: "pool_ok p \<Longrightarrow> pool_ok (handle_ring_event mid env p)"
  by (auto simp: handle_ring_event_def Let_def hang_up_unbridged_call_def intro!: hang_up_first_ok pool_ok_first in_place_rules)

lemma handle_bridge_event_ok [step_inv]: "pool_ok p \<Longrightarrow> pool_ok (handle_bridge_event resilience clock event p)"
  by (cases event)
    (auto simp: handle_bridge_event_def release_hung_up_line_def [abs_def] track_lifecycle_alert_def Let_def on_slots_def
      intro!: handle_ring_ok pool_ok_first [unfolded on_slots_def] pool_ok_all [unfolded on_slots_def] in_place_rules split: option.split)

lemma poll_sip_ok [step_inv]: "pool_ok p \<Longrightarrow> pool_ok (poll_sip_peer_disconnect b alive p)"
  by (simp add: poll_sip_peer_disconnect_def signal_sip_peer_hangup_def hang_up_first_ok)

lemma pool_ok_restart_line [simp]: "pool_ok (restart_line mode slot s p) = pool_ok p"
  by (simp add: restart_line_def pool_ok_def emit_def split: option.split)

lemma restart_slot_ok [step_inv]: "pool_ok p \<Longrightarrow> pool_ok (restart_slot mode slot now p)"
  by (auto simp: restart_slot_def Let_def in_place_def entry_ok_def owns_its_key_def intro!: pool_ok_at split: option.split)

lemma manual_phase_ok: "phase_ok c \<Longrightarrow> phase_ok (snd (handle_manual_restart_during_cycle c slot))"
  by (auto simp: handle_manual_restart_during_cycle_def phase_ok_def Let_def split: option.split)

lemma card_restart_ok [step_inv]:
  assumes "pool_ok p" shows "pool_ok (snd (card_restart slot mode env p))"
proof (cases "parse_restart_mode mode")
  case (Some m)
  obtain advice q where aq: "(case cp_cycle p of None \<Rightarrow> (AdviceProceed, p)
      | Some c \<Rightarrow> (case handle_manual_restart_during_cycle c slot of (advice, c) \<Rightarrow> (advice, p\<lparr>cp_cycle := Some c\<rparr>))) = (advice, q)"
    by force
  then have "pool_ok q" using assms manual_phase_ok by (auto simp: pool_ok_def split: option.splits prod.splits) (metis snd_conv)
  then show ?thesis using Some aq by (auto simp: card_restart_def Let_def intro!: restart_slot_ok split: manual_restart_cycle_advice.split)
qed (use assms in \<open>simp add: card_restart_def\<close>)

lemma set_mode_ok [step_inv]: "pool_ok p \<Longrightarrow> pool_ok (snd (set_mode slot mode env p))"
  by (simp add: set_mode_def Let_def split: option.split mode_reply.split)

lemma handle_control_ok [step_inv]: "pool_ok p \<Longrightarrow> pool_ok (snd (handle_control_cmd cmd env p))"
  by (cases cmd) (auto simp: handle_control_cmd_def card_restart_ok set_mode_ok split: sum.split option.split)

lemma on_worker_exit_ok [step_inv]: "pool_ok p \<Longrightarrow> pool_ok (on_worker_exit result resilience clock p)"
  by (auto simp: on_worker_exit_def release_call_def in_place_def entry_ok_def owns_its_key_def intro!: pool_ok_at split: option.split)

subsection \<open>Entries that get a worker\<close>

lemma init_imei: "try_init_module m ans = Inr init \<Longrightarrow> in_imei init \<noteq> []"
proof -
  assume "try_init_module m ans = Inr init"
  then have "in_imei init = (case query_imei (ia_imei ans) of Some i \<Rightarrow> i | None \<Rightarrow> lit ''Unknown'')"
    by (auto simp: try_init_module_def Let_def and_then_Inr_iff split: if_splits option.splits sum.splits at_response.splits bool.splits)
  moreover have "i \<noteq> []" if "query_imei (ia_imei ans) = Some i" for i
    using that by (auto simp: query_imei_def find_Some_iff split: sum.splits at_response.splits)
  ultimately show ?thesis by (auto simp: lit_def split: option.splits)
qed

lemma slots_ok_worker:
  assumes ok: "slots_ok ni nc slots" and s: "map_of slots k = Some s"
    and f: "ss_instance (f s) = ss_instance s" "ss_cmd_tx (f s) = Some nc" "entry_ok ni (nc + 1) k (f s)"
  shows "slots_ok ni (nc + 1) (modify_at k f slots)"
  unfolding slots_ok_def
proof (intro conjI allI impI)
  show "hm_inv (modify_at k f slots)" using slots_okD(1) [OF ok] by simp
  show "entry_ok ni (nc + 1) k' s'" if "map_of (modify_at k f slots) k' = Some s'" for k' s'
    using that s f(3) slots_okD(2) [OF ok, of k' s'] entry_ok_mono [of ni nc k' s' ni "nc + 1"] by (auto split: if_splits)
  have new: "k = k'" if "k' \<noteq> k" "map_of slots k' = Some s'" "same_line (f s) s'" for k' s'
  proof -
    have "ss_cmd_tx s' \<noteq> Some nc" using slots_okD(2) [OF ok that(2)] by (auto simp: entry_ok_def)
    then have "same_line s s'" using that(3) f(1,2) by (simp add: same_line_def)
    then show ?thesis using slots_okD(3) [OF ok s that(2)] by simp
  qed
  show "k1 = k2" if "map_of (modify_at k f slots) k1 = Some s1" "map_of (modify_at k f slots) k2 = Some s2" "same_line s1 s2"
    for k1 k2 s1 s2
    using that s new [of k1 s1] new [of k2 s2] same_line_sym [OF that(3)] slots_okD(3) [OF ok, of k1 s1 k2 s2]
    by (auto split: if_splits)
qed

lemma pool_ok_clear_stale [step_inv]: "pool_ok p \<Longrightarrow> pool_ok (clear_stale_given_up mid ph p)"
  by (auto simp: clear_stale_given_up_def intro!: pool_ok_on_slots slots_ok_remove split: option.split)

lemma pool_ok_close_alert [step_inv]:
  assumes "pool_ok p" shows "pool_ok (close_open_lifecycle_alert mid ph p)"
proof -
  have "pool_ok (on_slots (modify_all (\<lambda>s. module_id s = mid) (\<lambda>s. s\<lparr>ss_lifecycle_alert_open := False\<rparr>)) p)"
    using assms by (rule pool_ok_all) (simp add: alert_flag_in_place)
  then show ?thesis by (simp add: close_open_lifecycle_alert_def take_open_lifecycle_alert_def on_slots_def Let_def)
qed

lemma move_slot_ok:
  assumes ok: "slots_ok ni nc slots" and moved: "move_slot slots k k' = Some slots'"
  shows "slots_ok ni nc slots'"
proof (cases "k = k' \<or> map_of slots k = None")
  case True
  then show ?thesis using assms by (auto simp: move_slot_def split: option.splits)
next
  case False
  then obtain s where s: "map_of slots k = Some s" "place_slot (hm_remove k slots) k' s = Some slots'"
    using moved by (auto simp: move_slot_def)
  show ?thesis
    by (rule place_slot_ok [OF slots_ok_remove [OF ok] s(2) slots_okD(2) [OF ok s(1)]])
      (use slots_okD(3) [OF ok s(1)] in \<open>auto split: if_splits\<close>)
qed

lemma retry_recovered_ok:
  assumes ok: "pool_ok p" and s: "map_of (cp_slots p) slot = Some s" and imei: "in_imei init \<noteq> []"
    and run: "retry_recovered slot s init p = Some p'"
  shows "pool_ok p'"
proof -
  let ?f = "\<lambda>s. s\<lparr>ss_imei := in_imei init, ss_phone_number := in_phone init, ss_network_type := in_network init,
      ss_network_mode := in_mode init, ss_lifecycle := Ready, ss_retry_count := 0, ss_next_retry_at := None,
      ss_cmd_tx := Some (cp_next_channel p)\<rparr>"
  define q where "q = on_slots (modify_at slot ?f) (snd (spawn_worker (module_id s) (in_slot init) (ss_instance s) p))"
  define r where "r = close_open_lifecycle_alert (module_id s) (usable_phone (in_phone init))
      (clear_stale_given_up (module_id s) (usable_phone (in_phone init)) q)"
  have sok: "slots_ok (cp_next_instance p) (cp_next_channel p) (cp_slots p)" using ok by (simp add: pool_ok_def)
  have "slots_ok (cp_next_instance p) (cp_next_channel p + 1) (modify_at slot ?f (cp_slots p))"
    using slots_okD(2) [OF sok s] imei
    by (intro slots_ok_worker [OF sok s]) (simp_all add: entry_ok_def owns_its_key_def)
  then have "pool_ok q" using ok by (simp add: q_def pool_ok_def on_slots_def spawn_worker_def)
  then have r: "pool_ok r" by (simp add: r_def pool_ok_close_alert pool_ok_clear_stale)
  from run obtain slots where "move_slot (cp_slots r) slot (in_slot init) = Some slots" "p' = r\<lparr>cp_slots := slots\<rparr>"
    by (auto simp: retry_recovered_def Let_def r_def q_def spawn_worker_def)
  then show ?thesis using r move_slot_ok by (auto simp: pool_ok_def)
qed

lemma retry_failed_ok:
  assumes ok: "pool_ok p" and s: "map_of (cp_slots p) slot = Some s" "ss_lifecycle s \<noteq> Ready"
  shows "pool_ok (retry_failed slot s resilience clock p)"
proof -
  have "in_place ni nc slot s (s\<lparr>ss_retry_count := n, ss_next_retry_at := Some x\<rparr>)"
    "in_place ni nc slot s (s\<lparr>ss_retry_count := n, ss_lifecycle := GivenUp, ss_next_retry_at := None\<rparr>)"
    if "entry_ok ni nc slot s" for ni nc n x
    using that s(2) by (auto simp: in_place_def entry_ok_def owns_its_key_def)
  then show ?thesis using s(1) slots_okD(2) [OF _ s(1)]
    by (auto simp: retry_failed_def Let_def intro!: pool_ok_on_slots [OF ok] slots_ok_at)
qed

lemma retry_slot_ok:
  assumes "pool_ok p" "map_of (cp_slots p) slot = Some s" "ss_lifecycle s \<noteq> Ready"
    and "retry_slot slot ans resilience clock p = Some p'"
  shows "pool_ok p'"
  using assms retry_failed_ok [OF assms(1-3)] retry_recovered_ok [OF assms(1,2) init_imei]
  by (auto simp: retry_slot_def split: sum.splits if_splits)

lemma retry_due_ok: "pool_ok p \<Longrightarrow> retry_due now resilience answers ks p = Some p' \<Longrightarrow> pool_ok p'"
proof (induction now resilience answers ks p rule: retry_due.induct)
  case (2 now resilience answers slot slots p)
  show ?case
  proof (cases "map_of (cp_slots p) slot")
    case None
    then show ?thesis using 2 by simp
  next
    case (Some s)
    show ?thesis
    proof (cases "should_retry now s")
      case True
      then obtain q where "retry_slot slot (fst (answers slot)) resilience (snd (answers slot)) p = Some q"
        "retry_due now resilience answers slots q = Some p'"
        using 2(5) Some by (auto simp: bind_eq_Some_conv)
      moreover from True have "ss_lifecycle s \<noteq> Ready" by (simp add: should_retry_def)
      ultimately show ?thesis using 2(2) [OF Some True] retry_slot_ok [OF 2(4) Some] by blast
    next
      case False
      then show ?thesis using 2 Some by simp
    qed
  qed
qed simp

lemma add_ready_ok:
  assumes ok: "pool_ok p" and imei: "in_imei init \<noteq> []" and run: "add_ready m init p = Some p'"
  shows "pool_ok p'"
proof -
  let ?ni = "cp_next_instance p" and ?nc = "cp_next_channel p"
  let ?s = "ready_slot m init ?ni ?nc"
  have sok: "slots_ok ?ni ?nc (cp_slots p)" using ok by (simp add: pool_ok_def)
  have up: "slots_ok (?ni + 1) (?nc + 1) (cp_slots p)" using slots_ok_mono [OF sok] by simp
  obtain slots where pl: "place_slot (cp_slots p) (in_slot init) ?s = Some slots"
    and p': "cp_slots p' = slots" "cp_next_instance p' = ?ni + 1" "cp_next_channel p' = ?nc + 1" "cp_cycle p' = cp_cycle p"
    using run by (auto simp: add_ready_def spawn_worker_def Let_def)
  have "\<not> same_line ?s s" if "map_of (cp_slots p) k = Some s" for k s
    using slots_okD(2) [OF sok that] by (auto simp: same_line_def entry_ok_def ready_slot_def)
  moreover have "entry_ok (?ni + 1) (?nc + 1) (in_slot init) ?s"
    using imei by (simp add: entry_ok_def ready_slot_def owns_its_key_def)
  ultimately have "slots_ok (?ni + 1) (?nc + 1) slots" using place_slot_ok [OF up pl] by blast
  then show ?thesis using ok p' by (simp add: pool_ok_def)
qed

lemma park_module_ok:
  assumes ok: "pool_ok p" and run: "park_module m resilience clock p = Some p'"
  shows "pool_ok p'"
proof -
  let ?ni = "cp_next_instance p" and ?nc = "cp_next_channel p"
  have sok: "slots_ok ?ni ?nc (cp_slots p)" using ok by (simp add: pool_ok_def)
  obtain k where k: "free_slot_key (cp_slots p) = Some k"
    and p': "p' = on_slots (hm_insert k (fst (pending_slot k m resilience clock p))) (p\<lparr>cp_next_instance := ?ni + 1\<rparr>)"
    using run by (auto simp: park_module_def pending_slot_def)
  let ?s = "fst (pending_slot k m resilience clock p)"
  have "\<not> same_line ?s s" if "map_of (cp_slots p) k' = Some s" for k' s
    using slots_okD(2) [OF sok that] by (auto simp: same_line_def entry_ok_def pending_slot_def)
  moreover have "entry_ok (?ni + 1) ?nc k ?s" by (simp add: entry_ok_def pending_slot_def)
  moreover have "slots_ok (?ni + 1) ?nc (cp_slots p)" using slots_ok_mono [OF sok] by simp
  ultimately have "slots_ok (?ni + 1) ?nc (hm_insert k ?s (cp_slots p))" using slots_ok_insert by blast
  then show ?thesis using ok by (simp add: p' pool_ok_def on_slots_def)
qed

lemma bootstrap_ok: "pool_ok p \<Longrightarrow> bootstrap_slots resilience ms p = Some p' \<Longrightarrow> pool_ok p'"
proof (induction ms arbitrary: p)
  case (Cons e ms)
  then obtain q where q: "bootstrap_one resilience e p = Some q" "bootstrap_slots resilience ms q = Some p'"
    by (auto simp: bind_eq_Some_conv)
  have "pool_ok q" using q(1) Cons.prems(1)
    by (auto simp: bootstrap_one_def dest: init_imei intro: add_ready_ok park_module_ok split: prod.splits sum.splits if_splits)
  then show ?case using Cons.IH q(2) by blast
qed simp

lemma rescan_one_ok:
  assumes "pool_ok p" "rescan_one resilience e p = Some p'" shows "pool_ok p'"
proof -
  obtain m ans clock where e: "e = (m, ans, clock)" using prod_cases3 by blast
  show ?thesis
  proof (cases "try_init_module m ans")
    case (Inl err)
    then show ?thesis using assms park_module_ok by (simp add: e rescan_one_def)
  next
    case (Inr init)
    note imei = init_imei [OF Inr]
    show ?thesis
    proof (cases "live_slot_at (cp_slots p) (in_slot init)")
      case True
      then show ?thesis using assms Inr by (simp add: e rescan_one_def)
    next
      case False
      then have "add_ready m init (close_open_lifecycle_alert (mo_id m) (usable_phone (in_phone init))
          (clear_stale_given_up (mo_id m) (usable_phone (in_phone init)) p)) = Some p'"
        using assms(2) Inr by (simp add: e rescan_one_def Let_def)
      with pool_ok_close_alert [OF pool_ok_clear_stale [OF assms(1)]] imei show ?thesis by (rule add_ready_ok)
    qed
  qed
qed

lemma rescan_each_ok: "pool_ok p \<Longrightarrow> rescan_each resilience ms p = Some p' \<Longrightarrow> pool_ok p'"
  by (induction ms arbitrary: p) (auto simp: bind_eq_Some_conv dest: rescan_one_ok)

lemma rescan_ok: "pool_ok p \<Longrightarrow> rescan_new_modules resilience scan p = Some p' \<Longrightarrow> pool_ok p'"
  by (auto simp: rescan_new_modules_def dest: rescan_each_ok split: option.splits)

subsection \<open>The restart cycle in the pool\<close>

lemma apply_action_ok [step_inv]: "pool_ok p \<Longrightarrow> pool_ok (apply_action config now act p)"
  by (simp add: apply_action_def apply_send_reboot_def restart_slot_ok split: scheduler_action.split)

lemma apply_actions_ok: "pool_ok p \<Longrightarrow> pool_ok (fold (apply_action config now) acts p)"
  by (induction acts arbitrary: p) (simp_all add: apply_action_ok)

lemma complete_cycle_ok: "pool_ok p \<Longrightarrow> complete_cycle config env p = Some p' \<Longrightarrow> pool_ok p'"
  by (auto simp: complete_cycle_def recompute_next_scheduled_at_def pool_ok_def Let_def split: option.splits)

lemma new_cycle_phase_ok: "phase_ok (new_cycle cycle_id cron_tick now slots)"
  by (simp add: new_cycle_def phase_ok_def)

lemma advance_scheduler_ok:
  assumes "pool_ok p" "advance_scheduler config now env p = Some p'"
  shows "pool_ok p'"
proof (cases "cp_cycle p")
  case None
  then show ?thesis using assms by (auto simp: advance_scheduler_def start_cycle_def pool_ok_def new_cycle_phase_ok split: option.splits if_splits)
next
  case (Some c)
  show ?thesis
  proof (cases "now < cy_next_action_at c")
    case True
    then show ?thesis using assms Some by (simp add: advance_scheduler_def)
  next
    case False
    then obtain c' acts where tick: "tick_scheduler c (pool_slot_view (cp_slots p)) now (ev_rng env) (sr_inter_card_gap_seconds config)
        (sr_inter_card_gap_jitter_seconds config) = Some (c', acts)"
      and run: "(if CycleComplete \<in> set acts then complete_cycle config env (fold (apply_action config now) acts (p\<lparr>cp_cycle := Some c'\<rparr>))
        else Some (fold (apply_action config now) acts (p\<lparr>cp_cycle := Some c'\<rparr>))) = Some p'"
      using assms(2) Some by (auto simp: advance_scheduler_def Let_def split: option.splits)
    have "phase_ok c'" using tick_books(1) [OF _ tick] assms(1) Some by (simp add: pool_ok_def)
    then have "pool_ok (p\<lparr>cp_cycle := Some c'\<rparr>)" using assms(1) by (simp add: pool_ok_def)
    from apply_actions_ok [OF this] show ?thesis using run complete_cycle_ok by (metis option.inject)
  qed
qed

lemma on_timer_tick_ok:
  assumes "pool_ok p" "on_timer_tick resilience config now env p = Some p'"
  shows "pool_ok p'"
proof -
  from assms(2) obtain q r where q: "retry_due now resilience (tv_answers env) (map fst (cp_slots p)) p = Some q"
    and r: "(if cp_rescan_deadline q \<le> now then
        map_option (\<lambda>p. p\<lparr>cp_rescan_deadline := tv_clock env + RESCAN_INTERVAL\<rparr>) (rescan_new_modules resilience (tv_scan env) q)
      else Some q) = Some r"
    and p': "advance_scheduler config now (tv_cycle env) r = Some p'"
    by (auto simp: on_timer_tick_def bind_eq_Some_conv)
  have "pool_ok q" using retry_due_ok [OF assms(1) q] .
  then have "pool_ok r" using r rescan_ok [of q resilience "tv_scan env"] by (auto simp: pool_ok_def split: if_splits)
  then show ?thesis using advance_scheduler_ok p' by blast
qed

section \<open>The event loop\<close>

text \<open>One turn of the loop. A task of the join set ends, normally or by a panic, when the loop takes it out.\<close>

datatype pool_event =
    PBridge bridge_event instant | PTaskEnd nat bool instant | PControl control_cmd control_env | POutbound text_string dial_env
  | PSipPeer bool "nat \<Rightarrow> bool" | PTimer instant tick_env

definition pool_step :: "resilience_config \<Rightarrow> scheduled_restart_config \<Rightarrow> pool_event \<Rightarrow> card_pool \<Rightarrow> card_pool option" where
  "pool_step resilience config ev p =
     (case ev of
        PBridge event clock \<Rightarrow> Some (handle_bridge_event resilience clock event p)
      | PTaskEnd i panicked clock \<Rightarrow>
          (case get_at (cp_tasks p) i of
             None \<Rightarrow> Some p
           | Some task \<Rightarrow>
               Some (on_worker_exit (if panicked then None else Some (tk_exit task)) resilience clock
                 (p\<lparr>cp_tasks := take i (cp_tasks p) @ drop (i + 1) (cp_tasks p)\<rparr>)))
      | PControl cmd env \<Rightarrow> Some (snd (handle_control_cmd cmd env p))
      | POutbound destination env \<Rightarrow> Some (handle_outbound_request destination env p)
      | PSipPeer disconnected alive \<Rightarrow> Some (poll_sip_peer_disconnect disconnected alive p)
      | PTimer now env \<Rightarrow> on_timer_tick resilience config now env p)"

definition new_pool :: "bool \<Rightarrow> (int \<Rightarrow> int option) option \<Rightarrow> instant \<Rightarrow> card_pool" where
  "new_pool client schedule clock =
     \<lparr>cp_slots = [], cp_tasks = [], cp_next_instance = 1, cp_next_channel = 0, cp_alerts_client = client,
      cp_cron_schedule = schedule, cp_cycle = None, cp_next_scheduled_at = None, cp_last_fired_tick = None,
      cp_rescan_deadline = clock + RESCAN_INTERVAL, cp_log = []\<rparr>"

inductive pool_runs :: "resilience_config \<Rightarrow> scheduled_restart_config \<Rightarrow> card_pool \<Rightarrow> bool" for resilience config where
  runs_start: "bootstrap_slots resilience ms (new_pool client schedule clock) = Some p \<Longrightarrow>
    recompute_next_scheduled_at config rng now_local now_instant p = Some q \<Longrightarrow> pool_runs resilience config q"
| runs_step: "pool_runs resilience config p \<Longrightarrow> pool_step resilience config ev p = Some q \<Longrightarrow> pool_runs resilience config q"

lemma pool_step_ok:
  assumes "pool_ok p" "pool_step resilience config ev p = Some p'"
  shows "pool_ok p'"
proof (cases ev)
  case (PTaskEnd i panicked clock)
  have "pool_ok (p\<lparr>cp_tasks := ts\<rparr>)" for ts using assms(1) by (simp add: pool_ok_def)
  then show ?thesis using assms PTaskEnd by (auto simp: pool_step_def intro: on_worker_exit_ok split: option.splits)
next
  case (PTimer now env)
  then show ?thesis using assms on_timer_tick_ok by (simp add: pool_step_def)
qed (use assms in \<open>auto simp: pool_step_def intro: step_inv\<close>)

lemma pool_runs_ok: "pool_runs resilience config p \<Longrightarrow> pool_ok p"
proof (induction rule: pool_runs.induct)
  case (runs_start ms client schedule clock p rng now_local now_instant q)
  have "pool_ok (new_pool client schedule clock)" by (simp add: new_pool_def pool_ok_def slots_ok_def hm_inv_def)
  then have "pool_ok p" using bootstrap_ok runs_start(1) by blast
  then show ?case using runs_start(2)
    by (auto simp: recompute_next_scheduled_at_def pool_ok_def Let_def split: option.splits)
next
  case (runs_step p ev q)
  then show ?case using pool_step_ok by blast
qed

section \<open>Lines in service stay where they are\<close>

text \<open>The entry at a key is this instance of this module; while it is in service, it owns its key.\<close>

definition line_at :: "u32 \<Rightarrow> slot_state \<Rightarrow> slot_map \<Rightarrow> bool" where
  "line_at k s slots \<longleftrightarrow> (\<exists>s'. map_of slots k = Some s' \<and> ss_instance s' = ss_instance s \<and> ss_module s' = ss_module s)"

definition ready_at :: "u32 \<Rightarrow> slot_state \<Rightarrow> slot_map \<Rightarrow> bool" where
  "ready_at k s slots \<longleftrightarrow>
     (\<exists>s'. map_of slots k = Some s' \<and> ss_lifecycle s' = Ready \<and> owns_its_key s' \<and> ss_instance s' = ss_instance s \<and> ss_module s' = ss_module s)"

lemma ready_at_line: "ready_at k s slots \<Longrightarrow> line_at k s slots"
  by (auto simp: ready_at_def line_at_def)

lemma ready_at_live: "ready_at k s slots \<Longrightarrow> live_slot_at slots k"
  by (auto simp: ready_at_def live_slot_at_def)

lemma ready_at_cong: "map_of slots' k = map_of slots k \<Longrightarrow> ready_at k s slots' = ready_at k s slots"
  by (simp add: ready_at_def)

lemma place_keeps: "place_slot slots key st = Some slots' \<Longrightarrow> ready_at k s slots \<Longrightarrow> key \<noteq> k \<Longrightarrow> ready_at k s slots'"
  by (erule place_slot_cases) (auto simp: ready_at_def)

lemma clear_stale_keeps:
  assumes "hm_inv (cp_slots p)" "ready_at k s (cp_slots p)"
  shows "ready_at k s (cp_slots (clear_stale_given_up mid ph p))"
proof (cases "find_given_up_slot (cp_slots p) mid")
  case None
  then show ?thesis using assms by (simp add: clear_stale_given_up_def)
next
  case (Some stale)
  then obtain v where "find (\<lambda>(_, s). ss_lifecycle s = GivenUp \<and> module_id s = mid) (cp_slots p) = Some (stale, v)"
    unfolding find_given_up_slot_def by auto
  from find_entry [OF assms(1) this] have "map_of (cp_slots p) stale = Some v" "ss_lifecycle v = GivenUp" by simp_all
  then have "stale \<noteq> k" using assms(2) by (auto simp: ready_at_def)
  then have "map_of (hm_remove stale (cp_slots p)) k = map_of (cp_slots p) k" by simp
  moreover have "cp_slots (clear_stale_given_up mid ph p) = hm_remove stale (cp_slots p)"
    using Some by (simp add: clear_stale_given_up_def dispatch_alert_def emit_def on_slots_def)
  ultimately show ?thesis using assms(2) by (simp only: ready_at_def)
qed

lemma close_alert_keeps:
  assumes "ready_at k s (cp_slots p)" shows "ready_at k s (cp_slots (close_open_lifecycle_alert mid ph p))"
proof -
  have "cp_slots (close_open_lifecycle_alert mid ph p) = modify_all (\<lambda>s. module_id s = mid) (\<lambda>s. s\<lparr>ss_lifecycle_alert_open := False\<rparr>) (cp_slots p)"
    by (simp add: close_open_lifecycle_alert_def take_open_lifecycle_alert_def dispatch_alert_def emit_def Let_def)
  moreover obtain s' where "map_of (cp_slots p) k = Some s'" "ss_lifecycle s' = Ready" "owns_its_key s'"
    "ss_instance s' = ss_instance s" "ss_module s' = ss_module s" using assms by (auto simp: ready_at_def)
  ultimately show ?thesis by (simp add: ready_at_def owns_its_key_def)
qed

lemma hm_inv_clear_stale: "hm_inv (cp_slots p) \<Longrightarrow> hm_inv (cp_slots (clear_stale_given_up mid ph p))"
  by (simp add: clear_stale_given_up_def dispatch_alert_def emit_def on_slots_def split: option.split)

lemma retry_failed_keeps:
  "slot \<noteq> k \<Longrightarrow> ready_at k s (cp_slots p) \<Longrightarrow> ready_at k s (cp_slots (retry_failed slot t resilience clock p))"
  by (simp add: retry_failed_def dispatch_alert_def emit_def on_slots_def Let_def ready_at_def)

lemma retry_recovered_keeps:
  assumes inv: "hm_inv (cp_slots p)" and k: "slot \<noteq> k" "in_slot init \<noteq> k" and ready: "ready_at k s (cp_slots p)"
    and run: "retry_recovered slot t init p = Some p'"
  shows "ready_at k s (cp_slots p')"
proof -
  define q where "q = on_slots (modify_at slot (\<lambda>s. s\<lparr>ss_imei := in_imei init, ss_phone_number := in_phone init,
      ss_network_type := in_network init, ss_network_mode := in_mode init, ss_lifecycle := Ready, ss_retry_count := 0,
      ss_next_retry_at := None, ss_cmd_tx := Some (cp_next_channel p)\<rparr>))
    (snd (spawn_worker (module_id t) (in_slot init) (ss_instance t) p))"
  define r where "r = close_open_lifecycle_alert (module_id t) (usable_phone (in_phone init))
      (clear_stale_given_up (module_id t) (usable_phone (in_phone init)) q)"
  have "ready_at k s (cp_slots q)" "hm_inv (cp_slots q)"
    using inv k(1) ready by (simp_all add: q_def on_slots_def spawn_worker_def ready_at_def)
  then have r: "ready_at k s (cp_slots r)" by (simp add: r_def close_alert_keeps clear_stale_keeps)
  from run obtain slots where mv: "move_slot (cp_slots r) slot (in_slot init) = Some slots" "p' = r\<lparr>cp_slots := slots\<rparr>"
    by (auto simp: retry_recovered_def Let_def r_def q_def spawn_worker_def)
  have "ready_at k s (hm_remove slot (cp_slots r))" using r k(1) by (simp add: ready_at_def)
  then have "ready_at k s slots"
    using mv(1) r place_keeps [of "hm_remove slot (cp_slots r)" "in_slot init"] k(2)
    by (auto simp: move_slot_def split: if_splits option.splits)
  then show ?thesis using mv(2) by simp
qed

lemma retry_due_keeps:
  "pool_ok p \<Longrightarrow> ready_at k s (cp_slots p) \<Longrightarrow> retry_due now resilience answers ks p = Some p' \<Longrightarrow> ready_at k s (cp_slots p')"
proof (induction now resilience answers ks p rule: retry_due.induct)
  case (2 now resilience answers slot slots p)
  show ?case
  proof (cases "map_of (cp_slots p) slot")
    case None
    then show ?thesis using 2 by simp
  next
    case (Some t)
    show ?thesis
    proof (cases "should_retry now t")
      case True
      then obtain q where q: "retry_slot slot (fst (answers slot)) resilience (snd (answers slot)) p = Some q"
        "retry_due now resilience answers slots q = Some p'"
        using 2(6) Some by (auto simp: bind_eq_Some_conv)
      from True have t: "ss_lifecycle t \<noteq> Ready" by (simp add: should_retry_def)
      then have ne: "slot \<noteq> k" using 2(5) Some by (auto simp: ready_at_def)
      have "ready_at k s (cp_slots q)"
      proof (cases "try_init_module (ss_module t) (fst (answers slot))")
        case (Inl e)
        then show ?thesis using q(1) Some 2(5) retry_failed_keeps [OF ne] by (auto simp: retry_slot_def)
      next
        case (Inr init)
        show ?thesis
        proof (cases "in_slot init \<noteq> slot \<and> live_slot_at (cp_slots p) (in_slot init)")
          case True
          then show ?thesis using q(1) Some Inr 2(5) retry_failed_keeps [OF ne] by (auto simp: retry_slot_def)
        next
          case False
          then have "in_slot init \<noteq> k" using ready_at_live [OF 2(5)] ne by auto
          moreover have "hm_inv (cp_slots p)" using 2(4) by (auto simp: pool_ok_def slots_ok_def)
          moreover have "retry_recovered slot t init p = Some q" using q(1) Some Inr False by (auto simp: retry_slot_def)
          ultimately show ?thesis using retry_recovered_keeps ne 2(5) by blast
        qed
      qed
      then show ?thesis using 2(2) [OF Some True q(1) retry_slot_ok [OF 2(4) Some t q(1)]] q(2) by blast
    next
      case False
      then show ?thesis using 2 Some by simp
    qed
  qed
qed simp

lemma rescan_one_keeps:
  assumes ok: "pool_ok p" and ready: "ready_at k s (cp_slots p)" and run: "rescan_one resilience e p = Some p'"
  shows "ready_at k s (cp_slots p')"
proof -
  obtain m ans clock where e: "e = (m, ans, clock)" using prod_cases3 by blast
  show ?thesis
  proof (cases "try_init_module m ans")
    case (Inl err)
    then obtain key where key: "free_slot_key (cp_slots p) = Some key"
      and p': "p' = on_slots (hm_insert key (fst (pending_slot key m resilience clock p))) (snd (pending_slot key m resilience clock p))"
      using run by (auto simp: e rescan_one_def park_module_def case_prod_beta)
    have "key \<noteq> k" using free_key(1) [OF key [unfolded free_slot_key_def]] ready by (auto simp: ready_at_def)
    then show ?thesis using ready by (simp add: p' on_slots_def pending_slot_def ready_at_def)
  next
    case (Inr init)
    show ?thesis
    proof (cases "live_slot_at (cp_slots p) (in_slot init)")
      case True
      then show ?thesis using run ready Inr by (simp add: e rescan_one_def)
    next
      case False
      then have ne: "in_slot init \<noteq> k" using ready_at_live [OF ready] by auto
      define q where "q = close_open_lifecycle_alert (mo_id m) (usable_phone (in_phone init))
          (clear_stale_given_up (mo_id m) (usable_phone (in_phone init)) p)"
      have "hm_inv (cp_slots p)" using ok by (auto simp: pool_ok_def slots_ok_def)
      then have q: "ready_at k s (cp_slots q)" by (simp add: q_def close_alert_keeps clear_stale_keeps ready)
      have "add_ready m init q = Some p'" using run Inr False by (simp add: e rescan_one_def Let_def q_def)
      then obtain slots st where "place_slot (cp_slots q) (in_slot init) st = Some slots" "cp_slots p' = slots"
        by (auto simp: add_ready_def spawn_worker_def Let_def)
      then show ?thesis using place_keeps q ne by blast
    qed
  qed
qed

lemma rescan_keeps:
  assumes "pool_ok p" "ready_at k s (cp_slots p)" "rescan_new_modules resilience scan p = Some p'"
  shows "ready_at k s (cp_slots p')"
proof -
  have each: "ready_at k s (cp_slots q')" if "pool_ok q" "ready_at k s (cp_slots q)" "rescan_each resilience ms q = Some q'" for ms q q'
    using that
  proof (induction ms arbitrary: q)
    case (Cons e ms)
    from Cons.prems(3) obtain r where r: "rescan_one resilience e q = Some r" "rescan_each resilience ms r = Some q'"
      by (auto simp: bind_eq_Some_conv)
    show ?case using Cons.IH [OF rescan_one_ok [OF Cons.prems(1) r(1)] rescan_one_keeps [OF Cons.prems(1,2) r(1)] r(2)] .
  qed simp
  show ?thesis using assms each by (auto simp: rescan_new_modules_def split: option.splits)
qed

subsection \<open>Updates in place\<close>

definition identities :: "slot_map \<Rightarrow> (u32 \<Rightarrow> (nat \<times> discovered_module) option)" where
  "identities slots = (\<lambda>k. map_option (\<lambda>s. (ss_instance s, ss_module s)) (map_of slots k))"

lemma line_at_identities: "line_at k s slots \<longleftrightarrow> identities slots k = Some (ss_instance s, ss_module s)"
  by (auto simp: line_at_def identities_def)

lemma identities_at [simp]:
  "(\<And>s. ss_instance (f s) = ss_instance s \<and> ss_module (f s) = ss_module s) \<Longrightarrow> identities (modify_at k f slots) = identities slots"
  by (auto simp: identities_def fun_eq_iff option.map_comp comp_def)

lemma identities_all [simp]:
  "(\<And>s. ss_instance (f s) = ss_instance s \<and> ss_module (f s) = ss_module s) \<Longrightarrow> identities (modify_all P f slots) = identities slots"
  by (auto simp: identities_def fun_eq_iff option.map_comp comp_def intro!: option.map_cong)

lemma identities_first [simp]:
  assumes "\<And>s. ss_instance (f s) = ss_instance s \<and> ss_module (f s) = ss_module s"
  shows "identities (modify_first P f slots) = identities slots"
proof -
  have "map_of (modify_first P f slots) k = map_of slots k \<or>
      (\<exists>s. map_of slots k = Some s \<and> map_of (modify_first P f slots) k = Some (f s))" for k
    by (induction P f slots rule: modify_first.induct) auto
  then have "identities (modify_first P f slots) k = identities slots k" for k
    using assms by (metis (no_types, lifting) identities_def option.map(2))
  then show ?thesis by (rule ext)
qed

lemma identity_preserving [simp]:
  "ss_instance (release_call s) = ss_instance s" "ss_module (release_call s) = ss_module s"
  "ss_instance (request_hangup alive tx s) = ss_instance s" "ss_module (request_hangup alive tx s) = ss_module s"
  "ss_instance (network_lost resilience clock s) = ss_instance s" "ss_module (network_lost resilience clock s) = ss_module s"
  by (simp_all add: release_call_def request_hangup_def network_lost_def)

lemma cp_slots_simps [simp]:
  "cp_slots (emit e p) = cp_slots p" "cp_slots (send_if_alive alive tx cmd p) = cp_slots p" "cp_slots (on_slots f p) = f (cp_slots p)"
  "cp_slots (restart_line mode slot st p) = cp_slots p"
  by (simp_all add: emit_def send_if_alive_def on_slots_def restart_line_def split: option.split)

lemma restart_slot_identities [simp]: "identities (cp_slots (restart_slot mode slot now p)) = identities (cp_slots p)"
  by (simp add: restart_slot_def Let_def split: option.split)

lemma hang_up_first_identities [simp]: "identities (cp_slots (hang_up_first P cmd alive p)) = identities (cp_slots p)"
  by (simp add: hang_up_first_def split: option.split)

lemma outbound_identities: "identities (cp_slots (handle_outbound_request destination env p)) = identities (cp_slots p)"
proof -
  have "identities (snd (claim_idle_cs_slot (cp_slots p))) = identities (cp_slots p)"
    by (simp add: claim_idle_cs_slot_def split: option.split)
  then show ?thesis
    by (cases "claim_idle_cs_slot (cp_slots p)")
      (auto simp: handle_outbound_request_def hang_up_claimed_slot_def release_slot_def [abs_def] Let_def split: option.split dial_reply.split)
qed

lemma bridge_identities: "identities (cp_slots (handle_bridge_event resilience clock event p)) = identities (cp_slots p)"
  by (cases event)
    (auto simp: handle_bridge_event_def handle_ring_event_def hang_up_unbridged_call_def release_hung_up_line_def track_lifecycle_alert_def
      Let_def split: option.split)

lemma control_identities: "identities (cp_slots (snd (handle_control_cmd cmd env p))) = identities (cp_slots p)"
  by (cases cmd)
    (auto simp: handle_control_cmd_def card_restart_def set_mode_def Let_def
      split: sum.split option.split prod.split mode_reply.split manual_restart_cycle_advice.split)

lemma exit_identities: "identities (cp_slots (on_worker_exit result resilience clock p)) = identities (cp_slots p)"
  by (simp add: on_worker_exit_def split: option.split)

lemma apply_actions_identities: "identities (cp_slots (fold (apply_action config now) acts p)) = identities (cp_slots p)"
  by (induction acts arbitrary: p) (simp_all add: apply_action_def apply_send_reboot_def split: scheduler_action.split)

lemma complete_cycle_slots: "complete_cycle config env p = Some p' \<Longrightarrow> cp_slots p' = cp_slots p"
  by (auto simp: complete_cycle_def recompute_next_scheduled_at_def Let_def split: option.splits)

lemma advance_identities: "advance_scheduler config now env p = Some p' \<Longrightarrow> identities (cp_slots p') = identities (cp_slots p)"
  by (auto simp: advance_scheduler_def start_cycle_def Let_def apply_actions_identities dest!: complete_cycle_slots
      split: option.splits if_splits)

interpretation pool_view: slot_view_laws "pool_slot_view slots" for slots
  by unfold_locales (auto simp: pool_slot_view_def split: option.splits if_splits)

text \<open>The scheduler touches only the slots it restarts.\<close>

lemma apply_actions_other:
  "k \<notin> set (reboots acts) \<Longrightarrow> map_of (cp_slots (fold (apply_action config now) acts p)) k = map_of (cp_slots p) k"
proof (induction acts arbitrary: p)
  case (Cons act acts)
  then show ?case
    by (cases act) (auto simp: apply_action_def apply_send_reboot_def restart_slot_def Let_def split: option.split)
qed simp

lemma advance_spares:
  assumes ok: "pool_ok p" and run: "advance_scheduler config now env p = Some p'"
    and s: "map_of (cp_slots p) k = Some s" "ss_has_active_call s"
  shows "map_of (cp_slots p') k = Some s"
proof (cases "\<exists>c. cp_cycle p = Some c \<and> \<not> now < cy_next_action_at c")
  case False
  then have "cp_slots p' = cp_slots p" using run by (auto simp: advance_scheduler_def start_cycle_def split: option.splits if_splits)
  then show ?thesis using s(1) by simp
next
  case True
  then obtain c c' acts where c: "cp_cycle p = Some c"
    and tick: "tick_scheduler c (pool_slot_view (cp_slots p)) now (ev_rng env) (sr_inter_card_gap_seconds config)
        (sr_inter_card_gap_jitter_seconds config) = Some (c', acts)"
    and run': "(if CycleComplete \<in> set acts then complete_cycle config env (fold (apply_action config now) acts (p\<lparr>cp_cycle := Some c'\<rparr>))
        else Some (fold (apply_action config now) acts (p\<lparr>cp_cycle := Some c'\<rparr>))) = Some p'"
    using run by (auto simp: advance_scheduler_def Let_def split: option.splits)
  have "phase_ok c" using ok c by (simp add: pool_ok_def)
  from tick_books(4) [OF this tick] have "k \<notin> set (reboots acts)"
    using s by (auto simp: idle_in_def pool_slot_view_def)
  then have "map_of (cp_slots (fold (apply_action config now) acts (p\<lparr>cp_cycle := Some c'\<rparr>))) k = Some s"
    using apply_actions_other [of k acts config now] s(1) by simp
  then show ?thesis using run' complete_cycle_slots by (auto split: if_splits)
qed

lemma claim_idle_iff:
  assumes "hm_inv slots" "claim_idle_cs_slot slots = (Some (k, audio, tx), slots')"
  shows "\<exists>s. map_of slots k = Some s \<and> ss_lifecycle s = Ready \<and> \<not> ss_has_active_call s \<and> ss_cmd_tx s = Some tx \<and>
    slots' = modify_at k (\<lambda>s. s\<lparr>ss_has_active_call := True\<rparr>) slots"
proof -
  from assms(2) obtain s where "find (\<lambda>(_, s). ss_lifecycle s = Ready \<and> \<not> ss_has_active_call s) slots = Some (k, s)"
    "ss_cmd_tx s = Some tx" "slots' = modify_at k (\<lambda>s. s\<lparr>ss_has_active_call := True\<rparr>) slots"
    by (auto simp: claim_idle_cs_slot_def split: option.splits)
  moreover from this(1) have "(k, s) \<in> set slots" "ss_lifecycle s = Ready" "\<not> ss_has_active_call s"
    by (auto simp: find_Some_iff dest: nth_mem)
  ultimately show ?thesis using assms(1) by (auto simp: hm_inv_def)
qed

lemma exit_target_instance:
  assumes "slots_ok ni nc slots" "map_of slots k = Some s" "te_instance ex = ss_instance s"
  shows "exit_target slots ex = Some k"
proof -
  have same: "k' = k" if "map_of slots k' = Some s'" "ss_instance s' = te_instance ex" for k' s'
    using slots_okD(3) [OF assms(1) that(1) assms(2)] that(2) assms(3) by (simp add: same_line_def)
  show ?thesis
  proof (cases "\<exists>s'. map_of slots (te_slot ex) = Some s' \<and> ss_instance s' = te_instance ex")
    case True
    then show ?thesis using same by (auto simp: exit_target_def)
  next
    case False
    have "find (\<lambda>(_, s). ss_instance s = te_instance ex) slots \<noteq> None"
      using map_of_SomeD [OF assms(2)] assms(3) by (auto simp: find_None_iff)
    then obtain k' s' where f: "find (\<lambda>(_, s). ss_instance s = te_instance ex) slots = Some (k', s')" by auto
    then have "(k', s') \<in> set slots" "ss_instance s' = te_instance ex"
      by (auto simp: find_Some_iff dest: nth_mem)
    then have "k' = k" using same slots_okD(1) [OF assms(1)] by (simp add: hm_inv_def)
    then show ?thesis using f False by (auto simp: exit_target_def split: option.split)
  qed
qed

section \<open>Properties\<close>

text \<open>
  C5: Every pool the bridge can run into is well formed. Each entry knows its own key; instances and command channels
  identify entries; a line is in service exactly when it has a worker to talk to; a line being hung up is busy;
  and no line waits for recovery without a time for its next attempt.
\<close>

theorem card_pool_well_formed: "pool_runs resilience config p \<Longrightarrow> pool_ok p"
  by (rule pool_runs_ok)

definition sample_module :: discovered_module where
  "sample_module = \<lparr>mo_id = lit ''ec20-A'', mo_serial_port = lit ''p'', mo_audio_device = lit ''hw'', mo_usb_serial = [], mo_usb_path = lit ''1-1''\<rparr>"

definition sample_answers :: init_answers where
  "sample_answers =
     \<lparr>ia_open = None, ia_probe = Inr (AtOk []), ia_voice_call = Inr False, ia_imei = Inr (AtOk []), ia_lookup = (\<lambda>_. Inr (Some 7)),
      ia_assign = (\<lambda>_. Inr 7), ia_phone = None, ia_network = None, ia_mode = (\<lambda>_. None)\<rparr>"

definition sample_resilience :: resilience_config where
  "sample_resilience = \<lparr>rs_initial_backoff_sec = 5, rs_max_backoff_sec = 60, rs_max_retries = 1\<rparr>"

definition sample_init :: module_init where
  "sample_init = \<lparr>in_slot = 7, in_imei = lit ''Unknown'', in_phone = lit ''Unknown'', in_network = UnknownNetwork, in_mode = None\<rparr>"

definition sample_line :: slot_state where
  "sample_line = ready_slot sample_module sample_init 1 0"

definition sample_pool :: card_pool where
  "sample_pool = (new_pool True None 0)\<lparr>cp_slots := [(7, sample_line)], cp_next_instance := 2, cp_next_channel := 1,
     cp_tasks := [\<lparr>tk_exit = \<lparr>te_slot = 7, te_module_id = mo_id sample_module, te_instance = 1\<rparr>, tk_channel = Some 0\<rparr>]\<rparr>"

lemma sample_init: "try_init_module sample_module sample_answers = Inr sample_init"
  by (simp add: try_init_module_def sample_module_def sample_answers_def sample_init_def query_imei_def lit_def and_then_def)

lemma sample_pool_runs: "pool_runs sample_resilience default_scheduled_restart sample_pool"
proof (rule runs_start)
  show "bootstrap_slots sample_resilience [(sample_module, sample_answers, 0)] (new_pool True None 0) = Some sample_pool"
    by (simp add: bootstrap_one_def sample_init live_slot_at_def add_ready_def spawn_worker_def place_slot_def sample_pool_def new_pool_def
        sample_line_def ready_slot_def sample_init_def Let_def)
  show "recompute_next_scheduled_at default_scheduled_restart (\<lambda>_. 0) 0 0 sample_pool = Some sample_pool"
    by (simp add: recompute_next_scheduled_at_def sample_pool_def new_pool_def)
qed

lemma sample_line_ready: "map_of (cp_slots sample_pool) 7 = Some sample_line" "ss_lifecycle sample_line = Ready"
  by (simp_all add: sample_pool_def sample_line_def ready_slot_def)

lemma sample_instance: "ss_instance sample_line = 1"
  by (simp add: sample_line_def ready_slot_def)

theorem card_pool_well_formed_witness: "pool_ok sample_pool"
  using card_pool_well_formed [OF sample_pool_runs] .

text \<open>
  C9: A line in service is never displaced. Whatever happens next (events of workers, ended tasks, commands,
  dials, retries of other modules, rescans that find new ones, scheduled restarts), its key still holds the same
  instance of the same module.
\<close>

theorem ready_line_never_displaced:
  assumes "pool_runs resilience config p" "pool_step resilience config ev p = Some p'"
    and "map_of (cp_slots p) k = Some s" "ss_lifecycle s = Ready"
  shows "\<exists>s'. map_of (cp_slots p') k = Some s' \<and> ss_instance s' = ss_instance s \<and> ss_module s' = ss_module s"
proof -
  have ok: "pool_ok p" using assms(1) by (rule pool_runs_ok)
  then have "slots_ok (cp_next_instance p) (cp_next_channel p) (cp_slots p)" by (simp add: pool_ok_def)
  from slots_okD(2) [OF this assms(3)] have ready: "ready_at k s (cp_slots p)" using assms(3,4) by (simp add: entry_ok_def ready_at_def)
  then have line: "line_at k s (cp_slots p)" by (rule ready_at_line)
  have "line_at k s (cp_slots p')"
  proof (cases ev)
    case (PTimer now env)
    with assms(2) obtain q r where q: "retry_due now resilience (tv_answers env) (map fst (cp_slots p)) p = Some q"
      and r: "(if cp_rescan_deadline q \<le> now then
          map_option (\<lambda>p. p\<lparr>cp_rescan_deadline := tv_clock env + RESCAN_INTERVAL\<rparr>) (rescan_new_modules resilience (tv_scan env) q)
        else Some q) = Some r"
      and p': "advance_scheduler config now (tv_cycle env) r = Some p'"
      by (auto simp: pool_step_def on_timer_tick_def bind_eq_Some_conv)
    have "ready_at k s (cp_slots q)" "pool_ok q" using retry_due_keeps [OF ok ready q] retry_due_ok [OF ok q] by simp_all
    then have "ready_at k s (cp_slots r)" using r rescan_keeps by (auto split: if_splits)
    then show ?thesis using advance_identities [OF p'] by (auto dest: ready_at_line simp: line_at_identities)
  qed (use assms(2) line in \<open>auto simp: pool_step_def line_at_identities bridge_identities exit_identities control_identities
      outbound_identities poll_sip_peer_disconnect_def signal_sip_peer_hangup_def split: option.splits\<close>)
  then show ?thesis by (simp add: line_at_def)
qed

theorem ready_line_never_displaced_witness:
  "\<exists>s'. map_of (cp_slots (handle_bridge_event sample_resilience 0 (EvNetworkLost (mo_id sample_module)) sample_pool)) 7 = Some s' \<and> ss_instance s' = 1"
proof -
  have "pool_step sample_resilience default_scheduled_restart (PBridge (EvNetworkLost (mo_id sample_module)) 0) sample_pool =
      Some (handle_bridge_event sample_resilience 0 (EvNetworkLost (mo_id sample_module)) sample_pool)"
    by (simp add: pool_step_def)
  from ready_line_never_displaced [OF sample_pool_runs this sample_line_ready] sample_instance show ?thesis by auto
qed

text \<open>
  C10: A number is dialled only on a line in service that has no call, over that line's own worker; and the line is
  busy from then on, unless the modem refused the dial or its worker is gone.
\<close>

theorem outbound_dials_idle_line:
  assumes "pool_runs resilience config p"
    and "cp_log (handle_outbound_request destination env p) = cp_log p @ es" "EffSend tx (CmdDial number) \<in> set es"
  shows "number = destination \<and> validate_destination destination \<and>
    (\<exists>k s s'. map_of (cp_slots p) k = Some s \<and> ss_lifecycle s = Ready \<and> \<not> ss_has_active_call s \<and> ss_cmd_tx s = Some tx \<and>
      map_of (cp_slots (handle_outbound_request destination env p)) k = Some s' \<and>
      (ss_has_active_call s' \<or> dv_reply env = DialRefused \<or> \<not> dv_alive_after env tx))"
proof -
  have keys: "hm_inv (cp_slots p)" using pool_runs_ok [OF assms(1)] by (simp add: pool_ok_def slots_ok_def)
  have valid: "validate_destination destination" 
    by (rule ccontr) (use assms(2,3) in \<open>auto simp: handle_outbound_request_def emit_def\<close>)
  obtain claim slots where c: "claim_idle_cs_slot (cp_slots p) = (claim, slots)" by force
  have "claim \<noteq> None" using assms(2,3) valid c by (cases claim) (auto simp: handle_outbound_request_def emit_def)
  then obtain k audio cmd_tx where claim: "claim_idle_cs_slot (cp_slots p) = (Some (k, audio, cmd_tx), slots)"
    using c by (cases claim) auto
  from claim_idle_iff [OF keys this] obtain s where s: "map_of (cp_slots p) k = Some s" "ss_lifecycle s = Ready"
    "\<not> ss_has_active_call s" "ss_cmd_tx s = Some cmd_tx" and slots: "slots = modify_at k (\<lambda>s. s\<lparr>ss_has_active_call := True\<rparr>) (cp_slots p)"
    by blast
  have alive: "dv_alive env cmd_tx" using assms(2,3) valid claim
    by (auto simp: handle_outbound_request_def Let_def emit_def on_slots_def split: if_splits)
  have tx: "tx = cmd_tx" "number = destination"
    using assms(2,3) valid claim alive
    by (auto simp: handle_outbound_request_def Let_def hang_up_claimed_slot_def send_if_alive_def emit_def on_slots_def
        split: if_splits dial_reply.splits)
  have "\<exists>s'. map_of (cp_slots (handle_outbound_request destination env p)) k = Some s' \<and>
      (ss_has_active_call s' \<or> dv_reply env = DialRefused \<or> \<not> dv_alive_after env cmd_tx)"
    using s(1) valid claim alive slots
    by (cases "dv_reply env") (auto simp: handle_outbound_request_def Let_def hang_up_claimed_slot_def release_slot_def request_hangup_def)
  then show ?thesis using s tx valid by blast
qed

definition sample_dial :: dial_env where
  "sample_dial = \<lparr>dv_alive = (\<lambda>_. True), dv_reply = DialAccepted, dv_accept_ok = True, dv_alive_after = (\<lambda>_. True)\<rparr>"

theorem outbound_dials_idle_line_witness:
  "\<exists>k s'. map_of (cp_slots (handle_outbound_request (lit ''123'') sample_dial sample_pool)) k = Some s' \<and> ss_has_active_call s'"
proof -
  have "cp_log (handle_outbound_request (lit ''123'') sample_dial sample_pool) =
      cp_log sample_pool @ [EffSend 0 (CmdDial (lit ''123'')), EffAccept (lit ''hw'')]"
    by (simp add: handle_outbound_request_def validate_destination_def lit_def is_ascii_digit_def claim_idle_cs_slot_def sample_pool_def
        sample_line_def ready_slot_def new_pool_def sample_dial_def sample_module_def emit_def)
  from outbound_dials_idle_line [OF sample_pool_runs this, of 0 "lit ''123''"] show ?thesis by (auto simp: sample_dial_def)
qed

text \<open>
  C11: The scheduled restart spares calls: a step of the cycle leaves every line that has a call exactly as it is.
\<close>

theorem scheduled_restart_spares_calls:
  assumes "pool_runs resilience config p" "advance_scheduler config now env p = Some p'"
    and "map_of (cp_slots p) k = Some s" "ss_has_active_call s"
  shows "map_of (cp_slots p') k = Some s"
  using pool_runs_ok [OF assms(1)] assms(2-4) by (rule advance_spares)

definition sample_cycle_env :: cycle_env where
  "sample_cycle_env = \<lparr>ev_rng = (\<lambda>_. 0), ev_now_local = 0, ev_now_instant = 0, ev_rng_start = (\<lambda>_. 0)\<rparr>"

definition sample_tick :: tick_env where
  "sample_tick = \<lparr>tv_answers = (\<lambda>_. (sample_answers, 0)), tv_scan = None, tv_clock = 0, tv_cycle = sample_cycle_env\<rparr>"

definition scheduled_pool :: card_pool where
  "scheduled_pool = sample_pool\<lparr>cp_cron_schedule := Some (\<lambda>_. Some 0), cp_next_scheduled_at := Some 0, cp_last_fired_tick := Some 0\<rparr>"

lemma scheduled_pool_runs: "pool_runs sample_resilience default_scheduled_restart scheduled_pool"
proof (rule runs_start)
  show "bootstrap_slots sample_resilience [(sample_module, sample_answers, 0)] (new_pool True (Some (\<lambda>_. Some 0)) 0) =
      Some (sample_pool\<lparr>cp_cron_schedule := Some (\<lambda>_. Some 0)\<rparr>)"
    by (simp add: bootstrap_one_def sample_init live_slot_at_def add_ready_def spawn_worker_def place_slot_def sample_pool_def new_pool_def
        sample_line_def ready_slot_def sample_init_def Let_def)
  show "recompute_next_scheduled_at default_scheduled_restart (\<lambda>_. 0) 0 0 (sample_pool\<lparr>cp_cron_schedule := Some (\<lambda>_. Some 0)\<rparr>) =
      Some scheduled_pool"
    by (simp add: recompute_next_scheduled_at_def scheduled_pool_def sample_pool_def new_pool_def jitter_offset_def
        default_scheduled_restart_def trunc_secs_def)
qed

text \<open>A call is ringing on the only line when the cycle starts.\<close>

definition busy_pool :: card_pool where
  "busy_pool = scheduled_pool
     \<lparr>cp_slots := [(7, sample_line\<lparr>ss_has_active_call := True\<rparr>)], cp_log := [EffMakeCall], cp_next_scheduled_at := None,
      cp_cycle := Some (new_cycle 0 0 0 [7])\<rparr>"

lemma busy_pool_runs: "pool_runs sample_resilience default_scheduled_restart busy_pool"
proof (rule runs_step)
  let ?ring = "PBridge (EvRing (mo_id sample_module) \<lparr>rv_registered = True, rv_destination_ok = True, rv_sound_ok = True,
    rv_call_ok = True, rv_alive = \<lambda>_. True\<rparr>) 0"
  let ?p = "scheduled_pool\<lparr>cp_slots := [(7, sample_line\<lparr>ss_has_active_call := True\<rparr>)], cp_log := [EffMakeCall]\<rparr>"
  show "pool_runs sample_resilience default_scheduled_restart ?p"
    by (rule runs_step [OF scheduled_pool_runs, of ?ring])
      (simp add: pool_step_def handle_bridge_event_def handle_ring_event_def scheduled_pool_def sample_pool_def new_pool_def
        sample_line_def ready_slot_def emit_def on_slots_def)
  show "pool_step sample_resilience default_scheduled_restart (PTimer 0 sample_tick) ?p = Some busy_pool"
    by (simp add: pool_step_def on_timer_tick_def busy_pool_def scheduled_pool_def sample_pool_def new_pool_def sample_tick_def
        should_retry_def sample_line_def ready_slot_def RESCAN_INTERVAL_def advance_scheduler_def start_cycle_def
        sample_cycle_env_def)
qed

theorem scheduled_restart_spares_calls_witness:
  "\<exists>p'. advance_scheduler default_scheduled_restart 0 sample_cycle_env busy_pool = Some p' \<and> map_of (cp_slots p') 7 = map_of (cp_slots busy_pool) 7"
proof -
  let ?v = "pool_slot_view [(7, sample_line\<lparr>ss_has_active_call := True\<rparr>)]"
  have "sv_is_ready ?v 7" "sv_non_ready_skip_reason ?v 7 = None" "sv_has_active_call ?v 7"
    by (simp_all add: pool_slot_view_def sample_line_ready(2))
  then have "\<exists>st a b. next_card ?v 0 (new_cycle 0 0 0 [7]) = (st, [RecordOutcome 7 a, RecordOutcome 7 b, CycleComplete])"
    by (simp add: new_cycle_def)
      ((subst next_card.simps, simp add: turn_outcome_def skip_slot_def phase_attempt_def is_deferral_def Let_def)+)
  then obtain st a b where "next_card ?v 0 (new_cycle 0 0 0 [7]) = (st, [RecordOutcome 7 a, RecordOutcome 7 b, CycleComplete])" by blast
  moreover have "cy_current (new_cycle 0 0 0 [7]) = None" "cy_next_action_at (new_cycle 0 0 0 [7]) = 0" by (simp_all add: new_cycle_def)
  ultimately have "\<exists>p'. advance_scheduler default_scheduled_restart 0 sample_cycle_env busy_pool = Some p'"
    by (simp add: advance_scheduler_def busy_pool_def tick_scheduler_def apply_action_def complete_cycle_def sample_cycle_env_def
        recompute_next_scheduled_at_def scheduled_pool_def jitter_offset_def default_scheduled_restart_def emit_def Let_def)
  then obtain p' where p': "advance_scheduler default_scheduled_restart 0 sample_cycle_env busy_pool = Some p'" ..
  have "map_of (cp_slots busy_pool) 7 = Some (sample_line\<lparr>ss_has_active_call := True\<rparr>)" by (simp add: busy_pool_def)
  from scheduled_restart_spares_calls [OF busy_pool_runs p' this] this p' show ?thesis by simp
qed

text \<open>
  C35: The end of a task is matched to its line by instance only, and a recovered line keeps its instance. So when the
  worker a recovered line replaced ends late, the line in service is taken out of service and loses its command
  channel, although its own worker runs.
\<close>

theorem late_exit_parks_replacement:
  assumes "pool_runs resilience config p" "map_of (cp_slots p) k = Some s" "ss_lifecycle s = Ready"
    and "get_at (cp_tasks p) i = Some task" "te_instance (tk_exit task) = ss_instance s" "tk_channel task \<noteq> ss_cmd_tx s"
  shows "\<exists>p' s'. pool_step resilience config (PTaskEnd i False clock) p = Some p' \<and> map_of (cp_slots p') k = Some s' \<and>
    ss_lifecycle s' = Recovering \<and> ss_cmd_tx s' = None"
proof -
  have "slots_ok (cp_next_instance p) (cp_next_channel p) (cp_slots p)" using pool_runs_ok [OF assms(1)] by (simp add: pool_ok_def)
  then have "exit_target (cp_slots p) (tk_exit task) = Some k" using assms(2,5) by (rule exit_target_instance)
  then show ?thesis using assms(2,4) by (simp add: pool_step_def on_worker_exit_def on_slots_def release_call_def)
qed

text \<open>The line loses its network and is retried while its first worker has not ended yet.\<close>

definition late_pool :: card_pool where
  "late_pool = sample_pool\<lparr>cp_slots := [(7, sample_line\<lparr>ss_cmd_tx := Some 1\<rparr>)], cp_next_channel := 2,
     cp_tasks := map (\<lambda>c. \<lparr>tk_exit = \<lparr>te_slot = 7, te_module_id = mo_id sample_module, te_instance = 1\<rparr>, tk_channel = Some c\<rparr>) [0, 1]\<rparr>"

lemma late_pool_runs: "pool_runs sample_resilience default_scheduled_restart late_pool"
proof (rule runs_step)
  let ?lost = "EvNetworkLost (mo_id sample_module)"
  let ?p = "handle_bridge_event sample_resilience 0 ?lost sample_pool"
  show "pool_runs sample_resilience default_scheduled_restart ?p"
    by (rule runs_step [OF sample_pool_runs, of "PBridge ?lost 0"]) (simp add: pool_step_def)
  let ?s = "sample_line\<lparr>ss_lifecycle := Recovering, ss_network_type := NoSignal, ss_cmd_tx := None, ss_next_retry_at := Some (secs 5)\<rparr>"
  have p: "?p = sample_pool\<lparr>cp_slots := [(7, ?s)]\<rparr>"
    by (simp add: sample_pool_def new_pool_def handle_bridge_event_def on_slots_def network_lost_def release_call_def backoff_delay_def
        MAX_U64_def sample_resilience_def sample_line_def ready_slot_def)
  have init: "try_init_module (ss_module sample_line) sample_answers = Inr sample_init"
    by (simp add: sample_line_def ready_slot_def sample_init)
  have s: "retry_recovered 7 ?s sample_init (sample_pool\<lparr>cp_slots := [(7, ?s)]\<rparr>) = Some late_pool"
    by (simp add: late_pool_def sample_pool_def new_pool_def sample_line_def ready_slot_def retry_recovered_def sample_init_def
        spawn_worker_def modify_at_def clear_stale_given_up_def find_given_up_slot_def close_open_lifecycle_alert_def on_slots_def
        take_open_lifecycle_alert_def modify_all_def move_slot_def Let_def)
  have due: "retry_due (secs 5) sample_resilience (\<lambda>_. (sample_answers, 0)) [7] (sample_pool\<lparr>cp_slots := [(7, ?s)]\<rparr>) = Some late_pool"
    using s init by (simp add: should_retry_def retry_slot_def) (simp add: sample_init_def)
  show "pool_step sample_resilience default_scheduled_restart (PTimer (secs 5) sample_tick) ?p = Some late_pool"
    unfolding p using due
    by (simp add: pool_step_def on_timer_tick_def sample_tick_def del: retry_due.simps)
      (simp add: late_pool_def sample_pool_def new_pool_def RESCAN_INTERVAL_def advance_scheduler_def)
qed

theorem late_exit_parks_replacement_witness:
  "\<exists>p' s'. pool_step sample_resilience default_scheduled_restart (PTaskEnd 0 False (secs 6)) late_pool = Some p' \<and>
     map_of (cp_slots p') 7 = Some s' \<and> ss_lifecycle s' = Recovering \<and> ss_cmd_tx s' = None"
proof -
  let ?task = "\<lparr>tk_exit = \<lparr>te_slot = 7, te_module_id = mo_id sample_module, te_instance = 1\<rparr>, tk_channel = Some 0\<rparr>"
  have "map_of (cp_slots late_pool) 7 = Some (sample_line\<lparr>ss_cmd_tx := Some 1\<rparr>)" "get_at (cp_tasks late_pool) 0 = Some ?task"
    by (simp_all add: late_pool_def get_at_def)
  from late_exit_parks_replacement [OF late_pool_runs this(1) _ this(2)] show ?thesis
    by (simp add: sample_instance sample_line_ready(2))
qed

text \<open>
  A modem that was given up twice leaves two entries, and its recovery clears one. An incoming call is then booked
  on the leftover entry, and the line that carries the call is handed out to the next outbound call.
\<close>

theorem leftover_entry_hides_call:
  assumes "cp_slots p = [(k1, s1), (k2, s2)]" "k1 \<noteq> k2"
    and "ss_lifecycle s1 = GivenUp" "module_id s1 = mo_id m" "ss_lifecycle s2 = GivenUp" "module_id s2 = mo_id m"
    and "try_init_module m ans = Inr init" "in_slot init \<noteq> k1" "in_slot init \<noteq> k2"
    and "rv_registered env" "rv_destination_ok env" "rv_sound_ok env" "rv_call_ok env"
  shows "\<exists>p' slots. rescan_one resilience (m, ans, clock) p = Some p' \<and>
    claim_idle_cs_slot (cp_slots (handle_ring_event (mo_id m) env p')) =
      (Some (in_slot init, mo_audio_device m, cp_next_channel p), slots)"
proof -
  have "rescan_one resilience (m, ans, clock) p = add_ready m init (close_open_lifecycle_alert (mo_id m) (usable_phone (in_phone init))
      (clear_stale_given_up (mo_id m) (usable_phone (in_phone init)) p))"
    using assms by (simp add: rescan_one_def live_slot_at_def Let_def)
  then show ?thesis using assms
    by (auto simp: add_ready_def clear_stale_given_up_def find_given_up_slot_def close_open_lifecycle_alert_def take_open_lifecycle_alert_def
        modify_all_def spawn_worker_def place_slot_def handle_ring_event_def claim_idle_cs_slot_def ready_slot_def on_slots_def
        dispatch_alert_def emit_def Let_def)
qed

text \<open>The modem answers no probe at the start, at its retry, at the rescan a minute later and at that retry.\<close>

definition dead_answers :: init_answers where
  "dead_answers = sample_answers\<lparr>ia_open := Some (lit ''gone'')\<rparr>"

definition dead_tick :: "instant \<Rightarrow> tick_env" where
  "dead_tick now = \<lparr>tv_answers = (\<lambda>_. (dead_answers, now)), tv_scan = Some [(sample_module, dead_answers, now)], tv_clock = now,
     tv_cycle = sample_cycle_env\<rparr>"

definition parked :: "u32 \<Rightarrow> nat \<Rightarrow> instant \<Rightarrow> slot_state" where
  "parked k inst at = (fst (pending_slot k sample_module sample_resilience 0 (new_pool True None 0)))\<lparr>ss_instance := inst, ss_next_retry_at := Some at\<rparr>"

definition lost :: "u32 \<Rightarrow> nat \<Rightarrow> slot_state" where
  "lost k inst = (parked k inst 0)\<lparr>ss_retry_count := 1, ss_lifecycle := GivenUp, ss_next_retry_at := None\<rparr>"

definition dead_pool :: "(u32 \<times> slot_state) list \<Rightarrow> instant \<Rightarrow> nat \<Rightarrow> card_pool" where
  "dead_pool slots deadline alerts = (new_pool True None 0)\<lparr>cp_slots := slots, cp_next_instance := length slots + 1, cp_rescan_deadline := deadline,
     cp_log := replicate alerts (EffAlert (mo_id sample_module) AlertFailure None)\<rparr>"

lemma dead_init: "try_init_module sample_module dead_answers = Inl (lit ''gone'')"
  by (simp add: try_init_module_def dead_answers_def sample_module_def lit_def)

lemmas dead_defs = dead_pool_def new_pool_def parked_def lost_def pending_slot_def sample_resilience_def backoff_delay_def MAX_U64_def

lemma dead_park:
  "park_module sample_module sample_resilience at (dead_pool [] d n) = Some (dead_pool [(0, parked 0 1 (at + secs 5))] d n)"
  "park_module sample_module sample_resilience at (dead_pool [(0, lost 0 1)] d n) =
     Some (dead_pool [(0, lost 0 1), (1, parked 1 2 (at + secs 5))] d n)"
  by (simp_all add: park_module_def free_slot_key_def free_slot_key_except_def dead_defs on_slots_def upt_rec)

lemma dead_retry:
  "retry_slot 0 dead_answers sample_resilience now (dead_pool [(0, parked 0 1 at)] d n) = Some (dead_pool [(0, lost 0 1)] d (n + 1))"
  "retry_slot 1 dead_answers sample_resilience now (dead_pool [(0, lost 0 1), (1, parked 1 2 at)] d n) =
     Some (dead_pool [(0, lost 0 1), (1, lost 1 2)] d (n + 1))"
proof -
  have m: "ss_module (parked k i at) = sample_module" for k i by (simp add: dead_defs)
  show "retry_slot 0 dead_answers sample_resilience now (dead_pool [(0, parked 0 1 at)] d n) = Some (dead_pool [(0, lost 0 1)] d (n + 1))"
    using m [of 0 1] dead_init
    by (simp add: retry_slot_def dead_pool_def new_pool_def)
      (simp add: retry_failed_def dispatch_alert_def emit_def on_slots_def modify_at_def dead_defs alert_phone_def usable_phone_def replicate_append_same
        Let_def trim_id)
  show "retry_slot 1 dead_answers sample_resilience now (dead_pool [(0, lost 0 1), (1, parked 1 2 at)] d n) =
     Some (dead_pool [(0, lost 0 1), (1, lost 1 2)] d (n + 1))"
    using m [of 1 2] dead_init
    by (simp add: retry_slot_def dead_pool_def new_pool_def)
      (simp add: retry_failed_def dispatch_alert_def emit_def on_slots_def modify_at_def dead_defs alert_phone_def usable_phone_def replicate_append_same
        Let_def trim_id)
qed

lemma dead_retry_due:
  "at \<le> now \<Longrightarrow> should_retry now (parked k i at)" "\<not> should_retry now (lost k i)"
  by (simp_all add: should_retry_def dead_defs)

lemma dead_lifecycle: "ss_lifecycle (lost k i) = GivenUp" "module_id (lost k i) = mo_id sample_module"
  by (simp_all add: dead_defs)

lemma dead_pool_simps:
  "cp_slots (dead_pool slots d n) = slots" "cp_rescan_deadline (dead_pool slots d n) = d"
  "dead_pool slots d n\<lparr>cp_rescan_deadline := d'\<rparr> = dead_pool slots d' n"
  "advance_scheduler config now env (dead_pool slots d n) = Some (dead_pool slots d n)"
  by (simp_all add: dead_pool_def new_pool_def advance_scheduler_def)

lemma dead_pool_runs:
  "pool_runs sample_resilience default_scheduled_restart (dead_pool [(0, lost 0 1), (1, lost 1 2)] (secs 120) 2)"
proof -
  let ?run = "\<lambda>slots d n. pool_runs sample_resilience default_scheduled_restart (dead_pool slots d n)"
  have "?run [(0, parked 0 1 (secs 5))] (secs 60) 0"
  proof (rule runs_start)
    show "bootstrap_slots sample_resilience [(sample_module, dead_answers, 0)] (new_pool True None 0) =
        Some (dead_pool [(0, parked 0 1 (secs 5))] (secs 60) 0)"
      using dead_park(1) [of 0 "secs 60" 0] by (simp add: bootstrap_one_def dead_init dead_pool_def new_pool_def RESCAN_INTERVAL_def)
    show "recompute_next_scheduled_at default_scheduled_restart (\<lambda>_. 0) 0 0 (dead_pool [(0, parked 0 1 (secs 5))] (secs 60) 0) =
        Some (dead_pool [(0, parked 0 1 (secs 5))] (secs 60) 0)"
      by (simp add: recompute_next_scheduled_at_def dead_pool_def new_pool_def)
  qed
  then have "?run [(0, lost 0 1)] (secs 60) 1"
    by (rule runs_step [where ev = "PTimer (secs 5) (dead_tick (secs 5))"])
      (simp add: pool_step_def on_timer_tick_def dead_pool_simps dead_retry_due dead_tick_def dead_retry [simplified])
  then have "?run [(0, lost 0 1), (1, parked 1 2 (secs 65))] (secs 120) 1"
    by (rule runs_step [where ev = "PTimer (secs 60) (dead_tick (secs 60))"])
      (simp add: pool_step_def on_timer_tick_def dead_pool_simps dead_retry_due dead_tick_def rescan_new_modules_def rescan_one_def dead_init
        dead_park [simplified] RESCAN_INTERVAL_def occupied_from_slots_def occupied_contains_def dead_lifecycle)
  then show ?thesis
    by (rule runs_step [where ev = "PTimer (secs 65) (dead_tick (secs 65))"])
      (simp add: pool_step_def on_timer_tick_def dead_pool_simps dead_retry_due dead_tick_def dead_retry [simplified],
        simp add: numeral_2_eq_2)
qed

definition good_ring :: ring_env where
  "good_ring = \<lparr>rv_registered = True, rv_destination_ok = True, rv_sound_ok = True, rv_call_ok = True, rv_alive = \<lambda>_. True\<rparr>"

theorem leftover_entry_hides_call_witness:
  "pool_runs sample_resilience default_scheduled_restart (dead_pool [(0, lost 0 1), (1, lost 1 2)] (secs 120) 2) \<and>
   (\<exists>p' slots. rescan_one sample_resilience (sample_module, sample_answers, 0) (dead_pool [(0, lost 0 1), (1, lost 1 2)] (secs 120) 2) = Some p' \<and>
     claim_idle_cs_slot (cp_slots (handle_ring_event (mo_id sample_module) good_ring p')) = (Some (7, lit ''hw'', 0), slots))"
proof -
  let ?p = "dead_pool [(0, lost 0 1), (1, lost 1 2)] (secs 120) 2"
  have "cp_slots ?p = [(0, lost 0 1), (1, lost 1 2)]" "cp_next_channel ?p = 0" by (simp_all add: dead_defs)
  moreover have "in_slot sample_init = 7" "mo_audio_device sample_module = lit ''hw''" by (simp_all add: sample_init_def sample_module_def)
  ultimately show ?thesis
    using leftover_entry_hides_call [OF _ _ _ _ _ _ sample_init, of ?p 0 "lost 0 1" 1 "lost 1 2" good_ring sample_resilience 0] dead_pool_runs
    by (simp add: good_ring_def dead_lifecycle)
qed

end
