(* ===== verification/Sms_Routes.thy ===== *)
theory Sms_Routes
  imports Sms_Sweep
begin

text \<open>
  The two routes of a text side by side. A line has one thread that handles requests and flushes parts of long texts
  (\<^verbatim>\<open>ims/agent/mod.rs\<close>) and one that sweeps the modem storage (\<^verbatim>\<open>volte/sms.rs\<close>); they share the store of claims
  behind a lock. Here their operations are cut where the lock is taken, so that any interleaving of them is a sequence of
  events. \<open>handle_message_split\<close> shows that the cut handler is the handler of \<open>Sms_Inbound\<close>; the sweep's operations are those
  of \<open>Sms_Sweep\<close> themselves.
\<close>

section \<open>The handler up to the relay\<close>

text \<open>What the thread is about to relay, and under which claim.\<close>

record relay_job =
  jb_request :: sip_request
  jb_key :: text_string
  jb_body :: text_string
  jb_part :: "concat_part option"

definition message_claim :: "sip_request \<Rightarrow> instant \<Rightarrow> message_state \<Rightarrow> (relay_job option \<times> message_state) option" where
  "message_claim req now st =
     (if \<not> carries_text req then Some (None, st)
      else
        (let sender = request_sender req;
             inbound = over_registration sender (request_text req);
             (disposition, d) = decide (ms_dedupe st) inbound;
             st = st\<lparr>ms_dedupe := d\<rparr>;
             job = (\<lambda>body part. \<lparr>jb_request = req, jb_key = dedupe_key inbound, jb_body = body, jb_part = part\<rparr>)
         in case disposition of
              AcknowledgeOnly \<Rightarrow> Some (None, st)
            | Handle \<Rightarrow>
                (case request_sms req of
                   None \<Rightarrow> Some (Some (job (request_text req) None), st)
                 | Some sms \<Rightarrow>
                     (case sms_part sms of
                        None \<Rightarrow> Some (Some (job (request_text req) None), st)
                      | Some part \<Rightarrow>
                          (case admit_part (ms_reassembly st) sender part (sms_text sms) now of
                             None \<Rightarrow> None
                           | Some (outcome, r) \<Rightarrow>
                               (let st = st\<lparr>ms_reassembly := r\<rparr>
                                in case outcome of
                                     Pending \<Rightarrow> Some (None, st)
                                   | Complete joined \<Rightarrow> Some (Some (job joined (Some part)), st)
                                   | Malformed \<Rightarrow> Some (Some (job (request_text req) None), st)))))))"

text \<open>What the answer of the control channel settles.\<close>

definition message_settle :: "message_params \<Rightarrow> message_env \<Rightarrow> relay_job \<Rightarrow> message_state \<Rightarrow> message_result" where
  "message_settle p env job st =
     relay_and_settle p env (jb_request job) (request_sms (jb_request job)) (request_sender (jb_request job)) (jb_key job)
       (jb_body job) (jb_part job) st"

text \<open>
  The handler is the claim, what the other thread does meanwhile, and the settlement. Without a relay it ends with the
  claim, and at most the other thread's operations come on top.
\<close>

lemma handle_message_split:
  "message_claim req (me_now env) st = Some (Some job, st1) \<Longrightarrow> handle_message p env req st = message_settle p env job st1"
  "message_claim req (me_now env) st = Some (None, st1) \<Longrightarrow> handle_message p env req st = Some (acts, st2) \<Longrightarrow>
     filter is_relay acts = [] \<and> ms_reassembly st2 = ms_reassembly st1 \<and> ms_dedupe st2 \<in> {ms_dedupe st1, me_meanwhile env (ms_dedupe st1)}"
  "message_claim req (me_now env) st = None \<Longrightarrow> handle_message p env req st = None"
proof -
  show "handle_message p env req st = message_settle p env job st1" if "message_claim req (me_now env) st = Some (Some job, st1)"
    using that
    by (auto simp: message_claim_def message_settle_def handle_message_text handle_text_def handle_claimed_def Let_def
        split: if_splits prod.splits disposition.splits option.splits part_outcome.splits)
  show "handle_message p env req st = None" if "message_claim req (me_now env) st = None"
    using that
    by (auto simp: message_claim_def handle_message_text handle_text_def handle_claimed_def Let_def
        split: if_splits prod.splits disposition.splits option.splits part_outcome.splits)
  show "filter is_relay acts = [] \<and> ms_reassembly st2 = ms_reassembly st1 \<and> ms_dedupe st2 \<in> {ms_dedupe st1, me_meanwhile env (ms_dedupe st1)}"
    if "message_claim req (me_now env) st = Some (None, st1)" "handle_message p env req st = Some (acts, st2)"
  proof (cases "carries_text req")
    case False
    then show ?thesis using that handle_message_no_text by (auto simp: message_claim_def)
  next
    case True
    then show ?thesis using that
      by (auto simp: message_claim_def handle_message_text handle_text_def handle_claimed_def Let_def
          split: if_splits prod.splits disposition.splits option.splits part_outcome.splits dest!: acknowledge_SomeD)
  qed
qed

section \<open>Both threads\<close>

datatype sweep_place = SweepIdle | SweepWaiting incoming_sms instant | SweepRelaying incoming_sms

record line_texts =
  lt_line :: message_state
  lt_dispatch :: "relay_job option"
  lt_sweep :: sweep_place

abbreviation lt_store :: "line_texts \<Rightarrow> dedupe" where
  "lt_store s \<equiv> ms_dedupe (lt_line s)"

text \<open>
  A request arrives; the control channel answers the relay of the handler; parts that wait too long are given up; one of the
  given-up parts is sent; the sweep comes to a stored text, at an instant; it polls a claim of the other thread; the control
  channel answers its relay.
\<close>

datatype text_event =
    MessageArrived sip_request instant | MessageAnswered message_params message_env
  | PartsExpired instant | PartFlushed nat text_string bool
  | StoredRead incoming_sms instant | ClaimPolled instant | StoredAnswered sweep_env

text \<open>What is seen of an event: a text handed over under a key, and a key that a claim pushed out of the full store.\<close>

datatype text_trace = HandedOver text_string | Evicted text_string

definition evictions :: "dedupe \<Rightarrow> dedupe \<Rightarrow> text_trace list" where
  "evictions d d' = map Evicted (filter (\<lambda>k. k \<notin> set (dd_seen d')) (dd_seen d))"

definition set_store :: "dedupe \<Rightarrow> line_texts \<Rightarrow> line_texts" where
  "set_store d s = s\<lparr>lt_line := (lt_line s)\<lparr>ms_dedupe := d\<rparr>\<rparr>"

text \<open>The events of the thread that handles requests; it is idle, or waits for the control channel.\<close>

definition message_arrived :: "sip_request \<Rightarrow> instant \<Rightarrow> line_texts \<Rightarrow> (text_trace list \<times> line_texts) option" where
  "message_arrived req now s =
     (if lt_dispatch s \<noteq> None then Some ([], s)
      else map_option (\<lambda>(job, line). (evictions (lt_store s) (ms_dedupe line), s\<lparr>lt_line := line, lt_dispatch := job\<rparr>))
             (message_claim req now (lt_line s)))"

definition message_answered :: "message_params \<Rightarrow> message_env \<Rightarrow> line_texts \<Rightarrow> (text_trace list \<times> line_texts) option" where
  "message_answered p env s =
     (case lt_dispatch s of
        None \<Rightarrow> Some ([], s)
      | Some job \<Rightarrow>
          map_option (\<lambda>(_, line). (if me_relayed env then [HandedOver (jb_key job)] else [], s\<lparr>lt_line := line, lt_dispatch := None\<rparr>))
            (message_settle p (env\<lparr>me_meanwhile := id\<rparr>) job (lt_line s)))"

definition part_flushed :: "nat \<Rightarrow> text_string \<Rightarrow> bool \<Rightarrow> line_texts \<Rightarrow> text_trace list \<times> line_texts" where
  "part_flushed i received_at ok s =
     (if lt_dispatch s \<noteq> None then ([], s)
      else
        (case get_at (ready_for_delivery (ms_reassembly (lt_line s))) i of
           None \<Rightarrow> ([], s)
         | Some (fid, sender, seq, tot, t) \<Rightarrow>
             (if ok then [HandedOver (dedupe_key (over_registration sender (part_label seq tot t)))] else [],
              s\<lparr>lt_line := snd (flush_ready [(fid, sender, seq, tot, t)] [ok] received_at (lt_line s))\<rparr>)))"

text \<open>The events of the sweep.\<close>

definition stored_read :: "incoming_sms \<Rightarrow> instant \<Rightarrow> line_texts \<Rightarrow> text_trace list \<times> line_texts" where
  "stored_read sms now s =
     (if lt_sweep s \<noteq> SweepIdle then ([], s)
      else
        (case decide (lt_store s) (through_modem sms) of
           (disposition, d) \<Rightarrow>
             (evictions (lt_store s) d,
              (set_store d s)\<lparr>lt_sweep := (case disposition of Handle \<Rightarrow> SweepRelaying sms
                 | AcknowledgeOnly \<Rightarrow> SweepWaiting sms (now + CROSS_ROUTE_SETTLE_TIMEOUT))\<rparr>)))"

definition claim_polled :: "instant \<Rightarrow> line_texts \<Rightarrow> text_trace list \<times> line_texts" where
  "claim_polled now s =
     (case lt_sweep s of
        SweepWaiting sms deadline \<Rightarrow>
          (case poll_claim (sms_key sms) deadline [(id, now)] (lt_store s) of
             (res, d) \<Rightarrow>
               (evictions (lt_store s) d,
                (set_store d s)\<lparr>lt_sweep := (case res of None \<Rightarrow> SweepWaiting sms deadline | Some ResReclaimed \<Rightarrow> SweepRelaying sms
                   | Some ResConfirmed \<Rightarrow> SweepIdle | Some ResTimedOut \<Rightarrow> SweepIdle)\<rparr>))
      | _ \<Rightarrow> ([], s))"

definition stored_answered :: "sweep_env \<Rightarrow> line_texts \<Rightarrow> text_trace list \<times> line_texts" where
  "stored_answered env s =
     (case lt_sweep s of
        SweepRelaying sms \<Rightarrow>
          (case relay_stored (env\<lparr>sw_relaying := id\<rparr>) sms (lt_store s) of
             (ok, d) \<Rightarrow> (if ok then [HandedOver (sms_key sms)] else [], (set_store d s)\<lparr>lt_sweep := SweepIdle\<rparr>))
      | _ \<Rightarrow> ([], s))"

text \<open>No result is a panic.\<close>

definition text_step :: "text_event \<Rightarrow> line_texts \<Rightarrow> (text_trace list \<times> line_texts) option" where
  "text_step ev s =
     (case ev of
        MessageArrived req now \<Rightarrow> message_arrived req now s
      | MessageAnswered p env \<Rightarrow> message_answered p env s
      | PartsExpired now \<Rightarrow>
          Some ([], s\<lparr>lt_line := (lt_line s)\<lparr>ms_reassembly := expire_due (ms_reassembly (lt_line s)) now\<rparr>\<rparr>)
      | PartFlushed i received_at ok \<Rightarrow> Some (part_flushed i received_at ok s)
      | StoredRead sms now \<Rightarrow> Some (stored_read sms now s)
      | ClaimPolled now \<Rightarrow> Some (claim_polled now s)
      | StoredAnswered env \<Rightarrow> Some (stored_answered env s))"

fun text_run :: "text_event list \<Rightarrow> line_texts \<Rightarrow> (text_trace list \<times> line_texts) option" where
  "text_run [] s = Some ([], s)"
| "text_run (ev # evs) s =
     (case text_step ev s of
        None \<Rightarrow> None
      | Some (tr, s) \<Rightarrow> map_option (apfst ((@) tr)) (text_run evs s))"

section \<open>Who is relaying a text\<close>

definition dispatch_relays :: "text_string \<Rightarrow> line_texts \<Rightarrow> bool" where
  "dispatch_relays k s \<longleftrightarrow> (case lt_dispatch s of Some job \<Rightarrow> jb_key job = k | None \<Rightarrow> False)"

definition sweep_relays :: "text_string \<Rightarrow> line_texts \<Rightarrow> bool" where
  "sweep_relays k s \<longleftrightarrow> (case lt_sweep s of SweepRelaying sms \<Rightarrow> sms_key sms = k | _ \<Rightarrow> False)"

text \<open>The keys under which parts of long texts are claimed.\<close>

definition names_part :: "text_string \<Rightarrow> bool" where
  "names_part k \<longleftrightarrow> (\<exists>sender seq tot t. k = dedupe_key (over_registration sender (part_label seq tot t)))"

text \<open>
  After \<open>n\<close> hand-overs of the text with key \<open>k\<close>: it is relayed by one thread at most, and under a claim; once handed over it is
  recorded as delivered.
\<close>

definition text_inv :: "text_string \<Rightarrow> nat \<Rightarrow> line_texts \<Rightarrow> bool" where
  "text_inv k n s \<longleftrightarrow>
     dedupe_inv (lt_store s) \<and> \<not> (dispatch_relays k s \<and> sweep_relays k s) \<and>
     (dispatch_relays k s \<or> sweep_relays k s \<longrightarrow> claim_status (lt_store s) k = Some Claimed) \<and>
     (n = 0 \<or> n = 1 \<and> claim_status (lt_store s) k = Some Delivered)"

lemma text_invI:
  assumes "text_inv k n s" "dedupe_inv (lt_store s')" "claim_status (lt_store s') k = claim_status (lt_store s) k"
    "dispatch_relays k s' = dispatch_relays k s" "sweep_relays k s' = sweep_relays k s"
  shows "text_inv k n s'"
  using assms by (simp add: text_inv_def)

text \<open>A claim: nothing happens to the key, or it is the one claimed and was free, or it is pushed out.\<close>

lemma admit_key:
  assumes "dedupe_inv d" "Evicted k \<notin> set (evictions d (snd (admit d key)))"
  shows "dedupe_inv (snd (admit d key))"
    and "claim_status (snd (admit d key)) k = (if k = key \<and> claim_status d k = None then Some Claimed else claim_status d k)"
proof -
  show "dedupe_inv (snd (admit d key))" using assms(1) by (rule dedupe_inv_admit)
  show "claim_status (snd (admit d key)) k = (if k = key \<and> claim_status d k = None then Some Claimed else claim_status d k)"
  proof (cases "claim_status d key = None")
    case False
    then have "admit d key = (False, d)" using store.taken [OF assms(1)] by blast
    then show ?thesis using False by auto
  next
    case True
    have kept: "k \<in> set (dd_seen d) \<longrightarrow> k \<in> set (dd_seen (snd (admit d key)))" using assms(2) by (auto simp: evictions_def)
    have "next_victim d \<noteq> Some k \<or> k = key"
    proof (rule ccontr)
      assume v: "\<not> ?thesis"
      then have "claim_status (snd (admit d key)) k = None" using store.status_fresh [OF assms(1) True] by simp
      then have "k \<notin> set (dd_seen (snd (admit d key)))" using claim_status_None [OF dedupe_inv_admit [OF assms(1)]] by simp
      moreover have "k \<in> set (dd_seen d)"
        using v assms(1) by (cases "dd_seen d") (auto simp: next_victim_def dedupe_inv_def split: if_splits)
      ultimately show False using kept by blast
    qed
    then show ?thesis using store.status_fresh [OF assms(1) True] True by auto
  qed
qed

lemma decide_admit: "decide d m = (if fst (admit d (dedupe_key m)) then Handle else AcknowledgeOnly, snd (admit d (dedupe_key m)))"
  by (simp add: decide_def split_beta Let_def)

lemma admit_free: "dedupe_inv d \<Longrightarrow> fst (admit d key) \<longleftrightarrow> claim_status d key = None"
  using store.taken [of d key] store.fresh [of d key] by (cases "claim_status d key = None") auto

text \<open>What the claim of a request does to the line.\<close>

lemma message_claim_store:
  assumes "message_claim req now st = Some (job, st')" "\<not> names_part k"
  shows "(ms_dedupe st' = ms_dedupe st \<and> job = None) \<or>
    (ms_dedupe st' = snd (admit (ms_dedupe st) (request_key req)) \<and>
     (case job of
        Some j \<Rightarrow> jb_key j = request_key req \<and> fst (admit (ms_dedupe st) (request_key req))
      | None \<Rightarrow> fst (admit (ms_dedupe st) (request_key req)) \<longrightarrow> request_key req \<noteq> k))"
proof -
  have part: "names_part (request_key req)" if "request_sms req = Some sms" "sms_part sms = Some part" for sms part
    using that by (auto simp: names_part_def request_key_def request_text_def labelled_body_def)
  show ?thesis
    using assms part
    by (auto simp: message_claim_def decide_admit request_key_def Let_def split: if_splits option.splits part_outcome.splits)
qed

lemma text_step_inv:
  assumes "text_step ev s = Some (tr, s')" "text_inv k n s" "\<not> names_part k" "Evicted k \<notin> set tr"
  shows "text_inv k (n + count_list tr (HandedOver k)) s'"
proof -
  have inv: "dedupe_inv (lt_store s)" using assms(2) by (simp add: text_inv_def)
  have quiet: "count_list (evictions d d') (HandedOver k) = 0" for d d' by (simp add: evictions_def count_list_0_iff image_iff)
  show ?thesis
  proof (cases ev)
    case (MessageArrived req now)
    show ?thesis
    proof (cases "lt_dispatch s")
      case (Some job)
      then show ?thesis using assms MessageArrived by (simp add: text_step_def message_arrived_def)
    next
      case None
      with assms(1) MessageArrived obtain job line where claim: "message_claim req now (lt_line s) = Some (job, line)"
        and s': "tr = evictions (lt_store s) (ms_dedupe line)" "s' = s\<lparr>lt_line := line, lt_dispatch := job\<rparr>"
        by (auto simp: text_step_def message_arrived_def)
      from message_claim_store [OF claim assms(3)] show ?thesis
      proof (elim disjE conjE)
        assume "ms_dedupe line = lt_store s" "job = None"
        then have "text_inv k n s'" using s' None inv
          by (intro text_invI [OF assms(2)]) (simp_all add: dispatch_relays_def sweep_relays_def)
        then show ?thesis using s' quiet by simp
      next
        let ?key = "request_key req"
        assume d: "ms_dedupe line = snd (admit (lt_store s) ?key)"
          and j: "case job of Some j \<Rightarrow> jb_key j = ?key \<and> fst (admit (lt_store s) ?key) | None \<Rightarrow> fst (admit (lt_store s) ?key) \<longrightarrow> ?key \<noteq> k"
        have "Evicted k \<notin> set (evictions (lt_store s) (snd (admit (lt_store s) ?key)))" using assms(4) s'(1) d by simp
        note after = admit_key [OF inv this]
        have "\<not> dispatch_relays k s" using None by (simp add: dispatch_relays_def)
        then show ?thesis using assms(2) after d j s' quiet admit_free [OF inv, of ?key]
          by (cases job) (auto simp: text_inv_def dispatch_relays_def sweep_relays_def)
      qed
    qed
  next
    case (MessageAnswered p env)
    show ?thesis
    proof (cases "lt_dispatch s")
      case None
      then show ?thesis using assms MessageAnswered by (simp add: text_step_def message_answered_def)
    next
      case (Some job)
      with assms(1) MessageAnswered obtain acts line where settle: "message_settle p (env\<lparr>me_meanwhile := id\<rparr>) job (lt_line s) = Some (acts, line)"
        and s': "tr = (if me_relayed env then [HandedOver (jb_key job)] else [])" "s' = s\<lparr>lt_line := line, lt_dispatch := None\<rparr>"
        by (auto simp: text_step_def message_answered_def)
      have "ms_dedupe line = (if me_relayed env then confirm (lt_store s) (jb_key job) else forget (lt_store s) (jb_key job))"
        using relay_and_settle_SomeD [OF settle [unfolded message_settle_def]] by (auto split: if_splits)
      then show ?thesis using assms(2) s' Some inv
        by (auto simp: text_inv_def dispatch_relays_def sweep_relays_def step_inv claim_status_confirm claim_status_forget split: sweep_place.splits)
    qed
  next
    case (PartsExpired now)
    then show ?thesis using assms(1) inv by (auto intro!: text_invI [OF assms(2)] simp: text_step_def dispatch_relays_def sweep_relays_def)
  next
    case (PartFlushed i at ok)
    show ?thesis
    proof (cases "lt_dispatch s \<noteq> None \<or> get_at (ready_for_delivery (ms_reassembly (lt_line s))) i = None")
      case True
      then show ?thesis using assms PartFlushed by (auto simp: text_step_def part_flushed_def split: if_splits)
    next
      case False
      then obtain fid sender seq tot t where part: "lt_dispatch s = None"
        "get_at (ready_for_delivery (ms_reassembly (lt_line s))) i = Some (fid, sender, seq, tot, t)" by (auto simp: not_None_eq)
      let ?key = "dedupe_key (over_registration sender (part_label seq tot t))"
      have "?key \<noteq> k" using assms(3) by (auto simp: names_part_def)
      then show ?thesis using assms(1,2) part inv PartFlushed
        by (auto simp: text_step_def part_flushed_def deliver_flushed_part_def text_inv_def dispatch_relays_def sweep_relays_def step_inv
            claim_status_confirm Let_def split: if_splits sweep_place.splits)
    qed
  next
    case (StoredRead sms now)
    show ?thesis
    proof (cases "lt_sweep s = SweepIdle")
      case False
      then show ?thesis using assms StoredRead by (simp add: text_step_def stored_read_def)
    next
      case True
      let ?d = "snd (admit (lt_store s) (sms_key sms))"
      have s': "tr = evictions (lt_store s) ?d"
        "s' = (set_store ?d s)\<lparr>lt_sweep := (if fst (admit (lt_store s) (sms_key sms)) then SweepRelaying sms
           else SweepWaiting sms (now + CROSS_ROUTE_SETTLE_TIMEOUT))\<rparr>"
        using assms(1) StoredRead True by (auto simp: text_step_def stored_read_def decide_admit sms_key_def)
      then have "Evicted k \<notin> set (evictions (lt_store s) ?d)" using assms(4) by simp
      note after = admit_key [OF inv this]
      have "\<not> sweep_relays k s" using True by (simp add: sweep_relays_def)
      then show ?thesis using assms(2) after s' quiet admit_free [OF inv, of "sms_key sms"]
        by (auto simp: text_inv_def dispatch_relays_def sweep_relays_def set_store_def)
    qed
  next
    case (ClaimPolled now)
    show ?thesis
    proof (cases "lt_sweep s")
      case (SweepWaiting sms deadline)
      let ?key = "sms_key sms"
      show ?thesis
      proof (cases "contains_key (lt_store s) ?key")
        case True
        then have "lt_store s' = lt_store s" "tr = []" "\<not> sweep_relays k s'" "\<not> sweep_relays k s" "lt_dispatch s' = lt_dispatch s"
          using assms(1) ClaimPolled SweepWaiting
          by (auto simp: text_step_def claim_polled_def evictions_def set_store_def sweep_relays_def Let_def split: if_splits)
        then show ?thesis using inv by (auto intro!: text_invI [OF assms(2)] simp: dispatch_relays_def)
      next
        case False
        then have free: "claim_status (lt_store s) ?key = None" using inv by (simp add: claim_status_None contains_key_iff)
        then have "\<not> is_confirmed (lt_store s) ?key" by (auto simp: is_confirmed_def claim_status_def split: if_splits)
        let ?d = "snd (admit (lt_store s) ?key)"
        have s': "tr = evictions (lt_store s) ?d" "s' = (set_store ?d s)\<lparr>lt_sweep := SweepRelaying sms\<rparr>"
          using assms(1) ClaimPolled SweepWaiting False \<open>\<not> is_confirmed (lt_store s) ?key\<close> by (auto simp: text_step_def claim_polled_def)
        then have "Evicted k \<notin> set (evictions (lt_store s) ?d)" using assms(4) by simp
        note after = admit_key [OF inv this]
        have "\<not> sweep_relays k s" using SweepWaiting by (simp add: sweep_relays_def)
        then show ?thesis using assms(2) after s' quiet free
          by (auto simp: text_inv_def dispatch_relays_def sweep_relays_def set_store_def)
      qed
    qed (use assms ClaimPolled in \<open>simp_all add: text_step_def claim_polled_def\<close>)
  next
    case (StoredAnswered env)
    show ?thesis
    proof (cases "lt_sweep s")
      case (SweepRelaying sms)
      let ?d = "if sw_relayed env then confirm (lt_store s) (sms_key sms) else forget (lt_store s) (sms_key sms)"
      have s': "tr = (if sw_relayed env then [HandedOver (sms_key sms)] else [])" "s' = (set_store ?d s)\<lparr>lt_sweep := SweepIdle\<rparr>"
        using assms(1) StoredAnswered SweepRelaying by (auto simp: text_step_def stored_answered_def relay_stored_def)
      have "lt_store s' = ?d" "dispatch_relays k s' = dispatch_relays k s" "\<not> sweep_relays k s'" "sweep_relays k s \<longleftrightarrow> sms_key sms = k"
        using s' SweepRelaying by (simp_all add: set_store_def dispatch_relays_def sweep_relays_def)
      then show ?thesis using assms(2) s'(1) inv by (auto simp: text_inv_def step_inv claim_status_confirm claim_status_forget)
    qed (use assms StoredAnswered in \<open>simp_all add: text_step_def stored_answered_def\<close>)
  qed
qed

lemma text_run_inv:
  "text_run evs s = Some (tr, s') \<Longrightarrow> text_inv k n s \<Longrightarrow> \<not> names_part k \<Longrightarrow> Evicted k \<notin> set tr \<Longrightarrow>
   text_inv k (n + count_list tr (HandedOver k)) s'"
proof (induction evs arbitrary: s n tr)
  case (Cons ev evs)
  then obtain tr1 s1 tr2 where step: "text_step ev s = Some (tr1, s1)" "text_run evs s1 = Some (tr2, s')" "tr = tr1 @ tr2"
    by (auto split: option.splits)
  have "text_inv k (n + count_list tr1 (HandedOver k)) s1" using text_step_inv [OF step(1) Cons.prems(2,3)] Cons.prems(4) step(3) by simp
  from Cons.IH [OF step(2) this Cons.prems(3)] Cons.prems(4) step(3) show ?case by (simp add: add.assoc)
qed simp

text \<open>
  A part whose relay failed loses its claim and stays in the buffer. When the buffer is given up, the part is handed over
  without a claim, nothing is recorded, and its retransmission is claimed and taken for a new part.
\<close>

lemma flushed_part_not_settled:
  assumes "dedupe_inv d" "\<not> contains_key d (dedupe_key (over_registration sender (part_label seq tot t)))"
  shows "deliver_flushed_part sender seq tot t at True d = (RelaySms sender (part_label seq tot t) at, True, d)"
    and "fst (decide d (over_registration sender (part_label seq tot t))) = Handle"
  using assms by (simp_all add: deliver_flushed_part_def confirm_def decide_admit admit_free claim_status_None contains_key_iff)

section \<open>Properties\<close>

text \<open>
  C3: A text is handed over at most once. Take a text that is not a part of a longer one, and a moment at which neither
  route is relaying it. However the two threads interleave from then on, whatever requests arrive, parts are flushed, stored
  texts are found and relays succeed or fail: as long as its key is not pushed out of the store by newer ones, at most one
  relay of it succeeds; none does when it has been recorded as delivered before.
\<close>

theorem sms_relayed_at_most_once:
  assumes "text_run evs s = Some (tr, s')" "dedupe_inv (lt_store s)" "\<not> dispatch_relays k s" "\<not> sweep_relays k s"
    and "\<not> names_part k" "Evicted k \<notin> set tr"
  shows "count_list tr (HandedOver k) \<le> 1 \<and> (is_confirmed (lt_store s) k \<longrightarrow> HandedOver k \<notin> set tr)"
proof -
  have "text_inv k 0 s" using assms(2-4) by (simp add: text_inv_def)
  from text_run_inv [OF assms(1) this assms(5,6)] have once: "count_list tr (HandedOver k) \<le> 1" by (auto simp: text_inv_def)
  have "count_list tr (HandedOver k) = 0" if "is_confirmed (lt_store s) k"
  proof -
    have "text_inv k 1 s" using that assms(2-4) by (simp add: text_inv_def is_confirmed_def claim_status_def)
    from text_run_inv [OF assms(1) this assms(5,6)] show ?thesis by (auto simp: text_inv_def)
  qed
  then show ?thesis using once by (simp add: count_list_0_iff)
qed

text \<open>
  A text comes over both routes. The handler claims it, the sweep finds its stored copy and waits; the handler's relay fails,
  the sweep takes the text over; the network's repetition of the request is only acknowledged; the sweep's relay succeeds,
  and the next sweep finds the text delivered.
\<close>

definition sample_stored :: incoming_sms where
  "sample_stored = \<lparr>is_sender = lit ''+447'', is_body = [65], is_index = 3\<rparr>"

definition sample_stored_env :: sweep_env where
  "sample_stored_env = \<lparr>sw_now = 0, sw_before = id, sw_waiting_from = 0, sw_polls = [], sw_relaying = id, sw_relayed = True\<rparr>"

definition sample_race :: "text_event list" where
  "sample_race =
     [MessageArrived (sample_request None 65) 0, StoredRead sample_stored 1,
      MessageAnswered \<lparr>pr_sms_delivery_report = True, pr_sms_report_pcscf_route = False\<rparr> (sample_env False), ClaimPolled 2,
      MessageArrived (sample_request None 65) 3, StoredAnswered sample_stored_env, StoredRead sample_stored 4, ClaimPolled 5]"

definition sample_line :: line_texts where
  "sample_line = \<lparr>lt_line = sample_state, lt_dispatch = None, lt_sweep = SweepIdle\<rparr>"

lemma sample_claim:
  "message_claim (sample_request None 65) now st =
     (let (fresh, d) = admit (ms_dedupe st) (sms_key sample_stored)
      in Some (if fresh then Some \<lparr>jb_request = sample_request None 65, jb_key = sms_key sample_stored, jb_body = [65], jb_part = None\<rparr> else None,
               st\<lparr>ms_dedupe := d\<rparr>))"
proof -
  have sms: "request_sms (sample_request None 65) =
      Some \<lparr>sms_sender = lit ''+447'', sms_text = [65], sms_part = None, sms_rp_mr = 5, sms_is_type_zero = False\<rparr>"
    using sample_request_sms [of 65 None] by simp
  then have "carries_text (sample_request None 65)" by (simp add: request_sms_carries_text)
  moreover have "dedupe_key (over_registration (lit ''+447'') [65]) = sms_key sample_stored"
    by (simp add: dedupe_key_def over_registration_def sms_key_def through_modem_def sample_stored_def)
  ultimately show ?thesis
    by (simp add: message_claim_def sms request_sender_def request_text_def labelled_body_def decide_admit Let_def split_beta)
qed

lemma sample_race_run: "\<exists>s'. text_run sample_race sample_line = Some ([HandedOver (sms_key sample_stored)], s')"
  by (simp add: sample_race_def text_step_def message_arrived_def sample_claim sample_line_def sample_state_def dedupe_new_def admit_def
      contains_key_def evictions_def stored_read_def decide_def sms_key_def [symmetric] set_store_def message_answered_def message_settle_def
      relay_and_settle_def after_def sample_env_def forget_def claim_polled_def is_confirmed_def stored_answered_def relay_stored_def
      sample_stored_env_def confirm_def)

theorem sms_relayed_at_most_once_witness:
  "\<exists>tr s'. text_run sample_race sample_line = Some (tr, s') \<and> HandedOver (sms_key sample_stored) \<in> set tr \<and>
    count_list tr (HandedOver (sms_key sample_stored)) \<le> 1"
proof -
  obtain s' where run: "text_run sample_race sample_line = Some ([HandedOver (sms_key sample_stored)], s')" using sample_race_run by blast
  have "\<not> names_part (sms_key sample_stored)"
  proof
    assume "names_part (sms_key sample_stored)"
    then have "91 \<in> set (sms_key sample_stored)" by (auto simp: names_part_def dedupe_key_def over_registration_def part_label_def)
    then show False by (simp add: sms_key_def dedupe_key_def through_modem_def sample_stored_def lit_def)
  qed
  then have "count_list [HandedOver (sms_key sample_stored)] (HandedOver (sms_key sample_stored)) \<le> 1"
    using sms_relayed_at_most_once [OF run, of "sms_key sample_stored"] sample_state_ok
    by (simp add: sample_line_def dispatch_relays_def sweep_relays_def)
  then show ?thesis using run by auto
qed

end
