(* ===== verification/Rust_Net.thy ===== *)
theory Rust_Net
  imports Rust_Text
begin

text \<open>
  The standard library's IP addresses: values, derived order, text form (\<open>Display\<close>) and the parser
  (\<open>FromStr\<close>), which the SDP and the P-CSCF components use. What is printed parses back.
\<close>

section \<open>Addresses\<close>

datatype ip = Ipv4 "32 word" | Ipv6 "128 word"

text \<open>The derived order: every IPv4 address before every IPv6 address, then by value.\<close>

instantiation ip :: linorder
begin

definition less_eq_ip :: "ip \<Rightarrow> ip \<Rightarrow> bool" where
  "less_eq_ip x y =
     (case (x, y) of
        (Ipv4 a, Ipv4 b) \<Rightarrow> a \<le> b
      | (Ipv4 _, Ipv6 _) \<Rightarrow> True
      | (Ipv6 _, Ipv4 _) \<Rightarrow> False
      | (Ipv6 a, Ipv6 b) \<Rightarrow> a \<le> b)"

definition less_ip :: "ip \<Rightarrow> ip \<Rightarrow> bool" where
  "less_ip x y \<longleftrightarrow> x \<le> y \<and> \<not> y \<le> x"

instance
  by intro_classes (auto simp: less_eq_ip_def less_ip_def split: ip.splits)

end

definition is_ipv4 :: "ip \<Rightarrow> bool" where
  "is_ipv4 a = (case a of Ipv4 _ \<Rightarrow> True | Ipv6 _ \<Rightarrow> False)"

definition segments :: "128 word \<Rightarrow> u16 list" where
  "segments w = map (\<lambda>i. ucast (drop_bit (16 * (7 - i)) w)) [0..<8]"

definition from_segments :: "u16 list \<Rightarrow> 128 word" where
  "from_segments gs = foldl (\<lambda>w g. push_bit 16 w OR ucast g) 0 gs"

section \<open>Printing\<close>

definition show_ipv4 :: "32 word \<Rightarrow> text_string" where
  "show_ipv4 w = join_with 46 (map (\<lambda>b. show_nat (unat b)) (to_be32 w))"

definition hex_char_of :: "nat \<Rightarrow> nat" where
  "hex_char_of d = (if d < 10 then 48 + d else 87 + d)"

fun show_hex :: "nat \<Rightarrow> text_string" where
  "show_hex n = (if n < 16 then [hex_char_of n] else show_hex (n div 16) @ [hex_char_of (n mod 16)])"

declare show_hex.simps [simp del]

text \<open>The first of the longest runs of zero segments, as its start and length.\<close>

fun longest_zeros :: "nat \<Rightarrow> nat \<times> nat \<Rightarrow> nat \<times> nat \<Rightarrow> u16 list \<Rightarrow> nat \<times> nat" where
  "longest_zeros i current longest [] = longest"
| "longest_zeros i current longest (g # gs) =
     (if g = 0 then
        (let current = (if snd current = 0 then (i, 1) else (fst current, snd current + 1));
             longest = (if snd longest < snd current then current else longest)
         in longest_zeros (Suc i) current longest gs)
      else longest_zeros (Suc i) (0, 0) longest gs)"

definition show_groups :: "u16 list \<Rightarrow> text_string" where
  "show_groups gs = join_with 58 (map (\<lambda>g. show_hex (unat g)) gs)"

definition to_ipv4_mapped :: "128 word \<Rightarrow> 32 word option" where
  "to_ipv4_mapped w = (if drop_bit 32 w = 0xFFFF then Some (ucast w) else None)"

definition show_ipv6 :: "128 word \<Rightarrow> text_string" where
  "show_ipv6 w =
     (case to_ipv4_mapped w of
        Some v4 \<Rightarrow> lit ''::ffff:'' @ show_ipv4 v4
      | None \<Rightarrow>
          (let gs = segments w; (start, len) = longest_zeros 0 (0, 0) (0, 0) gs
           in if 1 < len then show_groups (take start gs) @ [58, 58] @ show_groups (drop (start + len) gs)
              else show_groups gs))"

definition show_ip :: "ip \<Rightarrow> text_string" where
  "show_ip a = (case a of Ipv4 w \<Rightarrow> show_ipv4 w | Ipv6 w \<Rightarrow> show_ipv6 w)"

section \<open>Parsing\<close>

definition digit_of :: "nat \<Rightarrow> nat" where
  "digit_of c =
     (if 48 \<le> c \<and> c \<le> 57 then c - 48 else if 97 \<le> c \<and> c \<le> 122 then c - 87 else if 65 \<le> c \<and> c \<le> 90 then c - 55 else 36)"

definition radix_value :: "nat \<Rightarrow> text_string \<Rightarrow> nat" where
  "radix_value radix ds = foldl (\<lambda>v c. v * radix + digit_of c) 0 ds"

text \<open>\<open>read_number\<close> with a digit limit: the value, which must fit its type, and the rest of the text.\<close>

definition read_number :: "nat \<Rightarrow> nat \<Rightarrow> bool \<Rightarrow> nat \<Rightarrow> text_string \<Rightarrow> (nat \<times> text_string) option" where
  "read_number radix max_digits allow_zero_prefix limit s =
     (let ds = takeWhile (\<lambda>c. digit_of c < radix) s; v = radix_value radix ds
      in if ds = [] \<or> max_digits < length ds \<or> \<not> allow_zero_prefix \<and> hd ds = 48 \<and> 1 < length ds \<or> limit < v then None
         else Some (v, dropWhile (\<lambda>c. digit_of c < radix) s))"

definition read_separator :: "nat \<Rightarrow> nat \<Rightarrow> (text_string \<Rightarrow> 'a option) \<Rightarrow> text_string \<Rightarrow> 'a option" where
  "read_separator sep index inner s =
     (if 0 < index then (case s of c # s \<Rightarrow> if c = sep then inner s else None | [] \<Rightarrow> None) else inner s)"

fun read_octets :: "nat \<Rightarrow> nat \<Rightarrow> text_string \<Rightarrow> (u8 list \<times> text_string) option" where
  "read_octets i 0 s = Some ([], s)"
| "read_octets i (Suc n) s =
     (case read_separator 46 i (read_number 10 3 False 255) s of
        None \<Rightarrow> None
      | Some (v, s) \<Rightarrow> map_option (\<lambda>(os, s). (word_of_nat v # os, s)) (read_octets (Suc i) n s))"

definition read_ipv4 :: "text_string \<Rightarrow> (32 word \<times> text_string) option" where
  "read_ipv4 s =
     (case read_octets 0 4 s of
        Some ([a, b, c, d], s) \<Rightarrow> Some (from_be32 a b c d, s)
      | _ \<Rightarrow> None)"

text \<open>\<open>read_groups\<close>: at most \<open>n\<close> more groups from position \<open>i\<close>, the last two possibly as an IPv4 address.\<close>

fun read_groups :: "nat \<Rightarrow> nat \<Rightarrow> text_string \<Rightarrow> u16 list \<times> bool \<times> text_string" where
  "read_groups i 0 s = ([], False, s)"
| "read_groups i (Suc n) s =
     (case (if 0 < n then read_separator 58 i read_ipv4 s else None) of
        Some (v4, s) \<Rightarrow> ([ucast (drop_bit 16 v4), ucast v4], True, s)
      | None \<Rightarrow>
          (case read_separator 58 i (read_number 16 4 True 65535) s of
             None \<Rightarrow> ([], False, s)
           | Some (g, s) \<Rightarrow> (case read_groups (Suc i) n s of (gs, v4, s) \<Rightarrow> (word_of_nat g # gs, v4, s))))"

definition read_ipv6 :: "text_string \<Rightarrow> (128 word \<times> text_string) option" where
  "read_ipv6 s =
     (case read_groups 0 8 s of
        (head, head_ipv4, s) \<Rightarrow>
          if length head = 8 then Some (from_segments head, s)
          else if head_ipv4 then None
          else if take 2 s = [58, 58] then
            (case read_groups 0 (7 - length head) (drop 2 s) of
               (tail, _, s) \<Rightarrow> Some (from_segments (head @ replicate (8 - length head - length tail) 0 @ tail), s))
          else None)"

definition parse_ip :: "text_string \<Rightarrow> ip option" where
  "parse_ip s =
     (case (case read_ipv4 s of
              Some (w, s) \<Rightarrow> Some (Ipv4 w, s)
            | None \<Rightarrow> map_option (\<lambda>(w, s). (Ipv6 w, s)) (read_ipv6 s)) of
        Some (a, []) \<Rightarrow> Some a
      | _ \<Rightarrow> None)"

section \<open>What is printed parses back\<close>

lemma from_segments_segments: "from_segments (segments w) = w"
proof (rule bit_word_eqI)
  fix n assume "n < LENGTH(128)"
  then consider "n < 16" | "16 \<le> n \<and> n < 32" | "32 \<le> n \<and> n < 48" | "48 \<le> n \<and> n < 64" | "64 \<le> n \<and> n < 80"
    | "80 \<le> n \<and> n < 96" | "96 \<le> n \<and> n < 112" | "112 \<le> n \<and> n < 128" by fastforce
  then show "bit (from_segments (segments w)) n = bit w n"
    by cases (auto simp: from_segments_def segments_def upt_rec bit_simps)
qed

text \<open>A text that does not start with a digit of the radix.\<close>

definition stops :: "nat \<Rightarrow> text_string \<Rightarrow> bool" where
  "stops radix s \<longleftrightarrow> (case s of [] \<Rightarrow> True | c # _ \<Rightarrow> radix \<le> digit_of c)"

lemma takeWhile_stop:
  assumes "list_all P ds" "s = [] \<or> \<not> P (hd s)"
  shows "takeWhile P (ds @ s) = ds \<and> dropWhile P (ds @ s) = s"
  using assms by (induction ds) (cases s; simp)+

lemma read_number_exact:
  assumes "list_all (\<lambda>c. digit_of c < radix) ds" "ds \<noteq> []" "length ds \<le> max_digits"
    and "allow \<or> hd ds \<noteq> 48 \<or> length ds = 1" "radix_value radix ds \<le> limit" "stops radix s"
  shows "read_number radix max_digits allow limit (ds @ s) = Some (radix_value radix ds, s)"
proof -
  have "takeWhile (\<lambda>c. digit_of c < radix) (ds @ s) = ds" "dropWhile (\<lambda>c. digit_of c < radix) (ds @ s) = s"
    using takeWhile_stop [OF assms(1), of s] assms(6) by (cases s; simp add: stops_def not_less)+
  then show ?thesis using assms(2-5) by (auto simp: read_number_def Let_def)
qed

lemma radix_value_snoc: "radix_value r (s @ [c]) = radix_value r s * r + digit_of c"
  by (simp add: radix_value_def)

lemma show_hex_props:
  "list_all (\<lambda>c. digit_of c < 16 \<and> (is_ascii_digit c \<or> 97 \<le> c \<and> c \<le> 102)) (show_hex n)" "show_hex n \<noteq> []" "radix_value 16 (show_hex n) = n"
proof (induction n rule: show_hex.induct)
  case (1 n)
  have d: "digit_of (hex_char_of k) = k \<and> (is_ascii_digit (hex_char_of k) \<or> 97 \<le> hex_char_of k \<and> hex_char_of k \<le> 102)" if "k < 16" for k
    using that by (auto simp: digit_of_def hex_char_of_def is_ascii_digit_def)
  show "list_all (\<lambda>c. digit_of c < 16 \<and> (is_ascii_digit c \<or> 97 \<le> c \<and> c \<le> 102)) (show_hex n)" "show_hex n \<noteq> []" "radix_value 16 (show_hex n) = n"
    using 1 d [of n] d [of "n mod 16"]
    by (cases "n < 16"; simp add: show_hex.simps [of n] radix_value_snoc; simp add: radix_value_def)+
qed

lemma length_show_hex: "n < 16 ^ Suc k \<Longrightarrow> length (show_hex n) \<le> Suc k"
proof (induction k arbitrary: n)
  case 0
  then show ?case by (simp add: show_hex.simps [of n])
next
  case (Suc k)
  then have "n div 16 < 16 ^ Suc k" by (simp add: less_mult_imp_div_less mult.commute)
  from Suc.IH [OF this] show ?case by (simp add: show_hex.simps [of n])
qed

lemma length_show_nat: "n < 10 ^ Suc k \<Longrightarrow> length (show_nat n) \<le> Suc k"
proof (induction k arbitrary: n)
  case 0
  then show ?case by (simp add: show_nat.simps [of n])
next
  case (Suc k)
  then have "n div 10 < 10 ^ Suc k" by (simp add: less_mult_imp_div_less mult.commute)
  from Suc.IH [OF this] show ?case by (simp add: show_nat.simps [of n])
qed

lemma digit_of_decimal: "is_ascii_digit c \<Longrightarrow> digit_of c = c - 48 \<and> digit_of c < 10"
  by (auto simp: is_ascii_digit_def digit_of_def)

lemma radix_value_decimal: "list_all is_ascii_digit s \<Longrightarrow> radix_value 10 s = digits_value s"
  by (induction s rule: rev_induct) (simp_all add: radix_value_snoc digits_value_snoc digit_of_decimal, simp_all add: radix_value_def digits_value_def)

lemma hd_show_nat: "hd (show_nat n) = 48 \<Longrightarrow> n = 0"
proof (induction n rule: show_nat.induct)
  case (1 n)
  then show ?case using show_nat_digits(2) [of "n div 10"] by (cases "n < 10") (auto simp: show_nat.simps [of n])
qed

lemma read_number_show_nat:
  assumes "n \<le> 255" "stops 10 s"
  shows "read_number 10 3 False 255 (show_nat n @ s) = Some (n, s)"
proof -
  have "list_all (\<lambda>c. digit_of c < 10) (show_nat n)"
    by (rule list.pred_mono_strong [OF show_nat_digits(1)]) (blast dest: digit_of_decimal)
  moreover have "hd (show_nat n) \<noteq> 48 \<or> length (show_nat n) = 1"
    using hd_show_nat [of n] by (cases "n = 0") (auto simp: show_nat.simps [of 0])
  moreover have "length (show_nat n) \<le> 3" using length_show_nat [of n 2] assms(1) by simp
  ultimately show ?thesis
    using read_number_exact [of 10 "show_nat n" 3 False 255 s] assms show_nat_digits [of n] radix_value_decimal [of "show_nat n"] by simp
qed

lemma read_number_show_hex:
  assumes "stops 16 s"
  shows "read_number 16 4 True 65535 (show_hex (unat (g :: u16)) @ s) = Some (unat g, s)"
proof -
  have g: "unat g < 65536" using unsigned_less [of g] by simp
  have "list_all (\<lambda>c. digit_of c < 16) (show_hex (unat g))" using show_hex_props(1) [of "unat g"] by (auto simp: list_all_iff)
  then show ?thesis
    using read_number_exact [of 16 "show_hex (unat g)" 4 True 65535 s] assms g length_show_hex [of "unat g" 3] show_hex_props(2,3) [of "unat g"]
    by simp
qed

lemma stops_punctuation: "c = 46 \<or> c = 58 \<or> c = 32 \<or> c = 13 \<or> c = 10 \<Longrightarrow> stops r (c # s)" if "r \<le> 36"
  using that by (auto simp: stops_def digit_of_def)

lemma read_octets_4: "read_octets i 4 s = read_octets i (Suc (Suc (Suc (Suc 0)))) s"
  by (simp add: numeral_eq_Suc)

lemma read_ipv4_show:
  assumes "stops 10 s" shows "read_ipv4 (show_ipv4 w @ s) = Some (w, s)"
proof -
  have b: "unat (b :: u8) \<le> 255" for b using u8_less_256 [of b] by linarith
  obtain a b c d where o: "to_be32 w = [a, b, c, d]" by (simp add: to_be32_def)
  have "from_be32 a b c d = w"
    using o by (simp add: to_be32_def) (metis from_be32_to_be32)
  moreover have "read_octets 0 4 (show_ipv4 w @ s) = Some ([a, b, c, d], s)"
    using assms
    by (simp add: show_ipv4_def o join_with_def read_octets_4 read_separator_def read_number_show_nat b stops_punctuation)
  ultimately show ?thesis by (simp add: read_ipv4_def)
qed

lemma read_ipv4_without_dots:
  assumes "46 \<notin> set s" shows "read_ipv4 s = None"
proof -
  have "read_octets 0 4 s = None"
  proof (cases "read_number 10 3 False 255 s")
    case (Some x)
    then obtain v where "x = (v, dropWhile (\<lambda>c. digit_of c < 10) s)"
      by (auto simp: read_number_def Let_def split: if_splits)
    moreover have "46 \<notin> set (dropWhile (\<lambda>c. digit_of c < 10) s)" using assms by (blast dest: set_dropWhileD)
    ultimately show ?thesis using Some by (auto simp: read_octets_4 read_separator_def split: list.splits)
  qed (simp add: read_octets_4 read_separator_def)
  then show ?thesis by (simp add: read_ipv4_def)
qed

lemma read_number_stops: "stops radix s \<Longrightarrow> read_number radix m z l s = None"
  by (cases s) (simp_all add: read_number_def stops_def)

text \<open>Groups followed by the end of the text or by a second colon.\<close>

definition group_end :: "text_string \<Rightarrow> bool" where
  "group_end s \<longleftrightarrow> s = [] \<or> (\<exists>r. s = 58 # 58 # r)"

lemma group_end_reads_nothing:
  assumes "group_end s" "46 \<notin> set s"
  shows "read_separator 58 i read_ipv4 s = None" "read_separator 58 i (read_number 16 4 True 65535) s = None"
proof -
  have "read_ipv4 r = None" if "set r \<subseteq> set s" for r using that assms(2) by (intro read_ipv4_without_dots) blast
  then show "read_separator 58 i read_ipv4 s = None" by (cases s) (simp_all add: read_separator_def subset_insertI)
  show "read_separator 58 i (read_number 16 4 True 65535) s = None"
    using assms(1) by (auto simp: read_separator_def group_end_def read_number_stops stops_punctuation) (simp_all add: read_number_def)
qed

lemma join_with_Cons: "join_with c (p # q # ps) = p @ c # join_with c (q # ps)"
  by (simp add: join_with_def)

lemma show_groups_simps:
  "show_groups [] = []" "show_groups [g] = show_hex (unat g)"
  "show_groups (g # h # gs) = show_hex (unat g) @ 58 # show_groups (h # gs)"
  by (simp_all add: show_groups_def join_with_Cons) (simp add: join_with_def)+

lemma set_show_groups: "set (show_groups gs) \<subseteq> {48..57} \<union> {97..102} \<union> {58}"
proof (induction gs rule: induct_list012)
  case (3 g h gs)
  then show ?case using show_hex_props(1) [of "unat g"]
    by (auto simp: show_groups_simps list_all_iff is_ascii_digit_def)
next
  case (2 g)
  show ?case using show_hex_props(1) [of "unat g"] by (auto simp: show_groups_simps list_all_iff is_ascii_digit_def)
qed (simp add: show_groups_simps)

lemma stops_group_end: "group_end s \<Longrightarrow> stops 16 s"
  by (auto simp: group_end_def stops_def digit_of_def)

text \<open>The text of a nonempty group list, where a colon is read first unless the position is zero.\<close>

definition separated :: "nat \<Rightarrow> text_string \<Rightarrow> text_string" where
  "separated i s = (if 0 < i then 58 # s else s)"

lemma read_separator_separated: "read_separator 58 i f (separated i s) = f s"
  by (simp add: read_separator_def separated_def)

lemma read_groups_show:
  assumes "gs \<noteq> []" "length gs \<le> n" "group_end s" "46 \<notin> set s"
  shows "read_groups i n (separated i (show_groups gs @ s)) = (gs, False, s)"
  using assms(1,2)
proof (induction gs arbitrary: i n)
  case (Cons g gs)
  obtain m where n: "n = Suc m" using Cons.prems(2) by (cases n) auto
  have "46 \<notin> set (show_groups (g # gs) @ s)" using set_show_groups [of "g # gs"] assms(4) by auto
  then have v4: "read_ipv4 (show_groups (g # gs) @ s) = None" by (rule read_ipv4_without_dots)
  show ?case
  proof (cases gs)
    case Nil
    have "read_groups (Suc i) m s = ([], False, s)"
      using group_end_reads_nothing [OF assms(3,4), of "Suc i"] by (cases m) simp_all
    with v4 Nil show ?thesis
      by (simp add: n read_separator_separated show_groups_simps read_number_show_hex stops_group_end assms(3))
  next
    case (Cons h gs')
    have "show_groups (g # gs) @ s = show_hex (unat g) @ separated (Suc i) (show_groups gs @ s)"
      using Cons by (simp add: show_groups_simps separated_def)
    moreover have "stops 16 (separated (Suc i) (show_groups gs @ s))" by (simp add: separated_def stops_punctuation)
    ultimately show ?thesis using v4 Cons.IH [of m "Suc i"] Cons.prems Cons
      by (simp add: n read_separator_separated read_number_show_hex)
  qed
qed simp

lemma read_groups_from_0:
  assumes "length gs \<le> n" "group_end s" "46 \<notin> set s"
  shows "read_groups 0 n (show_groups gs @ s) = (gs, False, s)"
proof (cases "gs = []")
  case True
  then show ?thesis using group_end_reads_nothing [OF assms(2,3), of 0] by (cases n) (simp_all add: show_groups_simps)
next
  case False
  then show ?thesis using read_groups_show [OF _ assms, of 0] by (simp add: separated_def)
qed

definition zero_run :: "u16 list \<Rightarrow> nat \<times> nat \<Rightarrow> bool" where
  "zero_run gs r \<longleftrightarrow> fst r + snd r \<le> length gs \<and> take (snd r) (drop (fst r) gs) = replicate (snd r) 0"

lemma zero_run_append: "zero_run gs r \<Longrightarrow> zero_run (gs @ hs) r"
  by (auto simp: zero_run_def)

lemma longest_zeros_run:
  assumes "zero_run pre current" "snd current = 0 \<or> fst current + snd current = length pre" "zero_run pre longest"
  shows "zero_run (pre @ gs) (longest_zeros (length pre) current longest gs)"
  using assms
proof (induction gs arbitrary: pre current longest)
  case (Cons g gs)
  define c where "c = (if g = 0 then (if snd current = 0 then (length pre, 1) else (fst current, snd current + 1)) else (0, 0))"
  have c: "zero_run (pre @ [g]) c" "snd c = 0 \<or> fst c + snd c = length (pre @ [g])"
    using Cons.prems(1,2) by (auto simp: c_def zero_run_def replicate_append_same)
  have l: "zero_run (pre @ [g]) (if g = 0 \<and> snd longest < snd c then c else longest)"
    using c(1) zero_run_append [OF Cons.prems(3)] by auto
  from Cons.IH [OF c l] show ?case by (auto simp: c_def Let_def split: if_splits)
qed simp

lemma length_segments [simp]: "length (segments w) = 8"
  by (simp add: segments_def)

lemma mapped_segments:
  assumes "to_ipv4_mapped w = Some v4"
  shows "w = from_segments [0, 0, 0, 0, 0, 0xFFFF, ucast (drop_bit 16 v4), ucast v4]"
proof -
  define g :: u16 where "g = 0xFFFF"
  have g: "bit g k \<longleftrightarrow> k < 16" for k
  proof -
    have "g = mask 16" by (simp add: g_def mask_eq_exp_minus_1)
    then show ?thesis by (simp add: bit_mask_iff del: mask_numeral)
  qed
  have "(0xFFFF :: 128 word) = ucast g" by (simp add: g_def)
  with assms have d: "drop_bit 32 w = ucast g" and v4: "v4 = ucast w"
    by (simp_all add: to_ipv4_mapped_def split: if_splits)
  have high: "bit w (32 + k) \<longleftrightarrow> k < 16" for k
  proof -
    have "bit w (32 + k) = bit (drop_bit 32 w) k" by (simp add: bit_drop_bit_eq)
    also have "\<dots> \<longleftrightarrow> k < 16" by (auto simp: d bit_simps g)
    finally show ?thesis .
  qed
  have "w = from_segments [0, 0, 0, 0, 0, g, ucast (drop_bit 16 v4), ucast v4]"
  proof (rule bit_word_eqI)
    fix n assume n: "n < LENGTH(128)"
    consider "n < 16" | "16 \<le> n \<and> n < 32" | "32 \<le> n" by linarith
    then show "bit w n = bit (from_segments [0, 0, 0, 0, 0, g, ucast (drop_bit 16 v4), ucast v4]) n"
      using n high [of "n - 32"] by cases (auto simp: from_segments_def bit_simps v4 g)
  qed
  then show ?thesis by (simp add: g_def)
qed

lemma read_ipv6_mapped:
  assumes "to_ipv4_mapped w = Some v4"
  shows "read_ipv6 (lit ''::ffff:'' @ show_ipv4 v4) = Some (w, [])"
proof -
  let ?s = "lit ''ffff:'' @ show_ipv4 v4"
  have colon: "read_ipv4 (58 # s) = None" "read_number 16 4 True 65535 (58 # s) = None" for s
    by (simp_all add: read_ipv4_def read_octets_4 read_separator_def read_number_stops stops_punctuation)
  have "read_groups 0 8 (58 # 58 # ?s) = ([], False, 58 # 58 # ?s)"
    using read_groups.simps(2) [of 0 7] by (simp add: read_separator_def colon)
  moreover have "read_groups 0 7 ?s = ([0xFFFF, ucast (drop_bit 16 v4), ucast v4], True, [])"
  proof -
    have "read_ipv4 (102 # s) = None" for s
      by (simp add: read_ipv4_def read_octets_4 read_separator_def read_number_stops stops_def digit_of_def)
    moreover have "read_number 16 4 True 65535 ([102, 102, 102, 102] @ 58 # s) = Some (65535, 58 # s)" for s
      using read_number_exact [of 16 "[102, 102, 102, 102]" 4 True 65535 "58 # s"]
      by (simp add: digit_of_def radix_value_def stops_punctuation)
    moreover have "read_ipv4 (show_ipv4 v4) = Some (v4, [])"
      using read_ipv4_show [of "[]" v4] by (simp add: stops_def)
    ultimately show ?thesis
      using read_groups.simps(2) [of 0 6] read_groups.simps(2) [of 1 5] by (simp add: lit_def read_separator_def)
  qed
  ultimately show ?thesis
    using mapped_segments [OF assms] by (simp add: read_ipv6_def lit_def numeral_eq_Suc)
qed

lemma read_ipv6_show: "read_ipv6 (show_ipv6 w) = Some (w, [])"
proof (cases "to_ipv4_mapped w")
  case (Some v4)
  then show ?thesis by (simp add: show_ipv6_def read_ipv6_mapped)
next
  case None
  let ?gs = "segments w"
  obtain start len where run: "longest_zeros 0 (0, 0) (0, 0) ?gs = (start, len)" by fastforce
  show ?thesis
  proof (cases "1 < len")
    case True
    have z: "start + len \<le> 8" "take len (drop start ?gs) = replicate len 0"
      using longest_zeros_run [of "[]" "(0, 0)" "(0, 0)" ?gs] run by (simp_all add: zero_run_def)
    let ?tail = "drop (start + len) ?gs"
    have "46 \<notin> set (show_groups ?tail)" using set_show_groups [of ?tail] by auto
    then have "read_groups 0 8 (show_groups (take start ?gs) @ 58 # 58 # show_groups ?tail) =
        (take start ?gs, False, 58 # 58 # show_groups ?tail)"
      by (intro read_groups_from_0) (simp_all add: group_end_def)
    moreover have "read_groups 0 (7 - start) (show_groups ?tail) = (?tail, False, [])"
      using read_groups_from_0 [of ?tail "7 - start" "[]"] True by (simp add: group_end_def)
    moreover have "take start ?gs @ replicate len 0 @ ?tail = ?gs"
      using z(2) by (metis append_take_drop_id drop_drop add.commute)
    ultimately show ?thesis
      using None run True z(1) from_segments_segments [of w]
      by (simp add: show_ipv6_def read_ipv6_def Let_def)
  next
    case False
    have "read_groups 0 8 (show_groups ?gs) = (?gs, False, [])"
      using read_groups_from_0 [of ?gs 8 "[]"] by (simp add: group_end_def)
    then show ?thesis using None run False by (simp add: show_ipv6_def read_ipv6_def from_segments_segments)
  qed
qed

lemma read_ipv4_show_ipv6: "read_ipv4 (show_ipv6 w) = None"
proof (cases "to_ipv4_mapped w")
  case (Some v4)
  then show ?thesis
    by (simp add: show_ipv6_def lit_def read_ipv4_def read_octets_4 read_separator_def read_number_stops stops_punctuation)
next
  case None
  have "46 \<notin> set (show_groups gs)" for gs using set_show_groups [of gs] by auto
  with None show ?thesis by (intro read_ipv4_without_dots) (auto simp: show_ipv6_def Let_def split: prod.splits)
qed

theorem parse_ip_show: "parse_ip (show_ip a) = Some a"
  using read_ipv4_show [of "[]"] by (cases a) (simp_all add: parse_ip_def show_ip_def stops_def read_ipv4_show_ipv6 read_ipv6_show)

lemma parse_ip_Nil [simp]: "parse_ip [] = None"
  using read_groups_from_0 [of "[]" 8 "[]"]
  by (simp add: parse_ip_def read_ipv4_without_dots read_ipv6_def group_end_def show_groups_simps)

text \<open>The characters of a printed address.\<close>

lemma set_show_nat: "set (show_nat n) \<subseteq> {48..57}"
  using show_nat_digits(1) [of n] by (auto simp: list_all_iff is_ascii_digit_def)

lemma set_show_ipv4: "set (show_ipv4 w) \<subseteq> {46} \<union> {48..57}"
proof -
  have "set (join_with 46 ps) \<subseteq> {46} \<union> (\<Union>p \<in> set ps. set p)" for ps by (cases ps) (auto simp: join_with_def)
  then show ?thesis using set_show_nat by (fastforce simp: show_ipv4_def)
qed

lemma set_show_ip: "set (show_ip a) \<subseteq> {46, 58} \<union> {48..57} \<union> {97..102}"
proof (cases a)
  case (Ipv4 w)
  then show ?thesis using set_show_ipv4 [of w] by (auto simp: show_ip_def)
next
  case (Ipv6 w)
  have "set (show_groups gs) \<subseteq> {58} \<union> {48..57} \<union> {97..102}" for gs using set_show_groups [of gs] by auto
  then show ?thesis using Ipv6 set_show_ipv4
    by (fastforce simp: show_ip_def show_ipv6_def lit_def Let_def split: option.splits prod.splits if_splits)
qed

end
