(* ===== verification/Pcscf_Pool.thy ===== *)
theory Pcscf_Pool
  imports Ims_Session Rust_Net Rust_Collections "HOL-Library.Option_ord"
begin

text \<open>
  Which of the advertised P-CSCFs a line registers through (\<^verbatim>\<open>ims/agent/pcscf_pool.rs\<close>, with the
  file formats of \<^verbatim>\<open>ims/pcscf_files.rs\<close>): marks on the ones that failed, the choice per attempt, and
  the state that survives a restart. The clock is an argument, as in the code; what \<open>save\<close> writes is a
  result, and what the state file held is an argument of \<open>new\<close>.
\<close>

section \<open>Wall-clock time\<close>

text \<open>A \<open>SystemTime\<close> counts nanoseconds from the Unix epoch; its seconds are an \<open>i64\<close>.\<close>

type_synonym system_time = int

definition MAX_SYSTEM_TIME :: system_time where
  "MAX_SYSTEM_TIME = (2 ^ 63 - 1) * 1000000000 + 999999999"

definition checked_add :: "system_time \<Rightarrow> duration \<Rightarrow> system_time option" where
  "checked_add t d = (if t + int d \<le> MAX_SYSTEM_TIME then Some (t + int d) else None)"

definition duration_since :: "system_time \<Rightarrow> system_time \<Rightarrow> duration option" where
  "duration_since t earlier = (if earlier \<le> t then Some (nat (t - earlier)) else None)"

definition to_unix :: "system_time \<Rightarrow> nat" where
  "to_unix t = (case duration_since t 0 of Some d \<Rightarrow> d div 1000000000 | None \<Rightarrow> 0)"

section \<open>Causes\<close>

definition TIMER_F :: duration where
  "TIMER_F = secs 128"

definition MARK_BASE :: duration where
  "MARK_BASE = secs 30"

definition MARK_CAP :: duration where
  "MARK_CAP = secs 1800"

definition MARK_EXTRA :: duration where
  "MARK_EXTRA = secs 300"

definition FAR_FUTURE :: duration where
  "FAR_FUTURE = secs (100 * 365 * 24 * 3600)"

datatype failure_cause =
    CauseRegisterTimeout | CauseTransport | CauseEndpointFailure text_string | CauseGmKeepalive | CauseRetryAfter duration

definition RETRY_AFTER_CAUSE :: text_string where
  "RETRY_AFTER_CAUSE = lit ''retry-after''"

definition cause_str :: "failure_cause \<Rightarrow> text_string" where
  "cause_str c =
     (case c of
        CauseRegisterTimeout \<Rightarrow> lit ''register-timeout''
      | CauseTransport \<Rightarrow> lit ''transport''
      | CauseEndpointFailure e \<Rightarrow> lit ''endpoint-failure:'' @ e
      | CauseGmKeepalive \<Rightarrow> lit ''gm-keepalive''
      | CauseRetryAfter _ \<Rightarrow> RETRY_AFTER_CAUSE)"

definition could_be_the_path :: "text_string \<Rightarrow> bool" where
  "could_be_the_path cause \<longleftrightarrow> cause \<noteq> RETRY_AFTER_CAUSE"

record register_failure =
  rf_error :: text_string
  rf_status :: "u16 option"
  rf_retry_after :: "duration option"

definition cause_of :: "register_failure \<Rightarrow> failure_cause option" where
  "cause_of f =
     (case rf_status f of
        Some status \<Rightarrow>
          if status = 503 then
            (case rf_retry_after f of Some d \<Rightarrow> if TIMER_F < d then Some (CauseRetryAfter d) else None | None \<Rightarrow> None)
          else None
      | None \<Rightarrow>
          (case classify_register_failure (rf_error f) of
             FcTimeout \<Rightarrow> Some CauseRegisterTimeout
           | FcTransport \<Rightarrow> Some CauseTransport
           | _ \<Rightarrow> None))"

section \<open>State\<close>

datatype select_reason = Startup | Sticky | Failover | PoolReplaced | AllUnavailable

record selection =
  sl_addr :: ip
  sl_reason :: select_reason

record mark =
  mk_until :: system_time
  mk_failures :: nat
  mk_cause :: text_string
  mk_marked_at :: system_time

definition mark_duration :: "nat \<Rightarrow> duration" where
  "mark_duration failures = min (MARK_BASE * 2 ^ min (failures - 1) 16) MARK_CAP + MARK_EXTRA"

record outage =
  ou_from :: nat
  ou_to :: nat

definition outage_contains :: "outage \<Rightarrow> system_time \<Rightarrow> bool" where
  "outage_contains ou t =
     (case duration_since t 0 of
        Some d \<Rightarrow> ou_from ou \<le> d div 1000000000 \<and> d div 1000000000 \<le> ou_to ou
      | None \<Rightarrow> False)"

definition POOL_STATE_VERSION :: nat where
  "POOL_STATE_VERSION = 1"

record pool_state_mark =
  pm_addr :: ip
  pm_until_unix :: nat
  pm_mark_failures :: nat
  pm_cause :: text_string
  pm_marked_at_unix :: nat

record pool_state =
  ps_version :: nat
  ps_last_registered :: "ip option"
  ps_marks :: "pool_state_mark list"

record pcscf_pool =
  pc_pool :: "ip list"
  pc_selection :: ip
  pc_active :: "ip option"
  pc_last_registered :: "ip option"
  pc_marks :: "(ip, mark) btree_map"
  pc_persistent :: bool
  pc_last_selected :: "ip option"
  pc_active_replaced :: bool

section \<open>The published pool\<close>

definition pool_path :: "text_string \<Rightarrow> text_string" where
  "pool_path selection_path = selection_path @ lit ''.pool''"

definition state_path :: "text_string \<Rightarrow> text_string" where
  "state_path selection_path = selection_path @ lit ''.state''"

definition calls_path :: "text_string \<Rightarrow> text_string" where
  "calls_path selection_path = selection_path @ lit ''.calls''"

definition uplink_path :: "text_string \<Rightarrow> text_string" where
  "uplink_path selection_path = selection_path @ lit ''.uplink''"

text \<open>The contents that \<open>write_active_calls\<close> hands to the atomic write.\<close>

definition active_calls_text :: "nat \<Rightarrow> text_string" where
  "active_calls_text n = show_nat n @ [10]"

definition parse_active_calls :: "text_string \<Rightarrow> nat option" where
  "parse_active_calls contents = parse_uint MAX_U32 (trim contents)"

definition render_pool :: "text_string list \<Rightarrow> text_string" where
  "render_pool pool = concat (map (\<lambda>a. a @ [10]) pool)"

fun parse_pool_from :: "ip list \<Rightarrow> ip list \<Rightarrow> ip list" where
  "parse_pool_from out [] = out"
| "parse_pool_from out (addr # addrs) = parse_pool_from (if addr \<in> set out then out else out @ [addr]) addrs"

definition parse_pool :: "text_string \<Rightarrow> ip list" where
  "parse_pool contents = parse_pool_from [] (List.map_filter (\<lambda>l. parse_ip (trim l)) (str_lines contents))"

section \<open>Operations\<close>

fun dedup_from :: "ip list \<Rightarrow> ip list \<Rightarrow> ip list" where
  "dedup_from out [] = out"
| "dedup_from out (a # addrs) = dedup_from (if a \<in> set out then out else out @ [a]) addrs"

definition dedup :: "ip list \<Rightarrow> ip list" where
  "dedup addrs = dedup_from [] addrs"

definition known :: "pcscf_pool \<Rightarrow> ip \<Rightarrow> bool" where
  "known p addr \<longleftrightarrow> addr = pc_selection p \<or> addr \<in> set (pc_pool p)"

definition is_marked :: "pcscf_pool \<Rightarrow> ip \<Rightarrow> system_time \<Rightarrow> bool" where
  "is_marked p addr now \<longleftrightarrow> (case map_of (pc_marks p) addr of Some m \<Rightarrow> now < mk_until m | None \<Rightarrow> False)"

definition candidates :: "pcscf_pool \<Rightarrow> system_time \<Rightarrow> ip list" where
  "candidates p now =
     dedup ((case pc_last_registered p of
               Some l \<Rightarrow> if known p l \<and> \<not> is_marked p l now then [l] else []
             | None \<Rightarrow> []) @
            [pc_selection p] @ filter is_ipv4 (pc_pool p) @ filter (\<lambda>a. \<not> is_ipv4 a) (pc_pool p))"

definition has_unmarked :: "pcscf_pool \<Rightarrow> system_time \<Rightarrow> bool" where
  "has_unmarked p now \<longleftrightarrow> list_ex (\<lambda>a. \<not> is_marked p a now) (candidates p now)"

definition next_eligible :: "pcscf_pool \<Rightarrow> system_time \<Rightarrow> ip option" where
  "next_eligible p now = find (\<lambda>a. \<not> is_marked p a now) (candidates p now)"

text \<open>\<open>min_by_key\<close> with the position in the key: the first of the least.\<close>

fun first_min :: "('a \<Rightarrow> 'b :: linorder) \<Rightarrow> 'a list \<Rightarrow> 'a option" where
  "first_min f [] = None"
| "first_min f (x # xs) =
     (case first_min f xs of None \<Rightarrow> Some x | Some y \<Rightarrow> if f x \<le> f y then Some x else Some y)"

definition soonest_expiry :: "pcscf_pool \<Rightarrow> system_time \<Rightarrow> duration" where
  "soonest_expiry p now =
     (let waits = map (\<lambda>a. case map_of (pc_marks p) a of
                             Some m \<Rightarrow> (case duration_since (mk_until m) now of Some d \<Rightarrow> d | None \<Rightarrow> 0)
                           | None \<Rightarrow> 0) (candidates p now)
      in case first_min id waits of Some d \<Rightarrow> d | None \<Rightarrow> 0)"

definition choose_pcscf :: "pcscf_pool \<Rightarrow> system_time \<Rightarrow> selection" where
  "choose_pcscf p now =
     (let among = (case find (\<lambda>a. \<not> is_marked p a now) (candidates p now) of
                     Some addr \<Rightarrow>
                       \<lparr>sl_addr = addr,
                        sl_reason = (if pc_active_replaced p then PoolReplaced
                                     else if pc_active p \<noteq> None then Failover else Startup)\<rparr>
                   | None \<Rightarrow>
                       \<lparr>sl_addr = (case first_min (\<lambda>a. map_option mk_until (map_of (pc_marks p) a)) (candidates p now) of
                                     Some addr \<Rightarrow> addr | None \<Rightarrow> pc_selection p),
                        sl_reason = AllUnavailable\<rparr>)
      in case pc_active p of
           Some a \<Rightarrow> if known p a \<and> \<not> is_marked p a now then \<lparr>sl_addr = a, sl_reason = Sticky\<rparr> else among
         | None \<Rightarrow> among)"

definition select :: "pcscf_pool \<Rightarrow> system_time \<Rightarrow> selection \<times> pcscf_pool" where
  "select p now =
     (let s = choose_pcscf p now
      in (s, p\<lparr>pc_active := Some (sl_addr s), pc_last_selected := Some (sl_addr s), pc_active_replaced := False\<rparr>))"

text \<open>What a save writes: nothing for a pool kept in memory only.\<close>

definition save :: "pcscf_pool \<Rightarrow> pool_state option" where
  "save p =
     (if pc_persistent p then
        Some \<lparr>ps_version = POOL_STATE_VERSION, ps_last_registered = pc_last_registered p,
              ps_marks = map (\<lambda>(a, m). \<lparr>pm_addr = a, pm_until_unix = to_unix (mk_until m), pm_mark_failures = mk_failures m,
                                        pm_cause = mk_cause m, pm_marked_at_unix = to_unix (mk_marked_at m)\<rparr>) (pc_marks p)\<rparr>
      else None)"

text \<open>\<open>None\<close>: the failure count or the end of the mark overflows. The result: the mark set, if any, the
  pool, and what was saved.\<close>

definition on_failure ::
  "pcscf_pool \<Rightarrow> ip \<Rightarrow> failure_cause \<Rightarrow> system_time \<Rightarrow> (mark option \<times> pcscf_pool \<times> pool_state option) option" where
  "on_failure p addr cause now =
     (if pc_active p \<noteq> Some addr then Some (None, p, None)
      else
        (let failures = (case map_of (pc_marks p) addr of Some m \<Rightarrow> mk_failures m | None \<Rightarrow> 0) + 1;
             unavailable = (case cause of CauseRetryAfter d \<Rightarrow> d | _ \<Rightarrow> mark_duration failures)
         in if MAX_U32 < failures then None
            else
              map_option
                (\<lambda>until.
                  let m = \<lparr>mk_until = until, mk_failures = failures, mk_cause = cause_str cause, mk_marked_at = now\<rparr>;
                      p = p\<lparr>pc_marks := bt_insert addr m (pc_marks p)\<rparr>
                  in (Some m, p, save p))
                (case checked_add now unavailable of Some until \<Rightarrow> Some until | None \<Rightarrow> checked_add now FAR_FUTURE)))"

definition on_registered :: "pcscf_pool \<Rightarrow> ip \<Rightarrow> pcscf_pool \<times> pool_state option" where
  "on_registered p addr =
     (let p = p\<lparr>pc_active := Some addr, pc_last_selected := Some addr, pc_last_registered := Some addr,
                pc_marks := bt_remove addr (pc_marks p)\<rparr>
      in (p, save p))"

definition published :: "ip \<Rightarrow> ip list \<Rightarrow> ip list" where
  "published selection pool = dedup (if pool = [] then [selection] else pool)"

definition replace_pool :: "pcscf_pool \<Rightarrow> ip list \<Rightarrow> ip \<Rightarrow> bool \<times> pcscf_pool \<times> pool_state option" where
  "replace_pool p pool selection =
     (let pool = published selection pool;
          same_set = (length pool = length (pc_pool p) \<and> list_all (\<lambda>a. a \<in> set (pc_pool p)) pool)
      in if same_set \<and> selection = pc_selection p then (False, p, None)
         else
           (let p = p\<lparr>pc_pool := pool, pc_selection := selection,
                      pc_marks := filter (\<lambda>(a, _). a = selection \<or> a \<in> set pool) (pc_marks p)\<rparr>;
                p = (case pc_last_registered p of
                       Some l \<Rightarrow> if known p l then p else p\<lparr>pc_last_registered := None\<rparr>
                     | None \<Rightarrow> p);
                p = (case pc_active p of
                       Some a \<Rightarrow> if known p a then p else p\<lparr>pc_active := None, pc_active_replaced := True\<rparr>
                     | None \<Rightarrow> p)
            in (True, p, save p)))"

definition forget_outage :: "pcscf_pool \<Rightarrow> outage option \<Rightarrow> nat \<times> pcscf_pool \<times> pool_state option" where
  "forget_outage p ou =
     (case ou of
        None \<Rightarrow> (0, p, None)
      | Some ou \<Rightarrow>
          (let before = length (pc_marks p);
               p = p\<lparr>pc_marks := filter (\<lambda>(_, m). \<not> (outage_contains ou (mk_marked_at m) \<and> could_be_the_path (mk_cause m)))
                                   (pc_marks p)\<rparr>;
               dropped = before - length (pc_marks p)
           in (dropped, p, if 0 < dropped then save p else None)))"

record pcscf_snapshot =
  sn_active :: "ip option"
  sn_pool :: "ip list"
  sn_unavailable :: "(ip \<times> system_time) list"

definition pool_snapshot :: "pcscf_pool \<Rightarrow> system_time \<Rightarrow> pcscf_snapshot" where
  "pool_snapshot p now =
     \<lparr>sn_active = pc_active p, sn_pool = candidates p now,
      sn_unavailable =
        List.map_filter (\<lambda>a. case map_of (pc_marks p) a of
                               Some m \<Rightarrow> if now < mk_until m then Some (a, mk_until m) else None
                             | None \<Rightarrow> None) (candidates p now)\<rparr>"

text \<open>Reading a saved state back: \<open>None\<close> is a missing file or one that does not parse.\<close>

definition load_mark :: "pool_state_mark \<Rightarrow> pcscf_pool \<Rightarrow> pcscf_pool" where
  "load_mark m p =
     (case checked_add 0 (secs (pm_until_unix m)) of
        None \<Rightarrow> p
      | Some until \<Rightarrow>
          if known p (pm_addr m) then
            p\<lparr>pc_marks := bt_insert (pm_addr m)
                \<lparr>mk_until = until, mk_failures = pm_mark_failures m, mk_cause = pm_cause m,
                 mk_marked_at = (case checked_add 0 (secs (pm_marked_at_unix m)) of Some t \<Rightarrow> t | None \<Rightarrow> 0)\<rparr> (pc_marks p)\<rparr>
          else p)"

definition load :: "pcscf_pool \<Rightarrow> pool_state option \<Rightarrow> pcscf_pool" where
  "load p file =
     (if \<not> pc_persistent p then p
      else
        (case file of
           None \<Rightarrow> p
         | Some persisted \<Rightarrow>
             if ps_version persisted \<noteq> POOL_STATE_VERSION then p
             else
               fold load_mark (ps_marks persisted)
                 (p\<lparr>pc_last_registered :=
                     (case ps_last_registered persisted of
                        Some a \<Rightarrow> if known p a then Some a else None
                      | None \<Rightarrow> None)\<rparr>)))"

definition pool_new :: "ip \<Rightarrow> ip list \<Rightarrow> bool \<Rightarrow> pool_state option \<Rightarrow> pcscf_pool" where
  "pool_new selection pool persistent file =
     load \<lparr>pc_pool = published selection pool, pc_selection = selection, pc_active = None, pc_last_registered = None,
           pc_marks = [], pc_persistent = persistent, pc_last_selected = None, pc_active_replaced = False\<rparr> file"

section \<open>Candidates\<close>

lemma dedup_from_props:
  "set (dedup_from out addrs) = set out \<union> set addrs \<and> (distinct out \<longrightarrow> distinct (dedup_from out addrs))"
  by (induction out addrs rule: dedup_from.induct) auto

lemma set_dedup [simp]: "set (dedup addrs) = set addrs"
  using dedup_from_props [of "[]" addrs] by (simp add: dedup_def)

lemma distinct_dedup [simp]: "distinct (dedup addrs)"
  using dedup_from_props [of "[]" addrs] by (simp add: dedup_def)

lemma dedup_distinct:
  assumes "distinct (out @ addrs)" shows "dedup_from out addrs = out @ addrs"
  using assms by (induction out addrs rule: dedup_from.induct) auto

text \<open>The two files the supervisor and the agent share read back as written.\<close>

lemma parse_pool_from_distinct: "distinct (out @ addrs) \<Longrightarrow> parse_pool_from out addrs = out @ addrs"
  by (induction out addrs rule: parse_pool_from.induct) auto

lemma trim_show_ip [simp]: "trim (show_ip a) = show_ip a"
  using set_show_ip [of a] by (intro trim_no_whitespace) (auto simp: list_all_iff is_whitespace_def)

lemma lines_acc_newline:
  "10 \<notin> set l \<Longrightarrow> 13 \<notin> set l \<Longrightarrow> 13 \<notin> set acc \<Longrightarrow> lines_acc acc (l @ 10 # s) = (rev acc @ l) # lines_acc [] s"
  by (induction l arbitrary: acc) (auto split: list.split)

lemma parse_pool_render: "distinct pool \<Longrightarrow> parse_pool (render_pool (map show_ip pool)) = pool"
proof -
  have line: "10 \<notin> set (show_ip a) \<and> 13 \<notin> set (show_ip a)" for a using set_show_ip [of a] by auto
  then have "str_lines (render_pool (map show_ip pool)) = map show_ip pool"
    by (induction pool) (simp_all add: render_pool_def str_lines_def lines_acc_newline)
  moreover have "List.map_filter (\<lambda>l. parse_ip (trim l)) (map show_ip pool) = pool"
    by (induction pool) (simp_all add: map_filter_simps parse_ip_show)
  moreover assume "distinct pool"
  ultimately show ?thesis by (simp add: parse_pool_def parse_pool_from_distinct)
qed

lemma trim_word_newline: assumes "word_ok w" shows "trim (w @ [10]) = w"
proof -
  have "trim_start (w @ [10]) = w @ [10]" using assms by (cases w) (simp_all add: trim_start_def word_ok_def)
  moreover have "dropWhile is_whitespace (rev w) = rev w" using assms by (cases "rev w") (auto simp: word_ok_def list_all_iff)
  ultimately show ?thesis by (simp add: trim_def trim_end_def is_whitespace_def)
qed

lemma parse_active_calls_text: "n \<le> MAX_U32 \<Longrightarrow> parse_active_calls (active_calls_text n) = Some n"
  by (simp add: parse_active_calls_def active_calls_text_def trim_word_newline parse_uint_show_nat)

text \<open>Whatever is marked and whatever registered last, the candidates are the known addresses, each once.\<close>

lemma set_candidates [simp]: "set (candidates p now) = {a. known p a}"
  by (auto simp: candidates_def known_def split: option.splits)

lemma distinct_candidates [simp]: "distinct (candidates p now)"
  by (simp add: candidates_def)

lemma candidates_not_Nil [simp]: "candidates p now \<noteq> []"
  using set_candidates [of p now] by (auto simp: known_def simp del: set_candidates)

lemma has_unmarked_iff: "has_unmarked p now \<longleftrightarrow> (\<exists>a. known p a \<and> \<not> is_marked p a now)"
  by (simp add: has_unmarked_def list_ex_iff)

lemma first_min_None: "first_min f xs = None \<longleftrightarrow> xs = []"
  by (cases xs) (auto split: option.splits)

lemma first_min_SomeD: "first_min f xs = Some x \<Longrightarrow> x \<in> set xs \<and> (\<forall>y \<in> set xs. f x \<le> f y)"
  by (induction xs arbitrary: x) (auto simp: first_min_None split: option.splits if_splits dest: order_trans)

section \<open>The choice\<close>

lemma find_unmarked:
  "find (\<lambda>a. \<not> is_marked p a now) (candidates p now) = None \<longleftrightarrow> \<not> has_unmarked p now"
  "find (\<lambda>a. \<not> is_marked p a now) (candidates p now) = Some a \<Longrightarrow> known p a \<and> \<not> is_marked p a now"
proof -
  show "find (\<lambda>a. \<not> is_marked p a now) (candidates p now) = None \<longleftrightarrow> \<not> has_unmarked p now"
    by (auto simp: find_None_iff has_unmarked_iff)
  assume "find (\<lambda>a. \<not> is_marked p a now) (candidates p now) = Some a"
  from this [unfolded find_Some_iff] obtain i where
    "i < length (candidates p now)" "\<not> is_marked p (candidates p now ! i) now" "a = candidates p now ! i" by blast
  moreover from this have "known p a" using nth_mem [of i "candidates p now"] by (simp del: nth_mem)
  ultimately show "known p a \<and> \<not> is_marked p a now" by simp
qed

lemma choose_unmarked:
  assumes "has_unmarked p now"
  shows "known p (sl_addr (choose_pcscf p now)) \<and> \<not> is_marked p (sl_addr (choose_pcscf p now)) now"
  using assms find_unmarked [of p now] by (auto simp: choose_pcscf_def Let_def split: option.splits)

lemma choose_soonest:
  assumes "\<not> has_unmarked p now"
  shows "known p (sl_addr (choose_pcscf p now)) \<and>
    (\<forall>a. known p a \<longrightarrow> map_option mk_until (map_of (pc_marks p) (sl_addr (choose_pcscf p now))) \<le> map_option mk_until (map_of (pc_marks p) a))"
proof -
  let ?f = "\<lambda>a. map_option mk_until (map_of (pc_marks p) a)"
  obtain a where a: "first_min ?f (candidates p now) = Some a"
    using first_min_None [of ?f "candidates p now"] by fastforce
  from assms have "find (\<lambda>a. \<not> is_marked p a now) (candidates p now) = None" by (simp add: find_unmarked(1))
  moreover have "\<not> (known p b \<and> \<not> is_marked p b now)" for b using assms by (auto simp: has_unmarked_iff)
  ultimately have "sl_addr (choose_pcscf p now) = a" using a by (auto simp: choose_pcscf_def Let_def split: option.splits)
  with first_min_SomeD [OF a] show ?thesis by simp
qed

lemma choose_known: "known p (sl_addr (choose_pcscf p now))"
  using choose_unmarked choose_soonest by blast

lemma select_frame:
  "fst (select p now) = choose_pcscf p now"
  "pc_active (snd (select p now)) = Some (sl_addr (choose_pcscf p now))"
  "pc_marks (snd (select p now)) = pc_marks p"
  "known (snd (select p now)) = known p"
  by (simp_all add: select_def Let_def known_def fun_eq_iff)

section \<open>Marks\<close>

lemma mark_duration_bounds: "secs 330 \<le> mark_duration n" "mark_duration n \<le> secs 2100"
proof -
  have "(1 :: nat) \<le> 2 ^ min (n - 1) 16" by simp
  then show "secs 330 \<le> mark_duration n" by (simp add: mark_duration_def MARK_BASE_def MARK_CAP_def MARK_EXTRA_def)
  show "mark_duration n \<le> secs 2100" by (simp add: mark_duration_def MARK_CAP_def MARK_EXTRA_def)
qed

lemma mark_duration_mono: "m \<le> n \<Longrightarrow> mark_duration m \<le> mark_duration n"
  by (simp add: mark_duration_def min_le_iff_disj min.coboundedI1 diff_le_mono power_increasing)

definition qualifying :: "failure_cause \<Rightarrow> bool" where
  "qualifying cause = (case cause of CauseRetryAfter d \<Rightarrow> TIMER_F < d | _ \<Rightarrow> True)"

lemma cause_of_qualifying: "cause_of f = Some cause \<Longrightarrow> qualifying cause"
  by (auto simp: cause_of_def qualifying_def split: option.splits if_splits failure_class.splits)

lemma on_failure_active:
  assumes "on_failure p addr cause now = Some (m, p', file)" "pc_active p = Some addr"
  shows "\<exists>m'. m = Some m' \<and> p' = p\<lparr>pc_marks := bt_insert addr m' (pc_marks p)\<rparr> \<and> file = save p' \<and> mk_marked_at m' = now \<and>
    mk_failures m' = (case map_of (pc_marks p) addr of Some m \<Rightarrow> mk_failures m | None \<Rightarrow> 0) + 1 \<and> mk_failures m' \<le> MAX_U32 \<and>
    mk_until m' \<le> MAX_SYSTEM_TIME \<and> now \<le> mk_until m' \<and> (qualifying cause \<longrightarrow> now + int TIMER_F < mk_until m')"
  using assms mark_duration_bounds(1) [of "(case map_of (pc_marks p) addr of Some m \<Rightarrow> mk_failures m | None \<Rightarrow> 0) + 1"]
  by (auto simp: on_failure_def Let_def checked_add_def TIMER_F_def FAR_FUTURE_def qualifying_def
      split: option.splits if_splits failure_cause.splits)

section \<open>Reachable pools\<close>

definition pool_inv :: "pcscf_pool \<Rightarrow> bool" where
  "pool_inv p \<longleftrightarrow> pc_pool p \<noteq> [] \<and> distinct (pc_pool p) \<and> bt_inv (pc_marks p) \<and>
     (\<forall>(a, m) \<in> set (pc_marks p). mk_failures m \<le> MAX_U32 \<and> 0 \<le> mk_until m \<and> mk_until m \<le> MAX_SYSTEM_TIME \<and>
        0 \<le> mk_marked_at m \<and> mk_marked_at m \<le> MAX_SYSTEM_TIME)"

text \<open>The files the agent reads hold machine integers.\<close>

definition file_ok :: "pool_state \<Rightarrow> bool" where
  "file_ok f \<longleftrightarrow> list_all (\<lambda>m. pm_mark_failures m \<le> MAX_U32) (ps_marks f)"

inductive pool_step :: "pcscf_pool \<Rightarrow> pcscf_pool \<Rightarrow> bool" where
  step_select: "pool_step p (snd (select p now))"
| step_failure: "0 \<le> now \<Longrightarrow> now \<le> MAX_SYSTEM_TIME \<Longrightarrow> on_failure p addr cause now = Some (m, p', file) \<Longrightarrow> pool_step p p'"
| step_registered: "pool_step p (fst (on_registered p addr))"
| step_replace: "pool_step p (fst (snd (replace_pool p pool sel)))"
| step_forget: "pool_step p (fst (snd (forget_outage p ou)))"

inductive pool_reachable :: "pcscf_pool \<Rightarrow> bool" where
  reach_new: "(\<forall>f. file = Some f \<longrightarrow> file_ok f) \<Longrightarrow> pool_reachable (pool_new sel pool persistent file)"
| reach_step: "pool_reachable p \<Longrightarrow> pool_step p p' \<Longrightarrow> pool_reachable p'"

lemma set_bt_insert_subset: "set (bt_insert k v m) \<subseteq> insert (k, v) (set m)"
  by (induction k v m rule: bt_insert.induct) auto

lemma published_ok [simp]: "published sel pool \<noteq> []" "distinct (published sel pool)"
  using set_dedup [of "if pool = [] then [sel] else pool"]
  by (auto simp: published_def simp del: set_dedup split: if_splits)

lemma load_mark_inv:
  assumes "pool_inv p" "pm_mark_failures m \<le> MAX_U32" shows "pool_inv (load_mark m p)"
  using assms set_bt_insert_subset
  by (fastforce simp: load_mark_def pool_inv_def bt_inv_insert checked_add_def MAX_SYSTEM_TIME_def split: option.splits if_splits)

lemma fold_load_mark_inv: "pool_inv p \<Longrightarrow> list_all (\<lambda>m. pm_mark_failures m \<le> MAX_U32) ms \<Longrightarrow> pool_inv (fold load_mark ms p)"
  by (induction ms arbitrary: p) (simp_all add: load_mark_inv)

lemma pool_new_inv: "(\<forall>f. file = Some f \<longrightarrow> file_ok f) \<Longrightarrow> pool_inv (pool_new sel pool persistent file)"
  by (auto simp: pool_new_def load_def file_ok_def split: option.splits intro!: fold_load_mark_inv) (simp_all add: pool_inv_def bt_inv_def)

lemma on_failure_inv:
  assumes "pool_inv p" "on_failure p addr cause now = Some (m, p', file)" "0 \<le> now" "now \<le> MAX_SYSTEM_TIME"
  shows "pool_inv p'"
proof (cases "pc_active p = Some addr")
  case True
  from on_failure_active [OF assms(2) True] obtain m' where
    "p' = p\<lparr>pc_marks := bt_insert addr m' (pc_marks p)\<rparr>" "mk_marked_at m' = now" "mk_failures m' \<le> MAX_U32"
    "mk_until m' \<le> MAX_SYSTEM_TIME" "now \<le> mk_until m'" by blast
  then show ?thesis using assms(1,3,4) set_bt_insert_subset [of addr m' "pc_marks p"]
    by (auto simp: pool_inv_def bt_inv_insert)
next
  case False
  then show ?thesis using assms by (simp add: on_failure_def)
qed

lemma replace_pool_inv: "pool_inv p \<Longrightarrow> pool_inv (fst (snd (replace_pool p pool sel)))"
  by (auto simp: replace_pool_def Let_def pool_inv_def bt_inv_filter split: option.splits)

lemma pool_step_inv: "pool_step p p' \<Longrightarrow> pool_inv p \<Longrightarrow> pool_inv p'"
proof (induction rule: pool_step.induct)
  case (step_failure now p addr cause m p' written)
  then show ?case using on_failure_inv by blast
next
  case (step_replace p pool sel)
  then show ?case by (rule replace_pool_inv)
qed (auto simp: pool_inv_def select_def Let_def on_registered_def forget_outage_def bt_remove_def bt_inv_filter split: option.splits)

lemma pool_reachable_inv: "pool_reachable p \<Longrightarrow> pool_inv p"
  by (induction rule: pool_reachable.induct) (auto simp: pool_new_inv pool_step_inv)

section \<open>Failing over\<close>

text \<open>A run of registration attempts that all fail: the P-CSCFs chosen, one per attempt.\<close>

fun failed_attempts :: "(system_time \<times> failure_cause) list \<Rightarrow> pcscf_pool \<Rightarrow> (ip list \<times> pcscf_pool) option" where
  "failed_attempts [] p = Some ([], p)"
| "failed_attempts ((now, cause) # later) p =
     (case select p now of
        (s, p) \<Rightarrow>
          (case on_failure p (sl_addr s) cause now of
             None \<Rightarrow> None
           | Some (_, p, _) \<Rightarrow> map_option (\<lambda>(tried, p). (sl_addr s # tried, p)) (failed_attempts later p)))"

text \<open>
  Between \<open>t0\<close> and \<open>t0\<close> plus timer F the addresses of \<open>T\<close> are marked and the other ones of \<open>U\<close> are not.
\<close>

definition window_ok :: "pcscf_pool \<Rightarrow> system_time \<Rightarrow> ip set \<Rightarrow> ip set \<Rightarrow> bool" where
  "window_ok p t0 U T \<longleftrightarrow>
     bt_inv (pc_marks p) \<and> U \<subseteq> {a. known p a} \<and> T \<subseteq> {a. known p a} \<and>
     (\<forall>t. t0 \<le> t \<longrightarrow> t \<le> t0 + int TIMER_F \<longrightarrow> (\<forall>a \<in> T. is_marked p a t) \<and> (\<forall>a \<in> U - T. \<not> is_marked p a t))"

text \<open>The addresses outside \<open>U\<close> are marked all the time.\<close>

definition others_marked :: "pcscf_pool \<Rightarrow> system_time \<Rightarrow> ip set \<Rightarrow> bool" where
  "others_marked p t0 U \<longleftrightarrow> (\<forall>a t. known p a \<and> a \<notin> U \<and> t0 \<le> t \<and> t \<le> t0 + int TIMER_F \<longrightarrow> is_marked p a t)"

lemma finite_known: "finite {a. known p a}"
  using finite_set [of "candidates p 0"] by simp

lemma attempt_marks:
  assumes "on_failure (snd (select p now)) (sl_addr (choose_pcscf p now)) cause now = Some (m, p', file)"
    and "window_ok p t0 U T" "t0 \<le> now" "now \<le> t0 + int TIMER_F" "qualifying cause"
  shows "window_ok p' t0 U (insert (sl_addr (choose_pcscf p now)) T) \<and> known p' = known p \<and> (others_marked p t0 U \<longrightarrow> others_marked p' t0 U)"
proof -
  let ?a = "sl_addr (choose_pcscf p now)"
  from on_failure_active [OF assms(1)] assms(5) obtain m' where
    p': "p' = (snd (select p now))\<lparr>pc_marks := bt_insert ?a m' (pc_marks p)\<rparr>" and until: "now + int TIMER_F < mk_until m'"
    by (auto simp: select_frame)
  from p' have known: "known p' = known p" using select_frame(4) [of p now] by (simp add: known_def fun_eq_iff)
  have "bt_inv (pc_marks p)" using assms(2) by (simp add: window_ok_def)
  then have marks: "map_of (pc_marks p') b = (if b = ?a then Some m' else map_of (pc_marks p) b)" "bt_inv (pc_marks p')" for b
    by (simp_all add: p' map_of_bt_insert bt_inv_insert)
  then have "is_marked p' b t \<longleftrightarrow> b = ?a \<or> is_marked p b t" if "t \<le> t0 + int TIMER_F" for b t
    using that assms(3) until by (auto simp: is_marked_def)
  then show ?thesis using assms(2) marks(2) known choose_known [of p now] by (auto simp: window_ok_def others_marked_def)
qed

lemma attempts_rotate:
  assumes "failed_attempts fs p = Some (tried, p')" "window_ok p t0 U T"
    "list_all (\<lambda>(now, cause). t0 \<le> now \<and> now \<le> t0 + int TIMER_F \<and> qualifying cause) fs"
    "card T + length fs \<le> card U"
  shows "distinct tried \<and> set tried \<subseteq> {a. known p a} - T \<and> length tried = length fs \<and> (others_marked p t0 U \<longrightarrow> set tried \<subseteq> U)"
  using assms
proof (induction fs arbitrary: p T tried)
  case (Cons f fs)
  obtain now cause where f: "f = (now, cause)" by (cases f)
  let ?a = "sl_addr (choose_pcscf p now)"
  from Cons.prems(1) obtain m p1 written tried' where
    fail: "on_failure (snd (select p now)) ?a cause now = Some (m, p1, written)" and
    rest: "failed_attempts fs p1 = Some (tried', p')" and tried: "tried = ?a # tried'"
    by (auto simp: f select_def Let_def split: option.splits)
  have win: "t0 \<le> now" "now \<le> t0 + int TIMER_F" "qualifying cause" using Cons.prems(3) by (simp_all add: f)
  note after = attempt_marks [OF fail Cons.prems(2) win]
  have fin: "finite T" using Cons.prems(2) finite_known [of p] finite_subset by (auto simp: window_ok_def)
  have "\<not> U \<subseteq> T" using card_mono [OF fin, of U] Cons.prems(4) by auto
  then have "has_unmarked p now" using Cons.prems(2) win by (fastforce simp: has_unmarked_iff window_ok_def)
  then have a: "known p ?a" "\<not> is_marked p ?a now" using choose_unmarked choose_known by blast+
  then have new: "?a \<notin> T" "others_marked p t0 U \<longrightarrow> ?a \<in> U" using Cons.prems(2) win by (auto simp: window_ok_def others_marked_def)
  have "card (insert ?a T) = Suc (card T)" using fin new(1) by simp
  with Cons.IH [OF rest, of "insert ?a T"] after Cons.prems(3,4) have
    "distinct tried' \<and> set tried' \<subseteq> {a. known p a} - insert ?a T \<and> length tried' = length fs \<and> (others_marked p t0 U \<longrightarrow> set tried' \<subseteq> U)" by auto
  then show ?case using a new tried by auto
qed simp

section \<open>Restarting\<close>

definition whole_seconds :: "mark \<Rightarrow> mark" where
  "whole_seconds m =
     \<lparr>mk_until = int (secs (to_unix (mk_until m))), mk_failures = mk_failures m, mk_cause = mk_cause m,
      mk_marked_at = int (secs (to_unix (mk_marked_at m)))\<rparr>"

lemma to_unix_le: "0 \<le> t \<Longrightarrow> int (secs (to_unix t)) \<le> t" "0 \<le> t \<Longrightarrow> t < int (secs (to_unix t)) + 1000000000"
  by (simp_all add: to_unix_def duration_since_def)

lemma load_saved_mark:
  assumes "0 \<le> mk_until m" "mk_until m \<le> MAX_SYSTEM_TIME" "0 \<le> mk_marked_at m" "mk_marked_at m \<le> MAX_SYSTEM_TIME"
  shows "load_mark \<lparr>pm_addr = a, pm_until_unix = to_unix (mk_until m), pm_mark_failures = mk_failures m,
      pm_cause = mk_cause m, pm_marked_at_unix = to_unix (mk_marked_at m)\<rparr> q =
    (if known q a then q\<lparr>pc_marks := bt_insert a (whole_seconds m) (pc_marks q)\<rparr> else q)"
proof -
  have "checked_add 0 (secs (to_unix t)) = Some (int (secs (to_unix t)))" if "0 \<le> t" "t \<le> MAX_SYSTEM_TIME" for t
    using to_unix_le(1) [OF that(1)] that by (simp add: checked_add_def)
  with assms show ?thesis by (simp add: load_mark_def whole_seconds_def)
qed

definition mark_times_ok :: "mark \<Rightarrow> bool" where
  "mark_times_ok m \<longleftrightarrow> 0 \<le> mk_until m \<and> mk_until m \<le> MAX_SYSTEM_TIME \<and> 0 \<le> mk_marked_at m \<and> mk_marked_at m \<le> MAX_SYSTEM_TIME"

lemma load_saved_marks:
  assumes "distinct (map fst ms)" "\<forall>(a, m) \<in> set ms. mark_times_ok m" "bt_inv (pc_marks q)"
  shows "map_of (pc_marks (fold load_mark (map (\<lambda>(a, m). \<lparr>pm_addr = a, pm_until_unix = to_unix (mk_until m),
        pm_mark_failures = mk_failures m, pm_cause = mk_cause m, pm_marked_at_unix = to_unix (mk_marked_at m)\<rparr>) ms) q)) a =
      (if known q a \<and> map_of ms a \<noteq> None then map_option whole_seconds (map_of ms a) else map_of (pc_marks q) a)"
  using assms
proof (induction ms arbitrary: q)
  case (Cons x ms)
  obtain b m where x: "x = (b, m)" by (cases x)
  let ?q = "if known q b then q\<lparr>pc_marks := bt_insert b (whole_seconds m) (pc_marks q)\<rparr> else q"
  have k: "known ?q = known q" by (simp add: known_def fun_eq_iff)
  have bt: "bt_inv (pc_marks ?q)" using Cons.prems(3) by (simp add: bt_inv_insert)
  have step: "load_mark \<lparr>pm_addr = b, pm_until_unix = to_unix (mk_until m), pm_mark_failures = mk_failures m,
      pm_cause = mk_cause m, pm_marked_at_unix = to_unix (mk_marked_at m)\<rparr> q = ?q"
    using Cons.prems(2) by (intro load_saved_mark) (simp_all add: x mark_times_ok_def)
  have dist: "distinct (map fst ms)" "\<forall>(a, m) \<in> set ms. mark_times_ok m" "map_of ms b = None"
    using Cons.prems(1,2) by (auto simp: x map_of_eq_None_iff)
  have "pc_marks ?q = (if known q b then bt_insert b (whole_seconds m) (pc_marks q) else pc_marks q)" by simp
  with Cons.IH [OF dist(1,2) bt] Cons.prems(3) dist(3) show ?case
    by (auto simp: x step k map_of_bt_insert simp del: fold.simps split: if_splits)
      (auto simp: x step k map_of_bt_insert)
qed simp

lemma fold_load_mark_frame:
  "pc_last_registered (fold load_mark ms q) = pc_last_registered q" "known (fold load_mark ms q) = known q"
proof -
  have "pc_last_registered (load_mark m q) = pc_last_registered q \<and> known (load_mark m q) = known q" for m q
    by (simp add: load_mark_def known_def fun_eq_iff split: option.split)
  then show "pc_last_registered (fold load_mark ms q) = pc_last_registered q" "known (fold load_mark ms q) = known q"
    by (induction ms arbitrary: q) simp_all
qed

lemma published_pool: "pool_inv p \<Longrightarrow> published (pc_selection p) (pc_pool p) = pc_pool p"
  by (simp add: pool_inv_def published_def dedup_def dedup_distinct)

lemma restart_marks:
  assumes "pool_inv p" "pc_persistent p"
  defines "q \<equiv> pool_new (pc_selection p) (pc_pool p) True (save p)"
  shows "known q = known p"
    and "pc_last_registered q = (case pc_last_registered p of Some a \<Rightarrow> if known p a then Some a else None | None \<Rightarrow> None)"
    and "known p a \<Longrightarrow> map_of (pc_marks q) a = map_option whole_seconds (map_of (pc_marks p) a)"
proof -
  let ?e = "\<lparr>pc_pool = pc_pool p, pc_selection = pc_selection p, pc_active = None, pc_last_registered = None,
           pc_marks = [], pc_persistent = True, pc_last_selected = None, pc_active_replaced = False\<rparr>"
  let ?r = "?e\<lparr>pc_last_registered := (case pc_last_registered p of Some a \<Rightarrow> if known ?e a then Some a else None | None \<Rightarrow> None)\<rparr>"
  let ?ms = "map (\<lambda>(a, m). \<lparr>pm_addr = a, pm_until_unix = to_unix (mk_until m),
        pm_mark_failures = mk_failures m, pm_cause = mk_cause m, pm_marked_at_unix = to_unix (mk_marked_at m)\<rparr>) (pc_marks p)"
  define r where "r = ?r"
  have q: "q = fold load_mark ?ms r"
    using assms(2) published_pool [OF assms(1)] by (simp add: q_def r_def pool_new_def load_def save_def)
  have r: "known r = known p" "pc_marks r = []"
    "pc_last_registered r = (case pc_last_registered p of Some a \<Rightarrow> if known p a then Some a else None | None \<Rightarrow> None)"
    by (simp_all add: r_def known_def fun_eq_iff split: option.split)
  show "known q = known p"
    "pc_last_registered q = (case pc_last_registered p of Some a \<Rightarrow> if known p a then Some a else None | None \<Rightarrow> None)"
    unfolding q fold_load_mark_frame by (rule r(1), rule r(3))
  have "distinct (map fst (pc_marks p))" "\<forall>(a, m) \<in> set (pc_marks p). mark_times_ok m"
    using assms(1) by (auto simp: pool_inv_def bt_inv_distinct mark_times_ok_def)
  then show "known p a \<Longrightarrow> map_of (pc_marks q) a = map_option whole_seconds (map_of (pc_marks p) a)"
    unfolding q by (cases "map_of (pc_marks p) a"; subst load_saved_marks) (simp_all add: r bt_inv_def)
qed

section \<open>Properties\<close>

text \<open>
  C32: Every pool the agent can reach, from any state file and by any sequence of choices, failures,
  registrations, publications and forgotten outages, is well formed: at least one address, none twice,
  the marks sorted by address, and every failure count and time within its machine type.
\<close>

theorem pcscf_pool_reachable_ok: "pool_reachable p \<Longrightarrow> pool_inv p"
  by (rule pool_reachable_inv)

definition sample_pool :: pcscf_pool where
  "sample_pool = pool_new (Ipv4 1) [Ipv4 1, Ipv6 7, Ipv4 2] True None"

lemma sample_pool_reachable: "pool_reachable sample_pool"
  unfolding sample_pool_def by (rule reach_new) simp

lemma sample_pool_eq:
  "sample_pool = \<lparr>pc_pool = [Ipv4 1, Ipv6 7, Ipv4 2], pc_selection = Ipv4 1, pc_active = None, pc_last_registered = None,
     pc_marks = [], pc_persistent = True, pc_last_selected = None, pc_active_replaced = False\<rparr>"
  by (simp add: sample_pool_def pool_new_def load_def published_def dedup_def)

theorem pcscf_pool_reachable_ok_witness: "pool_inv (snd (select sample_pool 0))"
  by (rule pcscf_pool_reachable_ok) (rule reach_step [OF sample_pool_reachable step_select])

text \<open>
  The choice for the next registration is always an advertised address. It stays with a working one.
  It is never a marked one while any advertised one is unmarked; with all of them marked it is one
  whose mark ends first.
\<close>

theorem pcscf_choice_safe:
  fixes p :: pcscf_pool and now :: system_time
  defines "a \<equiv> sl_addr (fst (select p now))"
  shows "known p a \<and>
    (\<forall>b. pc_active p = Some b \<and> known p b \<and> \<not> is_marked p b now \<longrightarrow> a = b) \<and>
    ((\<exists>b. known p b \<and> \<not> is_marked p b now) \<longrightarrow> \<not> is_marked p a now) \<and>
    ((\<forall>b. known p b \<longrightarrow> is_marked p b now) \<longrightarrow>
       (\<forall>b m m'. known p b \<and> map_of (pc_marks p) a = Some m \<and> map_of (pc_marks p) b = Some m' \<longrightarrow> mk_until m \<le> mk_until m'))"
proof -
  have a: "a = sl_addr (choose_pcscf p now)" by (simp add: a_def select_frame)
  have "a = b" if "pc_active p = Some b" "known p b" "\<not> is_marked p b now" for b
    using that by (simp add: a choose_pcscf_def)
  moreover have "\<not> is_marked p a now" if "\<exists>b. known p b \<and> \<not> is_marked p b now"
    using that choose_unmarked [of p now] by (simp add: a has_unmarked_iff)
  moreover have "mk_until m \<le> mk_until m'"
    if "\<forall>b. known p b \<longrightarrow> is_marked p b now" "known p b" "map_of (pc_marks p) a = Some m" "map_of (pc_marks p) b = Some m'" for b m m'
  proof -
    have "\<not> has_unmarked p now" using that(1) by (auto simp: has_unmarked_iff)
    from choose_soonest [OF this] that(2-4) show ?thesis by (auto simp: a dest!: spec [of _ b])
  qed
  ultimately show ?thesis using choose_known [of p now] by (auto simp: a)
qed

theorem pcscf_choice_safe_witness: "known sample_pool (sl_addr (fst (select sample_pool 5)))"
  using pcscf_choice_safe [of sample_pool 5] by blast

text \<open>
  C7: Failing over does not come back to a P-CSCF before the others have had their turn. Take any set \<open>U\<close> of advertised
  addresses that carry no mark from \<open>t0\<close> on, and a run of at most as many attempts as \<open>U\<close> has members, all within timer F of
  \<open>t0\<close> and all failing for a reason that lies with the P-CSCF. Then no address is tried twice. When the addresses outside
  \<open>U\<close> are marked for all that time (or there are none), only \<open>U\<close> is tried, and a run as long as \<open>U\<close> tries all of it.
\<close>

theorem pcscf_failover_tries_all:
  assumes "pool_reachable p" "failed_attempts fs p = Some (tried, p')"
    and "U \<subseteq> {a. known p a}" "\<forall>a t. a \<in> U \<and> t0 \<le> t \<longrightarrow> \<not> is_marked p a t"
    and "list_all (\<lambda>(now, cause). t0 \<le> now \<and> now \<le> t0 + int TIMER_F \<and> qualifying cause) fs"
    and "length fs \<le> card U"
  shows "distinct tried \<and> length tried = length fs \<and> set tried \<subseteq> {a. known p a} \<and>
    ((\<forall>a t. known p a \<and> a \<notin> U \<and> t0 \<le> t \<and> t \<le> t0 + int TIMER_F \<longrightarrow> is_marked p a t) \<longrightarrow>
       set tried \<subseteq> U \<and> (length fs = card U \<longrightarrow> set tried = U))"
proof -
  have "window_ok p t0 U {}" using pool_reachable_inv [OF assms(1)] assms(3,4) by (auto simp: window_ok_def pool_inv_def)
  from attempts_rotate [OF assms(2) this assms(5)] assms(6) have
    t: "distinct tried" "set tried \<subseteq> {a. known p a}" "length tried = length fs" "others_marked p t0 U \<longrightarrow> set tried \<subseteq> U" by auto
  moreover have "finite U" using assms(3) finite_known [of p] by (rule finite_subset)
  ultimately show ?thesis using card_subset_eq [of U "set tried"] by (auto simp: others_marked_def distinct_card)
qed

lemma sample_attempts:
  "\<exists>tried p. failed_attempts [(0, CauseTransport), (5000000000, CauseGmKeepalive), (9000000000, CauseRegisterTimeout)] sample_pool = Some (tried, p)"
  by (simp add: sample_pool_eq select_def choose_pcscf_def candidates_def dedup_def known_def is_marked_def is_ipv4_def
      on_failure_def mark_duration_def MARK_BASE_def MARK_CAP_def MARK_EXTRA_def MAX_U32_def checked_add_def MAX_SYSTEM_TIME_def
      Let_def less_ip_def less_eq_ip_def)

lemma sample_known: "{a. known sample_pool a} = {Ipv4 1, Ipv6 7, Ipv4 2}"
  by (auto simp: known_def sample_pool_eq)

theorem pcscf_failover_tries_all_witness:
  "\<exists>tried p. failed_attempts [(0, CauseTransport), (5000000000, CauseGmKeepalive), (9000000000, CauseRegisterTimeout)] sample_pool = Some (tried, p) \<and>
    set tried = {Ipv4 1, Ipv6 7, Ipv4 2}"
proof -
  obtain tried p where run:
    "failed_attempts [(0, CauseTransport), (5000000000, CauseGmKeepalive), (9000000000, CauseRegisterTimeout)] sample_pool = Some (tried, p)"
    using sample_attempts by blast
  have "\<not> is_marked sample_pool a t" "known sample_pool a \<longleftrightarrow> a \<in> {Ipv4 1, Ipv6 7, Ipv4 2}" for a t
    using sample_known by (auto simp: is_marked_def sample_pool_eq)
  with pcscf_failover_tries_all [OF sample_pool_reachable run, of "{Ipv4 1, Ipv6 7, Ipv4 2}" 0] have "set tried = {Ipv4 1, Ipv6 7, Ipv4 2}"
    by (auto simp: TIMER_F_def qualifying_def)
  with run show ?thesis by blast
qed

text \<open>
  C31: The marks outlive a restart. An agent that starts over on the same pool, from the file the previous run
  saved, knows the same last working P-CSCF, keeps every failure count, and avoids what was avoided: no
  mark grows, and none is shortened by a second or more.
\<close>

theorem pcscf_marks_survive_restart:
  assumes "pool_reachable p" "pc_persistent p" "known p a"
  defines "q \<equiv> pool_new (pc_selection p) (pc_pool p) True (save p)"
  shows "(is_marked q a now \<longrightarrow> is_marked p a now) \<and>
    (is_marked p a (now + 999999999) \<longrightarrow> is_marked q a now) \<and>
    map_option mk_failures (map_of (pc_marks q) a) = map_option mk_failures (map_of (pc_marks p) a) \<and>
    (pc_last_registered q = Some a) = (pc_last_registered p = Some a)"
proof -
  have inv: "pool_inv p" using assms(1) by (rule pool_reachable_inv)
  note re = restart_marks [OF inv assms(2), folded q_def]
  have m: "map_of (pc_marks q) a = map_option whole_seconds (map_of (pc_marks p) a)" using re(3) assms(3) by blast
  have "0 \<le> mk_until m" if "map_of (pc_marks p) a = Some m" for m
    using inv map_of_SomeD [OF that] by (auto simp: pool_inv_def)
  then have "mk_until (whole_seconds m) \<le> mk_until m \<and> mk_until m < mk_until (whole_seconds m) + 1000000000"
    if "map_of (pc_marks p) a = Some m" for m
    using that to_unix_le [of "mk_until m"] by (simp add: whole_seconds_def)
  moreover have "(pc_last_registered q = Some a) = (pc_last_registered p = Some a)"
    using re(2) assms(3) by (auto split: option.splits if_splits)
  ultimately show ?thesis
    by (cases "map_of (pc_marks p) a") (force simp: is_marked_def m, simp add: is_marked_def m whole_seconds_def)
qed

theorem pcscf_marks_survive_restart_witness:
  "\<exists>p. is_marked p (Ipv4 1) 0 \<and> is_marked (pool_new (pc_selection p) (pc_pool p) True (save p)) (Ipv4 1) 0"
proof -
  let ?p = "snd (select sample_pool 0)"
  have sel: "?p = sample_pool\<lparr>pc_active := Some (Ipv4 1), pc_last_selected := Some (Ipv4 1)\<rparr>"
    by (simp add: sample_pool_eq select_def choose_pcscf_def candidates_def dedup_def known_def is_marked_def is_ipv4_def)
  obtain m p written where fail: "on_failure ?p (Ipv4 1) CauseTransport 0 = Some (m, p, written)"
    unfolding sel
    by (simp add: sample_pool_eq on_failure_def Let_def mark_duration_def MARK_BASE_def MARK_CAP_def MARK_EXTRA_def MAX_U32_def
        checked_add_def MAX_SYSTEM_TIME_def)
  have reach: "pool_reachable p"
    by (rule reach_step [OF reach_step [OF sample_pool_reachable step_select] step_failure [OF _ _ fail]])
      (simp_all add: MAX_SYSTEM_TIME_def)
  from on_failure_active [OF fail] obtain m' where
    p: "p = ?p\<lparr>pc_marks := bt_insert (Ipv4 1) m' (pc_marks ?p)\<rparr>" "int TIMER_F < mk_until m'"
    unfolding sel by (auto simp: qualifying_def)
  then have "is_marked p (Ipv4 1) (0 + 999999999)" "is_marked p (Ipv4 1) 0" "known p (Ipv4 1)" "pc_persistent p"
    unfolding sel by (simp_all add: is_marked_def sample_pool_eq TIMER_F_def known_def)
  then show ?thesis using pcscf_marks_survive_restart [OF reach, of "Ipv4 1" 0] by blast
qed

end
