(* ===== verification/Sdp.thy ===== *)
theory Sdp
  imports Amr_Params Rust_Net Rust_Collections
begin

text \<open>
  SDP offers and answers (\<^verbatim>\<open>ims/sdp.rs\<close>): building an offer, reading an offer and an answer, choosing the
  codec to answer with, the QoS preconditions of an offer, and the answer itself. The main results are
  that an answer reads back as what it was built from, and that both ends of a call agree on the codec.
\<close>

section \<open>Codecs\<close>

definition RTCP_SR_BANDWIDTH_BPS :: nat where
  "RTCP_SR_BANDWIDTH_BPS = 800"

definition RTCP_RR_BANDWIDTH_BPS :: nat where
  "RTCP_RR_BANDWIDTH_BPS = 2400"

definition PCMU_PAYLOAD_TYPE :: u8 where
  "PCMU_PAYLOAD_TYPE = 0"

definition AMR_WB_PAYLOAD_TYPE :: u8 where
  "AMR_WB_PAYLOAD_TYPE = 96"

datatype negotiated_codec = Pcmu | AmrNb | AmrWb | L16

definition sample_rate :: "negotiated_codec \<Rightarrow> u32" where
  "sample_rate c = (case c of Pcmu \<Rightarrow> 8000 | AmrNb \<Rightarrow> 8000 | AmrWb \<Rightarrow> 16000 | L16 \<Rightarrow> 16000)"

definition frame_samples :: "negotiated_codec \<Rightarrow> nat" where
  "frame_samples c = unat (sample_rate c) div 50"

definition codec_name :: "negotiated_codec \<Rightarrow> text_string" where
  "codec_name c = (case c of Pcmu \<Rightarrow> lit ''PCMU'' | AmrNb \<Rightarrow> lit ''AMR'' | AmrWb \<Rightarrow> lit ''AMR-WB'' | L16 \<Rightarrow> lit ''L16'')"

record chosen_codec =
  cc_codec :: negotiated_codec
  cc_payload_type :: u8
  cc_octet_aligned :: bool
  cc_dtmf_payload_type :: "u8 option"

definition ip_addrtype :: "ip \<Rightarrow> text_string" where
  "ip_addrtype a = (if is_ipv4 a then lit ''IP4'' else lit ''IP6'')"

section \<open>Building an offer\<close>

datatype codec_offer = PcmuOnly | PcmuThenWideband | WidebandThenPcmu

definition preferring_wideband :: "bool \<Rightarrow> codec_offer" where
  "preferring_wideband wideband_available = (if wideband_available then WidebandThenPcmu else PcmuOnly)"

definition legacy_offer :: "bool \<Rightarrow> codec_offer" where
  "legacy_offer wideband_available = (if wideband_available then PcmuThenWideband else PcmuOnly)"

definition show_u8 :: "u8 \<Rightarrow> text_string" where
  "show_u8 b = show_nat (unat b)"

definition show_u16 :: "u16 \<Rightarrow> text_string" where
  "show_u16 w = show_nat (unat w)"

definition show_u32 :: "u32 \<Rightarrow> text_string" where
  "show_u32 w = show_nat (unat w)"

definition build_offer :: "ip \<Rightarrow> u16 \<Rightarrow> u64 \<Rightarrow> codec_offer \<Rightarrow> text_string" where
  "build_offer local_ip rtp_port session_id offer =
     (let addrtype = ip_addrtype local_ip;
          payload_types = (case offer of
             PcmuOnly \<Rightarrow> show_u8 PCMU_PAYLOAD_TYPE
           | PcmuThenWideband \<Rightarrow> show_u8 PCMU_PAYLOAD_TYPE @ lit '' '' @ show_u8 AMR_WB_PAYLOAD_TYPE
           | WidebandThenPcmu \<Rightarrow> show_u8 AMR_WB_PAYLOAD_TYPE @ lit '' '' @ show_u8 PCMU_PAYLOAD_TYPE);
          sid = show_nat (unat session_id);
          sdp = crlf (lit ''v=0'') @
                crlf (lit ''o=- '' @ sid @ lit '' '' @ sid @ lit '' IN '' @ addrtype @ lit '' '' @ show_ip local_ip) @
                crlf (lit ''s=gsm-sip-bridge test call'') @
                crlf (lit ''c=IN '' @ addrtype @ lit '' '' @ show_ip local_ip) @
                crlf (lit ''t=0 0'') @
                crlf (lit ''m=audio '' @ show_u16 rtp_port @ lit '' RTP/AVP '' @ payload_types);
          wideband_rtpmap = crlf (lit ''a=rtpmap:'' @ show_u8 AMR_WB_PAYLOAD_TYPE @ lit '' AMR-WB/16000'') @
                            crlf (lit ''a=fmtp:'' @ show_u8 AMR_WB_PAYLOAD_TYPE @ lit '' octet-align=1'');
          pcmu_rtpmap = crlf (lit ''a=rtpmap:'' @ show_u8 PCMU_PAYLOAD_TYPE @ lit '' PCMU/8000'')
      in sdp @
         (case offer of
            PcmuOnly \<Rightarrow> pcmu_rtpmap
          | PcmuThenWideband \<Rightarrow> pcmu_rtpmap @ wideband_rtpmap
          | WidebandThenPcmu \<Rightarrow> wideband_rtpmap @ pcmu_rtpmap) @
         crlf (lit ''a=sendrecv''))"

section \<open>Reading an answer\<close>

datatype sdp_error =
    MissingConnection | MissingAudioPort | MissingPayloadType | UnofferedPayloadType u8 | NoPayloadTypes | NoUsableCodec | NoVethCodec

definition parse_u8 :: "text_string \<Rightarrow> u8 option" where
  "parse_u8 s = map_option word_of_nat (parse_uint 255 s)"

definition parse_u16 :: "text_string \<Rightarrow> u16 option" where
  "parse_u16 s = map_option word_of_nat (parse_uint 65535 s)"

definition parse_u32 :: "text_string \<Rightarrow> u32 option" where
  "parse_u32 s = map_option word_of_nat (parse_uint 4294967295 s)"

record sdp_answer =
  an_remote_rtp :: "ip \<times> u16"
  an_codec :: negotiated_codec

text \<open>The loop state of \<open>parse_answer\<close>: connection address, port, payload type.\<close>

type_synonym answer_acc = "ip option \<times> u16 option \<times> u8 option"

definition answer_line :: "text_string \<Rightarrow> answer_acc \<Rightarrow> answer_acc" where
  "answer_line raw acc =
     (case acc of
        (conn_ip, rtp_port, payload_type) \<Rightarrow>
          let line = trim raw
          in case strip_prefix line (lit ''c=IN '') of
               Some rest \<Rightarrow>
                 (case get_at (split_whitespace rest) 1 of
                    Some a \<Rightarrow> (case parse_ip a of Some addr \<Rightarrow> (Some addr, rtp_port, payload_type) | None \<Rightarrow> acc)
                  | None \<Rightarrow> acc)
             | None \<Rightarrow>
                 (case strip_prefix line (lit ''m=audio '') of
                    Some rest \<Rightarrow>
                      let tokens = split_whitespace rest
                      in (conn_ip, Option.bind (get_at tokens 0) parse_u16, Option.bind (get_at tokens 2) parse_u8)
                  | None \<Rightarrow> acc))"

definition parse_answer :: "text_string \<Rightarrow> sdp_error + sdp_answer" where
  "parse_answer body =
     (case fold answer_line (str_lines body) (None, None, None) of
        (conn_ip, rtp_port, payload_type) \<Rightarrow>
          and_then (ok_or conn_ip MissingConnection) (\<lambda>conn_ip.
          and_then (ok_or rtp_port MissingAudioPort) (\<lambda>rtp_port.
          and_then (ok_or payload_type MissingPayloadType) (\<lambda>payload_type.
            if payload_type = PCMU_PAYLOAD_TYPE then Inr \<lparr>an_remote_rtp = (conn_ip, rtp_port), an_codec = Pcmu\<rparr>
            else if payload_type = AMR_WB_PAYLOAD_TYPE then Inr \<lparr>an_remote_rtp = (conn_ip, rtp_port), an_codec = AmrWb\<rparr>
            else Inl (UnofferedPayloadType payload_type)))))"

definition offered_chosen_codec :: "negotiated_codec \<Rightarrow> chosen_codec option" where
  "offered_chosen_codec negotiated =
     (case negotiated of
        Pcmu \<Rightarrow> Some \<lparr>cc_codec = Pcmu, cc_payload_type = PCMU_PAYLOAD_TYPE, cc_octet_aligned = False, cc_dtmf_payload_type = None\<rparr>
      | AmrWb \<Rightarrow> Some \<lparr>cc_codec = AmrWb, cc_payload_type = AMR_WB_PAYLOAD_TYPE, cc_octet_aligned = True, cc_dtmf_payload_type = None\<rparr>
      | AmrNb \<Rightarrow> None
      | L16 \<Rightarrow> None)"

section \<open>Reading an offer\<close>

record offered_codec =
  oc_payload_type :: u8
  oc_codec :: negotiated_codec
  oc_fmtp :: text_string

definition is_octet_aligned :: "offered_codec \<Rightarrow> bool" where
  "is_octet_aligned o' =
     list_ex (\<lambda>p. filter (\<lambda>c. c \<noteq> 32) (trim p) = lit ''octet-align=1'') (split_on 59 (oc_fmtp o'))"

datatype media_direction = SendRecv | SendOnly | RecvOnly | Inactive

record declined_media =
  dm_kind :: text_string
  dm_proto :: text_string
  dm_fmts :: text_string
  dm_before_audio :: bool

datatype qos_status_type = E2e | Local | Remote

datatype qos_strength = QsMandatory | QsOptional | QsNone | QsFailure | QsUnknown

datatype qos_direction = QdNone | QdSend | QdRecv | QdSendRecv

record qos_desired =
  qd_strength :: qos_strength
  qd_status_type :: qos_status_type
  qd_direction :: qos_direction

record qos_status =
  qs_status_type :: qos_status_type
  qs_met :: qos_direction

record sdp_offer =
  of_remote_rtp :: "ip \<times> u16"
  of_offered :: "offered_codec list"
  of_dtmf :: "(u8 \<times> u32) list"
  of_maxptime :: "u32 option"
  of_direction :: media_direction
  of_proto :: text_string
  of_other_media :: "declined_media list"
  of_rtcp :: "u16 option"
  of_preconditions :: "qos_desired list"
  of_offerer_curr :: "qos_status list"

definition parse_qos_status_type :: "text_string \<Rightarrow> qos_status_type option" where
  "parse_qos_status_type token =
     (if token = lit ''e2e'' then Some E2e else if token = lit ''local'' then Some Local
      else if token = lit ''remote'' then Some Remote else None)"

definition parse_qos_strength :: "text_string \<Rightarrow> qos_strength" where
  "parse_qos_strength token =
     (if token = lit ''mandatory'' then QsMandatory else if token = lit ''optional'' then QsOptional
      else if token = lit ''none'' then QsNone else if token = lit ''failure'' then QsFailure else QsUnknown)"

definition parse_qos_direction :: "text_string \<Rightarrow> qos_direction option" where
  "parse_qos_direction token =
     (if token = lit ''none'' then Some QdNone else if token = lit ''send'' then Some QdSend
      else if token = lit ''recv'' then Some QdRecv else if token = lit ''sendrecv'' then Some QdSendRecv else None)"

text \<open>The variables of the loop of \<open>parse_offer\<close>.\<close>

record offer_acc =
  oa_conn_ip :: "ip option"
  oa_rtp_port :: "u16 option"
  oa_listed_pts :: "u8 list"
  oa_rtpmap :: "(u8, text_string \<times> u32) hash_map"
  oa_fmtp :: "(u8, text_string) hash_map"
  oa_maxptime :: "u32 option"
  oa_proto :: text_string
  oa_rtcp_port :: "u16 option"
  oa_session_direction :: media_direction
  oa_audio_direction :: "media_direction option"
  oa_other_media :: "declined_media list"
  oa_preconditions :: "qos_desired list"
  oa_offerer_curr :: "qos_status list"
  oa_in_audio :: bool
  oa_audio_seen :: bool
  oa_seen_media :: bool

definition offer_acc_init :: offer_acc where
  "offer_acc_init =
     \<lparr>oa_conn_ip = None, oa_rtp_port = None, oa_listed_pts = [], oa_rtpmap = [], oa_fmtp = [], oa_maxptime = None, oa_proto = [],
      oa_rtcp_port = None, oa_session_direction = SendRecv, oa_audio_direction = None, oa_other_media = [], oa_preconditions = [],
      oa_offerer_curr = [], oa_in_audio = False, oa_audio_seen = False, oa_seen_media = False\<rparr>"

definition word_at :: "text_string list \<Rightarrow> nat \<Rightarrow> text_string" where
  "word_at tokens i = (case get_at tokens i of Some w \<Rightarrow> w | None \<Rightarrow> [])"

definition media_line :: "text_string \<Rightarrow> offer_acc \<Rightarrow> offer_acc" where
  "media_line rest acc =
     (let acc = acc\<lparr>oa_seen_media := True\<rparr>
      in if \<not> oa_audio_seen acc \<and> starts_with rest (lit ''audio '') then
           (let tokens = split_whitespace (drop 6 rest)
            in acc\<lparr>oa_in_audio := True, oa_audio_seen := True, oa_rtp_port := Option.bind (get_at tokens 0) parse_u16,
                   oa_proto := word_at tokens 1, oa_listed_pts := List.map_filter parse_u8 (drop 2 tokens)\<rparr>)
         else
           (let tokens = split_whitespace rest
            in acc\<lparr>oa_in_audio := False,
                   oa_other_media := oa_other_media acc @
                     [\<lparr>dm_kind = word_at tokens 0, dm_proto = word_at tokens 2, dm_fmts = join_with 32 (drop 3 tokens),
                       dm_before_audio = (\<not> oa_audio_seen acc)\<rparr>]\<rparr>))"

definition connection_line :: "text_string \<Rightarrow> offer_acc \<Rightarrow> offer_acc" where
  "connection_line rest acc =
     (if oa_in_audio acc \<or> \<not> oa_seen_media acc then
        (case get_at (split_whitespace rest) 1 of
           Some addr_str \<Rightarrow> acc\<lparr>oa_conn_ip := parse_ip addr_str\<rparr>
         | None \<Rightarrow> acc)
      else acc)"

definition direction_attribute :: "text_string \<Rightarrow> media_direction option" where
  "direction_attribute line =
     (if line = lit ''a=sendonly'' then Some SendOnly else if line = lit ''a=recvonly'' then Some RecvOnly
      else if line = lit ''a=inactive'' then Some Inactive else if line = lit ''a=sendrecv'' then Some SendRecv else None)"

definition direction_line :: "media_direction \<Rightarrow> offer_acc \<Rightarrow> offer_acc" where
  "direction_line dir acc =
     (if oa_in_audio acc then acc\<lparr>oa_audio_direction := Some dir\<rparr>
      else if \<not> oa_seen_media acc then acc\<lparr>oa_session_direction := dir\<rparr>
      else acc)"

definition rtpmap_line :: "text_string \<Rightarrow> offer_acc \<Rightarrow> offer_acc" where
  "rtpmap_line rest acc =
     (case split_once 32 rest of
        None \<Rightarrow> acc
      | Some (p, name_rate) \<Rightarrow>
          (case parse_u8 p of
             None \<Rightarrow> acc
           | Some pt \<Rightarrow>
               (case split_once 47 name_rate of
                  None \<Rightarrow> acc
                | Some (name, rate_str) \<Rightarrow>
                    (case parse_u32 (hd (split_on 47 rate_str)) of
                       None \<Rightarrow> acc
                     | Some rate \<Rightarrow> acc\<lparr>oa_rtpmap := hm_insert pt (to_ascii_uppercase name, rate) (oa_rtpmap acc)\<rparr>))))"

definition fmtp_line :: "text_string \<Rightarrow> offer_acc \<Rightarrow> offer_acc" where
  "fmtp_line rest acc =
     (case split_once 32 rest of
        None \<Rightarrow> acc
      | Some (p, params) \<Rightarrow>
          (case parse_u8 p of
             None \<Rightarrow> acc
           | Some pt \<Rightarrow> acc\<lparr>oa_fmtp := hm_insert pt (trim params) (oa_fmtp acc)\<rparr>))"

definition rtcp_line :: "text_string \<Rightarrow> offer_acc \<Rightarrow> offer_acc" where
  "rtcp_line rest acc =
     acc\<lparr>oa_rtcp_port :=
       (case Option.bind (get_at (split_whitespace rest) 0) parse_u16 of
          Some p \<Rightarrow> if p \<noteq> 0 then Some p else None
        | None \<Rightarrow> None)\<rparr>"

definition desired_line :: "text_string \<Rightarrow> offer_acc \<Rightarrow> offer_acc" where
  "desired_line rest acc =
     (case split_whitespace rest of
        strength # status_type # direction # _ \<Rightarrow>
          (case (parse_qos_status_type status_type, parse_qos_direction direction) of
             (Some status_type, Some direction) \<Rightarrow>
               acc\<lparr>oa_preconditions := oa_preconditions acc @
                 [\<lparr>qd_strength = parse_qos_strength strength, qd_status_type = status_type, qd_direction = direction\<rparr>]\<rparr>
           | _ \<Rightarrow> acc)
      | _ \<Rightarrow> acc)"

definition current_line :: "text_string \<Rightarrow> offer_acc \<Rightarrow> offer_acc" where
  "current_line rest acc =
     (case split_whitespace rest of
        status_type # met # _ \<Rightarrow>
          (case (parse_qos_status_type status_type, parse_qos_direction met) of
             (Some status_type, Some met) \<Rightarrow>
               acc\<lparr>oa_offerer_curr := oa_offerer_curr acc @ [\<lparr>qs_status_type = status_type, qs_met = met\<rparr>]\<rparr>
           | _ \<Rightarrow> acc)
      | _ \<Rightarrow> acc)"

text \<open>The attributes of the audio section.\<close>

definition audio_attribute :: "text_string \<Rightarrow> offer_acc \<Rightarrow> offer_acc" where
  "audio_attribute line acc =
     (case strip_prefix line (lit ''a=rtpmap:'') of Some rest \<Rightarrow> rtpmap_line rest acc
      | None \<Rightarrow>
     (case strip_prefix line (lit ''a=maxptime:'') of Some rest \<Rightarrow> acc\<lparr>oa_maxptime := parse_u32 (trim rest)\<rparr>
      | None \<Rightarrow>
     (case strip_prefix line (lit ''a=rtcp:'') of Some rest \<Rightarrow> rtcp_line rest acc
      | None \<Rightarrow>
     (case strip_prefix line (lit ''a=fmtp:'') of Some rest \<Rightarrow> fmtp_line rest acc
      | None \<Rightarrow>
     (case strip_prefix line (lit ''a=des:qos '') of Some rest \<Rightarrow> desired_line rest acc
      | None \<Rightarrow>
     (case strip_prefix line (lit ''a=curr:qos '') of Some rest \<Rightarrow> current_line rest acc
      | None \<Rightarrow> acc))))))"

definition offer_line :: "text_string \<Rightarrow> offer_acc \<Rightarrow> offer_acc" where
  "offer_line raw acc =
     (let line = trim raw
      in case strip_prefix line (lit ''m='') of Some rest \<Rightarrow> media_line rest acc
         | None \<Rightarrow>
        (case strip_prefix line (lit ''c=IN '') of Some rest \<Rightarrow> connection_line rest acc
         | None \<Rightarrow>
        (case direction_attribute line of Some dir \<Rightarrow> direction_line dir acc
         | None \<Rightarrow>
           if \<not> oa_in_audio acc then acc else audio_attribute line acc)))"

definition codec_of :: "offer_acc \<Rightarrow> u8 \<Rightarrow> negotiated_codec option" where
  "codec_of acc pt =
     (if pt = PCMU_PAYLOAD_TYPE then Some Pcmu
      else
        (case map_of (oa_rtpmap acc) pt of
           None \<Rightarrow> None
         | Some (name, rate) \<Rightarrow>
             if name = lit ''PCMU'' \<and> rate = 8000 then Some Pcmu
             else if name = lit ''AMR'' \<and> rate = 8000 then Some AmrNb
             else if name = lit ''AMR-WB'' \<and> rate = 16000 then Some AmrWb
             else if name = lit ''L16'' \<and> rate = 16000 then Some L16
             else None))"

definition dtmf_of :: "offer_acc \<Rightarrow> u8 \<Rightarrow> (u8 \<times> u32) option" where
  "dtmf_of acc pt =
     (case map_of (oa_rtpmap acc) pt of
        Some (name, rate) \<Rightarrow> if name = lit ''TELEPHONE-EVENT'' then Some (pt, rate) else None
      | None \<Rightarrow> None)"

definition offered_of :: "offer_acc \<Rightarrow> u8 \<Rightarrow> offered_codec option" where
  "offered_of acc pt =
     map_option (\<lambda>codec. \<lparr>oc_payload_type = pt, oc_codec = codec,
         oc_fmtp = (case map_of (oa_fmtp acc) pt of Some f \<Rightarrow> f | None \<Rightarrow> [])\<rparr>) (codec_of acc pt)"

definition finish_offer :: "offer_acc \<Rightarrow> sdp_error + sdp_offer" where
  "finish_offer acc =
     (let direction = (case oa_audio_direction acc of Some d \<Rightarrow> d | None \<Rightarrow> oa_session_direction acc)
      in and_then (ok_or (oa_conn_ip acc) MissingConnection) (\<lambda>conn_ip.
         and_then (ok_or (oa_rtp_port acc) MissingAudioPort) (\<lambda>rtp_port.
           if oa_listed_pts acc = [] then Inl NoPayloadTypes
           else
             Inr \<lparr>of_remote_rtp = (conn_ip, rtp_port), of_offered = List.map_filter (offered_of acc) (oa_listed_pts acc),
                  of_dtmf = List.map_filter (dtmf_of acc) (oa_listed_pts acc), of_maxptime = oa_maxptime acc,
                  of_direction = direction, of_proto = oa_proto acc, of_other_media = oa_other_media acc,
                  of_rtcp = oa_rtcp_port acc, of_preconditions = oa_preconditions acc, of_offerer_curr = oa_offerer_curr acc\<rparr>)))"

definition parse_offer :: "text_string \<Rightarrow> sdp_error + sdp_offer" where
  "parse_offer body = finish_offer (fold offer_line (str_lines body) offer_acc_init)"

section \<open>Preconditions\<close>

record qos_answer_line =
  qa_status_type :: qos_status_type
  qa_met :: qos_direction

datatype precondition_outcome = Proceed "qos_answer_line list" "qos_desired list" | Decline

definition invert_qos_direction :: "qos_direction \<Rightarrow> qos_direction" where
  "invert_qos_direction d = (case d of QdSend \<Rightarrow> QdRecv | QdRecv \<Rightarrow> QdSend | QdSendRecv \<Rightarrow> QdSendRecv | QdNone \<Rightarrow> QdNone)"

definition invert_qos_status_type :: "qos_status_type \<Rightarrow> qos_status_type" where
  "invert_qos_status_type s = (case s of Local \<Rightarrow> Remote | Remote \<Rightarrow> Local | E2e \<Rightarrow> E2e)"

definition offerer_e2e :: "sdp_offer \<Rightarrow> qos_direction" where
  "offerer_e2e offer =
     (let of_type = (\<lambda>st. find (\<lambda>s. qs_status_type s = st) (of_offerer_curr offer))
      in case (case of_type E2e of Some s \<Rightarrow> Some s | None \<Rightarrow> of_type Local) of
           Some s \<Rightarrow> invert_qos_direction (qs_met s)
         | None \<Rightarrow> QdNone)"

text \<open>The loop over the desired lines; \<open>None\<close> is the early decline.\<close>

fun current_lines :: "qos_direction \<Rightarrow> qos_desired list \<Rightarrow> qos_answer_line list option" where
  "current_lines e2e [] = Some []"
| "current_lines e2e (line # lines) =
     (case qd_status_type line of
        Remote \<Rightarrow>
          map_option (\<lambda>r. \<lparr>qa_status_type = Local, qa_met = invert_qos_direction (qd_direction line)\<rparr> # r) (current_lines e2e lines)
      | E2e \<Rightarrow>
          if qd_strength line = QsMandatory then None
          else map_option (\<lambda>r. \<lparr>qa_status_type = E2e, qa_met = e2e\<rparr> # r) (current_lines e2e lines)
      | Local \<Rightarrow> current_lines e2e lines)"

definition precondition_verdict :: "sdp_offer \<Rightarrow> precondition_outcome" where
  "precondition_verdict offer =
     (case current_lines (offerer_e2e offer) (of_preconditions offer) of
        None \<Rightarrow> Decline
      | Some current \<Rightarrow>
          Proceed
            (current @ map (\<lambda>s. \<lparr>qa_status_type = Remote, qa_met = invert_qos_direction (qs_met s)\<rparr>)
               (filter (\<lambda>s. qs_status_type s = Local) (of_offerer_curr offer)))
            (map (\<lambda>line. \<lparr>qd_strength = qd_strength line, qd_status_type = invert_qos_status_type (qd_status_type line),
                           qd_direction = invert_qos_direction (qd_direction line)\<rparr>) (of_preconditions offer)))"

definition qos_shortfall :: "qos_direction \<Rightarrow> qos_direction \<Rightarrow> qos_direction" where
  "qos_shortfall desired met =
     (let has = (\<lambda>d half. d = half \<or> d = QdSendRecv);
          send = (has desired QdSend \<and> \<not> has met QdSend);
          recv = (has desired QdRecv \<and> \<not> has met QdRecv)
      in if send \<and> recv then QdSendRecv else if send then QdSend else if recv then QdRecv else QdNone)"

definition offerer_unmet_mandatory :: "sdp_offer \<Rightarrow> (qos_status_type \<times> qos_direction) list" where
  "offerer_unmet_mandatory offer =
     (let met = (case find (\<lambda>s. qs_status_type s = Local) (of_offerer_curr offer) of Some s \<Rightarrow> qs_met s | None \<Rightarrow> QdNone)
      in map (\<lambda>missing. (Local, missing))
           (filter (\<lambda>missing. missing \<noteq> QdNone)
             (map (\<lambda>d. qos_shortfall (qd_direction d) met)
               (filter (\<lambda>d. qd_strength d = QsMandatory \<and> qd_status_type d = Local) (of_preconditions offer)))))"

definition qos_status_type_token :: "qos_status_type \<Rightarrow> text_string" where
  "qos_status_type_token s = (case s of E2e \<Rightarrow> lit ''e2e'' | Local \<Rightarrow> lit ''local'' | Remote \<Rightarrow> lit ''remote'')"

definition qos_direction_token :: "qos_direction \<Rightarrow> text_string" where
  "qos_direction_token d =
     (case d of QdNone \<Rightarrow> lit ''none'' | QdSend \<Rightarrow> lit ''send'' | QdRecv \<Rightarrow> lit ''recv'' | QdSendRecv \<Rightarrow> lit ''sendrecv'')"

definition qos_strength_token :: "qos_strength \<Rightarrow> text_string option" where
  "qos_strength_token s =
     (case s of QsMandatory \<Rightarrow> Some (lit ''mandatory'') | QsOptional \<Rightarrow> Some (lit ''optional'') | QsNone \<Rightarrow> Some (lit ''none'')
      | QsFailure \<Rightarrow> Some (lit ''failure'') | QsUnknown \<Rightarrow> None)"

section \<open>Choosing a codec\<close>

datatype answer_preference = Legacy | Cellular

definition pick_offered :: "sdp_offer \<Rightarrow> negotiated_codec \<Rightarrow> offered_codec option" where
  "pick_offered offer codec =
     (let of_codec = filter (\<lambda>c. oc_codec c = codec) (of_offered offer)
      in case find is_octet_aligned of_codec of Some c \<Rightarrow> Some c | None \<Rightarrow> get_at of_codec 0)"

definition or_else :: "'a option \<Rightarrow> 'a option \<Rightarrow> 'a option" where
  "or_else a b = (case a of Some x \<Rightarrow> Some x | None \<Rightarrow> b)"

definition select_codec_with :: "sdp_offer \<Rightarrow> bool \<Rightarrow> bool \<Rightarrow> answer_preference \<Rightarrow> offered_codec option" where
  "select_codec_with offer amr_available wideband preference =
     (let pick = (\<lambda>codec. if \<not> amr_available \<and> codec \<noteq> Pcmu then None else pick_offered offer codec)
      in if wideband \<and> amr_available then
           (case preference of
              Legacy \<Rightarrow> or_else (or_else (pick AmrWb) (pick Pcmu)) (pick AmrNb)
            | Cellular \<Rightarrow> or_else (or_else (pick AmrWb) (pick AmrNb)) (pick Pcmu))
         else or_else (or_else (pick Pcmu) (pick AmrWb)) (pick AmrNb))"

definition select_codec :: "sdp_offer \<Rightarrow> bool \<Rightarrow> bool \<Rightarrow> offered_codec option" where
  "select_codec offer amr_available wideband = select_codec_with offer amr_available wideband Legacy"

definition select_veth_codec :: "sdp_offer \<Rightarrow> bool \<Rightarrow> offered_codec option" where
  "select_veth_codec offer wideband =
     (case (if wideband then pick_offered offer L16 else None) of
        Some l16 \<Rightarrow> Some l16
      | None \<Rightarrow> pick_offered offer Pcmu)"

definition amr_leg_params_of :: "sdp_offer \<Rightarrow> chosen_codec \<Rightarrow> amr_leg_params option" where
  "amr_leg_params_of offer chosen =
     (case (case cc_codec chosen of AmrNb \<Rightarrow> Some Nb | AmrWb \<Rightarrow> Some Wb | Pcmu \<Rightarrow> None | L16 \<Rightarrow> None) of
        None \<Rightarrow> None
      | Some flavour \<Rightarrow>
          (case find (\<lambda>o'. oc_payload_type o' = cc_payload_type chosen) (of_offered offer) of
             None \<Rightarrow> None
           | Some offered \<Rightarrow>
               (case from_sdp \<lparr>sl_flavour = flavour, sl_fmtp = oc_fmtp offered, sl_payload_type = cc_payload_type chosen,
                               sl_dtmf_payload_type = cc_dtmf_payload_type chosen, sl_ptime_ms = None,
                               sl_maxptime_ms = of_maxptime offer\<rparr> of
                  Inr params \<Rightarrow> Some params
                | Inl _ \<Rightarrow> None)))"

section \<open>The answer\<close>

definition dtmf_pick :: "negotiated_codec \<Rightarrow> (u8 \<times> u32) list \<Rightarrow> (u8 \<times> u32) option" where
  "dtmf_pick codec dtmf =
     (let chosen_rate = (case codec of AmrWb \<Rightarrow> 16000 | L16 \<Rightarrow> 16000 | AmrNb \<Rightarrow> 8000 | Pcmu \<Rightarrow> 8000)
      in or_else (find (\<lambda>(_, rate). rate = chosen_rate) dtmf) (get_at dtmf 0))"

definition declined_line :: "declined_media \<Rightarrow> text_string" where
  "declined_line dm =
     (if dm_fmts dm = [] then lit ''m='' @ dm_kind dm @ lit '' 0 '' @ dm_proto dm
      else lit ''m='' @ dm_kind dm @ lit '' 0 '' @ dm_proto dm @ lit '' '' @ dm_fmts dm)"

definition as_kbps :: "negotiated_codec \<Rightarrow> nat" where
  "as_kbps codec = (case codec of AmrNb \<Rightarrow> 41 | AmrWb \<Rightarrow> 49 | Pcmu \<Rightarrow> 80 | L16 \<Rightarrow> 280)"

definition codec_lines :: "offered_codec \<Rightarrow> text_string" where
  "codec_lines chosen =
     (let pt = show_u8 (oc_payload_type chosen)
      in case oc_codec chosen of
           Pcmu \<Rightarrow> crlf (lit ''a=rtpmap:'' @ pt @ lit '' PCMU/8000'')
         | L16 \<Rightarrow> crlf (lit ''a=rtpmap:'' @ pt @ lit '' L16/16000'')
         | AmrNb \<Rightarrow> crlf (lit ''a=rtpmap:'' @ pt @ lit '' AMR/8000'') @ crlf (lit ''a=fmtp:'' @ pt @ lit '' '' @ oc_fmtp chosen)
         | AmrWb \<Rightarrow> crlf (lit ''a=rtpmap:'' @ pt @ lit '' AMR-WB/16000'') @ crlf (lit ''a=fmtp:'' @ pt @ lit '' '' @ oc_fmtp chosen))"

definition mirrored :: "media_direction \<Rightarrow> text_string" where
  "mirrored d =
     (case d of SendOnly \<Rightarrow> lit ''a=recvonly'' | RecvOnly \<Rightarrow> lit ''a=sendonly'' | Inactive \<Rightarrow> lit ''a=inactive''
      | SendRecv \<Rightarrow> lit ''a=sendrecv'')"

definition qos_lines :: "sdp_offer \<Rightarrow> text_string" where
  "qos_lines offer =
     (case precondition_verdict offer of
        Decline \<Rightarrow> []
      | Proceed current desired \<Rightarrow>
          concat (map (\<lambda>line. crlf (lit ''a=curr:qos '' @ qos_status_type_token (qa_status_type line) @ lit '' '' @
                                    qos_direction_token (qa_met line))) current) @
          concat (map (\<lambda>line. case qos_strength_token (qd_strength line) of
                                Some strength \<Rightarrow>
                                  crlf (lit ''a=des:qos '' @ strength @ lit '' '' @ qos_status_type_token (qd_status_type line) @
                                        lit '' '' @ qos_direction_token (qd_direction line))
                              | None \<Rightarrow> []) desired))"

definition build_answer_for ::
  "ip \<Rightarrow> u16 \<Rightarrow> u64 \<Rightarrow> offered_codec \<Rightarrow> sdp_offer \<Rightarrow> u16 option \<Rightarrow> text_string \<times> chosen_codec" where
  "build_answer_for local_ip rtp_port session_id chosen offer declared_rtcp_port =
     (let addrtype = ip_addrtype local_ip;
          pt = show_u8 (oc_payload_type chosen);
          sid = show_nat (unat session_id);
          pick = dtmf_pick (oc_codec chosen) (of_dtmf offer);
          (dtmf_pts, dtmf_lines) =
            (case pick of
               Some (dpt, drate) \<Rightarrow>
                 (lit '' '' @ show_u8 dpt,
                  crlf (lit ''a=rtpmap:'' @ show_u8 dpt @ lit '' telephone-event/'' @ show_u32 drate) @
                  crlf (lit ''a=fmtp:'' @ show_u8 dpt @ lit '' 0-15''))
             | None \<Rightarrow> ([], []));
          maxptime_line = (case of_maxptime offer of Some mp \<Rightarrow> crlf (lit ''a=maxptime:'' @ show_u32 mp) | None \<Rightarrow> []);
          before_lines = concat (map (\<lambda>dm. crlf (declined_line dm)) (filter dm_before_audio (of_other_media offer)));
          after_lines = concat (map (\<lambda>dm. crlf (declined_line dm)) (filter (\<lambda>dm. \<not> dm_before_audio dm) (of_other_media offer)));
          rtcp = (case declared_rtcp_port of Some port \<Rightarrow> crlf (lit ''a=rtcp:'' @ show_u16 port) | None \<Rightarrow> [])
      in (crlf (lit ''v=0'') @
          crlf (lit ''o=- '' @ sid @ lit '' '' @ sid @ lit '' IN '' @ addrtype @ lit '' '' @ show_ip local_ip) @
          crlf (lit ''s=gsm-sip-bridge vowifi bridge'') @
          crlf (lit ''c=IN '' @ addrtype @ lit '' '' @ show_ip local_ip) @
          crlf (lit ''t=0 0'') @
          before_lines @
          crlf (lit ''m=audio '' @ show_u16 rtp_port @ lit '' RTP/AVP '' @ pt @ dtmf_pts) @
          rtcp @
          crlf (lit ''b=AS:'' @ show_nat (as_kbps (oc_codec chosen))) @
          crlf (lit ''b=RS:'' @ show_nat RTCP_SR_BANDWIDTH_BPS) @
          crlf (lit ''b=RR:'' @ show_nat RTCP_RR_BANDWIDTH_BPS) @
          codec_lines chosen @
          dtmf_lines @
          crlf (lit ''a=ptime:20'') @
          maxptime_line @
          crlf (mirrored (of_direction offer)) @
          qos_lines offer @
          after_lines,
          \<lparr>cc_codec = oc_codec chosen, cc_payload_type = oc_payload_type chosen, cc_octet_aligned = is_octet_aligned chosen,
           cc_dtmf_payload_type = map_option fst pick\<rparr>))"

definition build_answer ::
  "ip \<Rightarrow> u16 \<Rightarrow> u64 \<Rightarrow> sdp_offer \<Rightarrow> bool \<Rightarrow> bool \<Rightarrow> answer_preference \<Rightarrow> u16 option \<Rightarrow> sdp_error + text_string \<times> chosen_codec" where
  "build_answer local_ip rtp_port session_id offer amr_available wideband preference declared_rtcp_port =
     and_then (ok_or (select_codec_with offer amr_available wideband preference) NoUsableCodec) (\<lambda>chosen.
       Inr (build_answer_for local_ip rtp_port session_id chosen offer declared_rtcp_port))"

definition build_veth_answer :: "ip \<Rightarrow> u16 \<Rightarrow> u64 \<Rightarrow> sdp_offer \<Rightarrow> bool \<Rightarrow> sdp_error + text_string \<times> chosen_codec" where
  "build_veth_answer local_ip rtp_port session_id offer wideband =
     and_then (ok_or (select_veth_codec offer wideband) NoVethCodec) (\<lambda>chosen.
       Inr (build_answer_for local_ip rtp_port session_id chosen offer None))"

section \<open>Reading single lines\<close>

lemma strip_prefix_append [simp]: "strip_prefix (p @ s) p = Some s"
  by (simp add: strip_prefix_def starts_with_def)

lemma trim_line:
  assumes "p \<noteq> []" "\<not> is_whitespace (hd p)" "word_ok w" shows "trim (p @ w) = p @ w"
  using assms by (intro trim_id) (auto simp: word_ok_def list_all_iff)

lemma trim_line_words:
  assumes "p \<noteq> []" "\<not> is_whitespace (hd p)" "word_ok w" "ws = [] \<or> list_all word_ok ws"
  shows "trim (p @ join_with 32 (w # ws)) = p @ join_with 32 (w # ws)"
proof -
  have "\<exists>q v. join_with 32 (w # ws) = q @ v \<and> word_ok v"
    using assms(3,4)
  proof (induction ws arbitrary: w)
    case Nil
    then show ?case by (intro exI [of _ "[]"] exI [of _ w]) (simp add: join_with_def)
  next
    case (Cons v ws)
    have "word_ok v" "ws = [] \<or> list_all word_ok ws" using Cons.prems(2) by auto
    from Cons.IH [OF this] obtain q u where "join_with 32 (v # ws) = q @ u" "word_ok u" by blast
    then have "join_with 32 (w # v # ws) = (w @ 32 # q) @ u \<and> word_ok u" by (simp add: join_with_Cons)
    then show ?case by blast
  qed
  then obtain q v where "join_with 32 (w # ws) = q @ v" "word_ok v" by blast
  then show ?thesis using trim_line [of "p @ q" v] assms(1,2) by simp
qed

lemma show_u_ok [simp]: "word_ok (show_u8 b)" "word_ok (show_u16 w)" "word_ok (show_u32 v)"
  by (simp_all add: show_u8_def show_u16_def show_u32_def)

lemma parse_show_u [simp]: "parse_u8 (show_u8 b) = Some b" "parse_u16 (show_u16 w) = Some w" "parse_u32 (show_u32 v) = Some v"
proof -
  have "unat b \<le> 255" using u8_less_256 [of b] by linarith
  then show "parse_u8 (show_u8 b) = Some b" by (simp add: parse_u8_def show_u8_def parse_uint_show_nat)
  have "unat w < 65536" using unsigned_less [of w] by simp
  then show "parse_u16 (show_u16 w) = Some w" by (simp add: parse_u16_def show_u16_def parse_uint_show_nat)
  have "unat v < 4294967296" using unsigned_less [of v] by simp
  then show "parse_u32 (show_u32 v) = Some v" by (simp add: parse_u32_def show_u32_def parse_uint_show_nat)
qed

lemma not_in_show_u:
  "\<not> is_ascii_digit c \<Longrightarrow> c \<notin> set (show_u8 b)" "\<not> is_ascii_digit c \<Longrightarrow> c \<notin> set (show_u16 w)"
  "\<not> is_ascii_digit c \<Longrightarrow> c \<notin> set (show_u32 v)"
  by (simp_all add: show_u8_def show_u16_def show_u32_def not_in_show_nat)

lemma word_ok_show_ip [simp]: "word_ok (show_ip a)"
proof -
  have "show_ip a \<noteq> []" using parse_ip_show [of a] parse_ip_Nil by auto
  then show ?thesis using set_show_ip [of a] by (auto simp: word_ok_def list_all_iff is_whitespace_def)
qed

text \<open>Evaluates which prefix a line with a literal start has.\<close>

lemmas prefix_simps = strip_prefix_def starts_with_def lit_def direction_attribute_def audio_attribute_def

lemma offer_line_other:
  assumes "trim l = l" "l = [] \<or> hd l \<notin> {97, 99, 109}"
  shows "offer_line l acc = acc"
  using assms by (cases l) (auto simp: offer_line_def Let_def prefix_simps)

lemma offer_line_connection:
  assumes "\<not> oa_seen_media acc"
  shows "offer_line (lit ''c=IN '' @ ip_addrtype a @ lit '' '' @ show_ip a) acc = acc\<lparr>oa_conn_ip := Some a\<rparr>"
proof -
  have "word_ok (ip_addrtype a)" by (simp add: ip_addrtype_def word_ok_def lit_def is_whitespace_def)
  then have "split_whitespace (ip_addrtype a @ lit '' '' @ show_ip a) = [ip_addrtype a, show_ip a]"
    using split_whitespace_space [of "ip_addrtype a" "show_ip a"] by (simp add: lit_def split_whitespace_word)
  moreover have "trim (lit ''c=IN '' @ ip_addrtype a @ lit '' '' @ show_ip a) = lit ''c=IN '' @ ip_addrtype a @ lit '' '' @ show_ip a"
    using trim_line [of "lit ''c=IN '' @ ip_addrtype a @ lit '' ''" "show_ip a"] by (simp add: lit_def is_whitespace_def)
  moreover have "strip_prefix (lit ''c=IN '' @ r) (lit ''m='') = None" for r by (simp add: prefix_simps)
  ultimately show ?thesis using assms by (simp add: offer_line_def connection_line_def parse_ip_show)
qed

definition media_text :: "u16 \<Rightarrow> u8 list \<Rightarrow> text_string" where
  "media_text port pts = lit ''m=audio '' @ join_with 32 (show_u16 port # lit ''RTP/AVP'' # map show_u8 pts)"

lemma word_ok_lit_avp [simp]: "word_ok (lit ''RTP/AVP'')"
  by (simp add: word_ok_def lit_def is_whitespace_def)

lemma offer_line_audio:
  assumes "\<not> oa_audio_seen acc"
  shows "offer_line (media_text port pts) acc =
    acc\<lparr>oa_seen_media := True, oa_in_audio := True, oa_audio_seen := True, oa_rtp_port := Some port, oa_proto := lit ''RTP/AVP'',
        oa_listed_pts := pts\<rparr>"
proof -
  let ?ws = "show_u16 port # lit ''RTP/AVP'' # map show_u8 pts"
  have ok: "list_all word_ok ?ws" by (simp add: list_all_iff)
  have "trim (media_text port pts) = media_text port pts"
    unfolding media_text_def using ok by (intro trim_line_words) (simp_all add: lit_def is_whitespace_def)
  moreover have "strip_prefix (media_text port pts) (lit ''m='') = Some (lit ''audio '' @ join_with 32 ?ws)"
    by (simp add: media_text_def prefix_simps)
  moreover have "starts_with (lit ''audio '' @ r) (lit ''audio '')" "drop 6 (lit ''audio '' @ r) = r" for r
    by (simp_all add: starts_with_def lit_def)
  moreover have "List.map_filter parse_u8 (map show_u8 pts) = pts"
    by (induction pts) (simp_all add: map_filter_simps)
  ultimately show ?thesis
    using assms split_whitespace_join [OF ok] by (simp add: offer_line_def media_line_def word_at_def numeral_2_eq_2)
qed

text \<open>A section that can be declined by name: its words are words, and no audio section comes before the
  negotiated one.\<close>

definition declined_ok :: "declined_media \<Rightarrow> bool" where
  "declined_ok dm \<longleftrightarrow> word_ok (dm_kind dm) \<and> word_ok (dm_proto dm) \<and>
     (\<exists>ws. list_all word_ok ws \<and> dm_fmts dm = join_with 32 ws) \<and> (dm_before_audio dm \<longrightarrow> dm_kind dm \<noteq> lit ''audio'')"

lemma starts_with_word:
  assumes "word_ok w" "word_ok k" shows "starts_with (w @ 32 # r) (k @ [32]) \<longleftrightarrow> w = k"
proof -
  have free: "32 \<notin> set w" "32 \<notin> set k" using assms by (auto simp: word_ok_def list_all_iff is_whitespace_def)
  have "takeWhile (\<lambda>c. c \<noteq> 32) (v @ 32 # s) = v" if "32 \<notin> set v" for v s
    using that by (subst takeWhile_append2) auto
  moreover have "starts_with (w @ 32 # r) (k @ [32]) \<Longrightarrow> \<exists>s. w @ 32 # r = k @ 32 # s"
    unfolding starts_with_def by (metis append.assoc append_Cons append_Nil append_take_drop_id)
  ultimately show ?thesis using free by (metis starts_with_def append.assoc append_Cons append_Nil append_eq_conv_conj)
qed

lemma offer_line_declined:
  assumes "declined_ok dm" "dm_before_audio dm = (\<not> oa_audio_seen acc)"
  shows "offer_line (declined_line dm) acc =
    acc\<lparr>oa_seen_media := True, oa_in_audio := False, oa_other_media := oa_other_media acc @ [dm]\<rparr>"
proof -
  obtain ws where ws: "list_all word_ok ws" "dm_fmts dm = join_with 32 ws" using assms(1) by (auto simp: declined_ok_def)
  let ?ws = "dm_kind dm # lit ''0'' # dm_proto dm # ws"
  have ok: "word_ok (dm_kind dm)" "list_all word_ok ?ws"
    using assms(1) ws(1) by (simp_all add: declined_ok_def word_ok_def lit_def is_whitespace_def)
  have "join_with 32 ws = [] \<longleftrightarrow> ws = []" using ws(1) by (cases ws) (auto simp: join_with_def word_ok_def)
  then have line: "declined_line dm = lit ''m='' @ join_with 32 ?ws"
    by (cases ws) (auto simp: declined_line_def ws(2) join_with_Cons lit_def, simp add: join_with_def)
  have trim: "trim (declined_line dm) = declined_line dm"
    unfolding line using ok by (intro trim_line_words) (simp_all add: lit_def is_whitespace_def)
  have "join_with 32 ?ws = dm_kind dm @ 32 # join_with 32 (tl ?ws)" by (simp add: join_with_Cons)
  moreover have "word_ok (lit ''audio'')" "lit ''audio '' = lit ''audio'' @ [32]" by (simp_all add: word_ok_def lit_def is_whitespace_def)
  ultimately have "starts_with (join_with 32 ?ws) (lit ''audio '') \<longleftrightarrow> dm_kind dm = lit ''audio''"
    using starts_with_word [OF ok(1), of "lit ''audio''"] by simp
  then have audio: "\<not> (\<not> oa_audio_seen acc \<and> starts_with (join_with 32 ?ws) (lit ''audio ''))"
    using assms by (auto simp: declined_ok_def)
  have dm: "\<lparr>dm_kind = dm_kind dm, dm_proto = dm_proto dm, dm_fmts = dm_fmts dm, dm_before_audio = dm_before_audio dm\<rparr> = dm" by simp
  show ?thesis unfolding offer_line_def Let_def trim unfolding line
    using split_whitespace_join [OF ok(2)] audio dm ws(2) assms(2)
    by (auto simp: media_line_def Let_def word_at_def numeral_3_eq_3 numeral_2_eq_2)
qed

lemma offer_line_rtpmap:
  assumes "oa_in_audio acc" "47 \<notin> set name"
  shows "offer_line (lit ''a=rtpmap:'' @ show_u8 pt @ lit '' '' @ name @ lit ''/'' @ show_u32 rate) acc =
    acc\<lparr>oa_rtpmap := hm_insert pt (to_ascii_uppercase name, rate) (oa_rtpmap acc)\<rparr>"
proof -
  let ?l = "lit ''a=rtpmap:'' @ show_u8 pt @ lit '' '' @ name @ lit ''/'' @ show_u32 rate"
  have "trim ?l = ?l"
    using trim_line [of "lit ''a=rtpmap:'' @ show_u8 pt @ lit '' '' @ name @ lit ''/''" "show_u32 rate"] by (simp add: lit_def is_whitespace_def)
  moreover have "strip_prefix ?l (lit ''m='') = None" "strip_prefix ?l (lit ''c=IN '') = None" "direction_attribute ?l = None"
    by (simp_all add: prefix_simps)
  moreover have "split_once 32 (show_u8 pt @ lit '' '' @ r) = Some (show_u8 pt, r)" for r
    using split_once_append [of 32 "show_u8 pt" r] not_in_show_u(1) [of 32 pt] by (simp add: lit_def is_ascii_digit_def)
  moreover have "split_once 47 (name @ lit ''/'' @ r) = Some (name, r)" for r
    using split_once_append [OF assms(2), of r] by (simp add: lit_def)
  moreover have "split_on 47 (show_u32 rate) = [show_u32 rate]"
    using not_in_show_u(3) [of 47 rate] by (intro split_on_free) (simp add: is_ascii_digit_def)
  ultimately show ?thesis using assms(1) by (simp add: offer_line_def audio_attribute_def rtpmap_line_def)
qed

lemma trim_ends: "trim s \<noteq> [] \<Longrightarrow> \<not> is_whitespace (hd (trim s)) \<and> \<not> is_whitespace (last (trim s))"
proof -
  let ?x = "dropWhile is_whitespace s"
  assume ne: "trim s \<noteq> []"
  have t: "trim s = rev (dropWhile is_whitespace (rev ?x))" by (simp add: trim_def trim_start_def trim_end_def)
  have "\<exists>q. ?x = trim s @ q"
    unfolding t by (metis rev_append rev_rev_ident takeWhile_dropWhile_id)
  then obtain q where q: "?x = trim s @ q" by blast
  with ne have "hd (trim s) = hd ?x" "?x \<noteq> []" by auto
  moreover have "\<not> is_whitespace (last (trim s))"
    using ne hd_dropWhile [of is_whitespace "rev ?x"] by (simp add: t last_rev)
  ultimately show ?thesis using hd_dropWhile [of is_whitespace s] by simp
qed

lemma offer_line_fmtp:
  assumes "oa_in_audio acc" "trim f = f"
  shows "offer_line (lit ''a=fmtp:'' @ show_u8 pt @ lit '' '' @ f) acc =
    (if f = [] then acc else acc\<lparr>oa_fmtp := hm_insert pt f (oa_fmtp acc)\<rparr>)"
proof -
  let ?l = "lit ''a=fmtp:'' @ show_u8 pt"
  have pre: "strip_prefix (?l @ r) (lit ''m='') = None" "strip_prefix (?l @ r) (lit ''c=IN '') = None" "direction_attribute (?l @ r) = None"
    "strip_prefix (?l @ r) (lit ''a=rtpmap:'') = None" "strip_prefix (?l @ r) (lit ''a=maxptime:'') = None"
    "strip_prefix (?l @ r) (lit ''a=rtcp:'') = None" "strip_prefix (?l @ r) (lit ''a=fmtp:'') = Some (show_u8 pt @ r)" for r
    by (simp_all add: prefix_simps)
  have sp: "32 \<notin> set (show_u8 pt)" using not_in_show_u(1) [of 32 pt] by (simp add: is_ascii_digit_def)
  show ?thesis
  proof (cases "f = []")
    case True
    have "trim (?l @ lit '' '') = ?l"
    proof -
      have "trim_start (?l @ lit '' '') = ?l @ lit '' ''" by (simp add: trim_start_def lit_def is_whitespace_def)
      moreover have "dropWhile is_whitespace (rev ?l) = rev ?l"
        using show_u_ok(1) [of pt] by (cases "rev (show_u8 pt)") (auto simp: word_ok_def list_all_iff)
      ultimately show ?thesis by (simp add: trim_def trim_end_def lit_def is_whitespace_def)
    qed
    moreover have "split_once 32 (show_u8 pt) = None" using sp by (simp add: split_once_None)
    ultimately show ?thesis
      using True assms(1) pre [of "[]"] by (simp add: offer_line_def audio_attribute_def fmtp_line_def)
  next
    case False
    have "trim (?l @ lit '' '' @ f) = ?l @ lit '' '' @ f"
      using trim_ends [of f] assms(2) False by (intro trim_id) (simp add: lit_def is_whitespace_def)
    moreover have "split_once 32 (show_u8 pt @ lit '' '' @ f) = Some (show_u8 pt, f)"
      using split_once_append [OF sp, of f] by (simp add: lit_def)
    ultimately show ?thesis
      using False assms pre [of "lit '' '' @ f"] by (simp add: offer_line_def audio_attribute_def fmtp_line_def)
  qed
qed

text \<open>The other attribute lines: a literal prefix and words.\<close>

lemma offer_line_attribute:
  assumes "oa_in_audio acc" "list_all word_ok (w # ws)" "p = lit ''a=maxptime:'' \<or> p = lit ''a=rtcp:'' \<or> p = lit ''a=des:qos '' \<or> p = lit ''a=curr:qos ''"
  shows "offer_line (p @ join_with 32 (w # ws)) acc = audio_attribute (p @ join_with 32 (w # ws)) acc"
proof -
  let ?l = "p @ join_with 32 (w # ws)"
  have "trim ?l = ?l"
    using assms(2,3) by (intro trim_line_words) (auto simp: lit_def is_whitespace_def)
  moreover have "strip_prefix ?l (lit ''m='') = None" "strip_prefix ?l (lit ''c=IN '') = None" "direction_attribute ?l = None"
    using assms(3) by (auto simp: prefix_simps)
  ultimately show ?thesis using assms(1) by (simp add: offer_line_def)
qed

lemma audio_attribute_eqs:
  "audio_attribute (lit ''a=maxptime:'' @ r) acc = acc\<lparr>oa_maxptime := parse_u32 (trim r)\<rparr>"
  "audio_attribute (lit ''a=rtcp:'' @ r) acc = rtcp_line r acc"
  "audio_attribute (lit ''a=des:qos '' @ r) acc = desired_line r acc"
  "audio_attribute (lit ''a=curr:qos '' @ r) acc = current_line r acc"
  by (simp_all add: prefix_simps)

lemma offer_line_maxptime:
  "oa_in_audio acc \<Longrightarrow> offer_line (lit ''a=maxptime:'' @ show_u32 mp) acc = acc\<lparr>oa_maxptime := Some mp\<rparr>"
  using offer_line_attribute [of acc "show_u32 mp" "[]"] by (simp add: join_with_def audio_attribute_eqs word_ok_trim)

lemma offer_line_rtcp:
  "oa_in_audio acc \<Longrightarrow>
    offer_line (lit ''a=rtcp:'' @ show_u16 port) acc = acc\<lparr>oa_rtcp_port := (if port \<noteq> 0 then Some port else None)\<rparr>"
  using offer_line_attribute [of acc "show_u16 port" "[]"]
  by (simp add: join_with_def audio_attribute_eqs rtcp_line_def split_whitespace_word)

lemma qos_tokens_ok:
  "word_ok (qos_status_type_token s)" "word_ok (qos_direction_token d)" "qos_strength_token k = Some st \<Longrightarrow> word_ok st"
  by (auto simp: qos_status_type_token_def qos_direction_token_def qos_strength_token_def word_ok_def lit_def is_whitespace_def
      split: qos_status_type.splits qos_direction.splits qos_strength.splits)

lemma parse_qos_tokens:
  "parse_qos_status_type (qos_status_type_token s) = Some s" "parse_qos_direction (qos_direction_token d) = Some d"
  "qos_strength_token k = Some st \<Longrightarrow> parse_qos_strength st = k"
  by (auto simp: qos_status_type_token_def qos_direction_token_def qos_strength_token_def parse_qos_status_type_def
      parse_qos_direction_def parse_qos_strength_def lit_def
      split: qos_status_type.splits qos_direction.splits qos_strength.splits)

lemma offer_line_current:
  assumes "oa_in_audio acc"
  shows "offer_line (lit ''a=curr:qos '' @ qos_status_type_token s @ lit '' '' @ qos_direction_token d) acc =
    acc\<lparr>oa_offerer_curr := oa_offerer_curr acc @ [\<lparr>qs_status_type = s, qs_met = d\<rparr>]\<rparr>"
proof -
  let ?ws = "[qos_status_type_token s, qos_direction_token d]"
  have ok: "list_all word_ok ?ws" by (simp add: qos_tokens_ok)
  have "join_with 32 ?ws = qos_status_type_token s @ lit '' '' @ qos_direction_token d" by (simp add: join_with_def lit_def)
  with offer_line_attribute [OF assms ok, of "lit ''a=curr:qos ''"] split_whitespace_join [OF ok] show ?thesis
    by (simp add: audio_attribute_eqs current_line_def parse_qos_tokens)
qed

lemma offer_line_desired:
  assumes "oa_in_audio acc" "qos_strength_token k = Some st"
  shows "offer_line (lit ''a=des:qos '' @ st @ lit '' '' @ qos_status_type_token s @ lit '' '' @ qos_direction_token d) acc =
    acc\<lparr>oa_preconditions := oa_preconditions acc @ [\<lparr>qd_strength = k, qd_status_type = s, qd_direction = d\<rparr>]\<rparr>"
proof -
  let ?ws = "[st, qos_status_type_token s, qos_direction_token d]"
  have ok: "list_all word_ok ?ws" using assms(2) by (simp add: qos_tokens_ok)
  have "join_with 32 ?ws = st @ lit '' '' @ qos_status_type_token s @ lit '' '' @ qos_direction_token d" by (simp add: join_with_def lit_def)
  with offer_line_attribute [OF assms(1) ok, of "lit ''a=des:qos ''"] split_whitespace_join [OF ok] show ?thesis
    using parse_qos_tokens(3) [OF assms(2)] by (simp add: audio_attribute_eqs desired_line_def parse_qos_tokens)
qed

definition mirror :: "media_direction \<Rightarrow> media_direction" where
  "mirror d = (case d of SendOnly \<Rightarrow> RecvOnly | RecvOnly \<Rightarrow> SendOnly | Inactive \<Rightarrow> Inactive | SendRecv \<Rightarrow> SendRecv)"

lemma offer_line_direction:
  assumes "oa_in_audio acc" shows "offer_line (mirrored d) acc = acc\<lparr>oa_audio_direction := Some (mirror d)\<rparr>"
proof -
  have "trim (mirrored d) = mirrored d"
    by (cases d) (simp_all add: mirrored_def lit_def trim_def trim_start_def trim_end_def is_whitespace_def)
  then show ?thesis using assms
    by (cases d) (simp_all add: offer_line_def direction_line_def mirrored_def mirror_def prefix_simps)
qed

section \<open>Reading a whole answer\<close>

text \<open>What an answer says, written as an offer it reads back as.\<close>

definition known_strength :: "qos_desired \<Rightarrow> bool" where
  "known_strength d \<longleftrightarrow> qd_strength d \<noteq> QsUnknown"

definition answered :: "ip \<Rightarrow> u16 \<Rightarrow> offered_codec \<Rightarrow> sdp_offer \<Rightarrow> u16 option \<Rightarrow> sdp_offer" where
  "answered ip port chosen offer rtcp =
     \<lparr>of_remote_rtp = (ip, port),
      of_offered = [chosen\<lparr>oc_fmtp := (if oc_codec chosen \<in> {AmrNb, AmrWb} then oc_fmtp chosen else [])\<rparr>],
      of_dtmf = (case dtmf_pick (oc_codec chosen) (of_dtmf offer) of Some e \<Rightarrow> [e] | None \<Rightarrow> []),
      of_maxptime = of_maxptime offer, of_direction = mirror (of_direction offer), of_proto = lit ''RTP/AVP'',
      of_other_media = filter dm_before_audio (of_other_media offer) @ filter (\<lambda>dm. \<not> dm_before_audio dm) (of_other_media offer),
      of_rtcp = (if rtcp = Some 0 then None else rtcp),
      of_preconditions = (case precondition_verdict offer of Proceed current desired \<Rightarrow> filter known_strength desired | Decline \<Rightarrow> []),
      of_offerer_curr = (case precondition_verdict offer of
         Proceed current desired \<Rightarrow> map (\<lambda>l. \<lparr>qs_status_type = qa_status_type l, qs_met = qa_met l\<rparr>) current | Decline \<Rightarrow> [])\<rparr>"

text \<open>The lines of an answer, part by part, and what reading each part does.\<close>

definition session_lines :: "text_string \<Rightarrow> ip \<Rightarrow> u64 \<Rightarrow> text_string list" where
  "session_lines name a session_id =
     (let sid = show_nat (unat session_id)
      in [lit ''v=0'', lit ''o=- '' @ sid @ lit '' '' @ sid @ lit '' IN '' @ ip_addrtype a @ lit '' '' @ show_ip a,
          lit ''s='' @ name, lit ''c=IN '' @ ip_addrtype a @ lit '' '' @ show_ip a, lit ''t=0 0''])"

definition codec_line_list :: "offered_codec \<Rightarrow> text_string list" where
  "codec_line_list chosen =
     (lit ''a=rtpmap:'' @ show_u8 (oc_payload_type chosen) @ lit '' '' @ codec_name (oc_codec chosen) @ lit ''/'' @
        show_u32 (sample_rate (oc_codec chosen))) #
     (if oc_codec chosen \<in> {AmrNb, AmrWb} then [lit ''a=fmtp:'' @ show_u8 (oc_payload_type chosen) @ lit '' '' @ oc_fmtp chosen] else [])"

definition dtmf_line_list :: "(u8 \<times> u32) option \<Rightarrow> text_string list" where
  "dtmf_line_list pick =
     (case pick of
        Some (dpt, drate) \<Rightarrow>
          [lit ''a=rtpmap:'' @ show_u8 dpt @ lit '' '' @ lit ''telephone-event'' @ lit ''/'' @ show_u32 drate,
           lit ''a=fmtp:'' @ show_u8 dpt @ lit '' '' @ lit ''0-15'']
      | None \<Rightarrow> [])"

definition bandwidth_lines :: "negotiated_codec \<Rightarrow> text_string list" where
  "bandwidth_lines codec =
     [lit ''b=AS:'' @ show_nat (as_kbps codec), lit ''b=RS:'' @ show_nat RTCP_SR_BANDWIDTH_BPS,
      lit ''b=RR:'' @ show_nat RTCP_RR_BANDWIDTH_BPS]"

definition current_texts :: "qos_answer_line list \<Rightarrow> text_string list" where
  "current_texts = map (\<lambda>l. lit ''a=curr:qos '' @ qos_status_type_token (qa_status_type l) @ lit '' '' @ qos_direction_token (qa_met l))"

definition desired_texts :: "qos_desired list \<Rightarrow> text_string list" where
  "desired_texts ds =
     map (\<lambda>l. lit ''a=des:qos '' @ the (qos_strength_token (qd_strength l)) @ lit '' '' @ qos_status_type_token (qd_status_type l) @
                lit '' '' @ qos_direction_token (qd_direction l)) (filter known_strength ds)"

definition qos_line_list :: "sdp_offer \<Rightarrow> text_string list" where
  "qos_line_list offer =
     (case precondition_verdict offer of Decline \<Rightarrow> [] | Proceed current desired \<Rightarrow> current_texts current @ desired_texts desired)"

definition answer_lines :: "ip \<Rightarrow> u16 \<Rightarrow> u64 \<Rightarrow> offered_codec \<Rightarrow> sdp_offer \<Rightarrow> u16 option \<Rightarrow> text_string list" where
  "answer_lines a port session_id chosen offer rtcp =
     session_lines (lit ''gsm-sip-bridge vowifi bridge'') a session_id @
     map declined_line (filter dm_before_audio (of_other_media offer)) @
     [media_text port (oc_payload_type chosen # (case dtmf_pick (oc_codec chosen) (of_dtmf offer) of Some (dpt, _) \<Rightarrow> [dpt] | None \<Rightarrow> []))] @
     (case rtcp of Some p \<Rightarrow> [lit ''a=rtcp:'' @ show_u16 p] | None \<Rightarrow> []) @
     bandwidth_lines (oc_codec chosen) @
     codec_line_list chosen @
     dtmf_line_list (dtmf_pick (oc_codec chosen) (of_dtmf offer)) @
     [lit ''a=ptime:20''] @
     (case of_maxptime offer of Some mp \<Rightarrow> [lit ''a=maxptime:'' @ show_u32 mp] | None \<Rightarrow> []) @
     [mirrored (of_direction offer)] @
     qos_line_list offer @
     map declined_line (filter (\<lambda>dm. \<not> dm_before_audio dm) (of_other_media offer))"

lemma show_rates: "show_u32 8000 = lit ''8000''" "show_u32 16000 = lit ''16000''"
  by (simp_all add: show_u32_def show_nat.simps lit_def)

lemma codec_lines_eq: "codec_lines chosen = concat (map crlf (codec_line_list chosen))"
  by (cases "oc_codec chosen")
    (simp_all add: codec_lines_def codec_line_list_def codec_name_def sample_rate_def show_rates Let_def, simp_all add: lit_def)

lemma qos_lines_eq: "qos_lines offer = concat (map crlf (qos_line_list offer))"
proof (cases "precondition_verdict offer")
  case (Proceed current desired)
  have "concat (map (\<lambda>line. case qos_strength_token (qd_strength line) of
          Some strength \<Rightarrow> crlf (lit ''a=des:qos '' @ strength @ lit '' '' @ qos_status_type_token (qd_status_type line) @
                                 lit '' '' @ qos_direction_token (qd_direction line))
        | None \<Rightarrow> []) desired) = concat (map crlf (desired_texts desired))"
    by (induction desired) (auto simp: desired_texts_def known_strength_def qos_strength_token_def split: qos_strength.splits)
  then show ?thesis using Proceed by (simp add: qos_lines_def qos_line_list_def current_texts_def comp_def)
qed (simp add: qos_lines_def qos_line_list_def)

lemma answer_text:
  "fst (build_answer_for a port sid chosen offer rtcp) = concat (map crlf (answer_lines a port sid chosen offer rtcp))"
proof -
  have m: "media_text port [pt] = lit ''m=audio '' @ show_u16 port @ lit '' RTP/AVP '' @ show_u8 pt"
    "media_text port [pt, d] = lit ''m=audio '' @ show_u16 port @ lit '' RTP/AVP '' @ show_u8 pt @ lit '' '' @ show_u8 d" for pt d
    by (simp_all add: media_text_def join_with_def lit_def)
  show ?thesis
    by (cases "dtmf_pick (oc_codec chosen) (of_dtmf offer)")
      (auto simp: build_answer_for_def answer_lines_def session_lines_def dtmf_line_list_def bandwidth_lines_def codec_lines_eq
        qos_lines_eq m Let_def comp_def lit_def split: option.splits)
qed

lemma read_session_lines:
  assumes "name \<noteq> []" "\<not> is_whitespace (last name)"
  shows "fold offer_line (session_lines name a sid) offer_acc_init = offer_acc_init\<lparr>oa_conn_ip := Some a\<rparr>"
proof -
  have "trim (lit ''s='' @ name) = lit ''s='' @ name"
    using assms by (intro trim_id) (simp add: lit_def, simp add: is_whitespace_def)
  moreover have "trim (lit ''v=0'') = lit ''v=0''" "trim (lit ''t=0 0'') = lit ''t=0 0''"
    by (simp_all add: lit_def trim_def trim_start_def trim_end_def is_whitespace_def)
  moreover have "trim (lit ''o=- '' @ show_nat n @ lit '' '' @ show_nat n @ lit '' IN '' @ ip_addrtype a @ lit '' '' @ show_ip a) =
      lit ''o=- '' @ show_nat n @ lit '' '' @ show_nat n @ lit '' IN '' @ ip_addrtype a @ lit '' '' @ show_ip a" for n
    using trim_line [of "lit ''o=- '' @ show_nat n @ lit '' '' @ show_nat n @ lit '' IN '' @ ip_addrtype a @ lit '' ''" "show_ip a"]
    by (simp add: lit_def is_whitespace_def)
  ultimately have "offer_line (lit ''s='' @ name) acc = acc" "offer_line (lit ''v=0'') acc = acc" "offer_line (lit ''t=0 0'') acc = acc"
    "offer_line (lit ''o=- '' @ show_nat n @ lit '' '' @ show_nat n @ lit '' IN '' @ ip_addrtype a @ lit '' '' @ show_ip a) acc = acc" for acc n
    by (intro offer_line_other; simp add: lit_def)+
  then show ?thesis by (simp add: session_lines_def Let_def offer_line_connection offer_acc_init_def)
qed

lemma read_declined:
  assumes "\<forall>dm \<in> set ds. declined_ok dm \<and> dm_before_audio dm = (\<not> oa_audio_seen acc)"
  shows "fold offer_line (map declined_line ds) acc =
    acc\<lparr>oa_seen_media := oa_seen_media acc \<or> ds \<noteq> [], oa_in_audio := oa_in_audio acc \<and> ds = [], oa_other_media := oa_other_media acc @ ds\<rparr>"
  using assms by (induction ds arbitrary: acc) (simp_all add: offer_line_declined)

lemma read_rtcp:
  assumes "oa_in_audio acc"
  shows "fold offer_line (case rtcp of Some p \<Rightarrow> [lit ''a=rtcp:'' @ show_u16 p] | None \<Rightarrow> []) acc =
    acc\<lparr>oa_rtcp_port := (case rtcp of Some p \<Rightarrow> if p \<noteq> 0 then Some p else None | None \<Rightarrow> oa_rtcp_port acc)\<rparr>"
  using assms by (cases rtcp) (simp_all add: offer_line_rtcp)

lemma read_maxptime:
  assumes "oa_in_audio acc"
  shows "fold offer_line (case m of Some mp \<Rightarrow> [lit ''a=maxptime:'' @ show_u32 mp] | None \<Rightarrow> []) acc =
    acc\<lparr>oa_maxptime := (case m of Some mp \<Rightarrow> Some mp | None \<Rightarrow> oa_maxptime acc)\<rparr>"
  using assms by (cases m) (simp_all add: offer_line_maxptime)

lemma read_bandwidth: "fold offer_line (bandwidth_lines codec) acc = acc"
proof -
  have "trim (lit ''b='' @ lit x @ show_nat n) = lit ''b='' @ lit x @ show_nat n" for x n
    using trim_line [of "lit ''b='' @ lit x" "show_nat n"] by (simp add: lit_def is_whitespace_def)
  then have "offer_line (lit ''b='' @ lit x @ show_nat n) acc = acc" for x n acc
    by (rule offer_line_other) (simp add: lit_def)
  from this [of "''AS:''"] this [of "''RS:''"] this [of "''RR:''"] show ?thesis by (simp add: bandwidth_lines_def lit_def)
qed

lemma read_ptime: "offer_line (lit ''a=ptime:20'') acc = acc"
proof -
  have "trim (lit ''a=ptime:20'') = lit ''a=ptime:20''"
    by (simp add: lit_def trim_def trim_start_def trim_end_def is_whitespace_def)
  then show ?thesis by (simp add: offer_line_def prefix_simps)
qed

lemma codec_name_props: "47 \<notin> set (codec_name c)" "to_ascii_uppercase (codec_name c) = codec_name c"
  by (cases c; simp add: codec_name_def lit_def to_ascii_uppercase_def)+

lemma read_codec:
  assumes "oa_in_audio acc" "trim (oc_fmtp chosen) = oc_fmtp chosen"
  shows "fold offer_line (codec_line_list chosen) acc =
    acc\<lparr>oa_rtpmap := hm_insert (oc_payload_type chosen) (codec_name (oc_codec chosen), sample_rate (oc_codec chosen)) (oa_rtpmap acc),
        oa_fmtp := (if oc_codec chosen \<in> {AmrNb, AmrWb} \<and> oc_fmtp chosen \<noteq> []
                    then hm_insert (oc_payload_type chosen) (oc_fmtp chosen) (oa_fmtp acc) else oa_fmtp acc)\<rparr>"
  using assms by (auto simp: codec_line_list_def offer_line_rtpmap codec_name_props offer_line_fmtp)

lemma read_dtmf:
  assumes "oa_in_audio acc"
  shows "fold offer_line (dtmf_line_list pick) acc =
    acc\<lparr>oa_rtpmap := (case pick of Some (dpt, drate) \<Rightarrow> hm_insert dpt (lit ''TELEPHONE-EVENT'', drate) (oa_rtpmap acc) | None \<Rightarrow> oa_rtpmap acc),
        oa_fmtp := (case pick of Some (dpt, drate) \<Rightarrow> hm_insert dpt (lit ''0-15'') (oa_fmtp acc) | None \<Rightarrow> oa_fmtp acc)\<rparr>"
proof -
  have "47 \<notin> set (lit ''telephone-event'')" "to_ascii_uppercase (lit ''telephone-event'') = lit ''TELEPHONE-EVENT''"
    "trim (lit ''0-15'') = lit ''0-15''" "lit ''0-15'' \<noteq> []"
    by (simp_all add: lit_def to_ascii_uppercase_def trim_def trim_start_def trim_end_def is_whitespace_def)
  with assms show ?thesis by (auto simp: dtmf_line_list_def offer_line_rtpmap offer_line_fmtp split: option.split)
qed

lemma read_current:
  assumes "oa_in_audio acc"
  shows "fold offer_line (current_texts ls) acc =
    acc\<lparr>oa_offerer_curr := oa_offerer_curr acc @ map (\<lambda>l. \<lparr>qs_status_type = qa_status_type l, qs_met = qa_met l\<rparr>) ls\<rparr>"
  using assms by (induction ls arbitrary: acc) (simp_all add: current_texts_def offer_line_current)

lemma read_desired:
  assumes "oa_in_audio acc"
  shows "fold offer_line (desired_texts ds) acc = acc\<lparr>oa_preconditions := oa_preconditions acc @ filter known_strength ds\<rparr>"
  using assms
proof (induction ds arbitrary: acc)
  case (Cons d ds)
  show ?case
  proof (cases "known_strength d")
    case True
    then obtain st where "qos_strength_token (qd_strength d) = Some st"
      by (cases "qd_strength d") (simp_all add: known_strength_def qos_strength_token_def)
    then show ?thesis using True Cons.IH Cons.prems by (simp add: desired_texts_def offer_line_desired)
  next
    case False
    then show ?thesis using Cons by (simp add: desired_texts_def)
  qed
qed (simp add: desired_texts_def)

lemma read_qos:
  assumes "oa_in_audio acc"
  shows "fold offer_line (qos_line_list offer) acc =
    acc\<lparr>oa_offerer_curr := oa_offerer_curr acc @ (case precondition_verdict offer of
           Proceed current desired \<Rightarrow> map (\<lambda>l. \<lparr>qs_status_type = qa_status_type l, qs_met = qa_met l\<rparr>) current | Decline \<Rightarrow> []),
        oa_preconditions := oa_preconditions acc @ (case precondition_verdict offer of
           Proceed current desired \<Rightarrow> filter known_strength desired | Decline \<Rightarrow> [])\<rparr>"
  using assms by (cases "precondition_verdict offer") (simp_all add: qos_line_list_def read_current read_desired)

lemma word_ok_no_newline: "word_ok w \<Longrightarrow> 10 \<notin> set w"
proof -
  have "is_whitespace 10" by (simp add: is_whitespace_def)
  then show "word_ok w \<Longrightarrow> 10 \<notin> set w" by (auto simp: word_ok_def list_all_iff)
qed

lemma join_no_newline: "list_all word_ok ws \<Longrightarrow> 10 \<notin> set (join_with 32 ws)"
proof -
  have "set (join_with 32 ws) \<subseteq> {32} \<union> (\<Union>w \<in> set ws. set w)" by (cases ws) (auto simp: join_with_def)
  moreover assume "list_all word_ok ws"
  then have "\<forall>w \<in> set ws. 10 \<notin> set w" using word_ok_no_newline by (auto simp: list_all_iff)
  ultimately show ?thesis by auto
qed

lemma declined_no_newline: "declined_ok dm \<Longrightarrow> 10 \<notin> set (declined_line dm)"
proof -
  assume dm: "declined_ok dm"
  then have "10 \<notin> set (dm_fmts dm)" using join_no_newline by (auto simp: declined_ok_def)
  moreover have "10 \<notin> set (dm_kind dm)" "10 \<notin> set (dm_proto dm)" using dm word_ok_no_newline by (simp_all add: declined_ok_def)
  ultimately show ?thesis by (simp add: declined_line_def lit_def)
qed

lemma answer_lines_no_newline:
  assumes "\<forall>dm \<in> set (of_other_media offer). declined_ok dm" "10 \<notin> set (oc_fmtp chosen)"
  shows "list_all (\<lambda>l. 10 \<notin> set l) (answer_lines a port sid chosen offer rtcp)"
proof -
  note w = word_ok_no_newline
  have "list_all (\<lambda>l. 10 \<notin> set l) (session_lines (lit ''gsm-sip-bridge vowifi bridge'') a sid)"
    using w [OF word_ok_show_ip] w [OF word_ok_show_nat] by (simp add: session_lines_def Let_def ip_addrtype_def lit_def)
  moreover have "10 \<notin> set (media_text port pts)" for pts
  proof -
    have "10 \<notin> set (join_with 32 (show_u16 port # lit ''RTP/AVP'' # map show_u8 pts))"
      by (rule join_no_newline) (simp add: list_all_iff)
    moreover have "10 \<notin> set (lit ''m=audio '')" by (simp add: lit_def)
    ultimately show ?thesis by (simp add: media_text_def)
  qed
  moreover have "10 \<notin> set (codec_name c)" for c by (cases c) (simp_all add: codec_name_def lit_def)
  moreover have "10 \<notin> set (mirrored d)" for d by (cases d) (simp_all add: mirrored_def lit_def)
  moreover have "list_all (\<lambda>l. 10 \<notin> set l) (qos_line_list offer)"
  proof -
    have "list_all (\<lambda>l. 10 \<notin> set l) (current_texts ls)" for ls
      using w [OF qos_tokens_ok(1)] w [OF qos_tokens_ok(2)] by (simp add: current_texts_def list_all_iff lit_def)
    moreover have "10 \<notin> set (the (qos_strength_token k))" if "k \<noteq> QsUnknown" for k
      using that by (cases k) (simp_all add: qos_strength_token_def lit_def)
    then have "list_all (\<lambda>l. 10 \<notin> set l) (desired_texts ls)" for ls
      using w [OF qos_tokens_ok(1)] w [OF qos_tokens_ok(2)] by (simp add: desired_texts_def list_all_iff lit_def known_strength_def)
    ultimately show ?thesis by (simp add: qos_line_list_def split: precondition_outcome.split)
  qed
  ultimately show ?thesis
    using assms w [OF show_u_ok(1)] w [OF show_u_ok(2)] w [OF show_u_ok(3)] w [OF word_ok_show_nat] declined_no_newline
    by (auto simp: answer_lines_def bandwidth_lines_def codec_line_list_def dtmf_line_list_def list_all_iff lit_def split: option.split)
qed

definition answerable :: "sdp_offer \<Rightarrow> offered_codec \<Rightarrow> bool" where
  "answerable offer chosen \<longleftrightarrow>
     (\<forall>dm \<in> set (of_other_media offer). declined_ok dm) \<and> trim (oc_fmtp chosen) = oc_fmtp chosen \<and> 10 \<notin> set (oc_fmtp chosen) \<and>
     (oc_payload_type chosen = 0 \<longrightarrow> oc_codec chosen = Pcmu) \<and> (\<forall>(d, r) \<in> set (of_dtmf offer). d \<noteq> 0 \<and> d \<noteq> oc_payload_type chosen)"

lemma dtmf_pick_in: "dtmf_pick c ds = Some e \<Longrightarrow> e \<in> set ds"
  by (auto simp: dtmf_pick_def or_else_def find_Some_iff get_at_Some_iff in_set_conv_nth split: option.splits)

lemma codec_of_named:
  assumes "map_of (oa_rtpmap acc) pt = Some (codec_name c, sample_rate c)" "pt = 0 \<longrightarrow> c = Pcmu"
  shows "codec_of acc pt = Some c"
  using assms by (cases c) (auto simp: codec_of_def PCMU_PAYLOAD_TYPE_def codec_name_def sample_rate_def lit_def)

lemma answer_reads_back:
  assumes "answerable offer chosen"
  shows "parse_offer (fst (build_answer_for a port sid chosen offer rtcp)) = Inr (answered a port chosen offer rtcp)"
proof -
  let ?pick = "dtmf_pick (oc_codec chosen) (of_dtmf offer)"
  let ?pt = "oc_payload_type chosen"
  have ok: "\<forall>dm \<in> set (of_other_media offer). declined_ok dm" "trim (oc_fmtp chosen) = oc_fmtp chosen" "10 \<notin> set (oc_fmtp chosen)"
    "?pt = 0 \<longrightarrow> oc_codec chosen = Pcmu"
    using assms by (auto simp: answerable_def)
  have pick: "d \<noteq> 0 \<and> d \<noteq> ?pt" if "?pick = Some (d, r)" for d r
    using dtmf_pick_in [OF that] assms by (auto simp: answerable_def)
  have session: "fold offer_line (session_lines (lit ''gsm-sip-bridge vowifi bridge'') a sid) offer_acc_init =
      offer_acc_init\<lparr>oa_conn_ip := Some a\<rparr>"
    by (rule read_session_lines) (simp_all add: lit_def is_whitespace_def)
  define acc where "acc = fold offer_line (answer_lines a port sid chosen offer rtcp) offer_acc_init"
  have "parse_offer (fst (build_answer_for a port sid chosen offer rtcp)) = finish_offer acc"
    unfolding parse_offer_def answer_text str_lines_concat [OF answer_lines_no_newline [OF ok(1,3)]] acc_def ..
  moreover have acc: "oa_conn_ip acc = Some a" "oa_rtp_port acc = Some port"
    "oa_listed_pts acc = ?pt # (case ?pick of Some (dpt, _) \<Rightarrow> [dpt] | None \<Rightarrow> [])"
    "oa_rtpmap acc = (case ?pick of Some (dpt, drate) \<Rightarrow> hm_insert dpt (lit ''TELEPHONE-EVENT'', drate) | None \<Rightarrow> (\<lambda>m. m))
        [(?pt, codec_name (oc_codec chosen), sample_rate (oc_codec chosen))]"
    "oa_fmtp acc = (case ?pick of Some (dpt, drate) \<Rightarrow> hm_insert dpt (lit ''0-15'') | None \<Rightarrow> (\<lambda>m. m))
        (if oc_codec chosen \<in> {AmrNb, AmrWb} \<and> oc_fmtp chosen \<noteq> [] then [(?pt, oc_fmtp chosen)] else [])"
    "oa_maxptime acc = of_maxptime offer" "oa_proto acc = lit ''RTP/AVP''"
    "oa_rtcp_port acc = (if rtcp = Some 0 then None else rtcp)" "oa_audio_direction acc = Some (mirror (of_direction offer))"
    "oa_other_media acc = filter dm_before_audio (of_other_media offer) @ filter (\<lambda>dm. \<not> dm_before_audio dm) (of_other_media offer)"
    "oa_preconditions acc = of_preconditions (answered a port chosen offer rtcp)"
    "oa_offerer_curr acc = of_offerer_curr (answered a port chosen offer rtcp)"
    unfolding acc_def answer_lines_def
    by (simp_all only: fold_append comp_apply session fold.simps id_apply)
      (simp_all add: read_declined read_rtcp read_maxptime read_bandwidth read_ptime read_codec read_dtmf read_qos
        offer_line_audio offer_line_direction ok offer_acc_init_def answered_def split: option.split)
  moreover have "List.map_filter (offered_of acc) (oa_listed_pts acc) = of_offered (answered a port chosen offer rtcp) \<and>
      List.map_filter (dtmf_of acc) (oa_listed_pts acc) = of_dtmf (answered a port chosen offer rtcp)"
  proof -
    have rtp: "map_of (oa_rtpmap acc) ?pt = Some (codec_name (oc_codec chosen), sample_rate (oc_codec chosen))"
      using pick by (auto simp: acc update_conv' split: option.split)
    have "codec_name c \<noteq> lit ''TELEPHONE-EVENT''" for c by (cases c) (simp_all add: codec_name_def lit_def)
    then have "dtmf_of acc ?pt = None" by (simp add: dtmf_of_def rtp)
    moreover have "offered_of acc ?pt = Some (chosen\<lparr>oc_fmtp := (if oc_codec chosen \<in> {AmrNb, AmrWb} then oc_fmtp chosen else [])\<rparr>)"
      using pick codec_of_named [OF rtp ok(4)] by (cases chosen) (auto simp: offered_of_def acc update_conv' split: option.split)
    moreover have "offered_of acc d = None \<and> dtmf_of acc d = Some (d, r)" if "?pick = Some (d, r)" for d r
      using pick [OF that] that
      by (auto simp: offered_of_def codec_of_def dtmf_of_def acc update_conv' PCMU_PAYLOAD_TYPE_def lit_def)
    ultimately show ?thesis by (auto simp: acc(3) answered_def map_filter_simps split: option.split)
  qed
  ultimately show ?thesis by (simp add: finish_offer_def answered_def)
qed

section \<open>What a parsed offer satisfies\<close>

lemma trim_trim [simp]: "trim (trim s) = trim s"
  using trim_ends [of s] by (intro trim_id) auto

lemma set_trim: "set (trim s) \<subseteq> set s"
proof -
  have "set (dropWhile P (rev (dropWhile Q s))) \<subseteq> set s" for P Q :: "nat \<Rightarrow> bool"
    using set_dropWhileD [of _ P "rev (dropWhile Q s)"] set_dropWhileD [of _ Q s] by auto
  then show ?thesis by (simp add: trim_def trim_start_def trim_end_def)
qed

lemma set_strip_prefix: "strip_prefix s p = Some r \<Longrightarrow> set r \<subseteq> set s"
  by (auto simp: strip_prefix_def split: if_splits dest: in_set_dropD)

definition acc_ok :: "offer_acc \<Rightarrow> bool" where
  "acc_ok acc \<longleftrightarrow>
     (\<forall>pt f. map_of (oa_fmtp acc) pt = Some f \<longrightarrow> trim f = f \<and> 10 \<notin> set f) \<and>
     (\<forall>dm \<in> set (oa_other_media acc). (dm_kind dm = [] \<or> word_ok (dm_kind dm)) \<and> (dm_proto dm = [] \<or> word_ok (dm_proto dm)) \<and>
        (\<exists>ws. list_all word_ok ws \<and> dm_fmts dm = join_with 32 ws))"

lemma word_at_ok: "list_all word_ok ws \<Longrightarrow> word_at ws i = [] \<or> word_ok (word_at ws i)"
  by (auto simp: word_at_def get_at_def list_all_length)

lemma media_line_ok: "acc_ok acc \<Longrightarrow> acc_ok (media_line rest acc)"
proof -
  assume acc: "acc_ok acc"
  have ws: "list_all word_ok (split_whitespace rest)" by (rule split_whitespace_ok)
  then have "list_all word_ok (drop 3 (split_whitespace rest))" by (auto simp: list_all_iff dest: in_set_dropD)
  then show ?thesis using acc word_at_ok [OF ws] by (auto simp: media_line_def acc_ok_def Let_def)
qed

lemma fmtp_line_ok:
  assumes "acc_ok acc" "10 \<notin> set rest" shows "acc_ok (fmtp_line rest acc)"
proof -
  have "10 \<notin> set (trim params)" if "split_once 32 rest = Some (p, params)" for p params
    using split_once_SomeD [OF that] assms(2) set_trim [of params] by auto
  then show ?thesis using assms(1) by (auto simp: fmtp_line_def acc_ok_def update_conv' split: option.splits prod.splits)
qed

lemma acc_ok_frame:
  "acc_ok acc \<Longrightarrow> acc_ok (rtpmap_line r acc)" "acc_ok acc \<Longrightarrow> acc_ok (rtcp_line r acc)" "acc_ok acc \<Longrightarrow> acc_ok (desired_line r acc)"
  "acc_ok acc \<Longrightarrow> acc_ok (current_line r acc)" "acc_ok acc \<Longrightarrow> acc_ok (connection_line r acc)" "acc_ok acc \<Longrightarrow> acc_ok (direction_line d acc)"
  "acc_ok acc \<Longrightarrow> acc_ok (acc\<lparr>oa_maxptime := m\<rparr>)"
  by (auto simp: acc_ok_def rtpmap_line_def rtcp_line_def desired_line_def current_line_def connection_line_def direction_line_def
      split: option.splits prod.splits list.splits)

lemma offer_line_ok:
  assumes "acc_ok acc" "10 \<notin> set raw" shows "acc_ok (offer_line raw acc)"
proof -
  have line: "10 \<notin> set (trim raw)" using assms(2) set_trim by blast
  then have "10 \<notin> set rest" if "strip_prefix (trim raw) p = Some rest" for p rest using set_strip_prefix [OF that] by blast
  then have "acc_ok (audio_attribute (trim raw) acc)"
    using assms(1) by (auto simp: audio_attribute_def acc_ok_frame fmtp_line_ok split: option.split)
  then show ?thesis
    using assms(1) by (auto simp: offer_line_def Let_def acc_ok_frame media_line_ok split: option.split)
qed

lemma fold_offer_line_ok: "acc_ok acc \<Longrightarrow> list_all (\<lambda>l. 10 \<notin> set l) ls \<Longrightarrow> acc_ok (fold offer_line ls acc)"
  by (induction ls arbitrary: acc) (simp_all add: offer_line_ok)

text \<open>The offers an answer can be read back for: named media sections, the negotiated audio section first
  among the audio sections, and no telephone event on the static payload type of PCMU.\<close>

definition ordinary :: "sdp_offer \<Rightarrow> bool" where
  "ordinary offer \<longleftrightarrow>
     list_all (\<lambda>dm. dm_kind dm \<noteq> [] \<and> dm_proto dm \<noteq> [] \<and> \<not> (dm_before_audio dm \<and> dm_kind dm = lit ''audio'')) (of_other_media offer) \<and>
     0 \<notin> fst ` set (of_dtmf offer)"

lemma map_filter_mem: "y \<in> set (List.map_filter f xs) \<longleftrightarrow> (\<exists>x \<in> set xs. f x = Some y)"
  by (force simp: List.map_filter_def)

lemma parsed_answerable:
  assumes "parse_offer body = Inr offer" "chosen \<in> set (of_offered offer)" "ordinary offer"
  shows "answerable offer chosen"
proof -
  define acc where "acc = fold offer_line (str_lines body) offer_acc_init"
  have "acc_ok offer_acc_init" by (simp add: acc_ok_def offer_acc_init_def)
  then have ok: "acc_ok acc"
    unfolding acc_def by (intro fold_offer_line_ok) (simp_all add: list_all_iff str_lines_no_newline)
  from assms(1) have offer: "of_other_media offer = oa_other_media acc"
    "of_offered offer = List.map_filter (offered_of acc) (oa_listed_pts acc)" "of_dtmf offer = List.map_filter (dtmf_of acc) (oa_listed_pts acc)"
    by (auto simp: parse_offer_def finish_offer_def acc_def and_then_Inr_iff Let_def split: if_splits)
  from assms(2) offer(2) obtain c where c: "codec_of acc (oc_payload_type chosen) = Some c" "oc_codec chosen = c"
    "oc_fmtp chosen = (case map_of (oa_fmtp acc) (oc_payload_type chosen) of Some f \<Rightarrow> f | None \<Rightarrow> [])"
    by (auto simp: map_filter_mem offered_of_def)
  have "trim (oc_fmtp chosen) = oc_fmtp chosen" "10 \<notin> set (oc_fmtp chosen)"
    using ok by (auto simp: c(3) acc_ok_def trim_def trim_start_def trim_end_def split: option.split)
  moreover have "oc_payload_type chosen = 0 \<longrightarrow> oc_codec chosen = Pcmu"
    using c(1,2) by (auto simp: codec_of_def PCMU_PAYLOAD_TYPE_def)
  moreover have "declined_ok dm" if "dm \<in> set (of_other_media offer)" for dm
    using that ok assms(3) by (auto simp: offer(1) acc_ok_def ordinary_def list_all_iff declined_ok_def)
  moreover have "d \<noteq> 0 \<and> d \<noteq> oc_payload_type chosen" if "(d, r) \<in> set (of_dtmf offer)" for d r
  proof -
    have "d \<noteq> 0" using that assms(3) by (force simp: ordinary_def)
    moreover have "map_of (oa_rtpmap acc) d = Some (lit ''TELEPHONE-EVENT'', r)"
      using that by (auto simp: offer(3) map_filter_mem dtmf_of_def split: option.splits if_splits)
    then have "codec_of acc d = None" if "d \<noteq> 0" using that by (simp add: codec_of_def PCMU_PAYLOAD_TYPE_def lit_def)
    ultimately show ?thesis using c(1) by auto
  qed
  ultimately show ?thesis by (auto simp: answerable_def)
qed

lemma pick_offered_in: "pick_offered offer codec = Some c \<Longrightarrow> c \<in> set (of_offered offer) \<and> oc_codec c = codec"
proof -
  assume "pick_offered offer codec = Some c"
  then have "c \<in> set (filter (\<lambda>c. oc_codec c = codec) (of_offered offer))"
    unfolding pick_offered_def Let_def
    by (auto simp del: set_filter simp: get_at_Some_iff find_Some_iff in_set_conv_nth split: option.splits)
  then show ?thesis by simp
qed

lemma select_codec_with_in: "select_codec_with offer amr wide pref = Some c \<Longrightarrow> c \<in> set (of_offered offer)"
  by (auto simp: select_codec_with_def or_else_def Let_def dest: pick_offered_in split: if_splits option.splits answer_preference.splits)

section \<open>Both ends of a call\<close>

definition pcmu_offered :: offered_codec where
  "pcmu_offered = \<lparr>oc_payload_type = PCMU_PAYLOAD_TYPE, oc_codec = Pcmu, oc_fmtp = []\<rparr>"

definition wideband_offered :: offered_codec where
  "wideband_offered = \<lparr>oc_payload_type = AMR_WB_PAYLOAD_TYPE, oc_codec = AmrWb, oc_fmtp = lit ''octet-align=1''\<rparr>"

definition offers :: "codec_offer \<Rightarrow> offered_codec list" where
  "offers co =
     (case co of PcmuOnly \<Rightarrow> [pcmu_offered] | PcmuThenWideband \<Rightarrow> [pcmu_offered, wideband_offered]
      | WidebandThenPcmu \<Rightarrow> [wideband_offered, pcmu_offered])"

definition offer_lines :: "ip \<Rightarrow> u16 \<Rightarrow> u64 \<Rightarrow> codec_offer \<Rightarrow> text_string list" where
  "offer_lines a port sid co =
     session_lines (lit ''gsm-sip-bridge test call'') a sid @ [media_text port (map oc_payload_type (offers co))] @
     concat (map codec_line_list (offers co)) @ [mirrored SendRecv]"

lemma offer_text: "build_offer a port sid co = concat (map crlf (offer_lines a port sid co))"
  by (cases co)
    (simp_all add: build_offer_def offer_lines_def session_lines_def offers_def pcmu_offered_def wideband_offered_def
      codec_line_list_def codec_name_def sample_rate_def show_rates mirrored_def media_text_def join_with_def Let_def,
     simp_all add: lit_def)

lemma offer_lines_no_newline: "list_all (\<lambda>l. 10 \<notin> set l) (offer_lines a port sid co)"
proof -
  note w = word_ok_no_newline
  have "10 \<notin> set (media_text port pts)" for pts
  proof -
    have "10 \<notin> set (join_with 32 (show_u16 port # lit ''RTP/AVP'' # map show_u8 pts))"
      by (rule join_no_newline) (simp add: list_all_iff)
    moreover have "10 \<notin> set (lit ''m=audio '')" by (simp add: lit_def)
    ultimately show ?thesis by (simp add: media_text_def)
  qed
  then show ?thesis
    using w [OF show_u_ok(1)] w [OF show_u_ok(3)] w [OF word_ok_show_ip] w [OF word_ok_show_nat]
    by (cases co)
      (simp_all add: offer_lines_def session_lines_def Let_def offers_def pcmu_offered_def wideband_offered_def codec_line_list_def
        codec_name_def ip_addrtype_def mirrored_def lit_def)
qed

text \<open>What the far end reads in an offer of this bridge.\<close>

definition read_offer :: "ip \<Rightarrow> u16 \<Rightarrow> codec_offer \<Rightarrow> sdp_offer" where
  "read_offer a port co =
     \<lparr>of_remote_rtp = (a, port), of_offered = offers co, of_dtmf = [], of_maxptime = None, of_direction = SendRecv,
      of_proto = lit ''RTP/AVP'', of_other_media = [], of_rtcp = None, of_preconditions = [], of_offerer_curr = []\<rparr>"

lemma offer_reads_back: "parse_offer (build_offer a port sid co) = Inr (read_offer a port co)"
proof -
  have session: "fold offer_line (session_lines (lit ''gsm-sip-bridge test call'') a sid) offer_acc_init =
      offer_acc_init\<lparr>oa_conn_ip := Some a\<rparr>"
    by (rule read_session_lines) (simp_all add: lit_def is_whitespace_def)
  have trim: "trim (oc_fmtp wideband_offered) = oc_fmtp wideband_offered" "trim (oc_fmtp pcmu_offered) = oc_fmtp pcmu_offered"
    by (simp_all add: wideband_offered_def pcmu_offered_def lit_def trim_def trim_start_def trim_end_def is_whitespace_def)
  define acc where "acc = fold offer_line (offer_lines a port sid co) offer_acc_init"
  have "parse_offer (build_offer a port sid co) = finish_offer acc"
    unfolding parse_offer_def offer_text str_lines_concat [OF offer_lines_no_newline] acc_def ..
  also have "\<dots> = Inr (read_offer a port co)"
    unfolding acc_def offer_lines_def
    by (cases co; simp only: fold_append comp_apply session fold.simps id_apply offers_def codec_offer.case;
        simp add: trim read_codec offer_line_audio offer_line_direction offer_acc_init_def;
        simp add: finish_offer_def read_offer_def offers_def wideband_offered_def pcmu_offered_def map_filter_simps offered_of_def
          codec_of_def dtmf_of_def PCMU_PAYLOAD_TYPE_def AMR_WB_PAYLOAD_TYPE_def codec_name_def sample_rate_def mirror_def lit_def)
  finally show ?thesis .
qed

lemma trim_Cons: "\<not> is_whitespace c \<Longrightarrow> \<exists>r. trim (c # s) = c # r"
proof -
  assume c: "\<not> is_whitespace c"
  then have t: "trim (c # s) = rev (dropWhile is_whitespace (rev s @ [c]))" by (simp add: trim_def trim_start_def trim_end_def)
  show ?thesis
  proof (cases "\<forall>x \<in> set s. is_whitespace x")
    case True
    then have "dropWhile is_whitespace (rev s @ [c]) = [c]" using c by (subst dropWhile_append2) auto
    then show ?thesis by (simp add: t)
  next
    case False
    then obtain x where "x \<in> set (rev s)" "\<not> is_whitespace x" by auto
    then have "dropWhile is_whitespace (rev s @ [c]) = dropWhile is_whitespace (rev s) @ [c]"
      by (rule dropWhile_append1)
    then show ?thesis by (simp add: t)
  qed
qed

lemma answer_line_other:
  assumes "l \<noteq> []" "\<not> is_whitespace (hd l)" "hd l \<notin> {99, 109}" shows "answer_line l acc = acc"
proof -
  obtain c s where l: "l = c # s" using assms(1) by (cases l) auto
  moreover obtain r where "trim l = c # r" using trim_Cons [of c s] assms(2) l by auto
  ultimately show ?thesis using assms(3)
    by (cases acc) (auto simp: answer_line_def Let_def strip_prefix_def starts_with_def lit_def)
qed

lemma answer_line_connection:
  "answer_line (lit ''c=IN '' @ ip_addrtype a @ lit '' '' @ show_ip a) (i, p, t) = (Some a, p, t)"
proof -
  have "word_ok (ip_addrtype a)" by (simp add: ip_addrtype_def word_ok_def lit_def is_whitespace_def)
  then have "split_whitespace (ip_addrtype a @ lit '' '' @ show_ip a) = [ip_addrtype a, show_ip a]"
    using split_whitespace_space [of "ip_addrtype a" "show_ip a"] by (simp add: lit_def split_whitespace_word)
  moreover have "trim (lit ''c=IN '' @ ip_addrtype a @ lit '' '' @ show_ip a) = lit ''c=IN '' @ ip_addrtype a @ lit '' '' @ show_ip a"
    using trim_line [of "lit ''c=IN '' @ ip_addrtype a @ lit '' ''" "show_ip a"] by (simp add: lit_def is_whitespace_def)
  ultimately show ?thesis by (simp add: answer_line_def parse_ip_show)
qed

lemma answer_line_media:
  "answer_line (media_text port (pt # pts)) (i, p, t) = (i, Some port, Some pt)"
proof -
  let ?ws = "show_u16 port # lit ''RTP/AVP'' # map show_u8 (pt # pts)"
  have ok: "list_all word_ok ?ws" by (simp add: list_all_iff)
  have "trim (media_text port (pt # pts)) = media_text port (pt # pts)"
    unfolding media_text_def using ok by (intro trim_line_words) (simp_all add: lit_def is_whitespace_def)
  moreover have "strip_prefix (media_text port (pt # pts)) (lit ''c=IN '') = None"
    by (simp add: media_text_def strip_prefix_def starts_with_def lit_def)
  moreover have "strip_prefix (media_text port (pt # pts)) (lit ''m=audio '') = Some (join_with 32 ?ws)"
    by (simp add: media_text_def)
  ultimately show ?thesis
    using split_whitespace_join [OF ok] by (simp add: answer_line_def numeral_2_eq_2)
qed

lemma read_answer:
  assumes "of_other_media offer = []"
  shows "fold answer_line (answer_lines a port sid chosen offer rtcp) (None, None, None) = (Some a, Some port, Some (oc_payload_type chosen))"
proof -
  have other: "fold answer_line ls acc = acc" if "\<forall>l \<in> set ls. l \<noteq> [] \<and> hd l \<in> {97, 98, 111, 115, 116, 118}" for ls acc
    using that by (induction ls) (auto simp: answer_line_other is_whitespace_def)
  let ?media = "media_text port (oc_payload_type chosen # (case dtmf_pick (oc_codec chosen) (of_dtmf offer) of Some (dpt, _) \<Rightarrow> [dpt] | None \<Rightarrow> []))"
  obtain h t rest where parts: "answer_lines a port sid chosen offer rtcp =
      h @ [lit ''c=IN '' @ ip_addrtype a @ lit '' '' @ show_ip a] @ t @ [?media] @ rest"
    "\<forall>l \<in> set (h @ t @ rest). l \<noteq> [] \<and> hd l \<in> {97, 98, 111, 115, 116, 118}"
  proof
    let ?h = "take 3 (session_lines (lit ''gsm-sip-bridge vowifi bridge'') a sid)"
    let ?rest = "(case rtcp of Some p \<Rightarrow> [lit ''a=rtcp:'' @ show_u16 p] | None \<Rightarrow> []) @ bandwidth_lines (oc_codec chosen) @
        codec_line_list chosen @ dtmf_line_list (dtmf_pick (oc_codec chosen) (of_dtmf offer)) @ [lit ''a=ptime:20''] @
        (case of_maxptime offer of Some mp \<Rightarrow> [lit ''a=maxptime:'' @ show_u32 mp] | None \<Rightarrow> []) @ [mirrored (of_direction offer)] @ qos_line_list offer"
    show "answer_lines a port sid chosen offer rtcp =
      ?h @ [lit ''c=IN '' @ ip_addrtype a @ lit '' '' @ show_ip a] @ [lit ''t=0 0''] @ [?media] @ ?rest"
      using assms by (simp add: answer_lines_def session_lines_def Let_def)
    have m: "mirrored d \<noteq> [] \<and> hd (mirrored d) = 97" for d by (cases d) (simp_all add: mirrored_def lit_def)
    have q: "\<forall>l \<in> set (qos_line_list offer). l \<noteq> [] \<and> hd l = 97"
      by (auto simp: qos_line_list_def current_texts_def desired_texts_def lit_def split: precondition_outcome.splits)
    have "\<forall>l \<in> set ?rest. l \<noteq> [] \<and> hd l \<in> {97, 98}"
      using m q by (auto simp: bandwidth_lines_def codec_line_list_def dtmf_line_list_def lit_def split: option.splits)
    then show "\<forall>l \<in> set (?h @ [lit ''t=0 0''] @ ?rest). l \<noteq> [] \<and> hd l \<in> {97, 98, 111, 115, 116, 118}"
      by (auto simp: session_lines_def Let_def lit_def)
  qed
  show ?thesis unfolding parts(1) using parts(2) by (simp add: other answer_line_connection answer_line_media)
qed

text \<open>A codec this bridge itself offers.\<close>

lemma agreed_codec:
  assumes "chosen \<in> set (offers co)"
  shows "parse_answer (concat (map crlf (answer_lines a port sid chosen (read_offer b q co) rtcp))) =
      Inr \<lparr>an_remote_rtp = (a, port), an_codec = oc_codec chosen\<rparr>"
    and "offered_chosen_codec (oc_codec chosen) = Some (snd (build_answer_for a port sid chosen (read_offer b q co) rtcp))"
proof -
  have c: "chosen = pcmu_offered \<or> chosen = wideband_offered" using assms by (cases co) (auto simp: offers_def)
  then have "10 \<notin> set (oc_fmtp chosen)" by (auto simp: pcmu_offered_def wideband_offered_def lit_def)
  then have "list_all (\<lambda>l. 10 \<notin> set l) (answer_lines a port sid chosen (read_offer b q co) rtcp)"
    by (intro answer_lines_no_newline) (simp_all add: read_offer_def)
  with c show "parse_answer (concat (map crlf (answer_lines a port sid chosen (read_offer b q co) rtcp))) =
      Inr \<lparr>an_remote_rtp = (a, port), an_codec = oc_codec chosen\<rparr>"
    by (auto simp: parse_answer_def str_lines_concat read_answer read_offer_def pcmu_offered_def wideband_offered_def
        PCMU_PAYLOAD_TYPE_def AMR_WB_PAYLOAD_TYPE_def)
  show "offered_chosen_codec (oc_codec chosen) = Some (snd (build_answer_for a port sid chosen (read_offer b q co) rtcp))"
    using c by (auto simp: offered_chosen_codec_def build_answer_for_def pcmu_offered_def wideband_offered_def read_offer_def
        dtmf_pick_def or_else_def is_octet_aligned_def lit_def trim_def trim_start_def trim_end_def is_whitespace_def Let_def)
qed

section \<open>The sections of an answer\<close>

text \<open>
  The words of every \<open>m=\<close> line of a description, in order. A section is declined by repeating its words with the port
  replaced by zero (RFC 3264, section 6).
\<close>

definition section_words :: "text_string \<Rightarrow> text_string list option" where
  "section_words l = map_option split_whitespace (strip_prefix (trim l) (lit ''m=''))"

definition media_sections :: "text_string \<Rightarrow> text_string list list" where
  "media_sections body = List.map_filter section_words (str_lines body)"

definition declined_section :: "text_string list \<Rightarrow> text_string list" where
  "declined_section ws = ws[1 := lit ''0'']"

definition section_media :: "bool \<Rightarrow> text_string list \<Rightarrow> declined_media" where
  "section_media before ws =
     \<lparr>dm_kind = word_at ws 0, dm_proto = word_at ws 2, dm_fmts = join_with 32 (drop 3 ws), dm_before_audio = before\<rparr>"

lemma map_filter_append: "List.map_filter f (xs @ ys) = List.map_filter f xs @ List.map_filter f ys"
  by (simp add: List.map_filter_def)

lemma audio_words: "starts_with rest (lit ''audio '') \<Longrightarrow> split_whitespace rest = lit ''audio'' # split_whitespace (drop 6 rest)"
proof -
  assume "starts_with rest (lit ''audio '')"
  then have "take 6 rest = lit ''audio'' @ [32]" by (simp add: starts_with_def lit_def numeral_eq_Suc)
  then have "rest = lit ''audio'' @ 32 # drop 6 rest" by (metis append_take_drop_id append.assoc append_Cons append_Nil)
  then show ?thesis
    using split_whitespace_space [of "lit ''audio''" "drop 6 rest"] by (simp add: word_ok_def lit_def is_whitespace_def)
qed

text \<open>What \<open>parse_offer\<close> remembers of the sections it has passed.\<close>

definition sections_read :: "text_string list list \<Rightarrow> offer_acc \<Rightarrow> bool" where
  "sections_read ss acc \<longleftrightarrow>
     (if oa_audio_seen acc then
        (\<exists>before audio after. ss = before @ (lit ''audio'' # audio) # after \<and>
           oa_other_media acc = map (section_media True) before @ map (section_media False) after)
      else oa_rtp_port acc = None \<and> oa_other_media acc = map (section_media True) ss)"

lemma sections_read_frame:
  "\<lbrakk>oa_audio_seen acc' = oa_audio_seen acc; oa_other_media acc' = oa_other_media acc; oa_audio_seen acc' \<or> oa_rtp_port acc' = oa_rtp_port acc\<rbrakk> \<Longrightarrow>
   sections_read ss acc \<Longrightarrow> sections_read ss acc'"
  by (auto simp: sections_read_def)

lemma sections_read_media: "sections_read ss acc \<Longrightarrow> sections_read (ss @ [split_whitespace rest]) (media_line rest acc)"
proof -
  assume read: "sections_read ss acc"
  consider (audio) "\<not> oa_audio_seen acc" "starts_with rest (lit ''audio '')" | (later) "oa_audio_seen acc" |
    (other) "\<not> oa_audio_seen acc" "\<not> starts_with rest (lit ''audio '')" by blast
  then show ?thesis
  proof cases
    case audio
    with read show ?thesis
      by (force simp: sections_read_def media_line_def audio_words Let_def)
  next
    case later
    with read obtain before audio after where "ss = before @ (lit ''audio'' # audio) # after"
      "oa_other_media acc = map (section_media True) before @ map (section_media False) after" by (auto simp: sections_read_def)
    moreover have seen: "oa_audio_seen (media_line rest acc)"
      "oa_other_media (media_line rest acc) = oa_other_media acc @ [section_media False (split_whitespace rest)]"
      using later by (simp_all add: media_line_def section_media_def Let_def)
    ultimately have "ss @ [split_whitespace rest] = before @ (lit ''audio'' # audio) # (after @ [split_whitespace rest])"
      "oa_other_media (media_line rest acc) = map (section_media True) before @ map (section_media False) (after @ [split_whitespace rest])"
      by simp_all
    then show ?thesis unfolding sections_read_def if_P [OF seen(1)] by blast
  qed (use read in \<open>simp add: sections_read_def media_line_def section_media_def Let_def\<close>)
qed

abbreviation sections_kept :: "offer_acc \<Rightarrow> bool \<times> declined_media list \<times> u16 option" where
  "sections_kept acc \<equiv> (oa_audio_seen acc, oa_other_media acc, oa_rtp_port acc)"

lemma sections_kept_lines:
  "sections_kept (connection_line r acc) = sections_kept acc" "sections_kept (direction_line d acc) = sections_kept acc"
  "sections_kept (rtpmap_line r acc) = sections_kept acc" "sections_kept (fmtp_line r acc) = sections_kept acc"
  "sections_kept (rtcp_line r acc) = sections_kept acc" "sections_kept (desired_line r acc) = sections_kept acc"
  "sections_kept (current_line r acc) = sections_kept acc"
        apply (simp add: connection_line_def split: option.split)
       apply (simp add: direction_line_def)
      apply (simp add: rtpmap_line_def split: option.split prod.split)
     apply (simp add: fmtp_line_def split: option.split prod.split)
    apply (simp add: rtcp_line_def)
   apply (simp add: desired_line_def split: option.split list.split)
  apply (simp add: current_line_def split: option.split list.split)
  done

lemma sections_kept_attribute: "sections_kept (audio_attribute l acc) = sections_kept acc"
  unfolding audio_attribute_def
  using sections_kept_lines by (auto split: option.split)

lemma sections_read_line:
  assumes "sections_read ss acc"
  shows "sections_read (ss @ (case section_words l of Some ws \<Rightarrow> [ws] | None \<Rightarrow> [])) (offer_line l acc)"
proof (cases "strip_prefix (trim l) (lit ''m='')")
  case (Some rest)
  then show ?thesis using sections_read_media [OF assms] by (simp add: section_words_def offer_line_def)
next
  case None
  then have "sections_kept (offer_line l acc) = sections_kept acc"
    using sections_kept_lines(1,2) sections_kept_attribute [of "trim l" acc] by (auto simp: offer_line_def Let_def split: option.split)
  then show ?thesis using sections_read_frame [OF _ _ _ assms] None by (simp add: section_words_def)
qed

lemma sections_read_lines:
  "sections_read ss acc \<Longrightarrow> sections_read (ss @ List.map_filter section_words ls) (fold offer_line ls acc)"
proof (induction ls arbitrary: ss acc)
  case (Cons l ls)
  then show ?case
    using Cons.IH [OF sections_read_line [OF Cons.prems, of l]] by (cases "section_words l") (simp_all add: map_filter_simps)
qed (simp add: map_filter_simps)

lemma offer_sections:
  assumes "parse_offer body = Inr offer"
  obtains before audio after where "media_sections body = before @ (lit ''audio'' # audio) # after"
    "of_other_media offer = map (section_media True) before @ map (section_media False) after"
proof -
  let ?acc = "fold offer_line (str_lines body) offer_acc_init"
  have "sections_read [] offer_acc_init" by (simp add: sections_read_def offer_acc_init_def)
  from sections_read_lines [OF this] have read: "sections_read (media_sections body) ?acc" by (simp add: media_sections_def)
  moreover have "oa_rtp_port ?acc \<noteq> None" "of_other_media offer = oa_other_media ?acc"
    using assms by (auto simp: parse_offer_def finish_offer_def and_then_Inr_iff ok_or_def Let_def split: if_splits option.splits)
  ultimately show ?thesis using that by (auto simp: sections_read_def split: if_splits)
qed

text \<open>The sections of the answer's text.\<close>

lemma not_section: "l \<noteq> [] \<Longrightarrow> \<not> is_whitespace (hd l) \<Longrightarrow> hd l \<noteq> 109 \<Longrightarrow> section_words l = None"
  using trim_Cons [of "hd l" "tl l"] by (cases l) (auto simp: section_words_def strip_prefix_def starts_with_def lit_def)

lemma declined_words:
  assumes "list_all word_ok ws" "3 \<le> length ws"
  shows "section_words (declined_line (section_media b ws)) = Some (declined_section ws)"
proof -
  obtain k q r fs where ws: "ws = k # q # r # fs" using assms(2) by (auto simp: numeral_3_eq_3 Suc_le_length_iff)
  let ?ws = "k # lit ''0'' # r # fs"
  have ok: "word_ok k" "list_all word_ok ?ws" using assms(1) by (simp_all add: ws word_ok_def lit_def is_whitespace_def)
  have "join_with 32 fs = [] \<longleftrightarrow> fs = []" using ok(2) by (cases fs) (auto simp: join_with_def word_ok_def)
  then have line: "declined_line (section_media b ws) = lit ''m='' @ join_with 32 ?ws"
    by (cases fs) (auto simp: declined_line_def section_media_def word_at_def ws numeral_3_eq_3 numeral_2_eq_2 join_with_Cons lit_def,
      simp add: join_with_def)
  have "trim (lit ''m='' @ join_with 32 ?ws) = lit ''m='' @ join_with 32 ?ws"
    using ok by (intro trim_line_words) (simp_all add: lit_def is_whitespace_def)
  then show ?thesis unfolding section_words_def line using split_whitespace_join [OF ok(2)] by (simp add: declined_section_def ws)
qed

lemma audio_section_words:
  "section_words (media_text port (pt # pts)) = Some (lit ''audio'' # show_u16 port # lit ''RTP/AVP'' # map show_u8 (pt # pts))"
proof -
  let ?ws = "show_u16 port # lit ''RTP/AVP'' # map show_u8 (pt # pts)"
  have ok: "word_ok (show_u16 port)" "list_all word_ok ?ws" by (simp_all add: list_all_iff)
  have "trim (media_text port (pt # pts)) = media_text port (pt # pts)"
    unfolding media_text_def using ok by (intro trim_line_words) (simp_all add: lit_def is_whitespace_def)
  moreover have "media_text port (pt # pts) = lit ''m='' @ lit ''audio'' @ 32 # join_with 32 ?ws" by (simp add: media_text_def lit_def)
  ultimately show ?thesis
    using split_whitespace_space [of "lit ''audio''" "join_with 32 ?ws"] split_whitespace_join [OF ok(2)]
    by (simp add: section_words_def word_ok_def is_whitespace_def) (simp add: lit_def is_whitespace_def)
qed

lemma answer_sections:
  assumes "of_other_media offer = map (section_media True) before @ map (section_media False) after"
    "list_all (\<lambda>ws. list_all word_ok ws \<and> 3 \<le> length ws) (before @ after)"
  shows "List.map_filter section_words (answer_lines a port sid chosen offer rtcp) =
    map declined_section before @
    (lit ''audio'' # show_u16 port # lit ''RTP/AVP'' # show_u8 (oc_payload_type chosen) #
       (case dtmf_pick (oc_codec chosen) (of_dtmf offer) of Some (dpt, _) \<Rightarrow> [show_u8 dpt] | None \<Rightarrow> [])) #
    map declined_section after"
proof -
  have none: "List.map_filter section_words ls = []" if "\<forall>l \<in> set ls. l \<noteq> [] \<and> hd l \<in> {97, 98, 99, 111, 115, 116, 118}" for ls
    using that by (induction ls) (auto simp: map_filter_simps not_section is_whitespace_def)
  have each: "section_words (declined_line (section_media b ws)) = Some (declined_section ws)" if "ws \<in> set (before @ after)" for b ws
    using that assms(2) by (intro declined_words) (auto simp: list_all_iff)
  then have decl: "List.map_filter section_words (map (declined_line \<circ> section_media b) wss) = map declined_section wss"
    if "set wss \<subseteq> set (before @ after)" for b wss
    using that by (induction wss) (simp_all add: map_filter_simps)
  have "filter dm_before_audio (of_other_media offer) = map (section_media True) before"
    "filter (\<lambda>dm. \<not> dm_before_audio dm) (of_other_media offer) = map (section_media False) after"
    by (simp_all add: assms(1) filter_map comp_def section_media_def)
  moreover have "List.map_filter section_words (session_lines (lit ''gsm-sip-bridge vowifi bridge'') a sid) = []"
    by (rule none) (simp add: session_lines_def Let_def lit_def)
  moreover have "List.map_filter section_words
      ((case rtcp of Some p \<Rightarrow> [lit ''a=rtcp:'' @ show_u16 p] | None \<Rightarrow> []) @ bandwidth_lines (oc_codec chosen) @ codec_line_list chosen @
       dtmf_line_list (dtmf_pick (oc_codec chosen) (of_dtmf offer)) @ [lit ''a=ptime:20''] @
       (case of_maxptime offer of Some mp \<Rightarrow> [lit ''a=maxptime:'' @ show_u32 mp] | None \<Rightarrow> []) @ [mirrored (of_direction offer)] @ qos_line_list offer) = []"
  proof (rule none)
    have "mirrored d \<noteq> [] \<and> hd (mirrored d) = 97" for d by (cases d) (simp_all add: mirrored_def lit_def)
    moreover have "\<forall>l \<in> set (qos_line_list offer). l \<noteq> [] \<and> hd l = 97"
      by (auto simp: qos_line_list_def current_texts_def desired_texts_def lit_def split: precondition_outcome.splits)
    ultimately show "\<forall>l \<in> set ((case rtcp of Some p \<Rightarrow> [lit ''a=rtcp:'' @ show_u16 p] | None \<Rightarrow> []) @ bandwidth_lines (oc_codec chosen) @ codec_line_list chosen @
       dtmf_line_list (dtmf_pick (oc_codec chosen) (of_dtmf offer)) @ [lit ''a=ptime:20''] @
       (case of_maxptime offer of Some mp \<Rightarrow> [lit ''a=maxptime:'' @ show_u32 mp] | None \<Rightarrow> []) @ [mirrored (of_direction offer)] @ qos_line_list offer).
       l \<noteq> [] \<and> hd l \<in> {97, 98, 99, 111, 115, 116, 118}"
      by (auto simp: bandwidth_lines_def codec_line_list_def dtmf_line_list_def lit_def split: option.splits)
  qed
  ultimately show ?thesis
    using decl [of before True] decl [of after False]
    by (auto simp: answer_lines_def map_filter_append map_filter_simps audio_section_words split: option.splits)
qed

section \<open>What an answer owes to the offer\<close>

text \<open>The telephone event of the answer: one the offer has, at the clock rate of the codec when the offer has such a one.\<close>

definition event_answered :: "negotiated_codec \<Rightarrow> (u8 \<times> u32) list \<Rightarrow> (u8 \<times> u32) list \<Rightarrow> bool" where
  "event_answered codec offered events \<longleftrightarrow>
     (if offered = [] then events = []
      else list_ex (\<lambda>e. events = [e] \<and> (snd e = sample_rate codec \<or> list_all (\<lambda>e'. snd e' \<noteq> sample_rate codec) offered)) offered)"

lemma dtmf_pick_answered:
  "event_answered codec offered (case dtmf_pick codec offered of Some e \<Rightarrow> [e] | None \<Rightarrow> [])"
proof -
  let ?r = "sample_rate codec"
  have pick: "dtmf_pick codec offered = or_else (find (\<lambda>(_, rate). rate = ?r) offered) (get_at offered 0)"
    by (cases codec) (simp_all add: dtmf_pick_def sample_rate_def)
  show ?thesis
  proof (cases "find (\<lambda>(_, rate). rate = ?r) offered")
    case None
    then have "list_all (\<lambda>e'. snd e' \<noteq> ?r) offered" by (auto simp: find_None_iff list_all_iff)
    then show ?thesis using pick None by (cases offered) (auto simp: event_answered_def or_else_def get_at_def)
  next
    case (Some e)
    then have "e \<in> set offered" "snd e = ?r" by (auto simp: find_Some_iff in_set_conv_nth)
    then show ?thesis using pick Some by (auto simp: event_answered_def or_else_def list_ex_iff)
  qed
qed

text \<open>A reservation seen from the other end: what one end sends the other receives, and its segment is the other's remote one.\<close>

definition qos_sends :: "qos_direction \<Rightarrow> bool" where
  "qos_sends d \<longleftrightarrow> d = QdSend \<or> d = QdSendRecv"

definition qos_receives :: "qos_direction \<Rightarrow> bool" where
  "qos_receives d \<longleftrightarrow> d = QdRecv \<or> d = QdSendRecv"

definition opposite :: "qos_direction \<Rightarrow> qos_direction \<Rightarrow> bool" where
  "opposite d d' \<longleftrightarrow> qos_sends d' = qos_receives d \<and> qos_receives d' = qos_sends d"

definition same_segment :: "qos_status_type \<Rightarrow> qos_status_type \<Rightarrow> bool" where
  "same_segment t t' \<longleftrightarrow> (t, t') \<in> {(Local, Remote), (Remote, Local), (E2e, E2e)}"

text \<open>
  The preconditions of an answer read back, against those of the offer. With a mandatory end-to-end one there are none.
  Otherwise every desired line of known strength is repeated from the other end; the offerer's own current statuses come back
  from the other end; the answerer's own segment is met as far as it was asked for; and an end-to-end status is none or one
  of the offerer's, seen from the other end.
\<close>

definition qos_answered :: "sdp_offer \<Rightarrow> sdp_offer \<Rightarrow> bool" where
  "qos_answered offer r \<longleftrightarrow>
     (let desired = of_preconditions offer;
          stated = of_offerer_curr offer;
          current = (\<lambda>t. filter (\<lambda>c. qs_status_type c = t) (of_offerer_curr r))
      in if list_ex (\<lambda>l. qd_status_type l = E2e \<and> qd_strength l = QsMandatory) desired
         then of_preconditions r = [] \<and> of_offerer_curr r = []
         else
           list_all2 (\<lambda>l l'. qd_strength l' = qd_strength l \<and> same_segment (qd_status_type l) (qd_status_type l') \<and>
               opposite (qd_direction l) (qd_direction l')) (filter known_strength desired) (of_preconditions r) \<and>
           list_all2 (\<lambda>s c. opposite (qs_met s) (qs_met c)) (filter (\<lambda>s. qs_status_type s = Local) stated) (current Remote) \<and>
           list_all2 (\<lambda>l c. opposite (qd_direction l) (qs_met c)) (filter (\<lambda>l. qd_status_type l = Remote) desired) (current Local) \<and>
           list_all2 (\<lambda>l c. qs_met c = QdNone \<or> list_ex (\<lambda>s. opposite (qs_met s) (qs_met c)) stated)
             (filter (\<lambda>l. qd_status_type l = E2e) desired) (current E2e))"

lemma opposite_invert: "opposite d (invert_qos_direction d)"
  by (cases d) (simp_all add: opposite_def qos_sends_def qos_receives_def invert_qos_direction_def)

lemma same_segment_invert: "same_segment t (invert_qos_status_type t)"
  by (cases t) (simp_all add: same_segment_def invert_qos_status_type_def)

lemma current_lines_None: "current_lines e ls = None \<longleftrightarrow> list_ex (\<lambda>l. qd_status_type l = E2e \<and> qd_strength l = QsMandatory) ls"
  by (induction ls) (auto split: qos_status_type.splits)

lemma current_lines_Some:
  "current_lines e ls = Some cur \<Longrightarrow>
     filter (\<lambda>c. qa_status_type c = Remote) cur = [] \<and>
     filter (\<lambda>c. qa_status_type c = Local) cur =
       map (\<lambda>l. \<lparr>qa_status_type = Local, qa_met = invert_qos_direction (qd_direction l)\<rparr>) (filter (\<lambda>l. qd_status_type l = Remote) ls) \<and>
     filter (\<lambda>c. qa_status_type c = E2e) cur = map (\<lambda>l. \<lparr>qa_status_type = E2e, qa_met = e\<rparr>) (filter (\<lambda>l. qd_status_type l = E2e) ls)"
  by (induction ls arbitrary: cur) (auto split: qos_status_type.splits if_splits)

lemma offerer_e2e_stated: "offerer_e2e offer = QdNone \<or> list_ex (\<lambda>s. opposite (qs_met s) (offerer_e2e offer)) (of_offerer_curr offer)"
  using opposite_invert by (auto simp: offerer_e2e_def Let_def find_Some_iff list_ex_length split: option.split)

lemma verdict_answered: "qos_answered offer (answered a port chosen offer rtcp)"
proof (cases "current_lines (offerer_e2e offer) (of_preconditions offer)")
  case None
  then show ?thesis using current_lines_None [of "offerer_e2e offer" "of_preconditions offer"]
    by (simp add: qos_answered_def answered_def precondition_verdict_def Let_def)
next
  case (Some cur)
  note lines = current_lines_Some [OF this]
  let ?r = "answered a port chosen offer rtcp"
  have no: "\<not> list_ex (\<lambda>l. qd_status_type l = E2e \<and> qd_strength l = QsMandatory) (of_preconditions offer)"
    using Some current_lines_None [of "offerer_e2e offer" "of_preconditions offer"] by simp
  have desired: "of_preconditions ?r = map (\<lambda>line. \<lparr>qd_strength = qd_strength line, qd_status_type = invert_qos_status_type (qd_status_type line),
      qd_direction = invert_qos_direction (qd_direction line)\<rparr>) (filter known_strength (of_preconditions offer))"
    by (simp add: answered_def precondition_verdict_def Some filter_map comp_def known_strength_def [abs_def])
  have current: "of_offerer_curr ?r = map (\<lambda>l. \<lparr>qs_status_type = qa_status_type l, qs_met = qa_met l\<rparr>)
      (cur @ map (\<lambda>s. \<lparr>qa_status_type = Remote, qa_met = invert_qos_direction (qs_met s)\<rparr>) (filter (\<lambda>s. qs_status_type s = Local) (of_offerer_curr offer)))"
    by (simp add: answered_def precondition_verdict_def Some)
  have "filter (\<lambda>c. qs_status_type c = t) (of_offerer_curr ?r) = map (\<lambda>l. \<lparr>qs_status_type = qa_status_type l, qs_met = qa_met l\<rparr>)
      (filter (\<lambda>c. qa_status_type c = t) cur @
       (if t = Remote then map (\<lambda>s. \<lparr>qa_status_type = Remote, qa_met = invert_qos_direction (qs_met s)\<rparr>) (filter (\<lambda>s. qs_status_type s = Local) (of_offerer_curr offer)) else []))" for t
    by (auto simp: current filter_map comp_def)
  with lines no desired offerer_e2e_stated [of offer] show ?thesis
    by (simp add: qos_answered_def Let_def list_all2_map2 list.rel_refl opposite_invert same_segment_invert del: filter_append)
qed

section \<open>Properties\<close>

text \<open>
  C6: An answer says what it owes to the offer. Take an offer text that parses and whose media sections name a kind and a
  protocol, with the negotiated section the first of the audio ones and no telephone event on payload type 0. Whatever the
  codec setting and the declared RTCP port, the answer's text reads back as: this end's address, exactly one of the offered
  codecs with the offer's own payload type and parameters, a telephone event of the offer, the packet time, the opposite
  direction, and the preconditions seen from the other end. It has the sections of the offer in their order, the audio one
  with this end's port and every other one with its own words and port zero.
\<close>

theorem sdp_answer_reads_back:
  assumes "parse_offer body = Inr offer" "ordinary offer"
    and "build_answer a port sid offer amr_available wideband preference rtcp = Inr (answer, chosen)"
  shows "\<exists>codec \<in> set (of_offered offer). \<exists>r before audio after.
    parse_offer answer = Inr r \<and> of_remote_rtp r = (a, port) \<and>
    of_offered r = [codec\<lparr>oc_fmtp := (if oc_codec codec \<in> {AmrNb, AmrWb} then oc_fmtp codec else [])\<rparr>] \<and>
    cc_codec chosen = oc_codec codec \<and> cc_payload_type chosen = oc_payload_type codec \<and> cc_octet_aligned chosen = is_octet_aligned codec \<and>
    event_answered (oc_codec codec) (of_dtmf offer) (of_dtmf r) \<and> of_maxptime r = of_maxptime offer \<and>
    of_direction r = mirror (of_direction offer) \<and> of_rtcp r = (if rtcp = Some 0 then None else rtcp) \<and> qos_answered offer r \<and>
    media_sections body = before @ (lit ''audio'' # audio) # after \<and>
    media_sections answer = map declined_section before @
      (lit ''audio'' # show_u16 port # lit ''RTP/AVP'' # map show_u8 (oc_payload_type codec # map fst (of_dtmf r))) # map declined_section after"
proof -
  from assms(3) obtain codec where codec: "select_codec_with offer amr_available wideband preference = Some codec"
    "(answer, chosen) = build_answer_for a port sid codec offer rtcp"
    by (auto simp: build_answer_def and_then_Inr_iff)
  have mem: "codec \<in> set (of_offered offer)" using codec(1) by (rule select_codec_with_in)
  have ok: "answerable offer codec" by (rule parsed_answerable [OF assms(1) mem assms(2)])
  let ?r = "answered a port codec offer rtcp"
  have answer: "answer = fst (build_answer_for a port sid codec offer rtcp)" using codec(2) by (metis fst_conv)
  obtain before audio after where sections: "media_sections body = before @ (lit ''audio'' # audio) # after"
    "of_other_media offer = map (section_media True) before @ map (section_media False) after" by (rule offer_sections [OF assms(1)])
  have "list_all word_ok ws \<and> 3 \<le> length ws" if "ws \<in> set (before @ after)" for ws
  proof -
    have "ws \<in> set (media_sections body)" using that sections(1) by auto
    then have "list_all word_ok ws"
      by (auto simp: media_sections_def section_words_def map_filter_mem split_whitespace_ok)
    moreover have "dm_proto (section_media b ws) \<noteq> []" if "section_media b ws \<in> set (of_other_media offer)" for b
      using that assms(2) by (auto simp: ordinary_def list_all_iff)
    then have "word_at ws 2 \<noteq> []"
      using that unfolding sections(2) by (auto simp: section_media_def)
    ultimately show ?thesis by (auto simp: word_at_def get_at_def split: if_splits)
  qed
  then have "media_sections answer = map declined_section before @
      (lit ''audio'' # show_u16 port # lit ''RTP/AVP'' # map show_u8 (oc_payload_type codec # map fst (of_dtmf ?r))) # map declined_section after"
    using answer_sections [OF sections(2), of a port sid codec rtcp] answer_lines_no_newline [of offer codec a port sid rtcp] ok
    by (auto simp: media_sections_def answer answer_text str_lines_concat answerable_def answered_def list_all_iff split: option.splits)
  moreover have "parse_offer answer = Inr ?r" unfolding answer using ok by (rule answer_reads_back)
  moreover have "cc_codec chosen = oc_codec codec \<and> cc_payload_type chosen = oc_payload_type codec \<and>
      cc_octet_aligned chosen = is_octet_aligned codec"
    using arg_cong [OF codec(2), of snd] by (simp add: build_answer_for_def Let_def split: prod.splits)
  moreover have "event_answered (oc_codec codec) (of_dtmf offer) (of_dtmf ?r)"
    using dtmf_pick_answered [of "oc_codec codec" "of_dtmf offer"] by (simp add: answered_def)
  ultimately show ?thesis using mem sections(1) verdict_answered [of offer a port codec rtcp]
    by (intro bexI [OF _ mem] exI [of _ ?r] exI [of _ before] exI [of _ audio] exI [of _ after]) (simp add: answered_def)
qed

lemma sample_select: "select_codec_with (read_offer a port WidebandThenPcmu) True True Cellular = Some wideband_offered"
  by (simp add: select_codec_with_def pick_offered_def read_offer_def offers_def wideband_offered_def pcmu_offered_def or_else_def
      is_octet_aligned_def lit_def trim_def trim_start_def trim_end_def is_whitespace_def Let_def)

lemma sample_answer:
  "\<exists>answer chosen. build_answer (Ipv4 2) 6000 8 (read_offer (Ipv4 1) 5000 WidebandThenPcmu) True True Cellular None = Inr (answer, chosen)"
  by (simp add: build_answer_def sample_select)

text \<open>An offer of the bridge with a video section behind it.\<close>

definition video_line :: text_string where
  "video_line = lit ''m=video 9 RTP/AVP 99''"

definition video_body :: text_string where
  "video_body = concat (map crlf (offer_lines (Ipv4 1) 5000 7 WidebandThenPcmu @ [video_line]))"

definition video_offer :: sdp_offer where
  "video_offer = (read_offer (Ipv4 1) 5000 WidebandThenPcmu)
     \<lparr>of_other_media := [\<lparr>dm_kind = lit ''video'', dm_proto = lit ''RTP/AVP'', dm_fmts = lit ''99'', dm_before_audio = False\<rparr>]\<rparr>"

lemma finish_offer_media:
  assumes "finish_offer acc = Inr offer"
  shows "finish_offer (acc\<lparr>oa_seen_media := True, oa_in_audio := False, oa_other_media := ms\<rparr>) = Inr (offer\<lparr>of_other_media := ms\<rparr>)"
proof -
  let ?acc = "acc\<lparr>oa_seen_media := True, oa_in_audio := False, oa_other_media := ms\<rparr>"
  have "codec_of ?acc pt = codec_of acc pt" "dtmf_of ?acc pt = dtmf_of acc pt" for pt
    by (simp_all add: codec_of_def dtmf_of_def cong: if_cong)
  then have "offered_of ?acc = offered_of acc" "dtmf_of ?acc = dtmf_of acc" by (simp_all add: offered_of_def fun_eq_iff)
  then show ?thesis using assms
    by (cases "oa_audio_direction acc") (auto simp: finish_offer_def and_then_Inr_iff Let_def split: if_splits)
qed

lemma video_words: "section_words video_line = Some [lit ''video'', lit ''9'', lit ''RTP/AVP'', lit ''99'']"
  by (simp add: section_words_def video_line_def strip_prefix_def starts_with_def trim_def trim_start_def trim_end_def is_whitespace_def
      split_whitespace_def lit_def)

lemma video_lines_no_newline: "list_all (\<lambda>l. 10 \<notin> set l) (offer_lines (Ipv4 1) 5000 7 WidebandThenPcmu @ [video_line])"
  using offer_lines_no_newline [of "Ipv4 1" 5000 7 WidebandThenPcmu] by (simp add: video_line_def lit_def)

lemma video_parsed: "parse_offer video_body = Inr video_offer"
proof -
  let ?acc = "fold offer_line (offer_lines (Ipv4 1) 5000 7 WidebandThenPcmu) offer_acc_init"
  let ?v = "\<lparr>dm_kind = lit ''video'', dm_proto = lit ''RTP/AVP'', dm_fmts = lit ''99'', dm_before_audio = False\<rparr>"
  have fin: "finish_offer ?acc = Inr (read_offer (Ipv4 1) 5000 WidebandThenPcmu)"
    using offer_reads_back [of "Ipv4 1" 5000 7 WidebandThenPcmu]
    unfolding parse_offer_def offer_text str_lines_concat [OF offer_lines_no_newline] .
  have "sections_read [] offer_acc_init" by (simp add: sections_read_def offer_acc_init_def)
  from sections_read_lines [OF this] have read: "sections_read (List.map_filter section_words (offer_lines (Ipv4 1) 5000 7 WidebandThenPcmu)) ?acc" by simp
  have port: "oa_rtp_port ?acc \<noteq> None" "oa_other_media ?acc = []"
    using fin by (auto simp: finish_offer_def read_offer_def and_then_Inr_iff ok_or_def Let_def split: if_splits option.splits)
  then have seen: "oa_audio_seen ?acc" "oa_other_media ?acc = []"
    using read by (simp_all add: sections_read_def split: if_splits)
  have "offer_line video_line ?acc = ?acc\<lparr>oa_seen_media := True, oa_in_audio := False, oa_other_media := [?v]\<rparr>"
    using video_words seen
    by (auto simp: offer_line_def section_words_def media_line_def word_at_def get_at_def join_with_def numeral_3_eq_3 numeral_2_eq_2 Let_def)
  then show ?thesis
    unfolding parse_offer_def video_body_def str_lines_concat [OF video_lines_no_newline] using finish_offer_media [OF fin] by (simp add: video_offer_def)
qed

lemma video_sections:
  "\<exists>ws. media_sections video_body = [lit ''audio'' # ws, [lit ''video'', lit ''9'', lit ''RTP/AVP'', lit ''99'']]"
proof -
  have none: "List.map_filter section_words ls = []" if "\<forall>l \<in> set ls. l \<noteq> [] \<and> hd l \<in> {97, 99, 111, 115, 116, 118}" for ls
    using that by (induction ls) (auto simp: map_filter_simps not_section is_whitespace_def)
  have "List.map_filter section_words (session_lines (lit ''gsm-sip-bridge test call'') (Ipv4 1) 7) = []"
    "List.map_filter section_words (codec_line_list c) = []" "section_words (mirrored SendRecv) = None" for c
    by (rule none, simp add: session_lines_def Let_def lit_def, rule none, auto simp: codec_line_list_def lit_def,
      rule not_section, simp_all add: mirrored_def lit_def is_whitespace_def)
  moreover have "media_sections video_body = List.map_filter section_words (offer_lines (Ipv4 1) 5000 7 WidebandThenPcmu @ [video_line])"
    by (simp only: media_sections_def video_body_def str_lines_concat [OF video_lines_no_newline])
  ultimately show ?thesis
    by (simp add: offer_lines_def map_filter_append map_filter_simps video_words offers_def audio_section_words)
qed

theorem sdp_answer_reads_back_witness:
  "\<exists>answer chosen ws. build_answer (Ipv4 2) 6000 8 video_offer True True Cellular None = Inr (answer, chosen) \<and>
     media_sections answer = [lit ''audio'' # show_u16 6000 # ws, [lit ''video'', lit ''0'', lit ''RTP/AVP'', lit ''99'']]"
proof -
  have "select_codec_with video_offer True True Cellular = Some wideband_offered"
    using sample_select [of "Ipv4 1" 5000] by (simp add: video_offer_def select_codec_with_def pick_offered_def Let_def)
  then obtain answer chosen where
    run: "build_answer (Ipv4 2) 6000 8 video_offer True True Cellular None = Inr (answer, chosen)"
    by (cases "build_answer_for (Ipv4 2) 6000 8 wideband_offered video_offer None") (auto simp: build_answer_def)
  have ord: "ordinary video_offer" by (simp add: ordinary_def video_offer_def read_offer_def lit_def)
  from sdp_answer_reads_back [OF video_parsed ord run] obtain before audio after ws where
    sections: "media_sections video_body = before @ (lit ''audio'' # audio) # after"
    "media_sections answer = map declined_section before @ (lit ''audio'' # show_u16 6000 # ws) # map declined_section after" by blast
  have "before = [] \<and> after = [[lit ''video'', lit ''9'', lit ''RTP/AVP'', lit ''99'']]"
    using sections(1) video_sections by (auto simp: append_eq_Cons_conv Cons_eq_append_conv lit_def)
  then show ?thesis using run sections(2) by (auto simp: declined_section_def)
qed

text \<open>
  C30: Both ends of a call agree. When this bridge offers, the far end is another instance of it, and the far end
  answers at all, then reading that answer gives the far end's address and the very codec, payload type and
  framing that the far end set up.
\<close>

theorem sdp_both_ends_agree:
  assumes "parse_offer (build_offer a port sid co) = Inr offer"
    and "build_answer b q sid' offer amr_available wideband preference rtcp = Inr (answer, chosen)"
  shows "parse_answer answer = Inr \<lparr>an_remote_rtp = (b, q), an_codec = cc_codec chosen\<rparr> \<and>
    offered_chosen_codec (cc_codec chosen) = Some chosen"
proof -
  have offer: "offer = read_offer a port co" using assms(1) by (simp add: offer_reads_back)
  from assms(2) obtain codec where codec: "select_codec_with offer amr_available wideband preference = Some codec"
    "(answer, chosen) = build_answer_for b q sid' codec offer rtcp"
    by (auto simp: build_answer_def and_then_Inr_iff)
  have mem: "codec \<in> set (offers co)" using select_codec_with_in [OF codec(1)] by (simp add: offer read_offer_def)
  have written: "answer = concat (map crlf (answer_lines b q sid' codec (read_offer a port co) rtcp))"
    using arg_cong [OF codec(2), of fst] by (simp add: offer answer_text)
  have c: "chosen = snd (build_answer_for b q sid' codec (read_offer a port co) rtcp)"
    using arg_cong [OF codec(2), of snd] by (simp add: offer)
  then have "cc_codec chosen = oc_codec codec" by (simp add: build_answer_for_def Let_def split: prod.splits)
  then show ?thesis using agreed_codec [OF mem, of b q sid' a port rtcp] by (simp add: written c)
qed

theorem sdp_both_ends_agree_witness:
  "\<exists>answer chosen. build_answer (Ipv4 2) 6000 8 (read_offer (Ipv4 1) 5000 WidebandThenPcmu) True True Cellular None = Inr (answer, chosen) \<and>
    parse_answer answer = Inr \<lparr>an_remote_rtp = (Ipv4 2, 6000), an_codec = cc_codec chosen\<rparr>"
proof -
  obtain answer chosen where
    run: "build_answer (Ipv4 2) 6000 8 (read_offer (Ipv4 1) 5000 WidebandThenPcmu) True True Cellular None = Inr (answer, chosen)"
    using sample_answer by blast
  from sdp_both_ends_agree [OF offer_reads_back [of "Ipv4 1" 5000 7 WidebandThenPcmu] this] run show ?thesis by blast
qed

text \<open>
  The precondition part of an answer is honest. The call is declined exactly when the offer demands an
  end-to-end reservation. Otherwise every status reported for the offerer's own segment is one the offerer
  stated itself, inverted; an end-to-end status is one the offerer stated, or none; the bridge's own segment
  is met only in a direction that was asked for; and no desired line changes its strength.
\<close>

theorem sdp_preconditions_honest:
  "(precondition_verdict offer = Decline) =
     (\<exists>l \<in> set (of_preconditions offer). qd_status_type l = E2e \<and> qd_strength l = QsMandatory) \<and>
   (\<forall>current desired. precondition_verdict offer = Proceed current desired \<longrightarrow>
      map qd_strength desired = map qd_strength (of_preconditions offer) \<and>
      (\<forall>c \<in> set current.
         (qa_status_type c = Remote \<longrightarrow> (\<exists>s \<in> set (of_offerer_curr offer). qs_status_type s = Local \<and> qa_met c = invert_qos_direction (qs_met s))) \<and>
         (qa_status_type c = E2e \<longrightarrow> qa_met c = QdNone \<or> (\<exists>s \<in> set (of_offerer_curr offer). qa_met c = invert_qos_direction (qs_met s))) \<and>
         (qa_status_type c = Local \<longrightarrow>
            (\<exists>l \<in> set (of_preconditions offer). qd_status_type l = Remote \<and> qa_met c = invert_qos_direction (qd_direction l)))))"
proof -
  have none: "current_lines e ls = None \<longleftrightarrow> (\<exists>l \<in> set ls. qd_status_type l = E2e \<and> qd_strength l = QsMandatory)" for e ls
    by (induction ls) (auto split: qos_status_type.splits)
  have e2e: "offerer_e2e offer = QdNone \<or> (\<exists>s \<in> set (of_offerer_curr offer). offerer_e2e offer = invert_qos_direction (qs_met s))"
    by (auto simp: offerer_e2e_def Let_def find_Some_iff split: option.split)
  have some: "\<forall>c \<in> set cur. qa_status_type c = E2e \<and> qa_met c = e \<or>
      qa_status_type c = Local \<and> (\<exists>l \<in> set ls. qd_status_type l = Remote \<and> qa_met c = invert_qos_direction (qd_direction l))"
    if "current_lines e ls = Some cur" for e ls cur
    using that by (induction ls arbitrary: cur) (fastforce split: qos_status_type.splits if_splits)+
  show ?thesis
    using none [of "offerer_e2e offer" "of_preconditions offer"] some [of "offerer_e2e offer" "of_preconditions offer"] e2e
    by (auto simp: precondition_verdict_def comp_def split: option.splits) (metis qos_status_type.distinct)+
qed

theorem sdp_preconditions_honest_witness:
  "precondition_verdict ((read_offer (Ipv4 1) 5000 PcmuOnly)
     \<lparr>of_preconditions := [\<lparr>qd_strength = QsMandatory, qd_status_type = E2e, qd_direction = QdSendRecv\<rparr>]\<rparr>) = Decline"
  using sdp_preconditions_honest [of "(read_offer (Ipv4 1) 5000 PcmuOnly)
     \<lparr>of_preconditions := [\<lparr>qd_strength = QsMandatory, qd_status_type = E2e, qd_direction = QdSendRecv\<rparr>]\<rparr>"]
  by simp

lemma connection_readers:
  assumes "word_ok host" "parse_ip host = None"
  shows "parse_offer (concat (map crlf [lit ''c=IN '' @ ip_addrtype a @ lit '' '' @ show_ip a, media_text port [0], lit ''c=IN IP4 '' @ host])) =
      Inl MissingConnection"
    and "parse_answer (concat (map crlf [lit ''c=IN '' @ ip_addrtype a @ lit '' '' @ show_ip a, media_text port [0], lit ''c=IN IP4 '' @ host])) =
      Inr \<lparr>an_remote_rtp = (a, port), an_codec = Pcmu\<rparr>"
proof -
  let ?ls = "[lit ''c=IN '' @ ip_addrtype a @ lit '' '' @ show_ip a, media_text port [0], lit ''c=IN IP4 '' @ host]"
  have ip4: "word_ok (lit ''IP4'')" by (simp add: word_ok_def lit_def is_whitespace_def)
  have c: "lit ''c=IN IP4 '' @ host = lit ''c=IN '' @ join_with 32 [lit ''IP4'', host]" by (simp add: join_with_def lit_def)
  have ws: "split_whitespace (join_with 32 [lit ''IP4'', host]) = [lit ''IP4'', host]"
    using ip4 assms(1) by (intro split_whitespace_join) simp
  have trim: "trim (lit ''c=IN '' @ join_with 32 [lit ''IP4'', host]) = lit ''c=IN '' @ join_with 32 [lit ''IP4'', host]"
    using ip4 assms(1) by (intro trim_line_words) (simp_all add: lit_def is_whitespace_def)
  have pre: "strip_prefix (lit ''c=IN '' @ r) (lit ''m='') = None" for r by (simp add: prefix_simps)
  have off: "offer_line (lit ''c=IN IP4 '' @ host) acc = acc\<lparr>oa_conn_ip := None\<rparr>" if "oa_in_audio acc" for acc
    unfolding c offer_line_def Let_def trim using that pre ws assms(2) by (simp add: connection_line_def)
  have ans: "answer_line (lit ''c=IN IP4 '' @ host) acc = acc" for acc
    unfolding c answer_line_def Let_def trim using ws assms(2) by (cases acc) simp
  have "10 \<notin> set (media_text port [0])"
  proof -
    have "10 \<notin> set (join_with 32 (show_u16 port # lit ''RTP/AVP'' # map show_u8 [0]))" by (rule join_no_newline) simp
    then show ?thesis by (simp add: media_text_def) (simp add: lit_def)
  qed
  then have lines: "list_all (\<lambda>l. 10 \<notin> set l) ?ls"
    using word_ok_no_newline [OF word_ok_show_ip] word_ok_no_newline [OF assms(1)] by (simp add: ip_addrtype_def lit_def)
  show "parse_offer (concat (map crlf ?ls)) = Inl MissingConnection"
    unfolding parse_offer_def str_lines_concat [OF lines]
    by (simp add: offer_line_connection offer_line_audio off finish_offer_def offer_acc_init_def)
  show "parse_answer (concat (map crlf ?ls)) = Inr \<lparr>an_remote_rtp = (a, port), an_codec = Pcmu\<rparr>"
    unfolding parse_answer_def str_lines_concat [OF lines]
    by (simp add: answer_line_connection answer_line_media ans PCMU_PAYLOAD_TYPE_def)
qed

definition host_section :: "ip \<Rightarrow> u16 \<Rightarrow> text_string \<Rightarrow> text_string" where
  "host_section a port host =
     concat (map crlf [lit ''c=IN '' @ ip_addrtype a @ lit '' '' @ show_ip a, media_text port [0], lit ''c=IN IP4 '' @ host])"

text \<open>
  The two readers of connection lines differ. An audio section that repeats the connection with a host
  name, which neither reader can use, makes \<open>parse_offer\<close> forget the session's own address and reject the
  offer; \<open>parse_answer\<close> keeps it.
\<close>

theorem sdp_offer_forgets_connection:
  assumes "word_ok host" "parse_ip host = None"
  shows "parse_offer (host_section a port host) = Inl MissingConnection \<and>
    parse_answer (host_section a port host) = Inr \<lparr>an_remote_rtp = (a, port), an_codec = Pcmu\<rparr>"
  using connection_readers [OF assms] by (simp add: host_section_def)

theorem sdp_offer_forgets_connection_witness: "parse_offer (host_section (Ipv4 1) 5000 (lit ''host'')) = Inl MissingConnection"
proof -
  have "word_ok (lit ''host'')" by (simp add: word_ok_def lit_def is_whitespace_def)
  moreover have "parse_ip (lit ''host'') = None"
    using read_groups.simps(2) [of 0 7 "lit ''host''"]
    by (simp add: parse_ip_def read_ipv4_without_dots read_ipv6_def read_separator_def read_number_def digit_of_def lit_def)
  ultimately show ?thesis using sdp_offer_forgets_connection by blast
qed

end
