(* ===== verification/Reg_Event.thy ===== *)
theory Reg_Event
  imports Ims_Session Rust_Net
begin

text \<open>
  What a reg-event NOTIFY says about this line (\<^verbatim>\<open>ims/session.rs\<close>): the contacts of a reginfo
  document, which of them are the binding this line holds, which are one it has replaced, and the
  deregistration to act on; the \<open>Subscription-State\<close> header. The document is read by searching for
  its elements, as in the source: there is no XML parser. Positions count characters; the source uses them to
  slice the same text.
\<close>

section \<open>Socket addresses\<close>

text \<open>\<open>SocketAddr\<close> and its \<open>FromStr\<close>; an IPv6 address carries its flow information and scope.\<close>

datatype socket_address = SockV4 "32 word" u16 | SockV6 "128 word" u16 u32 u32

definition read_char :: "nat \<Rightarrow> text_string \<Rightarrow> text_string option" where
  "read_char c s = (case s of d # s \<Rightarrow> if d = c then Some s else None | [] \<Rightarrow> None)"

definition read_port :: "text_string \<Rightarrow> (u16 \<times> text_string) option" where
  "read_port s =
     Option.bind (read_char 58 s) (\<lambda>s. map_option (apfst word_of_nat) (read_number 10 (length s) True 65535 s))"

definition read_scope_id :: "text_string \<Rightarrow> u32 \<times> text_string" where
  "read_scope_id s =
     (case Option.bind (read_char 37 s) (\<lambda>s. read_number 10 (length s) True MAX_U32 s) of
        Some (v, s) \<Rightarrow> (word_of_nat v, s)
      | None \<Rightarrow> (0, s))"

definition read_socket_addr_v4 :: "text_string \<Rightarrow> (socket_address \<times> text_string) option" where
  "read_socket_addr_v4 s =
     Option.bind (read_ipv4 s) (\<lambda>(ip, s). map_option (apfst (SockV4 ip)) (read_port s))"

definition read_socket_addr_v6 :: "text_string \<Rightarrow> (socket_address \<times> text_string) option" where
  "read_socket_addr_v6 s =
     Option.bind (read_char 91 s) (\<lambda>s.
     Option.bind (read_ipv6 s) (\<lambda>(ip, s).
       case read_scope_id s of (scope, s) \<Rightarrow>
         Option.bind (read_char 93 s) (\<lambda>s. map_option (apfst (\<lambda>port. SockV6 ip port 0 scope)) (read_port s))))"

definition parse_socket_addr :: "text_string \<Rightarrow> socket_address option" where
  "parse_socket_addr s =
     (case (case read_socket_addr_v4 s of None \<Rightarrow> read_socket_addr_v6 s | found \<Rightarrow> found) of
        Some (a, []) \<Rightarrow> Some a
      | _ \<Rightarrow> None)"

section \<open>Contacts of a document\<close>

definition str_rfind :: "text_string \<Rightarrow> text_string \<Rightarrow> nat option" where
  "str_rfind p s = find (\<lambda>i. starts_with (drop i s) p) (rev [0..<length s + 1])"

record contact_block =
  cb_text :: text_string
  cb_registration_tag :: "text_string option"

definition enclosing_registration_tag :: "text_string \<Rightarrow> text_string option" where
  "enclosing_registration_tag before =
     (case str_rfind (lit ''<registration'') before of
        None \<Rightarrow> None
      | Some i \<Rightarrow>
          let rest = drop i before
          in if str_contains rest (lit ''</registration>'') then None
             else Some (case str_find [62] rest of Some e \<Rightarrow> take (e + 1) rest | None \<Rightarrow> rest))"

text \<open>The length of the element that starts \<open>tail\<close>, whose opening tag ends at \<open>j\<close>.\<close>

definition contact_length :: "text_string \<Rightarrow> nat \<Rightarrow> nat" where
  "contact_length tail j =
     (if tail ! (j - 1) = 47 then j + 1
      else (case str_find (lit ''</contact>'') (drop j tail) of Some k \<Rightarrow> j + k + 10 | None \<Rightarrow> length tail))"

lemma str_find_bound: "str_find p s = Some i \<Longrightarrow> i + length p \<le> length s"
proof (induction s arbitrary: i)
  case (Cons c s)
  show ?case
  proof (cases "starts_with (c # s) p")
    case True
    then have "length p \<le> length (c # s)" unfolding starts_with_def by (metis length_take min.cobounded1)
    then show ?thesis using Cons.prems True by simp
  next
    case False
    then obtain k where "str_find p s = Some k" "i = Suc k" using Cons.prems by auto
    then show ?thesis using Cons.IH [of k] by simp
  qed
qed (auto split: if_splits)

lemma contact_length_pos: "tail \<noteq> [] \<Longrightarrow> 0 < contact_length tail j"
  by (auto simp: contact_length_def split: option.split)

text \<open>The loop over the document: what lies before the cursor, and what follows it.\<close>

function contact_blocks_from :: "text_string \<Rightarrow> text_string \<Rightarrow> contact_block list" where
  "contact_blocks_from before rest =
     (case str_find (lit ''<contact'') rest of
        None \<Rightarrow> []
      | Some i \<Rightarrow>
          (case str_find [62] (drop i rest) of
             None \<Rightarrow> []
           | Some j \<Rightarrow>
               let n = contact_length (drop i rest) j
               in \<lparr>cb_text = take n (drop i rest), cb_registration_tag = enclosing_registration_tag (before @ take i rest)\<rparr> #
                  contact_blocks_from (before @ take (i + n) rest) (drop (i + n) rest)))"
  by pat_completeness auto
termination
proof (relation "measure (\<lambda>(_, rest). length rest)", goal_cases)
  case (2 before rest i j n)
  have "i + 8 \<le> length rest" using str_find_bound [OF 2(1)] by (simp add: lit_def)
  moreover from this have "0 < n" using contact_length_pos [of "drop i rest" j] 2(3) by simp
  ultimately show ?case by simp
qed simp

declare contact_blocks_from.simps [simp del]

definition contact_blocks :: "text_string \<Rightarrow> contact_block list" where
  "contact_blocks body = contact_blocks_from [] body"

definition extract_attr :: "text_string \<Rightarrow> text_string \<Rightarrow> text_string option" where
  "extract_attr tag name =
     (let needle = name @ lit ''=\"''
      in Option.bind (str_find needle tag) (\<lambda>i.
         let rest = drop (i + length needle) tag in map_option (\<lambda>e. take e rest) (str_find [34] rest)))"

definition MAX_NETWORK_DELAY_SECS :: nat where
  "MAX_NETWORK_DELAY_SECS = 366 * 24 * 3600"

definition network_secs :: "text_string \<Rightarrow> nat option" where
  "network_secs v = map_option (\<lambda>n. min n MAX_NETWORK_DELAY_SECS) (parse_uint MAX_U64 (trim v))"

definition contact_uri_addr :: "text_string \<Rightarrow> socket_address option" where
  "contact_uri_addr block =
     Option.bind (str_find (lit ''<uri>'') block) (\<lambda>i.
       let rest = drop (i + 5) block
       in Option.bind (str_find (lit ''</uri>'') rest) (\<lambda>e.
            let uri = trim (take e rest)
            in Option.bind (case strip_prefix uri (lit ''sips:'') of None \<Rightarrow> strip_prefix uri (lit ''sip:'') | found \<Rightarrow> found) (\<lambda>rest.
                 let host_port = last (split_on 64 rest)
                 in parse_socket_addr (takeWhile (\<lambda>c. c \<notin> {59, 63, 62}) host_port))))"

record reginfo_contact =
  rc_state :: text_string
  rc_event :: text_string
  rc_addr :: "socket_address option"
  rc_retry_after :: "nat option"
  rc_registration_state :: "text_string option"

definition parse_contact_attrs :: "contact_block \<Rightarrow> reginfo_contact option" where
  "parse_contact_attrs block =
     (let t = cb_text block;
          open_tag = (case str_find [62] t of Some e \<Rightarrow> take (e + 1) t | None \<Rightarrow> t)
      in map_option (\<lambda>state.
           \<lparr>rc_state = state,
            rc_event = (case extract_attr t (lit ''event'') of Some e \<Rightarrow> e | None \<Rightarrow> []),
            rc_addr = contact_uri_addr t,
            rc_retry_after = Option.bind (extract_attr open_tag (lit ''retry-after'')) network_secs,
            rc_registration_state = Option.bind (cb_registration_tag block) (\<lambda>t. extract_attr t (lit ''state''))\<rparr>)
         (extract_attr t (lit ''state'')))"

section \<open>Which contacts are ours\<close>

datatype attribution = ByImei | ByContactAddr | BySoleContact | ByNothing

record own_contacts =
  oc_entries :: "reginfo_contact list"
  oc_retired :: "reginfo_contact list"
  oc_matched_by :: attribution

datatype standing = AtOurAddress | EchoesImei | AtOldAddress

definition echoes_imei :: "text_string \<Rightarrow> contact_block \<Rightarrow> bool" where
  "echoes_imei imei b \<longleftrightarrow> imei \<noteq> [] \<and> str_contains (cb_text b) imei"

text \<open>The body of the loop: what a block is to this line.\<close>

definition block_standing :: "text_string \<Rightarrow> socket_address \<Rightarrow> contact_block \<Rightarrow> (standing \<times> reginfo_contact) option" where
  "block_standing imei contact_addr b =
     (case parse_contact_attrs b of
        None \<Rightarrow> None
      | Some c \<Rightarrow>
          (case rc_addr c of
             Some a \<Rightarrow>
               if a = contact_addr then Some (AtOurAddress, c)
               else if echoes_imei imei b then Some (AtOldAddress, c)
               else None
           | None \<Rightarrow> if echoes_imei imei b then Some (EchoesImei, c) else None))"

definition find_own_contacts :: "text_string \<Rightarrow> text_string \<Rightarrow> socket_address \<Rightarrow> own_contacts" where
  "find_own_contacts body imei contact_addr =
     (let blocks = contact_blocks body;
          found = List.map_filter (block_standing imei contact_addr) blocks;
          entries = map snd (filter (\<lambda>(k, _). k \<noteq> AtOldAddress) found);
          retired = map snd (filter (\<lambda>(k, _). k = AtOldAddress) found)
      in if entries \<noteq> [] then
           \<lparr>oc_entries = entries, oc_retired = retired,
            oc_matched_by = (if list_ex (\<lambda>(k, _). k = AtOurAddress) found then ByContactAddr else ByImei)\<rparr>
         else
           (case (case blocks of [only] \<Rightarrow> if contact_uri_addr (cb_text only) = None then parse_contact_attrs only else None | _ \<Rightarrow> None) of
              Some c \<Rightarrow> \<lparr>oc_entries = [c], oc_retired = retired, oc_matched_by = BySoleContact\<rparr>
            | None \<Rightarrow> \<lparr>oc_entries = [], oc_retired = retired, oc_matched_by = ByNothing\<rparr>))"

section \<open>Deregistrations\<close>

text \<open>The derived order: a later constructor is more restrictive.\<close>

datatype dereg_event = Unregistered | Probation | Deactivated | Rejected

instantiation dereg_event :: linorder
begin

definition less_eq_dereg_event :: "dereg_event \<Rightarrow> dereg_event \<Rightarrow> bool" where
  "less_eq_dereg_event a b \<longleftrightarrow>
     (case a of Unregistered \<Rightarrow> 0 | Probation \<Rightarrow> 1 | Deactivated \<Rightarrow> 2 | Rejected \<Rightarrow> (3 :: nat)) \<le>
     (case b of Unregistered \<Rightarrow> 0 | Probation \<Rightarrow> 1 | Deactivated \<Rightarrow> 2 | Rejected \<Rightarrow> 3)"

definition less_dereg_event :: "dereg_event \<Rightarrow> dereg_event \<Rightarrow> bool" where
  "less_dereg_event a b \<longleftrightarrow> a \<le> b \<and> \<not> b \<le> a"

instance
  by intro_classes (auto simp: less_eq_dereg_event_def less_dereg_event_def split: dereg_event.splits)

end

definition dereg_from_contact :: "reginfo_contact \<Rightarrow> dereg_event option" where
  "dereg_from_contact c =
     (if \<not> eq_ignore_ascii_case (rc_state c) (lit ''terminated'') then None
      else
        (let e = to_ascii_lowercase (rc_event c)
         in if e = lit ''unregistered'' then Some Unregistered
            else if e = lit ''probation'' then Some Probation
            else if e = lit ''deactivated'' then Some Deactivated
            else if e = lit ''rejected'' then Some Rejected
            else None))"

datatype dereg_scope = IdentityDeregistered | BindingRemoved

record deregistration =
  dr_event :: dereg_event
  dr_retry_after :: "duration option"
  dr_scope :: dereg_scope

text \<open>\<open>Iterator::max\<close>: \<open>None\<close> for no element.\<close>

fun max_of :: "'a :: linorder list \<Rightarrow> 'a option" where
  "max_of [] = None"
| "max_of (x # xs) = Some (case max_of xs of None \<Rightarrow> x | Some m \<Rightarrow> max x m)"

section \<open>The subscription state\<close>

datatype sub_state_kind = SubActive | SubPending | SubTerminated | SubMissing

record sub_state =
  su_state :: sub_state_kind
  su_expires :: "nat option"
  su_reason :: "text_string option"
  su_retry_after :: "nat option"

definition sub_state_param :: "text_string \<Rightarrow> sub_state \<Rightarrow> sub_state" where
  "sub_state_param param s =
     (case split_once 61 param of
        None \<Rightarrow> s
      | Some (name, v) \<Rightarrow>
          let v = trim v; name = to_ascii_lowercase (trim name)
          in if name = lit ''expires'' then s\<lparr>su_expires := network_secs v\<rparr>
             else if name = lit ''retry-after'' then s\<lparr>su_retry_after := network_secs v\<rparr>
             else if name = lit ''reason'' then s\<lparr>su_reason := Some (to_ascii_lowercase v)\<rparr>
             else s)"

definition parse_subscription_state :: "text_string \<Rightarrow> sub_state" where
  "parse_subscription_state v =
     (let parts = split_on 59 v;
          kind = to_ascii_lowercase (trim (hd parts));
          state = (if kind = lit ''active'' then SubActive else if kind = lit ''pending'' then SubPending
                   else if kind = lit ''terminated'' then SubTerminated else SubMissing)
      in fold sub_state_param (tl parts) \<lparr>su_state = state, su_expires = None, su_reason = None, su_retry_after = None\<rparr>)"

record notify_verdict =
  nv_own :: own_contacts
  nv_deregistration :: "deregistration option"

definition classify_reg_notify :: "text_string \<Rightarrow> text_string \<Rightarrow> text_string \<Rightarrow> socket_address \<Rightarrow> notify_verdict" where
  "classify_reg_notify body subscription_state imei contact_addr =
     (let own = find_own_contacts body imei contact_addr
      in \<lparr>nv_own = own,
          nv_deregistration =
            map_option (\<lambda>event.
              \<lparr>dr_event = event,
               dr_retry_after =
                 map_option secs (max_of (List.map_filter rc_retry_after (oc_entries own) @
                   (case su_retry_after (parse_subscription_state subscription_state) of Some r \<Rightarrow> [r] | None \<Rightarrow> []))),
               dr_scope =
                 (if list_all (\<lambda>c. case rc_registration_state c of
                       Some s \<Rightarrow> eq_ignore_ascii_case s (lit ''terminated'') | None \<Rightarrow> False) (oc_entries own)
                  then IdentityDeregistered else BindingRemoved)\<rparr>)
            (max_of (List.map_filter dereg_from_contact (oc_entries own)))\<rparr>)"

section \<open>Lemmas\<close>

lemma max_of_eq: "max_of xs = (if xs = [] then None else Some (Max (set xs)))"
proof (induction xs)
  case (Cons x xs)
  then show ?case by (cases xs) simp_all
qed simp

lemma max_of_None_iff [simp]: "max_of xs = None \<longleftrightarrow> xs = []"
  by (simp add: max_of_eq)

lemma max_of_Some_iff: "max_of xs = Some m \<longleftrightarrow> m \<in> set xs \<and> (\<forall>x \<in> set xs. x \<le> m)"
  by (cases "xs = []") (auto simp: max_of_eq Max_eq_iff)

lemma set_map_filter: "y \<in> set (List.map_filter f xs) \<longleftrightarrow> (\<exists>x \<in> set xs. f x = Some y)"
  by (force simp: List.map_filter_def)

lemma parse_contact_addr: "parse_contact_attrs b = Some c \<Longrightarrow> rc_addr c = contact_uri_addr (cb_text b)"
  by (auto simp: parse_contact_attrs_def Let_def)

text \<open>An entry counts as ours only for our address, or for our IMEI or lack of company where there is no address.\<close>

definition names_us :: "text_string \<Rightarrow> text_string \<Rightarrow> socket_address \<Rightarrow> contact_block \<Rightarrow> reginfo_contact \<Rightarrow> bool" where
  "names_us body imei contact_addr b c \<longleftrightarrow>
     rc_addr c = Some contact_addr \<or> rc_addr c = None \<and> (echoes_imei imei b \<or> contact_blocks body = [b])"

lemma block_standing_cases:
  assumes "block_standing imei addr b = Some (k, c)"
  shows "parse_contact_attrs b = Some c" "k = AtOurAddress \<longleftrightarrow> rc_addr c = Some addr"
    "k = EchoesImei \<Longrightarrow> rc_addr c = None \<and> echoes_imei imei b"
    "k = AtOldAddress \<longleftrightarrow> rc_addr c \<noteq> None \<and> rc_addr c \<noteq> Some addr"
  using assms by (auto simp: block_standing_def split: option.splits if_splits)

lemma own_entry_names_us:
  assumes "c \<in> set (oc_entries (find_own_contacts body imei addr))"
  shows "\<exists>b \<in> set (contact_blocks body). parse_contact_attrs b = Some c \<and> names_us body imei addr b c"
proof -
  let ?found = "List.map_filter (block_standing imei addr) (contact_blocks body)"
  consider (found) k where "(k, c) \<in> set ?found" "k \<noteq> AtOldAddress"
    | (sole) b where "contact_blocks body = [b]" "contact_uri_addr (cb_text b) = None" "parse_contact_attrs b = Some c"
    using assms by (auto simp: find_own_contacts_def Let_def split: if_splits option.splits list.splits)
  then show ?thesis
  proof cases
    case found
    then obtain b where "b \<in> set (contact_blocks body)" "block_standing imei addr b = Some (k, c)" by (auto simp: set_map_filter)
    then show ?thesis using block_standing_cases [of imei addr b k c] found(2) by (cases k) (auto simp: names_us_def)
  next
    case sole
    then show ?thesis using parse_contact_addr [of b c] by (auto simp: names_us_def)
  qed
qed

section \<open>Properties\<close>

text \<open>
  C18: A deregistration is acted on only when the document reports it for the binding this line holds: the
  address the line advertised, or, where the entry names no address, the line's IMEI or being the only contact.
  An entry at another address, such as a binding that a renewal has replaced, never causes one. Among several the most
  restrictive event is taken, and the wait is at least the one each of them asked for.
\<close>

theorem deregistration_is_ours:
  assumes "nv_deregistration (classify_reg_notify body sub_state imei addr) = Some d"
  shows "(\<exists>b \<in> set (contact_blocks body). \<exists>c. parse_contact_attrs b = Some c \<and> names_us body imei addr b c \<and>
      eq_ignore_ascii_case (rc_state c) (lit ''terminated'') \<and> dereg_from_contact c = Some (dr_event d)) \<and>
    (\<forall>c \<in> set (oc_entries (find_own_contacts body imei addr)).
      (\<forall>e. dereg_from_contact c = Some e \<longrightarrow> e \<le> dr_event d) \<and>
      (\<forall>r. rc_retry_after c = Some r \<longrightarrow> (\<exists>w. dr_retry_after d = Some w \<and> secs r \<le> w)))"
proof -
  let ?own = "find_own_contacts body imei addr"
  let ?events = "List.map_filter dereg_from_contact (oc_entries ?own)"
  let ?waits = "List.map_filter rc_retry_after (oc_entries ?own) @
    (case su_retry_after (parse_subscription_state sub_state) of Some r \<Rightarrow> [r] | None \<Rightarrow> [])"
  from assms have event: "max_of ?events = Some (dr_event d)" and wait: "dr_retry_after d = map_option secs (max_of ?waits)"
    by (auto simp: classify_reg_notify_def Let_def)
  from event obtain c where c: "c \<in> set (oc_entries ?own)" "dereg_from_contact c = Some (dr_event d)"
    by (auto simp: max_of_Some_iff set_map_filter)
  moreover from this(2) have "eq_ignore_ascii_case (rc_state c) (lit ''terminated'')"
    by (simp add: dereg_from_contact_def split: if_splits)
  moreover have "e \<le> dr_event d" if "c \<in> set (oc_entries ?own)" "dereg_from_contact c = Some e" for c e
    using event that by (auto simp: max_of_Some_iff set_map_filter)
  moreover have "\<exists>w. dr_retry_after d = Some w \<and> secs r \<le> w" if "c \<in> set (oc_entries ?own)" "rc_retry_after c = Some r" for c r
  proof -
    have r: "r \<in> set ?waits" using that by (auto simp: set_map_filter)
    then have "max_of ?waits \<noteq> None" unfolding max_of_None_iff by (metis empty_iff list.set(1))
    then obtain m where "max_of ?waits = Some m" by blast
    then show ?thesis using r wait by (auto simp: max_of_Some_iff)
  qed
  ultimately show ?thesis using own_entry_names_us [OF c(1)] by blast
qed

text \<open>The binding of this line is deactivated.\<close>

definition sample_contact :: text_string where
  "sample_contact = lit ''<contact state=\"terminated\" event=\"deactivated\" retry-after=\"30\"><uri>sip:u@1.2.3.4:5060</uri></contact>''"

definition sample_address :: socket_address where
  "sample_address = SockV4 (from_be32 1 2 3 4) 5060"

definition sample_entry :: reginfo_contact where
  "sample_entry = \<lparr>rc_state = lit ''terminated'', rc_event = lit ''deactivated'', rc_addr = Some sample_address,
     rc_retry_after = Some 30, rc_registration_state = None\<rparr>"

lemma sample_blocks: "contact_blocks sample_contact = [\<lparr>cb_text = sample_contact, cb_registration_tag = None\<rparr>]"
  by (simp add: contact_blocks_def sample_contact_def lit_def contact_blocks_from.simps starts_with_def contact_length_def
      enclosing_registration_tag_def str_rfind_def)

lemma sample_uri: "contact_uri_addr sample_contact = Some sample_address"
  by (simp add: contact_uri_addr_def sample_contact_def lit_def starts_with_def strip_prefix_def trim_def trim_start_def trim_end_def is_whitespace_def
      parse_socket_addr_def read_socket_addr_v4_def read_ipv4_def read_octets_4 read_separator_def read_number_def read_port_def read_char_def
      digit_of_def radix_value_def sample_address_def)

lemma sample_attrs: "parse_contact_attrs \<lparr>cb_text = sample_contact, cb_registration_tag = None\<rparr> = Some sample_entry"
  by (simp add: parse_contact_attrs_def sample_uri sample_entry_def)
    (simp add: sample_contact_def lit_def starts_with_def extract_attr_def network_secs_def parse_uint_def trim_def trim_start_def trim_end_def
      is_whitespace_def digits_value_def is_ascii_digit_def MAX_U64_def MAX_NETWORK_DELAY_SECS_def)

theorem deregistration_is_ours_witness:
  "\<exists>d. nv_deregistration (classify_reg_notify sample_contact [] [] sample_address) = Some d \<and> dr_event d = Deactivated \<and>
     (\<exists>w. dr_retry_after d = Some w \<and> secs 30 \<le> w)"
proof -
  have own: "oc_entries (find_own_contacts sample_contact [] sample_address) = [sample_entry]"
    by (simp add: find_own_contacts_def sample_blocks block_standing_def sample_attrs List.map_filter_simps) (simp add: sample_entry_def)
  have e: "dereg_from_contact sample_entry = Some Deactivated"
    by (simp add: dereg_from_contact_def sample_entry_def lit_def to_ascii_lowercase_def ascii_lower_def eq_ignore_ascii_case_def)
  have "\<exists>d. nv_deregistration (classify_reg_notify sample_contact [] [] sample_address) = Some d \<and> dr_event d = Deactivated"
    by (simp add: classify_reg_notify_def own e List.map_filter_simps)
  then obtain d where d: "nv_deregistration (classify_reg_notify sample_contact [] [] sample_address) = Some d" "dr_event d = Deactivated"
    by blast
  from deregistration_is_ours [OF d(1)] own have "\<exists>w. dr_retry_after d = Some w \<and> secs 30 \<le> w"
    by (simp add: sample_entry_def)
  then show ?thesis using d by blast
qed

end
