(* ===== verification/Reg_Subscription.thy ===== *)
theory Reg_Subscription
  imports Reg_Event
begin

text \<open>
  The reg-event subscription of a line (\<^verbatim>\<open>ims/agent/reg_subscription.rs\<close>): a state machine over
  SUBSCRIBE transactions and their dialog, with Timer F, Timer N, the refresh schedule, the retry backoff
  and the memory of replaced subscriptions, together with the dialog helpers of \<^verbatim>\<open>ims/agent/mod.rs\<close>,
  \<^verbatim>\<open>ims/agent/call.rs\<close> and \<^verbatim>\<open>ims/agent/ping.rs\<close>. \<open>now\<close> is the monotonic clock, \<open>wall\<close> what
  \<open>SystemTime::now()\<close> reads. The sends an operation asks for come back as its action.
\<close>

section \<open>Dialog helpers\<close>

definition header_tag :: "text_string \<Rightarrow> text_string option" where
  "header_tag v =
     find_map (\<lambda>p. case split_once 61 (trim_start p) of
         Some (name, val) \<Rightarrow> if eq_ignore_ascii_case name (lit ''tag'') then Some val else None
       | None \<Rightarrow> None) (tl (split_on 59 v))"

definition contact_uri :: "text_string \<Rightarrow> text_string option" where
  "contact_uri v =
     (let v = trim v
      in case str_find [60] v of
           Some i \<Rightarrow> map_option (\<lambda>e. take (e - 1) (drop (i + 1) v)) (str_find [62] (drop i v))
         | None \<Rightarrow> (let bare = trim (hd (split_on 59 v)) in if bare = [] then None else Some bare))"

definition route_set_in_order :: "text_string list \<Rightarrow> text_string list" where
  "route_set_in_order record_routes = map (\<lambda>v. lit ''Route: '' @ v) (concat (map split_header_values record_routes))"

definition uac_route_set :: "sip_response \<Rightarrow> text_string list \<Rightarrow> text_string list" where
  "uac_route_set resp service_route =
     (let routes = rev (route_set_in_order (response_headers_all resp (lit ''Record-Route'')))
      in if routes = [] then service_route else routes)"

definition parse_cseq_number :: "text_string \<Rightarrow> nat option" where
  "parse_cseq_number cseq = (case split_whitespace cseq of w # _ \<Rightarrow> parse_uint MAX_U32 w | [] \<Rightarrow> None)"

definition renewal_headroom_for :: "duration \<Rightarrow> duration \<Rightarrow> duration" where
  "renewal_headroom_for granted preferred = min preferred (granted div 2)"

definition DEFAULT_EXPIRES :: nat where
  "DEFAULT_EXPIRES = 3600"

definition PING_RESPONSE_TIMEOUT :: duration where
  "PING_RESPONSE_TIMEOUT = secs 10"

section \<open>State\<close>

definition TIMER_F :: duration where
  "TIMER_F = secs 128"

definition TIMER_N :: duration where
  "TIMER_N = secs 128"

definition SUB_INITIAL_BACKOFF :: duration where
  "SUB_INITIAL_BACKOFF = secs 5"

definition SUB_MAX_BACKOFF :: duration where
  "SUB_MAX_BACKOFF = secs 600"

definition SUPERSEDED_GRACE :: duration where
  "SUPERSEDED_GRACE = secs 128"

definition SUPERSEDED_CAP :: nat where
  "SUPERSEDED_CAP = 32"

definition after :: "instant \<Rightarrow> duration \<Rightarrow> instant" where
  "after now delay = now + min delay (secs MAX_NETWORK_DELAY_SECS)"

definition REFRESH_HEADROOM :: duration where
  "REFRESH_HEADROOM = secs 300"

datatype sub_kind = SubInitial | SubRefresh

datatype endpoint_failure_cause = SubscribeTimeout | SubscribeSendFailed

definition endpoint_cause_str :: "endpoint_failure_cause \<Rightarrow> text_string" where
  "endpoint_cause_str c =
     (case c of SubscribeTimeout \<Rightarrow> lit ''subscribe-timeout'' | SubscribeSendFailed \<Rightarrow> lit ''subscribe-send-failed'')"

datatype sub_action =
    SendInitial nat | SendRefresh nat
  | SendProbe endpoint_failure_cause "text_string option"
  | EndpointFailure endpoint_failure_cause "text_string option"

datatype response_match = RespCurrent | RespSuperseded | RespUnknown

datatype notify_match = NotifyCurrent sub_state | NotifySuperseded | NotifyUnknown

datatype txn = TxnPending nat instant sub_kind | TxnIdle

record probing =
  pb_cause :: endpoint_failure_cause
  pb_call_id :: "text_string option"
  pb_sent :: "(nat \<times> instant) option"

record subscription =
  sb_call_id :: text_string
  sb_local_tag :: text_string
  sb_remote_tag :: "text_string option"
  sb_route_set :: "text_string list"
  sb_remote_target :: "text_string option"
  sb_requested_expires :: nat
  sb_created_at :: instant
  sb_created_wall :: int
  sb_granted :: "duration option"
  sb_expires_at :: "instant option"
  sb_confirmed :: bool
  sb_timer_n :: "instant option"
  sb_notified_since_send :: bool
  sb_refreshed_for :: "instant option"
  sb_last_cseq :: nat
  sb_txn :: txn

definition settled :: "subscription \<Rightarrow> bool" where
  "settled c \<longleftrightarrow> sb_txn c = TxnIdle \<or> sb_notified_since_send c"

definition refresh_due :: "subscription \<Rightarrow> instant \<Rightarrow> bool" where
  "refresh_due c now \<longleftrightarrow>
     \<not> (sb_expires_at c \<noteq> None \<and> sb_refreshed_for c = sb_expires_at c) \<and>
     (case (sb_expires_at c, sb_granted c) of
        (Some e, Some g) \<Rightarrow> e \<le> now + renewal_headroom_for g REFRESH_HEADROOM
      | _ \<Rightarrow> False)"

definition learn_dialog :: "text_string option \<Rightarrow> text_string list \<Rightarrow> text_string option \<Rightarrow> subscription \<Rightarrow> subscription" where
  "learn_dialog remote_tag route_set target c =
     (case (remote_tag, sb_remote_tag c) of
        (Some tag, None) \<Rightarrow> c\<lparr>sb_remote_tag := Some tag, sb_route_set := route_set, sb_remote_target := target\<rparr>
      | _ \<Rightarrow> c)"

record superseded_sub =
  xs_call_id :: text_string
  xs_local_tag :: text_string
  xs_forget_at :: instant

record reg_subscription =
  rg_current :: "subscription option"
  rg_superseded :: "superseded_sub list"
  rg_retry_at :: "instant option"
  rg_backoff :: duration
  rg_min_expires :: nat
  rg_stopped :: "text_string option"
  rg_probing :: "probing option"
  rg_last_failure :: "(int \<times> text_string) option"
  rg_unconfirmed_since :: "int option"
  rg_last_sent_at :: "instant option"

definition new_reg_subscription :: reg_subscription where
  "new_reg_subscription =
     \<lparr>rg_current = None, rg_superseded = [], rg_retry_at = None, rg_backoff = SUB_INITIAL_BACKOFF,
      rg_min_expires = DEFAULT_EXPIRES, rg_stopped = None, rg_probing = None, rg_last_failure = None,
      rg_unconfirmed_since = None, rg_last_sent_at = None\<rparr>"

section \<open>Operations\<close>

subsection \<open>Failures, retries and replaced subscriptions\<close>

definition prune :: "instant \<Rightarrow> reg_subscription \<Rightarrow> reg_subscription" where
  "prune now s = s\<lparr>rg_superseded := filter (\<lambda>x. now < xs_forget_at x) (rg_superseded s)\<rparr>"

definition supersede :: "instant \<Rightarrow> reg_subscription \<Rightarrow> reg_subscription" where
  "supersede now s =
     (case rg_current s of
        None \<Rightarrow> s
      | Some c \<Rightarrow>
          let expiry = (case sb_expires_at c of Some e \<Rightarrow> e | None \<Rightarrow> after (sb_created_at c) (secs (sb_requested_expires c)));
              xs = rg_superseded s @
                [\<lparr>xs_call_id = sb_call_id c, xs_local_tag = sb_local_tag c, xs_forget_at = expiry + SUPERSEDED_GRACE\<rparr>]
          in prune now (s\<lparr>rg_current := None, rg_superseded := drop (length xs - SUPERSEDED_CAP) xs\<rparr>))"

definition record_failure :: "int \<Rightarrow> text_string \<Rightarrow> reg_subscription \<Rightarrow> reg_subscription" where
  "record_failure wall reason s = s\<lparr>rg_last_failure := Some (wall, reason)\<rparr>"

definition mark_unconfirmed :: "int \<Rightarrow> reg_subscription \<Rightarrow> reg_subscription" where
  "mark_unconfirmed wall s =
     s\<lparr>rg_unconfirmed_since := (case rg_unconfirmed_since s of Some t \<Rightarrow> Some t | None \<Rightarrow> Some wall)\<rparr>"

definition schedule_retry :: "instant \<Rightarrow> duration option \<Rightarrow> reg_subscription \<Rightarrow> reg_subscription" where
  "schedule_retry now floor_delay s =
     (let delay = max (rg_backoff s) (case floor_delay of Some d \<Rightarrow> d | None \<Rightarrow> 0)
      in s\<lparr>rg_retry_at := Some (after now delay), rg_backoff := next_backoff (rg_backoff s) SUB_MAX_BACKOFF\<rparr>)"

definition fail :: "instant \<Rightarrow> int \<Rightarrow> text_string \<Rightarrow> duration option \<Rightarrow> reg_subscription \<Rightarrow> reg_subscription" where
  "fail now wall reason floor_delay s = schedule_retry now floor_delay (mark_unconfirmed wall (record_failure wall reason s))"

definition schedule_after_endpoint_failure :: "instant \<Rightarrow> int \<Rightarrow> reg_subscription \<Rightarrow> reg_subscription" where
  "schedule_after_endpoint_failure now wall s = schedule_retry now None (mark_unconfirmed wall s)"

definition begin_probe ::
  "endpoint_failure_cause \<Rightarrow> text_string option \<Rightarrow> instant \<Rightarrow> int \<Rightarrow> bool \<Rightarrow> reg_subscription \<Rightarrow> sub_action \<times> reg_subscription" where
  "begin_probe cause call_id now wall force_renewal_pending s =
     (if force_renewal_pending then
        (EndpointFailure cause call_id,
         fail now wall (case cause of SubscribeTimeout \<Rightarrow> lit ''SUBSCRIBE unanswered within 128s''
                        | SubscribeSendFailed \<Rightarrow> lit ''SUBSCRIBE could not be sent'') None s)
      else
        (SendProbe cause call_id, s\<lparr>rg_probing := Some \<lparr>pb_cause = cause, pb_call_id = call_id, pb_sent = None\<rparr>\<rparr>))"

subsection \<open>What the loop reports\<close>

definition on_new_registration :: "instant \<Rightarrow> reg_subscription \<Rightarrow> sub_action \<times> reg_subscription" where
  "on_new_registration now s =
     (SendInitial DEFAULT_EXPIRES,
      (supersede now s)\<lparr>rg_probing := None, rg_retry_at := None, rg_stopped := None, rg_min_expires := DEFAULT_EXPIRES,
        rg_backoff := SUB_INITIAL_BACKOFF, rg_last_sent_at := None\<rparr>)"

definition on_sent :: "sent_subscribe \<Rightarrow> sub_kind \<Rightarrow> instant \<Rightarrow> int \<Rightarrow> reg_subscription \<Rightarrow> reg_subscription" where
  "on_sent sent kind now wall s =
     (let t = TxnPending (ss_cseq sent) now kind; s = s\<lparr>rg_last_sent_at := Some now\<rparr>
      in case kind of
           SubInitial \<Rightarrow>
             (supersede now s)\<lparr>rg_current := Some
               \<lparr>sb_call_id = ss_call_id sent, sb_local_tag = ss_local_tag sent, sb_remote_tag = None, sb_route_set = [],
                sb_remote_target = None, sb_requested_expires = ss_expires sent, sb_created_at = now, sb_created_wall = wall,
                sb_granted = None, sb_expires_at = None, sb_confirmed = False, sb_timer_n = Some (now + TIMER_N),
                sb_notified_since_send = False, sb_refreshed_for = None, sb_last_cseq = ss_cseq sent, sb_txn = t\<rparr>\<rparr>
         | SubRefresh \<Rightarrow>
             s\<lparr>rg_current := map_option (\<lambda>c. c\<lparr>sb_refreshed_for := sb_expires_at c, sb_requested_expires := ss_expires sent,
                 sb_notified_since_send := False, sb_last_cseq := ss_cseq sent, sb_txn := t\<rparr>) (rg_current s)\<rparr>)"

definition on_send_failed :: "sub_kind \<Rightarrow> instant \<Rightarrow> int \<Rightarrow> bool \<Rightarrow> reg_subscription \<Rightarrow> sub_action \<times> reg_subscription" where
  "on_send_failed kind now wall force_renewal_pending s =
     (let call_id = (case kind of SubRefresh \<Rightarrow> map_option sb_call_id (rg_current s) | SubInitial \<Rightarrow> None)
      in begin_probe SubscribeSendFailed call_id now wall force_renewal_pending
           (if kind = SubRefresh then supersede now s else s))"

definition on_probe_sent :: "nat \<Rightarrow> instant \<Rightarrow> reg_subscription \<Rightarrow> reg_subscription" where
  "on_probe_sent cseq now s = s\<lparr>rg_probing := map_option (\<lambda>p. p\<lparr>pb_sent := Some (cseq, now)\<rparr>) (rg_probing s)\<rparr>"

definition on_probe_send_failed :: "instant \<Rightarrow> int \<Rightarrow> reg_subscription \<Rightarrow> sub_action option \<times> reg_subscription" where
  "on_probe_send_failed now wall s =
     (case rg_probing s of
        None \<Rightarrow> (None, s)
      | Some p \<Rightarrow>
          (Some (EndpointFailure (pb_cause p) (pb_call_id p)), schedule_after_endpoint_failure now wall (s\<lparr>rg_probing := None\<rparr>)))"

definition on_probe_response :: "nat \<Rightarrow> instant \<Rightarrow> int \<Rightarrow> reg_subscription \<Rightarrow> bool \<times> reg_subscription" where
  "on_probe_response cseq now wall s =
     (case rg_probing s of
        Some p \<Rightarrow>
          if (case pb_sent p of Some (sent, _) \<Rightarrow> sent = cseq | None \<Rightarrow> False) then
            (True,
             fail now wall (case pb_cause p of SubscribeTimeout \<Rightarrow> lit ''SUBSCRIBE unanswered within 128s (Gm path alive)''
                            | SubscribeSendFailed \<Rightarrow> lit ''SUBSCRIBE could not be sent (Gm path alive)'') None
               (s\<lparr>rg_probing := None\<rparr>))
          else (False, s)
      | None \<Rightarrow> (False, s))"

subsection \<open>Answers to a SUBSCRIBE\<close>

definition retry_after_secs :: "text_string \<Rightarrow> nat option" where
  "retry_after_secs v =
     map_option (\<lambda>n. min n MAX_NETWORK_DELAY_SECS) (parse_uint MAX_U64 (takeWhile is_ascii_digit (trim v)))"

definition u32_header :: "sip_response \<Rightarrow> string \<Rightarrow> nat option" where
  "u32_header resp name = Option.bind (response_header resp (lit name)) (\<lambda>v. parse_uint MAX_U32 (trim v))"

text \<open>The answer to the outstanding transaction of the current subscription \<open>c\<close>.\<close>

definition on_current_response :: "sip_response \<Rightarrow> sub_kind \<Rightarrow> instant \<Rightarrow> int \<Rightarrow> subscription \<Rightarrow> reg_subscription \<Rightarrow> reg_subscription" where
  "on_current_response resp kind now wall c s =
     (if rs_status resp < 200 then s
      else
        (let c = c\<lparr>sb_txn := TxnIdle\<rparr>;
             s = s\<lparr>rg_current := Some c\<rparr>;
             refused = lit ''SUBSCRIBE refused: '' @ show_nat (rs_status resp) @ [32] @ rs_reason resp
         in if rs_status resp \<le> 299 then
              (let granted = (case u32_header resp ''Expires'' of Some v \<Rightarrow> v | None \<Rightarrow> sb_requested_expires c)
               in if granted = 0 then fail now wall (lit ''SUBSCRIBE accepted with Expires: 0'') None (supersede now s)
                  else
                    s\<lparr>rg_current := Some (learn_dialog (Option.bind (response_header resp (lit ''To'')) header_tag) (uac_route_set resp [])
                        (Option.bind (response_header resp (lit ''Contact'')) contact_uri)
                        (c\<lparr>sb_granted := Some (secs granted), sb_expires_at := Some (after now (secs granted))\<rparr>)),
                      rg_retry_at := None\<rparr>)
            else if rs_status resp = 423 \<and> (case u32_header resp ''Min-Expires'' of Some m \<Rightarrow> rg_min_expires s < m | None \<Rightarrow> False) then
              (let s = s\<lparr>rg_min_expires := the (u32_header resp ''Min-Expires'')\<rparr>
               in (if kind = SubInitial then supersede now s else s)\<lparr>rg_retry_at := Some now\<rparr>)
            else if rs_status resp = 489 then
              (record_failure wall refused ((supersede now s)\<lparr>rg_retry_at := None\<rparr>))
                \<lparr>rg_stopped := Some (show_nat (rs_status resp) @ [32] @ rs_reason resp)\<rparr>
            else if rs_status resp = 481 \<and> kind = SubRefresh then
              (mark_unconfirmed wall (record_failure wall refused (supersede now s)))\<lparr>rg_retry_at := Some now\<rparr>
            else
              fail now wall refused (map_option secs (Option.bind (response_header resp (lit ''Retry-After'')) retry_after_secs))
                (if kind = SubInitial \<or> rs_status resp = 408 then supersede now s else s)))"

text \<open>The outstanding transaction that an answer with this Call-ID and CSeq belongs to.\<close>

definition pending_txn :: "text_string \<Rightarrow> nat option \<Rightarrow> reg_subscription \<Rightarrow> (subscription \<times> sub_kind) option" where
  "pending_txn call_id cseq s =
     (case rg_current s of
        Some c \<Rightarrow>
          (case sb_txn c of
             TxnPending pc _ kind \<Rightarrow> if sb_call_id c = call_id \<and> Some pc = cseq then Some (c, kind) else None
           | TxnIdle \<Rightarrow> None)
      | None \<Rightarrow> None)"

definition on_response :: "sip_response \<Rightarrow> instant \<Rightarrow> int \<Rightarrow> reg_subscription \<Rightarrow> response_match \<times> reg_subscription" where
  "on_response resp now wall s =
     (let call_id = (case response_header resp (lit ''Call-ID'') of Some v \<Rightarrow> v | None \<Rightarrow> []);
          cseq = Option.bind (response_header resp (lit ''CSeq'')) parse_cseq_number
      in case pending_txn call_id cseq s of
           Some (c, kind) \<Rightarrow> (RespCurrent, on_current_response resp kind now wall c s)
         | None \<Rightarrow>
             (if (case rg_current s of Some c \<Rightarrow> sb_call_id c = call_id | None \<Rightarrow> False) \<or>
                 list_ex (\<lambda>x. xs_call_id x = call_id) (rg_superseded s)
              then RespSuperseded else RespUnknown, s))"

subsection \<open>NOTIFY requests\<close>

text \<open>The Call-ID and To tag of a NOTIFY of the reg event package; \<open>None\<close>: no subscription of ours.\<close>

definition notify_ids :: "sip_request \<Rightarrow> (text_string \<times> text_string) option" where
  "notify_ids req =
     (let event = (case (case header req (lit ''Event'') of None \<Rightarrow> header req (lit ''o'') | v \<Rightarrow> v) of
                     Some v \<Rightarrow> trim (hd (split_on 59 v)) | None \<Rightarrow> [])
      in if \<not> eq_ignore_ascii_case event (lit ''reg'') then None
         else map_option (Pair (case header req (lit ''Call-ID'') of Some v \<Rightarrow> v | None \<Rightarrow> []))
                (Option.bind (header req (lit ''To'')) header_tag))"

definition notify_current :: "sip_request \<Rightarrow> sub_state \<Rightarrow> subscription \<Rightarrow> reg_subscription \<Rightarrow> reg_subscription" where
  "notify_current req state c s =
     (let c = (learn_dialog (Option.bind (header req (lit ''From'')) header_tag)
            (route_set_in_order (headers_all req (lit ''Record-Route'')))
            (Option.bind (header req (lit ''Contact'')) contact_uri) c)
          \<lparr>sb_notified_since_send := True, sb_timer_n := None\<rparr>
      in if \<not> sb_confirmed c \<and> su_state state \<noteq> SubTerminated then
           s\<lparr>rg_current := Some (c\<lparr>sb_confirmed := True\<rparr>), rg_backoff := SUB_INITIAL_BACKOFF, rg_unconfirmed_since := None\<rparr>
         else s\<lparr>rg_current := Some c\<rparr>)"

definition on_notify :: "sip_request \<Rightarrow> instant \<Rightarrow> reg_subscription \<Rightarrow> notify_match \<times> reg_subscription" where
  "on_notify req now s =
     (let s = prune now s
      in case notify_ids req of
           None \<Rightarrow> (NotifyUnknown, s)
         | Some (call_id, to_tag) \<Rightarrow>
             (case (case rg_current s of Some c \<Rightarrow> if sb_call_id c = call_id \<and> sb_local_tag c = to_tag then Some c else None | None \<Rightarrow> None) of
                Some c \<Rightarrow>
                  let state = parse_subscription_state (case header req (lit ''Subscription-State'') of Some v \<Rightarrow> v | None \<Rightarrow> [])
                  in (NotifyCurrent state, notify_current req state c s)
              | None \<Rightarrow>
                  (if list_ex (\<lambda>x. xs_call_id x = call_id \<and> xs_local_tag x = to_tag) (rg_superseded s)
                   then NotifySuperseded else NotifyUnknown, s)))"

definition apply_subscription_state :: "sub_state \<Rightarrow> instant \<Rightarrow> int \<Rightarrow> reg_subscription \<Rightarrow> reg_subscription" where
  "apply_subscription_state state now wall s =
     (case rg_current s of
        None \<Rightarrow> s
      | Some c \<Rightarrow>
          (case su_state state of
             SubMissing \<Rightarrow> s
           | SubTerminated \<Rightarrow>
               let reason = (case su_reason state of Some r \<Rightarrow> r | None \<Rightarrow> []);
                   s = mark_unconfirmed wall (record_failure wall
                     (lit ''terminated by the network: '' @ (if reason = [] then lit ''no reason'' else reason)) (supersede now s));
                   wait = map_option secs (su_retry_after state)
               in if reason = lit ''deactivated'' \<or> reason = lit ''timeout'' then s\<lparr>rg_retry_at := Some now\<rparr>
                  else if reason = lit ''rejected'' \<or> reason = lit ''noresource'' then
                    s\<lparr>rg_retry_at := None, rg_stopped := Some (lit ''terminated: '' @ reason)\<rparr>
                  else schedule_retry now wait s
           | _ \<Rightarrow>
               (case su_expires state of
                  Some e \<Rightarrow> s\<lparr>rg_current := Some (c\<lparr>sb_granted := Some (secs e), sb_expires_at := Some (after now (secs e))\<rparr>)\<rparr>
                | None \<Rightarrow> s)))"

subsection \<open>The timers\<close>

definition spaced :: "instant \<Rightarrow> reg_subscription \<Rightarrow> bool" where
  "spaced now s \<longleftrightarrow> (case rg_last_sent_at s of Some t \<Rightarrow> t + SUB_INITIAL_BACKOFF \<le> now | None \<Rightarrow> True)"

text \<open>A transaction that a NOTIFY has proved received, but whose answer never came, is ended.\<close>

definition end_notified_txn :: "instant \<Rightarrow> subscription \<Rightarrow> subscription" where
  "end_notified_txn now c =
     (case sb_txn c of
        TxnPending _ sent_at _ \<Rightarrow> if sb_notified_since_send c \<and> sent_at + TIMER_F \<le> now then c\<lparr>sb_txn := TxnIdle\<rparr> else c
      | TxnIdle \<Rightarrow> c)"

definition timer_f_fired :: "instant \<Rightarrow> subscription \<Rightarrow> bool" where
  "timer_f_fired now c \<longleftrightarrow>
     (case sb_txn c of TxnPending _ sent_at _ \<Rightarrow> \<not> sb_notified_since_send c \<and> sent_at + TIMER_F \<le> now | TxnIdle \<Rightarrow> False)"

text \<open>The end of \<open>poll\<close>: a scheduled SUBSCRIBE that is due.\<close>

definition send_due :: "instant \<Rightarrow> reg_subscription \<Rightarrow> sub_action option \<times> reg_subscription" where
  "send_due now s =
     (if \<not> (case rg_retry_at s of Some t \<Rightarrow> t \<le> now | None \<Rightarrow> False) \<or> \<not> spaced now s then (None, s)
      else
        (case rg_current s of
           Some c \<Rightarrow>
             if settled c \<and> sb_remote_tag c \<noteq> None then (Some (SendRefresh (rg_min_expires s)), s\<lparr>rg_retry_at := None\<rparr>)
             else (None, s)
         | None \<Rightarrow> (Some (SendInitial (rg_min_expires s)), s\<lparr>rg_retry_at := None\<rparr>)))"

definition poll_current :: "instant \<Rightarrow> int \<Rightarrow> bool \<Rightarrow> subscription \<Rightarrow> reg_subscription \<Rightarrow> sub_action option \<times> reg_subscription" where
  "poll_current now wall force_renewal_pending c s =
     (if timer_f_fired now c then
        apfst Some (begin_probe SubscribeTimeout (Some (sb_call_id c)) now wall force_renewal_pending (supersede now s))
      else if (case sb_expires_at c of Some e \<Rightarrow> e \<le> now | None \<Rightarrow> False) then
        send_due now
          ((mark_unconfirmed wall (record_failure wall (lit ''expired without a successful refresh'') (supersede now s)))
            \<lparr>rg_retry_at := Some (case rg_retry_at s of Some t \<Rightarrow> max t now | None \<Rightarrow> now)\<rparr>)
      else if \<not> sb_confirmed c \<and> (case sb_timer_n c of Some t \<Rightarrow> t \<le> now | None \<Rightarrow> False) then
        (None, fail now wall (lit ''accepted but no NOTIFY within 128s'') None (supersede now s))
      else if settled c \<and> refresh_due c now \<and> rg_retry_at s = None \<and> spaced now s then
        (if sb_remote_tag c \<noteq> None then (Some (SendRefresh (rg_min_expires s)), s)
         else send_due now ((supersede now s)\<lparr>rg_retry_at := Some now\<rparr>))
      else send_due now s)"

definition poll :: "instant \<Rightarrow> int \<Rightarrow> bool \<Rightarrow> reg_subscription \<Rightarrow> sub_action option \<times> reg_subscription" where
  "poll now wall force_renewal_pending s =
     (let s = prune now s
      in case rg_probing s of
           Some p \<Rightarrow>
             if (case pb_sent p of Some (_, at) \<Rightarrow> at + PING_RESPONSE_TIMEOUT \<le> now | None \<Rightarrow> False) then
               (Some (EndpointFailure (pb_cause p) (pb_call_id p)), schedule_after_endpoint_failure now wall (s\<lparr>rg_probing := None\<rparr>))
             else (None, s)
         | None \<Rightarrow>
             if rg_stopped s \<noteq> None then (None, s)
             else
               (case rg_current s of
                  Some c \<Rightarrow>
                    let c = end_notified_txn now c
                    in poll_current now wall force_renewal_pending c (s\<lparr>rg_current := Some c\<rparr>)
                | None \<Rightarrow> send_due now s))"

subsection \<open>Views\<close>

record refresh_dialog =
  rd_call_id :: text_string
  rd_local_tag :: text_string
  rd_remote_tag :: text_string
  rd_remote_target :: "text_string option"
  rd_route_set :: "text_string list"

definition refresh_dialog_of :: "reg_subscription \<Rightarrow> refresh_dialog option" where
  "refresh_dialog_of s =
     Option.bind (rg_current s) (\<lambda>c. map_option (\<lambda>tag.
       \<lparr>rd_call_id = sb_call_id c, rd_local_tag = sb_local_tag c, rd_remote_tag = tag, rd_remote_target = sb_remote_target c,
        rd_route_set = sb_route_set c\<rparr>) (sb_remote_tag c))"

datatype subscription_health =
    HealthNone | HealthPending int | HealthConfirmed "int option" | HealthUnconfirmed int "int option" | HealthStopped text_string

definition subscription_health_of :: "instant \<Rightarrow> int \<Rightarrow> reg_subscription \<Rightarrow> subscription_health" where
  "subscription_health_of now now_wall s =
     (let wall = (\<lambda>t. now_wall + (int t - int now))
      in case rg_stopped s of
           Some reason \<Rightarrow> HealthStopped reason
         | None \<Rightarrow>
             (case rg_current s of
                Some c \<Rightarrow> if sb_confirmed c then HealthConfirmed (map_option wall (sb_expires_at c)) else HealthPending (sb_created_wall c)
              | None \<Rightarrow>
                  if rg_probing s \<noteq> None \<or> rg_retry_at s \<noteq> None \<or> rg_unconfirmed_since s \<noteq> None then
                    HealthUnconfirmed (case rg_unconfirmed_since s of Some t \<Rightarrow> t | None \<Rightarrow> now_wall) (map_option wall (rg_retry_at s))
                  else HealthNone))"

section \<open>The loop around the machine\<close>

text \<open>
  How the agent performs an action and reports back (\<open>apply_sub_action\<close> and \<open>send_subscribe\<close> of
  \<^verbatim>\<open>ims/agent/mod.rs\<close>). The clock is read once per turn; \<open>sv_send\<close> is the outcome of
  \<open>send_reg_subscribe\<close> (\<open>None\<close>: an error), \<open>sv_probe\<close> the sequence number of the probe or \<open>None\<close> if it could not be
  sent. The result is the qualifying endpoint failure that was reached, if any, and the SUBSCRIBEs that went out.
\<close>

record send_env =
  sv_clock :: "nat \<Rightarrow> instant"
  sv_wall :: "nat \<Rightarrow> int"
  sv_send :: "sub_kind \<Rightarrow> nat \<Rightarrow> refresh_dialog option \<Rightarrow> sent_subscribe option"
  sv_probe :: "nat option"

datatype sub_trace = TraceSent instant sub_kind | TraceRegistered

definition send_subscribe ::
  "send_env \<Rightarrow> bool \<Rightarrow> nat \<Rightarrow> sub_kind \<Rightarrow> nat \<Rightarrow> reg_subscription \<Rightarrow> sub_trace list \<times> sub_action option \<times> reg_subscription" where
  "send_subscribe env force_renewal k kind expires s =
     (if kind = SubRefresh \<and> refresh_dialog_of s = None then ([], None, s)
      else
        (case sv_send env kind expires (if kind = SubRefresh then refresh_dialog_of s else None) of
           Some sent \<Rightarrow> ([TraceSent (sv_clock env k) kind], None, on_sent sent kind (sv_clock env k) (sv_wall env k) s)
         | None \<Rightarrow> ([], apfst Some (on_send_failed kind (sv_clock env k) (sv_wall env k) force_renewal s))))"

definition action_rank :: "sub_action \<Rightarrow> nat" where
  "action_rank a = (case a of SendInitial _ \<Rightarrow> 2 | SendRefresh _ \<Rightarrow> 2 | SendProbe _ _ \<Rightarrow> 1 | EndpointFailure _ _ \<Rightarrow> 0)"

lemma action_rank_le: "action_rank a \<le> 2"
  by (simp add: action_rank_def split: sub_action.split)

lemma begin_probe_rank: "begin_probe cause cid now wall force s = (a, s') \<Longrightarrow> action_rank a < 2"
  by (auto simp: begin_probe_def action_rank_def split: if_splits)

lemma send_subscribe_rank: "send_subscribe env force k kind e s = (tr, Some a, s') \<Longrightarrow> action_rank a < 2"
  by (auto simp: send_subscribe_def on_send_failed_def apfst_def map_prod_def split: if_splits option.splits prod.splits
      dest!: begin_probe_rank)

text \<open>One turn of the loop.\<close>

definition perform_action ::
  "send_env \<Rightarrow> bool \<Rightarrow> nat \<Rightarrow> sub_action \<Rightarrow> reg_subscription \<Rightarrow> sub_trace list \<times> sub_action option \<times> reg_subscription" where
  "perform_action env force_renewal k action s =
     (case action of
        SendInitial expires \<Rightarrow> send_subscribe env force_renewal k SubInitial expires s
      | SendRefresh expires \<Rightarrow> send_subscribe env force_renewal k SubRefresh expires s
      | SendProbe _ _ \<Rightarrow>
          (case sv_probe env of
             Some cseq \<Rightarrow> ([], None, on_probe_sent cseq (sv_clock env k) s)
           | None \<Rightarrow> ([], on_probe_send_failed (sv_clock env k) (sv_wall env k) s))
      | EndpointFailure _ _ \<Rightarrow> ([], None, s))"

lemma perform_action_rank: "perform_action env force k a s = (tr, Some a', s') \<Longrightarrow> action_rank a' < action_rank a"
  by (auto simp: perform_action_def on_probe_send_failed_def action_rank_def dest!: send_subscribe_rank
      split: sub_action.splits option.splits)

function apply_sub_action ::
  "send_env \<Rightarrow> bool \<Rightarrow> nat \<Rightarrow> sub_action \<Rightarrow> reg_subscription \<Rightarrow>
   sub_trace list \<times> endpoint_failure_cause option \<times> reg_subscription" where
  "apply_sub_action env force_renewal k action s =
     (case perform_action env force_renewal k action s of
        (tr, None, s) \<Rightarrow> (tr, case action of EndpointFailure cause _ \<Rightarrow> Some cause | _ \<Rightarrow> None, s)
      | (tr, Some a, s) \<Rightarrow> apfst ((@) tr) (apply_sub_action env force_renewal (k + 1) a s))"
  by pat_completeness auto
termination
  by (relation "measure (\<lambda>(_, _, _, a, _). action_rank a)") (auto dest: perform_action_rank [OF sym])

declare apply_sub_action.simps [simp del]

section \<open>Runs\<close>

text \<open>
  What can happen to a line's subscription, in the order the agent handles it. A NOTIFY of the current subscription is
  matched and its state applied by the same handler.
\<close>

datatype sub_event =
    LineRegistered send_env | LinePolled bool send_env | SubscribeAnswered sip_response | NotifyReceived sip_request
  | ProbeAnswered nat

definition sub_step :: "instant \<Rightarrow> int \<Rightarrow> sub_event \<Rightarrow> reg_subscription \<Rightarrow> sub_trace list \<times> reg_subscription" where
  "sub_step now wall ev s =
     (case ev of
        LineRegistered env \<Rightarrow>
          (case on_new_registration now s of (a, s) \<Rightarrow>
             case apply_sub_action env False 0 a s of (tr, _, s) \<Rightarrow> (TraceRegistered # tr, s))
      | LinePolled force_renewal env \<Rightarrow>
          (case poll now wall force_renewal s of
             (None, s) \<Rightarrow> ([], s)
           | (Some a, s) \<Rightarrow> (case apply_sub_action env force_renewal 0 a s of (tr, _, s) \<Rightarrow> (tr, s)))
      | SubscribeAnswered resp \<Rightarrow> ([], snd (on_response resp now wall s))
      | NotifyReceived req \<Rightarrow>
          (case on_notify req now s of
             (NotifyCurrent state, s) \<Rightarrow> ([], apply_subscription_state state now wall s)
           | (_, s) \<Rightarrow> ([], s))
      | ProbeAnswered cseq \<Rightarrow> ([], snd (on_probe_response cseq now wall s)))"

type_synonym timed_event = "instant \<times> int \<times> sub_event"

fun sub_run :: "timed_event list \<Rightarrow> reg_subscription \<Rightarrow> sub_trace list \<times> reg_subscription" where
  "sub_run [] s = ([], s)"
| "sub_run ((now, wall, ev) # evs) s =
     (case sub_step now wall ev s of (tr, s) \<Rightarrow> apfst ((@) tr) (sub_run evs s))"

text \<open>The clock read while an event is handled has passed the time the event was taken up.\<close>

fun clock_ok :: "timed_event \<Rightarrow> bool" where
  "clock_ok (now, _, LineRegistered env) \<longleftrightarrow> (\<forall>k. now \<le> sv_clock env k)"
| "clock_ok (now, _, LinePolled _ env) \<longleftrightarrow> (\<forall>k. now \<le> sv_clock env k)"
| "clock_ok _ \<longleftrightarrow> True"

section \<open>Spacing\<close>

fun spaced_trace :: "instant option \<Rightarrow> sub_trace list \<Rightarrow> bool" where
  "spaced_trace l [] \<longleftrightarrow> True"
| "spaced_trace l (TraceRegistered # tr) \<longleftrightarrow> spaced_trace None tr"
| "spaced_trace l (TraceSent t _ # tr) \<longleftrightarrow>
     (case l of Some t' \<Rightarrow> t' + SUB_INITIAL_BACKOFF \<le> t | None \<Rightarrow> True) \<and> spaced_trace (Some t) tr"

text \<open>Everything but a SUBSCRIBE that went out leaves the time of the last one alone.\<close>

lemma last_sent_simps [simp]:
  "rg_last_sent_at (prune now s) = rg_last_sent_at s"
  "rg_last_sent_at (supersede now s) = rg_last_sent_at s"
  "rg_last_sent_at (record_failure wall r s) = rg_last_sent_at s"
  "rg_last_sent_at (mark_unconfirmed wall s) = rg_last_sent_at s"
  "rg_last_sent_at (schedule_retry now f s) = rg_last_sent_at s"
  "rg_last_sent_at (fail now wall r f s) = rg_last_sent_at s"
  "rg_last_sent_at (schedule_after_endpoint_failure now wall s) = rg_last_sent_at s"
  "rg_last_sent_at (snd (begin_probe cause cid now wall force s)) = rg_last_sent_at s"
  "rg_last_sent_at (snd (on_send_failed kind now wall force s)) = rg_last_sent_at s"
  "rg_last_sent_at (on_probe_sent cseq now s) = rg_last_sent_at s"
  "rg_last_sent_at (snd (on_probe_send_failed now wall s)) = rg_last_sent_at s"
  "rg_last_sent_at (snd (on_probe_response cseq now wall s)) = rg_last_sent_at s"
  "rg_last_sent_at (snd (send_due now s)) = rg_last_sent_at s"
  "rg_last_sent_at (on_sent sent kind now wall s) = Some now"
  by (simp_all add: prune_def supersede_def record_failure_def mark_unconfirmed_def schedule_retry_def fail_def Let_def
      schedule_after_endpoint_failure_def begin_probe_def on_send_failed_def on_probe_sent_def on_probe_send_failed_def
      on_probe_response_def send_due_def on_sent_def split: option.split sub_kind.split)

lemma probe_failed_last_sent: "on_probe_send_failed now wall s = (a, s') \<Longrightarrow> rg_last_sent_at s' = rg_last_sent_at s"
  by (auto simp: on_probe_send_failed_def split: option.splits)

lemma current_response_last_sent [simp]: "rg_last_sent_at (on_current_response resp kind now wall c s) = rg_last_sent_at s"
  by (simp add: on_current_response_def Let_def)

lemma response_last_sent [simp]: "rg_last_sent_at (snd (on_response resp now wall s)) = rg_last_sent_at s"
  by (simp add: on_response_def Let_def split: option.split)

lemma notify_current_last_sent [simp]: "rg_last_sent_at (notify_current req state c s) = rg_last_sent_at s"
  by (simp add: notify_current_def Let_def)

lemma notify_last_sent: "on_notify req now s = (m, s') \<Longrightarrow> rg_last_sent_at s' = rg_last_sent_at s"
  by (auto simp: on_notify_def Let_def split: if_splits option.splits)

lemma apply_state_last_sent [simp]: "rg_last_sent_at (apply_subscription_state st now wall s) = rg_last_sent_at s"
  by (simp add: apply_subscription_state_def Let_def split: option.split sub_state_kind.split)

lemma poll_last_sent: "poll now wall force s = (a, s') \<Longrightarrow> rg_last_sent_at s' = rg_last_sent_at s"
proof -
  have c: "rg_last_sent_at (snd (poll_current now wall force c s)) = rg_last_sent_at s" for c s
    by (simp add: poll_current_def apfst_def map_prod_def split_beta)
  have "rg_last_sent_at (snd (poll now wall force s)) = rg_last_sent_at s"
    by (simp add: poll_def c Let_def split: option.split)
  then show "poll now wall force s = (a, s') \<Longrightarrow> rg_last_sent_at s' = rg_last_sent_at s" by simp
qed

lemma send_due_spaced: "fst (send_due now s) = Some a \<Longrightarrow> spaced now s"
  by (auto simp: send_due_def split: if_splits)

lemma spaced_cong: "rg_last_sent_at s = rg_last_sent_at s' \<Longrightarrow> spaced now s = spaced now s'"
  by (simp add: spaced_def)

lemma poll_sends_spaced:
  assumes "poll now wall force s = (Some a, s')" "action_rank a = 2"
  shows "spaced now s"
proof -
  have c: "spaced now s" if "fst (poll_current now wall force c s) = Some a" for c s
  proof -
    have "fst (send_due now t) = Some a \<Longrightarrow> rg_last_sent_at t = rg_last_sent_at s \<Longrightarrow> spaced now s" for t
      using send_due_spaced [of now t a] spaced_cong [of t s now] by simp
    moreover have "fst (begin_probe cause cid now wall force t) \<noteq> a" for cause cid t
      using begin_probe_rank [of cause cid now wall force t] assms(2) by (cases "begin_probe cause cid now wall force t") auto
    ultimately show ?thesis using that by (auto simp: poll_current_def split: if_splits)
  qed
  have "fst (poll now wall force s) = Some a" using assms(1) by simp
  then have "spaced now (prune now s)"
    using assms(2) c [of "end_notified_txn now x" "prune now s\<lparr>rg_current := Some (end_notified_txn now x)\<rparr>" for x] send_due_spaced [of now "prune now s" a]
    by (auto simp: poll_def Let_def spaced_def action_rank_def split: option.splits if_splits)
  then show ?thesis by (simp add: spaced_def)
qed

text \<open>Performing an action sends at most once, in its first turn, and only when it is a send.\<close>

lemma apply_sub_action_trace:
  assumes "apply_sub_action env force k a s = (tr, r, s')"
  shows "(tr = [] \<and> rg_last_sent_at s' = rg_last_sent_at s) \<or>
    (action_rank a = 2 \<and> (\<exists>j kind. tr = [TraceSent (sv_clock env j) kind] \<and> rg_last_sent_at s' = Some (sv_clock env j)))"
  using assms
proof (induction env force k a s arbitrary: tr r s' rule: apply_sub_action.induct)
  case (1 env force k a s)
  obtain tr1 n s1 where one: "perform_action env force k a s = (tr1, n, s1)" by (metis prod_cases3)
  have first: "(tr1 = [] \<and> rg_last_sent_at s1 = rg_last_sent_at s) \<or>
      (action_rank a = 2 \<and> n = None \<and> (\<exists>kind. tr1 = [TraceSent (sv_clock env k) kind]) \<and> rg_last_sent_at s1 = Some (sv_clock env k))"
    using one by (auto simp: perform_action_def send_subscribe_def action_rank_def apfst_def map_prod_def split_beta
        dest: probe_failed_last_sent split: sub_action.splits option.splits if_splits)
  show ?case
  proof (cases n)
    case None
    then show ?thesis using 1(2) one first by (auto simp: apply_sub_action.simps [of env force k a s])
  next
    case (Some a')
    obtain tr2 r2 s2 where two: "apply_sub_action env force (k + 1) a' s1 = (tr2, r2, s2)" by (metis prod_cases3)
    have "action_rank a' < 2" using perform_action_rank [OF one [unfolded Some]] action_rank_le [of a] by linarith
    then have "tr2 = [] \<and> rg_last_sent_at s2 = rg_last_sent_at s1" using "1.IH" [OF one [symmetric] refl Some two] by auto
    then show ?thesis using 1(2) one first two Some by (auto simp: apply_sub_action.simps [of env force k a s])
  qed
qed

lemma sub_step_trace:
  assumes "clock_ok (now, wall, ev)" "sub_step now wall ev s = (tr, s')"
  shows "spaced_trace (rg_last_sent_at s) (tr @ rest) \<longleftrightarrow> spaced_trace (rg_last_sent_at s') rest"
proof (cases ev)
  case (LineRegistered env)
  obtain a s1 where a: "on_new_registration now s = (a, s1)" by force
  then have "rg_last_sent_at s1 = None" by (auto simp: on_new_registration_def)
  moreover obtain tr1 r s2 where "apply_sub_action env False 0 a s1 = (tr1, r, s2)" by (metis prod_cases3)
  moreover note apply_sub_action_trace [OF this]
  ultimately show ?thesis using assms(2) a LineRegistered by (auto simp: sub_step_def)
next
  case (LinePolled force env)
  obtain a s1 where p: "poll now wall force s = (a, s1)" by force
  note last = poll_last_sent [OF p]
  show ?thesis
  proof (cases a)
    case None
    then show ?thesis using assms(2) p last LinePolled by (simp add: sub_step_def)
  next
    case (Some act)
    obtain tr1 r s2 where act: "apply_sub_action env force 0 act s1 = (tr1, r, s2)" by (metis prod_cases3)
    have "spaced now s" if "action_rank act = 2" using poll_sends_spaced p Some that by blast
    moreover have "now \<le> sv_clock env j" for j using assms(1) LinePolled by simp
    moreover have "tr = tr1" "s' = s2" using assms(2) p act Some LinePolled by (simp_all add: sub_step_def)
    moreover have "case rg_last_sent_at s of Some t' \<Rightarrow> t' + SUB_INITIAL_BACKOFF \<le> sv_clock env j | None \<Rightarrow> True" if "action_rank act = 2" for j
      using calculation(1,2) that by (auto simp: spaced_def dest: order_trans split: option.splits)
    ultimately show ?thesis using apply_sub_action_trace [OF act] last by auto
  qed
next
  case (NotifyReceived req)
  then show ?thesis using assms(2) by (auto simp: sub_step_def dest: notify_last_sent split: prod.splits notify_match.splits)
qed (use assms(2) in \<open>auto simp: sub_step_def\<close>)

lemma sub_run_spaced: "list_all clock_ok evs \<Longrightarrow> spaced_trace (rg_last_sent_at s) (fst (sub_run evs s))"
proof (induction evs arbitrary: s)
  case (Cons e evs)
  obtain now wall ev where e: "e = (now, wall, ev)" by (cases e) auto
  obtain tr s' where step: "sub_step now wall ev s = (tr, s')" by force
  show ?case using Cons sub_step_trace [OF _ step, of "fst (sub_run evs s')"] by (simp add: e step)
qed simp

section \<open>Replaced subscriptions\<close>

text \<open>\<open>x\<close> is remembered, and at most \<open>m\<close> subscriptions, the current one included, are younger.\<close>

definition younger_than :: "superseded_sub \<Rightarrow> nat \<Rightarrow> superseded_sub list \<Rightarrow> bool \<Rightarrow> bool" where
  "younger_than x m xs idle \<longleftrightarrow> (\<exists>older younger. xs = older @ x # younger \<and> length younger + (if idle then 0 else 1) \<le> m)"

definition remembers :: "superseded_sub \<Rightarrow> nat \<Rightarrow> reg_subscription \<Rightarrow> bool" where
  "remembers x m s \<longleftrightarrow> younger_than x m (rg_superseded s) (rg_current s = None)"

lemma younger_mono:
  assumes "younger_than x m xs idle" "m + (if idle' then 0 else if idle then 1 else 0) \<le> m'"
  shows "younger_than x m' xs idle'"
proof -
  obtain older younger where "xs = older @ x # younger" "length younger + (if idle then 0 else 1) \<le> m"
    using assms(1) by (auto simp: younger_than_def)
  then show ?thesis using assms(2) unfolding younger_than_def
    by (intro exI [of _ older] exI [of _ younger]) (auto split: if_splits)
qed

lemma younger_filter:
  assumes "younger_than x m xs idle" "P x" shows "younger_than x m (filter P xs) idle"
proof -
  obtain older younger where xs: "xs = older @ x # younger" "length younger + (if idle then 0 else 1) \<le> m"
    using assms(1) by (auto simp: younger_than_def)
  have "length (filter P younger) + (if idle then 0 else 1) \<le> m" using xs(2) length_filter_le [of P younger] by linarith
  then show ?thesis using xs(1) assms(2) unfolding younger_than_def by (intro exI [of _ "filter P older"] exI [of _ "filter P younger"]) simp
qed

lemma younger_push:
  assumes "younger_than x m xs False" "m < n" shows "younger_than x m (drop (length (xs @ [y]) - n) (xs @ [y])) True"
proof -
  obtain older younger where xs: "xs = older @ x # younger" "length younger + 1 \<le> m" using assms(1) by (auto simp: younger_than_def)
  then have "drop (length (xs @ [y]) - n) (xs @ [y]) = drop (length (xs @ [y]) - n) older @ x # (younger @ [y])"
    using assms(2) by simp
  then show ?thesis using xs(2) unfolding younger_than_def by (metis length_append_singleton Suc_eq_plus1 add_0_right)
qed

lemma projection_simps [simp]:
  "rg_current (prune now s) = rg_current s"
  "rg_current (supersede now s) = None"
  "rg_current (record_failure wall r s) = rg_current s" "rg_superseded (record_failure wall r s) = rg_superseded s"
  "rg_current (mark_unconfirmed wall s) = rg_current s" "rg_superseded (mark_unconfirmed wall s) = rg_superseded s"
  "rg_current (schedule_retry now f s) = rg_current s" "rg_superseded (schedule_retry now f s) = rg_superseded s"
  "rg_current (fail now wall r f s) = rg_current s" "rg_superseded (fail now wall r f s) = rg_superseded s"
  "rg_current (schedule_after_endpoint_failure now wall s) = rg_current s"
  "rg_superseded (schedule_after_endpoint_failure now wall s) = rg_superseded s"
  "rg_current (snd (begin_probe cause cid now wall force s)) = rg_current s"
  "rg_superseded (snd (begin_probe cause cid now wall force s)) = rg_superseded s"
  "rg_superseded (snd (send_due now s)) = rg_superseded s" "rg_current (snd (send_due now s)) = rg_current s"
  by (simp_all add: prune_def supersede_def record_failure_def mark_unconfirmed_def schedule_retry_def fail_def Let_def
      schedule_after_endpoint_failure_def begin_probe_def send_due_def split: option.split)

lemma remembers_supersede [intro]:
  assumes "younger_than x m (rg_superseded s) (rg_current s = None)" "m < SUPERSEDED_CAP" "now < xs_forget_at x"
  shows "younger_than x m (rg_superseded (supersede now s)) True"
proof (cases "rg_current s")
  case None
  then show ?thesis using assms(1) by (simp add: supersede_def)
next
  case (Some c)
  define y where "y = \<lparr>xs_call_id = sb_call_id c, xs_local_tag = sb_local_tag c,
    xs_forget_at = (case sb_expires_at c of Some e \<Rightarrow> e | None \<Rightarrow> after (sb_created_at c) (secs (sb_requested_expires c))) + SUPERSEDED_GRACE\<rparr>"
  let ?xs = "rg_superseded s @ [y]"
  have "rg_superseded (supersede now s) = filter (\<lambda>x. now < xs_forget_at x) (drop (length ?xs - SUPERSEDED_CAP) ?xs)"
    using Some unfolding supersede_def prune_def Let_def y_def by simp
  moreover have "younger_than x m (drop (length ?xs - SUPERSEDED_CAP) ?xs) True"
    using assms(1,2) Some by (intro younger_push) simp_all
  ultimately show ?thesis using younger_filter assms(3) by (metis (no_types, lifting))
qed

lemma superseded_newest:
  fixes c :: subscription
  defines "expiry \<equiv> case sb_expires_at c of Some e \<Rightarrow> e | None \<Rightarrow> after (sb_created_at c) (secs (sb_requested_expires c))"
  assumes "rg_current s = Some c" "now < expiry + SUPERSEDED_GRACE"
  shows "younger_than \<lparr>xs_call_id = sb_call_id c, xs_local_tag = sb_local_tag c, xs_forget_at = expiry + SUPERSEDED_GRACE\<rparr> 0
    (rg_superseded (supersede now s)) True"
proof -
  let ?x = "\<lparr>xs_call_id = sb_call_id c, xs_local_tag = sb_local_tag c, xs_forget_at = expiry + SUPERSEDED_GRACE\<rparr>"
  let ?k = "length (rg_superseded s @ [?x]) - SUPERSEDED_CAP"
  have "rg_superseded (supersede now s) = filter (\<lambda>x. now < xs_forget_at x) (drop ?k (rg_superseded s)) @ [?x]"
    using assms(2,3) by (simp add: supersede_def prune_def expiry_def SUPERSEDED_CAP_def)
  then show ?thesis by (simp add: younger_than_def)
qed

lemma remembers_prune [intro]:
  "younger_than x m (rg_superseded s) idle \<Longrightarrow> now < xs_forget_at x \<Longrightarrow> younger_than x m (rg_superseded (prune now s)) idle"
  by (simp add: prune_def younger_filter)

lemma remembersI: "younger_than x m (rg_superseded s) (rg_current s = None) \<Longrightarrow> remembers x m s"
  by (simp add: remembers_def)

lemma remembers_same:
  "remembers x m s \<Longrightarrow> rg_superseded s' = rg_superseded s \<Longrightarrow> rg_current s' = None \<longleftrightarrow> rg_current s = None \<Longrightarrow> remembers x m s'"
  by (simp add: remembers_def)

lemma remembers_ops:
  assumes "remembers x m s" "m < SUPERSEDED_CAP" "now < xs_forget_at x"
  shows "remembers x m (supersede now s)" "remembers x m (prune now s)"
  using assms by (auto simp: remembers_def)

lemma remembers_current_response:
  assumes "remembers x m s" "m < SUPERSEDED_CAP" "now < xs_forget_at x" "rg_current s = Some c"
  shows "remembers x m (on_current_response resp kind now wall c s)"
proof (cases "rs_status resp < 200")
  case True
  then show ?thesis using assms(1) by (simp add: on_current_response_def)
next
  case False
  have idle: "remembers x m (s\<lparr>rg_current := Some d\<rparr>)" for d using assms(1,4) by (simp add: remembers_def)
  have "remembers x m (s\<lparr>rg_current := Some d, rg_min_expires := e\<rparr>)" for d e using idle by (simp add: remembers_def)
  then have sup: "younger_than x m (rg_superseded (supersede now (s\<lparr>rg_current := Some d, rg_min_expires := e\<rparr>))) True"
    "younger_than x m (rg_superseded (supersede now (s\<lparr>rg_current := Some d\<rparr>))) True" for d e
    using remembers_ops(1) [OF _ assms(2,3)] idle by (simp_all add: remembers_def)
  have "younger_than x m (rg_superseded s) False" using assms(1,4) by (simp add: remembers_def)
  then show ?thesis using False sup by (simp add: on_current_response_def remembers_def Let_def)
qed

lemma pending_txn_current: "pending_txn call_id cseq s = Some (c, kind) \<Longrightarrow> rg_current s = Some c"
  by (auto simp: pending_txn_def split: option.splits txn.splits if_splits)

lemma remembers_response:
  assumes "remembers x m s" "m < SUPERSEDED_CAP" "now < xs_forget_at x"
  shows "remembers x m (snd (on_response resp now wall s))"
  using assms remembers_current_response [OF assms]
  by (auto simp: on_response_def Let_def dest: pending_txn_current split: option.split)

lemma notify_current_projections [simp]:
  "rg_superseded (notify_current req state c s) = rg_superseded s" "rg_current (notify_current req state c s) \<noteq> None"
  by (simp_all add: notify_current_def Let_def)

lemma on_notify_cases:
  obtains (other) "snd (on_notify req now s) = prune now s" "\<And>state. fst (on_notify req now s) \<noteq> NotifyCurrent state"
  | (current) c state where "rg_current s = Some c" "on_notify req now s = (NotifyCurrent state, notify_current req state c (prune now s))"
proof (cases "\<exists>ids c. notify_ids req = Some ids \<and> rg_current s = Some c \<and> sb_call_id c = fst ids \<and> sb_local_tag c = snd ids")
  case True
  then obtain c where "rg_current s = Some c" "notify_ids req = Some (sb_call_id c, sb_local_tag c)" by auto
  then show ?thesis using current [of c] by (simp add: on_notify_def Let_def)
next
  case False
  then have "snd (on_notify req now s) = prune now s" "fst (on_notify req now s) \<noteq> NotifyCurrent state" for state
    by (auto simp: on_notify_def Let_def split: option.split)
  then show ?thesis by (rule other)
qed

lemma remembers_notify:
  assumes "remembers x m s" "m < SUPERSEDED_CAP" "now < xs_forget_at x"
  shows "remembers x m (snd (on_notify req now s))"
  using remembers_ops(2) [OF assms] by (cases rule: on_notify_cases [of req now s]) (simp_all add: remembers_def)

lemma remembers_apply:
  assumes "remembers x m s" "m < SUPERSEDED_CAP" "now < xs_forget_at x"
  shows "remembers x m (apply_subscription_state st now wall s)"
proof (cases "rg_current s")
  case None
  then show ?thesis using assms(1) by (simp add: apply_subscription_state_def)
next
  case (Some c)
  have "younger_than x m (rg_superseded s) False" "younger_than x m (rg_superseded (supersede now s)) True"
    using assms(1) Some remembers_ops(1) [OF assms] by (simp_all add: remembers_def)
  then show ?thesis using Some
    by (cases "su_state st"; cases "su_expires st") (simp_all add: apply_subscription_state_def remembers_def Let_def)
qed

lemma remembers_poll:
  assumes "remembers x m s" "m < SUPERSEDED_CAP" "now < xs_forget_at x"
  shows "remembers x m (snd (poll now wall force s))"
proof -
  have current: "remembers x m (snd (poll_current now wall force c s))" if "remembers x m s" "rg_current s = Some c" for c s
  proof -
    have "younger_than x m (rg_superseded s) False" "younger_than x m (rg_superseded (supersede now s)) True"
      using that remembers_ops(1) [OF that(1) assms(2,3)] by (simp_all add: remembers_def)
    then show ?thesis using that(2) by (simp add: poll_current_def remembers_def apfst_def map_prod_def split_beta)
  qed
  have "remembers x m (prune now s)" using remembers_ops(2) [OF assms] .
  then show ?thesis
    using current [of "prune now s\<lparr>rg_current := Some (end_notified_txn now c)\<rparr>" for c]
    by (cases "rg_probing (prune now s)"; cases "rg_current s") (simp_all add: poll_def remembers_def Let_def)
qed

lemma remembers_sent:
  assumes "remembers x m s" "m < SUPERSEDED_CAP" "now < xs_forget_at x"
  shows "remembers x (m + (if kind = SubInitial then 1 else 0)) (on_sent sent kind now wall s)"
proof (cases kind)
  case SubInitial
  have "younger_than x m (rg_superseded (supersede now (s\<lparr>rg_last_sent_at := Some now\<rparr>))) True"
    using assms by (auto simp: remembers_def)
  then show ?thesis using younger_mono [of x m _ True False "m + 1"] SubInitial by (simp add: on_sent_def remembers_def)
next
  case SubRefresh
  then show ?thesis using assms(1) by (simp add: on_sent_def remembers_def)
qed

text \<open>The new subscriptions of a run, and events that are over before a moment.\<close>

definition started :: "sub_trace list \<Rightarrow> nat" where
  "started tr = length (filter (\<lambda>t. case t of TraceSent _ SubInitial \<Rightarrow> True | _ \<Rightarrow> False) tr)"

lemma started_simps [simp]:
  "started [] = 0" "started (TraceRegistered # tr) = started tr" "started (xs @ ys) = started xs + started ys"
  "started (TraceSent t kind # tr) = (if kind = SubInitial then 1 else 0) + started tr"
  by (auto simp: started_def split: sub_kind.split)

fun over_before :: "instant \<Rightarrow> timed_event \<Rightarrow> bool" where
  "over_before t (now, _, LineRegistered env) \<longleftrightarrow> now < t \<and> (\<forall>k. sv_clock env k < t)"
| "over_before t (now, _, LinePolled _ env) \<longleftrightarrow> now < t \<and> (\<forall>k. sv_clock env k < t)"
| "over_before t (now, _, _) \<longleftrightarrow> now < t"

lemma remembers_perform:
  assumes "perform_action env force k a s = (tr, n, s')" "remembers x m s" "m < SUPERSEDED_CAP" "sv_clock env k < xs_forget_at x"
  shows "remembers x (m + started tr) s'"
proof -
  note sent = remembers_sent [OF assms(2-4), of _ _ "sv_wall env k"]
  have failed: "remembers x m t'" if "on_send_failed kind (sv_clock env k) (sv_wall env k) force s = (r, t')" for kind r t'
  proof -
    have "remembers x m (snd (on_send_failed kind (sv_clock env k) (sv_wall env k) force s))"
      using remembers_ops(1) [OF assms(2-4)] assms(2) by (simp add: on_send_failed_def remembers_def)
    then show ?thesis using that by simp
  qed
  have probe: "remembers x m (on_probe_sent cseq now s)" for cseq now using assms(2) by (simp add: on_probe_sent_def remembers_def)
  have probe_failed: "remembers x m t'" if "on_probe_send_failed now wall s = (r, t')" for now wall r t'
    using that assms(2) by (auto simp: on_probe_send_failed_def remembers_def split: option.splits)
  have send: "remembers x (m + started tr) s'" if "send_subscribe env force k kind e s = (tr, n, s')" for kind e
    using that assms(2) sent [of kind] by (auto simp: send_subscribe_def apfst_def map_prod_def split: if_splits option.splits prod.splits dest: failed)
  show ?thesis using assms(1,2) send probe by (auto simp: perform_action_def dest: probe_failed split: sub_action.splits option.splits)
qed

lemma remembers_apply_action:
  assumes "apply_sub_action env force k a s = (tr, r, s')" "remembers x m s" "m + started tr < SUPERSEDED_CAP"
    and "\<forall>k. sv_clock env k < xs_forget_at x"
  shows "remembers x (m + started tr) s'"
  using assms
proof (induction env force k a s arbitrary: m tr r s' rule: apply_sub_action.induct)
  case (1 env force k a s)
  obtain tr1 n s1 where one: "perform_action env force k a s = (tr1, n, s1)" by (metis prod_cases3)
  show ?case
  proof (cases n)
    case None
    then show ?thesis using "1.prems" one remembers_perform [OF one "1.prems"(2)] by (auto simp: apply_sub_action.simps [of env force k a s])
  next
    case (Some a')
    obtain tr2 r2 s2 where two: "apply_sub_action env force (k + 1) a' s1 = (tr2, r2, s2)" by (metis prod_cases3)
    have res: "tr = tr1 @ tr2" "s' = s2" using "1.prems"(1) one two Some by (auto simp: apply_sub_action.simps [of env force k a s])
    then have "remembers x (m + started tr1) s1" using remembers_perform [OF one "1.prems"(2)] "1.prems"(3,4) by simp
    then have "remembers x (m + started tr1 + started tr2) s2"
      using "1.IH" [OF one [symmetric] refl Some two] "1.prems"(3,4) res by simp
    then show ?thesis using res by (simp add: add.assoc)
  qed
qed

lemma remembers_step:
  assumes "sub_step now wall ev s = (tr, s')" "remembers x m s" "m + started tr < SUPERSEDED_CAP"
    and "over_before (xs_forget_at x) (now, wall, ev)"
  shows "remembers x (m + started tr) s'"
proof -
  have m: "m < SUPERSEDED_CAP" using assms(3) by simp
  have now: "now < xs_forget_at x" using assms(4) by (cases ev) simp_all
  note ops = remembers_ops(1) [OF assms(2) m now] remembers_poll [OF assms(2) m now] remembers_response [OF assms(2) m now]
    remembers_notify [OF assms(2) m now]
  show ?thesis
  proof (cases ev)
    case (LineRegistered env)
    obtain a s1 where a: "on_new_registration now s = (a, s1)" by force
    then have "remembers x m s1" using ops(1) by (auto simp: on_new_registration_def remembers_def)
    moreover obtain tr1 r s2 where "apply_sub_action env False 0 a s1 = (tr1, r, s2)" by (metis prod_cases3)
    ultimately show ?thesis using remembers_apply_action [of env False 0 a s1 tr1 r s2 x m] assms a LineRegistered
      by (auto simp: sub_step_def)
  next
    case (LinePolled force env)
    obtain a s1 where a: "poll now wall force s = (a, s1)" by force
    have s1: "remembers x m s1" using ops(2) [of wall force] a by simp
    show ?thesis
    proof (cases a)
      case None
      then show ?thesis using assms(1) s1 a LinePolled by (auto simp: sub_step_def)
    next
      case (Some act)
      moreover obtain tr1 r s2 where "apply_sub_action env force 0 act s1 = (tr1, r, s2)" by (metis prod_cases3)
      ultimately show ?thesis using remembers_apply_action [of env force 0 act s1 tr1 r s2 x m] assms s1 a LinePolled
        by (auto simp: sub_step_def)
    qed
  next
    case (NotifyReceived req)
    have "remembers x m (snd (on_notify req now s))" using ops(4) .
    then show ?thesis using assms(1) NotifyReceived remembers_apply [OF _ m now]
      by (auto simp: sub_step_def split: prod.splits notify_match.splits)
  next
    case (ProbeAnswered cseq)
    then show ?thesis using assms(1,2) by (auto simp: sub_step_def on_probe_response_def remembers_def split: option.splits)
  qed (use assms(1) ops(3) in \<open>auto simp: sub_step_def\<close>)
qed

lemma remembers_run:
  assumes "sub_run evs s = (tr, s')" "remembers x m s" "m + started tr < SUPERSEDED_CAP" "list_all (over_before (xs_forget_at x)) evs"
  shows "remembers x (m + started tr) s'"
  using assms
proof (induction evs arbitrary: s tr m)
  case (Cons e evs)
  obtain now wall ev where e: "e = (now, wall, ev)" by (cases e) auto
  obtain tr1 s1 where step: "sub_step now wall ev s = (tr1, s1)" by force
  obtain tr2 where rest: "sub_run evs s1 = (tr2, s')" "tr = tr1 @ tr2" using Cons.prems(1) e step by (auto simp: apfst_def map_prod_def split: prod.splits)
  have "remembers x (m + started tr1) s1" using remembers_step [OF step Cons.prems(2)] Cons.prems(3,4) rest(2) e by simp
  then show ?case using Cons.IH [OF rest(1), of "m + started tr1"] Cons.prems(3,4) rest(2) by (simp add: add.assoc)
qed simp

section \<open>The subscription is never forgotten\<close>

text \<open>
  What holds between events, with \<open>T\<close> the latest time read so far. A current subscription has an expiry,
  or its SUBSCRIBE is unanswered, or a NOTIFY has arrived; without a current one there is a retry, a probe or
  the network's word to stop. No time lies further ahead than the longest delay taken from the network.
\<close>

abbreviation horizon :: "instant \<Rightarrow> instant" where
  "horizon T \<equiv> T + secs MAX_NETWORK_DELAY_SECS"

definition times_ok :: "instant \<Rightarrow> reg_subscription \<Rightarrow> bool" where
  "times_ok T s \<longleftrightarrow>
     (\<forall>t. rg_retry_at s = Some t \<longrightarrow> t \<le> horizon T) \<and> (\<forall>t. rg_last_sent_at s = Some t \<longrightarrow> t \<le> T) \<and>
     (\<forall>p q t. rg_probing s = Some p \<longrightarrow> pb_sent p = Some (q, t) \<longrightarrow> t \<le> T)"

definition current_ok :: "instant \<Rightarrow> subscription \<Rightarrow> bool" where
  "current_ok T c \<longleftrightarrow>
     (sb_expires_at c \<noteq> None \<or> sb_notified_since_send c \<or> sb_txn c \<noteq> TxnIdle) \<and>
     (\<forall>q t. sb_txn c = TxnPending q t SubRefresh \<longrightarrow> sb_expires_at c \<noteq> None) \<and>
     (\<forall>e. sb_expires_at c = Some e \<longrightarrow> e \<le> horizon T) \<and> (\<forall>q t k. sb_txn c = TxnPending q t k \<longrightarrow> t \<le> T)"

definition active :: "instant \<Rightarrow> reg_subscription \<Rightarrow> bool" where
  "active T s \<longleftrightarrow> times_ok T s \<and> rg_probing s = None \<and> rg_stopped s = None"

definition sub_inv :: "instant \<Rightarrow> reg_subscription \<Rightarrow> bool" where
  "sub_inv T s \<longleftrightarrow>
     times_ok T s \<and>
     (\<forall>c. rg_current s = Some c \<longrightarrow>
        rg_probing s = None \<and> rg_stopped s = None \<and> current_ok T c \<and> (rg_retry_at s \<noteq> None \<longrightarrow> sb_expires_at c \<noteq> None)) \<and>
     (rg_current s = None \<longrightarrow> rg_stopped s \<noteq> None \<or> rg_probing s \<noteq> None \<or> rg_retry_at s \<noteq> None) \<and>
     (\<forall>p. rg_probing s = Some p \<longrightarrow> pb_sent p \<noteq> None)"

text \<open>What is owed while an action is being performed.\<close>

definition owes :: "instant \<Rightarrow> sub_action \<Rightarrow> reg_subscription \<Rightarrow> bool" where
  "owes T a s \<longleftrightarrow>
     (case a of
        SendInitial _ \<Rightarrow> active T s \<and> rg_current s = None \<and> rg_retry_at s = None
      | SendRefresh _ \<Rightarrow>
          active T s \<and> (\<exists>c. rg_current s = Some c \<and> current_ok T c \<and> sb_expires_at c \<noteq> None \<and> sb_remote_tag c \<noteq> None)
      | SendProbe _ _ \<Rightarrow> times_ok T s \<and> rg_current s = None \<and> rg_stopped s = None \<and> (\<exists>p. rg_probing s = Some p \<and> pb_sent p = None)
      | EndpointFailure _ _ \<Rightarrow> sub_inv T s)"

lemma other_field_simps [simp]:
  "rg_probing (prune now s) = rg_probing s" "rg_stopped (prune now s) = rg_stopped s" "rg_retry_at (prune now s) = rg_retry_at s"
  "rg_probing (supersede now s) = rg_probing s" "rg_stopped (supersede now s) = rg_stopped s" "rg_retry_at (supersede now s) = rg_retry_at s"
  "rg_probing (record_failure wall r s) = rg_probing s" "rg_stopped (record_failure wall r s) = rg_stopped s"
  "rg_retry_at (record_failure wall r s) = rg_retry_at s"
  "rg_probing (mark_unconfirmed wall s) = rg_probing s" "rg_stopped (mark_unconfirmed wall s) = rg_stopped s"
  "rg_retry_at (mark_unconfirmed wall s) = rg_retry_at s"
  "rg_probing (schedule_retry now f s) = rg_probing s" "rg_stopped (schedule_retry now f s) = rg_stopped s"
  "rg_probing (fail now wall r f s) = rg_probing s" "rg_stopped (fail now wall r f s) = rg_stopped s"
  "rg_probing (schedule_after_endpoint_failure now wall s) = rg_probing s"
  "rg_stopped (schedule_after_endpoint_failure now wall s) = rg_stopped s"
  by (simp_all add: prune_def supersede_def record_failure_def mark_unconfirmed_def schedule_retry_def fail_def Let_def
      schedule_after_endpoint_failure_def split: option.split)

lemma retry_scheduled:
  assumes "now \<le> T"
  shows "\<exists>t \<le> horizon T. rg_retry_at (schedule_retry now f s) = Some t"
    "\<exists>t \<le> horizon T. rg_retry_at (fail now wall r f s) = Some t"
    "\<exists>t \<le> horizon T. rg_retry_at (schedule_after_endpoint_failure now wall s) = Some t"
  using assms by (auto simp: schedule_retry_def fail_def schedule_after_endpoint_failure_def after_def Let_def min_def)

lemma times_ok_cong:
  "times_ok T s \<Longrightarrow> rg_last_sent_at s' = rg_last_sent_at s \<Longrightarrow> rg_probing s' = rg_probing s \<or> rg_probing s' = None \<Longrightarrow>
   (\<forall>t. rg_retry_at s' = Some t \<longrightarrow> t \<le> horizon T) \<Longrightarrow> times_ok T s'"
  unfolding times_ok_def by auto

text \<open>A retry has been scheduled, and the subscription, if there still is one, has an expiry.\<close>

lemma sub_inv_retry:
  assumes "times_ok T s" "rg_last_sent_at s' = rg_last_sent_at s" "rg_probing s' = None"
    and retry: "\<exists>t \<le> horizon T. rg_retry_at s' = Some t"
    and "\<And>c. rg_current s' = Some c \<Longrightarrow> rg_stopped s' = None \<and> current_ok T c \<and> sb_expires_at c \<noteq> None"
  shows "sub_inv T s'"
proof -
  have "times_ok T s'" using retry by (intro times_ok_cong [OF assms(1,2)]) (auto simp: assms(3))
  then show ?thesis using assms(3-5) by (auto simp: sub_inv_def)
qed

lemma after_horizon: "now \<le> T \<Longrightarrow> after now d \<le> horizon T"
  by (simp add: after_def min_def)

lemma learn_dialog_fields [simp]:
  "sb_expires_at (learn_dialog tag rs target c) = sb_expires_at c" "sb_txn (learn_dialog tag rs target c) = sb_txn c"
  "sb_notified_since_send (learn_dialog tag rs target c) = sb_notified_since_send c"
  "sb_confirmed (learn_dialog tag rs target c) = sb_confirmed c"
  by (simp_all add: learn_dialog_def split: option.split)

lemma sub_inv_current:
  "sub_inv T s \<Longrightarrow> rg_current s = Some c \<Longrightarrow>
   active T s \<and> current_ok T c \<and> (rg_retry_at s \<noteq> None \<longrightarrow> sb_expires_at c \<noteq> None)"
  by (simp add: sub_inv_def active_def)

lemma current_response_inv:
  assumes "sub_inv T s" "rg_current s = Some c" "sb_txn c = TxnPending q t kind" "now \<le> T"
  shows "sub_inv T (on_current_response resp kind now wall c s)"
proof -
  have a: "active T s" and c: "current_ok T c" using sub_inv_current [OF assms(1,2)] by simp_all
  let ?c = "c\<lparr>sb_txn := TxnIdle\<rparr>"
  have refresh: "current_ok T ?c \<and> sb_expires_at c \<noteq> None" if "kind = SubRefresh"
    using c assms(3) that by (auto simp: current_ok_def)
  have ok: "times_ok T s" "rg_probing s = None" "rg_stopped s = None" using a by (simp_all add: active_def)
  note retry = sub_inv_retry [OF ok(1)]
  have failed: "sub_inv T (fail now wall r f (supersede now (s\<lparr>rg_current := Some ?c\<rparr>)))" for r f
    by (rule retry) (use ok retry_scheduled [OF assms(4)] in simp_all)
  have failed_refresh: "sub_inv T (fail now wall r f (s\<lparr>rg_current := Some ?c\<rparr>))" if "kind = SubRefresh" for r f
    by (rule retry) (use ok refresh [OF that] retry_scheduled [OF assms(4)] in simp_all)
  have accepted: "sub_inv T (s\<lparr>rg_current := Some (learn_dialog tag rs target (?c\<lparr>sb_granted := g, sb_expires_at := Some (after now d)\<rparr>)),
      rg_retry_at := None\<rparr>)" for tag rs target g d
    using ok after_horizon [OF assms(4)] by (simp add: sub_inv_def current_ok_def times_ok_def)
  have again: "sub_inv T ((supersede now (s\<lparr>rg_current := Some ?c, rg_min_expires := m\<rparr>))\<lparr>rg_retry_at := Some now\<rparr>)"
    "sub_inv T ((mark_unconfirmed wall (record_failure wall r (supersede now (s\<lparr>rg_current := Some ?c\<rparr>))))\<lparr>rg_retry_at := Some now\<rparr>)" for m r
    by (rule retry; use ok assms(4) in simp)+
  have again_refresh: "sub_inv T (s\<lparr>rg_current := Some ?c, rg_min_expires := m, rg_retry_at := Some now\<rparr>)" if "kind = SubRefresh" for m
    by (rule retry) (use ok assms(4) refresh [OF that] in simp_all)
  have stopped: "sub_inv T ((record_failure wall r ((supersede now (s\<lparr>rg_current := Some ?c\<rparr>))\<lparr>rg_retry_at := None\<rparr>))\<lparr>rg_stopped := Some x\<rparr>)" for r x
    using ok by (simp add: sub_inv_def times_ok_def)
  show ?thesis
    using assms(1) failed failed_refresh accepted again again_refresh stopped
    by (cases kind) (simp_all add: on_current_response_def Let_def)
qed

lemma response_inv:
  assumes "sub_inv T s" "now \<le> T" shows "sub_inv T (snd (on_response resp now wall s))"
proof -
  have "sub_inv T (on_current_response resp kind now wall c s)" if "pending_txn id q s = Some (c, kind)" for id q c kind
    using that current_response_inv [OF assms(1) _ _ assms(2)]
    by (auto simp: pending_txn_def split: option.splits txn.splits if_splits)
  then show ?thesis using assms(1) by (auto simp: on_response_def Let_def split: option.split)
qed

lemma sub_inv_prune: "sub_inv T s \<Longrightarrow> sub_inv T (prune now s)"
  by (simp add: sub_inv_def times_ok_def)

lemma notify_current_inv:
  assumes "sub_inv T s" "rg_current s = Some c" shows "sub_inv T (notify_current req st c s)"
proof -
  have "current_ok T (learn_dialog tag rs target c\<lparr>sb_notified_since_send := True, sb_timer_n := None, sb_confirmed := b\<rparr>)"
    "current_ok T (learn_dialog tag rs target c\<lparr>sb_notified_since_send := True, sb_timer_n := None\<rparr>)" for tag rs target b
    using sub_inv_current [OF assms] by (auto simp: current_ok_def)
  then show ?thesis using assms by (auto simp: notify_current_def Let_def sub_inv_def times_ok_def)
qed

lemma apply_state_inv:
  assumes "sub_inv T s" "now \<le> T" shows "sub_inv T (apply_subscription_state st now wall s)"
proof (cases "rg_current s")
  case None
  then show ?thesis using assms(1) by (simp add: apply_subscription_state_def)
next
  case (Some c)
  note c = sub_inv_current [OF assms(1) Some]
  then have ok: "times_ok T s" "rg_probing s = None" "rg_stopped s = None" by (simp_all add: active_def)
  note retry = sub_inv_retry [OF ok(1)]
  have expiry: "sub_inv T (s\<lparr>rg_current := Some (c\<lparr>sb_granted := g, sb_expires_at := Some (after now d)\<rparr>)\<rparr>)" for g d
    using ok c after_horizon [OF assms(2)] by (auto simp: sub_inv_def current_ok_def times_ok_def)
  have ended: "sub_inv T ((mark_unconfirmed wall (record_failure wall r (supersede now s)))\<lparr>rg_retry_at := Some now\<rparr>)"
    "sub_inv T (schedule_retry now f (mark_unconfirmed wall (record_failure wall r (supersede now s))))" for r f
    by (rule retry; use ok assms(2) retry_scheduled [OF assms(2)] in simp)+
  have stopped: "sub_inv T ((mark_unconfirmed wall (record_failure wall r (supersede now s)))\<lparr>rg_retry_at := None, rg_stopped := Some x\<rparr>)" for r x
    using ok by (simp add: sub_inv_def times_ok_def)
  show ?thesis using Some assms(1) expiry ended stopped
    by (cases "su_state st"; cases "su_expires st") (simp_all add: apply_subscription_state_def Let_def)
qed

text \<open>The outcome of a poll: an action that is owed, or the invariant again.\<close>

definition outcome_ok :: "instant \<Rightarrow> sub_action option \<times> reg_subscription \<Rightarrow> bool" where
  "outcome_ok T r \<longleftrightarrow> (case fst r of Some a \<Rightarrow> owes T a (snd r) | None \<Rightarrow> sub_inv T (snd r))"

lemma begin_probe_ok:
  assumes "active T s" "rg_current s = None" "now \<le> T"
  shows "owes T (fst (begin_probe cause cid now wall force s)) (snd (begin_probe cause cid now wall force s))"
proof -
  have ok: "times_ok T s" "rg_probing s = None" "rg_stopped s = None" using assms(1) by (simp_all add: active_def)
  have "sub_inv T (fail now wall r None s)" for r
    by (rule sub_inv_retry [OF ok(1)]) (use ok assms(2) retry_scheduled [OF assms(3)] in simp_all)
  then show ?thesis using ok assms(2) by (auto simp: begin_probe_def owes_def times_ok_def)
qed

lemma send_due_ok:
  assumes "sub_inv T s" "rg_probing s = None" "rg_stopped s = None" shows "outcome_ok T (send_due now s)"
proof -
  have a: "active T (s\<lparr>rg_retry_at := None\<rparr>)" using assms by (auto simp: active_def sub_inv_def times_ok_def)
  have "current_ok T c \<and> (rg_retry_at s \<noteq> None \<longrightarrow> sb_expires_at c \<noteq> None)" if "rg_current s = Some c" for c
    using sub_inv_current [OF assms(1) that] by simp
  then show ?thesis using assms(1) a by (auto simp: outcome_ok_def send_due_def owes_def split: option.splits)
qed

lemma poll_current_ok:
  assumes "sub_inv T s" "rg_current s = Some c" "now \<le> T"
  shows "outcome_ok T (poll_current now wall force c s)"
proof -
  note c = sub_inv_current [OF assms(1,2)]
  then have ok: "times_ok T s" "rg_probing s = None" "rg_stopped s = None" by (simp_all add: active_def)
  note retry = sub_inv_retry [OF ok(1)]
  have idle: "active T (supersede now s)" using ok by (simp add: active_def times_ok_def)
  have late: "(case rg_retry_at s of Some t \<Rightarrow> max t now | None \<Rightarrow> now) \<le> horizon T"
    using ok(1) assms(3) by (auto simp: times_ok_def split: option.split)
  have expired: "outcome_ok T (send_due now ((mark_unconfirmed wall (record_failure wall r (supersede now s)))
      \<lparr>rg_retry_at := Some (case rg_retry_at s of Some t \<Rightarrow> max t now | None \<Rightarrow> now)\<rparr>))" for r
    by (rule send_due_ok [OF retry]) (use ok late in simp_all)
  have lost: "outcome_ok T (send_due now ((supersede now s)\<lparr>rg_retry_at := Some now\<rparr>))"
    by (rule send_due_ok [OF retry]) (use ok assms(3) in simp_all)
  have unconfirmed: "sub_inv T (fail now wall r None (supersede now s))" for r
    by (rule retry) (use ok retry_scheduled [OF assms(3)] in simp_all)
  have refresh: "owes T (SendRefresh m) s" if "refresh_due c now" "sb_remote_tag c \<noteq> None" for m
    using c assms(2) that by (auto simp: owes_def refresh_due_def split: option.splits)
  have probe: "outcome_ok T (apfst Some (begin_probe cause cid now wall force (supersede now s)))" for cause cid
    using begin_probe_ok [OF idle _ assms(3)] by (simp add: outcome_ok_def apfst_def map_prod_def split_beta)
  show ?thesis
    using send_due_ok [OF assms(1) ok(2,3)] expired lost unconfirmed refresh probe
    by (simp add: poll_current_def) (simp add: outcome_ok_def)
qed

lemma poll_ok:
  assumes "sub_inv T s" "now \<le> T" shows "outcome_ok T (poll now wall force s)"
proof -
  have inv: "sub_inv T (prune now s)" using sub_inv_prune [OF assms(1)] .
  show ?thesis
  proof (cases "rg_probing s")
    case (Some p)
    have none: "rg_current s = None" using assms(1) Some by (cases "rg_current s") (auto simp: sub_inv_def)
    have "times_ok T (prune now s)" using inv by (simp add: sub_inv_def)
    then have "sub_inv T (schedule_after_endpoint_failure now wall (prune now s\<lparr>rg_probing := None\<rparr>))"
      by (rule sub_inv_retry) (use none retry_scheduled [OF assms(2)] in simp_all)
    then show ?thesis using Some inv by (simp add: poll_def outcome_ok_def Let_def owes_def)
  next
    case None
    have "outcome_ok T (poll_current now wall force (end_notified_txn now c) (prune now s\<lparr>rg_current := Some (end_notified_txn now c)\<rparr>))"
      if "rg_current s = Some c" for c
    proof (rule poll_current_ok)
      have "current_ok T (end_notified_txn now c)" "sb_expires_at (end_notified_txn now c) = sb_expires_at c"
        using sub_inv_current [OF assms(1) that] by (auto simp: current_ok_def end_notified_txn_def split: txn.split)
      then show "sub_inv T (prune now s\<lparr>rg_current := Some (end_notified_txn now c)\<rparr>)"
        using inv that by (simp add: sub_inv_def times_ok_def)
    qed (use assms(2) in simp_all)
    moreover have "outcome_ok T (None, prune now s)" using inv by (simp add: outcome_ok_def)
    ultimately show ?thesis using None send_due_ok [OF inv]
      by (cases "rg_current s"; cases "rg_stopped s") (simp_all add: poll_def Let_def)
  qed
qed

lemma perform_ok:
  assumes "perform_action env force k a s = (tr, n, s')" "owes T a s" "sv_clock env k \<le> T"
  shows "case n of Some a' \<Rightarrow> owes T a' s' | None \<Rightarrow> sub_inv T s'"
proof (cases a)
  case (SendInitial e)
  then have s: "active T s" "rg_current s = None" "rg_retry_at s = None" using assms(2) by (simp_all add: owes_def)
  have "sub_inv T (on_sent sent SubInitial (sv_clock env k) wall s)" for sent wall
    using s assms(3) by (simp add: on_sent_def sub_inv_def times_ok_def current_ok_def active_def supersede_def)
  then show ?thesis using assms(1) SendInitial begin_probe_ok [OF s(1,2) assms(3)]
    by (auto simp: perform_action_def send_subscribe_def on_send_failed_def apfst_def map_prod_def split_beta split: option.splits)
next
  case (SendRefresh e)
  then obtain c where s: "active T s" "rg_current s = Some c" "current_ok T c" "sb_expires_at c \<noteq> None" "sb_remote_tag c \<noteq> None"
    using assms(2) by (auto simp: owes_def)
  then obtain d where d: "refresh_dialog_of s = Some d" by (auto simp: refresh_dialog_of_def)
  have "sub_inv T (on_sent sent SubRefresh (sv_clock env k) wall s)" for sent wall
    using s assms(3) by (auto simp: on_sent_def sub_inv_def times_ok_def current_ok_def active_def)
  moreover have "active T (supersede (sv_clock env k) s)" using s(1) by (simp add: active_def times_ok_def)
  ultimately show ?thesis using assms(1) SendRefresh d begin_probe_ok [OF _ _ assms(3)]
    by (auto simp: perform_action_def send_subscribe_def on_send_failed_def apfst_def map_prod_def split_beta split: option.splits)
next
  case (SendProbe cause cid)
  then obtain p where s: "times_ok T s" "rg_current s = None" "rg_stopped s = None" "rg_probing s = Some p" using assms(2) by (auto simp: owes_def)
  have "sub_inv T (on_probe_sent q (sv_clock env k) s)" for q
    using s assms(3) by (auto simp: on_probe_sent_def sub_inv_def times_ok_def)
  moreover have "sub_inv T (schedule_after_endpoint_failure (sv_clock env k) wall (s\<lparr>rg_probing := None\<rparr>))" for wall
    by (rule sub_inv_retry [OF s(1)]) (use s retry_scheduled [OF assms(3)] in simp_all)
  ultimately show ?thesis using assms(1) SendProbe s(4)
    by (auto simp: perform_action_def on_probe_send_failed_def owes_def split: option.splits)
next
  case (EndpointFailure cause cid)
  then show ?thesis using assms(1,2) by (auto simp: perform_action_def owes_def)
qed

lemma perform_asked_ok:
  assumes "apply_sub_action env force k a s = (tr, r, s')" "owes T a s" "\<forall>k. sv_clock env k \<le> T"
  shows "sub_inv T s'"
  using assms
proof (induction env force k a s arbitrary: tr r s' rule: apply_sub_action.induct)
  case (1 env force k a s)
  obtain tr1 n s1 where one: "perform_action env force k a s = (tr1, n, s1)" by (metis prod_cases3)
  note ok = perform_ok [OF one "1.prems"(2)]
  show ?case
  proof (cases n)
    case None
    then show ?thesis using "1.prems" one ok by (auto simp: apply_sub_action.simps [of env force k a s])
  next
    case (Some a')
    obtain tr2 r2 s2 where two: "apply_sub_action env force (k + 1) a' s1 = (tr2, r2, s2)" by (metis prod_cases3)
    then show ?thesis using "1.IH" [OF one [symmetric] refl Some two] "1.prems" one ok Some
      by (auto simp: apply_sub_action.simps [of env force k a s])
  qed
qed

text \<open>Events whose times have passed by \<open>T\<close>.\<close>

lemma registered_ok:
  assumes "times_ok T s" "over_before (Suc T) (now, wall, LineRegistered env)"
  shows "sub_inv T (snd (sub_step now wall (LineRegistered env) s))"
proof -
  have "owes T (fst (on_new_registration now s)) (snd (on_new_registration now s))"
    by (simp add: on_new_registration_def owes_def active_def times_ok_def)
  moreover obtain tr r s' where "apply_sub_action env False 0 (fst (on_new_registration now s)) (snd (on_new_registration now s)) = (tr, r, s')"
    by (metis prod_cases3)
  ultimately show ?thesis using perform_asked_ok [of env False 0] assms(2)
    by (auto simp: sub_step_def split_beta less_Suc_eq_le)
qed

lemma sub_step_inv:
  assumes "sub_inv T s" "over_before (Suc T) (now, wall, ev)"
  shows "sub_inv T (snd (sub_step now wall ev s))"
proof -
  have now: "now \<le> T" using assms(2) by (cases ev) simp_all
  show ?thesis
  proof (cases ev)
    case (LineRegistered env)
    then show ?thesis using registered_ok [of T s now wall env] assms by (simp add: sub_inv_def)
  next
    case (LinePolled force env)
    obtain a s1 where p: "poll now wall force s = (a, s1)" by force
    note ok = poll_ok [OF assms(1) now, of wall force, unfolded p]
    show ?thesis
    proof (cases a)
      case None
      then show ?thesis using ok p LinePolled by (simp add: sub_step_def outcome_ok_def)
    next
      case (Some act)
      obtain tr r s2 where "apply_sub_action env force 0 act s1 = (tr, r, s2)" by (metis prod_cases3)
      then show ?thesis using ok p Some LinePolled perform_asked_ok [of env force 0 act s1 tr r s2 T] assms(2)
        by (simp add: sub_step_def outcome_ok_def less_Suc_eq_le)
    qed
  next
    case (NotifyReceived req)
    show ?thesis
    proof (cases rule: on_notify_cases [of req now s])
      case other
      then show ?thesis using NotifyReceived sub_inv_prune [OF assms(1)]
        by (cases "on_notify req now s"; cases "fst (on_notify req now s)") (auto simp: sub_step_def)
    next
      case (current c state)
      have "sub_inv T (notify_current req state c (prune now s))"
        using notify_current_inv [OF sub_inv_prune [OF assms(1)]] current(1) by simp
      then show ?thesis using NotifyReceived current(2) apply_state_inv [OF _ now] by (simp add: sub_step_def)
    qed
  next
    case (ProbeAnswered q)
    have "sub_inv T (fail now wall r f (s\<lparr>rg_probing := None\<rparr>))" if "rg_probing s = Some p" for r f p
    proof (rule sub_inv_retry)
      show "times_ok T s" using assms(1) by (simp add: sub_inv_def)
      show "rg_stopped (fail now wall r f (s\<lparr>rg_probing := None\<rparr>)) = None \<and> current_ok T c \<and> sb_expires_at c \<noteq> None"
        if "rg_current (fail now wall r f (s\<lparr>rg_probing := None\<rparr>)) = Some c" for c
        using that \<open>rg_probing s = Some p\<close> assms(1) by (simp add: sub_inv_def)
    qed (use retry_scheduled [OF now] in simp_all)
    then show ?thesis using ProbeAnswered assms(1) by (auto simp: sub_step_def on_probe_response_def split: option.split)
  qed (use response_inv [OF assms(1) now] in \<open>simp add: sub_step_def\<close>)
qed

lemma sub_run_inv:
  "sub_inv T s \<Longrightarrow> list_all (over_before (Suc T)) evs \<Longrightarrow> sub_inv T (snd (sub_run evs s))"
proof (induction evs arbitrary: s)
  case (Cons e evs)
  obtain now wall ev where e: "e = (now, wall, ev)" by (cases e) auto
  show ?case using Cons.IH sub_step_inv [of T s now wall ev] Cons.prems by (simp add: e apfst_def map_prod_def split_beta)
qed simp

definition is_poll :: "timed_event \<Rightarrow> bool" where
  "is_poll e \<longleftrightarrow> (case e of (_, _, LinePolled _ _) \<Rightarrow> True | _ \<Rightarrow> False)"

text \<open>The one state without a deadline: a NOTIFY has arrived and no expiry is known.\<close>

definition expiry_unknown :: "subscription \<Rightarrow> bool" where
  "expiry_unknown c \<longleftrightarrow> sb_notified_since_send c \<and> sb_expires_at c = None"

lemma send_due_acts:
  assumes "rg_current s = None" "rg_retry_at s = Some t" "t \<le> now" "spaced now s" shows "fst (send_due now s) \<noteq> None"
  using assms by (simp add: send_due_def)

lemma sub_inv_acts:
  assumes "sub_inv T s" "rg_stopped s = None" "\<And>c. rg_current s = Some c \<Longrightarrow> \<not> expiry_unknown c" "horizon T \<le> now"
  shows "fst (poll now wall force s) \<noteq> None"
proof (cases "rg_probing s")
  case (Some p)
  then obtain q at where at: "pb_sent p = Some (q, at)" "at \<le> T" using assms(1) by (fastforce simp: sub_inv_def times_ok_def)
  then have "at + PING_RESPONSE_TIMEOUT \<le> now" using assms(4) by (simp add: PING_RESPONSE_TIMEOUT_def MAX_NETWORK_DELAY_SECS_def)
  then show ?thesis using Some at by (simp add: poll_def Let_def)
next
  case None
  have times: "times_ok T s" using assms(1) by (simp add: sub_inv_def)
  then have spaced: "spaced now s'" if "rg_last_sent_at s' = rg_last_sent_at s" for s'
    using that assms(4) by (fastforce simp: spaced_def times_ok_def SUB_INITIAL_BACKOFF_def MAX_NETWORK_DELAY_SECS_def split: option.splits)
  have retry: "t \<le> now" if "rg_retry_at s = Some t" for t using times that assms(4) by (auto simp: times_ok_def)
  show ?thesis
  proof (cases "rg_current s")
    case None
    then obtain t where "rg_retry_at s = Some t" using assms(1,2) \<open>rg_probing s = None\<close> by (auto simp: sub_inv_def)
    then show ?thesis using send_due_acts [of "prune now s" t now] retry spaced None \<open>rg_probing s = None\<close> assms(2)
      by (simp add: poll_def Let_def)
  next
    case (Some c)
    let ?c = "end_notified_txn now c" and ?s = "prune now s\<lparr>rg_current := Some (end_notified_txn now c)\<rparr>"
    have c: "current_ok T c" using sub_inv_current [OF assms(1) Some] by simp
    have poll: "poll now wall force s = poll_current now wall force ?c ?s"
      using Some \<open>rg_probing s = None\<close> assms(2) by (simp add: poll_def Let_def)
    have "fst (poll_current now wall force ?c ?s) \<noteq> None"
    proof (cases "timer_f_fired now ?c")
      case True
      then show ?thesis by (simp add: poll_current_def)
    next
      case False
      have "sb_expires_at c \<noteq> None"
        using False c assms(3) [OF Some] assms(4)
        by (auto simp: timer_f_fired_def end_notified_txn_def current_ok_def expiry_unknown_def TIMER_F_def MAX_NETWORK_DELAY_SECS_def
            split: txn.splits)
      then obtain e where e: "sb_expires_at c = Some e" "e \<le> now" using c assms(4) by (auto simp: current_ok_def)
      then have "sb_expires_at ?c = Some e" by (simp add: end_notified_txn_def split: txn.split)
      moreover have "(case rg_retry_at s of Some t \<Rightarrow> max t now | None \<Rightarrow> now) \<le> now" using retry by (auto split: option.split)
      ultimately show ?thesis using False e(2) spaced
        by (simp add: poll_current_def send_due_acts del: not_None_eq)
    qed
    then show ?thesis using poll by simp
  qed
qed

section \<open>Properties\<close>

text \<open>
  C15: However the network behaves, two SUBSCRIBEs of one registration are at least five seconds apart. Only a new
  registration subscribes at once.
\<close>

theorem subscribe_requests_spaced:
  "list_all clock_ok evs \<Longrightarrow> spaced_trace None (fst (sub_run evs new_reg_subscription))"
  using sub_run_spaced [of evs new_reg_subscription] by (simp add: new_reg_subscription_def)

definition sample_sent :: "string \<Rightarrow> sent_subscribe" where
  "sample_sent name = \<lparr>ss_call_id = lit name, ss_local_tag = lit ''t'', ss_cseq = 1, ss_expires = 3600\<rparr>"

definition sample_env :: "string \<Rightarrow> instant \<Rightarrow> send_env" where
  "sample_env name now = \<lparr>sv_clock = (\<lambda>_. now), sv_wall = (\<lambda>_. 0), sv_send = (\<lambda>_ _ _. Some (sample_sent name)), sv_probe = None\<rparr>"

definition sample_sub :: "string \<Rightarrow> instant \<Rightarrow> subscription" where
  "sample_sub name now =
     \<lparr>sb_call_id = lit name, sb_local_tag = lit ''t'', sb_remote_tag = None, sb_route_set = [], sb_remote_target = None,
      sb_requested_expires = 3600, sb_created_at = now, sb_created_wall = 0, sb_granted = None, sb_expires_at = None, sb_confirmed = False,
      sb_timer_n = Some (now + TIMER_N), sb_notified_since_send = False, sb_refreshed_for = None, sb_last_cseq = 1,
      sb_txn = TxnPending 1 now SubInitial\<rparr>"

lemma supersede_None: "rg_current s = None \<Longrightarrow> supersede now s = s"
  by (simp add: supersede_def)

lemma sample_registered:
  "sub_step now wall (LineRegistered (sample_env name t)) s =
     ([TraceRegistered, TraceSent t SubInitial],
      (supersede now s)\<lparr>rg_current := Some (sample_sub name t), rg_probing := None, rg_retry_at := None, rg_stopped := None,
        rg_min_expires := DEFAULT_EXPIRES, rg_backoff := SUB_INITIAL_BACKOFF, rg_last_sent_at := Some t\<rparr>)"
  by (simp add: sub_step_def on_new_registration_def apply_sub_action.simps perform_action_def send_subscribe_def sample_env_def on_sent_def
      sample_sent_def sample_sub_def supersede_None)

text \<open>An unanswered SUBSCRIBE: timer F ends it, the path is found dead, and a later poll subscribes again.\<close>

definition sample_retry :: "(instant \<times> int \<times> sub_event) list" where
  "sample_retry = [(0, 0, LineRegistered (sample_env ''a'' 0)), (secs 200, 0, LinePolled False (sample_env ''b'' (secs 200))),
     (secs 300, 0, LinePolled False (sample_env ''c'' (secs 300)))]"

lemma sample_timed_out:
  assumes "rg_current s = Some (sample_sub ''a'' 0)" "rg_probing s = None" "rg_stopped s = None" "rg_backoff s = SUB_INITIAL_BACKOFF"
  shows "\<exists>s'. sub_step (secs 200) 0 (LinePolled False (sample_env ''b'' (secs 200))) s = ([], s') \<and> rg_current s' = None \<and> rg_probing s' = None \<and>
    rg_stopped s' = None \<and> rg_retry_at s' = Some (secs 205) \<and> rg_last_sent_at s' = rg_last_sent_at s"
proof -
  let ?s = "supersede (secs 200) ((prune (secs 200) s)\<lparr>rg_current := Some (sample_sub ''a'' 0)\<rparr>)"
  let ?p = "\<lparr>pb_cause = SubscribeTimeout, pb_call_id = Some (lit ''a''), pb_sent = None\<rparr>"
  have "poll (secs 200) 0 False s = (Some (SendProbe SubscribeTimeout (Some (lit ''a''))), ?s\<lparr>rg_probing := Some ?p\<rparr>)"
    using assms by (simp add: poll_def prune_def poll_current_def timer_f_fired_def begin_probe_def sample_sub_def TIMER_F_def end_notified_txn_def Let_def)
  moreover have "rg_current ?s = None" "rg_stopped ?s = None" "rg_backoff ?s = SUB_INITIAL_BACKOFF" "rg_last_sent_at ?s = rg_last_sent_at s"
    using assms by (simp_all add: supersede_def prune_def Let_def)
  ultimately show ?thesis
    by (simp add: sub_step_def apply_sub_action.simps [of _ _ 0] apply_sub_action.simps [of _ _ 1] apply_sub_action.simps [of _ _ "Suc 0"] perform_action_def on_probe_send_failed_def sample_env_def
        schedule_after_endpoint_failure_def schedule_retry_def mark_unconfirmed_def after_def SUB_INITIAL_BACKOFF_def MAX_NETWORK_DELAY_SECS_def Let_def)
qed

lemma sample_subscribed_again:
  assumes "rg_current s = None" "rg_probing s = None" "rg_stopped s = None" "rg_retry_at s = Some (secs 205)" "rg_last_sent_at s = Some 0"
  shows "fst (sub_step (secs 300) 0 (LinePolled False (sample_env ''c'' (secs 300))) s) = [TraceSent (secs 300) SubInitial]"
proof -
  have "poll (secs 300) 0 False s = (Some (SendInitial (rg_min_expires s)), (prune (secs 300) s)\<lparr>rg_retry_at := None\<rparr>)"
    using assms by (simp add: poll_def prune_def send_due_def spaced_def SUB_INITIAL_BACKOFF_def Let_def)
  then show ?thesis
    by (simp add: sub_step_def apply_sub_action.simps [of _ _ 0] perform_action_def send_subscribe_def sample_env_def)
qed

lemma sample_retry_trace:
  "fst (sub_run sample_retry new_reg_subscription) = [TraceRegistered, TraceSent 0 SubInitial, TraceSent (secs 300) SubInitial]"
proof -
  define s where "s = snd (sub_step 0 0 (LineRegistered (sample_env ''a'' 0)) new_reg_subscription)"
  have first: "sub_step 0 0 (LineRegistered (sample_env ''a'' 0)) new_reg_subscription = ([TraceRegistered, TraceSent 0 SubInitial], s)"
    by (simp add: s_def sample_registered)
  have "rg_current s = Some (sample_sub ''a'' 0)" "rg_probing s = None" "rg_stopped s = None" "rg_backoff s = SUB_INITIAL_BACKOFF" "rg_last_sent_at s = Some 0"
    by (simp_all add: s_def sample_registered)
  with sample_timed_out [of s] obtain s' where
    "sub_step (secs 200) 0 (LinePolled False (sample_env ''b'' (secs 200))) s = ([], s')"
    "fst (sub_step (secs 300) 0 (LinePolled False (sample_env ''c'' (secs 300))) s') = [TraceSent (secs 300) SubInitial]"
    using sample_subscribed_again by fastforce
  then show ?thesis using first by (simp add: sample_retry_def split: prod.split)
qed

theorem subscribe_requests_spaced_witness:
  "fst (sub_run sample_retry new_reg_subscription) = [TraceRegistered, TraceSent 0 SubInitial, TraceSent (secs 300) SubInitial] \<and>
   spaced_trace None (fst (sub_run sample_retry new_reg_subscription))"
  using subscribe_requests_spaced [of sample_retry] sample_retry_trace by (simp add: sample_retry_def sample_env_def)

text \<open>
  C16: A line that has registered does not forget its subscription while it knows when it expires. Unless the network told
  it to stop, or the current subscription is one a NOTIFY has confirmed without any expiry being known, a poll past the
  last deadline sends a SUBSCRIBE, probes the path or reports it dead, and that deadline is at most 366 days away however
  large a value the network sent.
\<close>

theorem subscription_never_forgotten:
  assumes "list_all (over_before (Suc T)) ((now, wall, LineRegistered env) # evs)"
    and "sub_run ((now, wall, LineRegistered env) # evs) new_reg_subscription = (tr, s)"
    and "rg_stopped s = None" "\<And>c. rg_current s = Some c \<Longrightarrow> \<not> expiry_unknown c" "T + secs MAX_NETWORK_DELAY_SECS \<le> t"
  shows "fst (poll t wall' force s) \<noteq> None"
proof -
  have "times_ok T new_reg_subscription" by (simp add: times_ok_def new_reg_subscription_def)
  from registered_ok [OF this] assms(1) have "sub_inv T (snd (sub_step now wall (LineRegistered env) new_reg_subscription))" by simp
  from sub_run_inv [OF this, of evs] assms(1,2) have "sub_inv T s" by (auto simp: apfst_def map_prod_def split_beta)
  then show ?thesis using assms(3-5) by (rule sub_inv_acts)
qed

theorem subscription_never_forgotten_witness:
  "fst (poll (secs MAX_NETWORK_DELAY_SECS) 0 False (snd (sub_run [(0, 0, LineRegistered (sample_env ''a'' 0))] new_reg_subscription))) \<noteq> None"
  by (rule subscription_never_forgotten [of 0 0 0 "sample_env ''a'' 0" "[]"])
    (simp_all add: sample_registered, simp_all add: sample_env_def sample_sub_def expiry_unknown_def)

text \<open>
  C37: A subscription that a new registration replaces is still recognised: until it has expired and 128 seconds have
  passed, and as long as fewer than 32 subscriptions have been started since, a NOTIFY in its dialog is answered as
  one of a replaced subscription and changes nothing.
\<close>

theorem replaced_subscription_recognised:
  assumes "rg_current s = Some c"
    and "expiry = (case sb_expires_at c of Some e \<Rightarrow> e | None \<Rightarrow> after (sb_created_at c) (secs (sb_requested_expires c)))"
    and "sub_run ((now, wall, LineRegistered env) # evs) s = (tr, s')" "started tr < SUPERSEDED_CAP"
    and "list_all (over_before (expiry + SUPERSEDED_GRACE)) ((now, wall, LineRegistered env) # evs)" "t < expiry + SUPERSEDED_GRACE"
    and "notify_ids req = Some (sb_call_id c, sb_local_tag c)"
    and "\<And>c'. rg_current s' = Some c' \<Longrightarrow> (sb_call_id c', sb_local_tag c') \<noteq> (sb_call_id c, sb_local_tag c)"
  shows "on_notify req t s' = (NotifySuperseded, prune t s')"
proof -
  define x where "x = \<lparr>xs_call_id = sb_call_id c, xs_local_tag = sb_local_tag c, xs_forget_at = expiry + SUPERSEDED_GRACE\<rparr>"
  have now: "now < xs_forget_at x" using assms(5) by (simp add: x_def)
  obtain a s0 where a: "on_new_registration now s = (a, s0)" by force
  obtain tr1 r s1 where first: "apply_sub_action env False 0 a s0 = (tr1, r, s1)" by (metis prod_cases3)
  obtain tr2 where rest: "sub_run evs s1 = (tr2, s')" "tr = TraceRegistered # tr1 @ tr2"
    using assms(3) a first by (auto simp: sub_step_def apfst_def map_prod_def split: prod.splits)
  have "rg_superseded s0 = rg_superseded (supersede now s)" "rg_current s0 = None" using a by (auto simp: on_new_registration_def)
  moreover have "younger_than x 0 (rg_superseded (supersede now s)) True"
    using superseded_newest [OF assms(1)] now by (simp add: x_def assms(2))
  ultimately have "remembers x 0 s0" by (simp add: remembers_def)
  from remembers_apply_action [OF first this] have "remembers x (started tr1) s1" using assms(4,5) rest(2) by (simp add: x_def)
  from remembers_run [OF rest(1) this] have "remembers x (started tr) s'" using assms(4,5) rest(2) by (simp add: x_def)
  then have "x \<in> set (rg_superseded (prune t s'))" using assms(6) by (auto simp: remembers_def younger_than_def prune_def x_def)
  then have "list_ex (\<lambda>x. xs_call_id x = sb_call_id c \<and> xs_local_tag x = sb_local_tag c) (rg_superseded (prune t s'))"
    unfolding list_ex_iff by (rule bexI [rotated]) (simp add: x_def)
  then show ?thesis using assms(7,8) by (auto simp: on_notify_def Let_def split: option.split)
qed

definition sample_notify :: "string \<Rightarrow> sip_request" where
  "sample_notify name =
     \<lparr>rq_method = lit ''NOTIFY'', rq_request_uri = lit ''sip:u'',
      rq_headers = [(lit ''Event'', lit ''reg''), (lit ''Call-ID'', lit name), (lit ''To'', lit ''<sip:u>;tag=t''),
        (lit ''Subscription-State'', lit ''active'')], rq_body = [], rq_body_bytes = []\<rparr>"

lemma sample_notify_ids: "notify_ids (sample_notify name) = Some (lit name, lit ''t'')"
  by (simp add: notify_ids_def sample_notify_def header_def header_in_def eq_ignore_ascii_case_def to_ascii_lowercase_def ascii_lower_def lit_def
      trim_def trim_start_def trim_end_def is_whitespace_def header_tag_def)

theorem replaced_subscription_recognised_witness:
  "fst (on_notify (sample_notify ''a'') (secs 60)
     (snd (sub_run [(secs 50, 0, LineRegistered (sample_env ''b'' (secs 50)))]
       (snd (sub_run [(0, 0, LineRegistered (sample_env ''a'' 0))] new_reg_subscription))))) = NotifySuperseded"
proof -
  let ?s = "snd (sub_run [(0, 0, LineRegistered (sample_env ''a'' 0))] new_reg_subscription)"
  obtain tr s' where run: "sub_run [(secs 50, 0, LineRegistered (sample_env ''b'' (secs 50)))] ?s = (tr, s')" by force
  have current: "rg_current ?s = Some (sample_sub ''a'' 0)" by (simp add: sample_registered)
  have tr: "tr = [TraceRegistered, TraceSent (secs 50) SubInitial]" and c': "rg_current s' = Some (sample_sub ''b'' (secs 50))"
    using run by (auto simp: sample_registered)
  have "on_notify (sample_notify ''a'') (secs 60) s' = (NotifySuperseded, prune (secs 60) s')"
    by (rule replaced_subscription_recognised [OF current _ run, where expiry = "secs 3600"])
      (use tr c' in \<open>simp_all add: sample_notify_ids sample_sub_def after_def MAX_NETWORK_DELAY_SECS_def SUPERSEDED_CAP_def
        SUPERSEDED_GRACE_def sample_env_def lit_def\<close>)
  then show ?thesis using run by simp
qed

text \<open>
  C38: A subscription whose SUBSCRIBE was never answered, and whose NOTIFY named no expiry, is taken for confirmed and is never
  refreshed, replaced or probed again, however long it is polled.
\<close>

theorem unknown_expiry_never_refreshed:
  assumes "rg_current s = Some c" "expiry_unknown c" "sb_timer_n c = None"
    and "rg_retry_at s = None" "rg_probing s = None" "rg_stopped s = None" "list_all is_poll evs"
  shows "fst (sub_run evs s) = [] \<and> (\<exists>c'. rg_current (snd (sub_run evs s)) = Some c' \<and> sb_call_id c' = sb_call_id c)"
  using assms
proof (induction evs arbitrary: s c)
  case (Cons e evs)
  from Cons.prems(7) obtain now wall force env where e: "e = (now, wall, LinePolled force env)"
    by (cases e) (auto simp: is_poll_def split: prod.splits sub_event.splits)
  let ?c = "end_notified_txn now c" and ?s = "prune now s\<lparr>rg_current := Some (end_notified_txn now c)\<rparr>"
  have c: "expiry_unknown ?c" "sb_timer_n ?c = None" "sb_call_id ?c = sb_call_id c"
    using Cons.prems(2,3) by (simp_all add: expiry_unknown_def end_notified_txn_def split: txn.split)
  then have "poll_current now wall force ?c ?s = (None, ?s)"
    using Cons.prems(4) by (auto simp: poll_current_def timer_f_fired_def expiry_unknown_def refresh_due_def send_due_def split: txn.split)
  then have "sub_step now wall (LinePolled force env) s = ([], ?s)"
    using Cons.prems(1,5,6) by (simp add: sub_step_def poll_def Let_def)
  moreover have "fst (sub_run evs ?s) = [] \<and> (\<exists>c'. rg_current (snd (sub_run evs ?s)) = Some c' \<and> sb_call_id c' = sb_call_id ?c)"
    using Cons.prems(4-7) by (intro Cons.IH) (simp_all add: c)
  ultimately show ?case using e c(3) by (simp add: apfst_def map_prod_def split_beta)
qed simp

lemma sample_state: "parse_subscription_state (lit ''active'') = \<lparr>su_state = SubActive, su_expires = None, su_reason = None, su_retry_after = None\<rparr>"
  by (simp add: parse_subscription_state_def lit_def trim_def trim_start_def trim_end_def is_whitespace_def to_ascii_lowercase_def ascii_lower_def)

lemma sample_notified:
  assumes "rg_current s = Some (sample_sub ''a'' t)"
  shows "sub_step now wall (NotifyReceived (sample_notify ''a'')) s =
    ([], (prune now s)\<lparr>rg_current := Some ((sample_sub ''a'' t)\<lparr>sb_notified_since_send := True, sb_timer_n := None, sb_confirmed := True\<rparr>),
       rg_backoff := SUB_INITIAL_BACKOFF, rg_unconfirmed_since := None\<rparr>)"
proof -
  have "header (sample_notify ''a'') (lit ''Subscription-State'') = Some (lit ''active'')" "header (sample_notify ''a'') (lit ''From'') = None"
    by (simp_all add: sample_notify_def header_def header_in_def eq_ignore_ascii_case_def to_ascii_lowercase_def ascii_lower_def lit_def)
  moreover have "learn_dialog None rs target c = c" for rs target c by (simp add: learn_dialog_def)
  ultimately show ?thesis using assms
    by (simp add: sub_step_def on_notify_def sample_notify_ids sample_sub_def sample_state notify_current_def Let_def apply_subscription_state_def)
qed

theorem unknown_expiry_never_refreshed_witness:
  "fst (sub_run [(secs 100000, 0, LinePolled False (sample_env ''b'' (secs 100000)))]
     (snd (sub_run [(0, 0, LineRegistered (sample_env ''a'' 0)), (secs 1, 0, NotifyReceived (sample_notify ''a''))] new_reg_subscription))) = []"
proof -
  let ?c = "(sample_sub ''a'' 0)\<lparr>sb_notified_since_send := True, sb_timer_n := None, sb_confirmed := True\<rparr>"
  let ?s = "snd (sub_run [(0, 0, LineRegistered (sample_env ''a'' 0)), (secs 1, 0, NotifyReceived (sample_notify ''a''))] new_reg_subscription)"
  have s: "rg_current ?s = Some ?c" "rg_retry_at ?s = None" "rg_probing ?s = None" "rg_stopped ?s = None"
    by (simp_all add: sample_registered sample_notified)
  show ?thesis by (rule unknown_expiry_never_refreshed [OF s(1) _ _ s(2-4), THEN conjunct1]) (simp_all add: expiry_unknown_def sample_sub_def is_poll_def)
qed

end
