(* ===== verification/Gm_Keepalive.thy ===== *)
theory Gm_Keepalive
  imports Reg_Subscription
begin

text \<open>
  The keep-alive of the signalling connection (\<^verbatim>\<open>ims/agent/ping.rs\<close>): the OPTIONS probe as a state machine, and
  the pass of the idle loop that probes both halves of the connection, repairs what has failed and, after three failed
  repairs, asks for a full re-registration. The sockets are an environment: whether the listener is up, whether a
  probe could be sent and with which CSeq, whether the reader still runs, whether the rebuild worked.
\<close>

section \<open>The probe\<close>

definition PING_INTERVAL :: duration where
  "PING_INTERVAL = secs 120"

definition MAX_RECONNECT_ATTEMPTS :: nat where
  "MAX_RECONNECT_ATTEMPTS = 3"

record pending_ping =
  pp_cseq :: nat
  pp_sent_at :: instant

record ping_state =
  pi_last_sent :: "instant option"
  pi_pending :: "pending_ping option"
  pi_retry_at :: "instant option"
  pi_periodic :: bool

definition default_ping :: ping_state where
  "default_ping = \<lparr>pi_last_sent = None, pi_pending = None, pi_retry_at = None, pi_periodic = False\<rparr>"

datatype ping_verdict = PingIdle | PingSend | PingAwait | PingDead

text \<open>\<open>duration_since\<close> of an instant in the future is zero, as the difference of two naturals is.\<close>

definition ping_verdict_of :: "ping_state \<Rightarrow> instant \<Rightarrow> bool \<Rightarrow> bool \<Rightarrow> ping_verdict" where
  "ping_verdict_of p now call_in_progress periodic =
     (if call_in_progress then PingIdle
      else
        (case pi_pending p of
           Some q \<Rightarrow> if PING_RESPONSE_TIMEOUT \<le> now - pp_sent_at q then PingDead else PingAwait
         | None \<Rightarrow>
             (case pi_retry_at p of
                Some r \<Rightarrow> if now < r then PingIdle else PingSend
              | None \<Rightarrow>
                  if \<not> periodic then PingIdle
                  else
                    (case pi_last_sent p of
                       Some t \<Rightarrow> if now - t < PING_INTERVAL then PingIdle else PingSend
                     | None \<Rightarrow> PingSend))))"

definition ping_on_sent :: "nat \<Rightarrow> instant \<Rightarrow> ping_state \<Rightarrow> ping_state" where
  "ping_on_sent cseq now p =
     p\<lparr>pi_last_sent := Some now, pi_pending := Some \<lparr>pp_cseq = cseq, pp_sent_at = now\<rparr>, pi_retry_at := None\<rparr>"

definition ping_on_repair_failed :: "instant \<Rightarrow> ping_state \<Rightarrow> ping_state" where
  "ping_on_repair_failed now p = p\<lparr>pi_pending := None, pi_retry_at := Some (now + PING_RESPONSE_TIMEOUT)\<rparr>"

definition ping_on_response :: "nat \<Rightarrow> ping_state \<Rightarrow> bool \<times> ping_state" where
  "ping_on_response cseq p =
     (case pi_pending p of
        Some q \<Rightarrow> if pp_cseq q = cseq then (True, p\<lparr>pi_pending := None\<rparr>) else (False, p)
      | None \<Rightarrow> (False, p))"

definition ping_reset :: "ping_state \<Rightarrow> ping_state" where
  "ping_reset p = p\<lparr>pi_last_sent := None, pi_pending := None, pi_retry_at := None\<rparr>"

section \<open>The connection\<close>

datatype gm_connection_state = GmUp | GmReconnecting int nat | GmFailed int

definition gm_episode_since :: "int \<Rightarrow> gm_connection_state \<Rightarrow> int" where
  "gm_episode_since wall conn = (case conn of GmReconnecting since _ \<Rightarrow> since | GmFailed since \<Rightarrow> since | GmUp \<Rightarrow> wall)"

text \<open>The four values the pass updates.\<close>

record gm_state =
  gm_ping :: ping_state
  gm_conn :: gm_connection_state
  gm_reconnect_attempts :: nat
  gm_force_renewal :: bool

text \<open>
  What the sockets answer during one pass: the time at its start and after the rebuild, the listener (up, or
  restarted), the CSeq of a probe that could be sent, the reader, the rebuild, and the probe that confirms it.
\<close>

record gm_env =
  ge_now :: instant
  ge_rebuilt :: instant
  ge_wall :: int
  ge_listener_alive :: bool
  ge_listener_restarts :: bool
  ge_send :: "nat option"
  ge_reader_alive :: bool
  ge_reconnects :: bool
  ge_confirm :: "nat option"

text \<open>The client half: whether it is down, and the probe.\<close>

definition probe_client :: "gm_env \<Rightarrow> ping_state \<Rightarrow> bool \<times> ping_state" where
  "probe_client env p =
     (let (down, p) =
        (case ping_verdict_of p (ge_now env) False (pi_periodic p) of
           PingIdle \<Rightarrow> (False, p)
         | PingAwait \<Rightarrow> (False, p)
         | PingSend \<Rightarrow>
             (case ge_send env of
                Some cseq \<Rightarrow> (False, ping_on_sent cseq (ge_now env) p)
              | None \<Rightarrow> (True, p\<lparr>pi_pending := None\<rparr>))
         | PingDead \<Rightarrow> (True, p\<lparr>pi_pending := None\<rparr>))
      in if \<not> down \<and> \<not> ge_reader_alive env then (True, p\<lparr>pi_pending := None\<rparr>) else (down, p))"

definition rebuild_client :: "gm_env \<Rightarrow> ping_state \<Rightarrow> ping_state" where
  "rebuild_client env p =
     (if ge_reconnects env then
        (case ge_confirm env of
           Some cseq \<Rightarrow> ping_on_sent cseq (ge_rebuilt env) p
         | None \<Rightarrow> ping_on_repair_failed (ge_rebuilt env) p)
      else ping_on_repair_failed (ge_rebuilt env) p)"

definition probe_gm_connection :: "gm_env \<Rightarrow> gm_state \<Rightarrow> bool \<times> gm_state" where
  "probe_gm_connection env s =
     (if gm_force_renewal s then (False, s)
      else
        (let listener_restart_failed = (\<not> ge_listener_alive env \<and> \<not> ge_listener_restarts env);
             (client_down, p) = probe_client env (gm_ping s)
         in if \<not> client_down \<and> \<not> listener_restart_failed then (False, s\<lparr>gm_ping := p\<rparr>)
            else
              (let attempts = gm_reconnect_attempts s + 1;
                   s = s\<lparr>gm_ping := p, gm_reconnect_attempts := attempts,
                         gm_conn := GmReconnecting (gm_episode_since (ge_wall env) (gm_conn s)) attempts\<rparr>
               in if MAX_RECONNECT_ATTEMPTS \<le> attempts then
                    (client_down, s\<lparr>gm_force_renewal := True, gm_ping := ping_reset p\<rparr>)
                  else if client_down then (False, s\<lparr>gm_ping := rebuild_client env p\<rparr>)
                  else (False, s))))"

text \<open>An answer to the probe confirms the connection, whatever its status.\<close>

definition gm_answer :: "nat \<Rightarrow> gm_state \<Rightarrow> bool \<times> gm_state" where
  "gm_answer cseq s =
     (case ping_on_response cseq (gm_ping s) of
        (matched, p) \<Rightarrow>
          if matched then (True, s\<lparr>gm_ping := p, gm_conn := GmUp, gm_reconnect_attempts := 0\<rparr>)
          else (False, s\<lparr>gm_ping := p\<rparr>))"

section \<open>Lemmas\<close>

text \<open>When the next pass has something to do, and by when a silent connection is given up.\<close>

definition next_action :: "ping_state \<Rightarrow> instant" where
  "next_action p =
     (case pi_pending p of
        Some q \<Rightarrow> pp_sent_at q + PING_RESPONSE_TIMEOUT
      | None \<Rightarrow>
          (case pi_retry_at p of
             Some r \<Rightarrow> r
           | None \<Rightarrow> (case pi_last_sent p of Some t \<Rightarrow> t + PING_INTERVAL | None \<Rightarrow> 0)))"

definition repair_time :: "duration \<Rightarrow> duration" where
  "repair_time d = 2 * PING_RESPONSE_TIMEOUT + 3 * d"

definition give_up_time :: "duration \<Rightarrow> gm_state \<Rightarrow> instant" where
  "give_up_time d s =
     next_action (gm_ping s) + (if pi_pending (gm_ping s) \<noteq> None then 2 * d else PING_RESPONSE_TIMEOUT + 3 * d) +
       (2 - gm_reconnect_attempts s) * repair_time d"

text \<open>After a pass at time \<open>t\<close>: either the re-registration is asked for, or what is next lies ahead.\<close>

definition watched :: "instant \<Rightarrow> gm_state \<Rightarrow> bool" where
  "watched t s \<longleftrightarrow> gm_force_renewal s \<or> pi_periodic (gm_ping s) \<and> gm_reconnect_attempts s \<le> 2 \<and> t < next_action (gm_ping s)"

lemma ping_timeout_pos: "0 < PING_RESPONSE_TIMEOUT" "PING_RESPONSE_TIMEOUT \<le> PING_INTERVAL"
  by (simp_all add: PING_RESPONSE_TIMEOUT_def PING_INTERVAL_def)

text \<open>The passes of an idle line: each starts at most \<open>d\<close> after the one before and rebuilds within \<open>d\<close>.\<close>

fun passes_ok :: "duration \<Rightarrow> instant \<Rightarrow> gm_env list \<Rightarrow> bool" where
  "passes_ok d t [] \<longleftrightarrow> True"
| "passes_ok d t (env # envs) \<longleftrightarrow>
     t \<le> ge_now env \<and> ge_now env \<le> t + d \<and> ge_now env \<le> ge_rebuilt env \<and> ge_rebuilt env \<le> ge_now env + d \<and>
     passes_ok d (ge_now env) envs"

text \<open>No answer arrives between them.\<close>

definition silent_run :: "gm_env list \<Rightarrow> gm_state \<Rightarrow> gm_state" where
  "silent_run envs s = fold (\<lambda>env s. snd (probe_gm_connection env s)) envs s"

lemma periodic_kept [simp]:
  "pi_periodic (ping_on_sent n t p) = pi_periodic p" "pi_periodic (ping_on_repair_failed t p) = pi_periodic p"
  "pi_periodic (rebuild_client env p) = pi_periodic p"
  by (simp_all add: ping_on_sent_def ping_on_repair_failed_def rebuild_client_def split: option.split)

lemma next_action_sent [simp]: "next_action (ping_on_sent n t p) = t + PING_RESPONSE_TIMEOUT" "pi_pending (ping_on_sent n t p) \<noteq> None"
  by (simp_all add: next_action_def ping_on_sent_def)

lemma next_action_repair_failed [simp]:
  "next_action (ping_on_repair_failed t p) = t + PING_RESPONSE_TIMEOUT" "pi_pending (ping_on_repair_failed t p) = None"
  by (simp_all add: next_action_def ping_on_repair_failed_def)

text \<open>One pass over the client half, on time for the next action.\<close>

lemma probe_client_cases:
  assumes "probe_client env p = (down, p')" "pi_periodic p" "t < next_action p"
  shows "pi_periodic p' \<and> (\<not> down \<longrightarrow>
    p' = p \<and> ge_now env < next_action p \<or>
    next_action p \<le> ge_now env \<and> pi_pending p = None \<and> (\<exists>n. p' = ping_on_sent n (ge_now env) p))"
proof -
  have "PING_RESPONSE_TIMEOUT \<le> n - m \<longleftrightarrow> m + PING_RESPONSE_TIMEOUT \<le> n" "n - m < PING_INTERVAL \<longleftrightarrow> n < m + PING_INTERVAL" for n m :: nat
    using ping_timeout_pos by linarith+
  then show ?thesis using assms
    by (auto simp: probe_client_def ping_verdict_of_def next_action_def split: option.splits if_splits)
qed

lemma rebuild_client_next:
  assumes "p' = rebuild_client env p"
  shows "next_action p' = ge_rebuilt env + PING_RESPONSE_TIMEOUT"
  using assms by (auto simp: rebuild_client_def split: option.split)

lemma probe_step:
  assumes "watched t s" "t \<le> ge_now env" "ge_now env \<le> t + d" "ge_now env \<le> ge_rebuilt env" "ge_rebuilt env \<le> ge_now env + d"
  shows "let s' = snd (probe_gm_connection env s)
    in watched (ge_now env) s' \<and> (gm_force_renewal s' \<or> \<not> gm_force_renewal s \<and> give_up_time d s' \<le> give_up_time d s)"
proof (cases "gm_force_renewal s")
  case True
  then show ?thesis by (simp add: probe_gm_connection_def watched_def)
next
  case False
  with assms(1) have w: "pi_periodic (gm_ping s)" "gm_reconnect_attempts s \<le> 2" "t < next_action (gm_ping s)" by (simp_all add: watched_def)
  obtain down p where p: "probe_client env (gm_ping s) = (down, p)" by force
  note c = probe_client_cases [OF p w(1,3)]
  have A: "ge_now env < next_action (gm_ping s) + d" "ge_rebuilt env < next_action (gm_ping s) + 2 * d" using assms w(3) by simp_all
  consider (quiet) "\<not> down" "ge_listener_alive env \<or> ge_listener_restarts env"
    | (escalate) "down \<or> \<not> (ge_listener_alive env \<or> ge_listener_restarts env)" "2 \<le> gm_reconnect_attempts s"
    | (rebuild) down "gm_reconnect_attempts s < 2"
    | (listener) "\<not> down" "\<not> (ge_listener_alive env \<or> ge_listener_restarts env)" "gm_reconnect_attempts s < 2" by linarith
  then show ?thesis
  proof cases
    case quiet
    then show ?thesis using c p w(2) False A
      by (auto simp: ping_timeout_pos probe_gm_connection_def watched_def give_up_time_def Let_def)
  next
    case escalate
    then show ?thesis using p False by (auto simp: probe_gm_connection_def watched_def Let_def MAX_RECONNECT_ATTEMPTS_def)
  next
    case rebuild
    let ?p = "rebuild_client env p"
    have n: "next_action ?p = ge_rebuilt env + PING_RESPONSE_TIMEOUT" by (rule rebuild_client_next) simp
    have s': "snd (probe_gm_connection env s) =
        s\<lparr>gm_ping := ?p, gm_reconnect_attempts := gm_reconnect_attempts s + 1,
          gm_conn := GmReconnecting (gm_episode_since (ge_wall env) (gm_conn s)) (gm_reconnect_attempts s + 1)\<rparr>"
      using rebuild p False by (simp add: probe_gm_connection_def Let_def MAX_RECONNECT_ATTEMPTS_def)
    have "(2 - gm_reconnect_attempts s) * repair_time d = repair_time d + (Suc 0 - gm_reconnect_attempts s) * repair_time d"
      using rebuild(2) by (cases "gm_reconnect_attempts s") auto
    moreover have "repair_time d = 2 * PING_RESPONSE_TIMEOUT + 3 * d" by (simp add: repair_time_def)
    ultimately have "give_up_time d (snd (probe_gm_connection env s)) \<le> give_up_time d s"
      using A(2) n by (simp add: s' give_up_time_def)
    moreover have "watched (ge_now env) (snd (probe_gm_connection env s))"
      using rebuild(2) c n assms(4) ping_timeout_pos(1) by (simp add: s' watched_def)
    ultimately show ?thesis using False by (simp add: Let_def)
  next
    case listener
    then have "(2 - gm_reconnect_attempts s) * repair_time d = repair_time d + (Suc 0 - gm_reconnect_attempts s) * repair_time d"
      by (cases "gm_reconnect_attempts s") auto
    then show ?thesis using listener c p False A
      by (auto simp: ping_timeout_pos probe_gm_connection_def watched_def give_up_time_def Let_def MAX_RECONNECT_ATTEMPTS_def)
  qed
qed

lemma silent_run_watched:
  assumes "watched t s" "passes_ok d t envs" "give_up_time d s \<le> D" "D \<le> last (t # map ge_now envs)"
  shows "gm_force_renewal (silent_run envs s)"
  using assms
proof (induction envs arbitrary: t s)
  case Nil
  then show ?case by (auto simp: silent_run_def watched_def give_up_time_def)
next
  case (Cons env envs)
  let ?s = "snd (probe_gm_connection env s)"
  have step: "watched (ge_now env) ?s" "gm_force_renewal ?s \<or> give_up_time d ?s \<le> D"
    using probe_step [of t s env d] Cons.prems by (auto simp: Let_def)
  have stay: "gm_force_renewal (silent_run envs s)" if "gm_force_renewal s" for s
    using that by (induction envs arbitrary: s) (simp_all add: silent_run_def probe_gm_connection_def)
  show ?case using step stay [of ?s] Cons.IH [OF step(1)] Cons.prems by (auto simp: silent_run_def)
qed

section \<open>Properties\<close>

text \<open>
  C20: A silent connection is given up in time. On an idle line with the keep-alive on, passes at most \<open>d\<close> apart and
  no answer after the last probe, a full re-registration is asked for by 170 seconds and nine times \<open>d\<close> after that
  probe, whatever the sockets do: probes that cannot be sent, rebuilds that fail or seem to work, a reader or a
  listener that ends.
\<close>

theorem silent_connection_given_up:
  assumes "gm_ping s = \<lparr>pi_last_sent = Some t, pi_pending = None, pi_retry_at = None, pi_periodic = True\<rparr>"
    and "gm_reconnect_attempts s = 0" "t \<le> t'" "t' < t + PING_INTERVAL"
    and "passes_ok d t' envs" "envs \<noteq> []" "t + secs 170 + 9 * d \<le> ge_now (last envs)"
  shows "gm_force_renewal (silent_run envs s)"
proof (rule silent_run_watched [where t = t' and d = d])
  show "watched t' s" using assms(1-4) by (simp add: watched_def next_action_def)
  show "give_up_time d s \<le> t + secs 170 + 9 * d"
    using assms(1,2) by (simp add: give_up_time_def next_action_def repair_time_def PING_INTERVAL_def PING_RESPONSE_TIMEOUT_def)
  show "t + secs 170 + 9 * d \<le> last (t' # map ge_now envs)" using assms(6,7) by (simp add: last_map)
qed (rule assms(5))

text \<open>Probes go out and are never answered; every rebuild seems to work.\<close>

definition sample_pass :: "nat \<Rightarrow> gm_env" where
  "sample_pass n =
     \<lparr>ge_now = secs n, ge_rebuilt = secs n, ge_wall = 0, ge_listener_alive = True, ge_listener_restarts = True, ge_send = Some n,
      ge_reader_alive = True, ge_reconnects = True, ge_confirm = Some n\<rparr>"

definition sample_gm :: gm_state where
  "sample_gm =
     \<lparr>gm_ping = \<lparr>pi_last_sent = Some 0, pi_pending = None, pi_retry_at = None, pi_periodic = True\<rparr>,
      gm_conn = GmUp, gm_reconnect_attempts = 0, gm_force_renewal = False\<rparr>"

theorem silent_connection_given_up_witness:
  "gm_force_renewal (silent_run (map sample_pass [20, 40, 60, 80, 100, 120, 140, 160, 180, 200, 220, 240, 260, 280, 300, 320, 340, 360]) sample_gm)"
  by (rule silent_connection_given_up [where t = 0 and t' = 0 and d = "secs 20"])
    (simp_all add: sample_gm_def sample_pass_def PING_INTERVAL_def)

end
