(* ===== verification/Renewal.thy ===== *)
theory Renewal
  imports Gm_Keepalive Pcscf_Pool
begin

text \<open>
  How a registered line keeps its registration (\<^verbatim>\<open>ims/agent/mod.rs\<close>, \<^verbatim>\<open>ims/agent/registration_refresh.rs\<close> and the
  maintenance policy of \<^verbatim>\<open>ims/lifecycle.rs\<close>): the ladder of retries with its budget, what a deregistration by the
  network does to it, the pass of the idle loop that runs the timers and re-registers, the outcome of an in-place
  refresh, and the first registration at startup. Calls are the three facts \<open>busy\<close> looks at. The clock, the modem
  lock, the re-attach hook, the files of the supervisor and the registration exchange itself are answers of an
  environment. A renewal that spends the budget ends the agent: the error is a value, \<open>Inl\<close>. An outer \<open>None\<close> is a
  panic of the P-CSCF pool.
\<close>

section \<open>Constants\<close>

definition RETRY_INITIAL_BACKOFF :: duration where
  "RETRY_INITIAL_BACKOFF = secs 5"

definition RETRY_MAX_BACKOFF :: duration where
  "RETRY_MAX_BACKOFF = secs 120"

definition MAX_CONSECUTIVE_RENEWAL_FAILURES :: nat where
  "MAX_CONSECUTIVE_RENEWAL_FAILURES = 6"

definition REGISTRATION_SETTLE :: duration where
  "REGISTRATION_SETTLE = secs 60"

definition OUTAGE_RECHECK :: duration where
  "OUTAGE_RECHECK = secs 5"

definition REJECTIONS_BEFORE_FALLBACK :: nat where
  "REJECTIONS_BEFORE_FALLBACK = 2"

definition REFRESH_FLOOR :: duration where
  "REFRESH_FLOOR = secs 60"

definition QUALIFYING_FAILURE_REASON :: text_string where
  "QUALIFYING_FAILURE_REASON = lit ''reg-event SUBSCRIBE unanswered and the Gm keepalive probe failed; re-registering''"

section \<open>The maintenance policy\<close>

datatype maintenance = MaintRenewal | MaintRecovery | MaintReattachment

datatype maintenance_decision = Proceed | Defer

record maintenance_policy =
  mt_deferred :: "maintenance option"
  mt_deferred_since :: "system_time option"

definition decide :: "system_time \<Rightarrow> maintenance \<Rightarrow> bool \<Rightarrow> maintenance_policy \<Rightarrow> maintenance_decision \<times> maintenance_policy" where
  "decide wall what call_in_progress m =
     (if what = MaintRenewal then (Proceed, m)
      else if call_in_progress then
        (Defer,
         \<lparr>mt_deferred = Some (if mt_deferred m = Some MaintReattachment \<or> what = MaintReattachment then MaintReattachment else MaintRecovery),
          mt_deferred_since = (if mt_deferred m = None then Some wall else mt_deferred_since m)\<rparr>)
      else (Proceed, m))"

definition release :: "maintenance_policy \<Rightarrow> maintenance option \<times> maintenance_policy" where
  "release m = (mt_deferred m, m\<lparr>mt_deferred_since := None, mt_deferred := None\<rparr>)"

section \<open>State\<close>

datatype registration_state = StUnregistered | StRegistering | StRegistered | StRenewing | StFailed

text \<open>The fields of the shared status that the loop itself writes.\<close>

record registration_status =
  rs_state :: registration_state
  rs_registered_at :: "system_time option"
  rs_expires_at :: "system_time option"
  rs_last_failure :: "(system_time \<times> text_string) option"
  rs_attached :: bool
  rs_rejected_until :: "system_time option"

record rejection_cooldown =
  rj_until :: instant
  rj_until_wall :: system_time

text \<open>
  \<open>LoopState\<close>, with the refresh in flight as a flag and the calls as far as \<open>busy\<close> looks at them. The shared
  status is part of it.
\<close>

record loop_state =
  lp_active_call :: bool
  lp_origination :: bool
  lp_ringing :: bool
  lp_backoff :: duration
  lp_next_renewal_attempt :: "instant option"
  lp_maintenance :: maintenance_policy
  lp_gm :: gm_state
  lp_consecutive_renewal_failures :: nat
  lp_last_registered :: instant
  lp_ladder_before_success :: "duration \<times> nat"
  lp_early_loss_counted :: bool
  lp_rejection :: "rejection_cooldown option"
  lp_budget_exit_owed :: "text_string option"
  lp_registration_refresh :: bool
  lp_refresh_rejections :: nat
  lp_refresh_fallback :: bool
  lp_refresh_repaired :: bool
  lp_last_refresh :: "(system_time \<times> text_string) option"
  lp_reg_sub :: reg_subscription
  lp_pool :: pcscf_pool
  lp_status :: registration_status

text \<open>\<open>force_renewal\<close> is one of the values the probe of the connection updates, so it lives with them.\<close>

abbreviation lp_force_renewal :: "loop_state \<Rightarrow> bool" where
  "lp_force_renewal s \<equiv> gm_force_renewal (lp_gm s)"

definition force_renewal :: "loop_state \<Rightarrow> loop_state" where
  "force_renewal s = s\<lparr>lp_gm := (lp_gm s)\<lparr>gm_force_renewal := True\<rparr>\<rparr>"

definition new_loop_state :: "instant \<Rightarrow> bool \<Rightarrow> pcscf_pool \<Rightarrow> registration_status \<Rightarrow> loop_state" where
  "new_loop_state now periodic pool status =
     \<lparr>lp_active_call = False, lp_origination = False, lp_ringing = False, lp_backoff = RETRY_INITIAL_BACKOFF,
      lp_next_renewal_attempt = None, lp_maintenance = \<lparr>mt_deferred = None, mt_deferred_since = None\<rparr>,
      lp_gm = \<lparr>gm_ping = default_ping\<lparr>pi_periodic := periodic\<rparr>, gm_conn = GmUp, gm_reconnect_attempts = 0, gm_force_renewal = False\<rparr>,
      lp_consecutive_renewal_failures = 0, lp_last_registered = now, lp_ladder_before_success = (RETRY_INITIAL_BACKOFF, 0),
      lp_early_loss_counted = False, lp_rejection = None, lp_budget_exit_owed = None, lp_registration_refresh = False,
      lp_refresh_rejections = 0, lp_refresh_fallback = False, lp_refresh_repaired = False, lp_last_refresh = None,
      lp_reg_sub = new_reg_subscription, lp_pool = pool, lp_status = status\<rparr>"

definition busy :: "loop_state \<Rightarrow> bool" where
  "busy s \<longleftrightarrow> lp_active_call s \<or> lp_origination s \<or> lp_ringing s"

section \<open>The ladder\<close>

definition on_renewal_success :: "instant \<Rightarrow> loop_state \<Rightarrow> loop_state" where
  "on_renewal_success now s =
     s\<lparr>lp_ladder_before_success := (lp_backoff s, lp_consecutive_renewal_failures s), lp_last_registered := now,
       lp_early_loss_counted := False, lp_rejection := None, lp_backoff := RETRY_INITIAL_BACKOFF,
       lp_consecutive_renewal_failures := 0, lp_next_renewal_attempt := None, lp_refresh_rejections := 0,
       lp_refresh_fallback := False, lp_refresh_repaired := False\<rparr>"

definition budget_spent :: "nat \<Rightarrow> text_string" where
  "budget_spent n =
     lit ''registration renewal failed '' @ show_nat n @ lit '' times in a row; exiting so the supervisor can recover this line''"

definition count_renewal_failure :: "loop_state \<Rightarrow> (text_string + unit) \<times> loop_state" where
  "count_renewal_failure s =
     (let n = lp_consecutive_renewal_failures s + 1
      in (if MAX_CONSECUTIVE_RENEWAL_FAILURES \<le> n then Inl (budget_spent n) else Inr (), s\<lparr>lp_consecutive_renewal_failures := n\<rparr>))"

definition schedule_renewal_retry :: "instant \<Rightarrow> loop_state \<Rightarrow> (text_string + unit) \<times> loop_state" where
  "schedule_renewal_retry now s =
     count_renewal_failure
       (s\<lparr>lp_next_renewal_attempt := Some (now + lp_backoff s), lp_backoff := next_backoff (lp_backoff s) RETRY_MAX_BACKOFF\<rparr>)"

text \<open>While a call is in progress the exit is owed.\<close>

definition owe_if_busy :: "bool \<Rightarrow> (text_string + unit) \<times> loop_state \<Rightarrow> (text_string + unit) \<times> loop_state" where
  "owe_if_busy in_call r =
     (case r of
        (Inl e, s) \<Rightarrow> if in_call then (Inr (), s\<lparr>lp_budget_exit_owed := Some e\<rparr>) else (Inl e, s)
      | (Inr u, s) \<Rightarrow> (Inr u, s))"

definition count_loss :: "instant \<Rightarrow> bool \<Rightarrow> loop_state \<Rightarrow> (text_string + unit) \<times> loop_state" where
  "count_loss now in_call s = owe_if_busy in_call (schedule_renewal_retry now s)"

definition take_owed_budget_exit :: "loop_state \<Rightarrow> (text_string + unit) \<times> loop_state" where
  "take_owed_budget_exit s =
     (if busy s then (Inr (), s)
      else
        (case lp_budget_exit_owed s of
           Some e \<Rightarrow> (Inl e, s\<lparr>lp_budget_exit_owed := None\<rparr>)
         | None \<Rightarrow> (Inr (), s)))"

definition restore_ladder :: "loop_state \<Rightarrow> loop_state" where
  "restore_ladder s =
     s\<lparr>lp_backoff := fst (lp_ladder_before_success s), lp_consecutive_renewal_failures := snd (lp_ladder_before_success s)\<rparr>"

text \<open>\<open>Option::max\<close> with a time: the later of the two, \<open>None\<close> being the least.\<close>

definition not_before :: "instant \<Rightarrow> instant option \<Rightarrow> instant option" where
  "not_before t at = Some (case at of Some u \<Rightarrow> max u t | None \<Rightarrow> t)"

definition extend_rejection :: "instant \<Rightarrow> rejection_cooldown \<Rightarrow> rejection_cooldown" where
  "extend_rejection t r =
     (if rj_until r < t then \<lparr>rj_until = t, rj_until_wall = rj_until_wall r + int (t - rj_until r)\<rparr> else r)"

definition on_rejected :: "instant \<Rightarrow> system_time \<Rightarrow> duration \<Rightarrow> loop_state \<Rightarrow> loop_state" where
  "on_rejected now wall hold s =
     s\<lparr>lp_backoff := RETRY_INITIAL_BACKOFF, lp_consecutive_renewal_failures := 0, lp_early_loss_counted := True,
       lp_rejection := Some \<lparr>rj_until = now + hold, rj_until_wall = wall + int hold\<rparr>,
       lp_next_renewal_attempt := Some (now + hold)\<rparr>"

definition on_deactivated :: "instant \<Rightarrow> bool \<Rightarrow> bool \<Rightarrow> loop_state \<Rightarrow> (text_string + unit) \<times> loop_state" where
  "on_deactivated retry_now early in_call s =
     (if \<not> early \<or> lp_early_loss_counted s then (Inr (), s)
      else
        (let s = restore_ladder (s\<lparr>lp_early_loss_counted := True\<rparr>);
             clean = (lp_consecutive_renewal_failures s = 0);
             (result, s) = count_loss retry_now in_call s
         in (result, if clean then s\<lparr>lp_next_renewal_attempt := None\<rparr> else s)))"

definition honour_wait :: "instant \<Rightarrow> duration option \<Rightarrow> loop_state \<Rightarrow> loop_state" where
  "honour_wait now wait s =
     (case wait of
        Some r \<Rightarrow>
          s\<lparr>lp_next_renewal_attempt := not_before (now + r) (lp_next_renewal_attempt s),
            lp_rejection := map_option (extend_rejection (now + r)) (lp_rejection s)\<rparr>
      | None \<Rightarrow> s)"

definition on_unregistered :: "instant \<Rightarrow> instant \<Rightarrow> bool \<Rightarrow> bool \<Rightarrow> duration option \<Rightarrow> loop_state \<Rightarrow> (text_string + unit) \<times> loop_state" where
  "on_unregistered now retry_now early in_call wait s =
     (let (result, s) =
        (if lp_early_loss_counted s then (Inr (), s)
         else
           (let s = s\<lparr>lp_early_loss_counted := True\<rparr>
            in count_loss retry_now in_call (if early then restore_ladder s else s)))
      in (result, honour_wait now wait s))"

text \<open>\<open>retry_now\<close> and \<open>wall\<close> are the readings of the clocks further down.\<close>

definition on_network_deregistration ::
  "instant \<Rightarrow> instant \<Rightarrow> system_time \<Rightarrow> bool \<Rightarrow> deregistration \<Rightarrow> duration \<Rightarrow> loop_state \<Rightarrow> (text_string + unit) \<times> loop_state" where
  "on_network_deregistration now retry_now wall in_call d cooldown s =
     (let s = force_renewal s;
          early = now - lp_last_registered s < REGISTRATION_SETTLE
      in case dr_event d of
           Rejected \<Rightarrow> (Inr (), on_rejected now wall (max cooldown (case dr_retry_after d of Some r \<Rightarrow> r | None \<Rightarrow> 0)) s)
         | Deactivated \<Rightarrow> on_deactivated retry_now early in_call s
         | _ \<Rightarrow> on_unregistered now retry_now early in_call (dr_retry_after d) s)"

definition on_reg_notify ::
  "instant \<Rightarrow> instant \<Rightarrow> system_time \<Rightarrow> bool \<Rightarrow> deregistration option \<Rightarrow> duration \<Rightarrow> loop_state \<Rightarrow> (text_string + bool) \<times> loop_state" where
  "on_reg_notify now retry_now wall in_call d cooldown s =
     (case d of
        None \<Rightarrow> (Inr False, s)
      | Some d \<Rightarrow> apfst (map_sum id (\<lambda>_. True)) (on_network_deregistration now retry_now wall in_call d cooldown s))"

subsection \<open>A renewal that failed\<close>

definition on_renewal_failure ::
  "ip \<Rightarrow> register_failure \<Rightarrow> bool \<Rightarrow> system_time \<Rightarrow> instant \<Rightarrow> loop_state \<Rightarrow> ((text_string + unit) \<times> loop_state) option" where
  "on_renewal_failure addr failure routed wall now s =
     (case cause_of failure of
        None \<Rightarrow> Some (schedule_renewal_retry now s)
      | Some cause \<Rightarrow>
          if \<not> routed then Some (schedule_renewal_retry now s)
          else
            map_option
              (\<lambda>(marked, p, _).
                let s = s\<lparr>lp_pool := p\<rparr>
                in if next_eligible p wall \<noteq> None \<and> marked \<noteq> None then
                     count_renewal_failure (force_renewal (s\<lparr>lp_next_renewal_attempt := None\<rparr>))
                   else schedule_renewal_retry now s)
              (on_failure (lp_pool s) addr cause wall))"

definition mark_session_pcscf :: "ip \<Rightarrow> failure_cause \<Rightarrow> bool \<Rightarrow> system_time \<Rightarrow> loop_state \<Rightarrow> loop_state option" where
  "mark_session_pcscf addr cause routed wall s =
     (if is_marked (lp_pool s) addr wall \<or> \<not> routed then Some s
      else map_option (\<lambda>(_, p, _). s\<lparr>lp_pool := p\<rparr>) (on_failure (lp_pool s) addr cause wall))"

section \<open>A NOTIFY of the registrar\<close>

definition dereg_event_str :: "dereg_event \<Rightarrow> text_string" where
  "dereg_event_str e =
     (case e of Unregistered \<Rightarrow> lit ''unregistered'' | Probation \<Rightarrow> lit ''probation'' | Deactivated \<Rightarrow> lit ''deactivated''
      | Rejected \<Rightarrow> lit ''rejected'')"

text \<open>
  The clock readings of the handler in their order, whether a call that is being placed waits for the answer to its
  CANCEL, the rendering of a time, and the configuration and session values it reads.
\<close>

record notify_env =
  nt_now :: instant
  nt_apply_now :: instant
  nt_retry_now :: instant
  nt_wall :: system_time
  nt_awaiting_cancel :: bool
  nt_rfc3339 :: "system_time \<Rightarrow> text_string"
  nt_cooldown :: duration
  nt_imei :: text_string
  nt_contact_addr :: socket_address

definition evaluate_reg_notify :: "notify_env \<Rightarrow> sip_request \<Rightarrow> deregistration option" where
  "evaluate_reg_notify env req =
     nv_deregistration
       (classify_reg_notify (rq_body req) (case header req (lit ''Subscription-State'') of Some v \<Rightarrow> v | None \<Rightarrow> lit ''?'')
         (nt_imei env) (nt_contact_addr env))"

definition answer_reg_notify ::
  "notify_env \<Rightarrow> sip_request \<Rightarrow> loop_state \<Rightarrow> nat \<times> (deregistration option \<times> sub_state) option \<times> loop_state" where
  "answer_reg_notify env req s =
     (case on_notify req (nt_now env) (lp_reg_sub s) of
        (m, sub) \<Rightarrow>
          let s = s\<lparr>lp_reg_sub := sub\<rparr>
          in case m of
               NotifyCurrent state \<Rightarrow> (200, Some (evaluate_reg_notify env req, state), s)
             | NotifySuperseded \<Rightarrow> (200, None, s)
             | NotifyUnknown \<Rightarrow> (481, None, s))"

text \<open>The call ends, and an attempt too unless it still waits for the answer to its CANCEL.\<close>

definition end_calls_on_rejection :: "bool \<Rightarrow> loop_state \<Rightarrow> loop_state" where
  "end_calls_on_rejection awaiting_cancel s =
     (let s = (if lp_active_call s then s\<lparr>lp_active_call := False, lp_maintenance := snd (release (lp_maintenance s))\<rparr> else s)
      in if lp_origination s \<and> \<not> awaiting_cancel
         then s\<lparr>lp_origination := False, lp_maintenance := snd (release (lp_maintenance s))\<rparr> else s)"

definition loss_reason :: "(system_time \<Rightarrow> text_string) \<Rightarrow> deregistration \<Rightarrow> rejection_cooldown option \<Rightarrow> text_string" where
  "loss_reason rfc3339 d rejection =
     (case (dr_event d, rejection) of
        (Rejected, Some r) \<Rightarrow>
          lit ''the network rejected our registration (reg-event rejected); next attempt at '' @ rfc3339 (rj_until_wall r)
      | (e, _) \<Rightarrow> lit ''the network deregistered our binding (reg-event '' @ dereg_event_str e @ lit '')'')"

definition make_way :: "notify_env \<Rightarrow> deregistration option \<Rightarrow> loop_state \<Rightarrow> loop_state" where
  "make_way env d s = (if map_option dr_event d = Some Rejected then end_calls_on_rejection (nt_awaiting_cancel env) s else s)"

definition note_loss :: "notify_env \<Rightarrow> deregistration option \<Rightarrow> (text_string + bool) \<times> loop_state \<Rightarrow> (text_string + unit) \<times> loop_state" where
  "note_loss env d out =
     (case (out, d) of
        ((Inl e, s), _) \<Rightarrow> (Inl e, s)
      | ((Inr True, s), Some d) \<Rightarrow>
          (Inr (),
           s\<lparr>lp_status := (lp_status s)\<lparr>rs_state := StFailed,
               rs_last_failure := Some (nt_wall env, loss_reason (nt_rfc3339 env) d (lp_rejection s)),
               rs_rejected_until := map_option rj_until_wall (lp_rejection s)\<rparr>\<rparr>)
      | ((Inr _, s), _) \<Rightarrow> (Inr (), s))"

definition apply_reg_notify :: "notify_env \<Rightarrow> deregistration option \<Rightarrow> loop_state \<Rightarrow> (text_string + unit) \<times> loop_state" where
  "apply_reg_notify env d s =
     (let s = make_way env d s
      in note_loss env d (on_reg_notify (nt_apply_now env) (nt_retry_now env) (nt_wall env) (busy s) d (nt_cooldown env) s))"

definition handle_reg_notify :: "notify_env \<Rightarrow> sip_request \<Rightarrow> loop_state \<Rightarrow> nat \<times> (text_string + unit) \<times> loop_state" where
  "handle_reg_notify env req s =
     (case answer_reg_notify env req s of
        (code, None, s) \<Rightarrow> (code, Inr (), s)
      | (code, Some (d, state), s) \<Rightarrow>
          (case apply_reg_notify env d s of
             (result, s) \<Rightarrow>
               (code, result, s\<lparr>lp_reg_sub := apply_subscription_state state (nt_now env) (nt_wall env) (lp_reg_sub s)\<rparr>)))"

section \<open>The timers of the subscription\<close>

definition on_qualifying_endpoint_failure :: "system_time \<Rightarrow> loop_state \<Rightarrow> bool \<times> loop_state" where
  "on_qualifying_endpoint_failure wall s =
     (if lp_force_renewal s then (False, s)
      else
        (True,
         s\<lparr>lp_gm := (lp_gm s)\<lparr>gm_force_renewal := True, gm_ping := ping_reset (gm_ping (lp_gm s)), gm_reconnect_attempts := 0,
               gm_conn := GmFailed (gm_episode_since wall (gm_conn (lp_gm s)))\<rparr>,
           lp_status := (lp_status s)\<lparr>rs_state := StFailed, rs_last_failure := Some (wall, QUALIFYING_FAILURE_REASON)\<rparr>\<rparr>))"

definition perform_sub_action :: "send_env \<Rightarrow> ip \<Rightarrow> bool \<Rightarrow> system_time \<Rightarrow> sub_action \<Rightarrow> loop_state \<Rightarrow> loop_state option" where
  "perform_sub_action env pcscf routed wall action s =
     (case apply_sub_action env (lp_force_renewal s) 0 action (lp_reg_sub s) of
        (_, None, sub) \<Rightarrow> Some (s\<lparr>lp_reg_sub := sub\<rparr>)
      | (_, Some cause, sub) \<Rightarrow>
          mark_session_pcscf pcscf (CauseEndpointFailure (endpoint_cause_str cause)) routed wall
            (snd (on_qualifying_endpoint_failure wall (s\<lparr>lp_reg_sub := sub\<rparr>))))"

section \<open>The pass of the idle loop\<close>

definition registration_refresh_offset :: "duration \<Rightarrow> duration" where
  "registration_refresh_offset granted = max (if secs 1200 < granted then granted - secs 600 else granted div 2) REFRESH_FLOOR"

definition registration_refresh_due :: "system_time \<Rightarrow> system_time option \<Rightarrow> system_time \<Rightarrow> bool" where
  "registration_refresh_due now registered_at expires_at =
     (let assumed = expires_at - int (secs DEFAULT_EXPIRES);
          registered_at = (case registered_at of Some t \<Rightarrow> t | None \<Rightarrow> if - (2 ^ 63) * 1000000000 \<le> assumed then assumed else 0);
          granted = (case duration_since expires_at registered_at of Some d \<Rightarrow> d | None \<Rightarrow> 0)
      in case checked_add registered_at (registration_refresh_offset granted) of Some refresh_at \<Rightarrow> refresh_at \<le> now | None \<Rightarrow> True)"

definition in_place_refresh_possible :: "bool \<Rightarrow> system_time \<Rightarrow> loop_state \<Rightarrow> bool" where
  "in_place_refresh_possible has_auth wall s \<longleftrightarrow>
     \<not> (lp_force_renewal s \<or> lp_refresh_fallback s \<or> \<not> has_auth) \<and>
     (\<not> (case rs_expires_at (lp_status s) of Some e \<Rightarrow> e \<le> wall | None \<Rightarrow> False) \<or> busy s)"

text \<open>
  What a pass meets: the clock readings in their order, the sockets (for the subscription and for the connection),
  which addresses have a route, the P-CSCF of the session and whether it has cached credentials; then the modem lock,
  the failure of the re-attach hook, what the supervisor has published (selection and pool, last outage), the answer to
  the REGISTER through an address (a failure or the granted seconds), and a failure to listen on the new connection.
\<close>

record tick_env =
  tk_poll_now :: instant
  tk_poll_wall :: system_time
  tk_send :: send_env
  tk_gm :: gm_env
  tk_routed :: "ip \<Rightarrow> bool"
  tk_pcscf :: ip
  tk_has_auth :: bool
  tk_now :: instant
  tk_wall :: system_time
  tk_modem :: bool
  tk_hook :: "text_string option"
  tk_source :: "((ip \<times> ip list) option \<times> outage option) option"
  tk_register :: "ip \<Rightarrow> register_failure + nat"
  tk_inbound :: "text_string option"
  tk_after :: instant
  tk_after_wall :: system_time
  tk_resubscribe :: send_env

definition fail_status :: "system_time \<Rightarrow> text_string \<Rightarrow> loop_state \<Rightarrow> loop_state" where
  "fail_status wall reason s = s\<lparr>lp_status := (lp_status s)\<lparr>rs_state := StFailed, rs_last_failure := Some (wall, reason)\<rparr>\<rparr>"

text \<open>A forced renewal that failed reports the connection as failed.\<close>

definition fail_gm :: "system_time \<Rightarrow> loop_state \<Rightarrow> loop_state" where
  "fail_gm wall s =
     (if lp_force_renewal s then s\<lparr>lp_gm := (lp_gm s)\<lparr>gm_conn := GmFailed (gm_episode_since wall (gm_conn (lp_gm s)))\<rparr>\<rparr> else s)"

definition follow_source :: "((ip \<times> ip list) option \<times> outage option) option \<Rightarrow> pcscf_pool \<Rightarrow> pcscf_pool" where
  "follow_source src p =
     (case src of
        None \<Rightarrow> p
      | Some (announced, ou) \<Rightarrow>
          let p = (case announced of Some (selection, pool) \<Rightarrow> fst (snd (replace_pool p pool selection)) | None \<Rightarrow> p)
          in fst (snd (forget_outage p ou)))"

definition renewed :: "tick_env \<Rightarrow> ip \<Rightarrow> nat \<Rightarrow> loop_state \<Rightarrow> loop_state option" where
  "renewed env target granted s =
     (let s = s\<lparr>lp_status := (lp_status s)\<lparr>rs_state := StRegistered, rs_registered_at := Some (tk_after_wall env),
                  rs_expires_at := Some (tk_after_wall env + int (secs granted)), rs_attached := True\<rparr>\<rparr>;
          s = on_renewal_success (tk_after env) s;
          s = s\<lparr>lp_gm := \<lparr>gm_ping = ping_reset (gm_ping (lp_gm s)), gm_conn = GmUp, gm_reconnect_attempts = 0, gm_force_renewal = False\<rparr>\<rparr>;
          (action, sub) = on_new_registration (tk_after env) (lp_reg_sub s)
      in perform_sub_action (tk_resubscribe env) target (tk_routed env target) (tk_after_wall env) action (s\<lparr>lp_reg_sub := sub\<rparr>))"

text \<open>The registration itself. The first component is the P-CSCF a REGISTER went to.\<close>

definition full_renewal :: "tick_env \<Rightarrow> loop_state \<Rightarrow> (ip option \<times> (text_string + unit) \<times> loop_state) option" where
  "full_renewal env s =
     (let s = s\<lparr>lp_status := (lp_status s)\<lparr>rs_state := StRenewing\<rparr>\<rparr>
      in if \<not> tk_modem env then
           Some (None, schedule_renewal_retry (tk_after env)
             (fail_status (tk_after_wall env) (lit ''the modem was held by another user beyond the timeout'') s))
         else
           (case tk_hook env of
              Some reason \<Rightarrow>
                (let s = fail_status (tk_after_wall env) reason s;
                     s = s\<lparr>lp_status := (lp_status s)\<lparr>rs_attached := False\<rparr>\<rparr>
                 in Some (None, schedule_renewal_retry (tk_after env) (fail_gm (tk_after_wall env) s)))
            | None \<Rightarrow>
                (case select (follow_source (tk_source env) (lp_pool s)) (tk_wall env) of
                   (sel, p) \<Rightarrow>
                     (case tk_register env (sl_addr sel) of
                        Inr granted \<Rightarrow>
                          (let s = s\<lparr>lp_pool := fst (on_registered p (sl_addr sel))\<rparr>
                           in case tk_inbound env of
                                Some e \<Rightarrow> Some (Some (sl_addr sel), Inl e, s)
                              | None \<Rightarrow> map_option (\<lambda>s. (Some (sl_addr sel), Inr (), s)) (renewed env (sl_addr sel) granted s))
                      | Inl failure \<Rightarrow>
                          map_option (Pair (Some (sl_addr sel)))
                            (on_renewal_failure (sl_addr sel) failure (tk_routed env (sl_addr sel)) (tk_after_wall env) (tk_after env)
                              (fail_gm (tk_after_wall env) (fail_status (tk_after_wall env) (rf_error failure) (s\<lparr>lp_pool := p\<rparr>))))))))"

definition renewal_gate :: "tick_env \<Rightarrow> loop_state \<Rightarrow> (ip option \<times> (text_string + unit) \<times> loop_state) option" where
  "renewal_gate env s =
     (if \<not> (case rs_expires_at (lp_status s) of
               Some e \<Rightarrow> registration_refresh_due (tk_wall env) (rs_registered_at (lp_status s)) e | None \<Rightarrow> False) \<and> \<not> lp_force_renewal s
      then Some (None, Inr (), s)
      else if in_place_refresh_possible (tk_has_auth env) (tk_wall env) s then Some (None, Inr (), s)
      else
        (case decide (tk_wall env) MaintRecovery (busy s) (lp_maintenance s) of
           (Defer, m) \<Rightarrow> Some (None, Inr (), s\<lparr>lp_maintenance := m\<rparr>)
         | (Proceed, m) \<Rightarrow>
             let s = s\<lparr>lp_maintenance := m, lp_registration_refresh := False\<rparr>
             in if (case lp_next_renewal_attempt s of Some t \<Rightarrow> tk_now env < t | None \<Rightarrow> False) then Some (None, Inr (), s)
                else full_renewal env (s\<lparr>lp_rejection := None\<rparr>)))"

definition run_sub_timers :: "tick_env \<Rightarrow> loop_state \<Rightarrow> loop_state option" where
  "run_sub_timers env s =
     (case poll (tk_poll_now env) (tk_poll_wall env) (lp_force_renewal s) (lp_reg_sub s) of
        (None, sub) \<Rightarrow> Some (s\<lparr>lp_reg_sub := sub\<rparr>)
      | (Some action, sub) \<Rightarrow>
          perform_sub_action (tk_send env) (tk_pcscf env) (tk_routed env (tk_pcscf env)) (tk_poll_wall env) action (s\<lparr>lp_reg_sub := sub\<rparr>))"

definition run_gm_probe :: "tick_env \<Rightarrow> loop_state \<Rightarrow> loop_state option" where
  "run_gm_probe env s =
     (if busy s then Some s
      else
        (case probe_gm_connection (tk_gm env) (lp_gm s) of
           (escalated, g) \<Rightarrow>
             if escalated then
               mark_session_pcscf (tk_pcscf env) CauseGmKeepalive (tk_routed env (tk_pcscf env)) (tk_wall env) (s\<lparr>lp_gm := g\<rparr>)
             else Some (s\<lparr>lp_gm := g\<rparr>)))"

definition on_idle_tick :: "tick_env \<Rightarrow> loop_state \<Rightarrow> (ip option \<times> (text_string + unit) \<times> loop_state) option" where
  "on_idle_tick env s =
     (case take_owed_budget_exit s of
        (Inl e, s) \<Rightarrow> Some (None, Inl e, s)
      | (Inr _, s) \<Rightarrow> Option.bind (run_sub_timers env s) (\<lambda>s. Option.bind (run_gm_probe env s) (renewal_gate env)))"

section \<open>The outcome of an in-place refresh\<close>

definition needs_full_registration :: "u16 option \<Rightarrow> bool" where
  "needs_full_registration status \<longleftrightarrow> (case status of Some n \<Rightarrow> n \<in> {401, 403, 408, 500, 504} | None \<Rightarrow> False)"

definition is_rejection :: "register_failure \<Rightarrow> bool" where
  "is_rejection f \<longleftrightarrow> (case rf_status f of Some n \<Rightarrow> n \<noteq> 503 | None \<Rightarrow> False)"

text \<open>The clocks, the P-CSCF of the session and whether it has a route.\<close>

record refresh_env =
  fr_wall :: system_time
  fr_now :: instant
  fr_pause_now :: instant
  fr_target :: ip
  fr_routed :: bool

definition refresh_failure_str :: "register_failure \<Rightarrow> text_string" where
  "refresh_failure_str f =
     (case rf_status f of
        Some status \<Rightarrow> lit ''rejected '' @ show_nat (unat status)
      | None \<Rightarrow> if str_contains (rf_error f) (lit ''Timer F'') then lit ''timeout'' else lit ''error'')"

definition note_refresh_failure :: "system_time \<Rightarrow> register_failure \<Rightarrow> loop_state \<Rightarrow> loop_state" where
  "note_refresh_failure wall f s =
     (let valid = (case rs_expires_at (lp_status s) of Some e \<Rightarrow> wall < e | None \<Rightarrow> False);
          rejections = lp_refresh_rejections s + (if is_rejection f then 1 else 0)
      in s\<lparr>lp_registration_refresh := False, lp_last_refresh := Some (wall, refresh_failure_str f),
           lp_status := (lp_status s)\<lparr>rs_last_failure := Some (wall, rf_error f),
             rs_state := (if valid then rs_state (lp_status s) else StFailed)\<rparr>,
           lp_refresh_rejections := rejections,
           lp_refresh_fallback := (lp_refresh_fallback s \<or> is_rejection f \<and> REJECTIONS_BEFORE_FALLBACK \<le> rejections)\<rparr>)"

text \<open>The pause the carrier asks for, unless the next attempt goes to another P-CSCF at once.\<close>

definition honour_pause :: "refresh_env \<Rightarrow> register_failure \<Rightarrow> loop_state \<Rightarrow> loop_state" where
  "honour_pause env f s =
     (case rf_retry_after f of
        Some pause \<Rightarrow>
          if lp_force_renewal s then s
          else s\<lparr>lp_next_renewal_attempt := not_before (fr_pause_now env + min pause (secs 86400)) (lp_next_renewal_attempt s)\<rparr>
      | None \<Rightarrow> s)"

definition fail_registration_refresh :: "refresh_env \<Rightarrow> register_failure \<Rightarrow> loop_state \<Rightarrow> ((text_string + unit) \<times> loop_state) option" where
  "fail_registration_refresh env f s =
     (let in_call = busy s;
          s = note_refresh_failure (fr_wall env) f s
      in if needs_full_registration (rf_status f) then Some (Inr (), force_renewal s)
         else
           map_option (\<lambda>r. owe_if_busy in_call (apsnd (honour_pause env f) r))
             (on_renewal_failure (fr_target env) f (fr_routed env) (fr_wall env) (fr_now env) s))"

text \<open>
  The answer that grants the refresh: the granted seconds, or why the answer grants none; and whether the switch to a
  replaced security association failed.
\<close>

definition then_force :: "(text_string + unit) \<times> loop_state \<Rightarrow> (text_string + unit) \<times> loop_state" where
  "then_force r = (case r of (Inl e, s) \<Rightarrow> (Inl e, s) | (Inr _, s) \<Rightarrow> (Inr (), force_renewal s))"

definition confirm_registration_refresh ::
  "refresh_env \<Rightarrow> text_string + nat \<Rightarrow> bool \<Rightarrow> loop_state \<Rightarrow> ((text_string + unit) \<times> loop_state) option" where
  "confirm_registration_refresh env granted swap_failed s =
     (let s = s\<lparr>lp_registration_refresh := False\<rparr>;
          failed = (\<lambda>e. fail_registration_refresh env \<lparr>rf_error = e, rf_status = None, rf_retry_after = None\<rparr>)
      in case granted of
           Inl e \<Rightarrow> failed e s
         | Inr g \<Rightarrow>
             if g = 0 then
               map_option then_force
                 (failed (lit ''the registrar granted a zero lifetime'')
                   (s\<lparr>lp_status := (lp_status s)\<lparr>rs_state := StFailed, rs_expires_at := Some (fr_wall env)\<rparr>\<rparr>))
             else
               (let s = s\<lparr>lp_status := (lp_status s)\<lparr>rs_state := StRegistered, rs_registered_at := Some (fr_wall env),
                            rs_expires_at := Some (fr_wall env + int (secs g)), rs_attached := True\<rparr>\<rparr>;
                    s = on_renewal_success (fr_now env) (if swap_failed then force_renewal s else s);
                    s = s\<lparr>lp_last_refresh := Some (fr_wall env, lit ''ok'')\<rparr>;
                    g = lp_gm s
                in Some (Inr (),
                     if \<not> gm_force_renewal g \<and> gm_conn g \<noteq> GmUp
                     then s\<lparr>lp_gm := g\<lparr>gm_conn := GmUp, gm_reconnect_attempts := 0, gm_ping := ping_reset (gm_ping g)\<rparr>\<rparr> else s)))"

section \<open>The registration at startup\<close>

text \<open>Wall-clock readings and outcomes per attempt.\<close>

record 'a startup_env =
  se_select :: "nat \<Rightarrow> system_time"
  se_failed :: "nat \<Rightarrow> system_time"
  se_register :: "nat \<Rightarrow> ip \<Rightarrow> register_failure + 'a"
  se_routed :: "ip \<Rightarrow> bool"

text \<open>The loop, with fuel: the addresses tried and the outcome. No result is a loop that has not ended, or a panic of the pool.\<close>

fun register_attempts :: "nat \<Rightarrow> nat \<Rightarrow> 'a startup_env \<Rightarrow> pcscf_pool \<Rightarrow> (ip list \<times> (register_failure + 'a) \<times> pcscf_pool) option" where
  "register_attempts 0 n env p = None"
| "register_attempts (Suc fuel) n env p =
     (case select p (se_select env n) of
        (sel, p) \<Rightarrow>
          (case se_register env n (sl_addr sel) of
             Inr session \<Rightarrow> Some ([sl_addr sel], Inr session, fst (on_registered p (sl_addr sel)))
           | Inl failure \<Rightarrow>
               (case cause_of failure of
                  None \<Rightarrow> Some ([sl_addr sel], Inl failure, p)
                | Some cause \<Rightarrow>
                    if \<not> se_routed env (sl_addr sel) then Some ([sl_addr sel], Inl failure, p)
                    else
                      (case on_failure p (sl_addr sel) cause (se_failed env n) of
                         None \<Rightarrow> None
                       | Some (_, p, _) \<Rightarrow>
                           if next_eligible p (se_failed env n) \<noteq> None \<and> sl_reason sel \<noteq> AllUnavailable
                           then map_option (apfst (Cons (sl_addr sel))) (register_attempts fuel (Suc n) env p)
                           else Some ([sl_addr sel], Inl failure, p)))))"

text \<open>The wait for the soonest mark, in steps: the steps taken and the pool.\<close>

function startup_wait :: "(nat \<Rightarrow> system_time) \<Rightarrow> (nat \<Rightarrow> outage option) \<Rightarrow> nat \<Rightarrow> duration \<Rightarrow> pcscf_pool \<Rightarrow> duration list \<times> pcscf_pool" where
  "startup_wait clock last_outage k left p =
     (if left = 0 then ([], p)
      else
        (case forget_outage p (last_outage k) of
           (dropped, p, _) \<Rightarrow>
             if 0 < dropped \<and> has_unmarked p (clock k) then ([min left OUTAGE_RECHECK], p)
             else apfst (Cons (min left OUTAGE_RECHECK)) (startup_wait clock last_outage (k + 1) (left - min left OUTAGE_RECHECK) p)))"
  by pat_completeness auto
termination
  by (relation "measure (\<lambda>(_, _, _, left, _). left)") (auto simp: OUTAGE_RECHECK_def)

declare startup_wait.simps [simp del]

text \<open>The clock is read once for the check and once for the wait, then per step of it.\<close>

definition register_via_pool ::
  "nat \<Rightarrow> 'a startup_env \<Rightarrow> (nat \<Rightarrow> system_time) \<Rightarrow> (nat \<Rightarrow> outage option) \<Rightarrow> pcscf_pool \<Rightarrow>
   duration list \<times> (ip list \<times> (register_failure + 'a) \<times> pcscf_pool) option" where
  "register_via_pool fuel env clock last_outage p =
     (let p = fst (snd (forget_outage p (last_outage 0)));
          (waits, p) =
            (if has_unmarked p (clock 0) then ([], p)
             else startup_wait (\<lambda>k. clock (k + 2)) (\<lambda>k. last_outage (k + 1)) 0 (min (soonest_expiry p (clock 1)) RETRY_MAX_BACKOFF) p)
      in (waits, register_attempts fuel 0 env p))"

section \<open>What a line goes through\<close>

text \<open>
  The events of a line, in the order its loop handles them. Calls begin and end in handlers of their own; here they
  only change whether the line is busy.
\<close>

datatype line_event =
    Tick tick_env | Notified notify_env sip_request | RefreshFailed refresh_env register_failure
  | RefreshAnswered refresh_env "text_string + nat" bool | CallsChanged bool bool bool

definition line_step :: "line_event \<Rightarrow> loop_state \<Rightarrow> (ip option \<times> (text_string + unit) \<times> loop_state) option" where
  "line_step ev s =
     (case ev of
        Tick env \<Rightarrow> on_idle_tick env s
      | Notified env req \<Rightarrow> (case handle_reg_notify env req s of (_, r) \<Rightarrow> Some (None, r))
      | RefreshFailed env f \<Rightarrow> map_option (Pair None) (fail_registration_refresh env f s)
      | RefreshAnswered env granted swap_failed \<Rightarrow> map_option (Pair None) (confirm_registration_refresh env granted swap_failed s)
      | CallsChanged on placing rings \<Rightarrow>
          Some (None, Inr (), s\<lparr>lp_active_call := on, lp_origination := placing, lp_ringing := rings\<rparr>))"

text \<open>A run that goes on: no event ends the agent. With it, the P-CSCFs that REGISTERs went to.\<close>

fun line_run :: "line_event list \<Rightarrow> loop_state \<Rightarrow> (ip list \<times> loop_state) option" where
  "line_run [] s = Some ([], s)"
| "line_run (ev # evs) s =
     (case line_step ev s of
        Some (at, Inr _, s) \<Rightarrow> map_option (apfst ((@) (case at of Some a \<Rightarrow> [a] | None \<Rightarrow> []))) (line_run evs s)
      | _ \<Rightarrow> None)"

section \<open>Lemmas\<close>

subsection \<open>Calls\<close>

abbreviation calls :: "loop_state \<Rightarrow> bool \<times> bool \<times> bool" where
  "calls s \<equiv> (lp_active_call s, lp_origination s, lp_ringing s)"

named_theorems calls_kept

lemma busy_calls: "calls s = calls s' \<Longrightarrow> busy s = busy s'"
  by (simp add: busy_def)

lemma calls_ladder [calls_kept]:
  "calls (force_renewal s) = calls s" "calls (on_renewal_success now s) = calls s" "calls (snd (count_renewal_failure s)) = calls s"
  "calls (snd (schedule_renewal_retry now s)) = calls s" "calls (restore_ladder s) = calls s" "calls (snd (take_owed_budget_exit s)) = calls s"
  "calls (on_rejected now wall hold s) = calls s" "calls (fail_status wall reason s) = calls s" "calls (fail_gm wall s) = calls s"
  "calls (snd (on_qualifying_endpoint_failure wall s)) = calls s" "calls (note_refresh_failure wall f s) = calls s"
  by (simp_all add: force_renewal_def on_renewal_success_def count_renewal_failure_def Let_def schedule_renewal_retry_def restore_ladder_def
      take_owed_budget_exit_def on_rejected_def fail_status_def fail_gm_def on_qualifying_endpoint_failure_def note_refresh_failure_def
      split: option.split)

lemma calls_owe [calls_kept]: "calls (snd (owe_if_busy b r)) = calls (snd r)"
  by (auto simp: owe_if_busy_def split: prod.split sum.split)

lemma calls_count_loss [calls_kept]: "calls (snd (count_loss now b s)) = calls s"
  by (simp add: count_loss_def calls_kept del: prod.inject)

lemma calls_deregistration [calls_kept]: "calls (snd (on_network_deregistration now rnow wall b d cooldown s)) = calls s"
proof -
  have "calls (snd (on_deactivated rnow early b s)) = calls s" for early s
    using calls_count_loss [of rnow b "restore_ladder (s\<lparr>lp_early_loss_counted := True\<rparr>)"]
    by (auto simp: on_deactivated_def Let_def restore_ladder_def split: prod.split)
  moreover have "calls (snd (on_unregistered now rnow early b w s)) = calls s" for early w s
    using calls_count_loss [of rnow b "restore_ladder (s\<lparr>lp_early_loss_counted := True\<rparr>)"] calls_count_loss [of rnow b "s\<lparr>lp_early_loss_counted := True\<rparr>"]
    by (auto simp: on_unregistered_def honour_wait_def Let_def restore_ladder_def split: prod.split option.split)
  ultimately show ?thesis
    using calls_ladder(1) [of s] calls_ladder(7) [of now wall _ "force_renewal s"]
    by (auto simp: on_network_deregistration_def Let_def split: dereg_event.split)
qed

lemma calls_renewal_failure [calls_kept]: "on_renewal_failure addr f routed wall now s = Some (r, s') \<Longrightarrow> calls s' = calls s"
  using calls_ladder(4) [of now s]
  by (auto simp: on_renewal_failure_def Let_def count_renewal_failure_def schedule_renewal_retry_def force_renewal_def
      split: option.splits if_splits)

lemma calls_mark [calls_kept]: "mark_session_pcscf addr cause routed wall s = Some s' \<Longrightarrow> calls s' = calls s"
  by (auto simp: mark_session_pcscf_def split: if_splits)

lemma calls_sub_action [calls_kept]: "perform_sub_action env a routed wall action s = Some s' \<Longrightarrow> calls s' = calls s"
  using calls_mark calls_ladder(10) by (fastforce simp: perform_sub_action_def split: prod.splits option.splits)

lemma calls_renewed: "renewed env target granted s = Some s' \<Longrightarrow> calls s' = calls s"
  by (auto simp: renewed_def Let_def on_renewal_success_def split: prod.splits dest!: calls_sub_action)

lemma calls_full_renewal: "full_renewal env s = Some (at, r, s') \<Longrightarrow> calls s' = calls s"
  by (auto simp: full_renewal_def Let_def schedule_renewal_retry_def count_renewal_failure_def fail_status_def fail_gm_def
      split: if_splits option.splits prod.splits sum.splits dest!: calls_renewed calls_renewal_failure)

lemma full_renewal_registers: "full_renewal env s = Some (at, r, s') \<Longrightarrow> tk_modem env \<Longrightarrow> tk_hook env = None \<Longrightarrow> at \<noteq> None"
  by (auto simp: full_renewal_def Let_def split: prod.splits sum.splits option.splits)

lemma calls_gate: "renewal_gate env s = Some (at, r, s') \<Longrightarrow> calls s' = calls s"
  by (auto simp: renewal_gate_def Let_def split: if_splits prod.splits maintenance_decision.splits option.splits dest!: calls_full_renewal)

lemma calls_sub_timers: "run_sub_timers env s = Some s' \<Longrightarrow> calls s' = calls s"
  by (auto simp: run_sub_timers_def split: prod.splits option.splits dest!: calls_sub_action)

lemma calls_gm_probe: "run_gm_probe env s = Some s' \<Longrightarrow> calls s' = calls s"
  by (auto simp: run_gm_probe_def split: if_splits prod.splits dest!: calls_mark)

lemma tick_cases:
  assumes "on_idle_tick env s = Some (at, r, s')"
  obtains e where "\<not> busy s" "lp_budget_exit_owed s = Some e" "at = None" "r = Inl e" "s' = s\<lparr>lp_budget_exit_owed := None\<rparr>"
  | s1 s2 where "busy s \<or> lp_budget_exit_owed s = None" "run_sub_timers env s = Some s1" "run_gm_probe env s1 = Some s2"
      "renewal_gate env s2 = Some (at, r, s')"
  using assms
  by (auto simp: on_idle_tick_def take_owed_budget_exit_def Option.bind_eq_Some_conv split: if_splits option.splits)

lemma calls_tick: "on_idle_tick env s = Some (at, r, s') \<Longrightarrow> calls s' = calls s"
  by (erule tick_cases) (auto dest!: calls_sub_timers calls_gm_probe calls_gate)

lemma busy_gate: "renewal_gate env s = Some (at, r, s') \<Longrightarrow> busy s \<Longrightarrow> at = None \<and> r = Inr ()"
  by (auto simp: renewal_gate_def Let_def decide_def split: if_splits prod.splits maintenance_decision.splits option.splits)

lemma busy_tick:
  assumes "on_idle_tick env s = Some (at, r, s')" "busy s" shows "at = None \<and> r = Inr ()"
  using assms(1)
proof (cases rule: tick_cases)
  case (2 s1 s2)
  then have "calls s2 = calls s" using calls_sub_timers [of env s s1] calls_gm_probe [of env s1 s2] by simp
  then have "busy s2" using assms(2) busy_calls by blast
  then show ?thesis using busy_gate 2(4) by blast
qed (use assms(2) in simp_all)

lemma owe_if_busy_exit: "owe_if_busy b r = (Inl e, s) \<Longrightarrow> \<not> b"
  by (auto simp: owe_if_busy_def split: prod.splits sum.splits if_splits)

lemma busy_deregistration: "on_network_deregistration now rnow wall b d cooldown s = (Inl e, s') \<Longrightarrow> \<not> b"
  by (auto simp: on_network_deregistration_def on_deactivated_def on_unregistered_def count_loss_def Let_def
      split: dereg_event.splits if_splits prod.splits dest!: owe_if_busy_exit)

lemma calls_reg_notify: "calls (snd (on_reg_notify now rnow wall b d cooldown s)) = calls s"
proof (cases d)
  case (Some x)
  then show ?thesis using calls_deregistration [of now rnow wall b x cooldown s] by (simp add: on_reg_notify_def)
qed (simp add: on_reg_notify_def)

lemma map_sum_Inl [simp]: "map_sum id f x = Inl e \<longleftrightarrow> x = Inl e" "Inl e = map_sum id f x \<longleftrightarrow> x = Inl e"
  by (cases x; auto)+

lemma map_sum_Inr [simp]: "map_sum id f x = Inr b \<longleftrightarrow> (\<exists>c. x = Inr c \<and> b = f c)"
  by (cases x) auto

lemma note_loss_frame: "\<exists>st. note_loss env d (x, s) = (map_sum id (\<lambda>_. ()) x, s\<lparr>lp_status := st\<rparr>)"
proof (cases "x = Inr True \<and> d \<noteq> None")
  case True
  then show ?thesis by (auto simp: note_loss_def)
next
  case False
  then have "note_loss env d (x, s) = (map_sum id (\<lambda>_. ()) x, s\<lparr>lp_status := lp_status s\<rparr>)"
    by (cases x; cases d) (auto simp: note_loss_def split: bool.split)
  then show ?thesis by blast
qed

text \<open>The line exits on a NOTIFY only when no call is left.\<close>

lemma busy_apply_notify: assumes "apply_reg_notify env d s = (Inl e, s')" shows "\<not> busy s'"
proof -
  let ?s = "make_way env d s"
  obtain x s1 where out: "on_reg_notify (nt_apply_now env) (nt_retry_now env) (nt_wall env) (busy ?s) d (nt_cooldown env) ?s = (x, s1)" by force
  from note_loss_frame [of env d x s1] assms out obtain st where "x = Inl e" "s' = s1\<lparr>lp_status := st\<rparr>"
    by (auto simp: apply_reg_notify_def Let_def)
  then have x: "x = Inl e" and s': "calls s' = calls s1" by simp_all
  have s1: "calls s1 = calls ?s" using calls_reg_notify [of "nt_apply_now env" "nt_retry_now env" "nt_wall env" "busy ?s" d "nt_cooldown env" ?s] out by simp
  from x out have "\<not> busy ?s"
    by (cases d) (auto simp: on_reg_notify_def apfst_def map_prod_def split: prod.splits dest!: busy_deregistration)
  then show ?thesis using s' s1 busy_calls by metis
qed

lemma busy_notify: assumes "handle_reg_notify env req s = (code, Inl e, s')" shows "\<not> busy s'"
proof -
  obtain c w s1 where "answer_reg_notify env req s = (c, w, s1)" by (metis prod_cases3)
  with assms obtain d s2 where "apply_reg_notify env d s1 = (Inl e, s2)" "calls s' = calls s2"
    by (auto simp: handle_reg_notify_def split: option.splits prod.splits)
  then show ?thesis using busy_apply_notify busy_calls by metis
qed

lemma calls_pause [calls_kept]: "calls (honour_pause env f s) = calls s"
  by (simp add: honour_pause_def split: option.split)

lemma refresh_cases:
  assumes "fail_registration_refresh env f s = Some (r, s')"
  obtains "needs_full_registration (rf_status f)" "r = Inr ()" "s' = force_renewal (note_refresh_failure (fr_wall env) f s)"
  | r1 s1 where "on_renewal_failure (fr_target env) f (fr_routed env) (fr_wall env) (fr_now env) (note_refresh_failure (fr_wall env) f s) = Some (r1, s1)"
      "owe_if_busy (busy s) (r1, honour_pause env f s1) = (r, s')"
  using assms by (auto simp: fail_registration_refresh_def Let_def split: if_splits)

lemma refresh_exit:
  assumes "fail_registration_refresh env f s = Some (r, s')"
  shows "calls s' = calls s \<and> (busy s \<longrightarrow> r = Inr ())"
  using assms
proof (cases rule: refresh_cases)
  case 1
  then show ?thesis using calls_ladder(1) [of "note_refresh_failure (fr_wall env) f s"] calls_ladder(11) [of "fr_wall env" f s] by simp
next
  case (2 r1 s1)
  have "calls s' = calls s"
    using calls_renewal_failure [OF 2(1)] calls_owe [of "busy s" "(r1, honour_pause env f s1)"] calls_pause [of env f s1]
      calls_ladder(11) [of "fr_wall env" f s] 2(2) by simp
  then show ?thesis using 2(2) owe_if_busy_exit [of "busy s" "(r1, honour_pause env f s1)"] by (cases r) auto
qed

lemma then_force_exit: "then_force r = (Inl e, s) \<longleftrightarrow> r = (Inl e, s)"
  by (auto simp: then_force_def split: prod.splits sum.splits)

lemma then_force_goes_on: "then_force (r, s) = (Inr u, s') \<longleftrightarrow> r = Inr () \<and> s' = force_renewal s"
  by (cases r) (auto simp: then_force_def)

lemma confirm_exit: "confirm_registration_refresh env granted sw s = Some (Inl e, s') \<Longrightarrow> \<not> busy s'"
proof -
  have exit: "\<not> busy s'" if "fail_registration_refresh env f s0 = Some (Inl e, s')" for f s0
    using refresh_exit [OF that] busy_calls [of s' s0] by auto
  show "confirm_registration_refresh env granted sw s = Some (Inl e, s') \<Longrightarrow> ?thesis"
    by (auto simp: confirm_registration_refresh_def Let_def then_force_exit split: sum.splits if_splits dest: exit)
qed

subsection \<open>What the timers leave alone\<close>

lemma mark_frame: assumes "mark_session_pcscf addr cause routed wall s = Some s'" shows "\<exists>p. s' = s\<lparr>lp_pool := p\<rparr>"
proof (cases "is_marked (lp_pool s) addr wall \<or> \<not> routed")
  case True
  then have "s' = s\<lparr>lp_pool := lp_pool s\<rparr>" using assms by (simp add: mark_session_pcscf_def)
  then show ?thesis by blast
next
  case False
  then show ?thesis using assms by (auto simp: mark_session_pcscf_def)
qed

definition timers_frame :: "loop_state \<Rightarrow> loop_state \<Rightarrow> bool" where
  "timers_frame s s' \<longleftrightarrow>
     calls s' = calls s \<and> lp_consecutive_renewal_failures s' = lp_consecutive_renewal_failures s \<and>
     lp_budget_exit_owed s' = lp_budget_exit_owed s \<and> lp_rejection s' = lp_rejection s \<and>
     lp_next_renewal_attempt s' = lp_next_renewal_attempt s \<and> lp_early_loss_counted s' = lp_early_loss_counted s \<and>
     (lp_force_renewal s \<longrightarrow> lp_force_renewal s')"

lemma timers_frame_refl [simp]: "timers_frame s s" "timers_frame s (s\<lparr>lp_reg_sub := sub\<rparr>)"
  by (simp_all add: timers_frame_def)

lemma timers_frame_trans: "timers_frame s s' \<Longrightarrow> timers_frame s' s'' \<Longrightarrow> timers_frame s s''"
  by (simp add: timers_frame_def)

lemma sub_action_frame: assumes "perform_sub_action env a routed wall action s = Some s'" shows "timers_frame s s'"
proof -
  obtain tr c sub where a: "apply_sub_action env (lp_force_renewal s) 0 action (lp_reg_sub s) = (tr, c, sub)" by (metis prod_cases3)
  show ?thesis
  proof (cases c)
    case (Some cause)
    let ?s = "snd (on_qualifying_endpoint_failure wall (s\<lparr>lp_reg_sub := sub\<rparr>))"
    obtain p where "s' = ?s\<lparr>lp_pool := p\<rparr>" using assms a Some by (auto simp: perform_sub_action_def dest!: mark_frame)
    then show ?thesis by (simp add: timers_frame_def on_qualifying_endpoint_failure_def)
  qed (use assms a in \<open>auto simp: perform_sub_action_def\<close>)
qed

lemma sub_timers_frame: "run_sub_timers env s = Some s' \<Longrightarrow> timers_frame s s'"
  by (auto simp: run_sub_timers_def split: prod.splits option.splits dest!: sub_action_frame intro: timers_frame_trans [OF timers_frame_refl(2)])

lemma gm_probe_frame: "run_gm_probe env s = Some s' \<Longrightarrow> timers_frame s s'"
  by (auto simp: run_gm_probe_def timers_frame_def probe_gm_connection_def split: if_splits prod.splits dest!: mark_frame)

subsection \<open>The budget\<close>

text \<open>A line that goes on with its budget spent owes the exit.\<close>

definition budget_ok :: "loop_state \<Rightarrow> bool" where
  "budget_ok s \<longleftrightarrow> lp_consecutive_renewal_failures s < MAX_CONSECUTIVE_RENEWAL_FAILURES \<or> lp_budget_exit_owed s \<noteq> None"

lemma budget_count: "count_renewal_failure s = (Inr u, s') \<Longrightarrow> budget_ok s'"
  by (auto simp: count_renewal_failure_def Let_def budget_ok_def split: if_splits)

lemma budget_retry: "schedule_renewal_retry now s = (Inr u, s') \<Longrightarrow> budget_ok s'"
  unfolding schedule_renewal_retry_def by (rule budget_count)

lemma budget_owe: "owe_if_busy b (r, s) = (Inr u, s') \<Longrightarrow> (r = Inr u \<Longrightarrow> budget_ok s) \<Longrightarrow> budget_ok s'"
  by (cases r) (auto simp: owe_if_busy_def budget_ok_def split: if_splits)

lemma budget_loss: "count_loss now b s = (Inr u, s') \<Longrightarrow> budget_ok s'"
  unfolding count_loss_def by (cases "schedule_renewal_retry now s") (auto elim!: budget_owe dest: budget_retry)

lemma budget_fields:
  "budget_ok (force_renewal s) = budget_ok s" "budget_ok (on_rejected now wall hold s)" "budget_ok (on_renewal_success now s)"
  "budget_ok (honour_pause env f s) = budget_ok s" "budget_ok (make_way nenv d s) = budget_ok s"
  "budget_ok (s\<lparr>lp_status := st\<rparr>) = budget_ok s" "budget_ok (s\<lparr>lp_reg_sub := sub\<rparr>) = budget_ok s"
  "budget_ok (note_refresh_failure w f s) = budget_ok s" "budget_ok (honour_wait now wait s) = budget_ok s"
  "budget_ok (s\<lparr>lp_active_call := on, lp_origination := placing, lp_ringing := rings\<rparr>) = budget_ok s"
  by (simp_all add: budget_ok_def honour_wait_def force_renewal_def on_rejected_def on_renewal_success_def MAX_CONSECUTIVE_RENEWAL_FAILURES_def honour_pause_def
      make_way_def end_calls_on_rejection_def note_refresh_failure_def Let_def split: option.split)

lemma budget_deregistration:
  assumes "on_network_deregistration now rnow wall b d cooldown s = (Inr u, s')" "budget_ok s" shows "budget_ok s'"
proof -
  have "budget_ok s'" if "on_deactivated rnow early b s1 = (Inr u, s')" "budget_ok s1" for early s1
    using that budget_loss by (fastforce simp: on_deactivated_def Let_def budget_ok_def split: if_splits prod.splits)
  moreover have "budget_ok s'" if "on_unregistered now rnow early b w s1 = (Inr u, s')" "budget_ok s1" for early w s1
    using that budget_loss by (auto simp: on_unregistered_def Let_def budget_fields split: if_splits prod.splits)
  ultimately show ?thesis using assms by (auto simp: on_network_deregistration_def Let_def budget_fields split: dereg_event.splits)
qed

lemma budget_renewal_failure: "on_renewal_failure addr f routed wall now s = Some (Inr u, s') \<Longrightarrow> budget_ok s'"
  by (auto simp: on_renewal_failure_def Let_def split: option.splits if_splits dest: budget_count budget_retry)

lemma budget_refresh:
  assumes "fail_registration_refresh env f s = Some (Inr u, s')" "budget_ok s" shows "budget_ok s'"
  using assms(1)
proof (cases rule: refresh_cases)
  case (2 r1 s1)
  show ?thesis by (rule budget_owe [OF 2(2)]) (use budget_renewal_failure 2(1) in \<open>auto simp: budget_fields\<close>)
qed (simp add: budget_fields assms(2))

lemma budget_confirm:
  assumes "confirm_registration_refresh env granted sw s = Some (Inr u, s')" "budget_ok s" shows "budget_ok s'"
proof -
  have "budget_ok s'" if "map_option then_force (fail_registration_refresh env f s0) = Some (Inr u, s')" "budget_ok s0" for f s0
    using that budget_refresh [of env f s0] by (auto simp: then_force_goes_on budget_fields)
  moreover have "budget_ok (s0\<lparr>lp_gm := g\<rparr>) = budget_ok s0" "budget_ok (s0\<lparr>lp_last_refresh := l\<rparr>) = budget_ok s0"
    "budget_ok (s0\<lparr>lp_registration_refresh := q\<rparr>) = budget_ok s0" for s0 g l q by (simp_all add: budget_ok_def)
  ultimately show ?thesis using assms budget_refresh
    by (auto simp: confirm_registration_refresh_def Let_def budget_fields split: sum.splits if_splits)
qed

lemma budget_notify:
  assumes "handle_reg_notify env req s = (code, Inr u, s')" "budget_ok s" shows "budget_ok s'"
proof -
  obtain c w s1 where a: "answer_reg_notify env req s = (c, w, s1)" by (metis prod_cases3)
  then have s1: "budget_ok s1" using assms(2) by (auto simp: answer_reg_notify_def Let_def budget_fields split: prod.splits notify_match.splits)
  show ?thesis
  proof (cases w)
    case None
    then show ?thesis using assms(1) a s1 by (simp add: handle_reg_notify_def)
  next
    case (Some x)
    obtain d state where x: "x = (d, state)" by force
    let ?s = "make_way env d s1"
    obtain y s2 where y: "on_reg_notify (nt_apply_now env) (nt_retry_now env) (nt_wall env) (busy ?s) d (nt_cooldown env) ?s = (y, s2)" by force
    from note_loss_frame [of env d y s2] obtain st where "note_loss env d (y, s2) = (map_sum id (\<lambda>_. ()) y, s2\<lparr>lp_status := st\<rparr>)" by blast
    then have out: "map_sum id (\<lambda>_. ()) y = Inr u" "budget_ok s' = budget_ok s2"
      using assms(1) a by (auto simp: handle_reg_notify_def Some x apply_reg_notify_def y budget_fields Let_def)
    then have "budget_ok s2" using y s1 budget_deregistration
      by (cases y; cases d) (auto simp: on_reg_notify_def budget_fields apfst_def map_prod_def split: prod.splits)
    then show ?thesis using out(2) by simp
  qed
qed

lemma budget_timers: "timers_frame s s' \<Longrightarrow> budget_ok s' = budget_ok s"
  by (simp add: timers_frame_def budget_ok_def)

lemma budget_renewed: "renewed env target granted s = Some s' \<Longrightarrow> budget_ok s'"
  by (auto simp: renewed_def Let_def split: prod.splits dest!: sub_action_frame)
    (auto simp: timers_frame_def budget_ok_def on_renewal_success_def MAX_CONSECUTIVE_RENEWAL_FAILURES_def)

lemma budget_full_renewal: "full_renewal env s = Some (at, Inr u, s') \<Longrightarrow> budget_ok s'"
  by (auto simp: full_renewal_def Let_def split: if_splits option.splits prod.splits sum.splits
      dest: budget_retry budget_renewed budget_renewal_failure)

lemma budget_gate: "renewal_gate env s = Some (at, Inr u, s') \<Longrightarrow> budget_ok s \<Longrightarrow> budget_ok s'"
  by (auto simp: renewal_gate_def Let_def split: if_splits prod.splits maintenance_decision.splits option.splits dest: budget_full_renewal)
    (auto simp: budget_ok_def)

lemma budget_tick:
  assumes "on_idle_tick env s = Some (at, Inr u, s')" "budget_ok s" shows "budget_ok s'"
  using assms(1)
proof (cases rule: tick_cases)
  case (2 s1 s2)
  then have "budget_ok s2" using assms(2) budget_timers sub_timers_frame gm_probe_frame by blast
  then show ?thesis using 2(4) budget_gate by blast
qed simp

lemma budget_step:
  assumes "line_step ev s = Some (at, Inr u, s')" "budget_ok s" shows "budget_ok s'"
  using assms budget_tick budget_notify budget_refresh budget_confirm
  by (cases ev) (auto simp: line_step_def budget_fields split: prod.splits)

lemma budget_run: "line_run evs s = Some (tried, s') \<Longrightarrow> budget_ok s \<Longrightarrow> budget_ok s'"
proof (induction evs arbitrary: s tried)
  case (Cons ev evs)
  then obtain at u s1 tried1 where "line_step ev s = Some (at, Inr u, s1)" "line_run evs s1 = Some (tried1, s')"
    by (auto split: option.splits prod.splits sum.splits)
  then show ?case using Cons.IH budget_step Cons.prems(2) by blast
qed simp

subsection \<open>Setbacks\<close>

text \<open>
  The two ways a line fails to keep its registration: a renewal that fails, or one that succeeds and whose binding
  the network drops again.
\<close>

datatype setback =
    Refused ip register_failure bool system_time instant
  | Dropped instant instant instant system_time deregistration duration

definition setback_step :: "setback \<Rightarrow> loop_state \<Rightarrow> ((text_string + unit) \<times> loop_state) option" where
  "setback_step b s =
     (case b of
        Refused addr f routed wall now \<Rightarrow> on_renewal_failure addr f routed wall now s
      | Dropped registered now retry_now wall d cooldown \<Rightarrow>
          (let s = on_renewal_success registered s in Some (on_network_deregistration now retry_now wall (busy s) d cooldown s)))"

fun setback_run :: "setback list \<Rightarrow> loop_state \<Rightarrow> ((text_string + unit) \<times> loop_state) option" where
  "setback_run [] s = Some (Inr (), s)"
| "setback_run (b # bs) s =
     (case setback_step b s of
        Some (Inr _, s) \<Rightarrow> setback_run bs s
      | r \<Rightarrow> r)"

text \<open>Dropped before it has settled, and not rejected.\<close>

definition early_setback :: "setback \<Rightarrow> bool" where
  "early_setback b \<longleftrightarrow>
     (case b of Refused _ _ _ _ _ \<Rightarrow> True
      | Dropped registered now _ _ d _ \<Rightarrow> now - registered < REGISTRATION_SETTLE \<and> dr_event d \<noteq> Rejected)"

text \<open>What it is to count one failure.\<close>

definition counted :: "nat \<Rightarrow> (text_string + unit) \<times> loop_state \<Rightarrow> bool" where
  "counted n r \<longleftrightarrow>
     lp_consecutive_renewal_failures (snd r) = n \<and> (fst r = Inr () \<longleftrightarrow> n < MAX_CONSECUTIVE_RENEWAL_FAILURES)"

lemma counted_failure: "counted (lp_consecutive_renewal_failures s + 1) (count_renewal_failure s)"
  by (simp add: counted_def count_renewal_failure_def Let_def not_le)

lemma counted_retry: "counted (lp_consecutive_renewal_failures s + 1) (schedule_renewal_retry now s)"
  using counted_failure [of "s\<lparr>lp_next_renewal_attempt := Some (now + lp_backoff s), lp_backoff := next_backoff (lp_backoff s) RETRY_MAX_BACKOFF\<rparr>"]
  by (simp add: schedule_renewal_retry_def)

lemma counted_loss: "counted (lp_consecutive_renewal_failures s + 1) (count_loss now False s)"
proof -
  have "owe_if_busy False r = r" for r by (auto simp: owe_if_busy_def split: prod.split sum.split)
  then show ?thesis using counted_retry by (simp add: count_loss_def)
qed

lemma counted_renewal_failure:
  assumes "on_renewal_failure addr f routed wall now s = Some r" shows "counted (lp_consecutive_renewal_failures s + 1) r"
proof -
  have "counted (lp_consecutive_renewal_failures s + 1) (schedule_renewal_retry now (s\<lparr>lp_pool := p\<rparr>))" for p
    using counted_retry [of "s\<lparr>lp_pool := p\<rparr>"] by simp
  moreover have "counted (lp_consecutive_renewal_failures s + 1) (count_renewal_failure (force_renewal (s\<lparr>lp_pool := p, lp_next_renewal_attempt := None\<rparr>)))" for p
    using counted_failure [of "force_renewal (s\<lparr>lp_pool := p, lp_next_renewal_attempt := None\<rparr>)"] by (simp add: force_renewal_def)
  ultimately show ?thesis using assms counted_retry [of s now]
    by (auto simp: on_renewal_failure_def Let_def split: option.splits if_splits)
qed

lemma counted_drop:
  assumes "now - registered < REGISTRATION_SETTLE" "dr_event d \<noteq> Rejected"
  shows "counted (lp_consecutive_renewal_failures s + 1)
    (on_network_deregistration now rnow wall False d cooldown (on_renewal_success registered s))"
proof -
  let ?s = "force_renewal (on_renewal_success registered s)"
  let ?r = "restore_ladder (?s\<lparr>lp_early_loss_counted := True\<rparr>)"
  have f: "lp_early_loss_counted ?s = False" "lp_last_registered ?s = registered"
    by (simp_all add: force_renewal_def on_renewal_success_def)
  have "counted (lp_consecutive_renewal_failures s + 1) (count_loss rnow False ?r)"
    using counted_loss [of ?r] by (simp add: restore_ladder_def force_renewal_def on_renewal_success_def)
  then show ?thesis
    using assms f by (cases "dr_event d"; cases "count_loss rnow False ?r")
      (auto simp: on_network_deregistration_def Let_def on_deactivated_def on_unregistered_def honour_wait_def counted_def split: option.split)
qed

lemma setback_counted:
  assumes "setback_step b s = Some r" "early_setback b" "\<not> busy s"
  shows "counted (lp_consecutive_renewal_failures s + 1) r" "\<not> busy (snd r)"
proof -
  have idle: "\<not> busy (on_renewal_success t s)" for t using assms(3) by (simp add: busy_def on_renewal_success_def)
  show "counted (lp_consecutive_renewal_failures s + 1) r"
    using assms(1,2) idle counted_renewal_failure counted_drop
    by (cases b) (auto simp: setback_step_def early_setback_def Let_def)
  have "calls (snd r) = calls s"
    using assms(1) calls_renewal_failure [of _ _ _ _ _ s "fst r" "snd r"] calls_ladder(2) [of _ s] calls_deregistration
    by (cases b) (auto simp: setback_step_def Let_def)
  then show "\<not> busy (snd r)" using assms(3) busy_calls by blast
qed

subsection \<open>Holding off\<close>

text \<open>No attempt before time \<open>u\<close>.\<close>

definition held :: "instant \<Rightarrow> loop_state \<Rightarrow> bool" where
  "held u s \<longleftrightarrow> lp_early_loss_counted s \<and> lp_force_renewal s \<and> (case lp_next_renewal_attempt s of Some t \<Rightarrow> u \<le> t | None \<Rightarrow> False)"

lemma held_fields:
  "held u (force_renewal s) \<longleftrightarrow> held u (s\<lparr>lp_gm := (lp_gm s)\<lparr>gm_force_renewal := True\<rparr>\<rparr>)"
  "held u (s\<lparr>lp_reg_sub := sub\<rparr>) = held u s" "held u (s\<lparr>lp_status := st\<rparr>) = held u s"
  "held u (s\<lparr>lp_active_call := on, lp_origination := placing, lp_ringing := rings\<rparr>) = held u s"
  "held u s \<Longrightarrow> held u (honour_wait now wait s)" "held u s \<Longrightarrow> held u (force_renewal s)" "held u s \<Longrightarrow> held u (make_way nenv d s)"
  by (auto simp: held_def force_renewal_def honour_wait_def not_before_def make_way_def end_calls_on_rejection_def Let_def split: option.splits)

lemma held_timers: "timers_frame s s' \<Longrightarrow> held u s \<Longrightarrow> held u s'"
  by (simp add: timers_frame_def held_def)

lemma held_gate:
  assumes "renewal_gate env s = Some (at, r, s')" "held u s" "tk_now env < u"
  shows "at = None \<and> held u s'"
proof -
  have "\<not> in_place_refresh_possible (tk_has_auth env) (tk_wall env) s" using assms(2) by (simp add: in_place_refresh_possible_def held_def)
  then show ?thesis using assms
    by (auto simp: renewal_gate_def Let_def held_def split: if_splits prod.splits maintenance_decision.splits option.splits)
qed

lemma held_tick:
  assumes "on_idle_tick env s = Some (at, r, s')" "held u s" "tk_now env < u"
  shows "at = None \<and> held u s'"
  using assms(1)
proof (cases rule: tick_cases)
  case (1 e)
  then show ?thesis using assms(2) by (simp add: held_def)
next
  case (2 s1 s2)
  then have "held u s2" using assms(2) held_timers sub_timers_frame gm_probe_frame by blast
  then show ?thesis using held_gate 2(4) assms(3) by blast
qed

lemma held_deregistration:
  assumes "held u s" "dr_event d \<noteq> Rejected" shows "held u (snd (on_network_deregistration now rnow wall b d cooldown s))"
proof -
  have "held u (force_renewal s)" "lp_early_loss_counted (force_renewal s)" using held_fields(6) [OF assms(1)] by (simp_all add: held_def)
  then show ?thesis using assms(2)
    by (cases "dr_event d") (simp_all add: on_network_deregistration_def Let_def on_deactivated_def on_unregistered_def held_fields)
qed

lemma held_apply_notify:
  assumes "held u s" "map_option dr_event d \<noteq> Some Rejected" shows "held u (snd (apply_reg_notify env d s))"
proof -
  let ?s = "make_way env d s"
  obtain x s1 where y: "on_reg_notify (nt_apply_now env) (nt_retry_now env) (nt_wall env) (busy ?s) d (nt_cooldown env) ?s = (x, s1)" by force
  from note_loss_frame [of env d x s1] obtain st where "note_loss env d (x, s1) = (map_sum id (\<lambda>_. ()) x, s1\<lparr>lp_status := st\<rparr>)" by blast
  moreover have "held u s1"
  proof (cases d)
    case None
    then show ?thesis using y held_fields(7) [OF assms(1), of env None] by (auto simp: on_reg_notify_def)
  next
    case (Some a)
    then have "s1 = snd (on_network_deregistration (nt_apply_now env) (nt_retry_now env) (nt_wall env) (busy ?s) a (nt_cooldown env) ?s)"
      using y by (auto simp: on_reg_notify_def apfst_def map_prod_def split: prod.splits)
    then show ?thesis using held_deregistration [OF held_fields(7) [OF assms(1)]] assms(2) Some by simp
  qed
  ultimately show ?thesis by (simp add: apply_reg_notify_def Let_def y held_fields)
qed

lemma held_notify:
  assumes "handle_reg_notify env req s = (code, r, s')" "held u s" "map_option dr_event (evaluate_reg_notify env req) \<noteq> Some Rejected"
  shows "held u s'"
proof -
  obtain c w s1 where a: "answer_reg_notify env req s = (c, w, s1)" by (metis prod_cases3)
  then have s1: "held u s1" and w: "\<And>d st. w = Some (d, st) \<Longrightarrow> d = evaluate_reg_notify env req"
    using assms(2) by (auto simp: answer_reg_notify_def Let_def held_fields split: prod.splits notify_match.splits)
  show ?thesis
  proof (cases w)
    case None
    then show ?thesis using assms(1) a s1 by (simp add: handle_reg_notify_def)
  next
    case (Some x)
    obtain d st where x: "x = (d, st)" by force
    have "held u (snd (apply_reg_notify env d s1))" using held_apply_notify s1 assms(3) w Some x by blast
    then show ?thesis using assms(1) a by (auto simp: handle_reg_notify_def Some x held_fields split: prod.splits)
  qed
qed

text \<open>What may happen while the line holds off: passes before the time is over, NOTIFYs that do not reject it again, calls.\<close>

definition quiet_event :: "instant \<Rightarrow> line_event \<Rightarrow> bool" where
  "quiet_event u ev \<longleftrightarrow>
     (case ev of
        Tick env \<Rightarrow> tk_now env < u
      | Notified env req \<Rightarrow> map_option dr_event (evaluate_reg_notify env req) \<noteq> Some Rejected
      | CallsChanged _ _ _ \<Rightarrow> True
      | _ \<Rightarrow> False)"

lemma held_step: "line_step ev s = Some (at, r, s') \<Longrightarrow> held u s \<Longrightarrow> quiet_event u ev \<Longrightarrow> at = None \<and> held u s'"
  using held_tick held_notify
  by (cases ev) (auto simp: line_step_def quiet_event_def held_fields split: prod.splits)

lemma held_run: "line_run evs s = Some (tried, s') \<Longrightarrow> held u s \<Longrightarrow> list_all (quiet_event u) evs \<Longrightarrow> tried = [] \<and> held u s'"
proof (induction evs arbitrary: s tried)
  case (Cons ev evs)
  then obtain at v s1 tried1 where step: "line_step ev s = Some (at, Inr v, s1)" "line_run evs s1 = Some (tried1, s')"
    "tried = (case at of Some a \<Rightarrow> [a] | None \<Rightarrow> []) @ tried1"
    by (auto split: option.splits prod.splits sum.splits)
  then show ?case using Cons held_step [OF step(1), of u] by simp
qed simp

lemma rejected_held:
  assumes "on_notify req (nt_now env) (lp_reg_sub s) = (NotifyCurrent st, sub)" "evaluate_reg_notify env req = Some d" "dr_event d = Rejected"
  defines "u \<equiv> nt_apply_now env + max (nt_cooldown env) (case dr_retry_after d of Some r \<Rightarrow> r | None \<Rightarrow> 0)"
  shows "\<exists>s'. handle_reg_notify env req s = (200, Inr (), s') \<and> held u s' \<and> lp_pool s' = lp_pool s"
  using assms
  by (simp add: handle_reg_notify_def answer_reg_notify_def Let_def apply_reg_notify_def on_reg_notify_def on_network_deregistration_def note_loss_def
      on_rejected_def held_def force_renewal_def make_way_def end_calls_on_rejection_def)

subsection \<open>Startup\<close>

text \<open>The readings of the clock during the attempts go forward and stay within timer F.\<close>

definition startup_clock :: "system_time \<Rightarrow> 'a startup_env \<Rightarrow> bool" where
  "startup_clock t0 env \<longleftrightarrow>
     (\<forall>n. t0 \<le> se_select env n \<and> se_select env n \<le> se_failed env n \<and> se_failed env n \<le> se_select env (Suc n) \<and>
          se_failed env n \<le> t0 + int Pcscf_Pool.TIMER_F)"

text \<open>The addresses tried so far are known and stay marked; the failure count of every other one can still grow.\<close>

definition tried_marked :: "system_time \<Rightarrow> ip set \<Rightarrow> pcscf_pool \<Rightarrow> bool" where
  "tried_marked t0 T p \<longleftrightarrow>
     bt_inv (pc_marks p) \<and> T \<subseteq> {a. known p a} \<and>
     (\<forall>a \<in> T. \<forall>t. t0 \<le> t \<longrightarrow> t \<le> t0 + int Pcscf_Pool.TIMER_F \<longrightarrow> is_marked p a t) \<and>
     (\<forall>a m. a \<notin> T \<longrightarrow> map_of (pc_marks p) a = Some m \<longrightarrow> mk_failures m < MAX_U32)"

lemma on_failure_returns:
  assumes "\<And>m. map_of (pc_marks p) addr = Some m \<Longrightarrow> mk_failures m < MAX_U32" "now + int FAR_FUTURE \<le> MAX_SYSTEM_TIME"
  shows "on_failure p addr cause now \<noteq> None"
  using assms by (auto simp: on_failure_def Let_def checked_add_def MAX_U32_def split: option.splits failure_cause.splits)

lemma attempt_tried_marked:
  assumes "on_failure (snd (select p now)) a cause now' = Some (m, p', file)" "tried_marked t0 T p" "qualifying cause"
    and "a = sl_addr (choose_pcscf p now)" "t0 \<le> now'" "now' \<le> t0 + int Pcscf_Pool.TIMER_F"
  shows "tried_marked t0 (insert a T) p' \<and> known p' = known p"
proof -
  from on_failure_active [OF assms(1)] assms(3,4) obtain m' where
    p': "p' = (snd (select p now))\<lparr>pc_marks := bt_insert a m' (pc_marks p)\<rparr>" and until: "now' + int Pcscf_Pool.TIMER_F < mk_until m'"
    by (auto simp: select_frame)
  have known: "known p' = known p" using p' select_frame(4) [of p now] by (simp add: known_def fun_eq_iff)
  have "map_of (pc_marks p') b = (if b = a then Some m' else map_of (pc_marks p) b)" "bt_inv (pc_marks p')" for b
    using assms(2) p' by (simp_all add: tried_marked_def map_of_bt_insert bt_inv_insert)
  then show ?thesis using assms(2,4-6) until known choose_known [of p now] by (auto simp: tried_marked_def is_marked_def)
qed

lemma register_attempts_return:
  assumes "startup_clock t0 env" "t0 + int Pcscf_Pool.TIMER_F + int FAR_FUTURE \<le> MAX_SYSTEM_TIME"
    and "tried_marked t0 T p" "T = {} \<or> has_unmarked p (se_select env n)" "card ({a. known p a} - T) \<le> fuel" "0 < fuel"
  shows "\<exists>tried r p'. register_attempts fuel n env p = Some (tried, r, p') \<and> distinct tried \<and> set tried \<subseteq> {a. known p a} - T"
  using assms(3-)
proof (induction fuel arbitrary: n p T)
  case (Suc fuel)
  let ?now = "se_select env n"
  let ?a = "sl_addr (choose_pcscf p ?now)"
  define q where "q = snd (select p ?now)"
  have clk: "t0 \<le> ?now" "?now \<le> se_failed env n" "se_failed env n \<le> se_select env (Suc n)" "se_failed env n \<le> t0 + int Pcscf_Pool.TIMER_F"
    using assms(1) by (simp_all add: startup_clock_def)
  have a: "known p ?a" "?a \<notin> T"
  proof -
    show "known p ?a" by (rule choose_known)
    show "?a \<notin> T"
    proof (cases "T = {}")
      case False
      then have "\<not> is_marked p ?a ?now" using Suc.prems(2) choose_unmarked by blast
      then show ?thesis using Suc.prems(1) clk by (auto simp: tried_marked_def)
    qed simp
  qed
  have sel: "select p ?now = (choose_pcscf p ?now, q)" using select_frame(1) [of p ?now] unfolding q_def by (metis prod.collapse)
  show ?case
  proof (cases "se_register env n ?a")
    case (Inr session)
    then show ?thesis using a by (auto simp: sel)
  next
    case (Inl f)
    show ?thesis
    proof (cases "cause_of f = None \<or> \<not> se_routed env ?a")
      case True
      then show ?thesis using Inl a by (auto simp: sel split: option.split)
    next
      case False
      then obtain cause where cause: "cause_of f = Some cause" "se_routed env ?a" by auto
      have "on_failure q ?a cause (se_failed env n) \<noteq> None"
        using Suc.prems(1) a(2) assms(2) clk by (intro on_failure_returns) (auto simp: tried_marked_def select_frame q_def)
      then obtain m p1 wr where fail: "on_failure q ?a cause (se_failed env n) = Some (m, p1, wr)" by (cases "on_failure q ?a cause (se_failed env n)") auto
      from attempt_tried_marked [OF fail [unfolded q_def] Suc.prems(1) cause_of_qualifying [OF cause(1)] refl] clk
      have p1: "tried_marked t0 (insert ?a T) p1" "known p1 = known p" by auto
      show ?thesis
      proof (cases "next_eligible p1 (se_failed env n) \<noteq> None \<and> sl_reason (choose_pcscf p ?now) \<noteq> AllUnavailable")
        case False
        then show ?thesis using Inl cause fail a by (auto simp: sel)
      next
        case True
        then obtain b where b: "known p1 b" "\<not> is_marked p1 b (se_failed env n)"
          using find_unmarked(2) [of p1 "se_failed env n"] by (auto simp: next_eligible_def)
        have later: "has_unmarked p1 (se_select env (Suc n))"
          using b clk(3) by (auto simp: has_unmarked_iff is_marked_def split: option.splits intro!: exI [of _ b])
        have "b \<notin> insert ?a T" using b(2) p1(1) clk unfolding tried_marked_def by (meson order_trans)
        then have "0 < card ({a. known p1 a} - insert ?a T)" using b(1) finite_known [of p1] by (auto simp: card_gt_0_iff)
        moreover have "card ({a. known p1 a} - insert ?a T) < card ({a. known p a} - T)"
          using a finite_known [of p] p1(2) by (intro psubset_card_mono) auto
        ultimately have "0 < fuel" "card ({a. known p1 a} - insert ?a T) \<le> fuel" using Suc.prems(3) by linarith+
        with Suc.IH [OF p1(1) disjI2 [OF later]] obtain tried r p' where
          "register_attempts fuel (Suc n) env p1 = Some (tried, r, p')" "distinct tried" "set tried \<subseteq> {a. known p1 a} - insert ?a T" by blast
        then show ?thesis using Inl cause fail True a p1(2) by (auto simp: sel)
      qed
    qed
  qed
qed simp

lemma tried_marked_filter: "tried_marked t0 {} p \<Longrightarrow> tried_marked t0 {} (p\<lparr>pc_marks := filter P (pc_marks p)\<rparr>)"
proof -
  assume p: "tried_marked t0 {} p"
  have "map_of (pc_marks p) a = Some m" if "map_of (filter P (pc_marks p)) a = Some m" for a m
  proof -
    have "(a, m) \<in> set (pc_marks p)" using map_of_SomeD [OF that] by simp
    then show ?thesis using p by (simp add: tried_marked_def bt_inv_distinct)
  qed
  then show ?thesis using p by (auto simp: tried_marked_def bt_inv_filter)
qed

lemma forget_outage_frame:
  "known (fst (snd (forget_outage p ou))) = known p" "tried_marked t0 {} p \<Longrightarrow> tried_marked t0 {} (fst (snd (forget_outage p ou)))"
  by (cases ou; simp add: forget_outage_def Let_def known_def fun_eq_iff tried_marked_filter)+

lemma startup_wait_frame:
  "sum_list (fst (startup_wait clock out k left p)) \<le> left \<and> known (snd (startup_wait clock out k left p)) = known p \<and>
   (tried_marked t0 {} p \<longrightarrow> tried_marked t0 {} (snd (startup_wait clock out k left p)))"
proof (induction clock out k left p rule: startup_wait.induct)
  case (1 clock out k left p)
  obtain dropped p1 wr where f: "forget_outage p (out k) = (dropped, p1, wr)" by (metis prod_cases3)
  then have "known p1 = known p" "tried_marked t0 {} p \<longrightarrow> tried_marked t0 {} p1"
    using forget_outage_frame(1) [of p "out k"] forget_outage_frame(2) [of t0 p "out k"] by simp_all
  with 1 [OF _ f [symmetric] refl] show ?case
    by (subst (1 2 3) startup_wait.simps) (auto simp: f)
qed

section \<open>Properties\<close>


definition sample_line :: loop_state where
  "sample_line = new_loop_state 0 False sample_pool
     \<lparr>rs_state = StRegistered, rs_registered_at = Some 0, rs_expires_at = Some (int (secs 3600)), rs_last_failure = None,
      rs_attached = True, rs_rejected_until = None\<rparr>"

definition sample_tick :: "instant \<Rightarrow> tick_env" where
  "sample_tick now =
     \<lparr>tk_poll_now = now, tk_poll_wall = int now, tk_send = sample_env ''a'' now, tk_gm = sample_pass 0, tk_routed = (\<lambda>_. True),
      tk_pcscf = Ipv4 1, tk_has_auth = True, tk_now = now, tk_wall = int now, tk_modem = True, tk_hook = None, tk_source = None,
      tk_register = (\<lambda>_. Inr 3600), tk_inbound = None, tk_after = now, tk_after_wall = int now, tk_resubscribe = sample_env ''b'' now\<rparr>"

lemma sample_line_fields [simp]:
  "busy sample_line = False" "lp_consecutive_renewal_failures sample_line = 0" "budget_ok sample_line" "lp_backoff sample_line = secs 5"
  by (simp_all add: sample_line_def new_loop_state_def busy_def budget_ok_def MAX_CONSECUTIVE_RENEWAL_FAILURES_def RETRY_INITIAL_BACKOFF_def)


text \<open>
  C17: A spent budget always reaches the supervisor. However the line got here, if it has counted six failures in a row and
  is still running (because a call held the exit back), the first pass of the idle loop without a call ends the agent.
\<close>

theorem spent_budget_exits:
  assumes "line_run evs (new_loop_state now periodic pool status) = Some (tried, s)"
    and "MAX_CONSECUTIVE_RENEWAL_FAILURES \<le> lp_consecutive_renewal_failures s" "\<not> busy s"
  shows "\<exists>e s'. on_idle_tick env s = Some (None, Inl e, s')"
proof -
  have "budget_ok (new_loop_state now periodic pool status)"
    by (simp add: budget_ok_def new_loop_state_def MAX_CONSECUTIVE_RENEWAL_FAILURES_def)
  from budget_run [OF assms(1) this] assms(2) obtain e where "lp_budget_exit_owed s = Some e" by (auto simp: budget_ok_def)
  then show ?thesis using assms(3) by (simp add: on_idle_tick_def take_owed_budget_exit_def)
qed

text \<open>Six refreshes fail during a call, for a reason that is not the P-CSCF's.\<close>

definition sample_failure :: register_failure where
  "sample_failure = \<lparr>rf_error = [], rf_status = Some 503, rf_retry_after = None\<rparr>"

definition sample_refresh :: "instant \<Rightarrow> refresh_env" where
  "sample_refresh now = \<lparr>fr_wall = int now, fr_now = now, fr_pause_now = now, fr_target = Ipv4 1, fr_routed = True\<rparr>"

lemma sample_refresh_fails:
  "fail_registration_refresh (sample_refresh now) sample_failure s =
     Some (owe_if_busy (busy s) (schedule_renewal_retry now (note_refresh_failure (int now) sample_failure s)))"
proof -
  have "cause_of sample_failure = None" "\<not> needs_full_registration (rf_status sample_failure)"
    by (simp_all add: sample_failure_def cause_of_def needs_full_registration_def)
  moreover have "honour_pause env sample_failure = id" for env
    by (simp add: honour_pause_def sample_failure_def fun_eq_iff)
  moreover have "apsnd id r = r" for r :: "(text_string + unit) \<times> loop_state" by (cases r) simp
  ultimately show ?thesis by (simp add: fail_registration_refresh_def Let_def on_renewal_failure_def sample_refresh_def)
qed

lemma sample_busy_failures:
  assumes "busy s"
  shows "\<exists>s'. line_run (replicate n (RefreshFailed (sample_refresh 0) sample_failure)) s = Some ([], s') \<and> busy s' \<and>
    lp_consecutive_renewal_failures s' = lp_consecutive_renewal_failures s + n"
  using assms
proof (induction n arbitrary: s)
  case (Suc n)
  obtain r s0 where r: "schedule_renewal_retry 0 (note_refresh_failure (int 0) sample_failure s) = (r, s0)" by force
  obtain s1 where s1: "owe_if_busy True (r, s0) = (Inr (), s1)" "calls s1 = calls s0"
    "lp_consecutive_renewal_failures s1 = lp_consecutive_renewal_failures s0" by (cases r) (simp_all add: owe_if_busy_def)
  have "lp_consecutive_renewal_failures s0 = lp_consecutive_renewal_failures s + 1"
    using counted_retry [of "note_refresh_failure (int 0) sample_failure s" 0] r by (simp add: counted_def note_refresh_failure_def Let_def)
  moreover have "calls s0 = calls s"
    using calls_ladder(4) [of 0 "note_refresh_failure (int 0) sample_failure s"] calls_ladder(11) [of "int 0" sample_failure s] r by simp
  ultimately have s1': "busy s1" "lp_consecutive_renewal_failures s1 = lp_consecutive_renewal_failures s + 1"
    using s1(2,3) Suc.prems busy_calls [of s1 s] by simp_all
  have "line_step (RefreshFailed (sample_refresh 0) sample_failure) s = Some (None, Inr (), s1)"
    using Suc.prems r s1(1) by (simp add: line_step_def sample_refresh_fails)
  then show ?case using Suc.IH [OF s1'(1)] s1'(2) by auto
qed simp

lemma line_run_append:
  "line_run (es @ fs) s = (case line_run es s of None \<Rightarrow> None | Some (tried, s) \<Rightarrow> map_option (apfst ((@) tried)) (line_run fs s))"
proof (induction es arbitrary: s)
  case Nil
  then show ?case by (cases "line_run fs s") auto
next
  case (Cons e es)
  then show ?case by (auto simp: option.map_comp comp_def apfst_def map_prod_def split_beta split: option.splits sum.splits)
qed

theorem spent_budget_exits_witness:
  "\<exists>tried s e s'. line_run (CallsChanged True False False # replicate 6 (RefreshFailed (sample_refresh 0) sample_failure) @
       [CallsChanged False False False]) sample_line = Some (tried, s) \<and>
     on_idle_tick (sample_tick 0) s = Some (None, Inl e, s')"
proof -
  let ?s = "sample_line\<lparr>lp_active_call := True, lp_origination := False, lp_ringing := False\<rparr>"
  have "busy ?s" by (simp add: busy_def)
  from sample_busy_failures [OF this, of 6] obtain s1 where s1:
    "line_run (replicate 6 (RefreshFailed (sample_refresh 0) sample_failure)) ?s = Some ([], s1)" "lp_consecutive_renewal_failures s1 = 6" by auto
  let ?t = "s1\<lparr>lp_active_call := False, lp_origination := False, lp_ringing := False\<rparr>"
  have run: "line_run (CallsChanged True False False # replicate 6 (RefreshFailed (sample_refresh 0) sample_failure) @
      [CallsChanged False False False]) sample_line = Some ([], ?t)"
    using s1(1) by (simp add: line_step_def line_run_append)
  moreover have "\<exists>e s'. on_idle_tick (sample_tick 0) ?t = Some (None, Inl e, s')"
    by (rule spent_budget_exits [OF run [unfolded sample_line_def]])
      (use s1(2) in \<open>simp_all add: MAX_CONSECUTIVE_RENEWAL_FAILURES_def busy_def\<close>)
  ultimately show ?thesis by blast
qed

text \<open>
  C13: A network that keeps the line from staying registered is left to the supervisor after exactly six setbacks in a row,
  and not before. A setback is a renewal that fails, for whatever reason and with or without another P-CSCF to go
  to, or one that succeeds and whose binding the network takes away within a minute without rejecting it: accepting
  every REGISTER and dropping the binding at once does not keep the line in a loop.
\<close>

theorem failing_line_exits:
  assumes "setback_run bs s = Some (r, s')" "list_all early_setback bs" "\<not> busy s"
    and "lp_consecutive_renewal_failures s < MAX_CONSECUTIVE_RENEWAL_FAILURES"
  shows "r = Inr () \<longleftrightarrow> lp_consecutive_renewal_failures s + length bs < MAX_CONSECUTIVE_RENEWAL_FAILURES"
  using assms
proof (induction bs arbitrary: s)
  case (Cons b bs)
  then obtain x s1 where step: "setback_step b s = Some (x, s1)" by (cases "setback_step b s") auto
  note one = setback_counted [OF step _ Cons.prems(3)]
  show ?case
  proof (cases x)
    case (Inl e)
    then show ?thesis using one(1) Cons.prems(1,2) step by (auto simp: counted_def)
  next
    case (Inr u)
    then have "setback_run bs s1 = Some (r, s')" using Cons.prems(1) step by simp
    from Cons.IH [OF this] show ?thesis using one Cons.prems(2) Inr by (auto simp: counted_def)
  qed
qed simp

definition sample_drop :: setback where
  "sample_drop = Dropped 0 (secs 8) (secs 8) 0 \<lparr>dr_event = Deactivated, dr_retry_after = None, dr_scope = BindingRemoved\<rparr> (secs 600)"

lemma drops_return: "list_all (\<lambda>b. \<exists>t now rnow wall d c. b = Dropped t now rnow wall d c) bs \<Longrightarrow> setback_run bs s \<noteq> None"
proof (induction bs arbitrary: s)
  case (Cons b bs)
  then obtain r s1 where "setback_step b s = Some (r, s1)" by (auto simp: setback_step_def Let_def) (metis surj_pair)
  then show ?case using Cons by (cases r) simp_all
qed simp

theorem failing_line_exits_witness:
  "\<exists>e s'. setback_run (replicate 6 sample_drop) sample_line = Some (Inl e, s')"
proof -
  have "setback_run (replicate 6 sample_drop) sample_line \<noteq> None"
    by (rule drops_return) (auto simp: list_all_iff sample_drop_def)
  then obtain r s' where run: "setback_run (replicate 6 sample_drop) sample_line = Some (r, s')" by auto
  have "r \<noteq> Inr ()"
    using failing_line_exits [OF run]
    by (simp add: list_all_iff early_setback_def sample_drop_def REGISTRATION_SETTLE_def MAX_CONSECUTIVE_RENEWAL_FAILURES_def)
  then show ?thesis using run by (cases r) auto
qed

text \<open>
  C14: A rejection is held off for as long as the network or the configuration asks, as long as no refresh in place that
  was already in flight ends meanwhile. After a NOTIFY that rejects the registration no pass starts a registration before
  the later of the cooldown and the network's own delay is over, whatever further NOTIFYs say short of rejecting it again
  and whatever calls come and go; and the rejection itself never ends the agent.
\<close>

theorem rejection_held_off:
  assumes "on_notify req (nt_now env) (lp_reg_sub s) = (NotifyCurrent st, sub)"
    and "evaluate_reg_notify env req = Some d" "dr_event d = Rejected"
    and "list_all (quiet_event (nt_apply_now env + max (nt_cooldown env) (case dr_retry_after d of Some r \<Rightarrow> r | None \<Rightarrow> 0))) evs"
  shows "(\<exists>s'. line_step (Notified env req) s = Some (None, Inr (), s')) \<and>
    (\<forall>tried s'. line_run (Notified env req # evs) s = Some (tried, s') \<longrightarrow> tried = [])"
proof -
  from rejected_held [OF assms(1-3)] obtain s1 where s1: "handle_reg_notify env req s = (200, Inr (), s1)"
    "held (nt_apply_now env + max (nt_cooldown env) (case dr_retry_after d of Some r \<Rightarrow> r | None \<Rightarrow> 0)) s1" by blast
  then have step: "line_step (Notified env req) s = Some (None, Inr (), s1)" by (simp add: line_step_def)
  then show ?thesis using held_run [OF _ s1(2) assms(4)] by (auto split: option.splits)
qed

text \<open>The only contact of the document is rejected, in the dialog of the current subscription.\<close>

definition sample_reject :: sip_request where
  "sample_reject = (sample_notify ''a'')\<lparr>rq_body := lit ''<contact state=\"terminated\" event=\"rejected\"/>''\<rparr>"

definition sample_notify_env :: notify_env where
  "sample_notify_env =
     \<lparr>nt_now = 0, nt_apply_now = 0, nt_retry_now = 0, nt_wall = 0, nt_awaiting_cancel = False, nt_rfc3339 = (\<lambda>_. []), nt_cooldown = secs 600,
      nt_imei = [], nt_contact_addr = sample_address\<rparr>"

lemma sample_reject_entry:
  "contact_blocks (rq_body sample_reject) = [\<lparr>cb_text = rq_body sample_reject, cb_registration_tag = None\<rparr>]"
  "contact_uri_addr (rq_body sample_reject) = None"
  "parse_contact_attrs \<lparr>cb_text = rq_body sample_reject, cb_registration_tag = None\<rparr> =
     Some \<lparr>rc_state = lit ''terminated'', rc_event = lit ''rejected'', rc_addr = None, rc_retry_after = None, rc_registration_state = None\<rparr>"
  by (simp_all add: sample_reject_def contact_blocks_def lit_def contact_blocks_from.simps starts_with_def contact_length_def
      enclosing_registration_tag_def str_rfind_def contact_uri_addr_def parse_contact_attrs_def extract_attr_def)

lemma sample_reject_headers: "header sample_reject = header (sample_notify ''a'')"
  by (simp add: sample_reject_def header_def)

lemma sample_reject_evaluated:
  "\<exists>scope. evaluate_reg_notify sample_notify_env sample_reject = Some \<lparr>dr_event = Rejected, dr_retry_after = None, dr_scope = scope\<rparr>"
proof -
  let ?c = "\<lparr>rc_state = lit ''terminated'', rc_event = lit ''rejected'', rc_addr = None, rc_retry_after = None, rc_registration_state = None\<rparr>"
  have own: "oc_entries (find_own_contacts (rq_body sample_reject) [] sample_address) = [?c]"
    by (simp add: find_own_contacts_def sample_reject_entry block_standing_def echoes_imei_def List.map_filter_simps)
  have "dereg_from_contact ?c = Some Rejected"
    by (simp add: dereg_from_contact_def lit_def to_ascii_lowercase_def ascii_lower_def eq_ignore_ascii_case_def)
  moreover have "header sample_reject (lit ''Subscription-State'') = Some (lit ''active'')"
    unfolding sample_reject_headers
    by (simp add: sample_notify_def header_def header_in_def eq_ignore_ascii_case_def to_ascii_lowercase_def ascii_lower_def lit_def)
  ultimately show ?thesis
    by (simp add: evaluate_reg_notify_def sample_notify_env_def classify_reg_notify_def Let_def own sample_state List.map_filter_simps)
qed

lemma sample_reject_current:
  assumes "rg_current s = Some (sample_sub ''a'' t)"
  shows "\<exists>st sub. on_notify sample_reject now s = (NotifyCurrent st, sub)"
proof -
  have "notify_ids sample_reject = Some (lit ''a'', lit ''t'')"
    using sample_notify_ids [of "''a''"] unfolding notify_ids_def sample_reject_headers .
  then show ?thesis using assms by (simp add: on_notify_def sample_sub_def Let_def)
qed

lemma inactive_pool_returns:
  assumes "pc_active (lp_pool s) = None"
  shows "perform_sub_action env a routed wall action s \<noteq> None" "run_sub_timers tick s \<noteq> None"
proof -
  have mark: "mark_session_pcscf a cause routed wall s \<noteq> None" if "pc_active (lp_pool s) = None" for a cause routed wall s
    using that by (simp add: mark_session_pcscf_def on_failure_def)
  have act: "perform_sub_action env a routed wall action s \<noteq> None" if "pc_active (lp_pool s) = None" for env a routed wall action s
  proof -
    have "pc_active (lp_pool (snd (on_qualifying_endpoint_failure wall (s\<lparr>lp_reg_sub := sub\<rparr>)))) = None" for sub
      using that by (simp add: on_qualifying_endpoint_failure_def)
    then show ?thesis using mark by (auto simp: perform_sub_action_def simp del: not_None_eq split: prod.split option.split)
  qed
  show "perform_sub_action env a routed wall action s \<noteq> None" by (rule act [OF assms])
  show "run_sub_timers tick s \<noteq> None" using act assms by (auto simp: run_sub_timers_def simp del: not_None_eq split: prod.split option.split)
qed

lemma busy_tick_returns:
  assumes "busy s" "pc_active (lp_pool s) = None" shows "\<exists>s'. on_idle_tick env s = Some (None, Inr (), s')"
proof -
  obtain s1 where s1: "run_sub_timers env s = Some s1" using inactive_pool_returns(2) [OF assms(2), of env] by blast
  then have "busy s1" using assms(1) calls_sub_timers busy_calls by blast
  then have "on_idle_tick env s = renewal_gate env s1" "renewal_gate env s1 \<noteq> None"
    using assms(1) s1 by (simp_all add: on_idle_tick_def take_owed_budget_exit_def run_gm_probe_def renewal_gate_def decide_def Let_def)
  then show ?thesis using busy_tick assms(1) by fastforce
qed

theorem rejection_held_off_witness:
  "\<exists>s'. line_run [Notified sample_notify_env sample_reject, CallsChanged True False False, Tick (sample_tick (secs 599))]
     (sample_line\<lparr>lp_reg_sub := new_reg_subscription\<lparr>rg_current := Some (sample_sub ''a'' 0)\<rparr>\<rparr>) = Some ([], s')"
proof -
  let ?s = "sample_line\<lparr>lp_reg_sub := new_reg_subscription\<lparr>rg_current := Some (sample_sub ''a'' 0)\<rparr>\<rparr>"
  let ?evs = "[CallsChanged True False False, Tick (sample_tick (secs 599))]"
  obtain st sub where n: "on_notify sample_reject (nt_now sample_notify_env) (lp_reg_sub ?s) = (NotifyCurrent st, sub)"
    using sample_reject_current [of "lp_reg_sub ?s" 0 "nt_now sample_notify_env"] by auto
  obtain scope where d: "evaluate_reg_notify sample_notify_env sample_reject = Some \<lparr>dr_event = Rejected, dr_retry_after = None, dr_scope = scope\<rparr>"
    using sample_reject_evaluated by blast
  obtain s1 where s1: "handle_reg_notify sample_notify_env sample_reject ?s = (200, Inr (), s1)" "lp_pool s1 = lp_pool ?s"
    using rejected_held [OF n d] by auto
  let ?t = "s1\<lparr>lp_active_call := True, lp_origination := False, lp_ringing := False\<rparr>"
  have "pc_active (lp_pool ?t) = None" using s1(2) by (simp add: sample_line_def new_loop_state_def sample_pool_eq)
  moreover have "busy ?t" by (simp add: busy_def)
  ultimately obtain s2 where "on_idle_tick (sample_tick (secs 599)) ?t = Some (None, Inr (), s2)" using busy_tick_returns by blast
  then obtain tried where run: "line_run (Notified sample_notify_env sample_reject # ?evs) ?s = Some (tried, s2)" using s1(1) by (simp add: line_step_def)
  have "tried = []"
    using rejection_held_off [OF n d, of ?evs] run by (simp add: quiet_event_def sample_tick_def sample_notify_env_def)
  then show ?thesis using run by blast
qed

text \<open>
  C39: Only NOTIFYs respect that time. A refresh that was in flight when the rejection came, and that is now refused with a
  status that calls for no full registration, puts the next attempt on the ladder, seconds away, and the next pass of
  the idle loop after that registers although the time the rejection asked for is not over.
\<close>

theorem refresh_failure_cuts_hold:
  assumes "lp_rejection s = Some hold" "lp_force_renewal s" "\<not> busy s" "lp_budget_exit_owed s = None"
    and "lp_consecutive_renewal_failures s + 1 < MAX_CONSECUTIVE_RENEWAL_FAILURES"
    and "cause_of f = None" "\<not> needs_full_registration (rf_status f)" "rf_retry_after f = None"
    and "fr_now env + lp_backoff s \<le> tk_now tick" "tk_now tick < rj_until hold" "tk_modem tick" "tk_hook tick = None"
  shows "\<exists>s'. fail_registration_refresh env f s = Some (Inr (), s') \<and> lp_rejection s' = Some hold \<and>
    (\<forall>at r s''. on_idle_tick tick s' = Some (at, r, s'') \<longrightarrow> at \<noteq> None)"
proof -
  define s' where "s' = snd (schedule_renewal_retry (fr_now env) (note_refresh_failure (fr_wall env) f s))"
  have retry: "schedule_renewal_retry (fr_now env) (note_refresh_failure (fr_wall env) f s) = (Inr (), s')"
    using counted_retry [of "note_refresh_failure (fr_wall env) f s" "fr_now env"] assms(5)
    by (cases "schedule_renewal_retry (fr_now env) (note_refresh_failure (fr_wall env) f s)")
      (auto simp: counted_def s'_def note_refresh_failure_def Let_def)
  have s': "lp_rejection s' = Some hold" "lp_force_renewal s'" "\<not> busy s'" "lp_budget_exit_owed s' = None"
    "lp_next_renewal_attempt s' = Some (fr_now env + lp_backoff s)"
    using assms(1-4) by (simp_all add: s'_def schedule_renewal_retry_def count_renewal_failure_def note_refresh_failure_def Let_def busy_def)
  have "at \<noteq> None" if "on_idle_tick tick s' = Some (at, r, s'')" for at r s''
    using that
  proof (cases rule: tick_cases)
    case (2 s1 s2)
    then have frame: "timers_frame s' s2" using sub_timers_frame gm_probe_frame timers_frame_trans by blast
    then have s2: "lp_force_renewal s2" "lp_next_renewal_attempt s2 = Some (fr_now env + lp_backoff s)" "\<not> busy s2"
      using s' busy_calls [of s2 s'] by (simp_all add: timers_frame_def)
    then have "renewal_gate tick s2 = full_renewal tick (s2\<lparr>lp_maintenance := lp_maintenance s2, lp_registration_refresh := False, lp_rejection := None\<rparr>)"
      using assms(9) by (simp add: renewal_gate_def in_place_refresh_possible_def decide_def)
    then show ?thesis using 2(4) assms(11,12) full_renewal_registers by metis
  qed (use s'(4) in simp)
  moreover have "fail_registration_refresh env f s = Some (Inr (), s')"
    using assms(3,6-8) retry by (simp add: fail_registration_refresh_def Let_def on_renewal_failure_def honour_pause_def owe_if_busy_def)
  ultimately show ?thesis using s'(1) by blast
qed

theorem refresh_failure_cuts_hold_witness:
  "\<exists>s' a r s''. fail_registration_refresh (sample_refresh (secs 1)) sample_failure
       (force_renewal (sample_line\<lparr>lp_rejection := Some \<lparr>rj_until = secs 600, rj_until_wall = 0\<rparr>, lp_next_renewal_attempt := Some (secs 600)\<rparr>)) =
       Some (Inr (), s') \<and> on_idle_tick (sample_tick (secs 6)) s' = Some (Some a, r, s'')"
proof -
  let ?s = "force_renewal (sample_line\<lparr>lp_rejection := Some \<lparr>rj_until = secs 600, rj_until_wall = 0\<rparr>, lp_next_renewal_attempt := Some (secs 600)\<rparr>)"
  have s: "lp_rejection ?s = Some \<lparr>rj_until = secs 600, rj_until_wall = 0\<rparr>" "lp_force_renewal ?s" "\<not> busy ?s" "lp_budget_exit_owed ?s = None"
    "lp_consecutive_renewal_failures ?s + 1 < MAX_CONSECUTIVE_RENEWAL_FAILURES" "lp_backoff ?s = secs 5"
    using sample_line_fields by (simp_all add: force_renewal_def busy_def MAX_CONSECUTIVE_RENEWAL_FAILURES_def)
      (simp add: sample_line_def new_loop_state_def)
  obtain s' where s': "fail_registration_refresh (sample_refresh (secs 1)) sample_failure ?s = Some (Inr (), s')"
    "\<forall>at r s''. on_idle_tick (sample_tick (secs 6)) s' = Some (at, r, s'') \<longrightarrow> at \<noteq> None"
    using refresh_failure_cuts_hold [OF s(1-5), of sample_failure "sample_refresh (secs 1)" "sample_tick (secs 6)"] s(6)
    by (simp add: sample_failure_def cause_of_def needs_full_registration_def sample_refresh_def sample_tick_def) blast
  have "owe_if_busy False r = r" for r by (auto simp: owe_if_busy_def split: prod.split sum.split)
  then have "s' = snd (schedule_renewal_retry (secs 1) (note_refresh_failure (int (secs 1)) sample_failure ?s))"
    using s'(1) s(3) by (simp add: sample_refresh_fails)
  then have fields: "lp_reg_sub s' = new_reg_subscription" "lp_force_renewal s'" "\<not> busy s'" "lp_budget_exit_owed s' = None"
    using s(3) by (simp_all add: schedule_renewal_retry_def count_renewal_failure_def note_refresh_failure_def Let_def force_renewal_def busy_def
        sample_line_def new_loop_state_def)
  obtain s1 where s1: "run_sub_timers (sample_tick (secs 6)) s' = Some s1" "\<not> busy s1" "lp_force_renewal s1"
    using fields by (simp add: run_sub_timers_def poll_def prune_def new_reg_subscription_def send_due_def busy_def)
  have "run_gm_probe (sample_tick (secs 6)) s1 = Some s1"
    using s1(2,3) by (simp add: run_gm_probe_def probe_gm_connection_def)
  moreover have "renewal_gate (sample_tick (secs 6)) s1 \<noteq> None"
  proof -
    have renews: "full_renewal (sample_tick (secs 6)) s2 \<noteq> None" for s2
    proof -
      have "perform_sub_action (sample_env n t) a routed wall (SendInitial e) x \<noteq> None" for n t a routed wall e x
        by (simp add: perform_sub_action_def apply_sub_action.simps perform_action_def send_subscribe_def sample_env_def)
      then show ?thesis
        by (auto simp: full_renewal_def Let_def sample_tick_def renewed_def on_new_registration_def simp del: not_None_eq split: prod.split option.split)
    qed
    then show ?thesis by (simp add: renewal_gate_def Let_def del: not_None_eq split: prod.split maintenance_decision.split)
  qed
  ultimately have "on_idle_tick (sample_tick (secs 6)) s' \<noteq> None"
    using fields s1(1) by (simp add: on_idle_tick_def take_owed_budget_exit_def)
  then obtain at r s'' where tick: "on_idle_tick (sample_tick (secs 6)) s' = Some (at, r, s'')" by auto
  with s'(2) obtain a where "at = Some a" by blast
  then show ?thesis using s'(1) tick by blast
qed

text \<open>
  C40: A line that has recovered exits all the same. When the budget was spent during a call, a later refresh in place
  that the network grants sets the count back to zero and the line is registered again; but the exit stays owed, and
  the first pass without the call ends the agent.
\<close>

theorem recovered_line_still_exits:
  assumes "lp_budget_exit_owed s = Some e" "0 < granted"
  shows "\<exists>s1. line_step (RefreshAnswered env (Inr granted) False) s = Some (None, Inr (), s1) \<and>
    rs_state (lp_status s1) = StRegistered \<and> lp_consecutive_renewal_failures s1 = 0 \<and>
    (\<exists>s2. on_idle_tick tick (s1\<lparr>lp_active_call := False, lp_origination := False, lp_ringing := False\<rparr>) = Some (None, Inl e, s2))"
proof -
  obtain s1 where s1: "confirm_registration_refresh env (Inr granted) False s = Some (Inr (), s1)" "rs_state (lp_status s1) = StRegistered"
    "lp_consecutive_renewal_failures s1 = 0" "lp_budget_exit_owed s1 = Some e"
    using assms by (simp add: confirm_registration_refresh_def Let_def on_renewal_success_def)
  then show ?thesis by (simp add: line_step_def on_idle_tick_def take_owed_budget_exit_def busy_def)
qed

theorem recovered_line_still_exits_witness:
  "\<exists>s s1 e s2. line_run (CallsChanged True False False # replicate 6 (RefreshFailed (sample_refresh 0) sample_failure)) sample_line = Some ([], s) \<and>
     line_step (RefreshAnswered (sample_refresh (secs 200)) (Inr 3600) False) s = Some (None, Inr (), s1) \<and> rs_state (lp_status s1) = StRegistered \<and>
     on_idle_tick (sample_tick (secs 300)) (s1\<lparr>lp_active_call := False, lp_origination := False, lp_ringing := False\<rparr>) = Some (None, Inl e, s2)"
proof -
  let ?s = "sample_line\<lparr>lp_active_call := True, lp_origination := False, lp_ringing := False\<rparr>"
  have "busy ?s" by (simp add: busy_def)
  from sample_busy_failures [OF this, of 6] obtain s where s:
    "line_run (replicate 6 (RefreshFailed (sample_refresh 0) sample_failure)) ?s = Some ([], s)" "lp_consecutive_renewal_failures s = 6" by auto
  have "budget_ok ?s" using sample_line_fields(3) by (simp add: budget_ok_def)
  from budget_run [OF s(1) this] s(2) obtain e where e: "lp_budget_exit_owed s = Some e" by (auto simp: budget_ok_def MAX_CONSECUTIVE_RENEWAL_FAILURES_def)
  have "line_run (CallsChanged True False False # replicate 6 (RefreshFailed (sample_refresh 0) sample_failure)) sample_line = Some ([], s)"
    using s(1) by (simp add: line_step_def)
  then show ?thesis using recovered_line_still_exits [OF e, of 3600 "sample_refresh (secs 200)" "sample_tick (secs 300)"] by auto
qed

text \<open>
  C19: The registration at startup ends. If all attempts together stay within timer F, the clock goes forward and no failure
  count is at its limit, the loop over the P-CSCFs returns after at most as many attempts as there are addresses and tries
  none of them twice. Before it the agent waits at most two minutes for a mark to end.
\<close>

theorem startup_tries_each_once:
  assumes "startup_clock t0 env" "t0 + int Pcscf_Pool.TIMER_F + int FAR_FUTURE \<le> MAX_SYSTEM_TIME"
    and "bt_inv (pc_marks p)" "\<forall>(a, m) \<in> set (pc_marks p). mk_failures m < MAX_U32"
  shows "sum_list (fst (register_via_pool (card {a. known p a}) env clock last_outage p)) \<le> RETRY_MAX_BACKOFF \<and>
    (\<exists>tried r p'. snd (register_via_pool (card {a. known p a}) env clock last_outage p) = Some (tried, r, p') \<and>
       distinct tried \<and> set tried \<subseteq> {a. known p a})"
proof -
  let ?p0 = "fst (snd (forget_outage p (last_outage 0)))"
  let ?wait = "startup_wait (\<lambda>k. clock (k + 2)) (\<lambda>k. last_outage (k + 1)) 0 (min (soonest_expiry ?p0 (clock 1)) RETRY_MAX_BACKOFF) ?p0"
  have "tried_marked t0 {} p" using assms(3,4) by (auto simp: tried_marked_def dest: map_of_SomeD)
  then have p0: "tried_marked t0 {} ?p0" "known ?p0 = known p" by (simp_all add: forget_outage_frame)
  obtain waits q where q: "(if has_unmarked ?p0 (clock 0) then ([], ?p0) else ?wait) = (waits, q)" by force
  have wait: "sum_list waits \<le> RETRY_MAX_BACKOFF" "tried_marked t0 {} q" "known q = known p"
    using q p0 startup_wait_frame [of "\<lambda>k. clock (k + 2)" "\<lambda>k. last_outage (k + 1)" 0 "min (soonest_expiry ?p0 (clock 1)) RETRY_MAX_BACKOFF" ?p0 t0]
    by (auto split: if_splits)
  have "0 < card {a. known p a}" using finite_known [of p] by (auto simp: card_gt_0_iff known_def)
  from register_attempts_return [OF assms(1,2) wait(2) _ _ this, of 0] wait(3)
  obtain tried r p' where "register_attempts (card {a. known p a}) 0 env q = Some (tried, r, p')" "distinct tried" "set tried \<subseteq> {a. known p a}" by auto
  moreover have "register_via_pool (card {a. known p a}) env clock last_outage p = (waits, register_attempts (card {a. known p a}) 0 env q)"
    using q by (simp add: register_via_pool_def Let_def split_beta)
  ultimately show ?thesis using wait(1) by simp
qed

text \<open>The first two P-CSCFs ask for a pause of ten minutes, the third one grants the registration.\<close>

definition sample_startup :: "nat startup_env" where
  "sample_startup =
     \<lparr>se_select = (\<lambda>n. int (min n 100)), se_failed = (\<lambda>n. int (min n 100)),
      se_register = (\<lambda>n _. if n < 2 then Inl \<lparr>rf_error = [], rf_status = Some 503, rf_retry_after = Some (secs 600)\<rparr> else Inr 3600),
      se_routed = (\<lambda>_. True)\<rparr>"

lemma sample_startup_run:
  "\<exists>tried p'. snd (register_via_pool 3 sample_startup (\<lambda>_. 0) (\<lambda>_. None) sample_pool) = Some (tried, Inr 3600, p') \<and> length tried = 3"
  by (simp add: register_via_pool_def forget_outage_def has_unmarked_def sample_startup_def sample_pool_eq numeral_3_eq_3 select_def choose_pcscf_def candidates_def
      dedup_def known_def is_marked_def is_ipv4_def cause_of_def Pcscf_Pool.TIMER_F_def on_failure_def mark_duration_def MARK_BASE_def MARK_CAP_def
      MARK_EXTRA_def MAX_U32_def checked_add_def MAX_SYSTEM_TIME_def FAR_FUTURE_def next_eligible_def Let_def less_ip_def less_eq_ip_def)

theorem startup_tries_each_once_witness:
  "\<exists>tried p'. snd (register_via_pool 3 sample_startup (\<lambda>_. 0) (\<lambda>_. None) sample_pool) = Some (tried, Inr 3600, p') \<and>
     length tried = 3 \<and> distinct tried"
proof -
  have "startup_clock 0 sample_startup" by (auto simp: startup_clock_def sample_startup_def Pcscf_Pool.TIMER_F_def min_def)
  moreover have "0 + int Pcscf_Pool.TIMER_F + int FAR_FUTURE \<le> MAX_SYSTEM_TIME" by (simp add: Pcscf_Pool.TIMER_F_def FAR_FUTURE_def MAX_SYSTEM_TIME_def)
  moreover have "bt_inv (pc_marks sample_pool)" "\<forall>(a, m) \<in> set (pc_marks sample_pool). mk_failures m < MAX_U32" by (simp_all add: sample_pool_eq bt_inv_def)
  moreover have "card {a. known sample_pool a} = 3" unfolding sample_known by simp
  ultimately show ?thesis
    using startup_tries_each_once [of 0 sample_startup sample_pool "\<lambda>_. 0" "\<lambda>_. None"] sample_startup_run by auto
qed

end
