(* ===== verification/Spec2Isabelle.thy ===== *)
theory Spec2Isabelle
  imports Rtp_Reorder Amr_Relay Card_Pool Sms_Routes Pcscf_Pool Sdp Renewal
begin

text \<open>
  Verification of the bridge between mobile networks and a SIP exchange (the crate \<^verbatim>\<open>gsm-sip-bridge/src\<close>, to which the
  file names below are relative). A line is a SIM card. It is served either by a modem over its serial port
  (circuit-switched) or by an agent that registers with the operator's IMS over VoLTE or VoWiFi. Calls and texts of a
  line are handed to the exchange and back.

  \<^bold>\<open>Parts of the program and how they interact.\<close>

  \<^item> Media. The carrier sends RTP, which is put in order, its AMR frames are repacked for the client, and RTCP reports
    go back. What both legs agreed on comes from the SDP exchange.

  \<^item> Texts. A text reaches a line by an inbound \<^verbatim>\<open>MESSAGE\<close> over the registration or by the storage of its modem. Both
    routes claim it in one store, decode it, reassemble long texts and relay it once.

  \<^item> Registration. The agent picks a P-CSCF from the pool the network advertises, registers through it, subscribes to
    the reg-event package, keeps the connection alive, and renews or recovers the registration around running calls.

  \<^item> Cards. The pool of modems starts, retries and restarts the workers of the circuit-switched lines, assigns calls
    to idle lines, and runs the scheduled restart cycle over them.

  \<^bold>\<open>Conventions.\<close> A machine integer is a word of its width where wrap-around can happen, \<^verbatim>\<open>usize\<close> and the lengths of
  slices are natural numbers. \<^verbatim>\<open>Instant\<close> and \<^verbatim>\<open>Duration\<close> are natural numbers of nanoseconds, the wall clock is an integer
  of nanoseconds. A \<^verbatim>\<open>String\<close> is the list of its Unicode scalar values, with UTF-8 as a conversion. A \<^verbatim>\<open>Result\<close> is a sum
  with the error on the left; a panic is the outer value \<open>None\<close> of an option. Sockets, clocks, modems, the stores and
  the other processes are records of functions or answers that the operations take as an argument, so a theorem holds
  for every behaviour of them. Mutable state is passed explicitly and threads appear as interleaved events.

  \<^bold>\<open>Foundations.\<close> \<open>Bridge_Prelude\<close> has the types, slices, big-endian integers and the fact collections;
  \<open>Rust_Collections\<close> has \<^verbatim>\<open>BTreeMap\<close> and \<^verbatim>\<open>HashMap\<close> as the sources use them; \<open>Utf8_Text\<close>, \<open>Rust_Text\<close> and
  \<open>Rust_Net\<close> have the text operations, number parsers and IP addresses of the standard library.

  \<^bold>\<open>Media.\<close>

  \<^item> \<open>Rtp\<close> is \<^verbatim>\<open>ims/rtp.rs\<close>. Packet building and parsing: the parser accepts exactly the packets of the RFC 3550 grammar.
    The mu-law codec is a round trip on all octets but negative zero.

  \<^item> \<open>Rtp_Reorder\<close> is \<^verbatim>\<open>ims/rtp_reorder.rs\<close>. State \<open>reorder_buffer\<close>. Packets leave in sequence order on the 16-bit circle
    and wait no longer than the configured time.

  \<^item> \<open>Amr_Rtp\<close>, \<open>Amr_Repack\<close>, \<open>Amr_Params\<close> and \<open>Amr_Relay\<close> are \<^verbatim>\<open>ims/amr_rtp.rs\<close> and \<^verbatim>\<open>amr_forward\<close>. Framing over a
    bit reader and writer, conversion between the packings, compatibility of two legs, and the pump. Repacking
    preserves the packet and never panics; the relay sends no mode request outside the carrier's set.

  \<^item> \<open>Media_Stats\<close> and \<open>Rtcp\<close> are \<^verbatim>\<open>ims/media_stats.rs\<close> and \<^verbatim>\<open>ims/rtcp.rs\<close>: counters, wire format, compound parser,
    source guard, port binding and the report loop.

  \<^item> \<open>Sdp\<close> is \<^verbatim>\<open>ims/sdp.rs\<close>. Offers and answers, both as builder and as reader. An answer reads back as this end of the
    offer, and two instances of the bridge agree on codec, payload type and framing.

  \<^bold>\<open>SIP and texts.\<close>

  \<^item> \<open>Sip_Message\<close>, \<open>Sip_Identity\<close>, \<open>Mime_Body\<close> and \<open>Ims_Session\<close> are \<^verbatim>\<open>ims/sip_client.rs\<close>, \<^verbatim>\<open>ims/identity.rs\<close>, \<^verbatim>\<open>ims/body.rs\<close>
    and the pure parts of \<^verbatim>\<open>ims/session.rs\<close> and \<^verbatim>\<open>ims/mod.rs\<close>: message framing, caller identity, multipart bodies, and
    the requests of a registered session. The session part is found in every well-formed tree of multipart bodies.

  \<^item> \<open>Sms_Pdu\<close> is \<^verbatim>\<open>ims/sms_pdu.rs\<close>: every deliverable message decodes to what was encoded.

  \<^item> \<open>Sms_Dedupe\<close>, \<open>Sms_Reassembly\<close> and \<open>Sms_Sweep\<close> are \<^verbatim>\<open>volte/sms.rs\<close> and \<^verbatim>\<open>sms/reader.rs\<close>; \<open>Sms_Inbound\<close> is the
    \<^verbatim>\<open>MESSAGE\<close> handler of \<^verbatim>\<open>ims/agent/mod.rs\<close> and its flush of parts that waited too long. Parts complete in any order; a
    delivery report leaves, and a stored text is cleared, only when nothing can be lost.

  \<^item> \<open>Sms_Routes\<close> cuts the handler, the flush and the sweep where they take the lock of the store and interleaves the two
    threads as \<open>text_event\<close>s over \<open>line_texts\<close>. A text that is not a part of a longer one is handed over at most once
    while its key is not evicted. A part of a longer one can be flushed without a claim, so it is left out.

  \<^bold>\<open>Registration.\<close>

  \<^item> \<open>Pcscf_Pool\<close> is \<^verbatim>\<open>ims/agent/pcscf_pool.rs\<close> with the files of \<^verbatim>\<open>ims/pcscf_files.rs\<close> as values. State \<open>pcscf_pool\<close>.
    Reachable pools are well formed, a run of failures tries every address before any again, and the marks survive a
    restart of the agent.

  \<^item> \<open>Reg_Event\<close> is the reg-event part of \<^verbatim>\<open>ims/session.rs\<close>, from the text of the document to the verdict: a
    deregistration is acted on only when it concerns the binding of this line.

  \<^item> \<open>Reg_Subscription\<close> is \<^verbatim>\<open>ims/agent/reg_subscription.rs\<close>. State \<open>reg_subscription\<close>, runs of \<open>sub_event\<close>. Requests are
    spaced, the subscription is never forgotten, and the NOTIFYs of a replaced one are recognised.

  \<^item> \<open>Gm_Keepalive\<close> is \<^verbatim>\<open>ims/agent/ping.rs\<close>: a silent connection is given up within a bound.

  \<^item> \<open>Renewal\<close> is the upkeep of a registration in \<^verbatim>\<open>ims/agent/mod.rs\<close>, the outcome of a refresh in place in
    \<^verbatim>\<open>ims/agent/registration_refresh.rs\<close> and the maintenance policy of \<^verbatim>\<open>ims/lifecycle.rs\<close>. State \<open>loop_state\<close>, runs of
    line events. No call is cut by a renewal or an exit, six setbacks in a row end the agent, a rejection is held off,
    and the registration at startup tries each address once.

  \<^bold>\<open>Cards.\<close>

  \<^item> \<open>Restart_Scheduler\<close> is \<^verbatim>\<open>modules/scheduler.rs\<close>, \<^verbatim>\<open>modules/restart_policy.rs\<close> and the configuration sections they use.
    A cycle ends, and every card gets one final outcome.

  \<^item> \<open>Card_Pool\<close> is \<^verbatim>\<open>modules/slot.rs\<close> and \<^verbatim>\<open>modules/pool\<close>. The pool stays well formed over all runs, a line in service is
    not displaced, calls go to idle lines, and the scheduled restart spares calls. The \<^verbatim>\<open>HashMap\<close> of the entries is an
    association list: a search takes the first match of the list, where the code takes any.

  \<^bold>\<open>Interfaces.\<close> Each is a locale, interpreted on the definitions of the component that provides it: \<open>fixed_width_codec\<close>
  (16- and 32-bit big-endian integers), \<open>rust_map\<close> (the ordered and the hash map), \<open>bit_source\<close> and \<open>bit_sink\<close> (the AMR
  bit reader and writer), \<open>claim_store\<close> (the claims of texts), \<open>slot_view_laws\<close> (the scheduler's view of the pool).

  \<^bold>\<open>Bounds and fuel.\<close> Loops are total functions with a measure wherever the source bounds them. Fuel is used for the
  attempts at startup (\<open>register_attempts\<close>); the number of known P-CSCFs is enough, because each attempt that goes on
  has marked another address. A restart cycle over \<open>n\<close> cards takes at most \<open>106 n + 1\<close> ticks (two
  turns of a card, each of at most 53 ticks until its timeout), the wait for the other route of a text at most 17 polls.

  \<^bold>\<open>Defects shown.\<close> Some theorems state behaviour that the documentation excludes: a gap between card restarts that is
  drawn and not waited for, a late exit that parks a replaced worker's line, a subscription with unknown expiry that is
  never refreshed, a refused refresh that cuts the hold after a rejection, and an owed exit that outlives the recovery
  of the line. They are stated for the code as it is.

  \<^bold>\<open>Not modelled.\<close>

  \<^item> The REGISTER exchange (USIM, AKA digests, kernel IPsec), the sockets and their reader threads. Their answers are
    arguments of \<open>Renewal\<close> and \<open>Reg_Subscription\<close>. A refresh in place that is in flight appears with its outcome only, so
    its retransmissions are not among the registrations that \<open>line_run\<close> lists.

  \<^item> Call set-up and tear-down of the agent (\<^verbatim>\<open>ims/agent/inbound.rs\<close>, \<^verbatim>\<open>ims/agent/origination.rs\<close>, \<^verbatim>\<open>ims/call.rs\<close>,
    \<^verbatim>\<open>ims/agent/call.rs\<close> apart from dialog data, \<^verbatim>\<open>ims/agent/veth.rs\<close>): handlers that interleave two sockets, a control
    channel and relay threads. \<open>Renewal\<close> only sees that calls begin and end.

  \<^item> The session timer of a call (\<^verbatim>\<open>ims/agent/session_refresh.rs\<close>) and the stall detector (\<^verbatim>\<open>ims/agent/watchdog.rs\<close>). The
    first belongs to the calls above; the second samples atomics of other threads and ends the process.

  \<^item> PJSUA and the AMR codec: C libraries outside the sources. The SIP legs built on them (\<^verbatim>\<open>sip\<close>) are call-backs.

  \<^item> The SQL store, the web interface, metrics, logging and alerts: queries, HTTP and output.

  \<^item> Process supervision, network namespaces, tunnels, modem configuration, device discovery and audio devices:
    effects on the operating system.

  \<^item> Command line, configuration sections other than restart and resilience, and the JSON form of messages and files:
    derived by libraries from the types.

  \<^item> The floating-point jitter estimate and the random cadence of RTCP reports; the latter is an argument.
\<close>

end
